(* ===== verification/Prelude.thy ===== *)
theory Prelude
  imports Main "HOL-Library.Signed_Division"
begin

unbundle bit_operations_syntax

text \<open>
  What every component of the development shares: the named collections of
  rewrite rules, the arithmetic of fixed-width values kept as integers
  (\<open>llvm::APInt\<close> and the native \<open>unsigned\<close> types of the C++ code), and a few
  facts on lists, options and relations.
\<close>

named_theorems eval_simps \<open>how evaluation acts on the expression constructors\<close>
named_theorems sound_intros \<open>soundness rules of the expression creators\<close>
named_theorems frame_simps \<open>what an operation leaves unchanged\<close>

type_synonym width = nat

section \<open>Fixed-width values\<close>

text \<open>
  A value of width \<open>w\<close> is an integer \<open>v\<close> with \<open>0 \<le> v < 2 ^ w\<close>; its signed
  reading is \<open>sval w v\<close>. \<open>in_width\<close> is the invariant that the arithmetic below
  keeps.
\<close>

definition in_width :: "width \<Rightarrow> int \<Rightarrow> bool" where
  "in_width w v \<longleftrightarrow> 0 \<le> v \<and> v < 2 ^ w"

definition sval :: "width \<Rightarrow> int \<Rightarrow> int" where
  "sval w v = signed_take_bit (w - 1) v"

lemma in_width_take_bit [simp]: "in_width w (take_bit w v)"
  by (simp add: in_width_def)

lemma in_width_mod [simp]: "in_width w (v mod 2 ^ w)"
  by (simp add: in_width_def)

lemma take_bit_in_width: "in_width w v \<Longrightarrow> take_bit w v = v"
  by (simp add: in_width_def take_bit_int_eq_self)

lemma in_width_iff_take_bit: "in_width w v \<longleftrightarrow> take_bit w v = v"
  using in_width_take_bit[of w v] take_bit_in_width by metis

lemma in_width_mono: "in_width w v \<Longrightarrow> w \<le> w' \<Longrightarrow> in_width w' v"
  by (auto simp: in_width_def intro: less_le_trans power_increasing)

lemma in_width_of_bool [simp]: "in_width (Suc 0) (of_bool b)"
  by (simp add: in_width_def)

lemma in_width_0 [simp]: "in_width w 0"
  by (simp add: in_width_def)

lemma in_width_bool: "in_width (Suc 0) v \<longleftrightarrow> v = 0 \<or> v = 1"
  by (auto simp: in_width_def)

lemma in_width_and: "in_width w x \<Longrightarrow> in_width w y \<Longrightarrow> in_width w (x AND y)"
  by (simp add: in_width_iff_take_bit)

lemma in_width_or: "in_width w x \<Longrightarrow> in_width w y \<Longrightarrow> in_width w (x OR y)"
  by (simp add: in_width_iff_take_bit)

lemma in_width_xor: "in_width w x \<Longrightarrow> in_width w y \<Longrightarrow> in_width w (x XOR y)"
  by (simp add: in_width_iff_take_bit)

lemma in_width_drop_bit: "in_width w x \<Longrightarrow> in_width w (drop_bit n x)"
proof -
  assume x: "in_width w x"
  then have "0 \<le> x" "x < 2 ^ w" by (auto simp: in_width_def)
  moreover have "x div 2 ^ n \<le> x"
    using \<open>0 \<le> x\<close> zdiv_mono2[of x 1 "2 ^ n"] by simp
  ultimately show ?thesis
    by (simp add: in_width_def drop_bit_eq_div pos_imp_zdiv_nonneg_iff)
qed

section \<open>Results\<close>

text \<open>
  What ends a computation of the program without a value: a failed \<open>assert\<close>, the
  abort of \<open>APInt\<close>'s division, an invalid constraint, an out-of-range access, a null pointer, a
  function that ends without returning its value, the use of an iterator that an insertion has
  invalidated, and, for the loops the model runs on fuel, that the fuel ran out.
\<close>

datatype error =
    AssertionFailed
  | DivisionByZero
  | InvalidConstraint
  | OutOfBounds
  | NullDereference
  | NoReturnValue
  | InvalidIterator
  | OutOfFuel

type_synonym 'a result = "error + 'a"

fun bind_res :: "'a result \<Rightarrow> ('a \<Rightarrow> 'b result) \<Rightarrow> 'b result" where
  "bind_res (Inl x) f = Inl x"
| "bind_res (Inr a) f = f a"

definition map_res :: "('a \<Rightarrow> 'b) \<Rightarrow> 'a result \<Rightarrow> 'b result" where
  "map_res f x = bind_res x (\<lambda>a. Inr (f a))"

definition assert_res :: "bool \<Rightarrow> 'a result \<Rightarrow> 'a result" where
  "assert_res b x = (if b then x else Inl AssertionFailed)"

fun of_option :: "error \<Rightarrow> 'a option \<Rightarrow> 'a result" where
  "of_option x None = Inl x"
| "of_option x (Some a) = Inr a"

lemma bind_res_Inr [simp]: "bind_res x f = Inr b \<longleftrightarrow> (\<exists>a. x = Inr a \<and> f a = Inr b)"
  by (cases x) auto

lemma bind_res_Inl: "bind_res x f = Inl err \<longleftrightarrow> x = Inl err \<or> (\<exists>a. x = Inr a \<and> f a = Inl err)"
  by (cases x) auto

lemma map_res_Inr [simp]: "map_res f x = Inr b \<longleftrightarrow> (\<exists>a. x = Inr a \<and> b = f a)"
  by (auto simp: map_res_def)

lemma map_res_Inl [simp]: "map_res f x = Inl err \<longleftrightarrow> x = Inl err"
  by (cases x) (auto simp: map_res_def)

lemma assert_res_Inr [simp]: "assert_res b x = Inr a \<longleftrightarrow> b \<and> x = Inr a"
  by (simp add: assert_res_def)

lemma of_option_Inr [simp]: "of_option err x = Inr a \<longleftrightarrow> x = Some a"
  by (cases x) auto

lemma of_option_Inl [simp]: "of_option err x = Inl err' \<longleftrightarrow> x = None \<and> err' = err"
  by (cases x) auto

lemma bind_res_cong [fundef_cong]:
  assumes "x = y" and "\<And>a. y = Inr a \<Longrightarrow> f a = g a"
  shows "bind_res x f = bind_res y g"
  using assms by (cases y) auto

section \<open>Persistent maps\<close>

text \<open>
  The interface of a persistent map whose entries carry their key: what its clients rely on
  of lookup, replacement and removal. The map is only as good as its invariant \<open>ok\<close>.
\<close>

locale persistent_map =
  fixes look :: "'m \<Rightarrow> 'k \<Rightarrow> 'e option"
    and key :: "'e \<Rightarrow> 'k"
    and repl :: "'e \<Rightarrow> 'm \<Rightarrow> 'm"
    and remv :: "'k \<Rightarrow> 'm \<Rightarrow> 'm"
    and ok :: "'m \<Rightarrow> bool"
  assumes ok_repl: "ok m \<Longrightarrow> ok (repl e m)"
    and ok_remv: "ok m \<Longrightarrow> ok (remv k m)"
    and look_repl: "ok m \<Longrightarrow> look (repl e m) k = (if k = key e then Some e else look m k)"
    and look_remv: "ok m \<Longrightarrow> look (remv k' m) k = (if k = k' then None else look m k)"
    and look_key: "ok m \<Longrightarrow> look m k = Some e \<Longrightarrow> key e = k"
begin

lemma look_repl_same: "ok m \<Longrightarrow> look (repl e m) (key e) = Some e"
  by (simp add: look_repl)

lemma look_repl_other: "ok m \<Longrightarrow> k \<noteq> key e \<Longrightarrow> look (repl e m) k = look m k"
  by (simp add: look_repl)

lemma look_remv_repl:
  "ok m \<Longrightarrow> look (remv (key e) (repl e m)) k = (if k = key e then None else look m k)"
  by (simp add: look_remv look_repl ok_repl)

lemma look_repl_repl: "ok m \<Longrightarrow> key e = key e' \<Longrightarrow> look (repl e (repl e' m)) k = look (repl e m) k"
  by (simp add: look_repl ok_repl)

lemma look_fold_remv:
  "ok m \<Longrightarrow> ok (fold remv ks m) \<and> look (fold remv ks m) k = (if k \<in> set ks then None else look m k)"
  by (induction ks arbitrary: m) (auto simp: look_remv ok_remv)

end

end
