(* ===== verification/Expr.thy ===== *)
theory Expr
  imports Prelude
begin

text \<open>
  The expression language of \<open>klee/include/klee/Expr/Expr.h\<close>: arrays, update lists
  and the \<open>Expr\<close> class hierarchy as datatypes, the width of an expression, the
  well-formedness the \<open>assert\<close>s of the code rely on, and the value of an expression
  under an assignment of the symbolic arrays.

  \<open>ConstantExpr\<close> holds an \<open>llvm::APInt\<close>: here \<open>Constant w v\<close> with \<open>in_width w v\<close>,
  and the operations of \<open>APInt\<close> are two's-complement arithmetic at that width. The
  subclasses that the macros \<open>ARITHMETIC_EXPR_CLASS\<close>, \<open>COMPARISON_EXPR_CLASS\<close> and
  \<open>CAST_EXPR_CLASS\<close> generate are the kinds of \<open>Binary\<close> and \<open>Cast\<close>. The equality
  \<open>ref<Expr>::operator==\<close>, which is \<open>Expr::compare(..) == 0\<close>, is equality of terms;
  an array is its contents, so two \<open>Array\<close> objects with equal fields are not told apart.
\<close>

section \<open>Kinds, arrays, expressions\<close>

datatype binKind =
    Add | Sub | Mul | UDiv | SDiv | URem | SRem
  | And | Or | Xor | Shl | LShr | AShr
  | Eq | Ne | Ult | Ule | Ugt | Uge | Slt | Sle | Sgt | Sge

datatype castKind = ZExt | SExt

text \<open>\<open>CmpExpr::classof\<close>: the kinds from \<open>CmpKindFirst\<close> to \<open>CmpKindLast\<close>.\<close>

fun isCmp :: "binKind \<Rightarrow> bool" where
  "isCmp Eq = True" | "isCmp Ne = True"
| "isCmp Ult = True" | "isCmp Ule = True" | "isCmp Ugt = True" | "isCmp Uge = True"
| "isCmp Slt = True" | "isCmp Sle = True" | "isCmp Sgt = True" | "isCmp Sge = True"
| "isCmp _ = False"

record array =
  arr_name :: string
  arr_size :: nat
  arr_domain :: width
  arr_range :: width
  constantValues :: "int list"

definition isSymbolicArray :: "array \<Rightarrow> bool" where
  "isSymbolicArray a \<longleftrightarrow> constantValues a = []"

definition isConstantArray :: "array \<Rightarrow> bool" where
  "isConstantArray a \<longleftrightarrow> \<not> isSymbolicArray a"

text \<open>
  An \<open>UpdateList\<close> is its root array and the chain of \<open>UpdateNode\<close>s that starts at
  \<open>head\<close>, the most recent write first.
\<close>

datatype expr =
    Constant width int
  | NotOptimized expr
  | Read array updates expr
  | Select expr expr expr
  | Concat expr expr
  | Extract expr nat width
  | Cast castKind expr width
  | NotE expr
  | Binary binKind expr expr
and updates =
    UNull
  | UNode (un_index: expr) (un_value: expr) (un_next: updates)

fun getSize :: "updates \<Rightarrow> nat" where
  "getSize UNull = 0"
| "getSize (UNode i v u) = 1 + getSize u"

primrec getWidth :: "expr \<Rightarrow> width" where
  "getWidth (Constant w v) = w"
| "getWidth (NotOptimized e) = getWidth e"
| "getWidth (Read a ul i) = arr_range a"
| "getWidth (Select c t f) = getWidth t"
| "getWidth (Concat l r) = getWidth l + getWidth r"
| "getWidth (Extract e off w) = w"
| "getWidth (Cast k e w) = w"
| "getWidth (NotE e) = getWidth e"
| "getWidth (Binary k l r) = (if isCmp k then 1 else getWidth l)"

fun is_Constant :: "expr \<Rightarrow> bool" where
  "is_Constant (Constant w v) = True"
| "is_Constant _ = False"

text \<open>
  \<open>dyn_cast<ConstantExpr>\<close>, and \<open>dyn_cast\<close> to the binary class of one kind and to the
  cast class of one kind.
\<close>

fun dyn_cast_Constant :: "expr \<Rightarrow> (width \<times> int) option" where
  "dyn_cast_Constant (Constant w v) = Some (w, v)"
| "dyn_cast_Constant _ = None"

fun dyn_cast_Binary :: "binKind \<Rightarrow> expr \<Rightarrow> (expr \<times> expr) option" where
  "dyn_cast_Binary k (Binary k' l r) = (if k = k' then Some (l, r) else None)"
| "dyn_cast_Binary k _ = None"

fun dyn_cast_Cast :: "castKind \<Rightarrow> expr \<Rightarrow> expr option" where
  "dyn_cast_Cast k (Cast k' e w) = (if k = k' then Some e else None)"
| "dyn_cast_Cast k _ = None"

fun dyn_cast_Read :: "expr \<Rightarrow> (array \<times> updates \<times> expr) option" where
  "dyn_cast_Read (Read a ul i) = Some (a, ul, i)"
| "dyn_cast_Read _ = None"

fun dyn_cast_Extract :: "expr \<Rightarrow> (expr \<times> nat \<times> width) option" where
  "dyn_cast_Extract (Extract e off w) = Some (e, off, w)"
| "dyn_cast_Extract _ = None"

fun dyn_cast_Concat :: "expr \<Rightarrow> (expr \<times> expr) option" where
  "dyn_cast_Concat (Concat l r) = Some (l, r)"
| "dyn_cast_Concat _ = None"

lemma dyn_cast_Constant_Some: "dyn_cast_Constant e = Some (w, v) \<longleftrightarrow> e = Constant w v"
  by (cases e) auto

lemma dyn_cast_Constant_None: "dyn_cast_Constant e = None \<longleftrightarrow> \<not> is_Constant e"
  by (cases e) auto

lemma dyn_cast_Binary_Some: "dyn_cast_Binary k e = Some (l, r) \<longleftrightarrow> e = Binary k l r"
  by (cases e) auto

lemma dyn_cast_Cast_Some: "dyn_cast_Cast k e = Some s \<longleftrightarrow> (\<exists>w. e = Cast k s w)"
  by (cases e) auto

lemma dyn_cast_Read_Some: "dyn_cast_Read e = Some (a, ul, i) \<longleftrightarrow> e = Read a ul i"
  by (cases e) auto

lemma dyn_cast_Extract_Some: "dyn_cast_Extract e = Some (s, off, w) \<longleftrightarrow> e = Extract s off w"
  by (cases e) auto

lemma dyn_cast_Concat_Some: "dyn_cast_Concat e = Some (l, r) \<longleftrightarrow> e = Concat l r"
  by (cases e) auto

lemmas dyn_casts = dyn_cast_Constant_Some dyn_cast_Constant_None dyn_cast_Binary_Some
  dyn_cast_Cast_Some dyn_cast_Read_Some dyn_cast_Extract_Some dyn_cast_Concat_Some

lemma dyn_casts_sym:
  "Some (w, v) = dyn_cast_Constant e \<longleftrightarrow> e = Constant w v"
  "Some (s, off, w) = dyn_cast_Extract e \<longleftrightarrow> e = Extract s off w"
  "Some (l, r) = dyn_cast_Concat e \<longleftrightarrow> e = Concat l r"
  by (metis dyn_casts)+

text \<open>\<open>Expr::isZero\<close>, \<open>isTrue\<close>, \<open>isFalse\<close> and the tests on a constant's value.\<close>

fun isZero :: "expr \<Rightarrow> bool" where
  "isZero (Constant w v) = (v = 0)"
| "isZero _ = False"

fun isTrue :: "expr \<Rightarrow> bool" where
  "isTrue (Constant w v) = (w = 1 \<and> v \<noteq> 0)"
| "isTrue _ = False"

fun isFalse :: "expr \<Rightarrow> bool" where
  "isFalse (Constant w v) = (w = 1 \<and> v = 0)"
| "isFalse _ = False"

definition CE_isOne :: "int \<Rightarrow> bool" where
  "CE_isOne v \<longleftrightarrow> v = 1"

definition CE_isAllOnes :: "width \<Rightarrow> int \<Rightarrow> bool" where
  "CE_isAllOnes w v \<longleftrightarrow> v = 2 ^ w - 1"

definition getMinBytesForWidth :: "width \<Rightarrow> nat" where
  "getMinBytesForWidth w = (w + 7) div 8"

section \<open>Arithmetic of constants\<close>

text \<open>
  \<open>APInt\<close> arithmetic at width \<open>w\<close>: what \<open>ConstantExpr::Add\<close> up to
  \<open>ConstantExpr::Sge\<close> compute, on values in \<open>[0, 2^w)\<close>. A comparison gives 0 or 1.
  \<open>APInt::udiv\<close>, \<open>sdiv\<close>, \<open>urem\<close> and \<open>srem\<close> require a non-zero divisor and no
  creator folds a division by zero. The value of a division node whose divisor is zero is open;
  reading a zero divisor as 1 is the choice that the rewriting of one-bit divisions
  (\<open>l / r\<close> is \<open>l\<close>, \<open>l % r\<close> is 0, whatever \<open>r\<close> is) respects.
\<close>

definition divisor :: "int \<Rightarrow> int" where
  "divisor y = (if y = 0 then 1 else y)"

fun ap_op :: "binKind \<Rightarrow> width \<Rightarrow> int \<Rightarrow> int \<Rightarrow> int" where
  "ap_op Add w x y = take_bit w (x + y)"
| "ap_op Sub w x y = take_bit w (x - y)"
| "ap_op Mul w x y = take_bit w (x * y)"
| "ap_op UDiv w x y = x div divisor y"
| "ap_op SDiv w x y = take_bit w (sval w x sdiv sval w (divisor y))"
| "ap_op URem w x y = x mod divisor y"
| "ap_op SRem w x y = take_bit w (sval w x smod sval w (divisor y))"
| "ap_op And w x y = x AND y"
| "ap_op Or w x y = x OR y"
| "ap_op Xor w x y = x XOR y"
| "ap_op Shl w x y = (if y \<ge> int w then 0 else take_bit w (push_bit (nat y) x))"
| "ap_op LShr w x y = (if y \<ge> int w then 0 else drop_bit (nat y) x)"
| "ap_op AShr w x y = take_bit w (drop_bit (if y \<ge> int w then w else nat y) (sval w x))"
| "ap_op Eq w x y = of_bool (x = y)"
| "ap_op Ne w x y = of_bool (x \<noteq> y)"
| "ap_op Ult w x y = of_bool (x < y)"
| "ap_op Ule w x y = of_bool (x \<le> y)"
| "ap_op Ugt w x y = of_bool (x > y)"
| "ap_op Uge w x y = of_bool (x \<ge> y)"
| "ap_op Slt w x y = of_bool (sval w x < sval w y)"
| "ap_op Sle w x y = of_bool (sval w x \<le> sval w y)"
| "ap_op Sgt w x y = of_bool (sval w x > sval w y)"
| "ap_op Sge w x y = of_bool (sval w x \<ge> sval w y)"

text \<open>\<open>ConstantExpr::Add\<close> .. \<open>ConstantExpr::Sge\<close>: the result as an expression.\<close>

definition ConstantExpr_op :: "binKind \<Rightarrow> width \<Rightarrow> int \<Rightarrow> int \<Rightarrow> expr" where
  "ConstantExpr_op k w x y = Constant (if isCmp k then 1 else w) (ap_op k w x y)"

definition ConstantExpr_Neg :: "width \<Rightarrow> int \<Rightarrow> expr" where
  "ConstantExpr_Neg w x = Constant w (take_bit w (- x))"

definition ConstantExpr_Not :: "width \<Rightarrow> int \<Rightarrow> expr" where
  "ConstantExpr_Not w x = Constant w (take_bit w (NOT x))"

definition ConstantExpr_Concat :: "width \<Rightarrow> int \<Rightarrow> width \<Rightarrow> int \<Rightarrow> expr" where
  "ConstantExpr_Concat w x w' y =
     Constant (w + w') (take_bit (w + w') (push_bit w' x) OR y)"

definition ConstantExpr_Extract :: "width \<Rightarrow> int \<Rightarrow> nat \<Rightarrow> width \<Rightarrow> expr" where
  "ConstantExpr_Extract w x off w' =
     Constant w' (take_bit w' (take_bit w (drop_bit off (sval w x))))"

definition ConstantExpr_ZExt :: "width \<Rightarrow> int \<Rightarrow> width \<Rightarrow> expr" where
  "ConstantExpr_ZExt w x w' = Constant w' (take_bit w' x)"

definition ConstantExpr_SExt :: "width \<Rightarrow> int \<Rightarrow> width \<Rightarrow> expr" where
  "ConstantExpr_SExt w x w' = Constant w' (take_bit w' (sval w x))"

section \<open>Well-formedness\<close>

text \<open>
  What the \<open>assert\<close>s of the creators and of \<open>Array::Array\<close> demand: the operands of
  a binary expression have one width, a condition has width 1, an extract stays inside its
  operand, a cast does not narrow, an update writes values of the array's range at indices of
  its domain. An index fits the 32 bits that \<open>ExprEvaluator::evalRead\<close> keeps it in (every
  array of the program is created with the default domain, \<open>Expr::Int32\<close>).
\<close>

definition wf_array :: "array \<Rightarrow> bool" where
  "wf_array a \<longleftrightarrow> 0 < arr_range a \<and> 0 < arr_domain a \<and> arr_domain a \<le> 32
     \<and> (isConstantArray a \<longrightarrow> length (constantValues a) = arr_size a)
     \<and> (\<forall>v \<in> set (constantValues a). in_width (arr_range a) v)"

primrec wf_expr :: "expr \<Rightarrow> bool" and wf_updates :: "updates \<Rightarrow> array \<Rightarrow> bool" where
  "wf_expr (Constant w v) = (0 < w \<and> in_width w v)"
| "wf_expr (NotOptimized e) = wf_expr e"
| "wf_expr (Read a ul i) =
     (wf_array a \<and> wf_updates ul a \<and> wf_expr i \<and> getWidth i = arr_domain a)"
| "wf_expr (Select c t f) =
     (wf_expr c \<and> wf_expr t \<and> wf_expr f \<and> getWidth c = 1 \<and> getWidth t = getWidth f)"
| "wf_expr (Concat l r) = (wf_expr l \<and> wf_expr r)"
| "wf_expr (Extract e off w) = (wf_expr e \<and> 0 < w \<and> off + w \<le> getWidth e)"
| "wf_expr (Cast k e w) = (wf_expr e \<and> getWidth e \<le> w)"
| "wf_expr (NotE e) = wf_expr e"
| "wf_expr (Binary k l r) = (wf_expr l \<and> wf_expr r \<and> getWidth l = getWidth r)"
| "wf_updates UNull a = True"
| "wf_updates (UNode i v u) a =
     (wf_expr i \<and> wf_expr v \<and> wf_updates u a
      \<and> getWidth i = arr_domain a \<and> getWidth v = arr_range a)"

lemma wf_width_pos: "wf_expr e \<Longrightarrow> 0 < getWidth e"
  by (induction e rule: expr.induct[where ?P2.0 = "\<lambda>_. True"]) (auto simp: wf_array_def)

section \<open>Evaluation\<close>

text \<open>
  The value of an expression under \<open>\<rho>\<close>, the initial contents of every array. A read
  at index \<open>j\<close> sees the most recent write at \<open>j\<close>, then the constant of a constant
  array, then \<open>\<rho>\<close>. This is the specification the creators are measured against.
\<close>

type_synonym env = "array \<Rightarrow> int \<Rightarrow> int"

definition wf_env :: "env \<Rightarrow> bool" where
  "wf_env \<rho> \<longleftrightarrow> (\<forall>a j. in_width (arr_range a) (\<rho> a j))"

definition initial_value :: "env \<Rightarrow> array \<Rightarrow> int \<Rightarrow> int" where
  "initial_value \<rho> a j =
     (if isConstantArray a \<and> 0 \<le> j \<and> j < int (arr_size a) then constantValues a ! nat j
      else \<rho> a j)"

fun cast_op :: "castKind \<Rightarrow> width \<Rightarrow> width \<Rightarrow> int \<Rightarrow> int" where
  "cast_op ZExt w w' v = take_bit w' v"
| "cast_op SExt w w' v = take_bit w' (sval w v)"

primrec eval :: "env \<Rightarrow> expr \<Rightarrow> int" and eval_read :: "env \<Rightarrow> updates \<Rightarrow> array \<Rightarrow> int \<Rightarrow> int" where
  "eval \<rho> (Constant w v) = v"
| "eval \<rho> (NotOptimized e) = eval \<rho> e"
| "eval \<rho> (Read a ul i) = eval_read \<rho> ul a (eval \<rho> i)"
| "eval \<rho> (Select c t f) = (if eval \<rho> c = 1 then eval \<rho> t else eval \<rho> f)"
| "eval \<rho> (Concat l r) = eval \<rho> l * 2 ^ getWidth r + eval \<rho> r"
| "eval \<rho> (Extract e off w) = take_bit w (drop_bit off (eval \<rho> e))"
| "eval \<rho> (Cast k e w) = cast_op k (getWidth e) w (eval \<rho> e)"
| "eval \<rho> (NotE e) = take_bit (getWidth e) (NOT (eval \<rho> e))"
| "eval \<rho> (Binary k l r) = ap_op k (getWidth l) (eval \<rho> l) (eval \<rho> r)"
| "eval_read \<rho> UNull a j = initial_value \<rho> a j"
| "eval_read \<rho> (UNode i v u) a j =
     (if eval \<rho> i = j then eval \<rho> v else eval_read \<rho> u a j)"

section \<open>Values stay in range\<close>

lemma divisor_pos: "in_width w y \<Longrightarrow> 0 < divisor y"
  by (auto simp: divisor_def in_width_def)

lemma in_width_udiv:
  assumes "in_width w x" "in_width w y"
  shows "in_width w (x div divisor y)"
proof -
  have "0 \<le> x" "x < 2 ^ w" "0 < divisor y"
    using assms(1) divisor_pos[OF assms(2)] by (auto simp: in_width_def)
  moreover have "x div divisor y \<le> x"
    using calculation zdiv_mono2[of x 1 "divisor y"] by simp
  ultimately show ?thesis by (simp add: in_width_def pos_imp_zdiv_nonneg_iff)
qed

lemma in_width_urem:
  assumes "in_width w x" "in_width w y" "0 < w"
  shows "in_width w (x mod divisor y)"
proof -
  have "0 < divisor y" by (rule divisor_pos[OF assms(2)])
  moreover have "divisor y \<le> 2 ^ w"
    using assms(2) by (auto simp: divisor_def in_width_def)
  ultimately show ?thesis
    using less_le_trans[OF pos_mod_bound[of "divisor y" x]] by (simp add: in_width_def)
qed

lemma in_width_ap_op:
  assumes "in_width w x" "in_width w y" "0 < w"
  shows "in_width (if isCmp k then 1 else w) (ap_op k w x y)"
  using assms
  by (cases k) (simp_all add: in_width_udiv in_width_urem in_width_and in_width_or
    in_width_xor in_width_drop_bit)

lemma in_width_cast_op: "in_width w' (cast_op k w w' v)"
  by (cases k) simp_all

lemma in_width_concat:
  assumes "in_width a x" "in_width b y"
  shows "in_width (a + b) (x * 2 ^ b + y)"
proof -
  from assms have "0 \<le> x" "x + 1 \<le> 2 ^ a" "0 \<le> y" "y < 2 ^ b" by (auto simp: in_width_def)
  moreover from \<open>x + 1 \<le> 2 ^ a\<close> have "(x + 1) * 2 ^ b \<le> 2 ^ a * 2 ^ b"
    by (rule mult_right_mono) simp
  ultimately show ?thesis
    by (simp add: in_width_def power_add distrib_right)
qed

lemma initial_value_range:
  assumes "wf_array a" "wf_env \<rho>"
  shows "in_width (arr_range a) (initial_value \<rho> a j)"
proof -
  have "constantValues a ! nat j \<in> set (constantValues a)"
    if "isConstantArray a" "0 \<le> j" "j < int (arr_size a)"
    using that assms(1) by (intro nth_mem) (auto simp: wf_array_def nat_less_iff)
  then show ?thesis
    using assms by (auto simp: initial_value_def wf_env_def wf_array_def)
qed

lemma eval_in_width_aux:
  "wf_env \<rho> \<Longrightarrow> wf_expr e \<Longrightarrow> in_width (getWidth e) (eval \<rho> e)"
  "wf_env \<rho> \<Longrightarrow> wf_array a \<Longrightarrow> wf_updates u a \<Longrightarrow> in_width (arr_range a) (eval_read \<rho> u a j)"
proof (induction e and u arbitrary: and a j)
  case (Binary k l r)
  then have "in_width (if isCmp k then 1 else getWidth l) (eval \<rho> (Binary k l r))"
    using in_width_ap_op[of "getWidth l" "eval \<rho> l" "eval \<rho> r" k] wf_width_pos[of l] by simp
  then show ?case by simp
next
  case (Cast k e w)
  then show ?case using in_width_cast_op[of w k "getWidth e" "eval \<rho> e"] by simp
qed (simp_all add: in_width_concat initial_value_range)

lemma eval_in_width: "wf_env \<rho> \<Longrightarrow> wf_expr e \<Longrightarrow> in_width (getWidth e) (eval \<rho> e)"
  by (rule eval_in_width_aux(1))

lemma eval_take_bit: "wf_env \<rho> \<Longrightarrow> wf_expr e \<Longrightarrow> take_bit (getWidth e) (eval \<rho> e) = eval \<rho> e"
  by (simp add: eval_in_width take_bit_in_width)

lemma eval_bool: "wf_env \<rho> \<Longrightarrow> wf_expr e \<Longrightarrow> getWidth e = 1 \<Longrightarrow> eval \<rho> e = 0 \<or> eval \<rho> e = 1"
  using eval_in_width[of \<rho> e] by (simp add: in_width_bool)

section \<open>Equivalence of expressions\<close>

text \<open>
  \<open>sem_eq e' e\<close>: whenever \<open>e\<close> is well-formed, \<open>e'\<close> is a well-formed expression of
  the same width and the same value under every assignment. A creator is correct when
  its result is \<open>sem_eq\<close> to the node it was asked for.
\<close>

definition sem_eq :: "expr \<Rightarrow> expr \<Rightarrow> bool" where
  "sem_eq e' e \<longleftrightarrow> (wf_expr e \<longrightarrow> wf_expr e' \<and> getWidth e' = getWidth e
     \<and> (\<forall>\<rho>. wf_env \<rho> \<longrightarrow> eval \<rho> e' = eval \<rho> e))"

lemma sem_eqI:
  assumes "wf_expr e \<Longrightarrow> wf_expr e'"
    and "wf_expr e \<Longrightarrow> getWidth e' = getWidth e"
    and "\<And>\<rho>. wf_expr e \<Longrightarrow> wf_env \<rho> \<Longrightarrow> eval \<rho> e' = eval \<rho> e"
  shows "sem_eq e' e"
  using assms by (simp add: sem_eq_def)

lemma sem_eq_refl [simp, sound_intros]: "sem_eq e e"
  by (simp add: sem_eq_def)

lemma sem_eq_trans [trans]: "sem_eq a b \<Longrightarrow> sem_eq b c \<Longrightarrow> sem_eq a c"
  by (simp add: sem_eq_def)

lemma sem_eqD:
  assumes "sem_eq e' e" "wf_expr e"
  shows "wf_expr e'" "getWidth e' = getWidth e" "wf_env \<rho> \<Longrightarrow> eval \<rho> e' = eval \<rho> e"
  using assms by (simp_all add: sem_eq_def)

lemma sem_eq_Binary:
  "sem_eq a' a \<Longrightarrow> sem_eq b' b \<Longrightarrow> sem_eq (Binary k a' b') (Binary k a b)"
  by (simp add: sem_eq_def)

lemma sem_eq_Extract: "sem_eq a' a \<Longrightarrow> sem_eq (Extract a' off w) (Extract a off w)"
  by (simp add: sem_eq_def)

lemma sem_eq_Concat: "sem_eq a' a \<Longrightarrow> sem_eq b' b \<Longrightarrow> sem_eq (Concat a' b') (Concat a b)"
  by (simp add: sem_eq_def)

lemma sem_eq_Cast: "sem_eq a' a \<Longrightarrow> sem_eq (Cast k a' w) (Cast k a w)"
  by (simp add: sem_eq_def)

lemma sem_eq_NotE: "sem_eq a' a \<Longrightarrow> sem_eq (NotE a') (NotE a)"
  by (simp add: sem_eq_def)

lemma sem_eq_NotOptimized: "sem_eq a' a \<Longrightarrow> sem_eq (NotOptimized a') (NotOptimized a)"
  by (simp add: sem_eq_def)

lemma sem_eq_Select:
  "sem_eq c' c \<Longrightarrow> sem_eq t' t \<Longrightarrow> sem_eq f' f \<Longrightarrow> sem_eq (Select c' t' f') (Select c t f)"
  by (simp add: sem_eq_def)

lemma sem_eq_Read: "sem_eq i' i \<Longrightarrow> sem_eq (Read a ul i') (Read a ul i)"
  by (simp add: sem_eq_def)

lemmas sem_eq_cong = sem_eq_Binary sem_eq_Extract sem_eq_Concat sem_eq_Cast sem_eq_NotE
  sem_eq_NotOptimized sem_eq_Select sem_eq_Read

end
