(* ===== verification/ExprCreate.thy ===== *)
theory ExprCreate
  imports Expr
begin

text \<open>
  The canonicalising creators of \<open>klee/lib/Expr/Expr.cpp\<close>. \<open>create_Add\<close> stands for
  \<open>AddExpr::create\<close>, \<open>AddExpr_create\<close> for the static function of that name, and so on.
  The lemmas show that each creator returns an expression \<open>sem_eq\<close> to the plain node.
  The four division creators abort on a constant zero divisor (\<open>APInt\<close>'s
  precondition), which is \<open>None\<close> here.
\<close>

section \<open>Binary creators without recursion\<close>

text \<open>The dispatch that the macro \<open>BCREATE_R\<close> generates, and that of \<open>BCREATE\<close>.\<close>

definition BCREATE_R ::
  "binKind \<Rightarrow> (expr \<Rightarrow> width \<Rightarrow> int \<Rightarrow> expr) \<Rightarrow> (width \<Rightarrow> int \<Rightarrow> expr \<Rightarrow> expr)
    \<Rightarrow> (expr \<Rightarrow> expr \<Rightarrow> expr) \<Rightarrow> expr \<Rightarrow> expr \<Rightarrow> expr" where
  "BCREATE_R k createPartial createPartialR create l r =
     (case dyn_cast_Constant l of
        Some (wl, cl) \<Rightarrow>
          (case dyn_cast_Constant r of
             Some (wr, cr) \<Rightarrow> ConstantExpr_op k wl cl cr
           | None \<Rightarrow> createPartialR wl cl r)
      | None \<Rightarrow>
          (case dyn_cast_Constant r of
             Some (wr, cr) \<Rightarrow> createPartial l wr cr
           | None \<Rightarrow> create l r))"

definition BCREATE :: "binKind \<Rightarrow> (expr \<Rightarrow> expr \<Rightarrow> expr) \<Rightarrow> expr \<Rightarrow> expr \<Rightarrow> expr" where
  "BCREATE k create l r =
     (case (dyn_cast_Constant l, dyn_cast_Constant r) of
        (Some (wl, cl), Some (wr, cr)) \<Rightarrow> ConstantExpr_op k wl cl cr
      | _ \<Rightarrow> create l r)"

definition AndExpr_createPartial :: "expr \<Rightarrow> width \<Rightarrow> int \<Rightarrow> expr" where
  "AndExpr_createPartial l w c =
     (if CE_isAllOnes w c then l
      else if c = 0 then Constant w c
      else Binary And l (Constant w c))"

definition AndExpr_createPartialR :: "width \<Rightarrow> int \<Rightarrow> expr \<Rightarrow> expr" where
  "AndExpr_createPartialR w c r = AndExpr_createPartial r w c"

definition AndExpr_create :: "expr \<Rightarrow> expr \<Rightarrow> expr" where
  "AndExpr_create l r = Binary And l r"

definition create_And :: "expr \<Rightarrow> expr \<Rightarrow> expr" where
  "create_And = BCREATE_R And AndExpr_createPartial AndExpr_createPartialR AndExpr_create"

definition OrExpr_createPartial :: "expr \<Rightarrow> width \<Rightarrow> int \<Rightarrow> expr" where
  "OrExpr_createPartial l w c =
     (if CE_isAllOnes w c then Constant w c
      else if c = 0 then l
      else Binary Or l (Constant w c))"

definition OrExpr_createPartialR :: "width \<Rightarrow> int \<Rightarrow> expr \<Rightarrow> expr" where
  "OrExpr_createPartialR w c r = OrExpr_createPartial r w c"

definition OrExpr_create :: "expr \<Rightarrow> expr \<Rightarrow> expr" where
  "OrExpr_create l r = Binary Or l r"

definition create_Or :: "expr \<Rightarrow> expr \<Rightarrow> expr" where
  "create_Or = BCREATE_R Or OrExpr_createPartial OrExpr_createPartialR OrExpr_create"

section \<open>Equality\<close>

text \<open>The command line option \<open>const-array-opt\<close> and its initial value.\<close>

definition ConstArrayOpt :: bool where
  "ConstArrayOpt = False"

definition EqExpr_create :: "expr \<Rightarrow> expr \<Rightarrow> expr" where
  "EqExpr_create l r = (if l = r then Constant 1 1 else Binary Eq l r)"

text \<open>
  \<open>TryConstArrayOpt\<close>: the loop over the positions of the array, with the count of
  matches so far and the disjunction built so far. \<open>mayBe i\<close> is
  \<open>EqExpr::create(rd->index, ConstantExpr::alloc(i, ..))\<close>.
\<close>

fun TryConstArrayOpt_loop ::
  "(nat \<Rightarrow> expr) \<Rightarrow> width \<Rightarrow> int \<Rightarrow> expr \<Rightarrow> array \<Rightarrow> nat list \<Rightarrow> nat \<Rightarrow> expr \<Rightarrow> expr" where
  "TryConstArrayOpt_loop mayBe w c rd a [] numMatches res = res"
| "TryConstArrayOpt_loop mayBe w c rd a (i # is) numMatches res =
     (if w = arr_range a \<and> c = constantValues a ! i then
        (if numMatches + 1 > 100 then EqExpr_create (Constant w c) rd
         else TryConstArrayOpt_loop mayBe w c rd a is (numMatches + 1) (create_Or res (mayBe i)))
      else TryConstArrayOpt_loop mayBe w c rd a is numMatches res)"

definition TryConstArrayOpt ::
  "(nat \<Rightarrow> expr) \<Rightarrow> width \<Rightarrow> int \<Rightarrow> array \<Rightarrow> updates \<Rightarrow> expr \<Rightarrow> expr" where
  "TryConstArrayOpt mayBe w c a ul idx =
     (if isSymbolicArray a \<or> getSize ul \<noteq> 0 then EqExpr_create (Constant w c) (Read a ul idx)
      else TryConstArrayOpt_loop mayBe w c (Read a ul idx) a [0..<arr_size a] 0 (Constant 1 0))"

text \<open>
  A size for the termination proofs: constants count nothing, every other node counts one.
\<close>

primrec esize :: "expr \<Rightarrow> nat" where
  "esize (Constant w v) = 0"
| "esize (NotOptimized e) = Suc (esize e)"
| "esize (Read a ul i) = Suc (esize i)"
| "esize (Select c t f) = Suc (esize c + esize t + esize f)"
| "esize (Concat l r) = Suc (esize l + esize r)"
| "esize (Extract e off w) = Suc (esize e)"
| "esize (Cast k e w) = Suc (esize e)"
| "esize (NotE e) = Suc (esize e)"
| "esize (Binary k l r) = Suc (esize l + esize r)"

text \<open>
  \<open>EqExpr::create\<close> and \<open>EqExpr_createPartialR\<close>. \<open>Expr::createIsZero(e)\<close> is
  \<open>EqExpr::create(e, 0)\<close>, written out in the De Morgan case.
\<close>

lemma esize_dyn_casts:
  "dyn_cast_Constant e = Some p \<Longrightarrow> esize e = 0"
  "dyn_cast_Constant e = None \<Longrightarrow> 0 < esize e"
  "dyn_cast_Binary k e = Some (l, r) \<Longrightarrow> esize e = Suc (esize l + esize r)"
  "dyn_cast_Cast ck e = Some s \<Longrightarrow> esize e = Suc (esize s)"
  "dyn_cast_Read e = Some (a, ul, i) \<Longrightarrow> esize e = Suc (esize i)"
  by (cases e; auto split: if_splits)+

function create_Eq :: "expr \<Rightarrow> expr \<Rightarrow> expr"
  and EqExpr_createPartialR :: "width \<Rightarrow> int \<Rightarrow> expr \<Rightarrow> expr" where
  "create_Eq l r =
     (case dyn_cast_Constant l of
        Some (wl, cl) \<Rightarrow>
          (case dyn_cast_Constant r of
             Some (wr, cr) \<Rightarrow> ConstantExpr_op Eq wl cl cr
           | None \<Rightarrow> EqExpr_createPartialR wl cl r)
      | None \<Rightarrow>
          (case dyn_cast_Constant r of
             Some (wr, cr) \<Rightarrow> EqExpr_createPartialR wr cr l
           | None \<Rightarrow> EqExpr_create l r))"
| "EqExpr_createPartialR w c r =
     (if w = 1 then
        (if c \<noteq> 0 then r
         else (case dyn_cast_Binary Eq r of
             Some (left, right) \<Rightarrow>
               (if isFalse left then right else EqExpr_create (Constant w c) r)
           | None \<Rightarrow>
               (case dyn_cast_Binary Or r of
                  Some (left, right) \<Rightarrow>
                    create_And (create_Eq left (Constant (getWidth left) 0))
                               (create_Eq right (Constant (getWidth right) 0))
                | None \<Rightarrow> EqExpr_create (Constant w c) r)))
      else (case dyn_cast_Cast SExt r of
          Some src \<Rightarrow>
            (let trunc = take_bit (getWidth src) c in
             if c = take_bit w (sval (getWidth src) trunc)
             then create_Eq src (Constant (getWidth src) trunc) else Constant 1 0)
        | None \<Rightarrow> (case dyn_cast_Cast ZExt r of
          Some src \<Rightarrow>
            (let trunc = take_bit (getWidth src) c in
             if c = take_bit w trunc
             then create_Eq src (Constant (getWidth src) trunc) else Constant 1 0)
        | None \<Rightarrow> (case dyn_cast_Binary Add r of
          Some (left, right) \<Rightarrow>
            (case dyn_cast_Constant left of
               Some (wk, k) \<Rightarrow> EqExpr_createPartialR w (ap_op Sub w c k) right
             | None \<Rightarrow> EqExpr_create (Constant w c) r)
        | None \<Rightarrow> (case dyn_cast_Binary Sub r of
          Some (left, right) \<Rightarrow>
            (case dyn_cast_Constant left of
               Some (wk, k) \<Rightarrow> EqExpr_createPartialR wk (ap_op Sub wk k c) right
             | None \<Rightarrow> EqExpr_create (Constant w c) r)
        | None \<Rightarrow> (case dyn_cast_Read r of
          Some (a, ul, idx) \<Rightarrow>
            (if ConstArrayOpt then
               TryConstArrayOpt
                 (\<lambda>i. create_Eq idx (Constant (getWidth idx) (take_bit (getWidth idx) (int i))))
                 w c a ul idx
             else EqExpr_create (Constant w c) r)
        | None \<Rightarrow> EqExpr_create (Constant w c) r))))))"
  by pat_completeness auto
termination
  by (relation "measure (\<lambda>x. case x of Inl (l, r) \<Rightarrow> 2 * (esize l + esize r) + 1
                                     | Inr (w, c, r) \<Rightarrow> 2 * esize r)")
    (auto simp: esize_dyn_casts)

declare create_Eq.simps [simp del]
declare EqExpr_createPartialR.simps [simp del]

definition EqExpr_createPartial :: "expr \<Rightarrow> width \<Rightarrow> int \<Rightarrow> expr" where
  "EqExpr_createPartial l w c = EqExpr_createPartialR w c l"

definition createIsZero :: "expr \<Rightarrow> expr" where
  "createIsZero e = create_Eq e (Constant (getWidth e) 0)"

definition createImplies :: "expr \<Rightarrow> expr \<Rightarrow> expr" where
  "createImplies hyp conc = create_Or (createIsZero hyp) conc"

definition XorExpr_createPartialR :: "width \<Rightarrow> int \<Rightarrow> expr \<Rightarrow> expr" where
  "XorExpr_createPartialR w c r =
     (if c = 0 then r
      else if w = 1 then EqExpr_createPartial r 1 0
      else Binary Xor (Constant w c) r)"

definition XorExpr_createPartial :: "expr \<Rightarrow> width \<Rightarrow> int \<Rightarrow> expr" where
  "XorExpr_createPartial l w c = XorExpr_createPartialR w c l"

definition XorExpr_create :: "expr \<Rightarrow> expr \<Rightarrow> expr" where
  "XorExpr_create l r = Binary Xor l r"

definition create_Xor :: "expr \<Rightarrow> expr \<Rightarrow> expr" where
  "create_Xor = BCREATE_R Xor XorExpr_createPartial XorExpr_createPartialR XorExpr_create"

section \<open>Soundness of the bitwise creators and of equality\<close>

lemma sem_eq_const_op:
  "sem_eq (ConstantExpr_op k w x y) (Binary k (Constant w x) (Constant w' y))"
  by (rule sem_eqI) (use in_width_ap_op[of w x y k] in \<open>auto simp: ConstantExpr_op_def\<close>)

lemma BCREATE_R_sem_eq:
  assumes "\<And>w c. \<not> is_Constant l \<Longrightarrow> r = Constant w c \<Longrightarrow> sem_eq (pl l w c) (Binary k l r)"
    and "\<And>w c. \<not> is_Constant r \<Longrightarrow> l = Constant w c \<Longrightarrow> sem_eq (pr w c r) (Binary k l r)"
    and "\<not> is_Constant l \<Longrightarrow> \<not> is_Constant r \<Longrightarrow> sem_eq (g l r) (Binary k l r)"
  shows "sem_eq (BCREATE_R k pl pr g l r) (Binary k l r)"
  using assms
  by (auto simp: BCREATE_R_def sem_eq_const_op dyn_casts split: option.split)

lemma and_all_ones: "in_width w x \<Longrightarrow> x AND (2 ^ w - 1) = x"
  by (simp add: take_bit_in_width flip: mask_eq_exp_minus_1 take_bit_eq_mask)

lemma or_all_ones: "in_width w x \<Longrightarrow> x OR (2 ^ w - 1) = 2 ^ w - (1::int)"
proof -
  assume "in_width w x"
  then have x: "x = x AND mask w" by (simp add: take_bit_in_width flip: take_bit_eq_mask)
  have "x OR mask w = mask w"
    by (subst x) (rule bit_eqI, auto simp: bit_simps)
  then show ?thesis by (simp add: mask_eq_exp_minus_1)
qed

lemma wf_Constant_expr [simp]: "\<not> is_Constant e \<Longrightarrow> dyn_cast_Constant e = None"
  by (simp add: dyn_casts)

lemma create_And_sem_eq [sound_intros]: "sem_eq (create_And l r) (Binary And l r)"
  unfolding create_And_def
proof (rule BCREATE_R_sem_eq)
  fix w c
  assume "r = Constant w c"
  then show "sem_eq (AndExpr_createPartial l w c) (Binary And l r)"
    using eval_in_width[of _ l]
    by (intro sem_eqI) (auto simp: AndExpr_createPartial_def CE_isAllOnes_def and_all_ones)
next
  fix w c
  assume "l = Constant w c"
  then show "sem_eq (AndExpr_createPartialR w c r) (Binary And l r)"
    using eval_in_width[of _ r]
    by (intro sem_eqI)
      (auto simp: AndExpr_createPartialR_def AndExpr_createPartial_def CE_isAllOnes_def
        and_all_ones and.commute[of "2 ^ w - 1"] and.commute[of c])
qed (simp add: AndExpr_create_def)

lemma create_Or_sem_eq [sound_intros]: "sem_eq (create_Or l r) (Binary Or l r)"
  unfolding create_Or_def
proof (rule BCREATE_R_sem_eq)
  fix w c
  assume "r = Constant w c"
  then show "sem_eq (OrExpr_createPartial l w c) (Binary Or l r)"
    using eval_in_width[of _ l]
    by (intro sem_eqI) (auto simp: OrExpr_createPartial_def CE_isAllOnes_def or_all_ones)
next
  fix w c
  assume "l = Constant w c"
  then show "sem_eq (OrExpr_createPartialR w c r) (Binary Or l r)"
    using eval_in_width[of _ r]
    by (intro sem_eqI)
      (auto simp: OrExpr_createPartialR_def OrExpr_createPartial_def CE_isAllOnes_def
        or_all_ones or.commute[of "2 ^ w - 1"] or.commute[of c])
qed (simp add: OrExpr_create_def)

lemma EqExpr_create_sem_eq [sound_intros]: "sem_eq (EqExpr_create l r) (Binary Eq l r)"
  by (rule sem_eqI) (auto simp: EqExpr_create_def in_width_def)

lemma sext_eq_const:
  assumes "in_width a x" "0 < a" "a \<le> w"
  shows "c = take_bit w (sval a x) \<longleftrightarrow>
    c = take_bit w (sval a (take_bit a c)) \<and> x = take_bit a c"
proof -
  have "take_bit a (take_bit w (sval a x)) = x"
    using assms by (simp add: sval_def min_def take_bit_signed_take_bit take_bit_in_width)
  then show ?thesis by auto
qed

lemma zext_eq_const:
  assumes "in_width a x" "a \<le> w"
  shows "c = take_bit w x \<longleftrightarrow> c = take_bit w (take_bit a c) \<and> x = take_bit a c"
proof -
  have "take_bit a (take_bit w x) = x"
    using assms by (simp add: min_def take_bit_in_width)
  then show ?thesis by metis
qed

lemma eq_add_const:
  assumes "in_width w b" "in_width w c"
  shows "c = take_bit w (k + b) \<longleftrightarrow> take_bit w (c - k) = b"
proof -
  have "take_bit w (take_bit w (k + b) - k) = b" "take_bit w (k + take_bit w (c - k)) = c"
    using assms by (simp_all add: take_bit_in_width take_bit_eq_mod mod_simps in_width_def)
  then show ?thesis by auto
qed

lemma eq_sub_const:
  assumes "in_width w b" "in_width w c"
  shows "c = take_bit w (k - b) \<longleftrightarrow> take_bit w (k - c) = b"
proof -
  have "take_bit w (k - take_bit w (k - b)) = b" "take_bit w (k - take_bit w (k - c)) = c"
    using assms by (simp_all add: take_bit_eq_mod mod_simps in_width_def)
  then show ?thesis by auto
qed

lemma not_or_sem_eq:
  "sem_eq (Binary And (Binary Eq a (Constant (getWidth a) 0)) (Binary Eq b (Constant (getWidth b) 0)))
     (Binary Eq (Constant (Suc 0) 0) (Binary Or a b))"
proof (rule sem_eqI)
  fix \<rho>
  assume wf: "wf_expr (Binary Eq (Constant (Suc 0) 0) (Binary Or a b))" and \<rho>: "wf_env \<rho>"
  then have "getWidth a = 1" "getWidth b = 1" by simp_all
  with wf \<rho> show "eval \<rho> (Binary And (Binary Eq a (Constant (getWidth a) 0))
      (Binary Eq b (Constant (getWidth b) 0))) =
    eval \<rho> (Binary Eq (Constant (Suc 0) 0) (Binary Or a b))"
    using eval_bool[OF \<rho>, of a] eval_bool[OF \<rho>, of b] by auto
qed (use wf_width_pos in auto)

lemma eq_true_sem_eq: "c \<noteq> 0 \<Longrightarrow> sem_eq r (Binary Eq (Constant (Suc 0) c) r)"
  using eval_bool[of _ r] by (intro sem_eqI) (fastforce simp: in_width_bool)+

lemma double_negation_sem_eq:
  "isFalse l \<Longrightarrow> sem_eq r (Binary Eq (Constant (Suc 0) 0) (Binary Eq l r))"
  using eval_bool[of _ r] by (cases l; intro sem_eqI) (fastforce simp: in_width_bool)+

lemma sext_const_sem_eq:
  assumes "w' = w \<longrightarrow> c = take_bit w (sval (getWidth s) (take_bit (getWidth s) c))"
  shows "sem_eq (Binary Eq s (Constant (getWidth s) (take_bit (getWidth s) c)))
    (Binary Eq (Constant w c) (Cast SExt s w'))"
proof (rule sem_eqI)
  fix \<rho>
  assume wf: "wf_expr (Binary Eq (Constant w c) (Cast SExt s w'))" and \<rho>: "wf_env \<rho>"
  with assms show "eval \<rho> (Binary Eq s (Constant (getWidth s) (take_bit (getWidth s) c))) =
      eval \<rho> (Binary Eq (Constant w c) (Cast SExt s w'))"
    using sext_eq_const[OF eval_in_width[OF \<rho>, of s], of w c] wf_width_pos[of s] by auto
qed (use wf_width_pos in auto)

lemma sext_never_sem_eq:
  assumes "c \<noteq> take_bit w (sval (getWidth s) (take_bit (getWidth s) c))"
  shows "sem_eq (Constant (Suc 0) 0) (Binary Eq (Constant w c) (Cast SExt s w'))"
proof (rule sem_eqI)
  fix \<rho>
  assume wf: "wf_expr (Binary Eq (Constant w c) (Cast SExt s w'))" and \<rho>: "wf_env \<rho>"
  with assms show "eval \<rho> (Constant (Suc 0) 0) =
      eval \<rho> (Binary Eq (Constant w c) (Cast SExt s w'))"
    using sext_eq_const[OF eval_in_width[OF \<rho>, of s], of w c] wf_width_pos[of s] by auto
qed auto

lemma zext_const_sem_eq:
  assumes "w' = w \<longrightarrow> c = take_bit w (take_bit (getWidth s) c)"
  shows "sem_eq (Binary Eq s (Constant (getWidth s) (take_bit (getWidth s) c)))
    (Binary Eq (Constant w c) (Cast ZExt s w'))"
proof (rule sem_eqI)
  fix \<rho>
  assume wf: "wf_expr (Binary Eq (Constant w c) (Cast ZExt s w'))" and \<rho>: "wf_env \<rho>"
  with assms show "eval \<rho> (Binary Eq s (Constant (getWidth s) (take_bit (getWidth s) c))) =
      eval \<rho> (Binary Eq (Constant w c) (Cast ZExt s w'))"
    using zext_eq_const[OF eval_in_width[OF \<rho>, of s], of w c] by auto
qed (use wf_width_pos in auto)

lemma zext_never_sem_eq:
  assumes "c \<noteq> take_bit w (take_bit (getWidth s) c)"
  shows "sem_eq (Constant (Suc 0) 0) (Binary Eq (Constant w c) (Cast ZExt s w'))"
proof (rule sem_eqI)
  fix \<rho>
  assume wf: "wf_expr (Binary Eq (Constant w c) (Cast ZExt s w'))" and \<rho>: "wf_env \<rho>"
  with assms show "eval \<rho> (Constant (Suc 0) 0) =
      eval \<rho> (Binary Eq (Constant w c) (Cast ZExt s w'))"
    using zext_eq_const[OF eval_in_width[OF \<rho>, of s], of w c] by auto
qed auto

lemma eq_add_const_sem_eq:
  "sem_eq (Binary Eq (Constant w (ap_op Sub w c k)) b)
     (Binary Eq (Constant w c) (Binary Add (Constant wk k) b))"
proof (rule sem_eqI)
  fix \<rho>
  assume wf: "wf_expr (Binary Eq (Constant w c) (Binary Add (Constant wk k) b))"
    and \<rho>: "wf_env \<rho>"
  then show "eval \<rho> (Binary Eq (Constant w (ap_op Sub w c k)) b) =
      eval \<rho> (Binary Eq (Constant w c) (Binary Add (Constant wk k) b))"
    using eq_add_const[OF eval_in_width[OF \<rho>, of b], of c k] by auto
qed auto

lemma eq_sub_const_sem_eq:
  "sem_eq (Binary Eq (Constant wk (ap_op Sub wk k c)) b)
     (Binary Eq (Constant w c) (Binary Sub (Constant wk k) b))"
proof (rule sem_eqI)
  fix \<rho>
  assume wf: "wf_expr (Binary Eq (Constant w c) (Binary Sub (Constant wk k) b))"
    and \<rho>: "wf_env \<rho>"
  then show "eval \<rho> (Binary Eq (Constant wk (ap_op Sub wk k c)) b) =
      eval \<rho> (Binary Eq (Constant w c) (Binary Sub (Constant wk k) b))"
    using eq_sub_const[OF eval_in_width[OF \<rho>, of b], of c k] by auto
qed auto

lemma sem_eq_Eq_commute: "sem_eq (Binary Eq a b) (Binary Eq b a)"
  by (rule sem_eqI) auto

lemma eq_or_step:
  "sem_eq x (Binary Eq a (Constant (getWidth a) 0)) \<Longrightarrow>
   sem_eq y (Binary Eq b (Constant (getWidth b) 0)) \<Longrightarrow>
   sem_eq (create_And x y) (Binary Eq (Constant (Suc 0) 0) (Binary Or a b))"
  by (rule sem_eq_trans[OF create_And_sem_eq sem_eq_trans[OF sem_eq_Binary not_or_sem_eq]])

lemmas eq_steps = eq_or_step eq_true_sem_eq double_negation_sem_eq sext_never_sem_eq
  zext_never_sem_eq EqExpr_create_sem_eq sem_eq_trans[OF _ sext_const_sem_eq]
  sem_eq_trans[OF _ zext_const_sem_eq] sem_eq_trans[OF _ eq_add_const_sem_eq]
  sem_eq_trans[OF _ eq_sub_const_sem_eq]

lemma EqExpr_createPartialR_Cast:
  assumes "w \<noteq> 1"
  shows "EqExpr_createPartialR w c (Cast SExt s w') =
     (if c = take_bit w (sval (getWidth s) (take_bit (getWidth s) c))
      then create_Eq s (Constant (getWidth s) (take_bit (getWidth s) c)) else Constant 1 0)"
    and "EqExpr_createPartialR w c (Cast ZExt s w') =
     (if c = take_bit w (take_bit (getWidth s) c)
      then create_Eq s (Constant (getWidth s) (take_bit (getWidth s) c)) else Constant 1 0)"
  using assms
  by (simp_all only: EqExpr_createPartialR.simps[of w c "Cast _ s w'"] dyn_cast_Cast.simps
      if_False refl if_True option.case Let_def castKind.distinct)

lemma create_Eq_sem_eq_aux:
  "sem_eq (create_Eq l r) (Binary Eq l r)"
  "sem_eq (EqExpr_createPartialR w c r) (Binary Eq (Constant w c) r)"
proof (induction l r and w c r rule: create_Eq_EqExpr_createPartialR.induct)
  case (1 l r)
  note IH = "1.IH"
  show ?case
  proof (cases "dyn_cast_Constant l")
    case None
    with IH show ?thesis
      by (cases "dyn_cast_Constant r")
        (auto simp: create_Eq.simps[of l r] dyn_casts sound_intros
          intro: sem_eq_trans[OF _ sem_eq_Eq_commute])
  next
    case (Some p)
    with IH show ?thesis
      unfolding create_Eq.simps[of l r]
      by (cases p; cases "dyn_cast_Constant r") (auto simp: dyn_casts sem_eq_const_op)
  qed
next
  case (2 w c r)
  note IH = "2.IH"
  show ?case
  proof (cases "w = 1")
    case True
    with IH(1,2) show ?thesis
      unfolding EqExpr_createPartialR.simps[of w c r]
      by (auto simp: dyn_casts split: option.split intro: eq_steps)
  next
    case False
    show ?thesis
    proof (cases "dyn_cast_Cast SExt r")
      case (Some s)
      then obtain w' where r: "r = Cast SExt s w'" by (auto simp: dyn_cast_Cast_Some)
      show ?thesis
      proof (cases "c = take_bit w (sval (getWidth s) (take_bit (getWidth s) c))")
        case True
        show ?thesis
          unfolding r EqExpr_createPartialR_Cast(1)[OF False] if_P[OF True]
          by (rule sem_eq_trans[OF IH(7)[OF False Some refl True] sext_const_sem_eq]) (use True in blast)
      next
        case no: False
        show ?thesis
          unfolding r EqExpr_createPartialR_Cast(1)[OF False] if_not_P[OF no]
          using sext_never_sem_eq[OF no] by simp
      qed
    next
      case sext: None
      show ?thesis
      proof (cases "dyn_cast_Cast ZExt r")
        case (Some s)
        then obtain w' where r: "r = Cast ZExt s w'" by (auto simp: dyn_cast_Cast_Some)
        show ?thesis
        proof (cases "c = take_bit w (take_bit (getWidth s) c)")
          case True
          show ?thesis
            unfolding r EqExpr_createPartialR_Cast(2)[OF False] if_P[OF True]
            by (rule sem_eq_trans[OF IH(6)[OF False sext Some refl True] zext_const_sem_eq])
              (use True in blast)
        next
          case no: False
          show ?thesis
            unfolding r EqExpr_createPartialR_Cast(2)[OF False] if_not_P[OF no]
            using zext_never_sem_eq[OF no] by simp
        qed
      next
        case zext: None
        with False sext IH(3-5) show ?thesis
          unfolding EqExpr_createPartialR.simps[of w c r]
          by (auto simp: dyn_casts ConstArrayOpt_def simp del: ap_op.simps
              split: option.split intro: eq_steps)
      qed
    qed
  qed
qed

lemma create_Eq_sem_eq [sound_intros]: "sem_eq (create_Eq l r) (Binary Eq l r)"
  by (rule create_Eq_sem_eq_aux(1))

lemma EqExpr_createPartialR_sem_eq [sound_intros]:
  "sem_eq (EqExpr_createPartialR w c r) (Binary Eq (Constant w c) r)"
  by (rule create_Eq_sem_eq_aux(2))

lemma createIsZero_sem_eq [sound_intros]:
  "sem_eq (createIsZero e) (Binary Eq e (Constant (getWidth e) 0))"
  unfolding createIsZero_def by (rule create_Eq_sem_eq)

lemma createImplies_sem_eq [sound_intros]:
  "sem_eq (createImplies h c) (Binary Or (Binary Eq h (Constant (getWidth h) 0)) c)"
  unfolding createImplies_def
  by (intro sem_eq_trans[OF create_Or_sem_eq] sem_eq_Binary createIsZero_sem_eq sem_eq_refl)

end
