(* ===== verification/ExprArith.thy ===== *)
theory ExprArith
  imports ExprCreate
begin

text \<open>
  The arithmetic, shift and comparison creators of \<open>klee/lib/Expr/Expr.cpp\<close>, with the
  re-association of constants in sums and differences, and their soundness.
\<close>

section \<open>Sums and differences\<close>

text \<open>\<open>dyn_cast\<close> to a sum or a difference whose left operand is a constant.\<close>

fun const_left :: "binKind \<Rightarrow> expr \<Rightarrow> (width \<times> int \<times> expr) option" where
  "const_left k (Binary k' (Constant w c) b) = (if k = k' then Some (w, c, b) else None)"
| "const_left k _ = None"

lemma const_left_Some: "const_left k e = Some (w, c, b) \<longleftrightarrow> e = Binary k (Constant w c) b"
  by (cases "(k, e)" rule: const_left.cases) auto

lemma esize_const_left: "const_left k e = Some (w, c, b) \<Longrightarrow> esize e = Suc (esize b)"
  by (auto simp: const_left_Some)

text \<open>
  \<open>AddExpr_createPartialR\<close> and \<open>SubExpr_createPartialR\<close>. The calls
  \<open>AddExpr::create(AddExpr::create(cl, k), x)\<close> they make have a constant left operand:
  \<open>create_AddC\<close> and \<open>create_SubC\<close> are the creators for that case (see
  \<open>create_Add_Constant\<close> below), applied to the folded constant.
\<close>

function create_AddC :: "width \<Rightarrow> int \<Rightarrow> expr \<Rightarrow> expr"
  and create_SubC :: "width \<Rightarrow> int \<Rightarrow> expr \<Rightarrow> expr"
  and AddExpr_createPartialR :: "width \<Rightarrow> int \<Rightarrow> expr \<Rightarrow> expr"
  and SubExpr_createPartialR :: "width \<Rightarrow> int \<Rightarrow> expr \<Rightarrow> expr" where
  "create_AddC w c r =
     (case dyn_cast_Constant r of
        Some (wr, cr) \<Rightarrow> ConstantExpr_op Add w c cr
      | None \<Rightarrow> AddExpr_createPartialR w c r)"
| "create_SubC w c r =
     (case dyn_cast_Constant r of
        Some (wr, cr) \<Rightarrow> ConstantExpr_op Sub w c cr
      | None \<Rightarrow> SubExpr_createPartialR w c r)"
| "AddExpr_createPartialR w c r =
     (if w = 1 then XorExpr_createPartialR w c r
      else if c = 0 then r
      else (case const_left Add r of
          Some (wk, k, b) \<Rightarrow> create_AddC w (ap_op Add w c k) b
        | None \<Rightarrow> (case const_left Sub r of
          Some (wk, k, b) \<Rightarrow> create_SubC w (ap_op Add w c k) b
        | None \<Rightarrow> Binary Add (Constant w c) r)))"
| "SubExpr_createPartialR w c r =
     (if w = 1 then XorExpr_createPartialR w c r
      else (case const_left Add r of
          Some (wk, k, b) \<Rightarrow> create_SubC w (ap_op Sub w c k) b
        | None \<Rightarrow> (case const_left Sub r of
          Some (wk, k, b) \<Rightarrow> create_AddC w (ap_op Sub w c k) b
        | None \<Rightarrow> Binary Sub (Constant w c) r)))"
  by pat_completeness auto
termination
  by (relation "measure (\<lambda>x. case x of
        Inl (Inl (w, c, r)) \<Rightarrow> 2 * esize r + 1 | Inl (Inr (w, c, r)) \<Rightarrow> 2 * esize r + 1
      | Inr (Inl (w, c, r)) \<Rightarrow> 2 * esize r | Inr (Inr (w, c, r)) \<Rightarrow> 2 * esize r)")
    (auto simp: esize_const_left)

declare create_AddC.simps [simp del] create_SubC.simps [simp del]
  AddExpr_createPartialR.simps [simp del] SubExpr_createPartialR.simps [simp del]

definition AddExpr_createPartial :: "expr \<Rightarrow> width \<Rightarrow> int \<Rightarrow> expr" where
  "AddExpr_createPartial l w c = AddExpr_createPartialR w c l"

definition SubExpr_createPartial :: "expr \<Rightarrow> width \<Rightarrow> int \<Rightarrow> expr" where
  "SubExpr_createPartial l w c = AddExpr_createPartial l w (ap_op Sub w 0 c)"

text \<open>
  \<open>SubExpr::create(x, k)\<close> at a constant right operand: the right operand of a difference that
  \<open>SubExpr_create\<close> re-associates.
\<close>

definition create_SubR :: "expr \<Rightarrow> width \<Rightarrow> int \<Rightarrow> expr" where
  "create_SubR l w c =
     (case dyn_cast_Constant l of
        Some (wl, cl) \<Rightarrow> ConstantExpr_op Sub wl cl c
      | None \<Rightarrow> SubExpr_createPartial l w c)"

function create_Add :: "expr \<Rightarrow> expr \<Rightarrow> expr" and create_Sub :: "expr \<Rightarrow> expr \<Rightarrow> expr"
  and AddExpr_create :: "expr \<Rightarrow> expr \<Rightarrow> expr" and SubExpr_create :: "expr \<Rightarrow> expr \<Rightarrow> expr" where
  "create_Add l r =
     (case dyn_cast_Constant l of
        Some (wl, cl) \<Rightarrow> (case dyn_cast_Constant r of
            Some (wr, cr) \<Rightarrow> ConstantExpr_op Add wl cl cr
          | None \<Rightarrow> AddExpr_createPartialR wl cl r)
      | None \<Rightarrow> (case dyn_cast_Constant r of
            Some (wr, cr) \<Rightarrow> AddExpr_createPartial l wr cr
          | None \<Rightarrow> AddExpr_create l r))"
| "create_Sub l r =
     (case dyn_cast_Constant l of
        Some (wl, cl) \<Rightarrow> (case dyn_cast_Constant r of
            Some (wr, cr) \<Rightarrow> ConstantExpr_op Sub wl cl cr
          | None \<Rightarrow> SubExpr_createPartialR wl cl r)
      | None \<Rightarrow> (case dyn_cast_Constant r of
            Some (wr, cr) \<Rightarrow> SubExpr_createPartial l wr cr
          | None \<Rightarrow> SubExpr_create l r))"
| "AddExpr_create l r =
     (if getWidth l = 1 then XorExpr_create l r
      else (case const_left Add l of
          Some (w, k, a) \<Rightarrow> create_AddC w k (create_Add a r)
        | None \<Rightarrow> (case const_left Sub l of
          Some (w, k, a) \<Rightarrow> create_AddC w k (create_Sub r a)
        | None \<Rightarrow> (case const_left Add r of
          Some (w, k, b) \<Rightarrow> create_AddC w k (create_Add l b)
        | None \<Rightarrow> (case const_left Sub r of
          Some (w, k, b) \<Rightarrow> create_AddC w k (create_Sub l b)
        | None \<Rightarrow> Binary Add l r)))))"
| "SubExpr_create l r =
     (if getWidth l = 1 then XorExpr_create l r
      else if l = r then Constant (getWidth l) 0
      else (case const_left Add l of
          Some (w, k, a) \<Rightarrow> create_AddC w k (create_Sub a r)
        | None \<Rightarrow> (case const_left Sub l of
          Some (w, k, a) \<Rightarrow> create_SubC w k (create_Add a r)
        | None \<Rightarrow> (case const_left Add r of
          Some (w, k, b) \<Rightarrow> create_SubR (create_Sub l b) w k
        | None \<Rightarrow> (case const_left Sub r of
          Some (w, k, b) \<Rightarrow> create_SubR (create_Add l b) w k
        | None \<Rightarrow> Binary Sub l r)))))"
  by pat_completeness auto
termination
  by (relation "measure (\<lambda>x. case x of
        Inl (Inl (l, r)) \<Rightarrow> 2 * (esize l + esize r) + 1
      | Inl (Inr (l, r)) \<Rightarrow> 2 * (esize l + esize r) + 1
      | Inr (Inl (l, r)) \<Rightarrow> 2 * (esize l + esize r)
      | Inr (Inr (l, r)) \<Rightarrow> 2 * (esize l + esize r))") (auto simp: esize_const_left)

declare create_Add.simps [simp del] create_Sub.simps [simp del]
  AddExpr_create.simps [simp del] SubExpr_create.simps [simp del]

text \<open>
  The specialised creators are the general ones at a constant operand, so the calls above
  are the calls \<open>AddExpr::create\<close> and \<open>SubExpr::create\<close> of the source.
\<close>

lemma create_Add_Constant: "create_Add (Constant w c) r = create_AddC w c r"
  by (simp add: create_Add.simps create_AddC.simps)

lemma create_Sub_Constant: "create_Sub (Constant w c) r = create_SubC w c r"
  by (simp add: create_Sub.simps create_SubC.simps)

lemma create_Sub_ConstantR: "create_Sub l (Constant w c) = create_SubR l w c"
  by (simp add: create_Sub.simps create_SubR_def split: option.split)

section \<open>Soundness of sums and differences\<close>

lemma create_Xor_parts:
  "sem_eq (XorExpr_createPartialR w c r) (Binary Xor (Constant w c) r)"
proof (cases "c \<noteq> 0 \<and> w = 1")
  case True
  have "sem_eq (Binary Eq (Constant (Suc 0) 0) r) (Binary Xor (Constant w c) r)"
  proof (rule sem_eqI)
    fix \<rho>
    assume "wf_expr (Binary Xor (Constant w c) r)" "wf_env \<rho>"
    then show "eval \<rho> (Binary Eq (Constant (Suc 0) 0) r) = eval \<rho> (Binary Xor (Constant w c) r)"
      using True eval_bool[of \<rho> r] by (auto simp: in_width_bool)
  qed (use True in auto)
  then show ?thesis
    using True by (simp add: XorExpr_createPartialR_def EqExpr_createPartial_def
        sem_eq_trans[OF EqExpr_createPartialR_sem_eq])
next
  case False
  then show ?thesis
    by (intro sem_eqI) (auto simp: XorExpr_createPartialR_def)
qed

lemma sem_eq_Xor_commute: "sem_eq (Binary Xor a b) (Binary Xor b a)"
  by (rule sem_eqI) (auto simp: xor.commute)

lemma create_Xor_sem_eq [sound_intros]: "sem_eq (create_Xor l r) (Binary Xor l r)"
  unfolding create_Xor_def
  by (rule BCREATE_R_sem_eq)
    (auto simp: XorExpr_createPartial_def XorExpr_create_def create_Xor_parts
      intro: sem_eq_trans[OF create_Xor_parts sem_eq_Xor_commute])

text \<open>At width 1 a sum and a difference are the exclusive or.\<close>

lemma xor_is_add_sub:
  assumes "k = Add \<or> k = Sub" "getWidth l = 1"
  shows "sem_eq (Binary Xor l r) (Binary k l r)"
proof (rule sem_eqI)
  fix \<rho>
  assume wf: "wf_expr (Binary k l r)" "wf_env \<rho>"
  with assms have "getWidth r = 1" by simp
  with wf assms show "eval \<rho> (Binary Xor l r) = eval \<rho> (Binary k l r)"
    using eval_bool[of \<rho> l] eval_bool[of \<rho> r] by auto
qed (use assms in auto)

text \<open>The re-associations, as equivalences of plain nodes.\<close>

lemma reassoc_const:
  "sem_eq (Binary Add (Constant w (ap_op Add w c k)) b)
     (Binary Add (Constant w c) (Binary Add (Constant wk k) b))"
  "sem_eq (Binary Sub (Constant w (ap_op Add w c k)) b)
     (Binary Add (Constant w c) (Binary Sub (Constant wk k) b))"
  "sem_eq (Binary Sub (Constant w (ap_op Sub w c k)) b)
     (Binary Sub (Constant w c) (Binary Add (Constant wk k) b))"
  "sem_eq (Binary Add (Constant w (ap_op Sub w c k)) b)
     (Binary Sub (Constant w c) (Binary Sub (Constant wk k) b))"
  by (intro sem_eqI; auto simp: take_bit_eq_mod mod_simps algebra_simps)+

lemmas reassoc_const_steps = reassoc_const[THEN sem_eq_trans[rotated]]

lemma reassoc_left:
  "sem_eq (Binary Add (Constant w k) (Binary Add a r)) (Binary Add (Binary Add (Constant w k) a) r)"
  "sem_eq (Binary Add (Constant w k) (Binary Sub r a)) (Binary Add (Binary Sub (Constant w k) a) r)"
  "sem_eq (Binary Add (Constant w k) (Binary Sub a r)) (Binary Sub (Binary Add (Constant w k) a) r)"
  "sem_eq (Binary Sub (Constant w k) (Binary Add a r)) (Binary Sub (Binary Sub (Constant w k) a) r)"
  by (intro sem_eqI; auto simp: take_bit_eq_mod mod_simps algebra_simps)+

lemma reassoc_right:
  "sem_eq (Binary Add (Constant w k) (Binary Add l b)) (Binary Add l (Binary Add (Constant w k) b))"
  "sem_eq (Binary Add (Constant w k) (Binary Sub l b)) (Binary Add l (Binary Sub (Constant w k) b))"
  "sem_eq (Binary Sub (Binary Sub l b) (Constant w k)) (Binary Sub l (Binary Add (Constant w k) b))"
  "sem_eq (Binary Sub (Binary Add l b) (Constant w k)) (Binary Sub l (Binary Sub (Constant w k) b))"
  by (intro sem_eqI; auto simp: take_bit_eq_mod mod_simps algebra_simps)+

lemma AddSubC_sem_eq:
  "sem_eq (create_AddC w c r) (Binary Add (Constant w c) r)"
  "sem_eq (create_SubC w c r) (Binary Sub (Constant w c) r)"
  "sem_eq (AddExpr_createPartialR w c r) (Binary Add (Constant w c) r)"
  "sem_eq (SubExpr_createPartialR w c r) (Binary Sub (Constant w c) r)"
proof (induction w c r and w c r and w c r and w c r
    rule: create_AddC_create_SubC_AddExpr_createPartialR_SubExpr_createPartialR.induct)
  case (1 w c r)
  then show ?case
    unfolding create_AddC.simps[of w c r]
    by (auto simp: dyn_casts sem_eq_const_op split: option.split)
next
  case (2 w c r)
  then show ?case
    unfolding create_SubC.simps[of w c r]
    by (auto simp: dyn_casts sem_eq_const_op split: option.split)
next
  case (3 w c r)
  have zero: "sem_eq r (Binary Add (Constant w 0) r)"
    by (rule sem_eqI) (auto simp: eval_take_bit)
  from 3 show ?case
    unfolding AddExpr_createPartialR.simps[of w c r]
    by (auto simp: const_left_Some zero reassoc_const_steps simp del: ap_op.simps split: option.split
        intro: sem_eq_trans[OF create_Xor_parts xor_is_add_sub])
next
  case (4 w c r)
  then show ?case
    unfolding SubExpr_createPartialR.simps[of w c r]
    by (auto simp: const_left_Some reassoc_const_steps simp del: ap_op.simps split: option.split
        intro: sem_eq_trans[OF create_Xor_parts xor_is_add_sub])
qed

lemma sem_eq_Add_commute: "sem_eq (Binary Add a b) (Binary Add b a)"
  by (rule sem_eqI) (auto simp: add.commute)

lemma AddExpr_createPartial_sem_eq:
  "sem_eq (AddExpr_createPartial l w c) (Binary Add l (Constant w c))"
  unfolding AddExpr_createPartial_def
  by (rule sem_eq_trans[OF AddSubC_sem_eq(3) sem_eq_Add_commute])

lemma SubExpr_createPartial_sem_eq:
  "sem_eq (SubExpr_createPartial l w c) (Binary Sub l (Constant w c))"
  unfolding SubExpr_createPartial_def
proof (rule sem_eq_trans[OF AddExpr_createPartial_sem_eq])
  show "sem_eq (Binary Add l (Constant w (ap_op Sub w 0 c))) (Binary Sub l (Constant w c))"
    by (rule sem_eqI) (auto simp: take_bit_eq_mod mod_simps)
qed

lemma create_SubR_sem_eq: "sem_eq (create_SubR l w c) (Binary Sub l (Constant w c))"
  by (auto simp: create_SubR_def dyn_casts sem_eq_const_op SubExpr_createPartial_sem_eq
      split: option.split)

lemma sub_self_sem_eq: "sem_eq (Constant (getWidth l) 0) (Binary Sub l l)"
  by (rule sem_eqI) (auto simp: wf_width_pos)

text \<open>One re-association: an outer creator applied to an inner result.\<close>

lemma AddC_step:
  "sem_eq x i \<Longrightarrow> sem_eq (Binary Add (Constant w k) i) e \<Longrightarrow> sem_eq (create_AddC w k x) e"
  by (blast intro: sem_eq_trans AddSubC_sem_eq(1) sem_eq_Binary sem_eq_refl)

lemma SubC_step:
  "sem_eq x i \<Longrightarrow> sem_eq (Binary Sub (Constant w k) i) e \<Longrightarrow> sem_eq (create_SubC w k x) e"
  by (blast intro: sem_eq_trans AddSubC_sem_eq(2) sem_eq_Binary sem_eq_refl)

lemma SubR_step:
  "sem_eq x i \<Longrightarrow> sem_eq (Binary Sub i (Constant w k)) e \<Longrightarrow> sem_eq (create_SubR x w k) e"
  by (blast intro: sem_eq_trans create_SubR_sem_eq sem_eq_Binary sem_eq_refl)

lemmas reassoc_steps = AddC_step[OF _ reassoc_left(1)] AddC_step[OF _ reassoc_left(2)]
  AddC_step[OF _ reassoc_left(3)] SubC_step[OF _ reassoc_left(4)]
  AddC_step[OF _ reassoc_right(1)] AddC_step[OF _ reassoc_right(2)]
  SubR_step[OF _ reassoc_right(3)] SubR_step[OF _ reassoc_right(4)]

lemma create_AddSub_sem_eq:
  "sem_eq (create_Add l r) (Binary Add l r)"
  "sem_eq (create_Sub l r) (Binary Sub l r)"
  "sem_eq (AddExpr_create l r) (Binary Add l r)"
  "sem_eq (SubExpr_create l r) (Binary Sub l r)"
proof (induction l r and l r and l r and l r
    rule: create_Add_create_Sub_AddExpr_create_SubExpr_create.induct)
  case (1 l r)
  then show ?case
    unfolding create_Add.simps[of l r]
    by (auto simp: dyn_casts sem_eq_const_op AddSubC_sem_eq AddExpr_createPartial_sem_eq
        split: option.split)
next
  case (2 l r)
  then show ?case
    unfolding create_Sub.simps[of l r]
    by (auto simp: dyn_casts sem_eq_const_op AddSubC_sem_eq SubExpr_createPartial_sem_eq
        split: option.split)
next
  case (3 l r)
  then show ?case
    unfolding AddExpr_create.simps[of l r]
    by (auto simp: const_left_Some XorExpr_create_def xor_is_add_sub reassoc_steps
        split: option.split)
next
  case (4 l r)
  then show ?case
    unfolding SubExpr_create.simps[of l r]
    by (auto simp: const_left_Some XorExpr_create_def xor_is_add_sub sub_self_sem_eq
        reassoc_steps split: option.split)
qed

lemma create_Add_sem_eq [sound_intros]: "sem_eq (create_Add l r) (Binary Add l r)"
  by (rule create_AddSub_sem_eq(1))

lemma create_Sub_sem_eq [sound_intros]: "sem_eq (create_Sub l r) (Binary Sub l r)"
  by (rule create_AddSub_sem_eq(2))

section \<open>Products\<close>

definition MulExpr_createPartialR :: "width \<Rightarrow> int \<Rightarrow> expr \<Rightarrow> expr" where
  "MulExpr_createPartialR w c r =
     (if w = 1 then AndExpr_createPartialR w c r
      else if CE_isOne c then r
      else if c = 0 then Constant w c
      else Binary Mul (Constant w c) r)"

definition MulExpr_createPartial :: "expr \<Rightarrow> width \<Rightarrow> int \<Rightarrow> expr" where
  "MulExpr_createPartial l w c = MulExpr_createPartialR w c l"

definition MulExpr_create :: "expr \<Rightarrow> expr \<Rightarrow> expr" where
  "MulExpr_create l r = (if getWidth l = 1 then Binary And l r else Binary Mul l r)"

definition create_Mul :: "expr \<Rightarrow> expr \<Rightarrow> expr" where
  "create_Mul = BCREATE_R Mul MulExpr_createPartial MulExpr_createPartialR MulExpr_create"

lemma and_is_mul:
  assumes "getWidth l = 1"
  shows "sem_eq (Binary And l r) (Binary Mul l r)"
proof (rule sem_eqI)
  fix \<rho>
  assume wf: "wf_expr (Binary Mul l r)" "wf_env \<rho>"
  with assms have "getWidth r = 1" by simp
  with wf assms show "eval \<rho> (Binary And l r) = eval \<rho> (Binary Mul l r)"
    using eval_bool[of \<rho> l] eval_bool[of \<rho> r] by auto
qed (use assms in auto)

lemma sem_eq_Mul_commute: "sem_eq (Binary Mul a b) (Binary Mul b a)"
  by (rule sem_eqI) (auto simp: mult.commute)

lemma AndExpr_createPartialR_sem_eq:
  "\<not> is_Constant r \<Longrightarrow> sem_eq (AndExpr_createPartialR w c r) (Binary And (Constant w c) r)"
  using create_And_sem_eq[of "Constant w c" r]
  by (simp add: create_And_def BCREATE_R_def)

lemma MulExpr_createPartialR_sem_eq:
  assumes "\<not> is_Constant r"
  shows "sem_eq (MulExpr_createPartialR w c r) (Binary Mul (Constant w c) r)"
proof (cases "w = 1")
  case True
  then show ?thesis
    using sem_eq_trans[OF AndExpr_createPartialR_sem_eq[OF assms] and_is_mul[of "Constant w c" r]]
    by (simp add: MulExpr_createPartialR_def)
next
  case False
  then show ?thesis
    by (intro sem_eqI) (auto simp: MulExpr_createPartialR_def CE_isOne_def eval_take_bit)
qed

lemma create_Mul_sem_eq [sound_intros]: "sem_eq (create_Mul l r) (Binary Mul l r)"
  unfolding create_Mul_def
proof (rule BCREATE_R_sem_eq)
  fix w c
  assume "\<not> is_Constant l" "r = Constant w c"
  then show "sem_eq (MulExpr_createPartial l w c) (Binary Mul l r)"
    unfolding MulExpr_createPartial_def
    using sem_eq_trans[OF MulExpr_createPartialR_sem_eq sem_eq_Mul_commute] by simp
qed (simp_all add: MulExpr_createPartialR_sem_eq MulExpr_create_def and_is_mul)

section \<open>Quotients and remainders\<close>

text \<open>
  \<open>BCREATE\<close> with a folding that needs a non-zero divisor: \<open>APInt\<close>'s four division operations
  abort on zero, which is \<open>None\<close>.
\<close>

definition BCREATE_div :: "binKind \<Rightarrow> (expr \<Rightarrow> expr \<Rightarrow> expr) \<Rightarrow> expr \<Rightarrow> expr \<Rightarrow> expr option" where
  "BCREATE_div k create l r =
     (case (dyn_cast_Constant l, dyn_cast_Constant r) of
        (Some (wl, cl), Some (wr, cr)) \<Rightarrow>
          (if cr = 0 then None else Some (ConstantExpr_op k wl cl cr))
      | _ \<Rightarrow> Some (create l r))"

definition UDivExpr_create :: "expr \<Rightarrow> expr \<Rightarrow> expr" where
  "UDivExpr_create l r = (if getWidth l = 1 then l else Binary UDiv l r)"

definition SDivExpr_create :: "expr \<Rightarrow> expr \<Rightarrow> expr" where
  "SDivExpr_create l r = (if getWidth l = 1 then l else Binary SDiv l r)"

definition URemExpr_create :: "expr \<Rightarrow> expr \<Rightarrow> expr" where
  "URemExpr_create l r = (if getWidth l = 1 then Constant 1 0 else Binary URem l r)"

definition SRemExpr_create :: "expr \<Rightarrow> expr \<Rightarrow> expr" where
  "SRemExpr_create l r = (if getWidth l = 1 then Constant 1 0 else Binary SRem l r)"

definition create_UDiv :: "expr \<Rightarrow> expr \<Rightarrow> expr option" where
  "create_UDiv = BCREATE_div UDiv UDivExpr_create"

definition create_SDiv :: "expr \<Rightarrow> expr \<Rightarrow> expr option" where
  "create_SDiv = BCREATE_div SDiv SDivExpr_create"

definition create_URem :: "expr \<Rightarrow> expr \<Rightarrow> expr option" where
  "create_URem = BCREATE_div URem URemExpr_create"

definition create_SRem :: "expr \<Rightarrow> expr \<Rightarrow> expr option" where
  "create_SRem = BCREATE_div SRem SRemExpr_create"

lemmas create_div_defs = create_UDiv_def create_SDiv_def create_URem_def create_SRem_def
  UDivExpr_create_def SDivExpr_create_def URemExpr_create_def SRemExpr_create_def

lemma BCREATE_div_None:
  "BCREATE_div k g l r = None \<longleftrightarrow> is_Constant l \<and> (\<exists>w. r = Constant w 0)"
  by (cases l; cases r) (auto simp: BCREATE_div_def)

lemma BCREATE_div_sem_eq:
  assumes "BCREATE_div k g l r = Some e" "sem_eq (g l r) (Binary k l r)" "\<not> isCmp k"
  shows "sem_eq e (Binary k l r)"
  using assms sem_eq_const_op[of k]
  by (auto simp: BCREATE_div_def dyn_casts split: option.splits if_splits)

lemma sval_bool [simp]: "sval (Suc 0) 0 = 0" "sval (Suc 0) 1 = - 1"
  by (simp_all add: sval_def)

lemma sem_eq_div_boolI:
  assumes w: "getWidth l = 1"
    and cmp: "\<not> isCmp k" "ap_op k 1 = (\<lambda>x y. ap_op k 1 x (divisor y))"
    and e: "wf_expr (Binary k l r) \<Longrightarrow> wf_expr e \<and> getWidth e = 1"
    and ev: "\<And>\<rho>. eval \<rho> l = 0 \<or> eval \<rho> l = 1 \<Longrightarrow> eval \<rho> e = ap_op k 1 (eval \<rho> l) 1"
  shows "sem_eq e (Binary k l r)"
proof -
  have "eval \<rho> e = eval \<rho> (Binary k l r)"
    if "wf_expr (Binary k l r)" "wf_env \<rho>" for \<rho>
  proof -
    from that w have d: "divisor (eval \<rho> r) = 1" "eval \<rho> l = 0 \<or> eval \<rho> l = 1"
      using eval_bool[of \<rho> l] eval_bool[of \<rho> r] by (auto simp: divisor_def)
    have "eval \<rho> (Binary k l r) = ap_op k 1 (eval \<rho> l) (eval \<rho> r)" using w by simp
    also have "\<dots> = ap_op k 1 (eval \<rho> l) 1" using d(1) cmp(2) by metis
    finally show ?thesis using ev[OF d(2)] by simp
  qed
  with e w cmp(1) show ?thesis by (simp add: sem_eq_def)
qed

lemma divisor_divisor [simp]: "divisor (divisor y) = divisor y"
  by (simp add: divisor_def)
lemma divisor_one [simp]: "divisor 1 = 1"
  by (simp add: divisor_def)

lemma div_bool_sem_eq:
  assumes w: "getWidth l = 1"
  shows "sem_eq l (Binary UDiv l r)" "sem_eq l (Binary SDiv l r)"
    "sem_eq (Constant 1 0) (Binary URem l r)" "sem_eq (Constant 1 0) (Binary SRem l r)"
  using w
  by (rule sem_eq_div_boolI; auto simp: w fun_eq_iff signed_divide_int_def signed_modulo_int_def)+

lemma create_div_sem_eq:
  "create_UDiv l r = Some e \<Longrightarrow> sem_eq e (Binary UDiv l r)"
  "create_SDiv l r = Some e \<Longrightarrow> sem_eq e (Binary SDiv l r)"
  "create_URem l r = Some e \<Longrightarrow> sem_eq e (Binary URem l r)"
  "create_SRem l r = Some e \<Longrightarrow> sem_eq e (Binary SRem l r)"
  using div_bool_sem_eq[of l r]
  by (auto simp: create_div_defs dest!: BCREATE_div_sem_eq)

section \<open>Shifts\<close>

definition ShlExpr_create :: "expr \<Rightarrow> expr \<Rightarrow> expr" where
  "ShlExpr_create l r =
     (if getWidth l = 1 then create_And l (createIsZero r) else Binary Shl l r)"

definition LShrExpr_create :: "expr \<Rightarrow> expr \<Rightarrow> expr" where
  "LShrExpr_create l r =
     (if getWidth l = 1 then create_And l (createIsZero r) else Binary LShr l r)"

definition AShrExpr_create :: "expr \<Rightarrow> expr \<Rightarrow> expr" where
  "AShrExpr_create l r = (if getWidth l = 1 then l else Binary AShr l r)"

definition create_Shl :: "expr \<Rightarrow> expr \<Rightarrow> expr" where
  "create_Shl = BCREATE Shl ShlExpr_create"

definition create_LShr :: "expr \<Rightarrow> expr \<Rightarrow> expr" where
  "create_LShr = BCREATE LShr LShrExpr_create"

definition create_AShr :: "expr \<Rightarrow> expr \<Rightarrow> expr" where
  "create_AShr = BCREATE AShr AShrExpr_create"

lemma BCREATE_sem_eq:
  "sem_eq (g l r) (Binary k l r) \<Longrightarrow> sem_eq (BCREATE k g l r) (Binary k l r)"
  by (auto simp: BCREATE_def sem_eq_const_op dyn_casts split: option.split)

text \<open>
  A binary node over operands of width 1 equals another expression when they agree on the
  four pairs of truth values.
\<close>

lemma sem_eq_boolI:
  assumes w: "getWidth l = 1"
    and wf: "wf_expr (Binary k l r) \<Longrightarrow> wf_expr e \<and> getWidth e = 1"
    and ev: "\<And>\<rho>. getWidth r = 1 \<Longrightarrow> eval \<rho> l = 0 \<or> eval \<rho> l = 1 \<Longrightarrow> eval \<rho> r = 0 \<or> eval \<rho> r = 1
      \<Longrightarrow> eval \<rho> e = ap_op k 1 (eval \<rho> l) (eval \<rho> r)"
  shows "sem_eq e (Binary k l r)"
proof -
  have "eval \<rho> e = eval \<rho> (Binary k l r)"
    if "wf_expr (Binary k l r)" "wf_env \<rho>" for \<rho>
  proof -
    from that w have "eval \<rho> r = 0 \<or> eval \<rho> r = 1" "eval \<rho> l = 0 \<or> eval \<rho> l = 1" "getWidth r = 1"
      using eval_bool[of \<rho> l] eval_bool[of \<rho> r] by auto
    with ev[of \<rho>] w show ?thesis by simp
  qed
  with wf w show ?thesis unfolding sem_eq_def by (cases "isCmp k") simp_all
qed

abbreviation is_zero_node :: "expr \<Rightarrow> expr" where
  "is_zero_node e \<equiv> Binary Eq e (Constant (getWidth e) 0)"

lemma and_is_zero_sem_eq:
  assumes "sem_eq (Binary And l (is_zero_node r)) e"
  shows "sem_eq (create_And l (createIsZero r)) e"
  by (rule sem_eq_trans[OF create_And_sem_eq
        sem_eq_trans[OF sem_eq_Binary[OF sem_eq_refl createIsZero_sem_eq] assms]])

lemma is_zero_and_sem_eq:
  assumes "sem_eq (Binary And (is_zero_node l) r) e"
  shows "sem_eq (create_And (createIsZero l) r) e"
  by (rule sem_eq_trans[OF create_And_sem_eq
        sem_eq_trans[OF sem_eq_Binary[OF createIsZero_sem_eq sem_eq_refl] assms]])

lemma is_zero_or_sem_eq:
  assumes "sem_eq (Binary Or (is_zero_node l) r) e"
  shows "sem_eq (create_Or (createIsZero l) r) e"
  by (rule sem_eq_trans[OF create_Or_sem_eq
        sem_eq_trans[OF sem_eq_Binary[OF createIsZero_sem_eq sem_eq_refl] assms]])

lemma or_is_zero_sem_eq:
  assumes "sem_eq (Binary Or l (is_zero_node r)) e"
  shows "sem_eq (create_Or l (createIsZero r)) e"
  by (rule sem_eq_trans[OF create_Or_sem_eq
        sem_eq_trans[OF sem_eq_Binary[OF sem_eq_refl createIsZero_sem_eq] assms]])

lemma shift_bool_sem_eq:
  assumes w: "getWidth l = 1"
  shows "sem_eq (Binary And l (is_zero_node r)) (Binary Shl l r)"
    "sem_eq (Binary And l (is_zero_node r)) (Binary LShr l r)"
    "sem_eq l (Binary AShr l r)"
  using w by (rule sem_eq_boolI; auto simp: w)+

lemma create_Shl_sem_eq [sound_intros]: "sem_eq (create_Shl l r) (Binary Shl l r)"
  unfolding create_Shl_def
  by (rule BCREATE_sem_eq) (simp add: ShlExpr_create_def and_is_zero_sem_eq shift_bool_sem_eq)

lemma create_LShr_sem_eq [sound_intros]: "sem_eq (create_LShr l r) (Binary LShr l r)"
  unfolding create_LShr_def
  by (rule BCREATE_sem_eq) (simp add: LShrExpr_create_def and_is_zero_sem_eq shift_bool_sem_eq)

lemma create_AShr_sem_eq [sound_intros]: "sem_eq (create_AShr l r) (Binary AShr l r)"
  unfolding create_AShr_def
  by (rule BCREATE_sem_eq) (simp add: AShrExpr_create_def shift_bool_sem_eq)

section \<open>Comparisons\<close>

definition UltExpr_create :: "expr \<Rightarrow> expr \<Rightarrow> expr" where
  "UltExpr_create l r =
     (if getWidth l = 1 then create_And (createIsZero l) r else Binary Ult l r)"

definition UleExpr_create :: "expr \<Rightarrow> expr \<Rightarrow> expr" where
  "UleExpr_create l r =
     (if getWidth l = 1 then create_Or (createIsZero l) r else Binary Ule l r)"

definition SltExpr_create :: "expr \<Rightarrow> expr \<Rightarrow> expr" where
  "SltExpr_create l r =
     (if getWidth l = 1 then create_And l (createIsZero r) else Binary Slt l r)"

definition SleExpr_create :: "expr \<Rightarrow> expr \<Rightarrow> expr" where
  "SleExpr_create l r =
     (if getWidth l = 1 then create_Or l (createIsZero r) else Binary Sle l r)"

definition create_Ult :: "expr \<Rightarrow> expr \<Rightarrow> expr" where
  "create_Ult = BCREATE Ult UltExpr_create"

definition create_Ule :: "expr \<Rightarrow> expr \<Rightarrow> expr" where
  "create_Ule = BCREATE Ule UleExpr_create"

definition create_Slt :: "expr \<Rightarrow> expr \<Rightarrow> expr" where
  "create_Slt = BCREATE Slt SltExpr_create"

definition create_Sle :: "expr \<Rightarrow> expr \<Rightarrow> expr" where
  "create_Sle = BCREATE Sle SleExpr_create"

definition create_Ne :: "expr \<Rightarrow> expr \<Rightarrow> expr" where
  "create_Ne l r = create_Eq (Constant 1 0) (create_Eq l r)"

definition create_Ugt :: "expr \<Rightarrow> expr \<Rightarrow> expr" where
  "create_Ugt l r = create_Ult r l"

definition create_Uge :: "expr \<Rightarrow> expr \<Rightarrow> expr" where
  "create_Uge l r = create_Ule r l"

definition create_Sgt :: "expr \<Rightarrow> expr \<Rightarrow> expr" where
  "create_Sgt l r = create_Slt r l"

definition create_Sge :: "expr \<Rightarrow> expr \<Rightarrow> expr" where
  "create_Sge l r = create_Sle r l"

lemma cmp_bool_sem_eq:
  assumes w: "getWidth l = 1"
  shows "sem_eq (Binary And (is_zero_node l) r) (Binary Ult l r)"
    "sem_eq (Binary Or (is_zero_node l) r) (Binary Ule l r)"
    "sem_eq (Binary And l (is_zero_node r)) (Binary Slt l r)"
    "sem_eq (Binary Or l (is_zero_node r)) (Binary Sle l r)"
  using w by (rule sem_eq_boolI; auto simp: w)+

lemmas cmp_bool_steps = is_zero_and_sem_eq[OF cmp_bool_sem_eq(1)]
  is_zero_or_sem_eq[OF cmp_bool_sem_eq(2)] and_is_zero_sem_eq[OF cmp_bool_sem_eq(3)]
  or_is_zero_sem_eq[OF cmp_bool_sem_eq(4)]

lemma create_Ult_sem_eq [sound_intros]: "sem_eq (create_Ult l r) (Binary Ult l r)"
  unfolding create_Ult_def
  by (rule BCREATE_sem_eq) (simp add: UltExpr_create_def cmp_bool_steps)

lemma create_Ule_sem_eq [sound_intros]: "sem_eq (create_Ule l r) (Binary Ule l r)"
  unfolding create_Ule_def
  by (rule BCREATE_sem_eq) (simp add: UleExpr_create_def cmp_bool_steps)

lemma create_Slt_sem_eq [sound_intros]: "sem_eq (create_Slt l r) (Binary Slt l r)"
  unfolding create_Slt_def
  by (rule BCREATE_sem_eq) (simp add: SltExpr_create_def cmp_bool_steps)

lemma create_Sle_sem_eq [sound_intros]: "sem_eq (create_Sle l r) (Binary Sle l r)"
  unfolding create_Sle_def
  by (rule BCREATE_sem_eq) (simp add: SleExpr_create_def cmp_bool_steps)

lemma create_Ne_sem_eq [sound_intros]: "sem_eq (create_Ne l r) (Binary Ne l r)"
proof -
  have "sem_eq (create_Ne l r) (Binary Eq (Constant 1 0) (Binary Eq l r))"
    unfolding create_Ne_def
    by (intro sem_eq_trans[OF create_Eq_sem_eq] sem_eq_Binary create_Eq_sem_eq sem_eq_refl)
  also have "sem_eq \<dots> (Binary Ne l r)" by (rule sem_eqI) auto
  finally show ?thesis .
qed

lemma create_swapped_sem_eq [sound_intros]:
  "sem_eq (create_Ugt l r) (Binary Ugt l r)" "sem_eq (create_Uge l r) (Binary Uge l r)"
  "sem_eq (create_Sgt l r) (Binary Sgt l r)" "sem_eq (create_Sge l r) (Binary Sge l r)"
proof -
  have flip: "sem_eq (Binary Ult r l) (Binary Ugt l r)" "sem_eq (Binary Ule r l) (Binary Uge l r)"
    "sem_eq (Binary Slt r l) (Binary Sgt l r)" "sem_eq (Binary Sle r l) (Binary Sge l r)"
    by (intro sem_eqI; auto)+
  show "sem_eq (create_Ugt l r) (Binary Ugt l r)" "sem_eq (create_Uge l r) (Binary Uge l r)"
    "sem_eq (create_Sgt l r) (Binary Sgt l r)" "sem_eq (create_Sge l r) (Binary Sge l r)"
    unfolding create_Ugt_def create_Uge_def create_Sgt_def create_Sge_def
    by (rule sem_eq_trans[OF create_Ult_sem_eq flip(1)] sem_eq_trans[OF create_Ule_sem_eq flip(2)]
        sem_eq_trans[OF create_Slt_sem_eq flip(3)] sem_eq_trans[OF create_Sle_sem_eq flip(4)])+
qed

text \<open>
  The binary cases of \<open>Expr::createFromKind\<close>, which are also what \<open>rebuild\<close> calls:
  one creator per kind.
\<close>

fun create_Binary :: "binKind \<Rightarrow> expr \<Rightarrow> expr \<Rightarrow> expr option" where
  "create_Binary Add l r = Some (create_Add l r)"
| "create_Binary Sub l r = Some (create_Sub l r)"
| "create_Binary Mul l r = Some (create_Mul l r)"
| "create_Binary UDiv l r = create_UDiv l r"
| "create_Binary SDiv l r = create_SDiv l r"
| "create_Binary URem l r = create_URem l r"
| "create_Binary SRem l r = create_SRem l r"
| "create_Binary And l r = Some (create_And l r)"
| "create_Binary Or l r = Some (create_Or l r)"
| "create_Binary Xor l r = Some (create_Xor l r)"
| "create_Binary Shl l r = Some (create_Shl l r)"
| "create_Binary LShr l r = Some (create_LShr l r)"
| "create_Binary AShr l r = Some (create_AShr l r)"
| "create_Binary Eq l r = Some (create_Eq l r)"
| "create_Binary Ne l r = Some (create_Ne l r)"
| "create_Binary Ult l r = Some (create_Ult l r)"
| "create_Binary Ule l r = Some (create_Ule l r)"
| "create_Binary Ugt l r = Some (create_Ugt l r)"
| "create_Binary Uge l r = Some (create_Uge l r)"
| "create_Binary Slt l r = Some (create_Slt l r)"
| "create_Binary Sle l r = Some (create_Sle l r)"
| "create_Binary Sgt l r = Some (create_Sgt l r)"
| "create_Binary Sge l r = Some (create_Sge l r)"

definition isDivision :: "binKind \<Rightarrow> bool" where
  "isDivision k \<longleftrightarrow> k \<in> {UDiv, SDiv, URem, SRem}"

lemma create_Binary_sem_eq: "create_Binary k l r = Some e \<Longrightarrow> sem_eq e (Binary k l r)"
  by (cases k) (auto intro: sound_intros create_div_sem_eq)

lemma create_Binary_None:
  "create_Binary k l r = None \<longleftrightarrow> isDivision k \<and> is_Constant l \<and> (\<exists>w. r = Constant w 0)"
  by (cases k) (auto simp: isDivision_def create_div_defs BCREATE_div_None)

end
