(* ===== verification/ExprStruct.thy ===== *)
theory ExprStruct
  imports ExprArith
begin

text \<open>
  The remaining creators of \<open>klee/lib/Expr/Expr.cpp\<close>: concatenation and extraction
  (mutually recursive, with a nested call), complement, casts, selects, reads over update
  lists, and \<open>rebuild\<close>.
\<close>

section \<open>Concatenation and extraction\<close>

text \<open>
  The recursion is nested: \<open>ExtractExpr::create\<close> of a concatenation concatenates the
  extracts of its halves, and \<open>ConcatExpr::create\<close> of two extracts of one expression
  extracts from that expression. It terminates in the nesting depth, because an extract is at
  most one node deeper than its operand (\<open>eheight_create\<close>). The width
  \<open>w - kid1 + off\<close> of the left part is \<open>unsigned\<close> arithmetic that may wrap in between: it
  is \<open>w + off - kid1\<close>, which is not negative where it is used.
\<close>

primrec eheight :: "expr \<Rightarrow> nat" where
  "eheight (Constant w v) = 0"
| "eheight (NotOptimized e) = 0"
| "eheight (Read a ul i) = 0"
| "eheight (Select c t f) = 0"
| "eheight (Concat l r) = Suc (max (eheight l) (eheight r))"
| "eheight (Extract e off w) = Suc (eheight e)"
| "eheight (Cast k e w) = 0"
| "eheight (NotE e) = 0"
| "eheight (Binary k l r) = 0"

function create_Extract :: "expr \<Rightarrow> nat \<Rightarrow> width \<Rightarrow> expr"
  and create_Concat :: "expr \<Rightarrow> expr \<Rightarrow> expr" where
  "create_Extract e off w =
     (if w = getWidth e then e
      else (case dyn_cast_Constant e of
          Some (we, v) \<Rightarrow> ConstantExpr_Extract we v off w
        | None \<Rightarrow> (case dyn_cast_Concat e of
          Some (left, right) \<Rightarrow>
            (if off \<ge> getWidth right then create_Extract left (off - getWidth right) w
             else if off + w \<le> getWidth right then create_Extract right off w
             else create_Concat
                    (create_Extract left 0 (w + off - getWidth right))
                    (create_Extract right off (getWidth right - off)))
        | None \<Rightarrow> Extract e off w)))"
| "create_Concat l r =
     (case (dyn_cast_Constant l, dyn_cast_Constant r) of
        (Some (wl, cl), Some (wr, cr)) \<Rightarrow> ConstantExpr_Concat wl cl wr cr
      | _ \<Rightarrow>
        (case (dyn_cast_Extract l, dyn_cast_Extract r) of
           (Some (el, ol, wl), Some (er, offr, wr)) \<Rightarrow>
             (if el = er \<and> offr + wr = ol
              then create_Extract el offr (getWidth l + getWidth r)
              else Concat l r)
         | _ \<Rightarrow> Concat l r))"
  by pat_completeness auto

lemma eheight_create:
  "create_Extract_create_Concat_dom (Inl (e, off, w)) \<Longrightarrow>
     eheight (create_Extract e off w) \<le> Suc (eheight e)"
  "create_Extract_create_Concat_dom (Inr (l, r)) \<Longrightarrow>
     eheight (create_Concat l r) \<le> Suc (max (eheight l) (eheight r))"
proof (induction e off w and l r rule: create_Extract_create_Concat.pinduct)
  case (1 e off w)
  note IH = "1.IH"
  show ?case
  proof (cases "w = getWidth e \<or> is_Constant e \<or> dyn_cast_Concat e = None")
    case True
    then show ?thesis
      using "1.hyps" by (auto simp: create_Extract.psimps dyn_casts ConstantExpr_Extract_def
          split: option.split)
  next
    case False
    then obtain l r where e: "e = Concat l r" by (cases e) auto
    with False have w: "w \<noteq> getWidth (Concat l r)" by simp
    have "eheight (create_Extract l (off - getWidth r) w) \<le> Suc (eheight l)"
      if "getWidth r \<le> off"
      using IH(1)[of "(l, r)" l r] that w by (simp add: e)
    moreover have "eheight (create_Extract r off w) \<le> Suc (eheight r)"
      if "\<not> getWidth r \<le> off" "off + w \<le> getWidth r"
      using IH(2)[of "(l, r)" l r] that w by (simp add: e)
    moreover have "eheight (create_Concat (create_Extract l 0 (w + off - getWidth r))
          (create_Extract r off (getWidth r - off))) \<le> Suc (Suc (max (eheight l) (eheight r)))"
      if "\<not> getWidth r \<le> off" "\<not> off + w \<le> getWidth r"
      using IH(3-5)[of "(l, r)" l r] that w
      by (simp add: e) (erule order_trans, simp add: le_max_iff_disj max_def)
    ultimately show ?thesis
      using "1.hyps" w by (auto simp: create_Extract.psimps e)
  qed
next
  case (2 l r)
  show ?case
  proof (cases "\<exists>e off wl wr. l = Extract e (off + wr) wl \<and> r = Extract e off wr")
    case True
    then obtain e off wl wr where lr: "l = Extract e (off + wr) wl" "r = Extract e off wr" by blast
    with "2.IH" have "eheight (create_Extract e off (wl + wr)) \<le> Suc (eheight e)" by simp
    with lr "2.hyps" show ?thesis by (simp add: create_Concat.psimps)
  next
    case False
    then show ?thesis
      unfolding create_Concat.psimps[OF "2.hyps"]
      by (auto simp: dyn_casts ConstantExpr_Concat_def split: option.split)
  qed
qed

termination create_Extract
  by (relation "measure (\<lambda>x. case x of Inl (e, off, w) \<Rightarrow> 2 * eheight e
                                      | Inr (l, r) \<Rightarrow> 2 * max (eheight l) (eheight r) - 1)")
    (auto simp: dyn_casts dyn_casts_sym dest!: eheight_create(1))

declare create_Extract.simps [simp del] create_Concat.simps [simp del]

text \<open>\<open>ConcatExpr::createN\<close>, \<open>create4\<close> and \<open>create8\<close>: chains unbalanced to the right.\<close>

fun createN :: "expr list \<Rightarrow> expr option" where
  "createN [] = None"
| "createN [k] = Some k"
| "createN (k # ks) = map_option (create_Concat k) (createN ks)"

definition create4 :: "expr \<Rightarrow> expr \<Rightarrow> expr \<Rightarrow> expr \<Rightarrow> expr" where
  "create4 k1 k2 k3 k4 = create_Concat k1 (create_Concat k2 (create_Concat k3 k4))"

definition create8 ::
  "expr \<Rightarrow> expr \<Rightarrow> expr \<Rightarrow> expr \<Rightarrow> expr \<Rightarrow> expr \<Rightarrow> expr \<Rightarrow> expr \<Rightarrow> expr" where
  "create8 k1 k2 k3 k4 k5 k6 k7 k8 =
     create_Concat k1 (create_Concat k2 (create_Concat k3 (create_Concat k4 (create4 k5 k6 k7 k8))))"

subsection \<open>Soundness\<close>

lemma concat_value: "in_width n y \<Longrightarrow> x * 2 ^ n + y = concat_bit n y x"
  by (simp add: concat_bit_eq push_bit_eq_mult take_bit_in_width)

lemma bit_in_width: "in_width n y \<Longrightarrow> n \<le> i \<Longrightarrow> \<not> bit y i"
  by (metis bit_take_bit_iff in_width_iff_take_bit not_less)

lemma bit_sval: "i < w \<Longrightarrow> bit (sval w x) i = bit x i"
proof -
  assume "i < w"
  then have "min i (w - 1) = i" by simp
  then show ?thesis by (simp only: sval_def bit_signed_take_bit_iff) simp
qed

lemma extract_const_value:
  "off + w' \<le> w \<Longrightarrow> take_bit w' (take_bit w (drop_bit off (sval w x))) = take_bit w' (drop_bit off x)"
  by (rule bit_eqI) (auto simp: bit_simps bit_sval)

lemma extract_left_value:
  "n \<le> off \<Longrightarrow> take_bit w (drop_bit off (concat_bit n y x)) = take_bit w (drop_bit (off - n) x)"
  by (rule bit_eqI) (auto simp: bit_simps bit_concat_bit_iff)

lemma extract_right_value:
  "off + w \<le> n \<Longrightarrow> take_bit w (drop_bit off (concat_bit n y x)) = take_bit w (drop_bit off y)"
  by (rule bit_eqI) (auto simp: bit_simps bit_concat_bit_iff)

lemma extract_both_value:
  assumes "off < n" "n < off + w"
  shows "concat_bit (n - off) (take_bit (n - off) (drop_bit off y)) (take_bit (w + off - n) x) =
    take_bit w (drop_bit off (concat_bit n y x))"
  by (rule bit_eqI) (use assms in \<open>auto simp: bit_simps bit_concat_bit_iff add.commute\<close>)

lemma merge_extracts_value:
  "concat_bit w (take_bit w (drop_bit off y)) (take_bit w' (drop_bit (off + w) y)) =
    take_bit (w' + w) (drop_bit off y)"
  by (rule bit_eqI) (auto simp: bit_simps bit_concat_bit_iff)

lemma extract_whole_sem_eq: "w = getWidth e \<Longrightarrow> sem_eq e (Extract e off w)"
  by (rule sem_eqI) (auto simp: eval_take_bit)

lemma extract_const_sem_eq:
  "sem_eq (ConstantExpr_Extract we v off w) (Extract (Constant we v) off w)"
  using extract_const_value[of off w we v]
  by (intro sem_eqI) (auto simp: ConstantExpr_Extract_def)

lemma extract_concat_sem_eq:
  "getWidth r \<le> off \<Longrightarrow> sem_eq (Extract l (off - getWidth r) w) (Extract (Concat l r) off w)"
  "off + w \<le> getWidth r \<Longrightarrow> sem_eq (Extract r off w) (Extract (Concat l r) off w)"
  "\<not> getWidth r \<le> off \<Longrightarrow> \<not> off + w \<le> getWidth r \<Longrightarrow>
    sem_eq (Concat (Extract l 0 (w + off - getWidth r)) (Extract r off (getWidth r - off)))
      (Extract (Concat l r) off w)"
proof -
  have v: "eval \<rho> (Concat l r) = concat_bit (getWidth r) (eval \<rho> r) (eval \<rho> l)"
    if "wf_expr (Concat l r)" "wf_env \<rho>" for \<rho>
    using that by (simp add: concat_value eval_in_width)
  show "sem_eq (Extract l (off - getWidth r) w) (Extract (Concat l r) off w)" if "getWidth r \<le> off"
    by (rule sem_eqI) (use that v in \<open>auto simp del: eval.simps(5) simp: extract_left_value\<close>)
  show "sem_eq (Extract r off w) (Extract (Concat l r) off w)" if "off + w \<le> getWidth r"
    by (rule sem_eqI) (use that v in \<open>auto simp del: eval.simps(5) simp: extract_right_value\<close>)
  show "sem_eq (Concat (Extract l 0 (w + off - getWidth r)) (Extract r off (getWidth r - off)))
      (Extract (Concat l r) off w)" if "\<not> getWidth r \<le> off" "\<not> off + w \<le> getWidth r"
  proof (rule sem_eqI)
    fix \<rho>
    assume wf: "wf_expr (Extract (Concat l r) off w)" "wf_env \<rho>"
    then show "eval \<rho> (Concat (Extract l 0 (w + off - getWidth r)) (Extract r off (getWidth r - off)))
        = eval \<rho> (Extract (Concat l r) off w)"
      using that v[of \<rho>] extract_both_value[of off "getWidth r" w "eval \<rho> r" "eval \<rho> l"]
      by (simp add: concat_value)
  qed (use that in auto)
qed

lemma concat_const_sem_eq:
  "sem_eq (ConstantExpr_Concat wl cl wr cr) (Concat (Constant wl cl) (Constant wr cr))"
proof (rule sem_eqI)
  fix \<rho>
  assume wf: "wf_expr (Concat (Constant wl cl) (Constant wr cr))"
  then have "push_bit wr cl OR cr = cl * 2 ^ wr + cr"
    by (simp add: concat_value concat_bit_def take_bit_in_width or.commute)
  moreover have "in_width (wl + wr) (cl * 2 ^ wr + cr)" "in_width (wl + wr) cr"
    using wf in_width_concat in_width_mono by (auto intro: in_width_mono)
  ultimately show "eval \<rho> (ConstantExpr_Concat wl cl wr cr) =
      eval \<rho> (Concat (Constant wl cl) (Constant wr cr))"
    by (simp add: ConstantExpr_Concat_def)
      (metis take_bit_in_width take_bit_or)
qed (auto simp: ConstantExpr_Concat_def intro!: in_width_or intro: in_width_mono)

lemma merge_extracts_sem_eq:
  "sem_eq (Extract e off (wl + wr)) (Concat (Extract e (off + wr) wl) (Extract e off wr))"
  by (rule sem_eqI) (auto simp: concat_value merge_extracts_value)

lemma create_ExtractConcat_sem_eq:
  "sem_eq (create_Extract e off w) (Extract e off w)"
  "sem_eq (create_Concat l r) (Concat l r)"
proof (induction e off w and l r rule: create_Extract_create_Concat.induct)
  case (1 e off w)
  note IH = "1.IH"
  show ?case
  proof (cases "w = getWidth e \<or> is_Constant e \<or> dyn_cast_Concat e = None")
    case True
    then show ?thesis
      unfolding create_Extract.simps[of e off w]
      by (auto simp: dyn_casts extract_whole_sem_eq extract_const_sem_eq split: option.split)
  next
    case False
    then obtain l r where e: "e = Concat l r" by (cases e) auto
    with False have w: "w \<noteq> getWidth (Concat l r)" by simp
    note concat = sem_eq_trans[OF _ extract_concat_sem_eq(1)]
      sem_eq_trans[OF _ extract_concat_sem_eq(2)]
      sem_eq_trans[OF sem_eq_trans[OF _ sem_eq_Concat] extract_concat_sem_eq(3)]
    show ?thesis
      using IH[of "(l, r)" l r] w
      unfolding e create_Extract.simps[of "Concat l r" off w]
      by (auto simp: concat)
  qed
next
  case (2 l r)
  show ?case
  proof (cases "\<exists>e off wl wr. l = Extract e (off + wr) wl \<and> r = Extract e off wr")
    case True
    then obtain e off wl wr where lr: "l = Extract e (off + wr) wl" "r = Extract e off wr" by blast
    with "2.IH" have "sem_eq (create_Extract e off (wl + wr)) (Extract e off (wl + wr))" by simp
    with lr show ?thesis
      by (simp add: create_Concat.simps sem_eq_trans[OF _ merge_extracts_sem_eq])
  next
    case False
    then show ?thesis
      unfolding create_Concat.simps[of l r]
      by (auto simp: dyn_casts concat_const_sem_eq split: option.split)
  qed
qed

lemma create_Extract_sem_eq [sound_intros]: "sem_eq (create_Extract e off w) (Extract e off w)"
  by (rule create_ExtractConcat_sem_eq(1))

lemma create_Concat_sem_eq [sound_intros]: "sem_eq (create_Concat l r) (Concat l r)"
  by (rule create_ExtractConcat_sem_eq(2))

lemma createN_sem_eq:
  "createN ks = Some e \<Longrightarrow> foldr Concat (butlast ks) (last ks) = e' \<Longrightarrow> sem_eq e e'"
proof (induction ks arbitrary: e e' rule: createN.induct)
  case (3 k k' ks)
  then obtain x where x: "createN (k' # ks) = Some x" "e = create_Concat k x" by auto
  with "3.IH" have "sem_eq x (foldr Concat (butlast (k' # ks)) (last (k' # ks)))" by blast
  then have "sem_eq (Concat k x) (Concat k (foldr Concat (butlast (k' # ks)) (last (k' # ks))))"
    by (simp add: sem_eq_Concat)
  with "3.prems" x show ?case
    by (auto intro: sem_eq_trans[OF create_Concat_sem_eq])
qed auto

lemma create4_createN: "createN [a, b, c, d] = Some (create4 a b c d)"
  by (simp add: create4_def)

lemma create8_createN:
  "createN [a, b, c, d, e, f, g, h] = Some (create8 a b c d e f g h)"
  by (simp add: create8_def create4_def)

section \<open>Complement and casts\<close>

definition create_Not :: "expr \<Rightarrow> expr" where
  "create_Not e = (case dyn_cast_Constant e of
      Some (w, v) \<Rightarrow> ConstantExpr_Not w v | None \<Rightarrow> NotE e)"

definition create_ZExt :: "expr \<Rightarrow> width \<Rightarrow> expr" where
  "create_ZExt e w =
     (if w = getWidth e then e
      else if w < getWidth e then create_Extract e 0 w
      else (case dyn_cast_Constant e of
          Some (we, v) \<Rightarrow> ConstantExpr_ZExt we v w
        | None \<Rightarrow> Cast ZExt e w))"

definition create_SExt :: "expr \<Rightarrow> width \<Rightarrow> expr" where
  "create_SExt e w =
     (if w = getWidth e then e
      else if w < getWidth e then create_Extract e 0 w
      else (case dyn_cast_Constant e of
          Some (we, v) \<Rightarrow> ConstantExpr_SExt we v w
        | None \<Rightarrow> Cast SExt e w))"

fun create_Cast :: "castKind \<Rightarrow> expr \<Rightarrow> width \<Rightarrow> expr" where
  "create_Cast ZExt e w = create_ZExt e w"
| "create_Cast SExt e w = create_SExt e w"

lemma create_Not_sem_eq [sound_intros]: "sem_eq (create_Not e) (NotE e)"
  by (auto simp: create_Not_def dyn_casts ConstantExpr_Not_def sem_eq_def split: option.split)

lemma take_bit_sval: "take_bit w (sval w v) = take_bit w v"
  by (rule bit_eqI) (auto simp: bit_simps bit_sval)

lemma cast_same_width_sem_eq: "w = getWidth e \<Longrightarrow> sem_eq e (Cast k e w)"
  by (cases k; rule sem_eqI) (auto simp: eval_take_bit take_bit_sval)

lemma cast_const_sem_eq:
  "we < w \<Longrightarrow> sem_eq (ConstantExpr_ZExt we v w) (Cast ZExt (Constant we v) w)"
  "we < w \<Longrightarrow> sem_eq (ConstantExpr_SExt we v w) (Cast SExt (Constant we v) w)"
  by (rule sem_eqI; auto simp: ConstantExpr_ZExt_def ConstantExpr_SExt_def)+

text \<open>A cast to a smaller width is the extraction of the low bits.\<close>

lemma create_Cast_sem_eq [sound_intros]:
  "sem_eq (create_Cast k e w) (if w < getWidth e then Extract e 0 w else Cast k e w)"
  by (cases k)
    (auto simp: create_ZExt_def create_SExt_def dyn_casts cast_same_width_sem_eq cast_const_sem_eq
      create_Extract_sem_eq split: option.split)

section \<open>Select\<close>

definition create_Select :: "expr \<Rightarrow> expr \<Rightarrow> expr \<Rightarrow> expr" where
  "create_Select c t f =
     (case dyn_cast_Constant c of
        Some (wc, vc) \<Rightarrow> (if wc = 1 \<and> vc \<noteq> 0 then t else f)
      | None \<Rightarrow>
        (if t = f then t
         else if getWidth t = 1 then
           (case dyn_cast_Constant t of
              Some (wt, vt) \<Rightarrow>
                (if wt = 1 \<and> vt \<noteq> 0 then create_Or c f else create_And (createIsZero c) f)
            | None \<Rightarrow> (case dyn_cast_Constant f of
                Some (wfl, vf) \<Rightarrow>
                  (if wfl = 1 \<and> vf \<noteq> 0 then create_Or (createIsZero c) t else create_And c t)
              | None \<Rightarrow> Select c t f))
         else Select c t f))"

lemma select_bool_sem_eq:
  assumes "getWidth t = 1"
  shows "is_Constant t \<Longrightarrow> \<not> isZero t \<Longrightarrow> sem_eq (Binary Or c f) (Select c t f)"
    "isZero t \<Longrightarrow> sem_eq (Binary And (is_zero_node c) f) (Select c t f)"
    "is_Constant f \<Longrightarrow> \<not> isZero f \<Longrightarrow> sem_eq (Binary Or (is_zero_node c) t) (Select c t f)"
    "isZero f \<Longrightarrow> sem_eq (Binary And c t) (Select c t f)"
proof -
  have b: "(eval \<rho> c = 0 \<or> eval \<rho> c = 1) \<and> (eval \<rho> t = 0 \<or> eval \<rho> t = 1) \<and> (eval \<rho> f = 0 \<or> eval \<rho> f = 1)
      \<and> getWidth c = 1 \<and> getWidth f = 1"
    if "wf_expr (Select c t f)" "wf_env \<rho>" for \<rho>
    using that assms eval_bool[of \<rho> c] eval_bool[of \<rho> t] eval_bool[of \<rho> f] by auto
  have "eval \<rho> (Binary Or c f) = eval \<rho> (Select c t f)"
    if "wf_expr (Select c t f)" "wf_env \<rho>" "is_Constant t" "\<not> isZero t" for \<rho>
    using b[OF that(1,2)] that(3,4) by (cases t) auto
  then show "is_Constant t \<Longrightarrow> \<not> isZero t \<Longrightarrow> sem_eq (Binary Or c f) (Select c t f)"
    using assms by (auto intro!: sem_eqI)
  have "eval \<rho> (Binary And (is_zero_node c) f) = eval \<rho> (Select c t f)"
    if "wf_expr (Select c t f)" "wf_env \<rho>" "isZero t" for \<rho>
    using b[OF that(1,2)] that(3) by (cases t) auto
  then show "isZero t \<Longrightarrow> sem_eq (Binary And (is_zero_node c) f) (Select c t f)"
    using assms by (auto intro!: sem_eqI)
  have "eval \<rho> (Binary Or (is_zero_node c) t) = eval \<rho> (Select c t f)"
    if "wf_expr (Select c t f)" "wf_env \<rho>" "is_Constant f" "\<not> isZero f" for \<rho>
    using b[OF that(1,2)] that(3,4) by (cases f) auto
  then show "is_Constant f \<Longrightarrow> \<not> isZero f \<Longrightarrow> sem_eq (Binary Or (is_zero_node c) t) (Select c t f)"
    using assms by (auto intro!: sem_eqI)
  have "eval \<rho> (Binary And c t) = eval \<rho> (Select c t f)"
    if "wf_expr (Select c t f)" "wf_env \<rho>" "isZero f" for \<rho>
    using b[OF that(1,2)] that(3) by (cases f) auto
  then show "isZero f \<Longrightarrow> sem_eq (Binary And c t) (Select c t f)"
    using assms by (auto intro!: sem_eqI)
qed

lemmas select_bool_steps =
  select_bool_sem_eq(1)[THEN sem_eq_trans[OF create_Or_sem_eq]]
  select_bool_sem_eq(2)[THEN is_zero_and_sem_eq]
  select_bool_sem_eq(3)[THEN is_zero_or_sem_eq]
  select_bool_sem_eq(4)[THEN sem_eq_trans[OF create_And_sem_eq]]

lemma create_Select_sem_eq [sound_intros]: "sem_eq (create_Select c t f) (Select c t f)"
proof -
  have const: "sem_eq (if w = 1 \<and> v \<noteq> 0 then t else f) (Select (Constant w v) t f)" for w v
    by (cases "w = 1") (auto intro!: sem_eqI simp: in_width_bool)
  have same: "sem_eq t (Select c t t)"
    by (rule sem_eqI) auto
  have mixed: "sem_eq e (Select c t f)" if "getWidth t \<noteq> getWidth f" for e
    using that by (simp add: sem_eq_def)
  show ?thesis
    using const same mixed
    by (auto simp: create_Select_def dyn_casts select_bool_steps split: option.split)
qed

section \<open>Read\<close>

text \<open>
  The scan of \<open>ReadExpr::create\<close> over the update list: a write at the same index is
  found, a write whose index may or may not be the same stops the scan (with the rest of the
  list, that write included), or the list ends.
\<close>

datatype read_scan = Found expr | SymbolicAt updates | AtEnd

fun scan_updates :: "expr \<Rightarrow> updates \<Rightarrow> read_scan" where
  "scan_updates index UNull = AtEnd"
| "scan_updates index (UNode i v un) =
     (case dyn_cast_Constant (create_Eq index i) of
        Some (w, c) \<Rightarrow> (if w = 1 \<and> c \<noteq> 0 then Found v else scan_updates index un)
      | None \<Rightarrow> SymbolicAt (UNode i v un))"

definition create_Read :: "array \<Rightarrow> updates \<Rightarrow> expr \<Rightarrow> expr" where
  "create_Read a ul index =
     (case scan_updates index ul of
        Found v \<Rightarrow> v
      | SymbolicAt un \<Rightarrow>
          (case dyn_cast_Constant index of
             Some (w, c) \<Rightarrow> if c < int (arr_size a) then Read a un index else Read a ul index
           | None \<Rightarrow> Read a ul index)
      | AtEnd \<Rightarrow>
          (case dyn_cast_Constant index of
             Some (w, c) \<Rightarrow>
               if c < int (arr_size a)
               then if isConstantArray a then Constant (arr_range a) (constantValues a ! nat c)
                    else Read a UNull index
               else Read a ul index
           | None \<Rightarrow> Read a ul index))"

lemma create_Eq_const_value:
  assumes "create_Eq index i = Constant w c" "wf_expr index" "wf_expr i"
    "getWidth index = getWidth i" "wf_env \<rho>"
  shows "w = 1" "c \<noteq> 0 \<longleftrightarrow> eval \<rho> index = eval \<rho> i"
  using create_Eq_sem_eq[of index i] assms by (auto simp: sem_eq_def)

lemma scan_updates_sound:
  assumes "wf_expr index" "wf_array a" "wf_updates ul a" "getWidth index = arr_domain a"
  shows "scan_updates index ul = Found v \<Longrightarrow>
      wf_expr v \<and> getWidth v = arr_range a
      \<and> (\<forall>\<rho>. wf_env \<rho> \<longrightarrow> eval_read \<rho> ul a (eval \<rho> index) = eval \<rho> v)"
    and "scan_updates index ul = SymbolicAt un \<Longrightarrow>
      wf_updates un a
      \<and> (\<forall>\<rho>. wf_env \<rho> \<longrightarrow> eval_read \<rho> ul a (eval \<rho> index) = eval_read \<rho> un a (eval \<rho> index))"
    and "scan_updates index ul = AtEnd \<Longrightarrow> wf_env \<rho> \<Longrightarrow>
      eval_read \<rho> ul a (eval \<rho> index) = initial_value \<rho> a (eval \<rho> index)"
proof -
  have "(scan_updates index ul = Found v \<longrightarrow>
      wf_expr v \<and> getWidth v = arr_range a
      \<and> (\<forall>\<rho>. wf_env \<rho> \<longrightarrow> eval_read \<rho> ul a (eval \<rho> index) = eval \<rho> v))
    \<and> (scan_updates index ul = SymbolicAt un \<longrightarrow>
      wf_updates un a
      \<and> (\<forall>\<rho>. wf_env \<rho> \<longrightarrow> eval_read \<rho> ul a (eval \<rho> index) = eval_read \<rho> un a (eval \<rho> index)))
    \<and> (scan_updates index ul = AtEnd \<longrightarrow> (\<forall>\<rho>. wf_env \<rho> \<longrightarrow>
      eval_read \<rho> ul a (eval \<rho> index) = initial_value \<rho> a (eval \<rho> index)))"
    using assms
  proof (induction index ul rule: scan_updates.induct)
    case (2 index i x rest)
    then have same: "wf_expr i" "getWidth index = getWidth i" by auto
    show ?case
    proof (cases "dyn_cast_Constant (create_Eq index i)")
      case None
      with "2.prems" show ?thesis by auto
    next
      case (Some wc)
      then obtain w c where eq: "create_Eq index i = Constant w c" "wc = (w, c)"
        by (cases wc) (auto simp: dyn_casts)
      note const = create_Eq_const_value[OF eq(1) "2.prems"(1) same]
      have env: "wf_env (\<lambda>a j. 0)" by (simp add: wf_env_def in_width_def)
      show ?thesis
      proof (cases "w = 1 \<and> c \<noteq> 0")
        case True
        with eq have "scan_updates index (UNode i x rest) = Found x" by simp
        moreover have "eval \<rho> i = eval \<rho> index" if "wf_env \<rho>" for \<rho>
          using const(2)[OF that] True by simp
        ultimately show ?thesis using "2.prems" by (auto simp del: scan_updates.simps)
      next
        case False
        with const(1)[OF env] have "c = 0" by simp
        then have skip: "eval_read \<rho> (UNode i x rest) a (eval \<rho> index) = eval_read \<rho> rest a (eval \<rho> index)"
          if "wf_env \<rho>" for \<rho>
          using const(2)[OF that] by auto
        from eq False have scan: "scan_updates index (UNode i x rest) = scan_updates index rest"
          by auto
        from "2.prems" have "wf_updates rest a" by simp
        note IH = "2.IH"[OF Some eq(2)[symmetric] False "2.prems"(1,2) this "2.prems"(4)]
        show ?thesis
          by (simp (no_asm) only: scan skip cong: imp_cong, rule IH)
      qed
    qed
  qed simp
  note all = this
  from all show "scan_updates index ul = Found v \<Longrightarrow>
      wf_expr v \<and> getWidth v = arr_range a
      \<and> (\<forall>\<rho>. wf_env \<rho> \<longrightarrow> eval_read \<rho> ul a (eval \<rho> index) = eval \<rho> v)"
    by (rule conjunct1[THEN mp])
  from all show "scan_updates index ul = SymbolicAt un \<Longrightarrow>
      wf_updates un a
      \<and> (\<forall>\<rho>. wf_env \<rho> \<longrightarrow> eval_read \<rho> ul a (eval \<rho> index) = eval_read \<rho> un a (eval \<rho> index))"
    by (rule conjunct2[THEN conjunct1, THEN mp])
  from all show "scan_updates index ul = AtEnd \<Longrightarrow> wf_env \<rho> \<Longrightarrow>
      eval_read \<rho> ul a (eval \<rho> index) = initial_value \<rho> a (eval \<rho> index)"
    by simp
qed

lemma create_Read_sem_eq [sound_intros]: "sem_eq (create_Read a ul index) (Read a ul index)"
proof (cases "wf_expr (Read a ul index)")
  case True
  then have prems: "wf_expr index" "wf_array a" "wf_updates ul a" "getWidth index = arr_domain a"
    by auto
  note sound = scan_updates_sound[OF prems]
  show ?thesis
  proof (cases "scan_updates index ul")
    case (Found v)
    with sound(1)[OF Found] show ?thesis by (auto simp: create_Read_def sem_eq_def)
  next
    case (SymbolicAt un)
    with sound(2)[OF SymbolicAt] True show ?thesis
      by (auto simp: create_Read_def sem_eq_def split: option.split)
  next
    case AtEnd
    have "sem_eq (Constant (arr_range a) (constantValues a ! nat c)) (Read a ul index)"
      if "index = Constant w c" "c < int (arr_size a)" "isConstantArray a" for w c
    proof -
      from that prems have "0 \<le> c" "nat c < length (constantValues a)"
        by (auto simp: in_width_def wf_array_def)
      with that prems sound(3)[OF AtEnd] show ?thesis
        by (auto simp: sem_eq_def wf_array_def initial_value_def)
    qed
    moreover have "sem_eq (Read a UNull index) (Read a ul index)"
      using True sound(3)[OF AtEnd] by (auto simp: sem_eq_def)
    ultimately show ?thesis
      using AtEnd by (auto simp: create_Read_def dyn_casts split: option.split)
  qed
qed (auto simp: sem_eq_def)

section \<open>What the structural creators compute\<close>

lemma create_ConcatExtract_ok:
  assumes "wf_expr l" "wf_expr r" "0 < w" "off + w \<le> getWidth l + getWidth r" "wf_env \<rho>"
  shows "eval \<rho> (create_Concat l r) = eval \<rho> l * 2 ^ getWidth r + eval \<rho> r"
    "eval \<rho> (create_Extract (create_Concat l r) off w)
      = take_bit w (drop_bit off (eval \<rho> l * 2 ^ getWidth r + eval \<rho> r))"
proof -
  have c: "wf_expr (Concat l r)" using assms by simp
  note C = sem_eqD[OF create_Concat_sem_eq c]
  have "wf_expr (Extract (create_Concat l r) off w)" using C assms by simp
  from sem_eqD[OF create_Extract_sem_eq this] C assms(5)
  show "eval \<rho> (create_Concat l r) = eval \<rho> l * 2 ^ getWidth r + eval \<rho> r"
    "eval \<rho> (create_Extract (create_Concat l r) off w)
      = take_bit w (drop_bit off (eval \<rho> l * 2 ^ getWidth r + eval \<rho> r))"
    by simp_all
qed

lemma create_casts_ok:
  assumes "wf_expr t" "0 < w" "wf_env \<rho>"
  shows "eval \<rho> (create_Not t) = take_bit (getWidth t) (NOT (eval \<rho> t))"
    "eval \<rho> (create_ZExt t w) = take_bit w (eval \<rho> t)"
    "eval \<rho> (create_SExt t w) = take_bit w (sval (getWidth t) (eval \<rho> t))"
proof -
  have n: "wf_expr (NotE t)" using assms by simp
  have z: "wf_expr (if w < getWidth t then Extract t 0 w else Cast k t w)" for k using assms by simp
  have "take_bit w (sval (getWidth t) v) = take_bit w v" if "w < getWidth t" for v
  proof -
    have "take_bit w (take_bit (getWidth t) (sval (getWidth t) v)) = take_bit w (take_bit (getWidth t) v)"
      by (simp only: take_bit_sval)
    with that show ?thesis by (simp add: min_def)
  qed
  then show "eval \<rho> (create_SExt t w) = take_bit w (sval (getWidth t) (eval \<rho> t))"
    using sem_eqD(3)[OF create_Cast_sem_eq[of SExt] z assms(3)] by (auto split: if_splits)
  show "eval \<rho> (create_ZExt t w) = take_bit w (eval \<rho> t)"
    using sem_eqD(3)[OF create_Cast_sem_eq[of ZExt] z assms(3)] by (auto split: if_splits)
  show "eval \<rho> (create_Not t) = take_bit (getWidth t) (NOT (eval \<rho> t))"
    using sem_eqD(3)[OF create_Not_sem_eq n assms(3)] by simp
qed

end
