(* ===== verification/ExprVisitor.thy ===== *)
theory ExprVisitor
  imports ExprStruct
begin

text \<open>
  \<open>ExprVisitor\<close> (\<open>klee/include/klee/Expr/ExprVisitor.h\<close>,
  \<open>klee/lib/Expr/ExprVisitor.cpp\<close>): the traversal that simplification and evaluation
  share, with its memo table, and the kids and the rebuilding of an expression. A visitor is
  a record of its virtual methods. The traversal is sound for every visitor whose actions
  are, and a visitor that does not revisit what it rebuilt needs no more fuel than the height
  of the expression.
\<close>

section \<open>Kids and rebuilding\<close>

primrec getKids :: "expr \<Rightarrow> expr list" where
  "getKids (Constant w v) = []"
| "getKids (NotOptimized e) = [e]"
| "getKids (Read a ul i) = [i]"
| "getKids (Select c t f) = [c, t, f]"
| "getKids (Concat l r) = [l, r]"
| "getKids (Extract e off w) = [e]"
| "getKids (Cast k e w) = [e]"
| "getKids (NotE e) = [e]"
| "getKids (Binary k l r) = [l, r]"

fun rebuild :: "expr \<Rightarrow> expr list \<Rightarrow> expr result" where
  "rebuild (NotOptimized e) [k] = Inr (NotOptimized k)"
| "rebuild (Read a ul i) [k] = Inr (create_Read a ul k)"
| "rebuild (Select c t f) [c', t', f'] = Inr (create_Select c' t' f')"
| "rebuild (Concat l r) [l', r'] = Inr (create_Concat l' r')"
| "rebuild (Extract e off w) [k] = Inr (create_Extract k off w)"
| "rebuild (Cast c e w) [k] = Inr (create_Cast c k w)"
| "rebuild (NotE e) [k] = Inr (create_Not k)"
| "rebuild (Binary b l r) [l', r'] = of_option DivisionByZero (create_Binary b l' r')"
| "rebuild _ _ = Inl AssertionFailed"

section \<open>Equivalence on some assignments\<close>

text \<open>\<open>sem_eq\<close> relative to the assignments that satisfy \<open>P\<close>.\<close>

definition sem_eq_on :: "(env \<Rightarrow> bool) \<Rightarrow> expr \<Rightarrow> expr \<Rightarrow> bool" where
  "sem_eq_on P e' e \<longleftrightarrow> (wf_expr e \<longrightarrow> wf_expr e' \<and> getWidth e' = getWidth e
     \<and> (\<forall>\<rho>. wf_env \<rho> \<longrightarrow> P \<rho> \<longrightarrow> eval \<rho> e' = eval \<rho> e))"

lemma sem_eq_onI:
  assumes "wf_expr e \<Longrightarrow> wf_expr e'"
    and "wf_expr e \<Longrightarrow> getWidth e' = getWidth e"
    and "\<And>\<rho>. wf_expr e \<Longrightarrow> wf_env \<rho> \<Longrightarrow> P \<rho> \<Longrightarrow> eval \<rho> e' = eval \<rho> e"
  shows "sem_eq_on P e' e"
  using assms by (simp add: sem_eq_on_def)

lemma sem_eq_onD:
  assumes "sem_eq_on P e' e" "wf_expr e"
  shows "wf_expr e'" "getWidth e' = getWidth e" "wf_env \<rho> \<Longrightarrow> P \<rho> \<Longrightarrow> eval \<rho> e' = eval \<rho> e"
  using assms by (simp_all add: sem_eq_on_def)

lemma sem_eq_on_refl [simp]: "sem_eq_on P e e"
  by (simp add: sem_eq_on_def)

lemma sem_eq_on_trans: "sem_eq_on P a b \<Longrightarrow> sem_eq_on P b c \<Longrightarrow> sem_eq_on P a c"
  by (simp add: sem_eq_on_def)

lemma sem_eq_imp_on: "sem_eq a b \<Longrightarrow> sem_eq_on P a b"
  by (simp add: sem_eq_on_def sem_eq_def)

lemma sem_eq_on_step: "sem_eq a b \<Longrightarrow> sem_eq_on P b c \<Longrightarrow> sem_eq_on P a c"
  by (rule sem_eq_on_trans[OF sem_eq_imp_on])

lemma sem_eq_on_cast:
  assumes "sem_eq_on P a b"
  shows "sem_eq_on P (if w < getWidth a then Extract a 0 w else Cast k a w) (Cast k b w)"
  using assms by (auto simp: sem_eq_on_def)

lemma sem_eq_on_cong:
  "sem_eq_on P a' a \<Longrightarrow> sem_eq_on P (NotOptimized a') (NotOptimized a)"
  "sem_eq_on P a' a \<Longrightarrow> sem_eq_on P (Read ar ul a') (Read ar ul a)"
  "sem_eq_on P a' a \<Longrightarrow> sem_eq_on P b' b \<Longrightarrow> sem_eq_on P c' c
    \<Longrightarrow> sem_eq_on P (Select a' b' c') (Select a b c)"
  "sem_eq_on P a' a \<Longrightarrow> sem_eq_on P b' b \<Longrightarrow> sem_eq_on P (Concat a' b') (Concat a b)"
  "sem_eq_on P a' a \<Longrightarrow> sem_eq_on P (Extract a' off w) (Extract a off w)"
  "sem_eq_on P a' a \<Longrightarrow> sem_eq_on P (NotE a') (NotE a)"
  "sem_eq_on P a' a \<Longrightarrow> sem_eq_on P b' b \<Longrightarrow> sem_eq_on P (Binary k a' b') (Binary k a b)"
  by (simp_all add: sem_eq_on_def)

lemmas create_sound_on =
  sem_eq_on_step[OF create_Read_sem_eq] sem_eq_on_step[OF create_Select_sem_eq]
  sem_eq_on_step[OF create_Concat_sem_eq] sem_eq_on_step[OF create_Extract_sem_eq]
  sem_eq_on_step[OF create_Cast_sem_eq] sem_eq_on_step[OF create_Not_sem_eq]
  sem_eq_on_step[OF create_Binary_sem_eq]

lemma rebuild_sem_eq_on:
  assumes "list_all2 (sem_eq_on P) ks (getKids e)" "rebuild e ks = Inr r"
  shows "sem_eq_on P r e"
proof (cases e)
  case (Constant w v)
  with assms show ?thesis by simp
next
  case (NotOptimized x)
  with assms show ?thesis by (auto simp: list_all2_Cons2 sem_eq_on_cong)
next
  case (Read a ul i)
  with assms show ?thesis by (auto simp: list_all2_Cons2 intro!: create_sound_on(1-6) sem_eq_on_cong)
next
  case (Select c t f)
  with assms show ?thesis by (auto simp: list_all2_Cons2 intro!: create_sound_on(1-6) sem_eq_on_cong)
next
  case (Concat a b)
  with assms show ?thesis by (auto simp: list_all2_Cons2 intro!: create_sound_on(1-6) sem_eq_on_cong)
next
  case (Extract a off w)
  with assms show ?thesis by (auto simp: list_all2_Cons2 intro!: create_sound_on(1-6) sem_eq_on_cong)
next
  case (Cast k x w)
  with assms obtain y where "sem_eq_on P y x" "r = create_Cast k y w"
    by (auto simp: list_all2_Cons2)
  with Cast show ?thesis by (simp add: create_sound_on(5)[OF sem_eq_on_cast])
next
  case (NotE a)
  with assms show ?thesis by (auto simp: list_all2_Cons2 intro!: create_sound_on(1-6) sem_eq_on_cong)
next
  case (Binary k a b)
  with assms obtain x y where "sem_eq_on P x a" "sem_eq_on P y b" "create_Binary k x y = Some r"
    by (auto simp: list_all2_Cons2)
  with Binary show ?thesis by (simp add: create_sound_on(7)[OF _ sem_eq_on_cong(7)])
qed

section \<open>Visitors\<close>

text \<open>
  \<open>visitActual\<close> first asks \<open>visitExpr\<close>, then the method of the node's kind
  (\<open>visitKind\<close>; \<open>visitRead\<close>, \<open>visitAdd\<close> and so on, which may visit
  recursively and so take the traversal as an argument), then visits the kids, rebuilds the node
  when one changed, visits the rebuilt node again when the visitor is \<open>recursive\<close>, and
  last asks \<open>visitExprPost\<close>. \<open>visited\<close> maps the expressions seen to their results.
\<close>

datatype action = SkipChildren | DoChildren | ChangeTo expr

type_synonym visited = "(expr \<times> expr) list"
type_synonym visit_fun = "visited \<Rightarrow> expr \<Rightarrow> (expr \<times> visited) result"

record visitor =
  visitExpr :: "expr \<Rightarrow> action result"
  visitKind :: "visit_fun \<Rightarrow> visited \<Rightarrow> expr \<Rightarrow> (action \<times> visited) result"
  visitExprPost :: "expr \<Rightarrow> action"
  recursive :: bool

definition visit_default :: "visit_fun \<Rightarrow> visited \<Rightarrow> expr \<Rightarrow> (action \<times> visited) result" where
  "visit_default visit m e = Inr (DoChildren, m)"

fun visitKids :: "visit_fun \<Rightarrow> visited \<Rightarrow> expr list \<Rightarrow> (expr list \<times> visited) result" where
  "visitKids visit m [] = Inr ([], m)"
| "visitKids visit m (k # ks) =
     bind_res (visit m k) (\<lambda>(k', m').
       bind_res (visitKids visit m' ks) (\<lambda>(ks', m''). Inr (k' # ks', m'')))"

definition finish_visit :: "visitor \<Rightarrow> expr \<Rightarrow> expr" where
  "finish_visit V e =
     (if is_Constant e then e
      else case visitExprPost V e of ChangeTo a \<Rightarrow> a | _ \<Rightarrow> e)"

definition visitChildren :: "visit_fun \<Rightarrow> visitor \<Rightarrow> visited \<Rightarrow> expr \<Rightarrow> (expr \<times> visited) result" where
  "visitChildren visit V m e =
     bind_res (visitKids visit m (getKids e)) (\<lambda>(ks, m1).
       bind_res
         (if ks = getKids e then Inr (e, m1)
          else bind_res (rebuild e ks) (\<lambda>e1. if recursive V then visit m1 e1 else Inr (e1, m1)))
         (\<lambda>(e1, m2). Inr (finish_visit V e1, m2)))"

definition visitActual :: "visit_fun \<Rightarrow> visitor \<Rightarrow> visited \<Rightarrow> expr \<Rightarrow> (expr \<times> visited) result" where
  "visitActual visit V m e =
     (if is_Constant e then Inr (e, m)
      else bind_res (visitExpr V e) (\<lambda>act. case act of
          SkipChildren \<Rightarrow> Inr (e, m)
        | ChangeTo a \<Rightarrow> Inr (a, m)
        | DoChildren \<Rightarrow> bind_res (visitKind V visit m e) (\<lambda>(act', m'). case act' of
              SkipChildren \<Rightarrow> Inr (e, m')
            | ChangeTo a \<Rightarrow> Inr (a, m')
            | DoChildren \<Rightarrow> visitChildren visit V m' e)))"

definition insert_visited :: "expr \<Rightarrow> expr \<Rightarrow> visited \<Rightarrow> visited" where
  "insert_visited e r m = (if map_of m e = None then (e, r) # m else m)"

primrec visit :: "nat \<Rightarrow> visitor \<Rightarrow> visit_fun" where
  "visit 0 V m e = Inl OutOfFuel"
| "visit (Suc n) V m e =
     (if is_Constant e then visitActual (visit n V) V m e
      else case map_of m e of
          Some r \<Rightarrow> Inr (r, m)
        | None \<Rightarrow> bind_res (visitActual (visit n V) V m e)
            (\<lambda>(r, m'). Inr (r, insert_visited e r m')))"

section \<open>Soundness of the traversal\<close>

definition visited_ok :: "(env \<Rightarrow> bool) \<Rightarrow> visited \<Rightarrow> bool" where
  "visited_ok P m \<longleftrightarrow> (\<forall>(e, r) \<in> set m. sem_eq_on P r e)"

definition visit_fun_ok :: "(env \<Rightarrow> bool) \<Rightarrow> visit_fun \<Rightarrow> bool" where
  "visit_fun_ok P f \<longleftrightarrow> (\<forall>m e r m'. visited_ok P m \<longrightarrow> f m e = Inr (r, m')
     \<longrightarrow> sem_eq_on P r e \<and> visited_ok P m')"

text \<open>The contract of a visitor's methods.\<close>

definition visitor_ok :: "(env \<Rightarrow> bool) \<Rightarrow> visitor \<Rightarrow> bool" where
  "visitor_ok P V \<longleftrightarrow>
     (\<forall>e a. visitExpr V e = Inr (ChangeTo a) \<longrightarrow> sem_eq_on P a e)
   \<and> (\<forall>e a. visitExprPost V e = ChangeTo a \<longrightarrow> sem_eq_on P a e)
   \<and> (\<forall>f m e act m'. visit_fun_ok P f \<longrightarrow> visited_ok P m \<longrightarrow> visitKind V f m e = Inr (act, m')
        \<longrightarrow> visited_ok P m' \<and> (\<forall>a. act = ChangeTo a \<longrightarrow> sem_eq_on P a e))"

lemma visited_ok_Nil [simp]: "visited_ok P []"
  by (simp add: visited_ok_def)

lemma visited_ok_lookup: "visited_ok P m \<Longrightarrow> map_of m e = Some r \<Longrightarrow> sem_eq_on P r e"
  by (auto simp: visited_ok_def dest!: map_of_SomeD)

lemma visited_ok_insert: "visited_ok P m \<Longrightarrow> sem_eq_on P r e \<Longrightarrow> visited_ok P (insert_visited e r m)"
  by (auto simp: visited_ok_def insert_visited_def)

lemma visit_fun_okD:
  "visit_fun_ok P f \<Longrightarrow> visited_ok P m \<Longrightarrow> f m e = Inr (r, m') \<Longrightarrow> sem_eq_on P r e \<and> visited_ok P m'"
  unfolding visit_fun_ok_def by blast

lemma visitor_okD:
  assumes "visitor_ok P V"
  shows "visitExpr V e = Inr (ChangeTo a) \<Longrightarrow> sem_eq_on P a e"
    and "visitExprPost V e = ChangeTo a \<Longrightarrow> sem_eq_on P a e"
    and "visit_fun_ok P f \<Longrightarrow> visited_ok P m \<Longrightarrow> visitKind V f m e = Inr (act, m')
      \<Longrightarrow> visited_ok P m' \<and> (act = ChangeTo a \<longrightarrow> sem_eq_on P a e)"
  using assms unfolding visitor_ok_def by blast+

lemma visitKids_ok:
  assumes "visit_fun_ok P f" "visited_ok P m" "visitKids f m ks = Inr (ks', m')"
  shows "list_all2 (sem_eq_on P) ks' ks \<and> visited_ok P m'"
  using assms(2,3)
proof (induction ks arbitrary: m ks')
  case (Cons k ks)
  then obtain k' m1 ks1 where k: "f m k = Inr (k', m1)" "visitKids f m1 ks = Inr (ks1, m')"
    "ks' = k' # ks1" by auto
  from visit_fun_okD[OF assms(1) Cons.prems(1) k(1)]
  have "sem_eq_on P k' k" "visited_ok P m1" by auto
  with Cons.IH[OF _ k(2)] k(3) show ?case by simp
qed simp

lemma finish_visit_ok: "visitor_ok P V \<Longrightarrow> sem_eq_on P (finish_visit V e) e"
  by (auto simp: finish_visit_def split: action.split dest: visitor_okD(2))

lemma visitChildren_ok:
  assumes V: "visitor_ok P V" and f: "visit_fun_ok P f" and m: "visited_ok P m"
    and r: "visitChildren f V m e = Inr (r, m')"
  shows "sem_eq_on P r e \<and> visited_ok P m'"
proof -
  obtain ks m1 e1 where ks: "visitKids f m (getKids e) = Inr (ks, m1)"
    and e1: "(if ks = getKids e then Inr (e, m1)
          else bind_res (rebuild e ks) (\<lambda>e1. if recursive V then f m1 e1 else Inr (e1, m1)))
          = Inr (e1, m')"
    and r': "r = finish_visit V e1"
    using r by (auto simp: visitChildren_def simp del: bind_res.simps)
  note kids = visitKids_ok[OF f m ks]
  have "sem_eq_on P e1 e \<and> visited_ok P m'"
  proof (cases "ks = getKids e")
    case True
    with e1 kids show ?thesis by auto
  next
    case False
    with e1 obtain e2 where e2: "rebuild e ks = Inr e2"
      and e1': "(if recursive V then f m1 e2 else Inr (e2, m1)) = Inr (e1, m')" by auto
    have "sem_eq_on P e2 e" using rebuild_sem_eq_on[OF _ e2] kids by blast
    moreover have "sem_eq_on P e1 e2 \<and> visited_ok P m'"
      using e1' kids visit_fun_okD[OF f, of m1 e2] by (auto split: if_splits)
    ultimately show ?thesis using sem_eq_on_trans by blast
  qed
  with r' finish_visit_ok[OF V] sem_eq_on_trans show ?thesis by blast
qed

lemma visitActual_ok:
  assumes V: "visitor_ok P V" and f: "visit_fun_ok P f" and m: "visited_ok P m"
    and r: "visitActual f V m e = Inr (r, m')"
  shows "sem_eq_on P r e \<and> visited_ok P m'"
proof (cases "is_Constant e")
  case True
  with r m show ?thesis by (simp add: visitActual_def)
next
  case False
  with r obtain act where act: "visitExpr V e = Inr act" by (auto simp: visitActual_def)
  show ?thesis
  proof (cases act)
    case DoChildren
    with r act False obtain act' m1 where kind: "visitKind V f m e = Inr (act', m1)"
      by (auto simp: visitActual_def)
    have ok: "visited_ok P m1" "act' = ChangeTo a \<Longrightarrow> sem_eq_on P a e" for a
      using visitor_okD(3)[OF V f m kind] by blast+
    show ?thesis
      using r act False DoChildren kind ok visitChildren_ok[OF V f ok(1)]
      by (cases act') (auto simp: visitActual_def)
  qed (use r act False m visitor_okD(1)[OF V, of e] in \<open>auto simp: visitActual_def\<close>)
qed

lemma visit_ok: "visitor_ok P V \<Longrightarrow> visit_fun_ok P (visit n V)"
proof (induction n)
  case (Suc n)
  note sound = visitActual_ok[OF Suc.prems Suc.IH[OF Suc.prems]]
  show ?case
    unfolding visit_fun_ok_def
  proof (intro allI impI)
    fix m e r m'
    assume m: "visited_ok P m" and r: "visit (Suc n) V m e = Inr (r, m')"
    show "sem_eq_on P r e \<and> visited_ok P m'"
      using r sound[OF m, of e] visited_ok_lookup[OF m, of e] m visited_ok_insert
      by (auto split: if_splits option.splits)
  qed
qed (simp add: visit_fun_ok_def)

section \<open>Fuel\<close>

text \<open>
  A visitor that neither revisits rebuilt nodes nor visits from a method of its own only
  descends into kids, so the size of the expression bounds the depth.
\<close>

definition descends :: "visitor \<Rightarrow> bool" where
  "descends V \<longleftrightarrow> \<not> recursive V \<and> visitKind V = visit_default
     \<and> (\<forall>e. visitExpr V e \<noteq> Inl OutOfFuel)"

lemma getKids_size: "k \<in> set (getKids e) \<Longrightarrow> size k < size e"
  by (cases e) auto

lemma rebuild_fuel: "rebuild e ks \<noteq> Inl OutOfFuel"
  by (cases "(e, ks)" rule: rebuild.cases) auto

lemma visitKids_fuel:
  "(\<And>m k. k \<in> set ks \<Longrightarrow> f m k \<noteq> Inl OutOfFuel) \<Longrightarrow> visitKids f m ks \<noteq> Inl OutOfFuel"
  by (induction ks arbitrary: m) (fastforce simp: bind_res_Inl)+

lemma visitActual_fuel:
  assumes V: "descends V" and f: "\<And>m k. k \<in> set (getKids e) \<Longrightarrow> f m k \<noteq> Inl OutOfFuel"
  shows "visitActual f V m e \<noteq> Inl OutOfFuel"
  using V visitKids_fuel[of "getKids e" f, OF f] rebuild_fuel[of e]
  by (auto simp: visitActual_def descends_def visit_default_def visitChildren_def bind_res_Inl
      split: action.splits if_splits)

lemma visit_fuel: "descends V \<Longrightarrow> size e < n \<Longrightarrow> visit n V m e \<noteq> Inl OutOfFuel"
proof (induction n arbitrary: m e)
  case (Suc n)
  have "visitActual (visit n V) V m e \<noteq> Inl OutOfFuel" for m
    by (rule visitActual_fuel[OF Suc.prems(1)])
      (use Suc.IH Suc.prems getKids_size[of _ e] in force)
  then show ?case by (auto simp: bind_res_Inl split: option.split)
qed simp

text \<open>Which errors a traversal with total methods can end with.\<close>

definition plain_visitor :: "visitor \<Rightarrow> bool" where
  "plain_visitor V \<longleftrightarrow> visitKind V = visit_default \<and> (\<forall>e. \<exists>a. visitExpr V e = Inr a)"

abbreviation visit_errors :: "error set" where
  "visit_errors \<equiv> {AssertionFailed, DivisionByZero, OutOfFuel}"

lemma rebuild_errors: "rebuild e ks = Inl err \<Longrightarrow> err \<in> visit_errors"
  by (cases "(e, ks)" rule: rebuild.cases) auto

lemma visitKids_errors:
  "(\<And>m k err. f m k = Inl err \<Longrightarrow> err \<in> visit_errors) \<Longrightarrow> visitKids f m ks = Inl err
    \<Longrightarrow> err \<in> visit_errors"
  by (induction ks arbitrary: m) (fastforce simp: bind_res_Inl)+

lemma visitActual_errors:
  assumes V: "plain_visitor V" and f: "\<And>m k err. f m k = Inl err \<Longrightarrow> err \<in> visit_errors"
    and r: "visitActual f V m e = Inl err"
  shows "err \<in> visit_errors"
proof -
  from V obtain a where a: "visitExpr V e = Inr a" "visitKind V = visit_default"
    unfolding plain_visitor_def by blast
  from r a have "visitChildren f V m e = Inl err"
    by (auto simp: visitActual_def visit_default_def split: action.splits if_splits)
  then consider "visitKids f m (getKids e) = Inl err" | ks where "rebuild e ks = Inl err"
    | m' e' where "f m' e' = Inl err"
    by (auto simp: visitChildren_def bind_res_Inl split: if_splits)
  then show ?thesis
    by cases (rule visitKids_errors[of f, OF f], assumption, assumption, rule rebuild_errors, assumption,
      rule f, assumption)
qed

lemma visit_errors: "plain_visitor V \<Longrightarrow> visit n V m e = Inl err \<Longrightarrow> err \<in> visit_errors"
proof (induction n arbitrary: m e err)
  case (Suc n)
  from Suc.prems(2) have act: "visitActual (visit n V) V m e = Inl err"
    by (auto simp: bind_res_Inl split: if_splits option.splits)
  show ?case
    by (rule visitActual_errors[OF Suc.prems(1) _ act]) (rule Suc.IH[OF Suc.prems(1)])
qed simp

end
