(* ===== verification/Constraints.thy ===== *)
theory Constraints
  imports ExprVisitor
begin

text \<open>
  \<open>ConstraintManager\<close> (\<open>klee/lib/Expr/Constraints.cpp\<close>,
  \<open>klee/include/klee/Expr/Constraints.h\<close>): the path condition of a state, kept
  simplified. Adding a constraint rewrites it under the equalities already known, splits its
  conjunctions and rewrites the older constraints under a new equality. The list denotes a
  conjunction, and every operation is correct when it denotes the right one.
\<close>

section \<open>Path conditions\<close>

type_synonym constraints = "expr list"

definition sat :: "env \<Rightarrow> constraints \<Rightarrow> bool" where
  "sat \<rho> cs \<longleftrightarrow> (\<forall>c \<in> set cs. eval \<rho> c = 1)"

definition wf_constraints :: "constraints \<Rightarrow> bool" where
  "wf_constraints cs \<longleftrightarrow> (\<forall>c \<in> set cs. wf_expr c \<and> getWidth c = 1)"

lemma sat_simps [simp]:
  "sat \<rho> []"
  "sat \<rho> (c # cs) \<longleftrightarrow> eval \<rho> c = 1 \<and> sat \<rho> cs"
  "sat \<rho> (cs @ ds) \<longleftrightarrow> sat \<rho> cs \<and> sat \<rho> ds"
  by (auto simp: sat_def)

lemma wf_constraints_simps [simp]:
  "wf_constraints []"
  "wf_constraints (c # cs) \<longleftrightarrow> wf_expr c \<and> getWidth c = 1 \<and> wf_constraints cs"
  "wf_constraints (cs @ ds) \<longleftrightarrow> wf_constraints cs \<and> wf_constraints ds"
  by (auto simp: wf_constraints_def)

section \<open>Replacement\<close>

definition ExprReplaceVisitor :: "expr \<Rightarrow> expr \<Rightarrow> visitor" where
  "ExprReplaceVisitor src dst =
     \<lparr>visitExpr = (\<lambda>e. Inr (if e = src then ChangeTo dst else DoChildren)),
      visitKind = visit_default,
      visitExprPost = (\<lambda>e. if e = src then ChangeTo dst else DoChildren),
      recursive = False\<rparr>"

definition ExprReplaceVisitor2 :: "(expr \<times> expr) list \<Rightarrow> visitor" where
  "ExprReplaceVisitor2 replacements =
     \<lparr>visitExpr = (\<lambda>e. Inr DoChildren),
      visitKind = visit_default,
      visitExprPost = (\<lambda>e. case map_of replacements e of
          Some r \<Rightarrow> ChangeTo r | None \<Rightarrow> DoChildren),
      recursive = True\<rparr>"

section \<open>Simplification under the constraints\<close>

text \<open>
  The \<open>std::map\<close> \<open>equalities\<close> as an association list in the order of insertion:
  an \<open>insert\<close> never overwrites, and \<open>map_of\<close> finds the first entry.
\<close>

definition equality_of :: "expr \<Rightarrow> expr \<times> expr" where
  "equality_of c =
     (case dyn_cast_Binary Eq c of
        Some (l, r) \<Rightarrow> (if is_Constant l then (r, l) else (c, Constant 1 1))
      | None \<Rightarrow> (c, Constant 1 1))"

definition simplifyExpr :: "nat \<Rightarrow> constraints \<Rightarrow> expr \<Rightarrow> expr result" where
  "simplifyExpr n cs e =
     (if is_Constant e then Inr e
      else map_res fst (visit n (ExprReplaceVisitor2 (map equality_of cs)) [] e))"

section \<open>Adding a constraint\<close>

text \<open>
  \<open>rewriteConstraints\<close> takes the internal adder as an argument: each constraint the
  visitor changes is added again, the others are kept, in order. The visitor's memo table
  lives through the loop.
\<close>

type_synonym adder = "constraints \<Rightarrow> expr \<Rightarrow> constraints result"

fun rewriteConstraints ::
    "adder \<Rightarrow> visit_fun \<Rightarrow> visited \<Rightarrow> constraints \<Rightarrow> constraints \<Rightarrow> constraints result" where
  "rewriteConstraints add visitor m cs [] = Inr cs"
| "rewriteConstraints add visitor m cs (ce # old) =
     bind_res (visitor m ce) (\<lambda>(e, m').
       bind_res (if e \<noteq> ce then add cs e else Inr (cs @ [ce])) (\<lambda>cs'.
         rewriteConstraints add visitor m' cs' old))"

primrec addConstraintInternal :: "nat \<Rightarrow> adder" where
  "addConstraintInternal 0 cs e = Inl OutOfFuel"
| "addConstraintInternal (Suc n) cs e =
     (case e of
        Constant w v \<Rightarrow> if isTrue e then Inr cs else Inl InvalidConstraint
      | Binary And l r \<Rightarrow>
          bind_res (addConstraintInternal n cs l) (\<lambda>cs'. addConstraintInternal n cs' r)
      | Binary Eq l r \<Rightarrow>
          bind_res
            (if is_Constant l
             then rewriteConstraints (addConstraintInternal n)
               (visit (Suc n) (ExprReplaceVisitor r l)) [] [] cs
             else Inr cs)
            (\<lambda>cs'. Inr (cs' @ [e]))
      | _ \<Rightarrow> Inr (cs @ [e]))"

definition addConstraint :: "nat \<Rightarrow> constraints \<Rightarrow> expr \<Rightarrow> constraints result" where
  "addConstraint n cs e =
     bind_res (simplifyExpr n cs e) (\<lambda>e'. addConstraintInternal n cs e')"

section \<open>Soundness\<close>

lemma ExprReplaceVisitor_ok:
  assumes "wf_expr dst" "getWidth dst = getWidth src"
  shows "visitor_ok (\<lambda>\<rho>. eval \<rho> src = eval \<rho> dst) (ExprReplaceVisitor src dst)"
  using assms
  by (auto simp: visitor_ok_def ExprReplaceVisitor_def visit_default_def sem_eq_on_def
      split: if_splits)

lemma equality_of_ok:
  assumes "wf_expr c" "getWidth c = 1" "equality_of c = (e, r)"
  shows "sem_eq_on (\<lambda>\<rho>. eval \<rho> c = 1) r e"
  using assms
  by (auto simp: equality_of_def dyn_casts sem_eq_on_def in_width_bool split: option.splits if_splits)

lemma equalities_ok:
  assumes "wf_constraints cs" "map_of (map equality_of cs) e = Some r"
  shows "sem_eq_on (\<lambda>\<rho>. sat \<rho> cs) r e"
proof -
  from assms(2) obtain c where c: "c \<in> set cs" "equality_of c = (e, r)"
    by (auto dest!: map_of_SomeD)
  with assms(1) have "sem_eq_on (\<lambda>\<rho>. eval \<rho> c = 1) r e"
    by (auto simp: wf_constraints_def intro: equality_of_ok)
  with c(1) show ?thesis by (auto simp: sem_eq_on_def sat_def)
qed

lemma ExprReplaceVisitor2_ok:
  "wf_constraints cs \<Longrightarrow> visitor_ok (\<lambda>\<rho>. sat \<rho> cs) (ExprReplaceVisitor2 (map equality_of cs))"
  by (auto simp: visitor_ok_def ExprReplaceVisitor2_def visit_default_def
      split: option.splits intro: equalities_ok)

lemma simplifyExpr_ok:
  assumes "wf_constraints cs" "simplifyExpr n cs e = Inr e'"
  shows "sem_eq_on (\<lambda>\<rho>. sat \<rho> cs) e' e"
proof (cases "is_Constant e")
  case False
  with assms(2) obtain m where "visit n (ExprReplaceVisitor2 (map equality_of cs)) [] e = Inr (e', m)"
    by (auto simp: simplifyExpr_def)
  from visit_fun_okD[OF visit_ok[OF ExprReplaceVisitor2_ok[OF assms(1)]] _ this] show ?thesis
    by simp
qed (use assms in \<open>simp add: simplifyExpr_def\<close>)

text \<open>
  The contract of the adder: the new list denotes the conjunction of the old one and the
  expression, and it fails on an invalid constraint only when that conjunction is
  unsatisfiable.
\<close>

definition adder_ok :: "adder \<Rightarrow> bool" where
  "adder_ok add \<longleftrightarrow> (\<forall>cs e. wf_constraints cs \<longrightarrow> wf_expr e \<longrightarrow> getWidth e = 1 \<longrightarrow>
     (\<forall>cs'. add cs e = Inr cs' \<longrightarrow> wf_constraints cs'
        \<and> (\<forall>\<rho>. wf_env \<rho> \<longrightarrow> (sat \<rho> cs' \<longleftrightarrow> sat \<rho> cs \<and> eval \<rho> e = 1)))
   \<and> (add cs e = Inl InvalidConstraint \<longrightarrow> (\<forall>\<rho>. wf_env \<rho> \<longrightarrow> \<not> (sat \<rho> cs \<and> eval \<rho> e = 1))))"

lemma adder_okD:
  assumes "adder_ok add" "wf_constraints cs" "wf_expr e" "getWidth e = 1"
  shows "add cs e = Inr cs' \<Longrightarrow> wf_constraints cs'"
    and "add cs e = Inr cs' \<Longrightarrow> wf_env \<rho> \<Longrightarrow> sat \<rho> cs' \<longleftrightarrow> sat \<rho> cs \<and> eval \<rho> e = 1"
    and "add cs e = Inl InvalidConstraint \<Longrightarrow> wf_env \<rho> \<Longrightarrow> \<not> (sat \<rho> cs \<and> eval \<rho> e = 1)"
  using assms unfolding adder_ok_def by blast+

lemma rewriteConstraints_ok:
  assumes add: "adder_ok add" and vis: "visit_fun_ok P f"
    and noinv: "\<And>m e. f m e \<noteq> Inl InvalidConstraint"
  shows "wf_constraints cs \<Longrightarrow> wf_constraints old \<Longrightarrow> visited_ok P m \<Longrightarrow>
    (\<forall>cs'. rewriteConstraints add f m cs old = Inr cs' \<longrightarrow> wf_constraints cs'
       \<and> (\<forall>\<rho>. wf_env \<rho> \<longrightarrow> P \<rho> \<longrightarrow> (sat \<rho> cs' \<longleftrightarrow> sat \<rho> cs \<and> sat \<rho> old)))
    \<and> (rewriteConstraints add f m cs old = Inl InvalidConstraint \<longrightarrow>
       (\<forall>\<rho>. wf_env \<rho> \<longrightarrow> P \<rho> \<longrightarrow> \<not> (sat \<rho> cs \<and> sat \<rho> old)))"
proof (induction old arbitrary: m cs)
  case (Cons ce old)
  show ?case
  proof (cases "f m ce")
    case (Inl err)
    with noinv[of m ce] show ?thesis by auto
  next
    case (Inr em)
    then obtain e m' where e: "f m ce = Inr (e, m')" by (cases em) auto
    note vm = visit_fun_okD[OF vis Cons.prems(3) e]
    have ce: "wf_expr e" "getWidth e = 1" "wf_env \<rho> \<Longrightarrow> P \<rho> \<Longrightarrow> eval \<rho> e = eval \<rho> ce" for \<rho>
      using sem_eq_onD[OF conjunct1[OF vm]] Cons.prems(2) by auto
    define step where "step = (if e \<noteq> ce then add cs e else Inr (cs @ [ce]))"
    have step_ok: "wf_constraints cs'" "wf_env \<rho> \<Longrightarrow> sat \<rho> cs' \<longleftrightarrow> sat \<rho> cs \<and> eval \<rho> e = 1"
      if "step = Inr cs'" for cs' \<rho>
      using that adder_okD[OF add Cons.prems(1) ce(1,2)] Cons.prems(1,2)
      by (auto simp: step_def split: if_splits)
    have step_inv: "wf_env \<rho> \<Longrightarrow> \<not> (sat \<rho> cs \<and> eval \<rho> e = 1)"
      if "step = Inl InvalidConstraint" for \<rho>
      using that adder_okD(3)[OF add Cons.prems(1) ce(1,2)]
      by (auto simp: step_def split: if_splits)
    have eq: "rewriteConstraints add f m cs (ce # old)
        = bind_res step (\<lambda>cs'. rewriteConstraints add f m' cs' old)"
      by (simp add: e step_def)
    show ?thesis
    proof (cases step)
      case (Inl err)
      have "\<not> (sat \<rho> cs \<and> sat \<rho> (ce # old))"
        if "wf_env \<rho>" "P \<rho>" "err = InvalidConstraint" for \<rho>
        using step_inv[of \<rho>] ce(3)[OF that(1,2)] Inl that by auto
      with Inl show ?thesis unfolding eq by auto
    next
      case (Inr cs')
      note IH = Cons.IH[OF step_ok(1)[OF Inr] _ conjunct2[OF vm]]
      with Inr step_ok(2)[OF Inr] ce(3) Cons.prems(2) show ?thesis unfolding eq by simp
    qed
  qed
qed simp

lemma ExprReplaceVisitor_plain: "plain_visitor (ExprReplaceVisitor src dst)"
  by (simp add: plain_visitor_def ExprReplaceVisitor_def)

lemma ExprReplaceVisitor_descends: "descends (ExprReplaceVisitor src dst)"
  by (simp add: descends_def ExprReplaceVisitor_def)

lemma addConstraintInternal_ok: "adder_ok (addConstraintInternal n)"
proof (induction n)
  case (Suc n)
  have "(\<forall>cs'. addConstraintInternal (Suc n) cs e = Inr cs' \<longrightarrow> wf_constraints cs'
        \<and> (\<forall>\<rho>. wf_env \<rho> \<longrightarrow> (sat \<rho> cs' \<longleftrightarrow> sat \<rho> cs \<and> eval \<rho> e = 1)))
      \<and> (addConstraintInternal (Suc n) cs e = Inl InvalidConstraint
          \<longrightarrow> (\<forall>\<rho>. wf_env \<rho> \<longrightarrow> \<not> (sat \<rho> cs \<and> eval \<rho> e = 1)))"
    if cs: "wf_constraints cs" and e: "wf_expr e" "getWidth e = 1" for cs e
  proof -
    have plain: ?thesis
      if "addConstraintInternal (Suc n) cs e = Inr (cs @ [e])"
      using that cs e by auto
    show ?thesis
    proof (cases e)
      case (Constant w v)
      with cs e show ?thesis by (auto simp: in_width_bool)
    next
      case (Binary k l r)
      consider "k = And" | "k = Eq" "is_Constant l" | "k \<noteq> And" "k = Eq \<longrightarrow> \<not> is_Constant l" by blast
      then show ?thesis
      proof cases
        case 1
        with Binary e have lr: "wf_expr l" "getWidth l = 1" "wf_expr r" "getWidth r = 1" by auto
        have and1: "eval \<rho> e = 1 \<longleftrightarrow> eval \<rho> l = 1 \<and> eval \<rho> r = 1" if "wf_env \<rho>" for \<rho>
          using eval_bool[OF that lr(1,2)] eval_bool[OF that lr(3,4)] Binary 1 by auto
        note L = adder_okD[OF Suc.IH cs lr(1,2)]
        note R = adder_okD[OF Suc.IH _ lr(3,4)]
        show ?thesis
        proof (cases "addConstraintInternal n cs l")
          case (Inl err)
          with Binary 1 and1 L(3) show ?thesis by auto
        next
          case (Inr cs1)
          note wf1 = L(1)[OF Inr] and sat1 = L(2)[OF Inr]
          from Inr Binary 1 R[OF wf1] sat1 and1 show ?thesis by simp
        qed
      next
        case 2
        let ?V = "visit (Suc n) (ExprReplaceVisitor r l)"
        from 2 Binary e have lr: "wf_expr l" "getWidth l = getWidth r" by auto
        note vis = visit_ok[OF ExprReplaceVisitor_ok[OF lr], of "Suc n"]
        have noinv: "?V m x \<noteq> Inl InvalidConstraint" for m x
          using visit_errors[OF ExprReplaceVisitor_plain, of "Suc n" r l m x InvalidConstraint]
          by blast
        have eq1: "eval \<rho> e = 1 \<longleftrightarrow> eval \<rho> r = eval \<rho> l" for \<rho>
          using Binary 2 by auto
        note rw = rewriteConstraints_ok[OF Suc.IH vis noinv wf_constraints_simps(1) cs visited_ok_Nil]
        from rw 2 Binary cs e show ?thesis
          by (cases "rewriteConstraints (addConstraintInternal n) ?V [] [] cs")
            (auto simp: eq1 simp del: visit.simps)
      next
        case 3
        with Binary have "addConstraintInternal (Suc n) cs e = Inr (cs @ [e])" by (cases k) auto
        then show ?thesis by (rule plain)
      qed
    qed (use plain in auto)
  qed
  then show ?case unfolding adder_ok_def by blast
qed (simp add: adder_ok_def)

lemma simplifyExpr_no_InvalidConstraint: "simplifyExpr n cs e \<noteq> Inl InvalidConstraint"
proof -
  have "plain_visitor (ExprReplaceVisitor2 (map equality_of cs))"
    by (simp add: plain_visitor_def ExprReplaceVisitor2_def)
  from visit_errors[OF this, of n "[]" e InvalidConstraint] show ?thesis
    by (auto simp: simplifyExpr_def)
qed

lemma addConstraint_ok: "adder_ok (addConstraint n)"
  unfolding adder_ok_def
proof (intro allI impI)
  fix cs e
  assume cs: "wf_constraints cs" and e: "wf_expr e" "getWidth e = 1"
  show "(\<forall>cs'. addConstraint n cs e = Inr cs' \<longrightarrow> wf_constraints cs'
        \<and> (\<forall>\<rho>. wf_env \<rho> \<longrightarrow> (sat \<rho> cs' \<longleftrightarrow> sat \<rho> cs \<and> eval \<rho> e = 1)))
      \<and> (addConstraint n cs e = Inl InvalidConstraint
          \<longrightarrow> (\<forall>\<rho>. wf_env \<rho> \<longrightarrow> \<not> (sat \<rho> cs \<and> eval \<rho> e = 1)))"
  proof (cases "simplifyExpr n cs e")
    case (Inl err)
    with simplifyExpr_no_InvalidConstraint[of n cs e] show ?thesis by (auto simp: addConstraint_def)
  next
    case (Inr e')
    note ok = sem_eq_onD[OF simplifyExpr_ok[OF cs Inr] e(1)]
    then have e': "wf_expr e'" "getWidth e' = 1" using e by auto
    have same: "sat \<rho> cs \<and> eval \<rho> e' = 1 \<longleftrightarrow> sat \<rho> cs \<and> eval \<rho> e = 1" if "wf_env \<rho>" for \<rho>
      using ok(3)[OF that] by auto
    from adder_okD[OF addConstraintInternal_ok cs e', of n] same Inr show ?thesis
      by (auto simp: addConstraint_def)
  qed
qed

end
