(* ===== verification/Memory.thy ===== *)
theory Memory
  imports Constraints
begin

text \<open>
  \<open>ObjectState\<close> (\<open>klee/lib/Core/Memory.cpp\<close>, \<open>klee/lib/Core/Memory.h\<close>): the
  contents of a memory object, as a concrete byte store, a cache of symbolic bytes and an update
  list, with the two masks that say which of the three holds each byte. The contract is one
  function, \<open>obj_val\<close>, from offsets to byte values: reading evaluates it, writing updates
  it at one place, and flushing the caches into the update list leaves it alone.
\<close>

section \<open>State\<close>

record object_state =
  os_size :: nat
  concreteStore :: "int list"
  concreteMask :: "bool list option"
  flushMask :: "bool list option"
  knownSymbolics :: "expr option list option"
  upd_root :: "array option"
  upd_head :: updates
  copyOnWriteOwner :: nat
  readOnly :: bool

text \<open>The constructor with undefined contents, with \<open>use-constant-arrays\<close> at its default.\<close>

definition new_ObjectState :: "nat \<Rightarrow> object_state" where
  "new_ObjectState n =
     \<lparr>os_size = n, concreteStore = replicate n 0, concreteMask = None, flushMask = None,
      knownSymbolics = None, upd_root = None, upd_head = UNull, copyOnWriteOwner = 0,
      readOnly = False\<rparr>"

text \<open>\<open>isByteConcrete\<close>, \<open>isByteFlushed\<close>, \<open>isByteKnownSymbolic\<close>.\<close>

definition isByteConcrete :: "object_state \<Rightarrow> nat \<Rightarrow> bool" where
  "isByteConcrete os off = (case concreteMask os of None \<Rightarrow> True | Some m \<Rightarrow> m ! off)"

definition isByteFlushed :: "object_state \<Rightarrow> nat \<Rightarrow> bool" where
  "isByteFlushed os off = (case flushMask os of None \<Rightarrow> False | Some m \<Rightarrow> \<not> m ! off)"

definition knownSymbolic :: "object_state \<Rightarrow> nat \<Rightarrow> expr option" where
  "knownSymbolic os off = (case knownSymbolics os of None \<Rightarrow> None | Some ks \<Rightarrow> ks ! off)"

definition isByteKnownSymbolic :: "object_state \<Rightarrow> nat \<Rightarrow> bool" where
  "isByteKnownSymbolic os off \<longleftrightarrow> knownSymbolic os off \<noteq> None"

definition markByteConcrete :: "nat \<Rightarrow> object_state \<Rightarrow> object_state" where
  "markByteConcrete off os = os\<lparr>concreteMask := map_option (\<lambda>m. m[off := True]) (concreteMask os)\<rparr>"

definition markByteSymbolic :: "nat \<Rightarrow> object_state \<Rightarrow> object_state" where
  "markByteSymbolic off os =
     os\<lparr>concreteMask := Some ((case concreteMask os of
         None \<Rightarrow> replicate (os_size os) True | Some m \<Rightarrow> m)[off := False])\<rparr>"

definition markByteUnflushed :: "nat \<Rightarrow> object_state \<Rightarrow> object_state" where
  "markByteUnflushed off os = os\<lparr>flushMask := map_option (\<lambda>m. m[off := True]) (flushMask os)\<rparr>"

definition markByteFlushed :: "nat \<Rightarrow> object_state \<Rightarrow> object_state" where
  "markByteFlushed off os =
     os\<lparr>flushMask := Some (case flushMask os of
         None \<Rightarrow> replicate (os_size os) False | Some m \<Rightarrow> m[off := False])\<rparr>"

definition setKnownSymbolic :: "nat \<Rightarrow> expr option \<Rightarrow> object_state \<Rightarrow> object_state" where
  "setKnownSymbolic off ve os =
     (case knownSymbolics os of
        Some ks \<Rightarrow> os\<lparr>knownSymbolics := Some (ks[off := ve])\<rparr>
      | None \<Rightarrow>
          (if ve = None then os
           else os\<lparr>knownSymbolics := Some ((replicate (os_size os) None)[off := ve])\<rparr>))"

definition makeConcrete :: "object_state \<Rightarrow> object_state" where
  "makeConcrete os = os\<lparr>concreteMask := None, flushMask := None, knownSymbolics := None\<rparr>"

definition makeSymbolic :: "object_state \<Rightarrow> object_state result" where
  "makeSymbolic os =
     (if upd_head os \<noteq> UNull then Inl AssertionFailed
      else Inr (fold (\<lambda>i s. markByteFlushed i (setKnownSymbolic i None (markByteSymbolic i s)))
        [0..<os_size os] os))"

text \<open>The constructor with symbolic contents.\<close>

definition new_symbolic_ObjectState :: "nat \<Rightarrow> array \<Rightarrow> object_state result" where
  "new_symbolic_ObjectState n a = makeSymbolic ((new_ObjectState n)\<lparr>upd_root := Some a\<rparr>)"

text \<open>The copy constructor.\<close>

definition copy_ObjectState :: "object_state \<Rightarrow> object_state result" where
  "copy_ObjectState os =
     (if readOnly os then Inl AssertionFailed
      else Inr (os\<lparr>copyOnWriteOwner := 0, readOnly := False\<rparr>))"

definition initializeToZero :: "object_state \<Rightarrow> object_state" where
  "initializeToZero os = (makeConcrete os)\<lparr>concreteStore := replicate (os_size os) 0\<rparr>"

definition initializeToRandom :: "object_state \<Rightarrow> object_state" where
  "initializeToRandom os = (makeConcrete os)\<lparr>concreteStore := replicate (os_size os) 171\<rparr>"

section \<open>The update list\<close>

definition UpdateList_extend :: "expr \<Rightarrow> expr \<Rightarrow> object_state \<Rightarrow> object_state result" where
  "UpdateList_extend index ve os =
     (case upd_root os of
        Some a \<Rightarrow>
          (if arr_domain a = getWidth index \<and> arr_range a = getWidth ve
           then Inr (os\<lparr>upd_head := UNode index ve (upd_head os)\<rparr>)
           else Inl AssertionFailed)
      | None \<Rightarrow> Inr (os\<lparr>upd_head := UNode index ve (upd_head os)\<rparr>))"

text \<open>
  \<open>getUpdates\<close> gives an object without a root array one: a constant array that holds
  the concrete writes at the old end of the list, under the name that the static counter
  yields (\<open>const_arr<id>\<close>, the argument). The other writes are applied to it in order.
\<close>

fun writes_of :: "updates \<Rightarrow> (expr \<times> expr) list" where
  "writes_of UNull = []"
| "writes_of (UNode i v un) = writes_of un @ [(i, v)]"

fun absorb_writes :: "int list \<Rightarrow> (expr \<times> expr) list \<Rightarrow> (int list \<times> (expr \<times> expr) list) result" where
  "absorb_writes contents [] = Inr (contents, [])"
| "absorb_writes contents ((i, v) # ws) =
     (case dyn_cast_Constant i of
        None \<Rightarrow> Inr (contents, (i, v) # ws)
      | Some (wi, ci) \<Rightarrow>
          (case dyn_cast_Constant v of
             None \<Rightarrow> Inr (contents, (i, v) # ws)
           | Some (wv, cv) \<Rightarrow>
               (if nat ci < length contents then absorb_writes (contents[nat ci := cv]) ws
                else Inl OutOfBounds)))"

definition const_arr :: "string \<Rightarrow> nat \<Rightarrow> int list \<Rightarrow> array" where
  "const_arr name n contents =
     \<lparr>arr_name = name, arr_size = n, arr_domain = 32, arr_range = 8, constantValues = contents\<rparr>"

fun extend_all :: "(expr \<times> expr) list \<Rightarrow> object_state \<Rightarrow> object_state result" where
  "extend_all [] os = Inr os"
| "extend_all ((i, v) # ws) os = bind_res (UpdateList_extend i v os) (extend_all ws)"

definition getUpdates :: "string \<Rightarrow> object_state \<Rightarrow> (array \<times> object_state) result" where
  "getUpdates name os =
     (case upd_root os of
        Some a \<Rightarrow> Inr (a, os)
      | None \<Rightarrow>
          bind_res (absorb_writes (replicate (os_size os) 0) (writes_of (upd_head os)))
            (\<lambda>(contents, ws).
               let a = const_arr name (os_size os) contents in
               map_res (\<lambda>os'. (a, os')) (extend_all ws (os\<lparr>upd_root := Some a, upd_head := UNull\<rparr>))))"

section \<open>Flushing\<close>

definition init_flushMask :: "object_state \<Rightarrow> object_state" where
  "init_flushMask os =
     (case flushMask os of None \<Rightarrow> os\<lparr>flushMask := Some (replicate (os_size os) True)\<rparr> | Some m \<Rightarrow> os)"

definition unset_flushMask :: "nat \<Rightarrow> object_state \<Rightarrow> object_state" where
  "unset_flushMask off os = os\<lparr>flushMask := map_option (\<lambda>m. m[off := False]) (flushMask os)\<rparr>"

definition flush_byte_for_read :: "nat \<Rightarrow> object_state \<Rightarrow> object_state result" where
  "flush_byte_for_read off os =
     (if isByteFlushed os off then Inr os
      else map_res (unset_flushMask off)
        (if isByteConcrete os off
         then UpdateList_extend (Constant 32 (int off)) (Constant 8 (concreteStore os ! off)) os
         else (case knownSymbolic os off of
             None \<Rightarrow> Inl AssertionFailed
           | Some e \<Rightarrow> UpdateList_extend (Constant 32 (int off)) e os)))"

fun flush_bytes_for_read :: "nat list \<Rightarrow> object_state \<Rightarrow> object_state result" where
  "flush_bytes_for_read [] os = Inr os"
| "flush_bytes_for_read (off # offs) os =
     bind_res (flush_byte_for_read off os) (flush_bytes_for_read offs)"

definition flushRangeForRead :: "nat \<Rightarrow> nat \<Rightarrow> object_state \<Rightarrow> object_state result" where
  "flushRangeForRead base n os = flush_bytes_for_read [base..<base + n] (init_flushMask os)"

definition flush_byte_for_write :: "nat \<Rightarrow> object_state \<Rightarrow> object_state result" where
  "flush_byte_for_write off os =
     (if isByteFlushed os off
      then Inr (if isByteConcrete os off then markByteSymbolic off os
                else if isByteKnownSymbolic os off then setKnownSymbolic off None os
                else os)
      else map_res (unset_flushMask off)
        (if isByteConcrete os off
         then map_res (markByteSymbolic off)
           (UpdateList_extend (Constant 32 (int off)) (Constant 8 (concreteStore os ! off)) os)
         else (case knownSymbolic os off of
             None \<Rightarrow> Inl AssertionFailed
           | Some e \<Rightarrow> map_res (setKnownSymbolic off None)
               (UpdateList_extend (Constant 32 (int off)) e os))))"

fun flush_bytes_for_write :: "nat list \<Rightarrow> object_state \<Rightarrow> object_state result" where
  "flush_bytes_for_write [] os = Inr os"
| "flush_bytes_for_write (off # offs) os =
     bind_res (flush_byte_for_write off os) (flush_bytes_for_write offs)"

definition flushRangeForWrite :: "nat \<Rightarrow> nat \<Rightarrow> object_state \<Rightarrow> object_state result" where
  "flushRangeForWrite base n os = flush_bytes_for_write [base..<base + n] (init_flushMask os)"

section \<open>Reading and writing a byte\<close>

text \<open>
  \<open>fastRangeCheckOffset\<close> always gives the whole object. An offset outside the object is
  undefined behaviour in the code, which checks bounds before; here it is an error.
\<close>

definition read8 :: "string \<Rightarrow> nat \<Rightarrow> object_state \<Rightarrow> (expr \<times> object_state) result" where
  "read8 name off os =
     (if os_size os \<le> off then Inl OutOfBounds
      else if isByteConcrete os off then Inr (Constant 8 (concreteStore os ! off), os)
      else (case knownSymbolic os off of
          Some e \<Rightarrow> Inr (e, os)
        | None \<Rightarrow>
            (if isByteFlushed os off
             then map_res (\<lambda>(a, os'). (create_Read a (upd_head os') (Constant 32 (int off)), os'))
               (getUpdates name os)
             else Inl AssertionFailed)))"

definition read8_sym :: "string \<Rightarrow> expr \<Rightarrow> object_state \<Rightarrow> (expr \<times> object_state) result" where
  "read8_sym name off os =
     (if is_Constant off then Inl AssertionFailed
      else bind_res (flushRangeForRead 0 (os_size os) os) (\<lambda>os1.
        map_res (\<lambda>(a, os'). (create_Read a (upd_head os') (create_ZExt off 32), os'))
          (getUpdates name os1)))"

definition write8_byte :: "nat \<Rightarrow> int \<Rightarrow> object_state \<Rightarrow> object_state result" where
  "write8_byte off v os =
     (if os_size os \<le> off then Inl OutOfBounds
      else Inr (markByteUnflushed off (markByteConcrete off (setKnownSymbolic off None
        (os\<lparr>concreteStore := (concreteStore os)[off := v]\<rparr>)))))"

definition write8 :: "nat \<Rightarrow> expr \<Rightarrow> object_state \<Rightarrow> object_state result" where
  "write8 off ve os =
     (case dyn_cast_Constant ve of
        Some (w, v) \<Rightarrow> assert_res (w \<le> 8) (write8_byte off v os)
      | None \<Rightarrow>
          (if os_size os \<le> off then Inl OutOfBounds
           else Inr (markByteUnflushed off (markByteSymbolic off (setKnownSymbolic off (Some ve) os)))))"

definition write8_sym :: "expr \<Rightarrow> expr \<Rightarrow> object_state \<Rightarrow> object_state result" where
  "write8_sym off ve os =
     (if is_Constant off then Inl AssertionFailed
      else bind_res (flushRangeForWrite 0 (os_size os) os)
        (UpdateList_extend (create_ZExt off 32) ve))"

section \<open>Reading and writing words\<close>

text \<open>
  \<open>byte_index\<close> is the byte of the object that the \<open>i\<close>-th byte of an \<open>n\<close>-byte ve
  lives in, by the endianness of \<open>Context\<close>. Offsets are 32-bit.
\<close>

definition byte_index :: "bool \<Rightarrow> nat \<Rightarrow> nat \<Rightarrow> nat" where
  "byte_index le n i = (if le then i else n - i - 1)"

definition add32 :: "nat \<Rightarrow> nat \<Rightarrow> nat" where
  "add32 off i = (off + i) mod 2 ^ 32"

text \<open>
  The read loop over the remaining byte positions, with the bytes read so far in \<open>res\<close>. A read
  of no byte would leave the null reference.
\<close>

fun read_bytes :: "(nat \<Rightarrow> object_state \<Rightarrow> (expr \<times> object_state) result) \<Rightarrow> nat list \<Rightarrow> expr option
    \<Rightarrow> object_state \<Rightarrow> (expr \<times> object_state) result" where
  "read_bytes rd [] res os = map_res (\<lambda>e. (e, os)) (of_option AssertionFailed res)"
| "read_bytes rd (j # js) res os =
     bind_res (rd j os) (\<lambda>(b, os').
       read_bytes rd js (Some (case res of None \<Rightarrow> b | Some r \<Rightarrow> create_Concat b r)) os')"

definition read_const :: "string \<Rightarrow> bool \<Rightarrow> nat \<Rightarrow> width \<Rightarrow> object_state \<Rightarrow> (expr \<times> object_state) result" where
  "read_const name le off w os =
     (if w = 1 then map_res (\<lambda>(b, os'). (create_Extract b 0 1, os')) (read8 name off os)
      else assert_res (w = w div 8 * 8)
        (read_bytes (\<lambda>j. read8 name (add32 off j)) (map (byte_index le (w div 8)) [0..<w div 8]) None os))"

definition read_sym :: "string \<Rightarrow> bool \<Rightarrow> expr \<Rightarrow> width \<Rightarrow> object_state \<Rightarrow> (expr \<times> object_state) result" where
  "read_sym name le off w os =
     (let off = create_ZExt off 32 in
      case dyn_cast_Constant off of
        Some (wo, c) \<Rightarrow> read_const name le (nat c) w os
      | None \<Rightarrow>
          (if w = 1 then map_res (\<lambda>(b, os'). (create_Extract b 0 1, os')) (read8_sym name off os)
           else assert_res (w = w div 8 * 8)
             (read_bytes (\<lambda>j. read8_sym name (create_Add off (Constant 32 (int j))))
               (map (byte_index le (w div 8)) [0..<w div 8]) None os)))"

fun write_bytes :: "(nat \<Rightarrow> nat \<Rightarrow> object_state \<Rightarrow> object_state result) \<Rightarrow> (nat \<times> nat) list
    \<Rightarrow> object_state \<Rightarrow> object_state result" where
  "write_bytes wr [] os = Inr os"
| "write_bytes wr ((i, j) # ijs) os = bind_res (wr i j os) (write_bytes wr ijs)"

definition byte_positions :: "bool \<Rightarrow> nat \<Rightarrow> (nat \<times> nat) list" where
  "byte_positions le n = map (\<lambda>i. (i, byte_index le n i)) [0..<n]"

text \<open>\<open>write16\<close>, \<open>write32\<close>, \<open>write64\<close>: the bytes of an \<open>n\<close>-byte integer.\<close>

definition write_int :: "bool \<Rightarrow> nat \<Rightarrow> nat \<Rightarrow> int \<Rightarrow> object_state \<Rightarrow> object_state result" where
  "write_int le n off v =
     write_bytes (\<lambda>i j. write8_byte (add32 off j) (take_bit 8 (drop_bit (8 * i) v)))
       (byte_positions le n)"

definition write_const :: "bool \<Rightarrow> nat \<Rightarrow> expr \<Rightarrow> object_state \<Rightarrow> object_state result" where
  "write_const le off ve os =
     (let w = getWidth ve;
          general = (if w = 1 then write8 off (create_ZExt ve 8) os
            else assert_res (w = w div 8 * 8)
              (write_bytes (\<lambda>i j. write8 (add32 off j) (create_Extract ve (8 * i) 8))
                (byte_positions le (w div 8)) os))
      in case dyn_cast_Constant ve of
        Some (wc, v) \<Rightarrow>
          (if wc = 1 \<or> wc = 8 then write8_byte off v os
           else if wc = 16 \<or> wc = 32 \<or> wc = 64 then write_int le (wc div 8) off v os
           else if wc = 2 \<or> wc = 4 then Inl AssertionFailed
           else general)
      | None \<Rightarrow> general)"

definition write_sym :: "bool \<Rightarrow> expr \<Rightarrow> expr \<Rightarrow> object_state \<Rightarrow> object_state result" where
  "write_sym le off ve os =
     (let off = create_ZExt off 32; w = getWidth ve in
      case dyn_cast_Constant off of
        Some (wo, c) \<Rightarrow> write_const le (nat c) ve os
      | None \<Rightarrow>
          (if w = 1 then write8_sym off (create_ZExt ve 8) os
           else assert_res (w = w div 8 * 8)
             (write_bytes (\<lambda>i j. write8_sym (create_Add off (Constant 32 (int j)))
                 (create_Extract ve (8 * i) 8))
               (byte_positions le (w div 8)) os)))"

section \<open>The invariant and the contents\<close>

text \<open>
  \<open>obj_val \<rho> os i\<close> is the byte at offset \<open>i\<close>. A list without a root array is read over
  zeros. The invariant has the code's cache invariants, and that the update list holds a
  flushed byte that is cached as well. A write at a constant index is inside the object.
\<close>

definition zero_array :: "nat \<Rightarrow> array" where
  "zero_array n = const_arr [] n (replicate n 0)"

definition root_array :: "object_state \<Rightarrow> array" where
  "root_array os = (case upd_root os of Some a \<Rightarrow> a | None \<Rightarrow> zero_array (os_size os))"

definition list_val :: "env \<Rightarrow> object_state \<Rightarrow> int \<Rightarrow> int" where
  "list_val \<rho> os j = eval_read \<rho> (upd_head os) (root_array os) j"

definition obj_val :: "env \<Rightarrow> object_state \<Rightarrow> nat \<Rightarrow> int" where
  "obj_val \<rho> os i =
     (if isByteConcrete os i then concreteStore os ! i
      else case knownSymbolic os i of
          Some e \<Rightarrow> eval \<rho> e
        | None \<Rightarrow> list_val \<rho> os (int i))"

definition mask_ok :: "nat \<Rightarrow> 'a list option \<Rightarrow> bool" where
  "mask_ok n m \<longleftrightarrow> (case m of None \<Rightarrow> True | Some l \<Rightarrow> length l = n)"

definition wf_byte :: "object_state \<Rightarrow> nat \<Rightarrow> bool" where
  "wf_byte os i \<longleftrightarrow>
     in_width 8 (concreteStore os ! i)
   \<and> (\<forall>e. knownSymbolic os i = Some e \<longrightarrow> wf_expr e \<and> getWidth e = 8 \<and> \<not> isByteConcrete os i)
   \<and> (isByteFlushed os i \<longrightarrow> (\<forall>\<rho>. wf_env \<rho> \<longrightarrow> list_val \<rho> os (int i) = obj_val \<rho> os i))
   \<and> (isByteFlushed os i \<or> isByteConcrete os i \<or> isByteKnownSymbolic os i)"

definition wf_list :: "object_state \<Rightarrow> bool" where
  "wf_list os \<longleftrightarrow> wf_array (root_array os) \<and> arr_domain (root_array os) = 32
     \<and> arr_range (root_array os) = 8 \<and> wf_updates (upd_head os) (root_array os)
     \<and> (\<forall>(i, v) \<in> set (writes_of (upd_head os)). \<forall>w c. i = Constant w c \<longrightarrow> c < int (os_size os))"

definition wf_shape :: "object_state \<Rightarrow> bool" where
  "wf_shape os \<longleftrightarrow> os_size os < 2 ^ 32 \<and> length (concreteStore os) = os_size os
     \<and> mask_ok (os_size os) (concreteMask os) \<and> mask_ok (os_size os) (flushMask os)
     \<and> mask_ok (os_size os) (knownSymbolics os)"

definition wf_object :: "object_state \<Rightarrow> bool" where
  "wf_object os \<longleftrightarrow> wf_shape os \<and> wf_list os \<and> (\<forall>i < os_size os. wf_byte os i)"

lemma wf_zero_array: "wf_array (zero_array n)" "arr_domain (zero_array n) = 32"
    "arr_range (zero_array n) = 8"
  by (auto simp: zero_array_def const_arr_def wf_array_def isConstantArray_def isSymbolicArray_def)

section \<open>The effect of the marking operations\<close>

lemma mark_simps [simp]:
  "os_size (markByteConcrete i os) = os_size os"
  "os_size (markByteSymbolic i os) = os_size os"
  "os_size (markByteUnflushed i os) = os_size os"
  "os_size (markByteFlushed i os) = os_size os"
  "os_size (setKnownSymbolic i v os) = os_size os"
  "os_size (unset_flushMask i os) = os_size os"
  "os_size (init_flushMask os) = os_size os"
  "concreteStore (markByteConcrete i os) = concreteStore os"
  "concreteStore (markByteSymbolic i os) = concreteStore os"
  "concreteStore (markByteUnflushed i os) = concreteStore os"
  "concreteStore (markByteFlushed i os) = concreteStore os"
  "concreteStore (setKnownSymbolic i v os) = concreteStore os"
  "concreteStore (unset_flushMask i os) = concreteStore os"
  "concreteStore (init_flushMask os) = concreteStore os"
  by (auto simp: markByteConcrete_def markByteSymbolic_def markByteUnflushed_def markByteFlushed_def
      setKnownSymbolic_def unset_flushMask_def init_flushMask_def split: option.split)

lemma mark_flushMask [simp]:
  "flushMask (markByteConcrete i os) = flushMask os"
  "flushMask (markByteSymbolic i os) = flushMask os"
  "flushMask (setKnownSymbolic i v os) = flushMask os"
  "flushMask (unset_flushMask i os) = None \<longleftrightarrow> flushMask os = None"
  by (auto simp: markByteConcrete_def markByteSymbolic_def setKnownSymbolic_def
      unset_flushMask_def split: option.split)

lemma mark_list_val [simp]:
  "list_val \<rho> (markByteConcrete i os) j = list_val \<rho> os j"
  "list_val \<rho> (markByteSymbolic i os) j = list_val \<rho> os j"
  "list_val \<rho> (markByteUnflushed i os) j = list_val \<rho> os j"
  "list_val \<rho> (markByteFlushed i os) j = list_val \<rho> os j"
  "list_val \<rho> (setKnownSymbolic i v os) j = list_val \<rho> os j"
  "list_val \<rho> (unset_flushMask i os) j = list_val \<rho> os j"
  "list_val \<rho> (init_flushMask os) j = list_val \<rho> os j"
  by (auto simp: list_val_def root_array_def markByteConcrete_def markByteSymbolic_def
      markByteUnflushed_def markByteFlushed_def setKnownSymbolic_def unset_flushMask_def
      init_flushMask_def split: option.split)

lemma mark_wf_list [simp]:
  "wf_list (markByteConcrete i os) = wf_list os"
  "wf_list (markByteSymbolic i os) = wf_list os"
  "wf_list (markByteUnflushed i os) = wf_list os"
  "wf_list (markByteFlushed i os) = wf_list os"
  "wf_list (setKnownSymbolic i v os) = wf_list os"
  "wf_list (unset_flushMask i os) = wf_list os"
  "wf_list (init_flushMask os) = wf_list os"
  by (auto simp: wf_list_def root_array_def markByteConcrete_def markByteSymbolic_def
      markByteUnflushed_def markByteFlushed_def setKnownSymbolic_def unset_flushMask_def
      init_flushMask_def split: option.split)

lemma mark_wf_shape [simp]:
  "wf_shape os \<Longrightarrow> wf_shape (markByteConcrete i os)"
  "wf_shape os \<Longrightarrow> wf_shape (markByteSymbolic i os)"
  "wf_shape os \<Longrightarrow> wf_shape (markByteUnflushed i os)"
  "wf_shape os \<Longrightarrow> wf_shape (markByteFlushed i os)"
  "wf_shape os \<Longrightarrow> wf_shape (setKnownSymbolic i v os)"
  "wf_shape os \<Longrightarrow> wf_shape (unset_flushMask i os)"
  "wf_shape os \<Longrightarrow> wf_shape (init_flushMask os)"
  by (auto simp: wf_shape_def mask_ok_def markByteConcrete_def markByteSymbolic_def
      markByteUnflushed_def markByteFlushed_def setKnownSymbolic_def unset_flushMask_def
      init_flushMask_def split: option.splits)

lemma concrete_simps [simp]:
  assumes "wf_shape os" "i < os_size os"
  shows "isByteConcrete (markByteConcrete i os) j \<longleftrightarrow> j = i \<or> isByteConcrete os j"
    "j < os_size os \<Longrightarrow> isByteConcrete (markByteSymbolic i os) j \<longleftrightarrow> j \<noteq> i \<and> isByteConcrete os j"
  using assms
  by (auto simp: isByteConcrete_def wf_shape_def mask_ok_def markByteConcrete_def
      markByteSymbolic_def nth_list_update split: option.splits)

lemma concrete_frame [simp]:
  shows "isByteConcrete (markByteUnflushed k os) j = isByteConcrete os j"
    "isByteConcrete (markByteFlushed k os) j = isByteConcrete os j"
    "isByteConcrete (setKnownSymbolic k v os) j = isByteConcrete os j"
    "isByteConcrete (unset_flushMask k os) j = isByteConcrete os j"
    "isByteConcrete (init_flushMask os) j = isByteConcrete os j"
  by (auto simp: isByteConcrete_def markByteUnflushed_def markByteFlushed_def setKnownSymbolic_def
      unset_flushMask_def init_flushMask_def split: option.splits)

lemma flushed_simps [simp]:
  assumes "wf_shape os" "i < os_size os"
  shows "isByteFlushed (markByteUnflushed i os) j \<longleftrightarrow> j \<noteq> i \<and> isByteFlushed os j"
    "flushMask os \<noteq> None \<Longrightarrow> isByteFlushed (unset_flushMask i os) j \<longleftrightarrow> j = i \<or> isByteFlushed os j"
  using assms
  by (auto simp: isByteFlushed_def wf_shape_def mask_ok_def markByteUnflushed_def
      unset_flushMask_def nth_list_update split: option.splits)

lemma flushed_frame [simp]:
  "isByteFlushed (markByteConcrete k os) j = isByteFlushed os j"
  "isByteFlushed (markByteSymbolic k os) j = isByteFlushed os j"
  "isByteFlushed (setKnownSymbolic k v os) j = isByteFlushed os j"
  "j < os_size os \<Longrightarrow> isByteFlushed (init_flushMask os) j = isByteFlushed os j"
  by (auto simp: isByteFlushed_def markByteConcrete_def markByteSymbolic_def setKnownSymbolic_def
      init_flushMask_def split: option.splits)

lemma known_simps [simp]:
  assumes "wf_shape os" "i < os_size os" "j < os_size os"
  shows "knownSymbolic (setKnownSymbolic i v os) j = (if j = i then v else knownSymbolic os j)"
  using assms
  by (auto simp: knownSymbolic_def wf_shape_def mask_ok_def setKnownSymbolic_def nth_list_update
      split: option.splits)

lemma known_frame [simp]:
  "knownSymbolic (markByteUnflushed k os) j = knownSymbolic os j"
  "knownSymbolic (unset_flushMask k os) j = knownSymbolic os j"
  "knownSymbolic (markByteConcrete k os) j = knownSymbolic os j"
  "knownSymbolic (markByteSymbolic k os) j = knownSymbolic os j"
  "knownSymbolic (init_flushMask os) j = knownSymbolic os j"
  by (auto simp: knownSymbolic_def markByteConcrete_def markByteSymbolic_def markByteUnflushed_def
      unset_flushMask_def init_flushMask_def split: option.splits)

section \<open>Extending the update list\<close>

abbreviation extended :: "expr \<Rightarrow> expr \<Rightarrow> object_state \<Rightarrow> object_state" where
  "extended idx v os \<equiv> os\<lparr>upd_head := UNode idx v (upd_head os)\<rparr>"

lemma head_simps [simp]:
  "isByteConcrete (os\<lparr>upd_head := u\<rparr>) i = isByteConcrete os i"
  "isByteFlushed (os\<lparr>upd_head := u\<rparr>) i = isByteFlushed os i"
  "knownSymbolic (os\<lparr>upd_head := u\<rparr>) i = knownSymbolic os i"
  "wf_shape (os\<lparr>upd_head := u\<rparr>) = wf_shape os"
  "root_array (os\<lparr>upd_head := u\<rparr>) = root_array os"
  by (simp_all add: isByteConcrete_def isByteFlushed_def knownSymbolic_def wf_shape_def root_array_def
      cong: option.case_cong)

lemma list_val_extended:
  "list_val \<rho> (extended idx v os) j = (if eval \<rho> idx = j then eval \<rho> v else list_val \<rho> os j)"
  by (simp add: list_val_def)

lemma extend_ok:
  assumes "wf_list os" "wf_expr idx" "getWidth idx = 32" "wf_expr v" "getWidth v = 8"
    "\<And>w c. idx = Constant w c \<Longrightarrow> c < int (os_size os)"
  shows "UpdateList_extend idx v os = Inr (extended idx v os)" "wf_list (extended idx v os)"
  using assms
  by (auto simp: UpdateList_extend_def wf_list_def root_array_def split: option.splits)

lemma wf_object_shape: "wf_object os \<Longrightarrow> wf_shape os"
  by (simp add: wf_object_def)

lemma wf_offset: "wf_shape os \<Longrightarrow> i < os_size os \<Longrightarrow> wf_expr (Constant 32 (int i))"
  by (simp add: wf_shape_def in_width_def)

section \<open>Flushing keeps the contents\<close>

definition same_contents :: "object_state \<Rightarrow> object_state \<Rightarrow> bool" where
  "same_contents os os' \<longleftrightarrow> wf_object os' \<and> os_size os' = os_size os
     \<and> (\<forall>i < os_size os. \<forall>\<rho>. wf_env \<rho> \<longrightarrow> obj_val \<rho> os' i = obj_val \<rho> os i)"

lemma same_contents_refl: "wf_object os \<Longrightarrow> same_contents os os"
  by (simp add: same_contents_def)

lemma same_contents_trans: "same_contents a b \<Longrightarrow> same_contents b c \<Longrightarrow> same_contents a c"
  by (simp add: same_contents_def)

lemma same_contentsD:
  assumes "same_contents os os'"
  shows "wf_object os'" "os_size os' = os_size os"
    "i < os_size os \<Longrightarrow> wf_env \<rho> \<Longrightarrow> obj_val \<rho> os' i = obj_val \<rho> os i"
  using assms by (auto simp: same_contents_def)

lemma init_flushMask_same:
  assumes "wf_object os"
  shows "same_contents os (init_flushMask os)" "flushMask (init_flushMask os) \<noteq> None"
proof -
  from assms have w: "wf_shape os" by (rule wf_object_shape)
  show "same_contents os (init_flushMask os)"
    using assms w
    by (auto simp: same_contents_def wf_object_def wf_byte_def obj_val_def isByteKnownSymbolic_def
        split: option.splits)
qed (auto simp: init_flushMask_def split: option.split)

text \<open>The byte that goes into the list is the byte's contents.\<close>

definition cached :: "object_state \<Rightarrow> nat \<Rightarrow> expr" where
  "cached os i = (if isByteConcrete os i then Constant 8 (concreteStore os ! i)
     else the (knownSymbolic os i))"

lemma cached_ok:
  assumes "wf_object os" "i < os_size os" "\<not> isByteFlushed os i"
  shows "wf_expr (cached os i)" "getWidth (cached os i) = 8" "eval \<rho> (cached os i) = obj_val \<rho> os i"
proof -
  have "wf_byte os i" using assms by (simp add: wf_object_def)
  with assms(3) show "wf_expr (cached os i)" "getWidth (cached os i) = 8"
    "eval \<rho> (cached os i) = obj_val \<rho> os i"
    by (auto simp: wf_byte_def cached_def obj_val_def isByteKnownSymbolic_def)
qed

lemma extend_cached:
  assumes os: "wf_object os" and i: "i < os_size os" and f: "\<not> isByteFlushed os i"
  defines "os' \<equiv> extended (Constant 32 (int i)) (cached os i) os"
  shows "wf_list os'" "wf_shape os'"
    "UpdateList_extend (Constant 32 (int i)) (cached os i) os = Inr os'"
    "list_val \<rho> os' (int j) = (if j = i then obj_val \<rho> os i else list_val \<rho> os (int j))"
  using os i extend_ok[of os, OF _ wf_offset[OF wf_object_shape[OF os] i] _ cached_ok(1,2)[OF os i f]]
    cached_ok(3)[OF os i f, of \<rho>] unfolding os'_def
  by (auto simp: list_val_extended wf_object_def)

definition read_flushed :: "nat \<Rightarrow> object_state \<Rightarrow> object_state" where
  "read_flushed i os =
     (if isByteFlushed os i then os
      else unset_flushMask i (extended (Constant 32 (int i)) (cached os i) os))"

lemma flush_byte_for_read_eq:
  assumes "wf_object os" "i < os_size os"
  shows "flush_byte_for_read i os = Inr (read_flushed i os)"
proof (cases "isByteFlushed os i")
  case False
  have "wf_byte os i" using assms by (simp add: wf_object_def)
  with False extend_cached(3)[OF assms False] show ?thesis
    by (auto simp: flush_byte_for_read_def read_flushed_def cached_def map_res_def wf_byte_def
        isByteKnownSymbolic_def split: if_splits)
qed (simp add: flush_byte_for_read_def read_flushed_def)

lemma read_flushed_same:
  assumes os: "wf_object os" and i: "i < os_size os" and m: "flushMask os \<noteq> None"
  shows "same_contents os (read_flushed i os)" "flushMask (read_flushed i os) \<noteq> None"
    "isByteFlushed (read_flushed i os) i"
    "\<And>j. isByteFlushed os j \<Longrightarrow> isByteFlushed (read_flushed i os) j"
proof -
  have "same_contents os (read_flushed i os) \<and> flushMask (read_flushed i os) \<noteq> None
    \<and> isByteFlushed (read_flushed i os) i
    \<and> (\<forall>j. isByteFlushed os j \<longrightarrow> isByteFlushed (read_flushed i os) j)"
  proof (cases "isByteFlushed os i")
    case True
    with m same_contents_refl[OF os] show ?thesis by (simp add: read_flushed_def)
  next
    case False
    define os' where "os' = extended (Constant 32 (int i)) (cached os i) os"
    note ext = extend_cached[OF os i False, folded os'_def]
    have same: "os_size os' = os_size os" "concreteStore os' = concreteStore os"
      "flushMask os' = flushMask os" "isByteConcrete os' j = isByteConcrete os j"
      "isByteFlushed os' j = isByteFlushed os j" "knownSymbolic os' j = knownSymbolic os j" for j
      by (simp_all add: os'_def)
    have i': "i < os_size os'" using i same by simp
    have m': "flushMask os' \<noteq> None" using m same by simp
    note fl = flushed_simps(2)[OF ext(2) i' m'] and co = concrete_frame(4)
    have kn: "knownSymbolic (unset_flushMask i os') j = knownSymbolic os j" if "j < os_size os" for j
      using same by simp
    have val: "obj_val \<rho> (unset_flushMask i os') j = obj_val \<rho> os j" if "j < os_size os" for \<rho> j
    proof (cases "j = i \<and> \<not> isByteConcrete os j \<and> knownSymbolic os j = None")
      case True
      have "wf_byte os i" using os i by (simp add: wf_object_def)
      with True False show ?thesis by (auto simp: wf_byte_def isByteKnownSymbolic_def)
    next
      case neq: False
      then show ?thesis
        by (auto simp: obj_val_def co same kn[OF that] ext(4) split: option.split)
    qed
    have wfb: "wf_byte (unset_flushMask i os') j" if j: "j < os_size os" for j
    proof -
      have "wf_byte os j" using os j by (simp add: wf_object_def)
      then show ?thesis
        by (auto simp: wf_byte_def isByteKnownSymbolic_def fl co same kn[OF j] val[OF j] ext(4))
    qed
    have "wf_object (unset_flushMask i os')"
      using ext(1,2) wfb same by (simp add: wf_object_def)
    with val fl same m' False show ?thesis
      by (auto simp: read_flushed_def os'_def[symmetric] same_contents_def unset_flushMask_def)
  qed
  then show "same_contents os (read_flushed i os)" "flushMask (read_flushed i os) \<noteq> None"
    "isByteFlushed (read_flushed i os) i"
    "\<And>j. isByteFlushed os j \<Longrightarrow> isByteFlushed (read_flushed i os) j"
    by blast+
qed

lemma flush_bytes_for_read_ok:
  assumes "wf_object os" "flushMask os \<noteq> None" "\<forall>i \<in> set is. i < os_size os"
  shows "\<exists>os'. flush_bytes_for_read is os = Inr os' \<and> same_contents os os'
    \<and> (\<forall>i. isByteFlushed os i \<or> i \<in> set is \<longrightarrow> isByteFlushed os' i)"
  using assms
proof (induction "is" arbitrary: os)
  case (Cons i "is")
  from Cons.prems have i: "i < os_size os" by simp
  note rf = read_flushed_same[OF Cons.prems(1) i Cons.prems(2)]
  from Cons.IH[OF same_contentsD(1)[OF rf(1)] rf(2)] Cons.prems(3) same_contentsD(2)[OF rf(1)]
  obtain os' where "flush_bytes_for_read is (read_flushed i os) = Inr os'"
    "same_contents (read_flushed i os) os'"
    "\<forall>j. isByteFlushed (read_flushed i os) j \<or> j \<in> set is \<longrightarrow> isByteFlushed os' j"
    by auto
  then show ?case
    using flush_byte_for_read_eq[OF Cons.prems(1) i] rf(3,4) same_contents_trans[OF rf(1)]
    by auto
qed (simp add: same_contents_refl)

lemma flushRangeForRead_ok:
  assumes "wf_object os"
  shows "\<exists>os'. flushRangeForRead 0 (os_size os) os = Inr os' \<and> same_contents os os'
    \<and> (\<forall>i < os_size os. isByteFlushed os' i)"
proof -
  note init = init_flushMask_same[OF assms]
  from flush_bytes_for_read_ok[OF same_contentsD(1)[OF init(1)] init(2), of "[0..<os_size os]"]
  obtain os' where "flush_bytes_for_read [0..<os_size os] (init_flushMask os) = Inr os'"
    "same_contents (init_flushMask os) os'" "\<forall>i < os_size os. isByteFlushed os' i"
    by auto
  with same_contents_trans[OF init(1)] show ?thesis by (auto simp: flushRangeForRead_def)
qed

text \<open>
  For a write, the byte also leaves its cache. \<open>uncached\<close> says what a state must look like
  for the byte to have moved to the list.
\<close>

definition uncached :: "nat \<Rightarrow> object_state \<Rightarrow> object_state \<Rightarrow> bool" where
  "uncached i os os' \<longleftrightarrow> wf_shape os' \<and> wf_list os' \<and> os_size os' = os_size os
     \<and> concreteStore os' = concreteStore os \<and> flushMask os' \<noteq> None
     \<and> (\<forall>j < os_size os. (isByteConcrete os' j \<longleftrightarrow> j \<noteq> i \<and> isByteConcrete os j)
         \<and> knownSymbolic os' j = (if j = i then None else knownSymbolic os j)
         \<and> (isByteFlushed os' j \<longleftrightarrow> j = i \<or> isByteFlushed os j)
         \<and> (\<forall>\<rho>. wf_env \<rho> \<longrightarrow>
              list_val \<rho> os' (int j) = (if j = i then obj_val \<rho> os i else list_val \<rho> os (int j))))"

lemma uncached_same:
  assumes os: "wf_object os" and i: "i < os_size os" and u: "uncached i os os'"
  shows "same_contents os os'"
proof -
  have b: "(isByteConcrete os' j \<longleftrightarrow> j \<noteq> i \<and> isByteConcrete os j)"
    "knownSymbolic os' j = (if j = i then None else knownSymbolic os j)"
    "isByteFlushed os' j \<longleftrightarrow> j = i \<or> isByteFlushed os j"
    "wf_env \<rho> \<Longrightarrow> list_val \<rho> os' (int j) = (if j = i then obj_val \<rho> os i else list_val \<rho> os (int j))"
    if "j < os_size os" for j \<rho>
    using u that unfolding uncached_def by auto
  have store: "concreteStore os' = concreteStore os" "os_size os' = os_size os"
    using u by (auto simp: uncached_def)
  have val: "obj_val \<rho> os' j = obj_val \<rho> os j" if "j < os_size os" "wf_env \<rho>" for \<rho> j
    using b[OF that(1)] that(2) store by (auto simp: obj_val_def split: option.split)
  have "wf_byte os' j" if j: "j < os_size os" for j
  proof -
    have "wf_byte os j" using os j by (simp add: wf_object_def)
    then show ?thesis
      using b[OF j] val[OF j] store by (auto simp: wf_byte_def isByteKnownSymbolic_def)
  qed
  with val u store show ?thesis
    by (auto simp: same_contents_def wf_object_def uncached_def)
qed

lemma flush_byte_for_write_ok:
  assumes os: "wf_object os" and i: "i < os_size os" and m: "flushMask os \<noteq> None"
  shows "\<exists>os'. flush_byte_for_write i os = Inr os' \<and> uncached i os os'"
proof -
  have wfb: "wf_byte os i" and sh: "wf_shape os" and wl: "wf_list os"
    using os i by (auto simp: wf_object_def)
  show ?thesis
  proof (cases "isByteFlushed os i")
    case True
    let ?os = "if isByteConcrete os i then markByteSymbolic i os
      else if isByteKnownSymbolic os i then setKnownSymbolic i None os else os"
    have "uncached i os ?os"
      using sh wl wfb i True m known_simps[OF sh i] concrete_simps(2)[OF sh i]
      by (auto simp: uncached_def wf_byte_def isByteKnownSymbolic_def obj_val_def)
    with True show ?thesis by (auto simp: flush_byte_for_write_def)
  next
    case False
    define os1 where "os1 = extended (Constant 32 (int i)) (cached os i) os"
    note ext = extend_cached[OF os i False, folded os1_def]
    have same: "os_size os1 = os_size os" "concreteStore os1 = concreteStore os"
      "flushMask os1 = flushMask os" "isByteConcrete os1 j = isByteConcrete os j"
      "isByteFlushed os1 j = isByteFlushed os j" "knownSymbolic os1 j = knownSymbolic os j" for j
      by (simp_all add: os1_def)
    define os2 where "os2 = (if isByteConcrete os i then markByteSymbolic i os1
      else setKnownSymbolic i None os1)"
    have i1: "i < os_size os1" using i same by simp
    have sh2: "wf_shape os2" "wf_list os2" "os_size os2 = os_size os" "flushMask os2 \<noteq> None"
      "concreteStore os2 = concreteStore os"
      using ext(1,2) same m unfolding os2_def by auto
    have eq: "flush_byte_for_write i os = Inr (unset_flushMask i os2)"
      using wfb False ext(3)
      by (auto simp: flush_byte_for_write_def os2_def cached_def map_res_def wf_byte_def
          isByteKnownSymbolic_def split: if_splits)
    have i2: "i < os_size os2" using i sh2 by simp
    have known_i: "isByteConcrete os i \<Longrightarrow> knownSymbolic os i = None"
      using wfb by (cases "knownSymbolic os i") (auto simp: wf_byte_def)
    have b: "(isByteConcrete os2 j \<longleftrightarrow> j \<noteq> i \<and> isByteConcrete os j)
      \<and> knownSymbolic os2 j = (if j = i then None else knownSymbolic os j)
      \<and> isByteFlushed os2 j = isByteFlushed os j \<and> list_val \<rho> os2 (int j) = list_val \<rho> os1 (int j)"
      if "j < os_size os" for j \<rho>
      using that known_simps[OF ext(2) i1, of j] concrete_simps(2)[OF ext(2) i1, of j] same known_i
      by (auto simp: os2_def)
    have "uncached i os (unset_flushMask i os2)"
      using sh2 b ext(4) flushed_simps(2)[OF sh2(1) i2 sh2(4)]
      by (auto simp: uncached_def)
    with eq show ?thesis by blast
  qed
qed

lemma uncached_flushMask: "uncached i os os' \<Longrightarrow> flushMask os' \<noteq> None"
  by (simp add: uncached_def)

lemma flush_bytes_for_write_ok:
  assumes "wf_object os" "flushMask os \<noteq> None" "\<forall>i \<in> set is. i < os_size os"
  shows "\<exists>os'. flush_bytes_for_write is os = Inr os' \<and> same_contents os os'
    \<and> (\<forall>j < os_size os. (isByteConcrete os' j \<longrightarrow> j \<notin> set is \<and> isByteConcrete os j)
        \<and> (isByteKnownSymbolic os' j \<longrightarrow> j \<notin> set is \<and> isByteKnownSymbolic os j))"
  using assms
proof (induction "is" arbitrary: os)
  case (Cons i "is")
  from Cons.prems have i: "i < os_size os" by simp
  from flush_byte_for_write_ok[OF Cons.prems(1) i Cons.prems(2)] obtain os1
    where os1: "flush_byte_for_write i os = Inr os1" "uncached i os os1" by blast
  note same1 = uncached_same[OF Cons.prems(1) i os1(2)]
  from Cons.IH[OF same_contentsD(1)[OF same1] uncached_flushMask[OF os1(2)]] Cons.prems(3)
    same_contentsD(2)[OF same1]
  obtain os' where os': "flush_bytes_for_write is os1 = Inr os'" "same_contents os1 os'"
    "\<forall>j < os_size os. (isByteConcrete os' j \<longrightarrow> j \<notin> set is \<and> isByteConcrete os1 j)
        \<and> (isByteKnownSymbolic os' j \<longrightarrow> j \<notin> set is \<and> isByteKnownSymbolic os1 j)"
    by auto
  have "\<forall>j < os_size os. (isByteConcrete os1 j \<longrightarrow> j \<noteq> i \<and> isByteConcrete os j)
      \<and> (isByteKnownSymbolic os1 j \<longrightarrow> j \<noteq> i \<and> isByteKnownSymbolic os j)"
    using os1(2) by (auto simp: uncached_def isByteKnownSymbolic_def split: if_splits)
  with os' os1(1) same_contents_trans[OF same1 os'(2)] show ?case by auto
qed (simp add: same_contents_refl)

lemma flushRangeForWrite_ok:
  assumes "wf_object os"
  shows "\<exists>os'. flushRangeForWrite 0 (os_size os) os = Inr os' \<and> same_contents os os'
    \<and> (\<forall>i < os_size os. \<not> isByteConcrete os' i \<and> \<not> isByteKnownSymbolic os' i)"
proof -
  note init = init_flushMask_same[OF assms]
  from flush_bytes_for_write_ok[OF same_contentsD(1)[OF init(1)] init(2), of "[0..<os_size os]"]
  obtain os' where "flush_bytes_for_write [0..<os_size os] (init_flushMask os) = Inr os'"
    "same_contents (init_flushMask os) os'"
    "\<forall>i < os_size os. \<not> isByteConcrete os' i \<and> \<not> isByteKnownSymbolic os' i"
    by auto
  with same_contents_trans[OF init(1)] show ?thesis by (auto simp: flushRangeForWrite_def)
qed

section \<open>The constant array\<close>

definition eval_writes :: "env \<Rightarrow> (expr \<times> expr) list \<Rightarrow> int \<Rightarrow> int \<Rightarrow> int" where
  "eval_writes \<rho> ws base j = fold (\<lambda>(i, v) b. if eval \<rho> i = j then eval \<rho> v else b) ws base"

lemma eval_read_writes: "eval_read \<rho> ul a j = eval_writes \<rho> (writes_of ul) (initial_value \<rho> a j) j"
  by (induction ul rule: updates.induct[where ?P1.0 = "\<lambda>_. True"]) (auto simp: eval_writes_def)

definition wf_writes :: "nat \<Rightarrow> (expr \<times> expr) list \<Rightarrow> bool" where
  "wf_writes n ws \<longleftrightarrow> (\<forall>(i, v) \<in> set ws. wf_expr i \<and> getWidth i = 32 \<and> wf_expr v \<and> getWidth v = 8
     \<and> (\<forall>w c. i = Constant w c \<longrightarrow> c < int n))"

lemma wf_updates_writes:
  "wf_updates ul a \<longleftrightarrow> (\<forall>(i, v) \<in> set (writes_of ul). wf_expr i \<and> getWidth i = arr_domain a
     \<and> wf_expr v \<and> getWidth v = arr_range a)"
  by (induction ul rule: updates.induct[where ?P1.0 = "\<lambda>_. True"]) auto

lemma wf_list_writes:
  "wf_list os \<longleftrightarrow> wf_array (root_array os) \<and> arr_domain (root_array os) = 32
     \<and> arr_range (root_array os) = 8 \<and> wf_writes (os_size os) (writes_of (upd_head os))"
  by (auto simp: wf_list_def wf_updates_writes wf_writes_def)

lemma absorb_writes_ok:
  assumes "wf_writes n ws" "length contents = n" "\<forall>v \<in> set contents. in_width 8 v"
  shows "\<exists>contents' ws'. absorb_writes contents ws = Inr (contents', ws') \<and> length contents' = n
    \<and> (\<forall>v \<in> set contents'. in_width 8 v) \<and> wf_writes n ws'
    \<and> (\<forall>\<rho> j. 0 \<le> j \<longrightarrow> j < int n \<longrightarrow>
         eval_writes \<rho> ws' (contents' ! nat j) j = eval_writes \<rho> ws (contents ! nat j) j)"
  using assms
proof (induction contents ws rule: absorb_writes.induct)
  case (2 contents i v ws)
  show ?case
  proof (cases "is_Constant i \<and> is_Constant v")
    case True
    then obtain wi ci wv cv where c: "i = Constant wi ci" "v = Constant wv cv"
      by (metis is_Constant.elims(2))
    with "2.prems" have ci: "0 \<le> ci" "nat ci < length contents" and cv: "in_width 8 cv"
      and ws: "wf_writes n ws"
      by (auto simp: wf_writes_def in_width_def nat_less_iff)
    have len: "length (contents[nat ci := cv]) = n" using "2.prems"(2) by simp
    have rng: "\<forall>v \<in> set (contents[nat ci := cv]). in_width 8 v"
      using "2.prems"(3) cv set_update_subset_insert[of contents "nat ci" cv] by blast
    have step: "eval_writes \<rho> ws (contents[nat ci := cv] ! nat j) j
        = eval_writes \<rho> ((i, v) # ws) (contents ! nat j) j"
      if "0 \<le> j" "j < int n" for \<rho> j
      using that c ci "2.prems"(2) by (auto simp: eval_writes_def nth_list_update eq_nat_nat_iff)
    from "2.IH"[OF _ _ _ _ ci(2) ws len rng] c ci(2) step show ?thesis
      by (auto simp: dyn_casts)
  next
    case False
    then have "absorb_writes contents ((i, v) # ws) = Inr (contents, (i, v) # ws)"
      by (auto simp: dyn_casts split: option.split)
    with "2.prems" show ?thesis by auto
  qed
qed simp

lemma extend_all_ok:
  assumes "upd_root os = Some a" "arr_domain a = 32" "arr_range a = 8" "wf_writes n ws"
  shows "\<exists>os'. extend_all ws os = Inr os' \<and> os' = os\<lparr>upd_head := upd_head os'\<rparr>
    \<and> writes_of (upd_head os') = writes_of (upd_head os) @ ws"
  using assms
proof (induction ws arbitrary: os)
  case (Cons iv ws)
  obtain i v where iv: "iv = (i, v)" by (cases iv)
  with Cons.prems have ext: "UpdateList_extend i v os = Inr (extended i v os)"
    by (auto simp: UpdateList_extend_def wf_writes_def)
  from Cons.IH[of "extended i v os"] Cons.prems obtain os' where os':
    "extend_all ws (extended i v os) = Inr os'" "os' = (extended i v os)\<lparr>upd_head := upd_head os'\<rparr>"
    "writes_of (upd_head os') = writes_of (upd_head os) @ [(i, v)] @ ws"
    by (auto simp: wf_writes_def)
  from os'(2) have "os' = os\<lparr>upd_head := upd_head os'\<rparr>" by simp
  with os'(1,3) ext iv show ?case by auto
qed simp

lemma wf_const_arr:
  assumes "length contents = n" "\<forall>v \<in> set contents. in_width 8 v"
  shows "wf_array (const_arr name n contents)"
  using assms by (simp add: const_arr_def wf_array_def isConstantArray_def)

lemma initial_value_const_arr:
  "length contents = n \<Longrightarrow> 0 \<le> j \<Longrightarrow> j < int n
    \<Longrightarrow> initial_value \<rho> (const_arr name n contents) j = contents ! nat j"
  by (auto simp: initial_value_def const_arr_def isConstantArray_def isSymbolicArray_def)

lemma getUpdates_ok:
  assumes os: "wf_object os"
  shows "\<exists>a os'. getUpdates name os = Inr (a, os') \<and> same_contents os os' \<and> upd_root os' = Some a
    \<and> (\<forall>i < os_size os. isByteFlushed os' i = isByteFlushed os i)
    \<and> (\<forall>i < os_size os. \<forall>\<rho>. wf_env \<rho> \<longrightarrow> list_val \<rho> os' (int i) = list_val \<rho> os (int i))"
proof (cases "upd_root os")
  case (Some a)
  with os show ?thesis by (simp add: getUpdates_def same_contents_refl)
next
  case None
  let ?n = "os_size os"
  let ?ws = "writes_of (upd_head os)"
  have ws: "wf_writes ?n ?ws" using os by (simp add: wf_object_def wf_list_writes)
  have zeros: "length (replicate ?n 0) = ?n" "\<forall>v \<in> set (replicate ?n 0). in_width 8 v" by auto
  from absorb_writes_ok[OF ws zeros] obtain contents ws' where ab:
    "absorb_writes (replicate ?n 0) ?ws = Inr (contents, ws')" "length contents = ?n"
    "\<forall>v \<in> set contents. in_width 8 v" "wf_writes ?n ws'"
    "\<And>\<rho> j. 0 \<le> j \<Longrightarrow> j < int ?n \<Longrightarrow>
       eval_writes \<rho> ws' (contents ! nat j) j = eval_writes \<rho> ?ws (replicate ?n 0 ! nat j) j"
    by blast
  define a where "a = const_arr name ?n contents"
  have a: "arr_domain a = 32" "arr_range a = 8" "wf_array a"
    using wf_const_arr[OF ab(2,3)] by (simp_all add: a_def const_arr_def)
  define os0 where "os0 = os\<lparr>upd_root := Some a, upd_head := UNull\<rparr>"
  have "upd_root os0 = Some a" by (simp add: os0_def)
  from extend_all_ok[OF this a(1,2) ab(4)] obtain os' where os':
    "extend_all ws' os0 = Inr os'" "os' = os0\<lparr>upd_head := upd_head os'\<rparr>"
    "writes_of (upd_head os') = ws'"
    by (auto simp: os0_def)
  have eq: "getUpdates name os = Inr (a, os')"
    using None ab(1) os'(1) by (simp add: getUpdates_def Let_def map_res_def a_def os0_def)
  have os2: "os' = os\<lparr>upd_root := Some a, upd_head := upd_head os'\<rparr>"
    using os'(2) by (simp add: os0_def)
  have same: "os_size os' = ?n" "concreteStore os' = concreteStore os" "upd_root os' = Some a"
    "isByteConcrete os' i = isByteConcrete os i" "isByteFlushed os' i = isByteFlushed os i"
    "knownSymbolic os' i = knownSymbolic os i" "wf_shape os' = wf_shape os" for i
    by (subst os2, simp add: isByteConcrete_def isByteFlushed_def knownSymbolic_def wf_shape_def)+
  have lv: "list_val \<rho> os' (int i) = list_val \<rho> os (int i)" if "i < ?n" for \<rho> i
  proof -
    have "list_val \<rho> os' (int i) = eval_writes \<rho> ws' (initial_value \<rho> a (int i)) (int i)"
      by (simp add: list_val_def eval_read_writes os'(3) root_array_def same)
    also have "\<dots> = eval_writes \<rho> ?ws 0 (int i)"
      using ab(5)[of "int i" \<rho>] that initial_value_const_arr[OF ab(2), of "int i" \<rho> name]
      by (simp add: a_def)
    also have "\<dots> = list_val \<rho> os (int i)"
      using initial_value_const_arr[of "replicate ?n 0" ?n "int i" \<rho> "[]"] that None
      by (simp add: list_val_def eval_read_writes root_array_def zero_array_def)
    finally show ?thesis .
  qed
  have val: "obj_val \<rho> os' i = obj_val \<rho> os i" if "i < ?n" for \<rho> i
    using lv[OF that] same by (simp add: obj_val_def split: option.split)
  have "wf_byte os' i" if "i < ?n" for i
  proof -
    have "wf_byte os i" using os that by (simp add: wf_object_def)
    then show ?thesis
      using lv[OF that] val[OF that] same by (simp add: wf_byte_def isByteKnownSymbolic_def)
  qed
  moreover have "wf_list os'"
    using a ab(4) os'(3) same by (simp add: wf_list_writes root_array_def)
  ultimately have "wf_object os'"
    using os same by (simp add: wf_object_def)
  with eq same val lv show ?thesis by (simp add: same_contents_def)
qed

section \<open>Reading a byte\<close>

text \<open>\<open>reads os r v\<close>: the result \<open>r\<close> is an expression of width 8 with the ve \<open>v\<close>, next
  to an object with the contents of \<open>os\<close>.\<close>

lemma list_read_ok:
  assumes os: "wf_object os" and idx: "wf_expr idx" "getWidth idx = 32"
    and root: "upd_root os = Some a"
  shows "wf_expr (create_Read a (upd_head os) idx)" "getWidth (create_Read a (upd_head os) idx) = 8"
    "wf_env \<rho> \<Longrightarrow> eval \<rho> (create_Read a (upd_head os) idx) = list_val \<rho> os (eval \<rho> idx)"
proof -
  have r: "root_array os = a" using root by (simp add: root_array_def)
  have wf: "wf_expr (Read a (upd_head os) idx)" and w: "arr_range a = 8"
    using os idx r by (auto simp: wf_object_def wf_list_def)
  note s = sem_eqD[OF create_Read_sem_eq wf]
  show "wf_expr (create_Read a (upd_head os) idx)" "getWidth (create_Read a (upd_head os) idx) = 8"
    "wf_env \<rho> \<Longrightarrow> eval \<rho> (create_Read a (upd_head os) idx) = list_val \<rho> os (eval \<rho> idx)"
    using s w r by (auto simp: list_val_def)
qed

lemma read8_ok:
  assumes os: "wf_object os" and i: "i < os_size os"
  shows "\<exists>e os'. read8 name i os = Inr (e, os') \<and> same_contents os os' \<and> wf_expr e \<and> getWidth e = 8
    \<and> (\<forall>\<rho>. wf_env \<rho> \<longrightarrow> eval \<rho> e = obj_val \<rho> os i)"
proof -
  have b: "wf_byte os i" using os i by (simp add: wf_object_def)
  consider "isByteConcrete os i" | e where "\<not> isByteConcrete os i" "knownSymbolic os i = Some e"
    | "\<not> isByteConcrete os i" "knownSymbolic os i = None" by fastforce
  then show ?thesis
  proof cases
    case 3
    with b have fl: "isByteFlushed os i" by (simp add: wf_byte_def isByteKnownSymbolic_def)
    from getUpdates_ok[OF os, of name] obtain a os' where g: "getUpdates name os = Inr (a, os')"
      "same_contents os os'" "upd_root os' = Some a"
      "\<And>\<rho>. wf_env \<rho> \<Longrightarrow> list_val \<rho> os' (int i) = list_val \<rho> os (int i)"
      using i by blast
    note idx = wf_offset[OF wf_object_shape[OF os] i]
    from list_read_ok[OF same_contentsD(1)[OF g(2)] idx _ g(3)] g(1,2,4) 3 fl i
    show ?thesis by (auto simp: read8_def obj_val_def)
  qed (use b os i in \<open>auto simp: read8_def obj_val_def wf_byte_def same_contents_refl\<close>)
qed

lemma read8_sym_ok:
  assumes os: "wf_object os" and off: "wf_expr off" "\<not> is_Constant off"
  shows "\<exists>e os'. read8_sym name off os = Inr (e, os') \<and> same_contents os os' \<and> wf_expr e \<and> getWidth e = 8
    \<and> (\<forall>\<rho>. wf_env \<rho> \<longrightarrow> eval \<rho> (create_ZExt off 32) < int (os_size os)
         \<longrightarrow> eval \<rho> e = obj_val \<rho> os (nat (eval \<rho> (create_ZExt off 32))))"
proof -
  from flushRangeForRead_ok[OF os] obtain os1 where fl: "flushRangeForRead 0 (os_size os) os = Inr os1"
    "same_contents os os1" "\<And>i. i < os_size os \<Longrightarrow> isByteFlushed os1 i" by blast
  note os1 = same_contentsD[OF fl(2)]
  from getUpdates_ok[OF os1(1), of name] obtain a os2 where g: "getUpdates name os1 = Inr (a, os2)"
    "same_contents os1 os2" "upd_root os2 = Some a"
    "\<And>i. i < os_size os \<Longrightarrow> isByteFlushed os2 i = isByteFlushed os1 i"
    using os1(2) by auto
  note os2 = same_contentsD[OF g(2)]
  let ?idx = "create_ZExt off 32"
  have wide: "wf_expr (if 32 < getWidth off then Extract off 0 32 else Cast ZExt off 32)"
    "getWidth (if 32 < getWidth off then Extract off 0 32 else Cast ZExt off 32) = 32"
    using off(1) by auto
  have idx: "wf_expr ?idx" "getWidth ?idx = 32"
    using sem_eqD[OF create_Cast_sem_eq[of ZExt off 32] wide(1)] wide(2) by auto
  note r = list_read_ok[OF os2(1) idx g(3)]
  have "list_val \<rho> os2 (eval \<rho> ?idx) = obj_val \<rho> os (nat (eval \<rho> ?idx))"
    if \<rho>: "wf_env \<rho>" "eval \<rho> ?idx < int (os_size os)" for \<rho>
  proof -
    have pos: "0 \<le> eval \<rho> ?idx" using eval_in_width[OF \<rho>(1) idx(1)] by (simp add: in_width_def)
    then obtain i where i: "eval \<rho> ?idx = int i" "i < os_size os"
      using \<rho>(2) by (metis nonneg_int_cases of_nat_less_iff)
    have "wf_byte os2 i" using os2(1,2) os1(2) i(2) by (simp add: wf_object_def)
    then have "list_val \<rho> os2 (int i) = obj_val \<rho> os2 i"
      using g(4) fl(3) i(2) \<rho>(1) by (auto simp: wf_byte_def)
    also have "\<dots> = obj_val \<rho> os i" using os1 os2 i(2) \<rho>(1) by simp
    finally show ?thesis using i by simp
  qed
  with r fl(1) g(1) off(2) same_contents_trans[OF fl(2) g(2)] show ?thesis
    by (auto simp: read8_sym_def)
qed

section \<open>Writing a byte\<close>

text \<open>
  \<open>written os i v os'\<close>: the object \<open>os'\<close> has the contents of \<open>os\<close>, but \<open>v \<rho>\<close> at
  offset \<open>i \<rho>\<close> (for the assignments under which the offset is inside the object).
\<close>

definition written :: "object_state \<Rightarrow> (env \<Rightarrow> int) \<Rightarrow> (env \<Rightarrow> int) \<Rightarrow> object_state \<Rightarrow> bool" where
  "written os i v os' \<longleftrightarrow> wf_object os' \<and> os_size os' = os_size os
     \<and> (\<forall>\<rho> j. wf_env \<rho> \<longrightarrow> j < os_size os
          \<longrightarrow> obj_val \<rho> os' j = (if int j = i \<rho> then v \<rho> else obj_val \<rho> os j))"

lemma store_simps [simp]:
  "isByteConcrete (os\<lparr>concreteStore := st\<rparr>) j = isByteConcrete os j"
  "isByteFlushed (os\<lparr>concreteStore := st\<rparr>) j = isByteFlushed os j"
  "knownSymbolic (os\<lparr>concreteStore := st\<rparr>) j = knownSymbolic os j"
  "wf_list (os\<lparr>concreteStore := st\<rparr>) = wf_list os"
  "list_val \<rho> (os\<lparr>concreteStore := st\<rparr>) k = list_val \<rho> os k"
  by (simp_all add: isByteConcrete_def isByteFlushed_def knownSymbolic_def wf_list_def list_val_def
      root_array_def cong: option.case_cong)

lemma wf_shape_store: "wf_shape os \<Longrightarrow> length st = os_size os \<Longrightarrow> wf_shape (os\<lparr>concreteStore := st\<rparr>)"
  by (simp add: wf_shape_def)

lemma write8_byte_ok:
  assumes os: "wf_object os" and i: "i < os_size os" and v: "in_width 8 v"
  shows "\<exists>os'. write8_byte i v os = Inr os' \<and> written os (\<lambda>\<rho>. int i) (\<lambda>\<rho>. v) os'"
proof -
  have len: "i < length (concreteStore os)" using os i by (simp add: wf_object_def wf_shape_def)
  define os0 where "os0 = os\<lparr>concreteStore := (concreteStore os)[i := v]\<rparr>"
  define os1 where "os1 = setKnownSymbolic i None os0"
  define os2 where "os2 = markByteConcrete i os1"
  have sh0: "wf_shape os0" using os by (auto simp: os0_def wf_object_def wf_shape_def)
  have sz: "os_size os0 = os_size os" "os_size os1 = os_size os" "os_size os2 = os_size os"
    by (simp_all add: os0_def os1_def os2_def)
  have sh: "wf_shape os1" "wf_shape os2" using sh0 by (simp_all add: os1_def os2_def)
  note i' = i[folded sz(1)] i[folded sz(2)] i[folded sz(3)]
  let ?os = "markByteUnflushed i os2"
  have b: "isByteConcrete ?os j \<longleftrightarrow> j = i \<or> isByteConcrete os j"
    "isByteFlushed ?os j \<longleftrightarrow> j \<noteq> i \<and> isByteFlushed os j"
    "knownSymbolic ?os j = (if j = i then None else knownSymbolic os j)"
    "concreteStore ?os ! j = (if j = i then v else concreteStore os ! j)"
    if "j < os_size os" for j
    using that len concrete_simps(1)[OF sh(1) i'(2), of j] flushed_simps(1)[OF sh(2) i'(3), of j]
      known_simps[OF sh0 i'(1), of j] sz
    by (auto simp: os2_def os1_def os0_def)
  have lv: "list_val \<rho> ?os k = list_val \<rho> os k" for \<rho> k
    by (simp add: os2_def os1_def os0_def)
  have val: "obj_val \<rho> ?os j = (if j = i then v else obj_val \<rho> os j)" if "j < os_size os" for \<rho> j
    using b[OF that] lv that by (cases "j = i") (simp_all add: obj_val_def split: option.split)
  have "wf_byte ?os j" if j: "j < os_size os" for j
  proof -
    have "wf_byte os j" using os j by (simp add: wf_object_def)
    then show ?thesis
      using b[OF j] val[OF j] lv v by (auto simp: wf_byte_def isByteKnownSymbolic_def)
  qed
  moreover have "wf_list ?os" using os by (simp add: os2_def os1_def os0_def wf_object_def)
  ultimately have "wf_object ?os" using sh sz by (simp add: wf_object_def)
  with val i sz show ?thesis
    by (auto simp: write8_byte_def written_def os2_def[symmetric] os1_def[symmetric] os0_def[symmetric])
qed

lemma write8_known_ok:
  assumes os: "wf_object os" and i: "i < os_size os" and v: "wf_expr v" "getWidth v = 8"
  shows "written os (\<lambda>\<rho>. int i) (\<lambda>\<rho>. eval \<rho> v)
    (markByteUnflushed i (markByteSymbolic i (setKnownSymbolic i (Some v) os)))"
proof -
  have sh0: "wf_shape os" using os by (rule wf_object_shape)
  define os1 where "os1 = setKnownSymbolic i (Some v) os"
  define os2 where "os2 = markByteSymbolic i os1"
  have sz: "os_size os1 = os_size os" "os_size os2 = os_size os" by (simp_all add: os1_def os2_def)
  have sh: "wf_shape os1" "wf_shape os2" using sh0 by (simp_all add: os1_def os2_def)
  note i' = i[folded sz(1)] i[folded sz(2)]
  let ?os = "markByteUnflushed i os2"
  have b: "isByteConcrete ?os j \<longleftrightarrow> j \<noteq> i \<and> isByteConcrete os j"
    "isByteFlushed ?os j \<longleftrightarrow> j \<noteq> i \<and> isByteFlushed os j"
    "knownSymbolic ?os j = (if j = i then Some v else knownSymbolic os j)"
    "concreteStore ?os = concreteStore os"
    if "j < os_size os" for j
    using that concrete_simps(2)[OF sh(1) i'(1), of j] flushed_simps(1)[OF sh(2) i'(2), of j]
      known_simps[OF sh0 i, of j] sz
    by (auto simp: os2_def os1_def)
  have lv: "list_val \<rho> ?os k = list_val \<rho> os k" for \<rho> k
    by (simp add: os2_def os1_def)
  have val: "obj_val \<rho> ?os j = (if j = i then eval \<rho> v else obj_val \<rho> os j)" if "j < os_size os" for \<rho> j
    using b[OF that] lv that by (cases "j = i") (simp_all add: obj_val_def split: option.split)
  have "wf_byte ?os j" if j: "j < os_size os" for j
  proof -
    have "wf_byte os j" using os j by (simp add: wf_object_def)
    then show ?thesis
      using b[OF j] val[OF j] lv v by (auto simp: wf_byte_def isByteKnownSymbolic_def)
  qed
  moreover have "wf_list ?os" using os by (simp add: os2_def os1_def wf_object_def)
  ultimately have "wf_object ?os" using sh sz by (simp add: wf_object_def)
  with val i sz show ?thesis by (auto simp: written_def os2_def os1_def)
qed

lemma write8_ok:
  assumes os: "wf_object os" and i: "i < os_size os" and v: "wf_expr v" "getWidth v = 8"
  shows "\<exists>os'. write8 i v os = Inr os' \<and> written os (\<lambda>\<rho>. int i) (\<lambda>\<rho>. eval \<rho> v) os'"
proof (cases "dyn_cast_Constant v")
  case None
  with write8_known_ok[OF os i v] i show ?thesis by (auto simp: write8_def)
next
  case (Some wc)
  with v obtain c where c: "v = Constant 8 c" "wc = (8, c)" "in_width 8 c"
    by (cases wc) (auto simp: dyn_casts)
  with write8_byte_ok[OF os i c(3)] Some show ?thesis by (auto simp: write8_def)
qed

lemma create_ZExt_same: "getWidth e = w \<Longrightarrow> create_ZExt e w = e"
  by (simp add: create_ZExt_def)

lemma write8_sym_ok:
  assumes os: "wf_object os" and off: "wf_expr off" "getWidth off = 32" "\<not> is_Constant off"
    and v: "wf_expr v" "getWidth v = 8"
  shows "\<exists>os'. write8_sym off v os = Inr os' \<and> written os (\<lambda>\<rho>. eval \<rho> off) (\<lambda>\<rho>. eval \<rho> v) os'"
proof -
  from flushRangeForWrite_ok[OF os] obtain os1 where fl: "flushRangeForWrite 0 (os_size os) os = Inr os1"
    "same_contents os os1" "\<And>i. i < os_size os \<Longrightarrow> \<not> isByteConcrete os1 i \<and> knownSymbolic os1 i = None"
    by (auto simp: isByteKnownSymbolic_def)
  note os1 = same_contentsD[OF fl(2)]
  have "wf_list os1" using os1(1) by (simp add: wf_object_def)
  have "c < int (os_size os1)" if "off = Constant w c" for w c using off(3) that by simp
  note ext = extend_ok[OF \<open>wf_list os1\<close> off(1,2) v this]
  have val: "obj_val \<rho> (extended off v os1) j = (if int j = eval \<rho> off then eval \<rho> v else obj_val \<rho> os j)"
    if "j < os_size os" "wf_env \<rho>" for \<rho> j
    using fl(3)[OF that(1)] os1(3)[OF that]
    by (auto simp: obj_val_def[of _ "extended off v os1"] obj_val_def[of _ os1] list_val_extended)
  have "wf_byte (extended off v os1) j" if j: "j < os_size os" for j
  proof -
    have "wf_byte os1 j" using os1 j by (simp add: wf_object_def)
    then show ?thesis
      using fl(3)[OF j] by (auto simp: wf_byte_def isByteKnownSymbolic_def obj_val_def)
  qed
  with ext(2) os1 have "wf_object (extended off v os1)" by (simp add: wf_object_def)
  with val os1(2) fl(1) ext(1) off(3) show ?thesis
    by (auto simp: write8_sym_def written_def create_ZExt_same[OF off(2)])
qed

section \<open>Words\<close>

text \<open>The value of a little-endian list of bytes, and the bytes of a value.\<close>

fun bytes_val :: "int list \<Rightarrow> int" where
  "bytes_val [] = 0"
| "bytes_val (b # bs) = b + 256 * bytes_val bs"

definition byte_of :: "nat \<Rightarrow> int \<Rightarrow> int" where
  "byte_of i v = take_bit 8 (drop_bit (8 * i) v)"

lemma byte_of_Suc: "byte_of (Suc i) v = byte_of i (drop_bit 8 v)"
  by (simp add: byte_of_def add.commute)

lemma bytes_val_of: "bytes_val (map (\<lambda>i. byte_of i v) [0..<n]) = take_bit (8 * n) v"
proof (induction n arbitrary: v)
  case (Suc n)
  have "map (\<lambda>i. byte_of i v) [0..<Suc n] = byte_of 0 v # map (\<lambda>i. byte_of i (drop_bit 8 v)) [0..<n]"
    by (simp add: upt_conv_Cons map_Suc_upt[symmetric] byte_of_Suc del: upt_Suc)
  then have "bytes_val (map (\<lambda>i. byte_of i v) [0..<Suc n])
      = take_bit 8 v + 256 * take_bit (8 * n) (drop_bit 8 v)"
    using Suc.IH[of "drop_bit 8 v"] by (simp add: byte_of_def del: upt_Suc)
  also have "\<dots> = take_bit (8 * Suc n) v"
  proof -
    have "take_bit (8 * Suc n) v = concat_bit 8 v (take_bit (8 * n) (drop_bit 8 v))"
      by (rule bit_eqI) (auto simp: bit_simps)
    then show ?thesis by (simp add: concat_bit_eq push_bit_eq_mult)
  qed
  finally show ?case .
qed simp

text \<open>A byte reader that is right at every position, up to the contents of the object.\<close>

definition reads_byte :: "object_state \<Rightarrow> (env \<Rightarrow> bool) \<Rightarrow> (env \<Rightarrow> int) \<Rightarrow> (expr \<times> object_state) \<Rightarrow> bool" where
  "reads_byte os P v r \<longleftrightarrow> (case r of (e, os') \<Rightarrow> same_contents os os' \<and> wf_expr e \<and> getWidth e = 8
     \<and> (\<forall>\<rho>. wf_env \<rho> \<longrightarrow> P \<rho> \<longrightarrow> eval \<rho> e = v \<rho>))"

lemma reads_byteD:
  assumes "reads_byte os P v (e, os')"
  shows "same_contents os os'" "wf_expr e" "getWidth e = 8" "wf_env \<rho> \<Longrightarrow> P \<rho> \<Longrightarrow> eval \<rho> e = v \<rho>"
  using assms by (auto simp: reads_byte_def)

lemma concat_byte_value:
  assumes "wf_expr b" "wf_expr r"
  shows "wf_expr (create_Concat b r)" "getWidth (create_Concat b r) = getWidth b + getWidth r"
    "wf_env \<rho> \<Longrightarrow> eval \<rho> (create_Concat b r) = eval \<rho> b * 2 ^ getWidth r + eval \<rho> r"
  using sem_eqD[OF create_Concat_sem_eq, of b r] assms by auto

lemma read_bytes_Some:
  assumes rd: "\<And>j os' r. j \<in> set js \<Longrightarrow> same_contents os os' \<Longrightarrow> rd j os' = Inr r
      \<Longrightarrow> reads_byte os P (\<lambda>\<rho>. val \<rho> j) r"
  shows "same_contents os os0 \<Longrightarrow> wf_expr r \<Longrightarrow> read_bytes rd js (Some r) os0 = Inr (e, os') \<Longrightarrow>
    same_contents os os' \<and> wf_expr e \<and> getWidth e = getWidth r + 8 * length js
    \<and> (\<forall>\<rho>. wf_env \<rho> \<longrightarrow> P \<rho> \<longrightarrow>
         eval \<rho> e = eval \<rho> r + 2 ^ getWidth r * bytes_val (map (val \<rho>) js))"
  using rd
proof (induction js arbitrary: r os0)
  case (Cons j js)
  from Cons.prems(3) obtain b os1 where b: "rd j os0 = Inr (b, os1)"
    "read_bytes rd js (Some (create_Concat b r)) os1 = Inr (e, os')" by auto
  have "reads_byte os P (\<lambda>\<rho>. val \<rho> j) (b, os1)"
    using Cons.prems(4)[OF _ Cons.prems(1) b(1)] by simp
  note b_ok = reads_byteD[OF this] and cc = concat_byte_value[OF reads_byteD(2)[OF this] Cons.prems(2)]
  from Cons.IH[OF b_ok(1) cc(1) b(2)] Cons.prems(4) have
    IH: "same_contents os os'" "wf_expr e" "getWidth e = getWidth (create_Concat b r) + 8 * length js"
    "\<And>\<rho>. wf_env \<rho> \<Longrightarrow> P \<rho> \<Longrightarrow> eval \<rho> e = eval \<rho> (create_Concat b r)
        + 2 ^ getWidth (create_Concat b r) * bytes_val (map (val \<rho>) js)"
    by auto
  then show ?case
    using cc b_ok by (simp add: power_add algebra_simps)
qed auto

lemma read_bytes_ok:
  assumes rd: "\<And>j os' r. j \<in> set js \<Longrightarrow> same_contents os os' \<Longrightarrow> rd j os' = Inr r
      \<Longrightarrow> reads_byte os P (\<lambda>\<rho>. val \<rho> j) r"
    and os: "wf_object os" and r: "read_bytes rd js None os = Inr (e, os')"
  shows "same_contents os os' \<and> wf_expr e \<and> getWidth e = 8 * length js
    \<and> (\<forall>\<rho>. wf_env \<rho> \<longrightarrow> P \<rho> \<longrightarrow> eval \<rho> e = bytes_val (map (val \<rho>) js))"
proof (cases js)
  case (Cons j js')
  with r obtain b os1 where b: "rd j os = Inr (b, os1)" "read_bytes rd js' (Some b) os1 = Inr (e, os')"
    by auto
  have "reads_byte os P (\<lambda>\<rho>. val \<rho> j) (b, os1)"
    using rd[OF _ same_contents_refl[OF os] b(1)] Cons by simp
  note b_ok = reads_byteD[OF this]
  have "same_contents os os' \<and> wf_expr e \<and> getWidth e = getWidth b + 8 * length js'
    \<and> (\<forall>\<rho>. wf_env \<rho> \<longrightarrow> P \<rho> \<longrightarrow>
         eval \<rho> e = eval \<rho> b + 2 ^ getWidth b * bytes_val (map (val \<rho>) js'))"
    by (rule read_bytes_Some[OF _ b_ok(1,2) b(2)]) (use rd Cons in auto)
  with Cons b_ok(3,4) show ?thesis by auto
qed (use r in simp)

lemma read_bytes_total:
  assumes rd: "\<And>j os'. j \<in> set js \<Longrightarrow> same_contents os os' \<Longrightarrow>
      \<exists>e os''. rd j os' = Inr (e, os'') \<and> same_contents os os''"
  shows "same_contents os os0 \<Longrightarrow> js \<noteq> [] \<or> res \<noteq> None \<Longrightarrow> \<exists>x. read_bytes rd js res os0 = Inr x"
  using rd
proof (induction js arbitrary: res os0)
  case (Cons j js)
  from Cons.prems(3)[OF _ Cons.prems(1), of j] obtain b os1
    where b: "rd j os0 = Inr (b, os1)" "same_contents os os1" by auto
  from Cons.IH[OF b(2), of "Some (case res of None \<Rightarrow> b | Some r \<Rightarrow> create_Concat b r)"] Cons.prems(3) b(1)
  show ?case by auto
qed auto

lemma byte_index_less: "i < n \<Longrightarrow> byte_index le n i < n"
  by (simp add: byte_index_def)

lemma add32_less: "wf_object os \<Longrightarrow> off + j < os_size os \<Longrightarrow> add32 off j = off + j"
  by (simp add: add32_def wf_object_def wf_shape_def)

text \<open>The bytes of a value at an offset, least significant first.\<close>

definition obj_bytes :: "env \<Rightarrow> bool \<Rightarrow> object_state \<Rightarrow> nat \<Rightarrow> nat \<Rightarrow> int list" where
  "obj_bytes \<rho> le os off n = map (\<lambda>i. obj_val \<rho> os (off + byte_index le n i)) [0..<n]"

lemma read_const_ok:
  assumes os: "wf_object os" and n: "0 < n" "off + n \<le> os_size os"
  shows "\<exists>e os'. read_const name le off (8 * n) os = Inr (e, os') \<and> same_contents os os' \<and> wf_expr e
    \<and> getWidth e = 8 * n \<and> (\<forall>\<rho>. wf_env \<rho> \<longrightarrow> eval \<rho> e = bytes_val (obj_bytes \<rho> le os off n))"
proof -
  let ?js = "map (byte_index le n) [0..<n]"
  let ?rd = "\<lambda>j. read8 name (add32 off j)"
  have j: "off + j < os_size os" if "j \<in> set ?js" for j
    using that n by (auto simp: byte_index_def)
  have rd: "\<exists>e os''. ?rd j os' = Inr (e, os'')
      \<and> reads_byte os (\<lambda>_. True) (\<lambda>\<rho>. obj_val \<rho> os (off + j)) (e, os'')"
    if "j \<in> set ?js" "same_contents os os'" for j os'
  proof -
    note os' = same_contentsD[OF that(2)]
    have j': "off + j < os_size os'" using j[OF that(1)] os'(2) by simp
    from read8_ok[OF os'(1) j', of name] add32_less[OF os'(1) j'] os'(3)[OF j[OF that(1)]]
    show ?thesis by (auto simp: reads_byte_def intro: same_contents_trans[OF that(2)])
  qed
  have "\<exists>x. read_bytes ?rd ?js None os = Inr x"
  proof (rule read_bytes_total[OF _ same_contents_refl[OF os]])
    fix j os'
    assume "j \<in> set ?js" "same_contents os os'"
    from rd[OF this] show "\<exists>e os''. ?rd j os' = Inr (e, os'') \<and> same_contents os os''"
      by (auto simp: reads_byte_def)
  qed (use n in simp)
  then obtain e os' where r: "read_bytes ?rd ?js None os = Inr (e, os')" by auto
  have "same_contents os os' \<and> wf_expr e \<and> getWidth e = 8 * length ?js
    \<and> (\<forall>\<rho>. wf_env \<rho> \<longrightarrow> True \<longrightarrow> eval \<rho> e = bytes_val (map (\<lambda>j. obj_val \<rho> os (off + j)) ?js))"
  proof (rule read_bytes_ok[OF _ os r])
    fix j os' r
    assume "j \<in> set ?js" "same_contents os os'" "?rd j os' = Inr r"
    with rd[of j os'] show "reads_byte os (\<lambda>_. True) (\<lambda>\<rho>. obj_val \<rho> os (off + j)) r" by auto
  qed
  with r show ?thesis
    by (simp add: read_const_def obj_bytes_def comp_def)
qed

lemma read_bool_ok:
  assumes os: "wf_object os" and i: "off < os_size os"
  shows "\<exists>e os'. read_const name le off 1 os = Inr (e, os') \<and> same_contents os os' \<and> wf_expr e
    \<and> getWidth e = 1 \<and> (\<forall>\<rho>. wf_env \<rho> \<longrightarrow> eval \<rho> e = take_bit 1 (obj_val \<rho> os off))"
proof -
  from read8_ok[OF os i, of name] obtain b os' where b: "read8 name off os = Inr (b, os')"
    "same_contents os os'" "wf_expr b" "getWidth b = 8"
    "\<And>\<rho>. wf_env \<rho> \<Longrightarrow> eval \<rho> b = obj_val \<rho> os off" by blast
  have "wf_expr (Extract b 0 1)" using b(3,4) by simp
  from sem_eqD[OF create_Extract_sem_eq this] b show ?thesis by (auto simp: read_const_def)
qed

text \<open>Writing the bytes of a value one after the other.\<close>

lemma writtenD:
  assumes "written os i v os'"
  shows "wf_object os'" "os_size os' = os_size os"
    "wf_env \<rho> \<Longrightarrow> j < os_size os \<Longrightarrow> obj_val \<rho> os' j = (if int j = i \<rho> then v \<rho> else obj_val \<rho> os j)"
  using assms unfolding written_def by auto

lemma write_bytes_ok:
  assumes wr: "\<And>i j os1 os2. (i, j) \<in> set ijs \<Longrightarrow> wf_object os1 \<Longrightarrow> os_size os1 = os_size os
      \<Longrightarrow> wr i j os1 = Inr os2 \<Longrightarrow> written os1 (pos j) (bv i) os2"
  shows "wf_object os0 \<Longrightarrow> os_size os0 = os_size os \<Longrightarrow> write_bytes wr ijs os0 = Inr os' \<Longrightarrow>
    wf_object os' \<and> os_size os' = os_size os
    \<and> (\<forall>\<rho> p. wf_env \<rho> \<longrightarrow> p < os_size os \<longrightarrow> obj_val \<rho> os' p
         = fold (\<lambda>(i, j) b. if int p = pos j \<rho> then bv i \<rho> else b) ijs (obj_val \<rho> os0 p))"
  using wr
proof (induction ijs arbitrary: os0)
  case (Cons ij ijs)
  obtain i j where ij: "ij = (i, j)" by (cases ij)
  with Cons.prems(3) obtain os1 where os1: "wr i j os0 = Inr os1" "write_bytes wr ijs os1 = Inr os'"
    by auto
  have w: "written os0 (pos j) (bv i) os1"
    using Cons.prems(4)[OF _ Cons.prems(1,2) os1(1)] ij by simp
  from Cons.IH[OF writtenD(1)[OF w] _ os1(2)] Cons.prems(2,4) writtenD(2,3)[OF w] ij
  show ?case by simp
qed simp

lemma write_bytes_total:
  assumes wr: "\<And>i j os1. (i, j) \<in> set ijs \<Longrightarrow> wf_object os1 \<Longrightarrow> os_size os1 = os_size os
      \<Longrightarrow> \<exists>os2. wr i j os1 = Inr os2 \<and> wf_object os2 \<and> os_size os2 = os_size os"
  shows "wf_object os0 \<Longrightarrow> os_size os0 = os_size os \<Longrightarrow> \<exists>os'. write_bytes wr ijs os0 = Inr os'"
  using wr
proof (induction ijs arbitrary: os0)
  case (Cons ij ijs)
  obtain i j where ij: "ij = (i, j)" by (cases ij)
  from Cons.prems(3)[OF _ Cons.prems(1,2), of i j] ij obtain os1
    where os1: "wr i j os0 = Inr os1" "wf_object os1" "os_size os1 = os_size os" by auto
  from Cons.IH[OF os1(2,3)] Cons.prems(3) os1(1) ij show ?case by auto
qed simp

lemma fold_byte_positions:
  assumes "m \<le> n"
  shows "fold (\<lambda>(i, j) b. if p = off + j then bv i else b) (map (\<lambda>i. (i, byte_index le n i)) [0..<m]) b0
    = (if off \<le> p \<and> p < off + n \<and> byte_index le n (p - off) < m
       then bv (byte_index le n (p - off)) else b0)"
  using assms
proof (induction m)
  case (Suc m)
  have "p = off + byte_index le n m
      \<longleftrightarrow> off \<le> p \<and> p < off + n \<and> byte_index le n (p - off) = m"
    using Suc.prems by (auto simp: byte_index_def)
  then show ?case using Suc by (auto simp: less_Suc_eq)
qed simp

text \<open>
  \<open>word_written os le n off v os'\<close>: the \<open>n\<close> bytes at \<open>off \<rho>\<close> now hold \<open>v \<rho>\<close>, for the
  assignments under which they are inside the object.
\<close>

definition word_written ::
    "object_state \<Rightarrow> bool \<Rightarrow> nat \<Rightarrow> (env \<Rightarrow> int) \<Rightarrow> (env \<Rightarrow> int) \<Rightarrow> object_state \<Rightarrow> bool" where
  "word_written os le n off v os' \<longleftrightarrow> wf_object os' \<and> os_size os' = os_size os
     \<and> (\<forall>\<rho> p. wf_env \<rho> \<longrightarrow> off \<rho> + int n \<le> int (os_size os) \<longrightarrow> p < os_size os \<longrightarrow>
          obj_val \<rho> os' p = (if off \<rho> \<le> int p \<and> int p < off \<rho> + int n
            then byte_of (byte_index le n (p - nat (off \<rho>))) (v \<rho>) else obj_val \<rho> os p))"

lemma word_writtenD:
  assumes "word_written os le n off v os'"
  shows "wf_object os'" "os_size os' = os_size os"
    "wf_env \<rho> \<Longrightarrow> off \<rho> + int n \<le> int (os_size os) \<Longrightarrow> p < os_size os \<Longrightarrow>
      obj_val \<rho> os' p = (if off \<rho> \<le> int p \<and> int p < off \<rho> + int n
            then byte_of (byte_index le n (p - nat (off \<rho>))) (v \<rho>) else obj_val \<rho> os p)"
  using assms unfolding word_written_def by auto

lemma write_word_ok:
  assumes os: "wf_object os"
    and wr: "\<And>i j os1 os2. i < n \<Longrightarrow> j < n \<Longrightarrow> wf_object os1 \<Longrightarrow> os_size os1 = os_size os
      \<Longrightarrow> wr i j os1 = Inr os2 \<Longrightarrow> written os1 (pos j) (\<lambda>\<rho>. byte_of i (v \<rho>)) os2"
    and pos: "\<And>\<rho> j. wf_env \<rho> \<Longrightarrow> off \<rho> + int n \<le> int (os_size os) \<Longrightarrow> j < n \<Longrightarrow> pos j \<rho> = off \<rho> + int j"
    and off: "\<And>\<rho>. wf_env \<rho> \<Longrightarrow> 0 \<le> off \<rho>"
    and r: "write_bytes wr (byte_positions le n) os = Inr os'"
  shows "word_written os le n off v os'"
proof -
  have "wf_object os' \<and> os_size os' = os_size os
    \<and> (\<forall>\<rho> p. wf_env \<rho> \<longrightarrow> p < os_size os \<longrightarrow> obj_val \<rho> os' p
         = fold (\<lambda>(i, j) b. if int p = pos j \<rho> then byte_of i (v \<rho>) else b) (byte_positions le n) (obj_val \<rho> os p))"
    by (rule write_bytes_ok[OF _ os refl r]) (auto simp: byte_positions_def byte_index_less intro!: wr)
  moreover have "fold (\<lambda>(i, j) b. if int p = pos j \<rho> then byte_of i (v \<rho>) else b) (byte_positions le n) b0
      = (if off \<rho> \<le> int p \<and> int p < off \<rho> + int n
            then byte_of (byte_index le n (p - nat (off \<rho>))) (v \<rho>) else b0)"
    if \<rho>: "wf_env \<rho>" "off \<rho> + int n \<le> int (os_size os)" for \<rho> p b0
  proof -
    obtain o' where o': "off \<rho> = int o'" using off[OF \<rho>(1)] nonneg_int_cases by blast
    have "fold (\<lambda>(i, j) b. if int p = pos j \<rho> then byte_of i (v \<rho>) else b) (byte_positions le n) b0
      = fold (\<lambda>(i, j) b. if p = o' + j then byte_of i (v \<rho>) else b) (byte_positions le n) b0"
    proof (rule fold_cong)
      fix ij
      assume "ij \<in> set (byte_positions le n)"
      then obtain i j where ij: "ij = (i, j)" "j < n" by (auto simp: byte_positions_def byte_index_less)
      have "pos j \<rho> = int (o' + j)" using pos[OF \<rho> ij(2)] o' by simp
      then have "int p = pos j \<rho> \<longleftrightarrow> p = o' + j" by (simp only: of_nat_eq_iff)
      with ij(1) show "(\<lambda>(i, j) b. if int p = pos j \<rho> then byte_of i (v \<rho>) else b) ij
        = (\<lambda>(i, j) b. if p = o' + j then byte_of i (v \<rho>) else b) ij"
        by (simp add: fun_eq_iff)
    qed simp_all
    then show ?thesis
      using fold_byte_positions[OF order_refl, of p o' "\<lambda>i. byte_of i (v \<rho>)" le n b0] o'
      by (auto simp: byte_positions_def byte_index_less)
  qed
  ultimately show ?thesis unfolding word_written_def by simp
qed

lemma written_word: "written os i v os' \<Longrightarrow> (\<And>\<rho>. wf_env \<rho> \<Longrightarrow> 0 \<le> i \<rho>) \<Longrightarrow>
    (\<And>\<rho>. wf_env \<rho> \<Longrightarrow> in_width 8 (v \<rho>)) \<Longrightarrow> word_written os le 1 i v os'"
  unfolding word_written_def written_def byte_of_def byte_index_def
  by (auto simp: take_bit_in_width)

lemma extract_byte:
  assumes "wf_expr ve" "getWidth ve = 8 * n" "i < n"
  shows "wf_expr (create_Extract ve (8 * i) 8)" "getWidth (create_Extract ve (8 * i) 8) = 8"
    "wf_env \<rho> \<Longrightarrow> eval \<rho> (create_Extract ve (8 * i) 8) = byte_of i (eval \<rho> ve)"
proof -
  from assms have "wf_expr (Extract ve (8 * i) 8)" by simp
  from sem_eqD[OF create_Extract_sem_eq this]
  show "wf_expr (create_Extract ve (8 * i) 8)" "getWidth (create_Extract ve (8 * i) 8) = 8"
    "wf_env \<rho> \<Longrightarrow> eval \<rho> (create_Extract ve (8 * i) 8) = byte_of i (eval \<rho> ve)"
    by (auto simp: byte_of_def)
qed

lemma byte_of_width: "in_width 8 (byte_of i v)"
  by (simp add: byte_of_def)

text \<open>Both ways of writing a word at a constant offset: byte values, or extracted bytes.\<close>

lemma write_const_loop:
  assumes os: "wf_object os" and off: "off + n \<le> os_size os"
    and wr: "\<And>i j os1. i < n \<Longrightarrow> off + j < os_size os \<Longrightarrow> wf_object os1 \<Longrightarrow> os_size os1 = os_size os
      \<Longrightarrow> \<exists>os2. wr i (add32 off j) os1 = Inr os2
        \<and> written os1 (\<lambda>\<rho>. int (off + j)) (\<lambda>\<rho>. byte_of i (v \<rho>)) os2"
  shows "\<exists>os'. write_bytes (\<lambda>i j. wr i (add32 off j)) (byte_positions le n) os = Inr os'
    \<and> word_written os le n (\<lambda>\<rho>. int off) v os'"
proof -
  have step: "\<exists>os2. wr i (add32 off j) os1 = Inr os2
        \<and> written os1 (\<lambda>\<rho>. int (off + j)) (\<lambda>\<rho>. byte_of i (v \<rho>)) os2"
    if "i < n" "j < n" "wf_object os1" "os_size os1 = os_size os" for i j os1
    using wr[OF that(1) _ that(3,4), of j] off that(2) by simp
  have "\<exists>os'. write_bytes (\<lambda>i j. wr i (add32 off j)) (byte_positions le n) os = Inr os'"
  proof (rule write_bytes_total[OF _ os refl])
    fix i j os1
    assume "(i, j) \<in> set (byte_positions le n)" and os1: "wf_object os1" "os_size os1 = os_size os"
    then have "i < n" "j < n" by (auto simp: byte_positions_def byte_index_less)
    from step[OF this os1] os1(2) writtenD
    show "\<exists>os2. wr i (add32 off j) os1 = Inr os2 \<and> wf_object os2 \<and> os_size os2 = os_size os"
      by metis
  qed
  then obtain os' where r: "write_bytes (\<lambda>i j. wr i (add32 off j)) (byte_positions le n) os = Inr os'"
    by blast
  have "word_written os le n (\<lambda>\<rho>. int off) v os'"
  proof (rule write_word_ok[where pos = "\<lambda>j \<rho>. int (off + j)", OF os _ _ _ r])
    fix i j os1 os2
    assume "i < n" "j < n" "wf_object os1" "os_size os1 = os_size os" "wr i (add32 off j) os1 = Inr os2"
    with step[of i j os1] show "written os1 (\<lambda>\<rho>. int (off + j)) (\<lambda>\<rho>. byte_of i (v \<rho>)) os2" by auto
  qed simp_all
  with r show ?thesis by blast
qed

lemma write_int_ok:
  assumes os: "wf_object os" and off: "off + n \<le> os_size os"
  shows "\<exists>os'. write_int le n off v os = Inr os' \<and> word_written os le n (\<lambda>\<rho>. int off) (\<lambda>\<rho>. v) os'"
  unfolding write_int_def byte_of_def[symmetric]
proof (rule write_const_loop[OF os off, where wr = "\<lambda>i j. write8_byte j (byte_of i v)"])
  fix i j os1
  assume j: "off + j < os_size os" and os1: "wf_object os1" "os_size os1 = os_size os"
  then have j1: "off + j < os_size os1" by simp
  from write8_byte_ok[OF os1(1) j1 byte_of_width] add32_less[OF os1(1) j1]
  show "\<exists>os2. write8_byte (add32 off j) (byte_of i v) os1 = Inr os2
        \<and> written os1 (\<lambda>\<rho>. int (off + j)) (\<lambda>\<rho>. byte_of i v) os2" by simp
qed

lemma write_general_ok:
  assumes os: "wf_object os" and off: "off + n \<le> os_size os"
    and v: "wf_expr ve" "getWidth ve = 8 * n"
  shows "\<exists>os'. write_bytes (\<lambda>i j. write8 (add32 off j) (create_Extract ve (8 * i) 8))
      (byte_positions le n) os = Inr os'
    \<and> word_written os le n (\<lambda>\<rho>. int off) (\<lambda>\<rho>. eval \<rho> ve) os'"
proof (rule write_const_loop[OF os off, where wr = "\<lambda>i j. write8 j (create_Extract ve (8 * i) 8)"])
  fix i j os1
  assume i: "i < n" and j: "off + j < os_size os" and os1: "wf_object os1" "os_size os1 = os_size os"
  then have j1: "off + j < os_size os1" by simp
  note ex = extract_byte[OF v i]
  from write8_ok[OF os1(1) j1 ex(1,2)] obtain os2 where
    "write8 (off + j) (create_Extract ve (8 * i) 8) os1 = Inr os2"
    "written os1 (\<lambda>\<rho>. int (off + j)) (\<lambda>\<rho>. eval \<rho> (create_Extract ve (8 * i) 8)) os2" by blast
  then show "\<exists>os2. write8 (add32 off j) (create_Extract ve (8 * i) 8) os1 = Inr os2
        \<and> written os1 (\<lambda>\<rho>. int (off + j)) (\<lambda>\<rho>. byte_of i (eval \<rho> ve)) os2"
    using add32_less[OF os1(1) j1] ex(3) by (simp add: written_def)
qed

lemma write_const_ok:
  assumes os: "wf_object os" and n: "0 < n" "off + n \<le> os_size os"
    and v: "wf_expr ve" "getWidth ve = 8 * n"
  shows "\<exists>os'. write_const le off ve os = Inr os'
    \<and> word_written os le n (\<lambda>\<rho>. int off) (\<lambda>\<rho>. eval \<rho> ve) os'"
proof (cases "dyn_cast_Constant ve")
  case None
  with write_general_ok[OF os n(2) v] v(2) show ?thesis by (simp add: write_const_def Let_def)
next
  case (Some wc)
  with v obtain c where c: "ve = Constant (8 * n) c" "wc = (8 * n, c)" "in_width (8 * n) c"
    by (cases wc) (auto simp: dyn_casts)
  consider "n = 1" | "n = 2 \<or> n = 4 \<or> n = 8" | "n \<notin> {1, 2, 4, 8}" by auto
  then show ?thesis
  proof cases
    case 1
    with c write8_byte_ok[OF os, of off c] n obtain os' where
      "write8_byte off c os = Inr os'" "written os (\<lambda>\<rho>. int off) (\<lambda>\<rho>. c) os'" by auto
    with 1 c written_word[of os "\<lambda>\<rho>. int off" "\<lambda>\<rho>. c" os' le] show ?thesis
      by (simp add: write_const_def Let_def)
  next
    case 2
    with write_int_ok[OF os n(2), of le c] c show ?thesis
      by (auto simp: write_const_def Let_def)
  next
    case 3
    with n c have "8 * n \<noteq> 1" "8 * n \<noteq> 2" "8 * n \<noteq> 4" "8 * n \<noteq> 8" "8 * n \<noteq> 16" "8 * n \<noteq> 32"
      "8 * n \<noteq> 64" by auto
    with write_general_ok[OF os n(2) v] c show ?thesis by (auto simp: write_const_def Let_def)
  qed
qed

lemma write_bool_ok:
  assumes os: "wf_object os" and off: "off < os_size os" and v: "wf_expr ve" "getWidth ve = 1"
  shows "\<exists>os'. write_const le off ve os = Inr os'
    \<and> written os (\<lambda>\<rho>. int off) (\<lambda>\<rho>. eval \<rho> ve) os'"
proof (cases "dyn_cast_Constant ve")
  case None
  have "wf_expr (if 8 < getWidth ve then Extract ve 0 8 else Cast ZExt ve 8)"
    using v by simp
  note z0 = sem_eqD[OF create_Cast_sem_eq[of ZExt ve 8] this]
  then have z: "wf_expr (create_ZExt ve 8)" "getWidth (create_ZExt ve 8) = 8"
    using v(2) by auto
  have zv: "eval \<rho> (create_ZExt ve 8) = take_bit 8 (eval \<rho> ve)" if "wf_env \<rho>" for \<rho>
    using z0(3)[OF that] v(2) by simp
  have "take_bit 8 (eval \<rho> ve) = eval \<rho> ve" if "wf_env \<rho>" for \<rho>
    using eval_bool[OF that v] by auto
  with write8_ok[OF os off z] zv None v(2) show ?thesis
    by (auto simp: write_const_def Let_def written_def)
next
  case (Some wc)
  with v obtain c where c: "ve = Constant 1 c" "wc = (1, c)" "in_width 8 c"
    by (cases wc) (auto simp: dyn_casts in_width_def)
  with write8_byte_ok[OF os off c(3)] show ?thesis by (simp add: write_const_def Let_def)
qed

text \<open>Reading back what was written.\<close>

lemma obj_bytes_written:
  assumes w: "word_written os le n (\<lambda>\<rho>. int off) v os'" and n: "off + n \<le> os_size os" and \<rho>: "wf_env \<rho>"
  shows "bytes_val (obj_bytes \<rho> le os' off n) = take_bit (8 * n) (v \<rho>)"
proof -
  have "obj_bytes \<rho> le os' off n = map (\<lambda>i. byte_of i (v \<rho>)) [0..<n]"
    using n word_writtenD(3)[OF w \<rho>] by (auto simp: obj_bytes_def byte_index_def)
  then show ?thesis by (simp add: bytes_val_of)
qed

section \<open>Symbolic offsets\<close>

text \<open>The offset in the 32 bits it is truncated or extended to.\<close>

abbreviation offset32 :: "expr \<Rightarrow> env \<Rightarrow> int" where
  "offset32 off \<rho> \<equiv> take_bit 32 (eval \<rho> off)"

lemma zext32_ok:
  assumes "wf_expr off"
  shows "wf_expr (create_ZExt off 32)" "getWidth (create_ZExt off 32) = 32"
    "wf_env \<rho> \<Longrightarrow> eval \<rho> (create_ZExt off 32) = offset32 off \<rho>"
proof -
  have "wf_expr (if 32 < getWidth off then Extract off 0 32 else Cast ZExt off 32)"
    using assms by simp
  from sem_eqD[OF create_Cast_sem_eq[of ZExt off 32] this]
  show "wf_expr (create_ZExt off 32)" "getWidth (create_ZExt off 32) = 32"
    "wf_env \<rho> \<Longrightarrow> eval \<rho> (create_ZExt off 32) = offset32 off \<rho>"
    by (auto split: if_splits)
qed

lemma add_offset_ok:
  assumes "wf_expr off" "getWidth off = 32" "j < 2 ^ 32"
  shows "wf_expr (create_Add off (Constant 32 (int j)))" "getWidth (create_Add off (Constant 32 (int j))) = 32"
    "wf_env \<rho> \<Longrightarrow> eval \<rho> (create_Add off (Constant 32 (int j))) = take_bit 32 (eval \<rho> off + int j)"
proof -
  have "wf_expr (Binary Add off (Constant 32 (int j)))"
    using assms by (simp add: in_width_def)
  from sem_eqD[OF create_Add_sem_eq this] assms(2)
  show "wf_expr (create_Add off (Constant 32 (int j)))" "getWidth (create_Add off (Constant 32 (int j))) = 32"
    "wf_env \<rho> \<Longrightarrow> eval \<rho> (create_Add off (Constant 32 (int j))) = take_bit 32 (eval \<rho> off + int j)"
    by auto
qed

lemma read_const_bytes:
  assumes os: "wf_object os" and r: "read_const name le off (8 * n) os = Inr (e, os')" and n: "0 < n"
  shows "same_contents os os' \<and> wf_expr e \<and> getWidth e = 8 * n
    \<and> (\<forall>\<rho>. wf_env \<rho> \<longrightarrow> off + n \<le> os_size os \<longrightarrow> eval \<rho> e = bytes_val (obj_bytes \<rho> le os off n))"
proof -
  let ?js = "map (byte_index le n) [0..<n]"
  from r n have r': "read_bytes (\<lambda>j. read8 name (add32 off j)) ?js None os = Inr (e, os')"
    by (auto simp: read_const_def)
  have "same_contents os os' \<and> wf_expr e \<and> getWidth e = 8 * length ?js
    \<and> (\<forall>\<rho>. wf_env \<rho> \<longrightarrow> True \<longrightarrow> eval \<rho> e = bytes_val (map (\<lambda>j. obj_val \<rho> os (add32 off j)) ?js))"
  proof (rule read_bytes_ok[OF _ os r'])
    fix j os1 r
    assume same: "same_contents os os1" and rd: "read8 name (add32 off j) os1 = Inr r"
    note os1 = same_contentsD[OF same]
    from rd have j: "add32 off j < os_size os1" by (auto simp: read8_def split: if_splits)
    from read8_ok[OF os1(1) j, of name] rd os1(2,3) j
    show "reads_byte os (\<lambda>_. True) (\<lambda>\<rho>. obj_val \<rho> os (add32 off j)) r"
      by (auto simp: reads_byte_def intro: same_contents_trans[OF same])
  qed
  moreover have "map (\<lambda>j. obj_val \<rho> os (add32 off j)) ?js = obj_bytes \<rho> le os off n"
    if "off + n \<le> os_size os" for \<rho>
    using that add32_less[OF os] by (auto simp: obj_bytes_def byte_index_def)
  ultimately show ?thesis by simp
qed

lemma read_sym_ok:
  assumes os: "wf_object os" and off: "wf_expr off" and n: "0 < n" "n < 2 ^ 32"
    and r: "read_sym name le off (8 * n) os = Inr (e, os')"
  shows "same_contents os os' \<and> wf_expr e \<and> getWidth e = 8 * n
    \<and> (\<forall>\<rho>. wf_env \<rho> \<longrightarrow> offset32 off \<rho> + int n \<le> int (os_size os)
         \<longrightarrow> eval \<rho> e = bytes_val (obj_bytes \<rho> le os (nat (offset32 off \<rho>)) n))"
proof (cases "dyn_cast_Constant (create_ZExt off 32)")
  case (Some wc)
  then obtain w c where c: "create_ZExt off 32 = Constant w c" "wc = (w, c)"
    by (cases wc) (auto simp: dyn_casts)
  from r c have "read_const name le (nat c) (8 * n) os = Inr (e, os')"
    by (auto simp: read_sym_def Let_def)
  note rc = read_const_bytes[OF os this n(1)]
  have cv: "offset32 off \<rho> = c" if "wf_env \<rho>" for \<rho>
    using zext32_ok(3)[OF off that] c by simp
  have "0 \<le> c" using zext32_ok(1)[OF off] c by (simp add: in_width_def)
  with rc cv show ?thesis by auto
next
  case None
  let ?off = "create_ZExt off 32"
  let ?js = "map (byte_index le n) [0..<n]"
  note z = zext32_ok[OF off]
  from r None n have r': "read_bytes (\<lambda>j. read8_sym name (create_Add ?off (Constant 32 (int j)))) ?js None os
      = Inr (e, os')"
    by (auto simp: read_sym_def Let_def)
  have "same_contents os os' \<and> wf_expr e \<and> getWidth e = 8 * length ?js
    \<and> (\<forall>\<rho>. wf_env \<rho> \<longrightarrow> offset32 off \<rho> + int n \<le> int (os_size os)
         \<longrightarrow> eval \<rho> e = bytes_val (map (\<lambda>j. obj_val \<rho> os (nat (offset32 off \<rho>) + j)) ?js))"
  proof (rule read_bytes_ok[OF _ os r'])
    fix j os1 r
    assume j: "j \<in> set ?js" and same: "same_contents os os1"
      and rd: "read8_sym name (create_Add ?off (Constant 32 (int j))) os1 = Inr r"
    note os1 = same_contentsD[OF same]
    from j have jn: "j < n" by (auto simp: byte_index_less)
    with n have "j < 2 ^ 32" by simp
    note a = add_offset_ok[OF z(1,2) this]
    from rd have nc: "\<not> is_Constant (create_Add ?off (Constant 32 (int j)))"
      by (auto simp: read8_sym_def)
    have pos: "eval \<rho> (create_Add ?off (Constant 32 (int j))) = offset32 off \<rho> + int j"
      if \<rho>: "wf_env \<rho>" "offset32 off \<rho> + int n \<le> int (os_size os)" for \<rho>
    proof -
      have "int (os_size os) < 2 ^ 32" using os by (simp add: wf_object_def wf_shape_def)
      then have "take_bit 32 (offset32 off \<rho> + int j) = offset32 off \<rho> + int j"
        using \<rho>(2) jn by (intro take_bit_in_width) (simp add: in_width_def)
      with a(3)[OF \<rho>(1)] z(3)[OF \<rho>(1)] show ?thesis by simp
    qed
    from read8_sym_ok[OF os1(1) a(1) nc, of name] obtain b os2 where b:
      "read8_sym name (create_Add ?off (Constant 32 (int j))) os1 = Inr (b, os2)"
      "same_contents os1 os2" "wf_expr b" "getWidth b = 8"
      "\<And>\<rho>. wf_env \<rho> \<Longrightarrow> eval \<rho> (create_Add ?off (Constant 32 (int j))) < int (os_size os1)
        \<Longrightarrow> eval \<rho> b = obj_val \<rho> os1 (nat (eval \<rho> (create_Add ?off (Constant 32 (int j)))))"
      using create_ZExt_same[OF a(2)] by auto
    have "eval \<rho> b = obj_val \<rho> os (nat (offset32 off \<rho>) + j)"
      if \<rho>: "wf_env \<rho>" "offset32 off \<rho> + int n \<le> int (os_size os)" for \<rho>
    proof -
      have "nat (offset32 off \<rho> + int j) = nat (offset32 off \<rho>) + j" by (simp add: nat_add_distrib)
      moreover have "nat (offset32 off \<rho>) + j < os_size os"
      proof -
        have "0 \<le> offset32 off \<rho>" by simp
        then have "int (nat (offset32 off \<rho>) + j) < int (os_size os)" using \<rho>(2) jn by simp
        then show ?thesis by (simp only: of_nat_less_iff)
      qed
      ultimately show ?thesis using b(5)[OF \<rho>(1)] pos[OF \<rho>] os1(2,3) \<rho> jn by simp
    qed
    with b rd show "reads_byte os (\<lambda>\<rho>. offset32 off \<rho> + int n \<le> int (os_size os))
        (\<lambda>\<rho>. obj_val \<rho> os (nat (offset32 off \<rho>) + j)) r"
      by (auto simp: reads_byte_def intro: same_contents_trans[OF same])
  qed
  then show ?thesis by (simp add: obj_bytes_def comp_def)
qed

lemma write8_returns:
  assumes os: "wf_object os" and v: "wf_expr ve" "getWidth ve = 8" and r: "write8 i ve os = Inr os'"
  shows "written os (\<lambda>\<rho>. int i) (\<lambda>\<rho>. eval \<rho> ve) os'"
proof -
  from r have "i < os_size os"
    by (auto simp: write8_def write8_byte_def split: option.splits if_splits)
  from write8_ok[OF os this v] r show ?thesis by auto
qed

lemma write8_byte_returns:
  assumes os: "wf_object os" and v: "in_width 8 v" and r: "write8_byte i v os = Inr os'"
  shows "written os (\<lambda>\<rho>. int i) (\<lambda>\<rho>. v) os'"
proof -
  from r have "i < os_size os" by (auto simp: write8_byte_def split: if_splits)
  from write8_byte_ok[OF os this v] r show ?thesis by auto
qed

lemma add32_pos: "wf_object os \<Longrightarrow> int off + int n \<le> int (os_size os) \<Longrightarrow> j < n
    \<Longrightarrow> int (add32 off j) = int off + int j"
  using add32_less[of os off j] by simp

lemma write_general_returns:
  assumes os: "wf_object os" and v: "wf_expr ve" "getWidth ve = 8 * n"
    and r: "write_bytes (\<lambda>i j. write8 (add32 off j) (create_Extract ve (8 * i) 8))
      (byte_positions le n) os = Inr os'"
  shows "word_written os le n (\<lambda>\<rho>. int off) (\<lambda>\<rho>. eval \<rho> ve) os'"
proof (rule write_word_ok[where pos = "\<lambda>j \<rho>. int (add32 off j)", OF os _ _ _ r])
  fix i j os1 os2
  assume i: "i < n" and os1: "wf_object os1"
    and w: "write8 (add32 off j) (create_Extract ve (8 * i) 8) os1 = Inr os2"
  note ex = extract_byte[OF v i]
  from write8_returns[OF os1 ex(1,2) w] ex(3)
  show "written os1 (\<lambda>\<rho>. int (add32 off j)) (\<lambda>\<rho>. byte_of i (eval \<rho> ve)) os2"
    by (simp add: written_def)
qed (simp_all add: add32_pos[OF os])

lemma write_int_returns:
  assumes os: "wf_object os" and r: "write_int le n off v os = Inr os'"
  shows "word_written os le n (\<lambda>\<rho>. int off) (\<lambda>\<rho>. v) os'"
proof (rule write_word_ok[where pos = "\<lambda>j \<rho>. int (add32 off j)", OF os _ _ _ r[unfolded write_int_def]])
  fix i j os1 os2
  assume os1: "wf_object os1"
    and w: "write8_byte (add32 off j) (take_bit 8 (drop_bit (8 * i) v)) os1 = Inr os2"
  show "written os1 (\<lambda>\<rho>. int (add32 off j)) (\<lambda>\<rho>. byte_of i v) os2"
    by (rule write8_byte_returns[OF os1 byte_of_width w[folded byte_of_def]])
qed (simp_all add: add32_pos[OF os])

lemma write_const_returns:
  assumes os: "wf_object os" and n: "0 < n" and v: "wf_expr ve" "getWidth ve = 8 * n"
    and r: "write_const le off ve os = Inr os'"
  shows "word_written os le n (\<lambda>\<rho>. int off) (\<lambda>\<rho>. eval \<rho> ve) os'"
proof (cases "dyn_cast_Constant ve")
  case None
  with r v(2) n write_general_returns[OF os v] show ?thesis
    by (simp add: write_const_def Let_def split: if_splits)
next
  case (Some wc)
  with v obtain c where c: "ve = Constant (8 * n) c" "wc = (8 * n, c)" "in_width (8 * n) c"
    by (cases wc) (auto simp: dyn_casts)
  consider "n = 1" | "n = 2 \<or> n = 4 \<or> n = 8" | "n \<notin> {1, 2, 4, 8}" by auto
  then show ?thesis
  proof cases
    case 1
    with c r have w: "write8_byte off c os = Inr os'" by (simp add: write_const_def Let_def)
    with 1 c written_word[OF write8_byte_returns[OF os _ w]] show ?thesis by simp
  next
    case 2
    with r c write_int_returns[OF os, of le n off c os'] show ?thesis
      by (auto simp: write_const_def Let_def)
  next
    case 3
    with n c have "8 * n \<noteq> 1" "8 * n \<noteq> 2" "8 * n \<noteq> 4" "8 * n \<noteq> 8" "8 * n \<noteq> 16" "8 * n \<noteq> 32"
      "8 * n \<noteq> 64" by auto
    with r write_general_returns[OF os v] c show ?thesis
      by (auto simp: write_const_def Let_def)
  qed
qed

lemma write_sym_ok:
  assumes os: "wf_object os" and off: "wf_expr off" and n: "0 < n" "n < 2 ^ 32"
    and v: "wf_expr ve" "getWidth ve = 8 * n" and r: "write_sym le off ve os = Inr os'"
  shows "word_written os le n (offset32 off) (\<lambda>\<rho>. eval \<rho> ve) os'"
proof (cases "dyn_cast_Constant (create_ZExt off 32)")
  case (Some wc)
  then obtain w c where c: "create_ZExt off 32 = Constant w c" "wc = (w, c)"
    by (cases wc) (auto simp: dyn_casts)
  from r c have "write_const le (nat c) ve os = Inr os'" by (simp add: write_sym_def Let_def)
  note wc = write_const_returns[OF os n(1) v this]
  have "offset32 off \<rho> = int (nat c)" if "wf_env \<rho>" for \<rho>
    using zext32_ok(3)[OF off that] zext32_ok(1)[OF off] c by (simp add: in_width_def)
  with wc show ?thesis by (simp add: word_written_def)
next
  case None
  let ?off = "create_ZExt off 32"
  note z = zext32_ok[OF off]
  let ?wr = "\<lambda>i j. write8_sym (create_Add ?off (Constant 32 (int j))) (create_Extract ve (8 * i) 8)"
  from r None n v(2) have r': "write_bytes ?wr (byte_positions le n) os = Inr os'"
    by (auto simp: write_sym_def Let_def split: if_splits)
  show ?thesis
  proof (rule write_word_ok[where pos = "\<lambda>j \<rho>. eval \<rho> (create_Add ?off (Constant 32 (int j)))", OF os _ _ _ r'])
    fix i j os1 os2
    assume i: "i < n" "j < n" and os1: "wf_object os1" and w: "?wr i j os1 = Inr os2"
    have "j < 2 ^ 32" using i(2) n(2) by simp
    note a = add_offset_ok[OF z(1,2) this]
    note ex = extract_byte[OF v i(1)]
    from w have nc: "\<not> is_Constant (create_Add ?off (Constant 32 (int j)))"
      by (auto simp: write8_sym_def)
    from write8_sym_ok[OF os1 a(1,2) nc ex(1,2)] w ex(3)
    show "written os1 (\<lambda>\<rho>. eval \<rho> (create_Add ?off (Constant 32 (int j)))) (\<lambda>\<rho>. byte_of i (eval \<rho> ve)) os2"
      by (auto simp: written_def)
  next
    fix \<rho> j
    assume \<rho>: "wf_env \<rho>" "offset32 off \<rho> + int n \<le> int (os_size os)" and j: "j < n"
    have "j < 2 ^ 32" using j n(2) by simp
    note a = add_offset_ok(3)[OF z(1,2) this \<rho>(1)]
    have "int (os_size os) < 2 ^ 32" using os by (simp add: wf_object_def wf_shape_def)
    then have "take_bit 32 (offset32 off \<rho> + int j) = offset32 off \<rho> + int j"
      using \<rho>(2) j by (intro take_bit_in_width) (simp add: in_width_def)
    with a z(3)[OF \<rho>(1)]
    show "eval \<rho> (create_Add ?off (Constant 32 (int j))) = offset32 off \<rho> + int j" by simp
  qed simp
qed

section \<open>Fresh objects\<close>

lemma wf_new_ObjectState:
  assumes "n < 2 ^ 32"
  shows "wf_object (new_ObjectState n)" "i < n \<Longrightarrow> obj_val \<rho> (new_ObjectState n) i = 0"
  using assms wf_zero_array[of n]
  by (auto simp: wf_object_def wf_shape_def wf_list_def wf_byte_def new_ObjectState_def mask_ok_def
      root_array_def isByteConcrete_def isByteFlushed_def knownSymbolic_def obj_val_def)

text \<open>Ownership and the read-only flag do not matter to the contents.\<close>

lemma flag_simps [simp]:
  "isByteConcrete (os\<lparr>copyOnWriteOwner := k\<rparr>) i = isByteConcrete os i"
  "isByteFlushed (os\<lparr>copyOnWriteOwner := k\<rparr>) i = isByteFlushed os i"
  "knownSymbolic (os\<lparr>copyOnWriteOwner := k\<rparr>) i = knownSymbolic os i"
  "root_array (os\<lparr>copyOnWriteOwner := k\<rparr>) = root_array os"
  "wf_shape (os\<lparr>copyOnWriteOwner := k\<rparr>) = wf_shape os"
  "isByteConcrete (os\<lparr>readOnly := ro\<rparr>) i = isByteConcrete os i"
  "isByteFlushed (os\<lparr>readOnly := ro\<rparr>) i = isByteFlushed os i"
  "knownSymbolic (os\<lparr>readOnly := ro\<rparr>) i = knownSymbolic os i"
  "root_array (os\<lparr>readOnly := ro\<rparr>) = root_array os"
  "wf_shape (os\<lparr>readOnly := ro\<rparr>) = wf_shape os"
  by (simp_all add: isByteConcrete_def isByteFlushed_def knownSymbolic_def root_array_def
      wf_shape_def cong: option.case_cong)

lemma flag_contents [simp]:
  "list_val \<rho> (os\<lparr>copyOnWriteOwner := k\<rparr>) j = list_val \<rho> os j"
  "obj_val \<rho> (os\<lparr>copyOnWriteOwner := k\<rparr>) i = obj_val \<rho> os i"
  "list_val \<rho> (os\<lparr>readOnly := ro\<rparr>) j = list_val \<rho> os j"
  "obj_val \<rho> (os\<lparr>readOnly := ro\<rparr>) i = obj_val \<rho> os i"
  by (simp_all add: list_val_def obj_val_def cong: option.case_cong)

lemma flag_wf_object [simp]:
  "wf_object (os\<lparr>copyOnWriteOwner := k\<rparr>) = wf_object os"
  "wf_object (os\<lparr>readOnly := ro\<rparr>) = wf_object os"
  by (simp_all add: wf_object_def wf_list_def wf_byte_def isByteKnownSymbolic_def)

lemma wf_copy_ObjectState:
  assumes "wf_object os" "copy_ObjectState os = Inr os'"
  shows "same_contents os os'" "\<not> readOnly os'" "copyOnWriteOwner os' = 0"
  using assms
  by (auto simp: copy_ObjectState_def same_contents_def split: if_splits)

end
