(* ===== verification/ImmutableTree.thy ===== *)
theory ImmutableTree
  imports Prelude
begin

text \<open>
  The persistent balanced tree \<open>klee/include/klee/Internal/ADT/ImmutableTree.h\<close> that
  address spaces and the caches are built on (\<open>ImmutableMap.h\<close> and \<open>ImmutableSet.h\<close>
  only forward to it). Nodes carry their height; a node may be up to two higher on one side. The
  operations are specified by what they do to the in-order list of values, sorted by key;
  iterators, which are stacks of nodes, by the values still to come. Reference counts only manage
  memory and are not modelled.
\<close>

section \<open>Nodes\<close>

text \<open>
  \<open>Node::terminator\<close> is the leaf; its height is 0. \<open>kov\<close> is the template argument
  \<open>key_of_value\<close>, and keys are compared by the order of their type.
\<close>

datatype 'v itree =
    Terminator
  | INode (it_left: "'v itree") (it_right: "'v itree") (it_value: 'v) (it_height: nat)

fun height :: "'v itree \<Rightarrow> nat" where
  "height Terminator = 0"
| "height (INode l r v h) = h"

fun isTerminator :: "'v itree \<Rightarrow> bool" where
  "isTerminator Terminator = True"
| "isTerminator (INode l r v h) = False"

definition new_Node :: "'v itree \<Rightarrow> 'v itree \<Rightarrow> 'v \<Rightarrow> 'v itree" where
  "new_Node l r v = INode l r v (max (height l) (height r) + 1)"

text \<open>
  \<open>balance\<close>. A terminator on the higher side does not occur when the height fields are
  right (\<open>avl\<close> below): the code would read the terminator's value there.
\<close>

definition balance :: "'v itree \<Rightarrow> 'v \<Rightarrow> 'v itree \<Rightarrow> 'v itree" where
  "balance l v r =
     (if height l > height r + 2 then
        (case l of
           INode ll lr lv lh \<Rightarrow>
             (if height ll \<ge> height lr then new_Node ll (new_Node lr r v) lv
              else (case lr of
                 INode lrl lrr lrv lrh \<Rightarrow> new_Node (new_Node ll lrl lv) (new_Node lrr r v) lrv
               | Terminator \<Rightarrow> new_Node l r v))
         | Terminator \<Rightarrow> new_Node l r v)
      else if height r > height l + 2 then
        (case r of
           INode rl rr rv rh \<Rightarrow>
             (if height rr \<ge> height rl then new_Node (new_Node l rl v) rr rv
              else (case rl of
                 INode rll rlr rlv rlh \<Rightarrow> new_Node (new_Node l rll v) (new_Node rlr rr rv) rlv
               | Terminator \<Rightarrow> new_Node l r v))
         | Terminator \<Rightarrow> new_Node l r v)
      else new_Node l r v)"

fun tree_size :: "'v itree \<Rightarrow> nat" where
  "tree_size Terminator = 0"
| "tree_size (INode l r v h) = tree_size l + 1 + tree_size r"

text \<open>\<open>popMin\<close> and \<open>popMax\<close> of a node: the value taken out and the rest.\<close>

fun popMin :: "'v itree \<Rightarrow> 'v itree \<Rightarrow> 'v \<Rightarrow> 'v \<times> 'v itree" where
  "popMin Terminator r v = (v, r)"
| "popMin (INode ll lr lv lh) r v = (let (m, l') = popMin ll lr lv in (m, balance l' v r))"

fun popMax :: "'v itree \<Rightarrow> 'v itree \<Rightarrow> 'v \<Rightarrow> 'v \<times> 'v itree" where
  "popMax l Terminator v = (v, l)"
| "popMax l (INode rl rr rv rh) v = (let (m, r') = popMax rl rr rv in (m, balance l v r'))"

fun tree_insert :: "('v \<Rightarrow> 'k::linorder) \<Rightarrow> 'v \<Rightarrow> 'v itree \<Rightarrow> 'v itree" where
  "tree_insert kov v Terminator = new_Node Terminator Terminator v"
| "tree_insert kov v (INode l r x h) =
     (if kov v < kov x then balance (tree_insert kov v l) x r
      else if kov x < kov v then balance l x (tree_insert kov v r)
      else INode l r x h)"

fun tree_replace :: "('v \<Rightarrow> 'k::linorder) \<Rightarrow> 'v \<Rightarrow> 'v itree \<Rightarrow> 'v itree" where
  "tree_replace kov v Terminator = new_Node Terminator Terminator v"
| "tree_replace kov v (INode l r x h) =
     (if kov v < kov x then balance (tree_replace kov v l) x r
      else if kov x < kov v then balance l x (tree_replace kov v r)
      else new_Node l r v)"

fun tree_remove :: "('v \<Rightarrow> 'k::linorder) \<Rightarrow> 'k \<Rightarrow> 'v itree \<Rightarrow> 'v itree" where
  "tree_remove kov k Terminator = Terminator"
| "tree_remove kov k (INode l r x h) =
     (if k < kov x then balance (tree_remove kov k l) x r
      else if kov x < k then balance l x (tree_remove kov k r)
      else (case (l, r) of
          (Terminator, _) \<Rightarrow> r
        | (_, Terminator) \<Rightarrow> l
        | (_, INode rl rr rv rh) \<Rightarrow> (let (m, nr) = popMin rl rr rv in balance l m nr)))"

fun tree_lookup :: "('v \<Rightarrow> 'k::linorder) \<Rightarrow> 'k \<Rightarrow> 'v itree \<Rightarrow> 'v option" where
  "tree_lookup kov k Terminator = None"
| "tree_lookup kov k (INode l r x h) =
     (if k < kov x then tree_lookup kov k l
      else if kov x < k then tree_lookup kov k r
      else Some x)"

definition tree_count :: "('v \<Rightarrow> 'k::linorder) \<Rightarrow> 'k \<Rightarrow> 'v itree \<Rightarrow> nat" where
  "tree_count kov k t = (case tree_lookup kov k t of None \<Rightarrow> 0 | Some x \<Rightarrow> 1)"

text \<open>The loop of \<open>lookup_previous\<close>, with \<open>result\<close> as an argument.\<close>

fun lookup_previous_from :: "('v \<Rightarrow> 'k::linorder) \<Rightarrow> 'k \<Rightarrow> 'v option \<Rightarrow> 'v itree \<Rightarrow> 'v option" where
  "lookup_previous_from kov k res Terminator = res"
| "lookup_previous_from kov k res (INode l r x h) =
     (if k < kov x then lookup_previous_from kov k res l
      else if kov x < k then lookup_previous_from kov k (Some x) r
      else Some x)"

definition lookup_previous :: "('v \<Rightarrow> 'k::linorder) \<Rightarrow> 'k \<Rightarrow> 'v itree \<Rightarrow> 'v option" where
  "lookup_previous kov k t = lookup_previous_from kov k None t"

fun tree_min :: "'v itree \<Rightarrow> 'v option" where
  "tree_min Terminator = None"
| "tree_min (INode Terminator r x h) = Some x"
| "tree_min (INode l r x h) = tree_min l"

fun tree_max :: "'v itree \<Rightarrow> 'v option" where
  "tree_max Terminator = None"
| "tree_max (INode l Terminator x h) = Some x"
| "tree_max (INode l r x h) = tree_max r"

section \<open>Iterators\<close>

text \<open>
  An iterator is its stack of nodes, the current one first; the empty stack is \<open>end()\<close>.
\<close>

type_synonym 'v iterator = "'v itree list"

fun push_left :: "'v itree \<Rightarrow> 'v iterator \<Rightarrow> 'v iterator" where
  "push_left Terminator st = st"
| "push_left (INode l r x h) st = push_left l (INode l r x h # st)"

fun push_right :: "'v itree \<Rightarrow> 'v iterator \<Rightarrow> 'v iterator" where
  "push_right Terminator st = st"
| "push_right (INode l r x h) st = push_right r (INode l r x h # st)"

definition it_begin :: "'v itree \<Rightarrow> 'v iterator" where
  "it_begin t = push_left t []"

text \<open>Backing up the stack: from \<open>prev\<close> to the first ancestor it is left (right) of.\<close>

fun up_left :: "'v itree \<Rightarrow> 'v iterator \<Rightarrow> 'v iterator" where
  "up_left prev [] = []"
| "up_left prev (n # st) = (if prev = it_left n then n # st else up_left n st)"

fun up_right :: "'v itree \<Rightarrow> 'v iterator \<Rightarrow> 'v iterator" where
  "up_right prev [] = []"
| "up_right prev (n # st) = (if prev = it_right n then n # st else up_right n st)"

fun it_next :: "'v iterator \<Rightarrow> 'v iterator result" where
  "it_next [] = Inl AssertionFailed"
| "it_next (n # st) =
     Inr (if isTerminator (it_right n) then up_left n st else push_left (it_right n) (n # st))"

fun it_prev :: "'v itree \<Rightarrow> 'v iterator \<Rightarrow> 'v iterator" where
  "it_prev root [] = push_right root []"
| "it_prev root (n # st) =
     (if isTerminator (it_left n) then up_right n st else push_right (it_left n) (n # st))"

text \<open>The descent of \<open>lower_bound\<close>, then the correction at the end.\<close>

fun lower_bound_path :: "('v \<Rightarrow> 'k::linorder) \<Rightarrow> 'k \<Rightarrow> 'v itree \<Rightarrow> 'v iterator \<Rightarrow> 'v iterator" where
  "lower_bound_path kov k Terminator st = st"
| "lower_bound_path kov k (INode l r x h) st =
     (if k < kov x then lower_bound_path kov k l (INode l r x h # st)
      else if kov x < k then lower_bound_path kov k r (INode l r x h # st)
      else INode l r x h # st)"

definition lower_bound :: "('v \<Rightarrow> 'k::linorder) \<Rightarrow> 'k \<Rightarrow> 'v itree \<Rightarrow> 'v iterator result" where
  "lower_bound kov k t =
     (case lower_bound_path kov k t [] of
        [] \<Rightarrow> Inr []
      | n # st \<Rightarrow> (if kov (it_value n) < k then it_next (n # st) else Inr (n # st)))"

definition upper_bound :: "('v \<Rightarrow> 'k::linorder) \<Rightarrow> 'k \<Rightarrow> 'v itree \<Rightarrow> 'v iterator result" where
  "upper_bound kov k t =
     bind_res (lower_bound kov k t) (\<lambda>it. case it of
         [] \<Rightarrow> Inr []
       | n # st \<Rightarrow> (if k < kov (it_value n) then Inr it else it_next it))"

definition it_find :: "('v \<Rightarrow> 'k::linorder) \<Rightarrow> 'k \<Rightarrow> 'v itree \<Rightarrow> 'v iterator result" where
  "it_find kov k t =
     bind_res (lower_bound kov k t) (\<lambda>it. case it of
         [] \<Rightarrow> Inr []
       | n # st \<Rightarrow> (if k < kov (it_value n) then Inr [] else Inr it))"

section \<open>Heights and balance\<close>

fun inorder :: "'v itree \<Rightarrow> 'v list" where
  "inorder Terminator = []"
| "inorder (INode l r v h) = inorder l @ v # inorder r"

text \<open>Heights are right, and the two sides of a node differ by at most two.\<close>

fun avl :: "'v itree \<Rightarrow> bool" where
  "avl Terminator = True"
| "avl (INode l r v h) \<longleftrightarrow> h = max (height l) (height r) + 1
     \<and> height l \<le> height r + 2 \<and> height r \<le> height l + 2 \<and> avl l \<and> avl r"

lemma height_new_Node [simp]: "height (new_Node l r v) = max (height l) (height r) + 1"
  by (simp add: new_Node_def)

lemma inorder_new_Node [simp]: "inorder (new_Node l r v) = inorder l @ v # inorder r"
  by (simp add: new_Node_def)

lemma avl_new_Node [simp]:
  "avl (new_Node l r v) \<longleftrightarrow> height l \<le> height r + 2 \<and> height r \<le> height l + 2 \<and> avl l \<and> avl r"
  by (simp add: new_Node_def)

lemma balance_inorder [simp]: "inorder (balance l v r) = inorder l @ v # inorder r"
  by (auto simp: balance_def split: itree.split)

text \<open>
  \<open>balance\<close> repairs a difference of three, and gives a tree that is as high as a plain node
  or one less.
\<close>

definition balanced :: "nat \<Rightarrow> nat \<Rightarrow> 'v itree \<Rightarrow> bool" where
  "balanced hl hr t \<longleftrightarrow> avl t \<and> height t \<le> max hl hr + 1 \<and> max hl hr \<le> height t
     \<and> (hl \<le> hr + 2 \<longrightarrow> hr \<le> hl + 2 \<longrightarrow> height t = max hl hr + 1)"

lemma balance_left_high:
  assumes "avl l" "avl r" "height l = height r + 3"
  shows "balanced (height l) (height r) (balance l v r)"
proof (cases l)
  case (INode ll lr lv lh)
  show ?thesis
  proof (cases "height ll \<ge> height lr")
    case True
    with assms INode show ?thesis
      by (simp add: balance_def balanced_def, (elim conjE, intro conjI)?; linarith?)
  next
    case False
    with assms INode obtain lrl lrr lrv lrh where "lr = INode lrl lrr lrv lrh" by (cases lr) auto
    with assms INode False show ?thesis
      by (simp add: balance_def balanced_def, (elim conjE, intro conjI)?; linarith?)
  qed
qed (use assms in simp)

lemma balance_right_high:
  assumes "avl l" "avl r" "height r = height l + 3"
  shows "balanced (height l) (height r) (balance l v r)"
proof (cases r)
  case (INode rl rr rv rh)
  show ?thesis
  proof (cases "height rr \<ge> height rl")
    case True
    with assms INode show ?thesis
      by (simp add: balance_def balanced_def, (elim conjE, intro conjI)?; linarith?)
  next
    case False
    with assms INode obtain rll rlr rlv rlh where "rl = INode rll rlr rlv rlh" by (cases rl) auto
    with assms INode False show ?thesis
      by (simp add: balance_def balanced_def, (elim conjE, intro conjI)?; linarith?)
  qed
qed (use assms in simp)

lemma balance_avl:
  assumes "avl l" "avl r" "height l \<le> height r + 3" "height r \<le> height l + 3"
  shows "balanced (height l) (height r) (balance l v r)"
proof -
  consider "height l = height r + 3" | "height r = height l + 3"
    | "height l \<le> height r + 2" "height r \<le> height l + 2" using assms(3,4) by linarith
  then show ?thesis
  proof cases
    case 1
    then show ?thesis by (rule balance_left_high[OF assms(1,2)])
  next
    case 2
    then show ?thesis by (rule balance_right_high[OF assms(1,2)])
  next
    case 3
    with assms(1,2) show ?thesis
      by (simp add: balance_def balanced_def, intro conjI; linarith)
  qed
qed

lemma balancedD:
  assumes "balanced hl hr t"
  shows "avl t" "height t \<le> max hl hr + 1" "max hl hr \<le> height t"
    "hl \<le> hr + 2 \<Longrightarrow> hr \<le> hl + 2 \<Longrightarrow> height t = max hl hr + 1"
  using assms by (simp_all add: balanced_def)

text \<open>Each operation changes the height by at most one, so \<open>balance\<close> can repair it.\<close>

lemma balance_left_changed:
  assumes "avl l'" "avl (INode l r v h)" "height l' \<le> height l + 1" "height l \<le> height l' + 1"
  shows "avl (balance l' v r)" "height (balance l' v r) \<le> h + 1" "h \<le> height (balance l' v r) + 1"
proof -
  from assms have b: "balanced (height l') (height r) (balance l' v r)"
    by (intro balance_avl) auto
  note d = balancedD[OF b]
  show "avl (balance l' v r)" by (rule d(1))
  have h: "h = max (height l) (height r) + 1" "height l \<le> height r + 2" "height r \<le> height l + 2"
    using assms(2) by auto
  show "height (balance l' v r) \<le> h + 1" using d(2) h assms(3) by linarith
  show "h \<le> height (balance l' v r) + 1"
    using d(3,4) h assms(3,4) by (cases "height l' \<le> height r + 2 \<and> height r \<le> height l' + 2") linarith+
qed

lemma balance_right_changed:
  assumes "avl r'" "avl (INode l r v h)" "height r' \<le> height r + 1" "height r \<le> height r' + 1"
  shows "avl (balance l v r')" "height (balance l v r') \<le> h + 1" "h \<le> height (balance l v r') + 1"
proof -
  from assms have b: "balanced (height l) (height r') (balance l v r')"
    by (intro balance_avl) auto
  note d = balancedD[OF b]
  show "avl (balance l v r')" by (rule d(1))
  have h: "h = max (height l) (height r) + 1" "height l \<le> height r + 2" "height r \<le> height l + 2"
    using assms(2) by auto
  show "height (balance l v r') \<le> h + 1" using d(2) h assms(3) by linarith
  show "h \<le> height (balance l v r') + 1"
    using d(3,4) h assms(3,4) by (cases "height l \<le> height r' + 2 \<and> height r' \<le> height l + 2") linarith+
qed

text \<open>The height grows by at most one on insertion and shrinks by at most one on removal.\<close>

lemma balance_left_grown:
  assumes "avl l'" "avl (INode l r v h)" "height l \<le> height l'" "height l' \<le> height l + 1"
  shows "h \<le> height (balance l' v r)"
proof -
  from assms have b: "balanced (height l') (height r) (balance l' v r)"
    by (intro balance_avl) auto
  note d = balancedD[OF b]
  have h: "h = max (height l) (height r) + 1" "height l \<le> height r + 2" "height r \<le> height l + 2"
    using assms(2) by auto
  show ?thesis
    using d(3,4) h assms(3,4) by (cases "height l' \<le> height r + 2 \<and> height r \<le> height l' + 2") linarith+
qed

lemma balance_right_grown:
  assumes "avl r'" "avl (INode l r v h)" "height r \<le> height r'" "height r' \<le> height r + 1"
  shows "h \<le> height (balance l v r')"
proof -
  from assms have b: "balanced (height l) (height r') (balance l v r')"
    by (intro balance_avl) auto
  note d = balancedD[OF b]
  have h: "h = max (height l) (height r) + 1" "height l \<le> height r + 2" "height r \<le> height l + 2"
    using assms(2) by auto
  show ?thesis
    using d(3,4) h assms(3,4) by (cases "height l \<le> height r' + 2 \<and> height r' \<le> height l + 2") linarith+
qed

lemma balance_left_shrunk:
  assumes "avl l'" "avl (INode l r v h)" "height l' \<le> height l" "height l \<le> height l' + 1"
  shows "height (balance l' v r) \<le> h"
proof -
  from assms have b: "balanced (height l') (height r) (balance l' v r)"
    by (intro balance_avl) auto
  show ?thesis using balancedD(2)[OF b] assms by simp
qed

lemma balance_right_shrunk:
  assumes "avl r'" "avl (INode l r v h)" "height r' \<le> height r" "height r \<le> height r' + 1"
  shows "height (balance l v r') \<le> h"
proof -
  from assms have b: "balanced (height l) (height r') (balance l v r')"
    by (intro balance_avl) auto
  show ?thesis using balancedD(2)[OF b] assms by simp
qed

lemma tree_insert_avl:
  "avl t \<Longrightarrow> avl (tree_insert kov v t) \<and> height t \<le> height (tree_insert kov v t)
    \<and> height (tree_insert kov v t) \<le> height t + 1"
proof (induction t)
  case (INode l r x h)
  then have IH: "avl (tree_insert kov v l)" "height l \<le> height (tree_insert kov v l)"
    "height (tree_insert kov v l) \<le> height l + 1" "avl (tree_insert kov v r)"
    "height r \<le> height (tree_insert kov v r)" "height (tree_insert kov v r) \<le> height r + 1" by auto
  have "height l \<le> height (tree_insert kov v l) + 1" "height r \<le> height (tree_insert kov v r) + 1"
    using IH by auto
  note L = balance_left_changed[OF IH(1) INode.prems IH(3) this(1)]
    balance_left_grown[OF IH(1) INode.prems IH(2,3)]
    and R = balance_right_changed[OF IH(4) INode.prems IH(6) this(2)]
    balance_right_grown[OF IH(4) INode.prems IH(5,6)]
  show ?case using L R INode.prems by (auto intro: le_SucI)
qed simp

lemma tree_replace_avl:
  "avl t \<Longrightarrow> avl (tree_replace kov v t) \<and> height t \<le> height (tree_replace kov v t)
    \<and> height (tree_replace kov v t) \<le> height t + 1"
proof (induction t)
  case (INode l r x h)
  then have IH: "avl (tree_replace kov v l)" "height l \<le> height (tree_replace kov v l)"
    "height (tree_replace kov v l) \<le> height l + 1" "avl (tree_replace kov v r)"
    "height r \<le> height (tree_replace kov v r)" "height (tree_replace kov v r) \<le> height r + 1" by auto
  have "height l \<le> height (tree_replace kov v l) + 1" "height r \<le> height (tree_replace kov v r) + 1"
    using IH by auto
  note L = balance_left_changed[OF IH(1) INode.prems IH(3) this(1)]
    balance_left_grown[OF IH(1) INode.prems IH(2,3)]
    and R = balance_right_changed[OF IH(4) INode.prems IH(6) this(2)]
    balance_right_grown[OF IH(4) INode.prems IH(5,6)]
  show ?case using L R INode.prems by (auto intro: le_SucI)
qed simp

lemma popMin_avl:
  "avl (INode l r v h) \<Longrightarrow> popMin l r v = (m, t) \<Longrightarrow> avl t \<and> height t \<le> h \<and> h \<le> height t + 1"
proof (induction l r v arbitrary: h m t rule: popMin.induct)
  case (2 ll lr lv lh r v)
  obtain m' l' where l': "popMin ll lr lv = (m', l')" by (cases "popMin ll lr lv")
  with "2.prems"(2) have t: "t = balance l' v r" by simp
  from "2.prems"(1) have "avl (INode ll lr lv lh)" by simp
  note IH = "2.IH"[OF this l']
  then have l'h: "avl l'" "height l' \<le> height (INode ll lr lv lh)" "height (INode ll lr lv lh) \<le> height l' + 1"
    by auto
  then have "height l' \<le> height (INode ll lr lv lh) + 1" by simp
  from balance_left_changed[OF l'h(1) "2.prems"(1) this l'h(3)]
    balance_left_shrunk[OF l'h(1) "2.prems"(1) l'h(2,3)] t
  show ?case by simp
qed auto

lemma popMax_avl:
  "avl (INode l r v h) \<Longrightarrow> popMax l r v = (m, t) \<Longrightarrow> avl t \<and> height t \<le> h \<and> h \<le> height t + 1"
proof (induction l r v arbitrary: h m t rule: popMax.induct)
  case (2 l rl rr rv rh v)
  obtain m' r' where r': "popMax rl rr rv = (m', r')" by (cases "popMax rl rr rv")
  with "2.prems"(2) have t: "t = balance l v r'" by simp
  from "2.prems"(1) have "avl (INode rl rr rv rh)" by simp
  note IH = "2.IH"[OF this r']
  then have r'h: "avl r'" "height r' \<le> height (INode rl rr rv rh)" "height (INode rl rr rv rh) \<le> height r' + 1"
    by auto
  then have "height r' \<le> height (INode rl rr rv rh) + 1" by simp
  from balance_right_changed[OF r'h(1) "2.prems"(1) this r'h(3)]
    balance_right_shrunk[OF r'h(1) "2.prems"(1) r'h(2,3)] t
  show ?case by simp
qed auto

lemma tree_remove_avl:
  "avl t \<Longrightarrow> avl (tree_remove kov k t) \<and> height (tree_remove kov k t) \<le> height t
    \<and> height t \<le> height (tree_remove kov k t) + 1"
proof (induction t)
  case (INode l r x h)
  then have IH: "avl (tree_remove kov k l)" "height (tree_remove kov k l) \<le> height l"
    "height l \<le> height (tree_remove kov k l) + 1" "avl (tree_remove kov k r)"
    "height (tree_remove kov k r) \<le> height r" "height r \<le> height (tree_remove kov k r) + 1" by auto
  have "height (tree_remove kov k l) \<le> height l + 1" "height (tree_remove kov k r) \<le> height r + 1"
    using IH by auto
  note L = balance_left_changed[OF IH(1) INode.prems this(1) IH(3)]
    balance_left_shrunk[OF IH(1) INode.prems IH(2,3)]
    and R = balance_right_changed[OF IH(4) INode.prems this(2) IH(6)]
    balance_right_shrunk[OF IH(4) INode.prems IH(5,6)]
  show ?case
  proof (cases "k < kov x \<or> kov x < k")
    case True
    with L R show ?thesis by auto
  next
    case False
    show ?thesis
    proof (cases "l = Terminator \<or> r = Terminator")
      case True
      with False INode.prems show ?thesis by (auto split: itree.split)
    next
      case neq: False
      then obtain rl rr rv rh where r: "r = INode rl rr rv rh" by (cases r) auto
      obtain m nr where nr: "popMin rl rr rv = (m, nr)" by (cases "popMin rl rr rv")
      from INode.prems r have "avl (INode rl rr rv rh)" by simp
      from popMin_avl[OF this nr] r have h: "avl nr" "height nr \<le> height r" "height r \<le> height nr + 1"
        by auto
      then have "height nr \<le> height r + 1" by simp
      from balance_right_changed[OF h(1) _ this h(3), of l m h]
        balance_right_shrunk[OF h(1) _ h(2,3), of l m h] INode.prems
      show ?thesis using False neq r nr by (auto split: itree.split)
    qed
  qed
qed simp

section \<open>The operations on the sorted list of values\<close>

abbreviation ordered :: "('v \<Rightarrow> 'k::linorder) \<Rightarrow> 'v list \<Rightarrow> bool" where
  "ordered kov xs \<equiv> sorted_wrt (\<lambda>a b. kov a < kov b) xs"

definition list_replace :: "('v \<Rightarrow> 'k::linorder) \<Rightarrow> 'v \<Rightarrow> 'v list \<Rightarrow> 'v list" where
  "list_replace kov v xs = filter (\<lambda>x. kov x < kov v) xs @ v # filter (\<lambda>x. kov v < kov x) xs"

definition list_insert :: "('v \<Rightarrow> 'k::linorder) \<Rightarrow> 'v \<Rightarrow> 'v list \<Rightarrow> 'v list" where
  "list_insert kov v xs =
     (if kov v \<in> kov ` set xs then xs else list_replace kov v xs)"

lemma filter_all: "\<forall>x \<in> set xs. P x \<Longrightarrow> filter P xs = xs"
  by (simp add: filter_id_conv)

lemma filter_none: "\<forall>x \<in> set xs. \<not> P x \<Longrightarrow> filter P xs = []"
  by (simp add: filter_empty_conv)

lemma inorder_replace:
  "ordered kov (inorder t) \<Longrightarrow> inorder (tree_replace kov v t) = list_replace kov v (inorder t)"
proof (induction t)
  case (INode l r x h)
  from INode.prems have o: "ordered kov (inorder l)" "ordered kov (inorder r)"
    "\<forall>y \<in> set (inorder l). kov y < kov x" "\<forall>y \<in> set (inorder r). kov x < kov y"
    by (auto simp: sorted_wrt_append)
  consider "kov v < kov x" | "kov x < kov v" | "kov v = kov x" by (metis linorder_neqE)
  then show ?case
  proof cases
    case 1
    with o(4) have "\<forall>y \<in> set (inorder r). kov v < kov y" "\<forall>y \<in> set (inorder r). \<not> kov y < kov v"
      by (auto dest: less_trans)
    with 1 INode.IH(1)[OF o(1)] show ?thesis
      by (simp add: list_replace_def filter_all filter_none)
  next
    case 2
    with o(3) have "\<forall>y \<in> set (inorder l). kov y < kov v" "\<forall>y \<in> set (inorder l). \<not> kov v < kov y"
      by (auto dest: less_trans)
    with 2 INode.IH(2)[OF o(2)] show ?thesis
      by (simp add: list_replace_def filter_all filter_none)
  next
    case 3
    with o(3,4) have "\<forall>y \<in> set (inorder l). kov y < kov v" "\<forall>y \<in> set (inorder l). \<not> kov v < kov y"
      "\<forall>y \<in> set (inorder r). kov v < kov y" "\<forall>y \<in> set (inorder r). \<not> kov y < kov v"
      by (auto dest: less_trans)
    with 3 show ?thesis
      by (simp add: list_replace_def filter_all filter_none)
  qed
qed (simp add: list_replace_def)

lemma inorder_insert:
  "ordered kov (inorder t) \<Longrightarrow> inorder (tree_insert kov v t) = list_insert kov v (inorder t)"
proof (induction t)
  case (INode l r x h)
  from INode.prems have o: "ordered kov (inorder l)" "ordered kov (inorder r)"
    "\<forall>y \<in> set (inorder l). kov y < kov x" "\<forall>y \<in> set (inorder r). kov x < kov y"
    by (auto simp: sorted_wrt_append)
  consider "kov v < kov x" | "kov x < kov v" | "kov v = kov x" by (metis linorder_neqE)
  then show ?case
  proof cases
    case 1
    with o(4) have b: "\<forall>y \<in> set (inorder r). kov v < kov y" "\<forall>y \<in> set (inorder r). \<not> kov y < kov v"
      by (auto dest: less_trans)
    then have "kov v \<in> kov ` set (inorder (INode l r x h)) \<longleftrightarrow> kov v \<in> kov ` set (inorder l)"
      using 1 by force
    with 1 b INode.IH(1)[OF o(1)] show ?thesis
      by (simp add: list_insert_def list_replace_def filter_all filter_none)
  next
    case 2
    with o(3) have b: "\<forall>y \<in> set (inorder l). kov y < kov v" "\<forall>y \<in> set (inorder l). \<not> kov v < kov y"
      by (auto dest: less_trans)
    then have "kov v \<in> kov ` set (inorder (INode l r x h)) \<longleftrightarrow> kov v \<in> kov ` set (inorder r)"
      using 2 by force
    with 2 b less_not_sym[OF 2] INode.IH(2)[OF o(2)] show ?thesis
      by (simp add: list_insert_def list_replace_def filter_all filter_none)
  next
    case 3
    then show ?thesis by (simp add: list_insert_def)
  qed
qed (simp add: list_insert_def list_replace_def)

lemma popMin_inorder: "popMin l r v = (m, t) \<Longrightarrow> m # inorder t = inorder l @ v # inorder r"
  by (induction l r v arbitrary: m t rule: popMin.induct) (auto split: prod.splits)

lemma popMax_inorder: "popMax l r v = (m, t) \<Longrightarrow> inorder t @ [m] = inorder l @ v # inorder r"
  by (induction l r v arbitrary: m t rule: popMax.induct) (auto split: prod.splits)

lemma inorder_remove:
  "ordered kov (inorder t) \<Longrightarrow> inorder (tree_remove kov k t) = filter (\<lambda>v. kov v \<noteq> k) (inorder t)"
proof (induction t)
  case (INode l r x h)
  from INode.prems have o: "ordered kov (inorder l)" "ordered kov (inorder r)"
    "\<forall>y \<in> set (inorder l). kov y < kov x" "\<forall>y \<in> set (inorder r). kov x < kov y"
    by (auto simp: sorted_wrt_append)
  consider "k < kov x" | "kov x < k" | "k = kov x" by (metis linorder_neqE)
  then show ?case
  proof cases
    case 1
    with o(4) have "\<forall>y \<in> set (inorder r). kov y \<noteq> k" by (auto dest: less_trans)
    with 1 INode.IH(1)[OF o(1)] show ?thesis by (simp add: filter_all)
  next
    case 2
    with o(3) have "\<forall>y \<in> set (inorder l). kov y \<noteq> k" by (auto dest: less_trans)
    moreover from 2 have "\<not> k < kov x" "kov x \<noteq> k" by auto
    ultimately show ?thesis using 2 INode.IH(2)[OF o(2)] by (simp add: filter_all)
  next
    case 3
    with o(3,4) have "\<forall>y \<in> set (inorder l). kov y \<noteq> k" "\<forall>y \<in> set (inorder r). kov y \<noteq> k" by auto
    then have f: "filter (\<lambda>v. kov v \<noteq> k) (inorder (INode l r x h)) = inorder l @ inorder r"
      using 3 by (simp add: filter_all)
    show ?thesis
    proof (cases "l = Terminator \<or> r = Terminator")
      case True
      with 3 f show ?thesis by (auto split: itree.split)
    next
      case False
      then obtain rl rr rv rh where r: "r = INode rl rr rv rh" by (cases r) auto
      obtain m nr where nr: "popMin rl rr rv = (m, nr)" by (cases "popMin rl rr rv")
      from popMin_inorder[OF this] r have "m # inorder nr = inorder r" by simp
      with False 3 f r nr show ?thesis by (auto split: itree.split)
    qed
  qed
qed simp

lemma tree_lookup_inorder:
  "ordered kov (inorder t) \<Longrightarrow> tree_lookup kov k t = find (\<lambda>v. kov v = k) (inorder t)"
proof (induction t)
  case (INode l r x h)
  from INode.prems have o: "ordered kov (inorder l)" "ordered kov (inorder r)"
    "\<forall>y \<in> set (inorder l). kov y < kov x" "\<forall>y \<in> set (inorder r). kov x < kov y"
    by (auto simp: sorted_wrt_append)
  have no: "find P xs = None" if "\<forall>y \<in> set xs. \<not> P y" for P and xs :: "'a list"
    using that by (induction xs) auto
  have app: "find P (xs @ ys) = (case find P xs of None \<Rightarrow> find P ys | Some z \<Rightarrow> Some z)"
    for P and xs ys :: "'a list" by (induction xs) auto
  consider "k < kov x" | "kov x < k" | "k = kov x" by (metis linorder_neqE)
  then show ?case
  proof cases
    case 1
    with o(4) have "find (\<lambda>v. kov v = k) (inorder r) = None" by (intro no) (auto dest: less_trans)
    with 1 INode.IH(1)[OF o(1)] show ?thesis by (auto simp: app split: option.split)
  next
    case 2
    with o(3) have "find (\<lambda>v. kov v = k) (inorder l) = None" by (intro no) (auto dest: less_trans)
    with 2 INode.IH(2)[OF o(2)] show ?thesis by (auto simp: app)
  next
    case 3
    with o(3) have "find (\<lambda>v. kov v = k) (inorder l) = None" by (intro no) auto
    with 3 show ?thesis by (simp add: app)
  qed
qed simp

lemma ordered_replace: "ordered kov xs \<Longrightarrow> ordered kov (list_replace kov v xs)"
  by (auto simp: list_replace_def sorted_wrt_append sorted_wrt_filter dest: less_trans)

lemma ordered_insert: "ordered kov xs \<Longrightarrow> ordered kov (list_insert kov v xs)"
  by (simp add: list_insert_def ordered_replace)

lemma find_Some_ordered:
  "ordered kov xs \<Longrightarrow> find (\<lambda>v. kov v = k) xs = Some x \<longleftrightarrow> x \<in> set xs \<and> kov x = k"
  by (induction xs) auto

lemma find_option_eqI: "(\<And>x. a = Some x \<longleftrightarrow> b = Some x) \<Longrightarrow> a = b"
  by (metis not_Some_eq)

text \<open>The map laws.\<close>

lemma lookup_replace:
  assumes "ordered kov (inorder t)"
  shows "tree_lookup kov k (tree_replace kov v t) = (if k = kov v then Some v else tree_lookup kov k t)"
proof (rule find_option_eqI)
  fix x
  have "tree_lookup kov k (tree_replace kov v t) = Some x \<longleftrightarrow> x \<in> set (list_replace kov v (inorder t)) \<and> kov x = k"
    using assms by (simp add: tree_lookup_inorder inorder_replace ordered_replace find_Some_ordered)
  moreover have "tree_lookup kov k t = Some x \<longleftrightarrow> x \<in> set (inorder t) \<and> kov x = k"
    using assms by (simp add: tree_lookup_inorder find_Some_ordered)
  ultimately show "tree_lookup kov k (tree_replace kov v t) = Some x
      \<longleftrightarrow> (if k = kov v then Some v else tree_lookup kov k t) = Some x"
    by (auto simp: list_replace_def)
qed

lemma lookup_insert:
  assumes "ordered kov (inorder t)"
  shows "tree_lookup kov k (tree_insert kov v t)
    = (if k = kov v \<and> tree_lookup kov k t = None then Some v else tree_lookup kov k t)"
proof (rule find_option_eqI)
  fix x
  have "tree_lookup kov k (tree_insert kov v t) = Some x \<longleftrightarrow> x \<in> set (list_insert kov v (inorder t)) \<and> kov x = k"
    using assms by (simp add: tree_lookup_inorder inorder_insert ordered_insert find_Some_ordered)
  moreover have l: "tree_lookup kov k t = Some x \<longleftrightarrow> x \<in> set (inorder t) \<and> kov x = k" for x
    using assms by (simp add: tree_lookup_inorder find_Some_ordered)
  moreover have "tree_lookup kov k t = None \<longleftrightarrow> k \<notin> kov ` set (inorder t)"
    using assms by (auto simp: tree_lookup_inorder find_None_iff)
  ultimately show "tree_lookup kov k (tree_insert kov v t) = Some x
      \<longleftrightarrow> (if k = kov v \<and> tree_lookup kov k t = None then Some v else tree_lookup kov k t) = Some x"
    by (auto simp: list_insert_def list_replace_def)
qed

lemma lookup_remove:
  assumes "ordered kov (inorder t)"
  shows "tree_lookup kov k (tree_remove kov k' t) = (if k = k' then None else tree_lookup kov k t)"
proof (rule find_option_eqI)
  fix x
  have "tree_lookup kov k (tree_remove kov k' t) = Some x
      \<longleftrightarrow> x \<in> set (filter (\<lambda>v. kov v \<noteq> k') (inorder t)) \<and> kov x = k"
    using assms by (simp add: tree_lookup_inorder inorder_remove sorted_wrt_filter find_Some_ordered)
  moreover have "tree_lookup kov k t = Some x \<longleftrightarrow> x \<in> set (inorder t) \<and> kov x = k"
    using assms by (simp add: tree_lookup_inorder find_Some_ordered)
  ultimately show "tree_lookup kov k (tree_remove kov k' t) = Some x
      \<longleftrightarrow> (if k = k' then None else tree_lookup kov k t) = Some x"
    by auto
qed

text \<open>\<open>lookup_previous\<close>: the last value whose key is at most the argument.\<close>


lemma lookup_previous_from_ok:
  "ordered kov (inorder t) \<Longrightarrow> lookup_previous_from kov k res t
    = (let xs = filter (\<lambda>v. kov v \<le> k) (inorder t) in if xs = [] then res else Some (last xs))"
proof (induction t arbitrary: res)
  case (INode l r x h)
  from INode.prems have o: "ordered kov (inorder l)" "ordered kov (inorder r)"
    "\<forall>y \<in> set (inorder l). kov y < kov x" "\<forall>y \<in> set (inorder r). kov x < kov y"
    by (auto simp: sorted_wrt_append)
  consider "k < kov x" | "kov x < k" | "k = kov x" by (metis linorder_neqE)
  then show ?case
  proof cases
    case 1
    with o(4) have "filter (\<lambda>v. kov v \<le> k) (inorder r) = []"
      by (intro filter_none) (auto dest: less_trans simp: not_le)
    moreover from 1 have "\<not> kov x \<le> k" by simp
    ultimately show ?thesis using 1 INode.IH(1)[OF o(1)] by (simp add: Let_def)
  next
    case 2
    with INode.IH(2)[OF o(2)] show ?thesis by (auto simp: Let_def)
  next
    case 3
    with o(4) have "filter (\<lambda>v. kov v \<le> k) (inorder r) = []"
      by (intro filter_none) (auto simp: not_le)
    with 3 show ?thesis by (simp add: Let_def)
  qed
qed simp

lemma lookup_previous_ok:
  assumes "ordered kov (inorder t)"
  shows "lookup_previous kov k t = (let xs = filter (\<lambda>v. kov v \<le> k) (inorder t) in
      if xs = [] then None else Some (last xs))"
  using lookup_previous_from_ok[OF assms] by (simp add: lookup_previous_def)

section \<open>Iterators\<close>

text \<open>
  \<open>wf_path\<close>: a stack is a path of nodes up to the root. \<open>it_rest\<close>: the values from the
  current one to the end.
\<close>

fun child_of :: "'v itree \<Rightarrow> 'v itree \<Rightarrow> 'v iterator \<Rightarrow> bool" where
  "child_of root t [] \<longleftrightarrow> t = root"
| "child_of root t (p # st) \<longleftrightarrow> t = it_left p \<or> t = it_right p"

fun wf_path :: "'v itree \<Rightarrow> 'v iterator \<Rightarrow> bool" where
  "wf_path root [] = True"
| "wf_path root (n # st) \<longleftrightarrow> \<not> isTerminator n \<and> child_of root n st \<and> wf_path root st"

fun up_rest :: "'v itree \<Rightarrow> 'v iterator \<Rightarrow> 'v list" where
  "up_rest t [] = []"
| "up_rest t (n # st) =
     (if t = it_left n then it_value n # inorder (it_right n) @ up_rest n st else up_rest n st)"

fun it_rest :: "'v iterator \<Rightarrow> 'v list" where
  "it_rest [] = []"
| "it_rest (n # st) = it_value n # inorder (it_right n) @ up_rest n st"

lemma inorder_node: "\<not> isTerminator n \<Longrightarrow> inorder n = inorder (it_left n) @ it_value n # inorder (it_right n)"
  by (cases n) auto

lemma push_left_rest: "it_rest (push_left t st) = (if isTerminator t then it_rest st else inorder t @ up_rest t st)"
  by (induction t st rule: push_left.induct) (auto, (case_tac l; auto)+)

lemma up_left_rest: "it_rest (up_left n st) = up_rest n st"
  by (induction n st rule: up_left.induct) auto

lemma push_left_path: "wf_path root st \<Longrightarrow> child_of root t st \<Longrightarrow> wf_path root (push_left t st)"
  by (induction t st rule: push_left.induct) auto

lemma push_right_path: "wf_path root st \<Longrightarrow> child_of root t st \<Longrightarrow> wf_path root (push_right t st)"
  by (induction t st rule: push_right.induct) auto

lemma up_left_path: "wf_path root st \<Longrightarrow> wf_path root (up_left n st)"
  by (induction n st rule: up_left.induct) auto

lemma up_right_path: "wf_path root st \<Longrightarrow> wf_path root (up_right n st)"
  by (induction n st rule: up_right.induct) auto

lemma path_distinct:
  "wf_path root (n # st) \<Longrightarrow> distinct (inorder root) \<Longrightarrow> distinct (inorder n)"
proof (induction st arbitrary: n)
  case (Cons p st)
  then have "distinct (inorder p)" by auto
  with Cons.prems(1) show ?case by (auto simp: inorder_node)
qed simp

lemma sides_differ:
  assumes "\<not> isTerminator n" "distinct (inorder n)" "\<not> isTerminator (it_left n) \<or> \<not> isTerminator (it_right n)"
  shows "it_left n \<noteq> it_right n"
proof
  assume eq: "it_left n = it_right n"
  with assms(3) have "\<not> isTerminator (it_left n)" by simp
  with inorder_node[OF assms(1)] inorder_node[of "it_left n"] assms(2) eq show False by auto
qed

lemma it_begin_path: "wf_path root (it_begin root)"
  by (simp add: it_begin_def push_left_path)

lemma it_begin_rest: "it_rest (it_begin root) = inorder root"
  by (cases root) (simp_all add: it_begin_def push_left_rest del: push_left.simps(2))

lemma it_next_ok:
  assumes "wf_path root (n # st)" "distinct (inorder root)"
  shows "\<exists>st'. it_next (n # st) = Inr st' \<and> wf_path root st' \<and> it_rest (n # st) = it_value n # it_rest st'"
proof (cases "isTerminator (it_right n)")
  case True
  then have "inorder (it_right n) = []" by (cases "it_right n") auto
  with True assms(1) show ?thesis by (auto simp: up_left_path up_left_rest)
next
  case False
  with assms(1) sides_differ[OF _ path_distinct[OF assms]] have "it_right n \<noteq> it_left n" by auto
  with False assms(1) show ?thesis by (auto simp: push_left_path push_left_rest)
qed

text \<open>The \<open>for\<close> loop over a tree visits the values in order.\<close>

fun traverse :: "nat \<Rightarrow> 'v iterator \<Rightarrow> 'v list result" where
  "traverse n [] = Inr []"
| "traverse 0 (t # st) = Inl OutOfFuel"
| "traverse (Suc n) (t # st) =
     bind_res (it_next (t # st)) (\<lambda>st'. map_res (\<lambda>vs. it_value t # vs) (traverse n st'))"

lemma traverse_ok:
  "wf_path root st \<Longrightarrow> distinct (inorder root) \<Longrightarrow> length (it_rest st) \<le> n \<Longrightarrow> traverse n st = Inr (it_rest st)"
proof (induction n st rule: traverse.induct)
  case (3 n t st)
  from it_next_ok[OF "3.prems"(1,2)] obtain st' where st': "it_next (t # st) = Inr st'" "wf_path root st'"
    "it_rest (t # st) = it_value t # it_rest st'" by blast
  with "3.IH"[OF st'(1,2) "3.prems"(2)] "3.prems"(3) show ?case by (simp del: it_next.simps it_rest.simps)
qed auto

lemma length_inorder: "length (inorder t) = tree_size t"
  by (induction t) auto

lemma push_right_rest:
  "distinct (inorder t) \<Longrightarrow> \<not> isTerminator t \<Longrightarrow> it_rest (push_right t st) = last (inorder t) # up_rest t st"
proof (induction t st rule: push_right.induct)
  case (2 l r x h st)
  show ?case
  proof (cases "isTerminator r")
    case True
    then show ?thesis by (cases r) auto
  next
    case False
    with sides_differ[of "INode l r x h"] "2.prems" have "r \<noteq> l" by auto
    with 2 False inorder_node[OF False] show ?thesis by auto
  qed
qed simp

lemma up_right_rest:
  "wf_path root (n # st) \<Longrightarrow> distinct (inorder root) \<Longrightarrow> up_right n st \<noteq> []
    \<Longrightarrow> it_rest (up_right n st) = it_value (hd (up_right n st)) # inorder n @ up_rest n st"
proof (induction n st rule: up_right.induct)
  case (2 prev n st)
  have n: "\<not> isTerminator n" "\<not> isTerminator prev" "distinct (inorder n)"
    "prev = it_left n \<or> prev = it_right n"
    using "2.prems"(1) path_distinct[OF _ "2.prems"(2), of n st] by auto
  then have ne: "it_left n \<noteq> it_right n" using sides_differ[OF n(1,3)] by auto
  show ?case
  proof (cases "prev = it_right n")
    case True
    with ne show ?thesis by auto
  next
    case False
    with n have "prev = it_left n" by simp
    with False 2 inorder_node[OF n(1)] show ?thesis by auto
  qed
qed simp

text \<open>Stepping back, unless from the first value: one more value to come.\<close>

lemma it_prev_ok:
  assumes "wf_path root st" "distinct (inorder root)"
  shows "wf_path root (it_prev root st)"
    "it_prev root st \<noteq> [] \<Longrightarrow> it_rest (it_prev root st) = it_value (hd (it_prev root st)) # it_rest st"
proof -
  have "wf_path root (it_prev root st) \<and> (it_prev root st \<noteq> [] \<longrightarrow>
    it_rest (it_prev root st) = it_value (hd (it_prev root st)) # it_rest st)"
  proof (cases st)
    case Nil
    show ?thesis
    proof (cases "isTerminator root")
      case True
      with Nil show ?thesis by (cases root) auto
    next
      case False
      have p: "wf_path root (push_right root [])" by (simp add: push_right_path)
      from push_right_rest[OF assms(2) False, of "[]"] p Nil show ?thesis
        by (cases "push_right root []") auto
    qed
  next
    case (Cons n st')
    with assms have n: "\<not> isTerminator n" "distinct (inorder n)" "wf_path root st'"
      using path_distinct[of root n st'] by auto
    show ?thesis
    proof (cases "isTerminator (it_left n)")
      case True
      then have "inorder n = it_value n # inorder (it_right n)"
        using inorder_node[OF n(1)] by (cases "it_left n") auto
      with up_right_rest[of root n st'] assms Cons True n(3) show ?thesis
        by (auto simp: up_right_path)
    next
      case False
      have d: "distinct (inorder (it_left n))" using n(2) inorder_node[OF n(1)] by simp
      have p: "wf_path root (push_right (it_left n) (n # st'))"
        using assms(1) Cons by (intro push_right_path) auto
      from push_right_rest[OF d False, of "n # st'"] p Cons False show ?thesis
        by (cases "push_right (it_left n) (n # st')") auto
    qed
  qed
  then show "wf_path root (it_prev root st)"
    "it_prev root st \<noteq> [] \<Longrightarrow> it_rest (it_prev root st) = it_value (hd (it_prev root st)) # it_rest st"
    by auto
qed

text \<open>The stack never outgrows the room for \<open>root->height\<close> nodes it is created with.\<close>

lemma child_height: "avl p \<Longrightarrow> \<not> isTerminator p \<Longrightarrow> t = it_left p \<or> t = it_right p
    \<Longrightarrow> height t < height p \<and> avl t"
  by (cases p) auto

lemma path_bound:
  "wf_path root (n # st) \<Longrightarrow> avl root \<Longrightarrow> length st + height n \<le> height root \<and> avl n \<and> 0 < height n"
proof (induction st arbitrary: n)
  case (Cons p st)
  then have "length st + height p \<le> height root" "avl p" by auto
  with child_height[of p n] Cons.prems(1) show ?case by (cases n) auto
next
  case Nil
  then show ?case by (cases n) auto
qed

lemma path_length: "wf_path root st \<Longrightarrow> avl root \<Longrightarrow> length st \<le> height root"
  using path_bound[of root] by (cases st) fastforce+

section \<open>Bounds\<close>

lemma lower_bound_path_ok:
  "ordered kov (inorder t) \<Longrightarrow> wf_path root st \<Longrightarrow> child_of root t st \<Longrightarrow> \<not> isTerminator t \<Longrightarrow>
    (\<exists>n st'. lower_bound_path kov k t st = n # st' \<and> wf_path root (n # st')
      \<and> (if kov (it_value n) < k then tl (it_rest (n # st')) else it_rest (n # st'))
         = filter (\<lambda>v. k \<le> kov v) (inorder t) @ up_rest t st)"
proof (induction kov k t st rule: lower_bound_path.induct)
  case (2 kov k l r x h st)
  let ?t = "INode l r x h"
  from "2.prems" have o: "ordered kov (inorder l)" "ordered kov (inorder r)"
    "\<forall>y \<in> set (inorder l). kov y < kov x" "\<forall>y \<in> set (inorder r). kov x < kov y"
    by (auto simp: sorted_wrt_append)
  have path: "wf_path root (?t # st)" using "2.prems" by simp
  consider "k < kov x" | "kov x < k" | "k = kov x" by (metis linorder_neqE)
  then show ?case
  proof cases
    case 1
    with o(4) have r: "filter (\<lambda>v. k \<le> kov v) (inorder r) = inorder r"
      by (intro filter_all) (auto dest: less_trans)
    show ?thesis
    proof (cases "isTerminator l")
      case True
      with 1 r path show ?thesis by (cases l) auto
    next
      case False
      from "2.IH"(1)[OF 1 o(1) path _ False] 1 r less_imp_le[OF 1] show ?thesis by simp
    qed
  next
    case 2
    with o(3) have l: "filter (\<lambda>v. k \<le> kov v) (inorder l) = []"
      by (intro filter_none) (auto dest: less_trans simp: not_le)
    from 2 have nx: "\<not> k < kov x" "\<not> k \<le> kov x" by auto
    show ?thesis
    proof (cases "isTerminator r")
      case True
      with 2 l nx path show ?thesis by (cases r) auto
    next
      case False
      have "distinct (inorder ?t)"
        using "2.prems"(1) by (metis (no_types, lifting) less_irrefl distinct_conv_nth sorted_wrt_nth_less linorder_neqE_nat)
      with sides_differ[of ?t] False have "l \<noteq> r" by auto
      with "2.IH"(2)[OF nx(1) 2 o(2) path _ False] 2 nx l show ?thesis by simp
    qed
  next
    case 3
    with o(3,4) have "filter (\<lambda>v. k \<le> kov v) (inorder l) = []"
      "filter (\<lambda>v. k \<le> kov v) (inorder r) = inorder r"
      by (intro filter_none filter_all; force simp: not_le)+
    with 3 path show ?thesis by simp
  qed
qed simp

lemma ordered_distinct: "ordered kov xs \<Longrightarrow> distinct xs"
  by (induction xs) auto

lemma lower_bound_ok:
  assumes "ordered kov (inorder t)"
  shows "\<exists>it. lower_bound kov k t = Inr it \<and> wf_path t it \<and> it_rest it = filter (\<lambda>v. k \<le> kov v) (inorder t)"
proof (cases "isTerminator t")
  case True
  then show ?thesis by (cases t) (auto simp: lower_bound_def)
next
  case False
  from lower_bound_path_ok[OF assms, of t "[]" k] False obtain n st where p:
    "lower_bound_path kov k t [] = n # st" "wf_path t (n # st)"
    "(if kov (it_value n) < k then tl (it_rest (n # st)) else it_rest (n # st))
      = filter (\<lambda>v. k \<le> kov v) (inorder t)"
    by auto
  from it_next_ok[OF p(2) ordered_distinct[OF assms]] p show ?thesis
    by (cases "kov (it_value n) < k") (auto simp: lower_bound_def simp del: it_next.simps)
qed

lemma upper_bound_ok:
  assumes "ordered kov (inorder t)"
  shows "\<exists>it. upper_bound kov k t = Inr it \<and> wf_path t it \<and> it_rest it = filter (\<lambda>v. k < kov v) (inorder t)"
proof -
  from lower_bound_ok[OF assms, of k] obtain it where it: "lower_bound kov k t = Inr it" "wf_path t it"
    "it_rest it = filter (\<lambda>v. k \<le> kov v) (inorder t)" by blast
  have f: "filter (\<lambda>v. k < kov v) (inorder t) = filter (\<lambda>v. k < kov v) (it_rest it)"
    unfolding it(3) filter_filter by (rule filter_cong) auto
  show ?thesis
  proof (cases it)
    case Nil
    with it f show ?thesis by (auto simp: upper_bound_def)
  next
    case (Cons n st)
    have o: "ordered kov (it_rest it)" using assms by (simp add: it(3) sorted_wrt_filter)
    have k: "k \<le> kov (it_value n)"
    proof -
      have "it_value n \<in> set (it_rest it)" using Cons by simp
      then show ?thesis unfolding it(3) by simp
    qed
    from it_next_ok[of t n st, OF _ ordered_distinct[OF assms]] it(2) Cons obtain st' where st':
      "it_next (n # st) = Inr st'" "wf_path t st'" "it_rest it = it_value n # it_rest st'" by auto
    have above: "\<forall>v \<in> set (it_rest st'). kov (it_value n) < kov v" using o st'(3) by simp
    show ?thesis
    proof (cases "k < kov (it_value n)")
      case True
      with above have "filter (\<lambda>v. k < kov v) (it_rest it) = it_rest it"
        unfolding st'(3) by (auto intro!: filter_all dest: less_trans)
      with True it f Cons show ?thesis by (auto simp: upper_bound_def)
    next
      case False
      with k have "k = kov (it_value n)" by simp
      with above have "filter (\<lambda>v. k < kov v) (it_rest it) = it_rest st'"
        unfolding st'(3) by (auto intro!: filter_all)
      with f have "filter (\<lambda>v. k < kov v) (inorder t) = it_rest st'" by (rule trans)
      with False it(1,2) Cons st'(1,2) show ?thesis
        by (auto simp: upper_bound_def simp del: it_next.simps)
    qed
  qed
qed

section \<open>The tree as a map\<close>

definition tree_ok :: "('v \<Rightarrow> 'k::linorder) \<Rightarrow> 'v itree \<Rightarrow> bool" where
  "tree_ok kov t \<longleftrightarrow> avl t \<and> ordered kov (inorder t)"

lemma tree_ok_Terminator [simp]: "tree_ok kov Terminator"
  by (simp add: tree_ok_def)

lemma tree_lookup_set: "tree_ok kov t \<Longrightarrow> tree_lookup kov k t = Some x \<longleftrightarrow> x \<in> set (inorder t) \<and> kov x = k"
  by (simp add: tree_ok_def tree_lookup_inorder find_Some_ordered)

lemma tree_lookup_key: "ordered kov (inorder t) \<Longrightarrow> tree_lookup kov k t = Some x \<Longrightarrow> kov x = k"
  by (simp add: tree_lookup_inorder find_Some_ordered)

interpretation tree_map: persistent_map
  "\<lambda>t k. tree_lookup kov k t" kov "tree_replace kov" "tree_remove kov" "tree_ok kov"
  for kov :: "'v \<Rightarrow> 'k::linorder"
  by unfold_locales
    (auto simp: tree_ok_def tree_replace_avl tree_remove_avl inorder_replace inorder_remove
      ordered_replace sorted_wrt_filter lookup_replace lookup_remove dest: tree_lookup_key)

end
