(* ===== verification/AddressSpace.thy ===== *)
theory AddressSpace
  imports Memory ImmutableTree
begin

text \<open>
  \<open>AddressSpace\<close> and \<open>MemoryObject\<close> (\<open>klee/lib/Core/AddressSpace.cpp\<close>,
  \<open>klee/lib/Core/AddressSpace.h\<close>, \<open>klee/lib/Core/Memory.h\<close>): the map from memory objects
  to their contents, which forked states share copy-on-write. Object states live in a heap of
  their own, since sharing is what the component is about; an address space holds references into
  it. The lemmas show that a state never writes to an object another state can see, that a
  constant address resolves to the one object around it, and what the bounds checks mean.
\<close>

section \<open>Memory objects\<close>

record memory_object =
  mo_id :: nat
  mo_address :: nat
  mo_size :: nat
  isLocal :: bool
  isGlobal :: bool
  isFixed :: bool
  isUserSpecified :: bool

text \<open>\<open>pw\<close> is \<open>Context::get().getPointerWidth()\<close>.\<close>

definition getBaseExpr :: "width \<Rightarrow> memory_object \<Rightarrow> expr" where
  "getBaseExpr pw mo = Constant pw (int (mo_address mo))"

definition getSizeExpr :: "width \<Rightarrow> memory_object \<Rightarrow> expr" where
  "getSizeExpr pw mo = Constant pw (int (mo_size mo))"

definition getOffsetExpr :: "width \<Rightarrow> memory_object \<Rightarrow> expr \<Rightarrow> expr" where
  "getOffsetExpr pw mo pointer = create_Sub pointer (getBaseExpr pw mo)"

definition getBoundsCheckOffset :: "width \<Rightarrow> memory_object \<Rightarrow> expr \<Rightarrow> expr" where
  "getBoundsCheckOffset pw mo offset =
     (if mo_size mo = 0 then create_Eq offset (Constant pw 0)
      else create_Ult offset (getSizeExpr pw mo))"

definition getBoundsCheckOffset_bytes :: "width \<Rightarrow> memory_object \<Rightarrow> expr \<Rightarrow> nat \<Rightarrow> expr" where
  "getBoundsCheckOffset_bytes pw mo offset bytes =
     (if bytes \<le> mo_size mo
      then create_Ult offset (Constant pw (take_bit pw (int (mo_size mo - bytes + 1))))
      else Constant 1 0)"

definition getBoundsCheckPointer :: "width \<Rightarrow> memory_object \<Rightarrow> expr \<Rightarrow> expr" where
  "getBoundsCheckPointer pw mo pointer = getBoundsCheckOffset pw mo (getOffsetExpr pw mo pointer)"

definition getBoundsCheckPointer_bytes :: "width \<Rightarrow> memory_object \<Rightarrow> expr \<Rightarrow> nat \<Rightarrow> expr" where
  "getBoundsCheckPointer_bytes pw mo pointer bytes =
     getBoundsCheckOffset_bytes pw mo (getOffsetExpr pw mo pointer) bytes"

section \<open>The heap of object states and the address spaces\<close>

text \<open>
  \<open>const_arr_id\<close> is the static counter of \<open>ObjectState::getUpdates\<close>.
\<close>

record store =
  objs :: "nat \<rightharpoonup> object_state"
  next_oid :: nat
  const_arr_id :: nat

type_synonym object_pair = "memory_object \<times> nat"

text \<open>\<open>MemoryObjectLT\<close>: objects are ordered by address.\<close>

abbreviation address_of :: "object_pair \<Rightarrow> nat" where
  "address_of p \<equiv> mo_address (fst p)"

record address_space =
  cowKey :: nat
  objects :: "object_pair itree"

definition new_AddressSpace :: address_space where
  "new_AddressSpace = \<lparr>cowKey = 1, objects = Terminator\<rparr>"

text \<open>The copy constructor: both sides get the next epoch (an \<open>unsigned\<close>).\<close>

definition next_epoch :: "address_space \<Rightarrow> address_space" where
  "next_epoch as = as\<lparr>cowKey := (cowKey as + 1) mod 2 ^ 32\<rparr>"

definition copy_AddressSpace :: "address_space \<Rightarrow> address_space \<times> address_space" where
  "copy_AddressSpace as = (next_epoch as, next_epoch as)"

definition bindObject :: "memory_object \<Rightarrow> nat \<Rightarrow> address_space \<Rightarrow> store \<Rightarrow> (address_space \<times> store) result" where
  "bindObject mo oid as st =
     (case objs st oid of
        None \<Rightarrow> Inl NullDereference
      | Some os \<Rightarrow> assert_res (copyOnWriteOwner os = 0)
          (Inr (as\<lparr>objects := tree_replace address_of (mo, oid) (objects as)\<rparr>,
                st\<lparr>objs := (objs st)(oid \<mapsto> os\<lparr>copyOnWriteOwner := cowKey as\<rparr>)\<rparr>)))"

definition unbindObject :: "memory_object \<Rightarrow> address_space \<Rightarrow> address_space" where
  "unbindObject mo as = as\<lparr>objects := tree_remove address_of (mo_address mo) (objects as)\<rparr>"

definition findObject :: "memory_object \<Rightarrow> address_space \<Rightarrow> nat option" where
  "findObject mo as = map_option snd (tree_lookup address_of (mo_address mo) (objects as))"

definition getWriteable :: "memory_object \<Rightarrow> nat \<Rightarrow> address_space \<Rightarrow> store
    \<Rightarrow> (nat \<times> address_space \<times> store) result" where
  "getWriteable mo oid as st =
     (case objs st oid of
        None \<Rightarrow> Inl NullDereference
      | Some os \<Rightarrow>
          (if readOnly os then Inl AssertionFailed
           else if cowKey as = copyOnWriteOwner os then Inr (oid, as, st)
           else bind_res (copy_ObjectState os) (\<lambda>os'.
             let oid' = next_oid st in
             Inr (oid', as\<lparr>objects := tree_replace address_of (mo, oid') (objects as)\<rparr>,
               st\<lparr>objs := (objs st)(oid' \<mapsto> os'\<lparr>copyOnWriteOwner := cowKey as\<rparr>), next_oid := oid' + 1\<rparr>))))"

text \<open>\<open>resolveOne\<close> of a constant address.\<close>

definition resolveOne :: "nat \<Rightarrow> address_space \<Rightarrow> object_pair option" where
  "resolveOne address as =
     (case lookup_previous address_of address (objects as) of
        None \<Rightarrow> None
      | Some (mo, oid) \<Rightarrow>
          (if mo_size mo = 0 \<and> address = mo_address mo \<or> address - mo_address mo < mo_size mo
           then Some (mo, oid) else None))"

text \<open>
  \<open>copyOutConcretes\<close> and \<open>copyInConcretes\<close>: the bytes of the process at the addresses of
  the objects. \<open>objects\<close> is walked as it was at the start of the loop.
\<close>

type_synonym process_memory = "nat \<Rightarrow> int"

definition mem_bytes :: "process_memory \<Rightarrow> nat \<Rightarrow> nat \<Rightarrow> int list" where
  "mem_bytes mem a n = map (\<lambda>i. mem (a + i)) [0..<n]"

definition mem_write :: "nat \<Rightarrow> int list \<Rightarrow> process_memory \<Rightarrow> process_memory" where
  "mem_write a bs mem = (\<lambda>p. if a \<le> p \<and> p < a + length bs then bs ! (p - a) else mem p)"

fun copy_out :: "store \<Rightarrow> object_pair list \<Rightarrow> process_memory \<Rightarrow> process_memory result" where
  "copy_out st [] mem = Inr mem"
| "copy_out st ((mo, oid) # ps) mem =
     (if isUserSpecified mo then copy_out st ps mem
      else (case objs st oid of
          None \<Rightarrow> Inl NullDereference
        | Some os \<Rightarrow> copy_out st ps
            (if readOnly os then mem
             else mem_write (mo_address mo) (take (mo_size mo) (concreteStore os)) mem)))"

definition copyOutConcretes :: "address_space \<Rightarrow> store \<Rightarrow> process_memory \<Rightarrow> process_memory result" where
  "copyOutConcretes as st mem = copy_out st (inorder (objects as)) mem"

definition copyInConcrete :: "memory_object \<Rightarrow> nat \<Rightarrow> nat \<Rightarrow> process_memory \<Rightarrow> address_space \<Rightarrow> store
    \<Rightarrow> (bool \<times> address_space \<times> store) result" where
  "copyInConcrete mo oid src mem as st =
     (case objs st oid of
        None \<Rightarrow> Inl NullDereference
      | Some os \<Rightarrow>
          (let bytes = mem_bytes mem src (mo_size mo) in
           if bytes = take (mo_size mo) (concreteStore os) then Inr (True, as, st)
           else if readOnly os then Inr (False, as, st)
           else bind_res (getWriteable mo oid as st) (\<lambda>(oid', as', st').
             case objs st' oid' of
               None \<Rightarrow> Inl NullDereference
             | Some wos \<Rightarrow> Inr (True, as', st'\<lparr>objs := (objs st')(oid' \<mapsto>
                 wos\<lparr>concreteStore := bytes @ drop (mo_size mo) (concreteStore wos)\<rparr>)\<rparr>))))"

fun copy_in :: "object_pair list \<Rightarrow> process_memory \<Rightarrow> address_space \<Rightarrow> store
    \<Rightarrow> (bool \<times> address_space \<times> store) result" where
  "copy_in [] mem as st = Inr (True, as, st)"
| "copy_in ((mo, oid) # ps) mem as st =
     (if isUserSpecified mo then copy_in ps mem as st
      else bind_res (copyInConcrete mo oid (mo_address mo) mem as st) (\<lambda>(ok, as', st').
        if ok then copy_in ps mem as' st' else Inr (False, as', st')))"

definition copyInConcretes :: "process_memory \<Rightarrow> address_space \<Rightarrow> store
    \<Rightarrow> (bool \<times> address_space \<times> store) result" where
  "copyInConcretes mem as st = copy_in (inorder (objects as)) mem as st"

section \<open>Lookup\<close>

definition objects_of :: "address_space \<Rightarrow> object_pair set" where
  "objects_of as = set (inorder (objects as))"

abbreviation space_ok :: "address_space \<Rightarrow> bool" where
  "space_ok as \<equiv> tree_ok address_of (objects as)"

lemma findObject_iff:
  "space_ok as \<Longrightarrow> findObject mo as = Some oid \<longleftrightarrow>
    (\<exists>mo'. (mo', oid) \<in> objects_of as \<and> mo_address mo' = mo_address mo)"
  by (auto simp: findObject_def objects_of_def tree_lookup_set)

lemma space_ok_replace: "space_ok as \<Longrightarrow> space_ok (as\<lparr>objects := tree_replace address_of p (objects as)\<rparr>)"
  by (simp add: tree_map.ok_repl)

lemma findObject_replace:
  "space_ok as \<Longrightarrow> findObject mo' (as\<lparr>objects := tree_replace address_of (mo, oid) (objects as)\<rparr>)
    = (if mo_address mo' = mo_address mo then Some oid else findObject mo' as)"
  by (simp add: findObject_def tree_map.look_repl)

lemma findObject_unbind:
  "space_ok as \<Longrightarrow> space_ok (unbindObject mo as) \<and> findObject mo' (unbindObject mo as)
    = (if mo_address mo' = mo_address mo then None else findObject mo' as)"
  by (simp add: findObject_def unbindObject_def tree_map.look_remv tree_map.ok_remv)

lemma objects_of_replace:
  "space_ok as \<Longrightarrow> objects_of (as\<lparr>objects := tree_replace address_of p (objects as)\<rparr>)
    = insert p {q \<in> objects_of as. address_of q \<noteq> address_of p}"
  by (auto simp: objects_of_def tree_ok_def inorder_replace list_replace_def)

lemma objects_of_unbind:
  "space_ok as \<Longrightarrow> objects_of (unbindObject mo as) = {q \<in> objects_of as. address_of q \<noteq> mo_address mo}"
  by (auto simp: objects_of_def unbindObject_def tree_ok_def inorder_remove)

text \<open>Objects do not overlap.\<close>

definition disjoint_objects :: "address_space \<Rightarrow> bool" where
  "disjoint_objects as \<longleftrightarrow> (\<forall>p \<in> objects_of as. \<forall>q \<in> objects_of as.
     address_of p < address_of q \<longrightarrow> address_of p + mo_size (fst p) \<le> address_of q)"

definition in_object :: "nat \<Rightarrow> memory_object \<Rightarrow> bool" where
  "in_object a mo \<longleftrightarrow> mo_address mo \<le> a \<and> (a < mo_address mo + mo_size mo \<or> a = mo_address mo)"

lemma ordered_last:
  "ordered kov xs \<Longrightarrow> xs \<noteq> [] \<Longrightarrow> x \<in> set xs \<Longrightarrow> kov x \<le> kov (last xs)"
  by (induction xs) (auto simp: le_less)

lemma resolveOne_ok:
  assumes ok: "space_ok as" and dis: "disjoint_objects as"
  shows "resolveOne a as = Some p \<longleftrightarrow> p \<in> objects_of as \<and> in_object a (fst p)
      \<and> (mo_size (fst p) = 0 \<or> a < address_of p + mo_size (fst p))"
proof -
  let ?xs = "filter (\<lambda>v. address_of v \<le> a) (inorder (objects as))"
  have o: "ordered address_of (inorder (objects as))" using ok by (simp add: tree_ok_def)
  have lp: "lookup_previous address_of a (objects as) = (if ?xs = [] then None else Some (last ?xs))"
    using lookup_previous_ok[OF o] by (simp add: Let_def)
  have last_le: "address_of q \<le> address_of (last ?xs)" if "q \<in> objects_of as" "address_of q \<le> a" for q
  proof (rule ordered_last)
    show "q \<in> set ?xs" using that by (simp add: objects_of_def)
    then show "?xs \<noteq> []" by (auto simp del: set_filter)
    show "ordered address_of ?xs" using o by (rule sorted_wrt_filter)
  qed
  have same: "q = q'" if "q \<in> objects_of as" "q' \<in> objects_of as" "address_of q = address_of q'" for q q'
    using tree_lookup_set[OF ok] that unfolding objects_of_def by (metis option.inject)
  show ?thesis
  proof (cases "?xs = []")
    case True
    then have "\<not> address_of q \<le> a" if "q \<in> objects_of as" for q
      using that by (auto simp: objects_of_def filter_empty_conv)
    with lp True show ?thesis by (cases p) (fastforce simp: resolveOne_def in_object_def)
  next
    case False
    let ?l = "last ?xs"
    have l: "?l \<in> objects_of as" "address_of ?l \<le> a"
      using last_in_set[OF False] by (auto simp: objects_of_def)
    have eq: "p = ?l" if "p \<in> objects_of as" "in_object a (fst p)"
      "mo_size (fst p) = 0 \<or> a < address_of p + mo_size (fst p)"
    proof (rule same[OF that(1) l(1)])
      have "address_of p \<le> address_of ?l" using last_le that by (simp add: in_object_def)
      moreover have "\<not> address_of p < address_of ?l"
        using dis that l unfolding disjoint_objects_def in_object_def by fastforce
      ultimately show "address_of p = address_of ?l" by simp
    qed
    obtain m oid where lm: "?l = (m, oid)" by (cases ?l)
    let ?c = "mo_size m = 0 \<and> a = mo_address m \<or> a - mo_address m < mo_size m"
    have r: "resolveOne a as = (if ?c then Some ?l else None)"
      using lp False lm by (simp add: resolveOne_def)
    have c: "?c \<longleftrightarrow> in_object a (fst ?l) \<and> (mo_size (fst ?l) = 0 \<or> a < address_of ?l + mo_size (fst ?l))"
      using l(2) unfolding lm in_object_def by auto
    define C where "C q \<longleftrightarrow> in_object a (fst q) \<and> (mo_size (fst q) = 0 \<or> a < address_of q + mo_size (fst q))"
      for q :: object_pair
    have "resolveOne a as = (if C ?l then Some ?l else None)" unfolding r c C_def by (rule refl)
    moreover have "p = ?l" if "p \<in> objects_of as" "C p" using eq that by (simp add: C_def)
    ultimately have "resolveOne a as = Some p \<longleftrightarrow> p \<in> objects_of as \<and> C p"
      using l(1) by (cases "C ?l") auto
    then show ?thesis by (simp add: C_def)
  qed
qed

section \<open>Bounds checks\<close>

text \<open>
  Under an assignment, the check of a pointer is true iff it points into the object (with room
  for the bytes of the access), for an object that does not wrap around the address space.
\<close>

definition fits :: "width \<Rightarrow> memory_object \<Rightarrow> bool" where
  "fits pw mo \<longleftrightarrow> 0 < pw \<and> mo_address mo + mo_size mo < 2 ^ pw"

lemma fits_int:
  assumes "fits pw mo"
  shows "int (mo_address mo) + int (mo_size mo) < 2 ^ pw \<and> 0 < pw
    \<and> mo_address mo < 2 ^ pw \<and> mo_size mo < 2 ^ pw"
proof -
  have "int (mo_address mo + mo_size mo) < int (2 ^ pw)"
    using assms unfolding fits_def of_nat_less_iff by blast
  moreover have "0 < pw" "mo_address mo < 2 ^ pw" "mo_size mo < 2 ^ pw"
    using assms unfolding fits_def by linarith+
  ultimately show ?thesis by simp
qed

lemma getOffsetExpr_ok:
  assumes "fits pw mo" "wf_expr p" "getWidth p = pw"
  shows "wf_expr (getOffsetExpr pw mo p)" "getWidth (getOffsetExpr pw mo p) = pw"
    "wf_env \<rho> \<Longrightarrow> eval \<rho> (getOffsetExpr pw mo p) = take_bit pw (eval \<rho> p - int (mo_address mo))"
proof -
  have "wf_expr (Binary Sub p (getBaseExpr pw mo))"
    using assms fits_int[OF assms(1)] by (simp add: getBaseExpr_def in_width_def)
  from sem_eqD[OF create_Sub_sem_eq this] assms(3)
  show "wf_expr (getOffsetExpr pw mo p)" "getWidth (getOffsetExpr pw mo p) = pw"
    "wf_env \<rho> \<Longrightarrow> eval \<rho> (getOffsetExpr pw mo p) = take_bit pw (eval \<rho> p - int (mo_address mo))"
    by (auto simp: getOffsetExpr_def getBaseExpr_def)
qed

lemma take_bit_offset:
  assumes "in_width pw p" "0 \<le> a" "0 < s" "a + s \<le> 2 ^ pw"
  shows "take_bit pw (p - a) < s \<longleftrightarrow> a \<le> p \<and> p < a + s"
proof (cases "a \<le> p")
  case True
  with assms have "take_bit pw (p - a) = p - a" by (intro take_bit_in_width) (auto simp: in_width_def)
  with True show ?thesis by auto
next
  case False
  have "take_bit pw (p - a) = take_bit pw (p - a + 2 ^ pw)" by (simp add: take_bit_eq_mod)
  also have "\<dots> = p - a + 2 ^ pw"
    using assms False by (intro take_bit_in_width) (auto simp: in_width_def)
  finally show ?thesis using False assms by (auto simp: in_width_def)
qed

lemma getBoundsCheckPointer_ok:
  assumes f: "fits pw mo" and p: "wf_expr p" "getWidth p = pw" and \<rho>: "wf_env \<rho>"
  shows "eval \<rho> (getBoundsCheckPointer pw mo p) = 1 \<longleftrightarrow>
    int (mo_address mo) \<le> eval \<rho> p
    \<and> (eval \<rho> p < int (mo_address mo) + int (mo_size mo) \<or> mo_size mo = 0 \<and> eval \<rho> p = int (mo_address mo))"
proof -
  note off = getOffsetExpr_ok[OF f p]
  note fi = fits_int[OF f]
  have pv: "in_width pw (eval \<rho> p)" using eval_in_width[OF \<rho> p(1)] p(2) by simp
  show ?thesis
  proof (cases "mo_size mo = 0")
    case True
    have "wf_expr (Binary Eq (getOffsetExpr pw mo p) (Constant pw 0))"
      using off fi by (simp add: in_width_def)
    from sem_eqD(3)[OF create_Eq_sem_eq this \<rho>] True off(3)[OF \<rho>]
    have "eval \<rho> (getBoundsCheckPointer pw mo p) = 1 \<longleftrightarrow> take_bit pw (eval \<rho> p - int (mo_address mo)) < 1"
      by (simp add: getBoundsCheckPointer_def getBoundsCheckOffset_def)
        (metis take_bit_nonnegative antisym_conv1 less_irrefl zero_less_one int_one_le_iff_zero_less not_less)
    with take_bit_offset[OF pv, of "int (mo_address mo)" 1] True fi show ?thesis by auto
  next
    case False
    have "wf_expr (Binary Ult (getOffsetExpr pw mo p) (getSizeExpr pw mo))"
      using off fi by (simp add: getSizeExpr_def in_width_def)
    from sem_eqD(3)[OF create_Ult_sem_eq this \<rho>] False off(3)[OF \<rho>]
    have "eval \<rho> (getBoundsCheckPointer pw mo p) = 1 \<longleftrightarrow>
        take_bit pw (eval \<rho> p - int (mo_address mo)) < int (mo_size mo)"
      by (simp add: getBoundsCheckPointer_def getBoundsCheckOffset_def getSizeExpr_def)
    with take_bit_offset[OF pv, of "int (mo_address mo)" "int (mo_size mo)"] False fi show ?thesis by auto
  qed
qed

lemma getBoundsCheckPointer_bytes_ok:
  assumes f: "fits pw mo" and p: "wf_expr p" "getWidth p = pw" and \<rho>: "wf_env \<rho>" and b: "0 < bytes"
  shows "eval \<rho> (getBoundsCheckPointer_bytes pw mo p bytes) = 1 \<longleftrightarrow>
    int (mo_address mo) \<le> eval \<rho> p \<and> eval \<rho> p + int bytes \<le> int (mo_address mo) + int (mo_size mo)"
proof (cases "bytes \<le> mo_size mo")
  case True
  note off = getOffsetExpr_ok[OF f p]
  note fi = fits_int[OF f]
  have pv: "in_width pw (eval \<rho> p)" using eval_in_width[OF \<rho> p(1)] p(2) by simp
  let ?s = "int (mo_size mo - bytes + 1)"
  have s: "?s = int (mo_size mo) - int bytes + 1" using True by simp
  have sw: "in_width pw ?s" using s fi b by (simp add: in_width_def)
  then have t: "take_bit pw ?s = ?s" by (rule take_bit_in_width)
  have "wf_expr (Binary Ult (getOffsetExpr pw mo p) (Constant pw ?s))"
    using off fi sw by simp
  from sem_eqD(3)[OF create_Ult_sem_eq this \<rho>] True off(3)[OF \<rho>] t
  have "eval \<rho> (getBoundsCheckPointer_bytes pw mo p bytes) = 1 \<longleftrightarrow>
      take_bit pw (eval \<rho> p - int (mo_address mo)) < ?s"
    by (simp add: getBoundsCheckPointer_bytes_def getBoundsCheckOffset_bytes_def)
  moreover have "int (mo_address mo) + ?s \<le> 2 ^ pw" "0 < ?s" using s fi b by auto
  ultimately show ?thesis
    using take_bit_offset[OF pv, of "int (mo_address mo)" ?s] s by auto
next
  case False
  then show ?thesis by (simp add: getBoundsCheckPointer_bytes_def getBoundsCheckOffset_bytes_def)
qed

section \<open>Copy on write\<close>

text \<open>
  The invariant of a family of address spaces over one heap: bound objects exist and are no
  newer than the space's epoch (the invariant stated in \<open>AddressSpace.h\<close>), and an object
  that two spaces share is older than the epoch of either, so neither owns it.
\<close>

definition binds :: "address_space \<Rightarrow> nat \<Rightarrow> bool" where
  "binds as oid \<longleftrightarrow> (\<exists>mo. (mo, oid) \<in> objects_of as)"

definition cow_ok :: "store \<Rightarrow> address_space list \<Rightarrow> bool" where
  "cow_ok st spaces \<longleftrightarrow>
     (\<forall>oid. objs st oid \<noteq> None \<longrightarrow> oid < next_oid st)
   \<and> (\<forall>as \<in> set spaces. space_ok as \<and> 0 < cowKey as \<and>
        (\<forall>oid. binds as oid \<longrightarrow> (\<exists>os. objs st oid = Some os \<and> copyOnWriteOwner os \<le> cowKey as)))
   \<and> (\<forall>i < length spaces. \<forall>j < length spaces. \<forall>oid os. i \<noteq> j \<longrightarrow> binds (spaces ! i) oid
        \<longrightarrow> binds (spaces ! j) oid \<longrightarrow> objs st oid = Some os \<longrightarrow> copyOnWriteOwner os < cowKey (spaces ! i))"

lemma cow_okD:
  assumes "cow_ok st spaces"
  shows "objs st oid \<noteq> None \<Longrightarrow> oid < next_oid st"
    and "i < length spaces \<Longrightarrow> space_ok (spaces ! i)"
    and "i < length spaces \<Longrightarrow> 0 < cowKey (spaces ! i)"
    and "i < length spaces \<Longrightarrow> binds (spaces ! i) oid \<Longrightarrow>
      \<exists>os. objs st oid = Some os \<and> copyOnWriteOwner os \<le> cowKey (spaces ! i)"
    and "i < length spaces \<Longrightarrow> j < length spaces \<Longrightarrow> i \<noteq> j \<Longrightarrow> binds (spaces ! i) oid
      \<Longrightarrow> binds (spaces ! j) oid \<Longrightarrow> objs st oid = Some os \<Longrightarrow> copyOnWriteOwner os < cowKey (spaces ! i)"
proof -
  note c = assms[unfolded cow_ok_def]
  note c1 = c[THEN conjunct1] and c2 = c[THEN conjunct2, THEN conjunct1]
    and c3 = c[THEN conjunct2, THEN conjunct2]
  show "objs st oid \<noteq> None \<Longrightarrow> oid < next_oid st" using c1 by blast
  show "i < length spaces \<Longrightarrow> space_ok (spaces ! i)"
    and "i < length spaces \<Longrightarrow> 0 < cowKey (spaces ! i)"
    and "i < length spaces \<Longrightarrow> binds (spaces ! i) oid \<Longrightarrow>
      \<exists>os. objs st oid = Some os \<and> copyOnWriteOwner os \<le> cowKey (spaces ! i)"
    using c2 nth_mem[of i spaces] by blast+
  show "i < length spaces \<Longrightarrow> j < length spaces \<Longrightarrow> i \<noteq> j \<Longrightarrow> binds (spaces ! i) oid
      \<Longrightarrow> binds (spaces ! j) oid \<Longrightarrow> objs st oid = Some os \<Longrightarrow> copyOnWriteOwner os < cowKey (spaces ! i)"
    using c3 by blast
qed

lemma cow_okI:
  assumes "\<And>oid. objs st oid \<noteq> None \<Longrightarrow> oid < next_oid st"
    and "\<And>i. i < length spaces \<Longrightarrow> space_ok (spaces ! i)"
    and "\<And>i. i < length spaces \<Longrightarrow> 0 < cowKey (spaces ! i)"
    and "\<And>i oid. i < length spaces \<Longrightarrow> binds (spaces ! i) oid \<Longrightarrow>
      \<exists>os. objs st oid = Some os \<and> copyOnWriteOwner os \<le> cowKey (spaces ! i)"
    and "\<And>i j oid os. i < length spaces \<Longrightarrow> j < length spaces \<Longrightarrow> i \<noteq> j \<Longrightarrow> binds (spaces ! i) oid
      \<Longrightarrow> binds (spaces ! j) oid \<Longrightarrow> objs st oid = Some os \<Longrightarrow> copyOnWriteOwner os < cowKey (spaces ! i)"
  shows "cow_ok st spaces"
  unfolding cow_ok_def using assms(1,2,3,4,5) by (metis in_set_conv_nth)

lemma binds_replace:
  "space_ok as \<Longrightarrow> binds (as\<lparr>objects := tree_replace address_of (mo, oid) (objects as)\<rparr>) oid'
    \<Longrightarrow> oid' = oid \<or> binds as oid'"
  by (auto simp: binds_def objects_of_replace)

lemma binds_unbind: "space_ok as \<Longrightarrow> binds (unbindObject mo as) oid \<Longrightarrow> binds as oid"
  by (auto simp: binds_def objects_of_unbind)

text \<open>The two outcomes of \<open>getWriteable\<close>.\<close>

lemma getWriteable_cases:
  assumes "getWriteable mo oid as st = Inr (oid', as', st')"
  obtains (owned) os where "objs st oid = Some os" "\<not> readOnly os" "copyOnWriteOwner os = cowKey as"
      "oid' = oid" "as' = as" "st' = st"
    | (copied) os os' where "objs st oid = Some os" "\<not> readOnly os" "copyOnWriteOwner os \<noteq> cowKey as"
      "copy_ObjectState os = Inr os'" "oid' = next_oid st"
      "as' = as\<lparr>objects := tree_replace address_of (mo, next_oid st) (objects as)\<rparr>"
      "st' = st\<lparr>objs := (objs st)(next_oid st \<mapsto> os'\<lparr>copyOnWriteOwner := cowKey as\<rparr>), next_oid := next_oid st + 1\<rparr>"
  using assms
  by (auto simp: getWriteable_def Let_def split: option.splits if_splits)

text \<open>What a state gets to write is invisible to all others.\<close>

lemma getWriteable_isolated:
  assumes cow: "cow_ok st spaces" and i: "i < length spaces" and b: "binds (spaces ! i) oid"
    and w: "getWriteable mo oid (spaces ! i) st = Inr (oid', as', st')"
    and j: "j < length spaces" "j \<noteq> i"
  shows "\<not> binds (spaces ! j) oid'" "binds (spaces ! j) o2 \<Longrightarrow> objs st' o2 = objs st o2"
proof -
  have "\<not> binds (spaces ! j) oid' \<and> (binds (spaces ! j) o2 \<longrightarrow> objs st' o2 = objs st o2)"
    using w
  proof (cases rule: getWriteable_cases)
    case (owned os)
    with cow_okD(5)[OF cow i j(1) _ b] j(2) show ?thesis by fastforce
  next
    case (copied os os')
    have "objs st (next_oid st) = None" using cow_okD(1)[OF cow] by blast
    then have "\<not> binds (spaces ! j) (next_oid st)" using cow_okD(4)[OF cow j(1)] by fastforce
    with copied show ?thesis by auto
  qed
  then show "\<not> binds (spaces ! j) oid'" "binds (spaces ! j) o2 \<Longrightarrow> objs st' o2 = objs st o2" by auto
qed

lemma getWriteable_cow_ok:
  assumes cow: "cow_ok st spaces" and i: "i < length spaces" and b: "binds (spaces ! i) oid"
    and w: "getWriteable mo oid (spaces ! i) st = Inr (oid', as', st')"
  shows "cow_ok st' (spaces[i := as'])"
  using w
proof (cases rule: getWriteable_cases)
  case (owned os)
  with cow show ?thesis by simp
next
  case (copied os os')
  let ?n = "next_oid st"
  have fresh: "objs st ?n = None" using cow_okD(1)[OF cow] by blast
  have unbound: "\<not> binds (spaces ! k) ?n" if "k < length spaces" for k
    using cow_okD(4)[OF cow that] fresh by fastforce
  have ok: "space_ok (spaces ! i)" by (rule cow_okD(2)[OF cow i])
  have bi: "binds as' o2 \<Longrightarrow> o2 = ?n \<or> binds (spaces ! i) o2" for o2
    using copied(6) binds_replace[OF ok] by blast
  have key: "cowKey as' = cowKey (spaces ! i)" "space_ok as'"
    using copied(6) space_ok_replace[OF ok] by auto
  have obj: "objs st' o2 = (if o2 = ?n then Some (os'\<lparr>copyOnWriteOwner := cowKey (spaces ! i)\<rparr>) else objs st o2)"
    "next_oid st' = ?n + 1" for o2
    using copied(7) by auto
  have A: "o2 < next_oid st'" if "objs st' o2 \<noteq> None" for o2
    using that obj cow_okD(1)[OF cow, of o2] by (auto split: if_splits)
  have B: "space_ok as \<and> 0 < cowKey as \<and>
      (\<forall>oid. binds as oid \<longrightarrow> (\<exists>os. objs st' oid = Some os \<and> copyOnWriteOwner os \<le> cowKey as))"
    if "as \<in> set (spaces[i := as'])" for as
  proof -
    from that obtain k where k: "k < length spaces" "as = (if k = i then as' else spaces ! k)"
      by (auto simp: in_set_conv_nth nth_list_update split: if_splits)
    show ?thesis
    proof (cases "k = i")
      case True
      have "\<exists>os. objs st' o2 = Some os \<and> copyOnWriteOwner os \<le> cowKey as'" if "binds as' o2" for o2
      proof (cases "o2 = ?n")
        case False
        with bi[OF that] cow_okD(4)[OF cow i, of o2] obj key show ?thesis by auto
      qed (use obj key in auto)
      with True k key cow_okD(3)[OF cow i] show ?thesis by auto
    next
      case False
      with k cow_okD(2,3)[OF cow k(1)] cow_okD(4)[OF cow k(1)] obj unbound[OF k(1)]
      show ?thesis by auto
    qed
  qed
  have C: "copyOnWriteOwner os < cowKey (spaces[i := as'] ! a)"
    if "a < length spaces" "c < length spaces" "a \<noteq> c" "binds (spaces[i := as'] ! a) o2"
      "binds (spaces[i := as'] ! c) o2" "objs st' o2 = Some os" for a c o2 os
  proof (cases "o2 = ?n")
    case True
    with that unbound show ?thesis by (metis nth_list_update_eq nth_list_update_neq)
  next
    case False
    have "binds (spaces ! a) o2" "binds (spaces ! c) o2" "objs st o2 = Some os"
      using that(1-6) False bi[of o2] obj by (cases "a = i"; cases "c = i"; simp)+
    from cow_okD(5)[OF cow that(1-3) this] key that(1) show ?thesis by (cases "a = i") auto
  qed
  show ?thesis unfolding cow_ok_def using A B C by simp
qed

text \<open>A fork: both copies move to the next epoch, so neither owns what they share.\<close>

lemma fork_cow_ok:
  assumes cow: "cow_ok st spaces" and i: "i < length spaces"
    and wrap: "cowKey (spaces ! i) + 1 < 2 ^ 32"
    and cp: "copy_AddressSpace (spaces ! i) = (as', as'')"
  shows "cow_ok st (spaces[i := as'] @ [as''])"
proof -
  have as: "as' = (spaces ! i)\<lparr>cowKey := cowKey (spaces ! i) + 1\<rparr>" "as'' = as'"
    using cp wrap by (auto simp: copy_AddressSpace_def next_epoch_def)
  have same: "binds as' o2 = binds (spaces ! i) o2" "space_ok as' = space_ok (spaces ! i)" for o2
    by (auto simp: as binds_def objects_of_def)
  define old where "old k = (if k = length spaces then i else k)" for k
  let ?sp = "spaces[i := as'] @ [as'']"
  have nth: "old k < length spaces" "binds (?sp ! k) o2 = binds (spaces ! old k) o2"
    "cowKey (spaces ! old k) \<le> cowKey (?sp ! k)" "space_ok (?sp ! k) = space_ok (spaces ! old k)"
    "old k = i \<Longrightarrow> cowKey (?sp ! k) = cowKey (spaces ! i) + 1"
    if "k < length ?sp" for k o2
    using that i same as
    by (auto simp: old_def nth_append nth_list_update less_Suc_eq)
  have B: "space_ok as \<and> 0 < cowKey as \<and>
      (\<forall>oid. binds as oid \<longrightarrow> (\<exists>os. objs st oid = Some os \<and> copyOnWriteOwner os \<le> cowKey as))"
    if "as \<in> set ?sp" for as
  proof -
    from that obtain k where k: "k < length ?sp" "as = ?sp ! k" by (metis in_set_conv_nth)
    note n = nth[OF k(1)]
    from cow_okD(2,3)[OF cow n(1)] cow_okD(4)[OF cow n(1)] n(2,3,4) k(2)
    show ?thesis by (metis le_trans less_le_trans)
  qed
  have C: "copyOnWriteOwner os < cowKey (?sp ! a)"
    if "a < length ?sp" "c < length ?sp" "a \<noteq> c" "binds (?sp ! a) o2" "binds (?sp ! c) o2"
      "objs st o2 = Some os" for a c o2 os
  proof (cases "old a = old c")
    case True
    then have "old a = i" using that(1-3) by (auto simp: old_def split: if_splits)
    with nth(5)[OF that(1)] cow_okD(4)[OF cow i, of o2] nth(2)[OF that(1)] that(4,6)
    show ?thesis by auto
  next
    case False
    have "copyOnWriteOwner os < cowKey (spaces ! old a)"
      using cow_okD(5)[OF cow nth(1)[OF that(1)] nth(1)[OF that(2)] False, of o2 os]
        nth(2)[OF that(1)] nth(2)[OF that(2)] that(4-6) by simp
    with nth(3)[OF that(1)] show ?thesis by simp
  qed
  show ?thesis
    unfolding cow_ok_def using cow_okD(1)[OF cow] B C by blast
qed

text \<open>Updating an object that only one space sees, without changing its owner.\<close>

lemma update_cow_ok:
  assumes cow: "cow_ok st spaces" and os: "objs st oid = Some os"
    and own: "copyOnWriteOwner os' = copyOnWriteOwner os"
  shows "cow_ok (st\<lparr>objs := (objs st)(oid \<mapsto> os')\<rparr>) spaces"
proof -
  let ?st = "st\<lparr>objs := (objs st)(oid \<mapsto> os')\<rparr>"
  have bwd: "\<exists>y. objs st o2 = Some y \<and> copyOnWriteOwner y = copyOnWriteOwner x"
    if "objs ?st o2 = Some x" for o2 x
    using that os own by (auto split: if_splits)
  have forth: "\<exists>x. objs ?st o2 = Some x \<and> copyOnWriteOwner x = copyOnWriteOwner y"
    if "objs st o2 = Some y" for o2 y
    using that os own by auto
  show ?thesis
  proof (rule cow_okI)
    fix o2
    assume "objs ?st o2 \<noteq> None"
    then have "objs st o2 \<noteq> None" using os by (auto split: if_splits)
    then show "o2 < next_oid ?st" using cow_okD(1)[OF cow] by simp
  next
    fix k o2
    assume k: "k < length spaces" "binds (spaces ! k) o2"
    from cow_okD(4)[OF cow this] forth
    show "\<exists>os. objs ?st o2 = Some os \<and> copyOnWriteOwner os \<le> cowKey (spaces ! k)" by metis
  next
    fix a c o2 x
    assume h: "a < length spaces" "c < length spaces" "a \<noteq> c" "binds (spaces ! a) o2"
      "binds (spaces ! c) o2" "objs ?st o2 = Some x"
    from bwd[OF h(6)] cow_okD(5)[OF cow h(1-5)] show "copyOnWriteOwner x < cowKey (spaces ! a)" by metis
  qed (use cow_okD(2,3)[OF cow] in auto)
qed

text \<open>Binding a fresh object.\<close>

lemma bindObject_cow_ok:
  assumes cow: "cow_ok st spaces" and i: "i < length spaces"
    and fresh: "\<And>k. k < length spaces \<Longrightarrow> \<not> binds (spaces ! k) oid"
    and b: "bindObject mo oid (spaces ! i) st = Inr (as', st')"
  shows "cow_ok st' (spaces[i := as'])"
proof -
  from b obtain os where os: "objs st oid = Some os" "copyOnWriteOwner os = 0"
    and as: "as' = (spaces ! i)\<lparr>objects := tree_replace address_of (mo, oid) (objects (spaces ! i))\<rparr>"
    and st: "st' = st\<lparr>objs := (objs st)(oid \<mapsto> os\<lparr>copyOnWriteOwner := cowKey (spaces ! i)\<rparr>)\<rparr>"
    by (auto simp: bindObject_def split: option.splits)
  have ok: "space_ok (spaces ! i)" by (rule cow_okD(2)[OF cow i])
  have key: "cowKey as' = cowKey (spaces ! i)" "space_ok as'" using as space_ok_replace[OF ok] by auto
  have bi: "o2 = oid \<or> binds (spaces ! i) o2" if "binds as' o2" for o2
    using binds_replace[OF ok] that as by blast
  have nth: "spaces[i := as'] ! k = (if k = i then as' else spaces ! k)" if "k < length spaces" for k
    using that by (simp add: nth_list_update)
  show ?thesis
  proof (rule cow_okI)
    fix o2
    assume "objs st' o2 \<noteq> None"
    then have "objs st o2 \<noteq> None" using os st by (auto split: if_splits)
    then show "o2 < next_oid st'" using cow_okD(1)[OF cow] st by simp
  next
    fix k o2
    assume "k < length (spaces[i := as'])" and bk: "binds (spaces[i := as'] ! k) o2"
    then have k: "k < length spaces" by simp
    show "\<exists>os. objs st' o2 = Some os \<and> copyOnWriteOwner os \<le> cowKey (spaces[i := as'] ! k)"
    proof (cases "o2 = oid")
      case True
      then have "k = i" using fresh[OF k] bk nth[OF k] by (auto split: if_splits)
      with True st nth[OF k] key show ?thesis by simp
    next
      case False
      have "binds (spaces ! k) o2" using bk nth[OF k] bi False by (auto split: if_splits)
      from cow_okD(4)[OF cow k this] False st nth[OF k] key show ?thesis by auto
    qed
  next
    fix a c o2 x
    assume "a < length (spaces[i := as'])" "c < length (spaces[i := as'])" and ne: "a \<noteq> c"
      and ba: "binds (spaces[i := as'] ! a) o2" and bc: "binds (spaces[i := as'] ! c) o2"
      and x: "objs st' o2 = Some x"
    then have a: "a < length spaces" and c: "c < length spaces" by auto
    have "o2 \<noteq> oid"
      using fresh[OF a] fresh[OF c] ba bc nth[OF a] nth[OF c] ne by (auto split: if_splits)
    moreover from this have "binds (spaces ! a) o2" "binds (spaces ! c) o2"
      using ba bc nth[OF a] nth[OF c] bi by (auto split: if_splits)
    ultimately show "copyOnWriteOwner x < cowKey (spaces[i := as'] ! a)"
      using cow_okD(5)[OF cow a c ne] x st nth[OF a] key by auto
  next
    fix k assume "k < length (spaces[i := as'])"
    then have k: "k < length spaces" by simp
    show "space_ok (spaces[i := as'] ! k)" using nth[OF k] key(2) cow_okD(2)[OF cow k] by simp
  next
    fix k assume "k < length (spaces[i := as'])"
    then have k: "k < length spaces" by simp
    show "0 < cowKey (spaces[i := as'] ! k)"
      using nth[OF k] key(1) cow_okD(3)[OF cow k] cow_okD(3)[OF cow i] by simp
  qed
qed

text \<open>The copy that \<open>getWriteable\<close> makes has the contents of the original.\<close>

lemma getWriteable_contents:
  assumes "getWriteable mo oid as st = Inr (oid', as', st')" "objs st oid = Some os" "wf_object os"
  shows "\<exists>os'. objs st' oid' = Some os' \<and> same_contents os os' \<and> \<not> readOnly os'
    \<and> copyOnWriteOwner os' = cowKey as"
  using assms(1)
proof (cases rule: getWriteable_cases)
  case (owned os1)
  with assms(2,3) show ?thesis by (simp add: same_contents_refl)
next
  case (copied os1 os')
  with assms(2) have "os1 = os" by simp
  note cp = wf_copy_ObjectState[OF assms(3) copied(4)[unfolded this]]
  have "same_contents os (os'\<lparr>copyOnWriteOwner := cowKey as\<rparr>)"
    using cp(1) by (simp add: same_contents_def)
  with cp(2) copied show ?thesis by auto
qed

end
