(* ===== verification/Heap.thy ===== *)
theory Heap
  imports AddressSpace
begin

text \<open>
  The operations of \<open>ObjectState\<close> on the objects of the heap that address spaces share
  (calls through \<open>const ObjectState *\<close> and \<open>ObjectState *\<close> in
  \<open>klee/lib/Core/ExecutionState.cpp\<close> and \<open>klee/lib/Core/Executor.cpp\<close>), with the
  static counter that \<open>ObjectState::getUpdates\<close> names its constant arrays by. The
  invariant of a family of address spaces over one heap is extended by the well-formedness of the
  objects, and each operation is described by the bytes that each space then reads.
\<close>

section \<open>Operations\<close>

text \<open>\<open>llvm::utostr\<close>: the decimal digits.\<close>

fun utostr :: "nat \<Rightarrow> string" where
  "utostr n = (if n < 10 then [char_of (48 + n)] else utostr (n div 10) @ [char_of (48 + n mod 10)])"

declare utostr.simps [simp del]

definition const_arr_name :: "store \<Rightarrow> string" where
  "const_arr_name st = ''const_arr'' @ utostr (const_arr_id st + 1)"

text \<open>Storing an object back; a root array it has got by then came from the counter.\<close>

definition put_object :: "nat \<Rightarrow> object_state \<Rightarrow> object_state \<Rightarrow> store \<Rightarrow> store" where
  "put_object oid os os' st =
     st\<lparr>objs := (objs st)(oid \<mapsto> os'),
        const_arr_id := (if upd_root os = None \<and> upd_root os' \<noteq> None then const_arr_id st + 1
          else const_arr_id st)\<rparr>"

definition heap_read8 :: "nat \<Rightarrow> nat \<Rightarrow> store \<Rightarrow> (expr \<times> store) result" where
  "heap_read8 oid off st =
     (case objs st oid of
        None \<Rightarrow> Inl NullDereference
      | Some os \<Rightarrow> map_res (\<lambda>(e, os'). (e, put_object oid os os' st)) (read8 (const_arr_name st) off os))"

definition heap_write :: "bool \<Rightarrow> nat \<Rightarrow> nat \<Rightarrow> expr \<Rightarrow> store \<Rightarrow> store result" where
  "heap_write le oid off ve st =
     (case objs st oid of
        None \<Rightarrow> Inl NullDereference
      | Some os \<Rightarrow> map_res (\<lambda>os'. put_object oid os os' st) (write_const le off ve os))"

section \<open>Ownership flags are left alone\<close>

definition same_flags :: "object_state \<Rightarrow> object_state \<Rightarrow> bool" where
  "same_flags os os' \<longleftrightarrow> copyOnWriteOwner os' = copyOnWriteOwner os \<and> readOnly os' = readOnly os"

lemma UpdateList_extend_flags: "UpdateList_extend i v os = Inr os' \<Longrightarrow> same_flags os os'"
  by (auto simp: UpdateList_extend_def same_flags_def split: option.splits if_splits)

lemma extend_all_flags: "extend_all ws os = Inr os' \<Longrightarrow> same_flags os os'"
proof (induction ws os rule: extend_all.induct)
  case (2 i v ws os)
  then show ?case by (fastforce dest: UpdateList_extend_flags simp: same_flags_def)
qed (simp add: same_flags_def)

lemma getUpdates_flags: "getUpdates name os = Inr (a, os') \<Longrightarrow> same_flags os os'"
  by (auto simp: getUpdates_def Let_def same_flags_def split: option.splits
      dest!: extend_all_flags)

lemma read8_flags: "read8 name off os = Inr (e, os') \<Longrightarrow> same_flags os os'"
  by (auto simp: read8_def split: if_splits option.splits dest: getUpdates_flags)
    (simp_all add: same_flags_def)

lemma mark_flags [simp]:
  "copyOnWriteOwner (markByteConcrete i os) = copyOnWriteOwner os"
  "copyOnWriteOwner (markByteSymbolic i os) = copyOnWriteOwner os"
  "copyOnWriteOwner (markByteUnflushed i os) = copyOnWriteOwner os"
  "copyOnWriteOwner (setKnownSymbolic i ve os) = copyOnWriteOwner os"
  "readOnly (markByteConcrete i os) = readOnly os"
  "readOnly (markByteSymbolic i os) = readOnly os"
  "readOnly (markByteUnflushed i os) = readOnly os"
  "readOnly (setKnownSymbolic i ve os) = readOnly os"
  by (auto simp: markByteConcrete_def markByteSymbolic_def markByteUnflushed_def
      setKnownSymbolic_def split: option.split)

lemma same_flags_trans: "same_flags a b \<Longrightarrow> same_flags b c \<Longrightarrow> same_flags a c"
  by (simp add: same_flags_def)

lemma write8_byte_flags: "write8_byte off v os = Inr os' \<Longrightarrow> same_flags os os'"
  by (auto simp: write8_byte_def same_flags_def split: if_splits)

lemma write8_flags: "write8 off ve os = Inr os' \<Longrightarrow> same_flags os os'"
  by (auto simp: write8_def split: if_splits option.splits dest: write8_byte_flags)
    (simp_all add: same_flags_def)

lemma write_bytes_flags:
  "(\<And>i j os os'. wr i j os = Inr os' \<Longrightarrow> same_flags os os') \<Longrightarrow> write_bytes wr ijs os = Inr os'
    \<Longrightarrow> same_flags os os'"
proof (induction ijs arbitrary: os)
  case (Cons ij ijs)
  then show ?case by (cases ij) (fastforce intro: same_flags_trans)
qed (simp add: same_flags_def)

lemma write_const_flags:
  assumes "write_const le off ve os = Inr os'"
  shows "same_flags os os'"
proof -
  have "same_flags os os'" if "write_int le n off v os = Inr os'" for n v
    using that unfolding write_int_def by (rule write_bytes_flags[rotated]) (rule write8_byte_flags)
  moreover have "same_flags os os'"
    if "write_bytes (\<lambda>i j. write8 (add32 off j) (create_Extract ve (8 * i) 8)) ijs os = Inr os'" for ijs
    using that by (rule write_bytes_flags[rotated]) (rule write8_flags)
  ultimately show ?thesis
    using assms unfolding write_const_def Let_def
    by (auto split: option.splits if_splits dest: write8_byte_flags write8_flags)
qed

section \<open>Families of address spaces\<close>

text \<open>
  On top of \<open>cow_ok\<close>: every object of the heap is well formed, an object state belongs to
  one memory object and has its size.
\<close>

definition family_ok :: "store \<Rightarrow> address_space list \<Rightarrow> bool" where
  "family_ok st spaces \<longleftrightarrow> cow_ok st spaces
   \<and> (\<forall>oid os. objs st oid = Some os \<longrightarrow> wf_object os)
   \<and> (\<forall>as \<in> set spaces. (\<forall>(mo, oid) \<in> objects_of as. \<forall>os. objs st oid = Some os \<longrightarrow> os_size os = mo_size mo)
        \<and> (\<forall>p \<in> objects_of as. \<forall>q \<in> objects_of as. snd p = snd q \<longrightarrow> p = q))"

lemma family_okD:
  assumes "family_ok st spaces"
  shows "cow_ok st spaces" "objs st oid = Some os \<Longrightarrow> wf_object os"
    "as \<in> set spaces \<Longrightarrow> (mo, oid) \<in> objects_of as \<Longrightarrow> objs st oid = Some os \<Longrightarrow> os_size os = mo_size mo"
    "as \<in> set spaces \<Longrightarrow> p \<in> objects_of as \<Longrightarrow> q \<in> objects_of as \<Longrightarrow> snd p = snd q \<Longrightarrow> p = q"
  using assms unfolding family_ok_def by blast+

text \<open>The byte at an offset of an object, as an address space sees it.\<close>

definition contents :: "env \<Rightarrow> store \<Rightarrow> address_space \<Rightarrow> memory_object \<Rightarrow> nat \<Rightarrow> int option" where
  "contents \<rho> st as mo i =
     (case findObject mo as of
        None \<Rightarrow> None
      | Some oid \<Rightarrow> map_option (\<lambda>os. obj_val \<rho> os i) (objs st oid))"

lemma family_bound:
  assumes f: "family_ok st spaces" and as: "as \<in> set spaces" and b: "(mo, oid) \<in> objects_of as"
  obtains os where "objs st oid = Some os" "wf_object os" "os_size os = mo_size mo"
    "findObject mo as = Some oid" "\<And>\<rho> i. contents \<rho> st as mo i = Some (obj_val \<rho> os i)"
proof -
  from as obtain k where k: "k < length spaces" "as = spaces ! k" by (metis in_set_conv_nth)
  have "binds as oid" using b by (auto simp: binds_def)
  with cow_okD(4)[OF family_okD(1)[OF f] k(1)] k(2) obtain os where os: "objs st oid = Some os" by blast
  have "space_ok as" using cow_okD(2)[OF family_okD(1)[OF f] k(1)] k(2) by simp
  then have fo: "findObject mo as = Some oid" using b by (auto simp: findObject_iff)
  show thesis
    using that[OF os family_okD(2)[OF f os] family_okD(3)[OF f as b os] fo] os fo
    by (simp add: contents_def)
qed


text \<open>What a space reads does not change from one moment to the next.\<close>

definition same_view :: "store \<Rightarrow> address_space \<Rightarrow> store \<Rightarrow> address_space \<Rightarrow> bool" where
  "same_view st as st' as' \<longleftrightarrow> fst ` objects_of as' = fst ` objects_of as
     \<and> (\<forall>mo \<in> fst ` objects_of as. \<forall>i < mo_size mo. \<forall>\<rho>. wf_env \<rho>
          \<longrightarrow> contents \<rho> st' as' mo i = contents \<rho> st as mo i)"

lemma same_view_refl: "same_view st as st as"
  by (simp add: same_view_def)

lemma same_view_trans: "same_view st as st' as' \<Longrightarrow> same_view st' as' st'' as'' \<Longrightarrow> same_view st as st'' as''"
  by (simp add: same_view_def)

lemma same_viewD:
  "same_view st as st' as' \<Longrightarrow> (mo, oid) \<in> objects_of as \<Longrightarrow> i < mo_size mo \<Longrightarrow> wf_env \<rho>
    \<Longrightarrow> contents \<rho> st' as' mo i = contents \<rho> st as mo i"
  unfolding same_view_def by force

lemma put_family_ok:
  assumes f: "family_ok st spaces" and os: "objs st oid = Some os"
    and wf: "wf_object os'" "os_size os' = os_size os" and fl: "same_flags os os'"
  shows "family_ok (put_object oid os os' st) spaces"
proof -
  have "cow_ok (st\<lparr>objs := (objs st)(oid \<mapsto> os')\<rparr>) spaces"
    using update_cow_ok[OF family_okD(1)[OF f] os] fl by (simp add: same_flags_def)
  then have "cow_ok (put_object oid os os' st) spaces"
    by (simp add: put_object_def cow_ok_def)
  then show ?thesis
    using family_okD(2,3,4)[OF f] os wf unfolding family_ok_def put_object_def
    by (auto split: if_splits)
qed

lemma put_contents:
  "findObject mo as = Some oid' \<Longrightarrow> objs st oid' = Some os' \<Longrightarrow>
    contents \<rho> (put_object oid os os1 st) as mo i
      = Some (obj_val \<rho> (if oid' = oid then os1 else os') i)"
  by (simp add: contents_def put_object_def)

text \<open>Storing an object with the same contents.\<close>

lemma put_same_view:
  assumes f: "family_ok st spaces" and as: "as \<in> set spaces" and os: "objs st oid = Some os"
    and same: "same_contents os os'"
  shows "same_view st as (put_object oid os os' st) as"
  unfolding same_view_def
proof (intro conjI ballI allI impI)
  fix mo i \<rho>
  assume mo: "mo \<in> fst ` objects_of as" and i: "i < mo_size mo" and \<rho>: "wf_env \<rho>"
  from mo obtain oid2 where "(mo, oid2) \<in> objects_of as" by force
  from family_bound[OF f as this] obtain os2 where os2: "objs st oid2 = Some os2"
    "os_size os2 = mo_size mo" "findObject mo as = Some oid2"
    "contents \<rho> st as mo i = Some (obj_val \<rho> os2 i)" by metis
  from put_contents[OF os2(3,1)] os2 os same_contentsD(3)[OF same _ \<rho>, of i] i
  show "contents \<rho> (put_object oid os os' st) as mo i = contents \<rho> st as mo i"
    by auto
qed simp

lemma heap_read8_ok:
  assumes f: "family_ok st spaces" and as: "as \<in> set spaces" and b: "(mo, oid) \<in> objects_of as"
    and i: "i < mo_size mo"
  shows "\<exists>e st'. heap_read8 oid i st = Inr (e, st') \<and> family_ok st' spaces
    \<and> (\<forall>as \<in> set spaces. same_view st as st' as)
    \<and> wf_expr e \<and> getWidth e = 8
    \<and> (\<forall>\<rho>. wf_env \<rho> \<longrightarrow> contents \<rho> st as mo i = Some (eval \<rho> e))
    \<and> (\<forall>o2. map_option readOnly (objs st' o2) = map_option readOnly (objs st o2))"
proof -
  from family_bound[OF f as b] obtain os where os: "objs st oid = Some os" "wf_object os"
    "os_size os = mo_size mo" "\<And>\<rho> i. contents \<rho> st as mo i = Some (obj_val \<rho> os i)" by metis
  from read8_ok[OF os(2), of i "const_arr_name st"] i os(3) obtain e os' where
    r: "read8 (const_arr_name st) i os = Inr (e, os')" "same_contents os os'" "wf_expr e"
      "getWidth e = 8" "\<And>\<rho>. wf_env \<rho> \<Longrightarrow> eval \<rho> e = obj_val \<rho> os i" by auto
  note fl = read8_flags[OF r(1)]
  let ?st = "put_object oid os os' st"
  have "heap_read8 oid i st = Inr (e, ?st)" using os r by (simp add: heap_read8_def map_res_def)
  moreover have "family_ok ?st spaces"
    by (rule put_family_ok[OF f os(1) same_contentsD(1,2)[OF r(2)] fl])
  moreover have "\<forall>as \<in> set spaces. same_view st as ?st as"
    using put_same_view[OF f _ os(1) r(2)] by blast
  moreover have "map_option readOnly (objs ?st o2) = map_option readOnly (objs st o2)" for o2
    using os fl by (simp add: put_object_def same_flags_def)
  ultimately show ?thesis using r os(4) by auto
qed

text \<open>Writing a byte to an object that no other space binds.\<close>

lemma heap_write8_ok:
  assumes f: "family_ok st spaces" and a: "a < length spaces" and b: "(mo, oid) \<in> objects_of (spaces ! a)"
    and excl: "\<And>j. j < length spaces \<Longrightarrow> j \<noteq> a \<Longrightarrow> \<not> binds (spaces ! j) oid"
    and i: "i < mo_size mo" and ve: "wf_expr ve" "getWidth ve = 8"
  shows "\<exists>st'. heap_write le oid i ve st = Inr st' \<and> family_ok st' spaces
    \<and> (\<forall>j < length spaces. j \<noteq> a \<longrightarrow> same_view st (spaces ! j) st' (spaces ! j))
    \<and> (\<forall>mo2 i2 \<rho>. mo2 \<in> fst ` objects_of (spaces ! a) \<longrightarrow> i2 < mo_size mo2 \<longrightarrow> wf_env \<rho> \<longrightarrow>
        contents \<rho> st' (spaces ! a) mo2 i2 = (if mo2 = mo \<and> i2 = i then Some (eval \<rho> ve)
          else contents \<rho> st (spaces ! a) mo2 i2))
    \<and> (\<forall>o2. map_option readOnly (objs st' o2) = map_option readOnly (objs st o2))"
proof -
  have am: "spaces ! a \<in> set spaces" using a by simp
  from family_bound[OF f am b] obtain os where os: "objs st oid = Some os" "wf_object os"
    "os_size os = mo_size mo" "\<And>\<rho> i. contents \<rho> st (spaces ! a) mo i = Some (obj_val \<rho> os i)" by metis
  from write_const_ok[OF os(2), of 1 i ve le] i os(3) ve obtain os' where
    w: "write_const le i ve os = Inr os'" "word_written os le 1 (\<lambda>\<rho>. int i) (\<lambda>\<rho>. eval \<rho> ve) os'" by auto
  note fl = write_const_flags[OF w(1)]
  note ww = word_writtenD[OF w(2)]
  let ?st = "put_object oid os os' st"
  have val: "obj_val \<rho> os' p = (if p = i then eval \<rho> ve else obj_val \<rho> os p)"
    if "wf_env \<rho>" "p < mo_size mo" for \<rho> p
  proof -
    have "in_width 8 (eval \<rho> ve)" using eval_in_width[OF that(1) ve(1)] ve(2) by simp
    then have "byte_of 0 (eval \<rho> ve) = eval \<rho> ve" by (simp add: byte_of_def take_bit_in_width)
    then show ?thesis using ww(3)[OF that(1), of p] that(2) os(3) i
      by (auto simp: byte_index_def)
  qed
  have "heap_write le oid i ve st = Inr ?st" using os w by (simp add: heap_write_def map_res_def)
  moreover have "family_ok ?st spaces" by (rule put_family_ok[OF f os(1) ww(1,2) fl])
  moreover have "same_view st (spaces ! j) ?st (spaces ! j)" if j: "j < length spaces" "j \<noteq> a" for j
    unfolding same_view_def
  proof (intro conjI ballI allI impI)
    fix mo2 i2 \<rho>
    assume mo2: "mo2 \<in> fst ` objects_of (spaces ! j)"
    from mo2 obtain oid2 where b2: "(mo2, oid2) \<in> objects_of (spaces ! j)" by force
    then have ne: "oid2 \<noteq> oid" using excl[OF j] by (auto simp: binds_def)
    have jm: "spaces ! j \<in> set spaces" using j by simp
    from family_bound[OF f jm b2] obtain os2 where os2: "objs st oid2 = Some os2"
      "findObject mo2 (spaces ! j) = Some oid2"
      "contents \<rho> st (spaces ! j) mo2 i2 = Some (obj_val \<rho> os2 i2)" by metis
    from put_contents[OF os2(2,1)] ne os2(3)
    show "contents \<rho> ?st (spaces ! j) mo2 i2 = contents \<rho> st (spaces ! j) mo2 i2" by simp
  qed simp
  moreover have "contents \<rho> ?st (spaces ! a) mo2 i2 = (if mo2 = mo \<and> i2 = i then Some (eval \<rho> ve)
      else contents \<rho> st (spaces ! a) mo2 i2)"
    if h: "mo2 \<in> fst ` objects_of (spaces ! a)" "i2 < mo_size mo2" "wf_env \<rho>" for mo2 i2 \<rho>
  proof -
    from h(1) obtain oid2 where b2: "(mo2, oid2) \<in> objects_of (spaces ! a)" by force
    from family_bound[OF f am b2] obtain os2 where os2: "objs st oid2 = Some os2"
      "findObject mo2 (spaces ! a) = Some oid2"
      "contents \<rho> st (spaces ! a) mo2 i2 = Some (obj_val \<rho> os2 i2)" by metis
    have "oid2 = oid \<longleftrightarrow> mo2 = mo"
      using family_okD(4)[OF f am b b2] os2(2) family_bound[OF f am b] by fastforce
    with put_contents[OF os2(2,1), of \<rho> oid os os' i2] os2 os val[OF h(3), of i2] h(2)
    show ?thesis by auto
  qed
  moreover have "map_option readOnly (objs ?st o2) = map_option readOnly (objs st o2)" for o2
    using os fl by (simp add: put_object_def same_flags_def)
  ultimately show ?thesis by blast
qed


section \<open>Getting a writeable object\<close>

text \<open>
  \<open>getWriteable\<close> on a bound, writeable object always returns, changes nothing any space
  reads, and gives an object that only this space binds.
\<close>

lemma replace_binding:
  assumes ok: "space_ok as" and b: "(mo, oid) \<in> objects_of as"
  shows "objects_of (as\<lparr>objects := tree_replace address_of (mo, n) (objects as)\<rparr>)
    = insert (mo, n) {q \<in> objects_of as. fst q \<noteq> mo}"
proof -
  have "q \<in> objects_of as \<Longrightarrow> address_of q \<noteq> mo_address mo \<longleftrightarrow> fst q \<noteq> mo" for q
    using tree_lookup_set[OF ok] b unfolding objects_of_def by (metis fst_conv option.inject)
  then show ?thesis by (auto simp: objects_of_replace[OF ok])
qed

lemma set_update: "x \<in> set (xs[a := y]) \<Longrightarrow> x = y \<or> x \<in> set xs"
  by (metis set_update_subset_insert insertE subsetD)

lemma getWriteable_ok:
  assumes f: "family_ok st spaces" and a: "a < length spaces" and b: "(mo, oid) \<in> objects_of (spaces ! a)"
    and w: "map_option readOnly (objs st oid) = Some False"
  shows "\<exists>oid' as' st'. getWriteable mo oid (spaces ! a) st = Inr (oid', as', st')
    \<and> family_ok st' (spaces[a := as']) \<and> (mo, oid') \<in> objects_of as'
    \<and> (\<forall>q. fst q \<noteq> mo \<longrightarrow> (q \<in> objects_of as' \<longleftrightarrow> q \<in> objects_of (spaces ! a)))
    \<and> same_view st (spaces ! a) st' as'
    \<and> (\<forall>j < length spaces. j \<noteq> a \<longrightarrow> \<not> binds (spaces ! j) oid' \<and> same_view st (spaces ! j) st' (spaces ! j))
    \<and> (\<forall>o2. objs st o2 \<noteq> None \<longrightarrow> objs st' o2 = objs st o2)"
proof -
  let ?as = "spaces ! a"
  note cow = family_okD(1)[OF f]
  have ok: "space_ok ?as" by (rule cow_okD(2)[OF cow a])
  have am: "?as \<in> set spaces" using a by simp
  from family_bound[OF f am b] obtain os where os: "objs st oid = Some os" "wf_object os"
    "os_size os = mo_size mo" by metis
  have nro: "\<not> readOnly os" using w os(1) by simp
  from nro have "\<exists>oid' as' st'. getWriteable mo oid ?as st = Inr (oid', as', st')"
    by (auto simp: getWriteable_def os copy_ObjectState_def Let_def)
  then obtain oid' as' st' where g: "getWriteable mo oid ?as st = Inr (oid', as', st')" by blast
  have bo: "binds ?as oid" using b by (auto simp: binds_def)
  have iso: "\<not> binds (spaces ! j) oid'" if "j < length spaces" "j \<noteq> a" for j
    using getWriteable_isolated(1)[OF cow a bo g that] .
  have cow': "cow_ok st' (spaces[a := as'])" by (rule getWriteable_cow_ok[OF cow a bo g])
  have keep: "objs st' o2 = objs st o2" if "objs st o2 \<noteq> None" for o2
    using g
  proof (cases rule: getWriteable_cases)
    case (copied os1 os')
    have "o2 \<noteq> next_oid st" using cow_okD(1)[OF cow, of o2] that by auto
    with copied show ?thesis by simp
  qed simp
  have other: "same_view st (spaces ! j) st' (spaces ! j)" if "j < length spaces" for j
    unfolding same_view_def
  proof (intro conjI ballI allI impI)
    fix mo2 i2 \<rho>
    assume mo2: "mo2 \<in> fst ` objects_of (spaces ! j)"
    then obtain oid2 where b2: "(mo2, oid2) \<in> objects_of (spaces ! j)" by force
    have jm: "spaces ! j \<in> set spaces" using that by simp
    from family_bound[OF f jm b2] obtain os2 where os2: "objs st oid2 = Some os2"
      "findObject mo2 (spaces ! j) = Some oid2" by metis
    with keep[of oid2] show "contents \<rho> st' (spaces ! j) mo2 i2 = contents \<rho> st (spaces ! j) mo2 i2"
      by (simp add: contents_def)
  qed simp
  show ?thesis
    using g
  proof (cases rule: getWriteable_cases)
    case (owned os1)
    with g f b iso keep other[OF a] other a show ?thesis by auto
  next
    case (copied os1 os')
    let ?n = "next_oid st"
    let ?os = "os'\<lparr>copyOnWriteOwner := cowKey ?as\<rparr>"
    have os1: "os1 = os" using copied(1) os(1) by simp
    have same: "same_contents os ?os"
      using wf_copy_ObjectState(1)[OF os(2) copied(4)[unfolded os1]] by (simp add: same_contents_def)
    note rb = replace_binding[OF ok b, of ?n, folded copied(6)]
    have objs': "objs st' ?n = Some ?os" using copied(7) by simp
    have n_new: "objs st ?n = None" using cow_okD(1)[OF cow] by blast
    have nb: "\<not> binds (spaces ! j) ?n" if "j < length spaces" for j
      using cow_okD(4)[OF cow that] n_new by fastforce
    have wf': "wf_object x" if "objs st' o2 = Some x" for o2 x
      using that copied(7) family_okD(2)[OF f] same_contentsD(1)[OF same] by (auto split: if_splits)
    have size': "os_size x = mo_size m"
      if "(m, o2) \<in> objects_of as" "objs st' o2 = Some x" "as = as' \<or> as \<in> set spaces" for m o2 as x
    proof (cases "o2 = ?n")
      case True
      have "as = as'"
      proof (rule ccontr)
        assume "as \<noteq> as'"
        with that(3) obtain j where "j < length spaces" "as = spaces ! j" by (metis in_set_conv_nth)
        with nb[of j] that(1) True show False by (auto simp: binds_def)
      qed
      with that(1) rb nb[OF a] True have "m = mo" by (auto simp: binds_def)
      with that(2) objs' True same_contentsD(2)[OF same] os(3) show ?thesis by simp
    next
      case False
      then have x: "objs st o2 = Some x" using that(2) copied(7) by simp
      have "(m, o2) \<in> objects_of ?as \<or> as \<in> set spaces" using that(1,3) rb False by auto
      then show ?thesis
        using family_okD(3)[OF f am _ x] family_okD(3)[OF f _ that(1) x] by blast
    qed
    have inj': "p = q" if "p \<in> objects_of as" "q \<in> objects_of as" "snd p = snd q" "as = as' \<or> as \<in> set spaces"
      for p q as
    proof (cases "as \<in> set spaces")
      case False
      have "p \<in> objects_of ?as \<Longrightarrow> snd p \<noteq> ?n" for p
        using nb[OF a] by (metis binds_def prod.collapse)
      moreover have "p \<in> insert (mo, ?n) (objects_of ?as)" "q \<in> insert (mo, ?n) (objects_of ?as)"
        using that False rb by auto
      ultimately show ?thesis using family_okD(4)[OF f am, of p q] that(3) by (metis insertE snd_conv)
    qed (use family_okD(4)[OF f _ that(1,2,3)] in blast)
    have fam: "family_ok st' (spaces[a := as'])"
      unfolding family_ok_def
    proof (intro conjI ballI cow')
      show "\<forall>oid os. objs st' oid = Some os \<longrightarrow> wf_object os" using wf' by blast
    next
      fix as p assume "as \<in> set (spaces[a := as'])" and p: "p \<in> objects_of as"
      then have as: "as = as' \<or> as \<in> set spaces" by (simp add: set_update)
      show "case p of (mo, oid) \<Rightarrow> \<forall>os. objs st' oid = Some os \<longrightarrow> os_size os = mo_size mo"
        using size' as p by (cases p) blast
    next
      fix as p q assume "as \<in> set (spaces[a := as'])" and pq: "p \<in> objects_of as" "q \<in> objects_of as"
      then have as: "as = as' \<or> as \<in> set spaces" by (simp add: set_update)
      show "snd p = snd q \<longrightarrow> p = q" using inj'[OF pq _ as] by blast
    qed
    have ok': "space_ok as'" using copied(6) space_ok_replace[OF ok] by simp
    have view: "same_view st ?as st' as'"
      unfolding same_view_def
    proof (intro conjI ballI allI impI)
      show "fst ` objects_of as' = fst ` objects_of ?as" unfolding rb using b by force
      fix mo2 i2 \<rho>
      assume mo2: "mo2 \<in> fst ` objects_of ?as" and i2: "i2 < mo_size mo2" and \<rho>: "wf_env \<rho>"
      from mo2 obtain oid2 where b2: "(mo2, oid2) \<in> objects_of ?as" by force
      from family_bound[OF f am b2] obtain os2 where os2: "objs st oid2 = Some os2"
        "contents \<rho> st ?as mo2 i2 = Some (obj_val \<rho> os2 i2)" "findObject mo2 ?as = Some oid2" by metis
      show "contents \<rho> st' as' mo2 i2 = contents \<rho> st ?as mo2 i2"
      proof (cases "mo2 = mo")
        case True
        have "findObject mo as' = Some ?n" using ok' rb by (auto simp: findObject_iff)
        moreover have "oid2 = oid" using os2(3) family_bound[OF f am b] True by (metis option.inject)
        ultimately show ?thesis
          using objs' os2 os True same_contentsD(3)[OF same _ \<rho>, of i2] i2 by (simp add: contents_def)
      next
        case False
        with b2 rb have "(mo2, oid2) \<in> objects_of as'" by auto
        then have "findObject mo2 as' = Some oid2" using ok' by (auto simp: findObject_iff)
        with os2 keep[of oid2] show ?thesis by (simp add: contents_def)
      qed
    qed
    have others: "q \<in> objects_of as' \<longleftrightarrow> q \<in> objects_of ?as" if "fst q \<noteq> mo" for q
      using that rb by auto
    have "(mo, oid') \<in> objects_of as'" using rb copied(5) by simp
    with g fam view iso other keep others show ?thesis by blast
  qed
qed

end
