(* ===== verification/ExprCompare.thy ===== *)
theory ExprCompare
  imports Expr "HOL-Library.Char_ord" "HOL-Library.List_Lexorder" "HOL-Library.Word"
begin

text \<open>
  The hash of an expression and the order \<open>Expr::compare\<close> on expressions
  (\<open>klee/lib/Expr/Expr.cpp\<close>, \<open>klee/lib/Expr/Updates.cpp\<close> and the
  \<open>compareContents\<close> methods of \<open>klee/include/klee/Expr/Expr.h\<close>), which is what
  \<open>std::set<ref<Expr>>\<close> sorts by, and the operations on such sets that the program uses.

  Hashes are 32-bit unsigned words. Two things lie outside the sources and are parameters:
  \<open>hv\<close>, LLVM's \<open>hash_value\<close> of an \<open>APInt\<close> wider than 64 bits, and
  \<open>plt\<close>, the order of the addresses of two \<open>Array\<close> objects, which the code falls
  back to for different arrays of one name. The table of pairs already found equal and the
  comparison of object addresses only save work and are left out.
\<close>

section \<open>Kinds and hashes\<close>

text \<open>The enumeration \<open>Expr::Kind\<close>.\<close>

primrec binKind_number :: "binKind \<Rightarrow> nat" where
  "binKind_number Add = 10" | "binKind_number Sub = 11" | "binKind_number Mul = 12"
| "binKind_number UDiv = 13" | "binKind_number SDiv = 14" | "binKind_number URem = 15"
| "binKind_number SRem = 16" | "binKind_number And = 17" | "binKind_number Or = 18"
| "binKind_number Xor = 19" | "binKind_number Shl = 20" | "binKind_number LShr = 21"
| "binKind_number AShr = 22" | "binKind_number Eq = 23" | "binKind_number Ne = 24"
| "binKind_number Ult = 25" | "binKind_number Ule = 26" | "binKind_number Ugt = 27"
| "binKind_number Uge = 28" | "binKind_number Slt = 29" | "binKind_number Sle = 30"
| "binKind_number Sgt = 31" | "binKind_number Sge = 32"

fun getKind :: "expr \<Rightarrow> nat" where
  "getKind (Constant w v) = 0"
| "getKind (NotOptimized e) = 1"
| "getKind (Read a ul i) = 3"
| "getKind (Select c t f) = 4"
| "getKind (Concat l r) = 5"
| "getKind (Extract e off w) = 6"
| "getKind (Cast k e w) = (case k of ZExt \<Rightarrow> 7 | SExt \<Rightarrow> 8)"
| "getKind (NotE e) = 9"
| "getKind (Binary k l r) = binKind_number k"

definition MAGIC_HASH_CONSTANT :: "32 word" where
  "MAGIC_HASH_CONSTANT = 39"

text \<open>\<open>Expr::computeHash\<close>: the generic rule, on the hashes of the kids.\<close>

definition computeHash :: "nat \<Rightarrow> 32 word list \<Rightarrow> 32 word" where
  "computeHash kind kids =
     fold (\<lambda>h res. (push_bit 1 res) XOR (h * MAGIC_HASH_CONSTANT)) kids
       (of_nat kind * MAGIC_HASH_CONSTANT)"

text \<open>The part of \<open>UpdateList::hash\<close> over the name; a \<open>char\<close> is signed.\<close>

definition hash_name :: "string \<Rightarrow> 32 word" where
  "hash_name s = fold (\<lambda>c res. res * MAGIC_HASH_CONSTANT + scast (of_char c :: 8 word)) s 0"

primrec hash :: "(width \<Rightarrow> int \<Rightarrow> 32 word) \<Rightarrow> expr \<Rightarrow> 32 word"
  and hash_nodes :: "(width \<Rightarrow> int \<Rightarrow> 32 word) \<Rightarrow> updates \<Rightarrow> 32 word" where
  "hash hv (Constant w v) =
     (if w \<le> 64 then word_of_int v else hv w v) XOR (of_nat w * MAGIC_HASH_CONSTANT)"
| "hash hv (NotOptimized e) = computeHash 1 [hash hv e]"
| "hash hv (Read a ul i) =
     hash hv i * MAGIC_HASH_CONSTANT XOR (hash_name (arr_name a) XOR hash_nodes hv ul)"
| "hash hv (Select c t f) = computeHash 4 [hash hv c, hash hv t, hash hv f]"
| "hash hv (Concat l r) = computeHash 5 [hash hv l, hash hv r]"
| "hash hv (Extract e off w) =
     of_nat off * MAGIC_HASH_CONSTANT XOR of_nat w * MAGIC_HASH_CONSTANT
       XOR hash hv e * MAGIC_HASH_CONSTANT"
| "hash hv (Cast k e w) = of_nat w * MAGIC_HASH_CONSTANT XOR hash hv e * MAGIC_HASH_CONSTANT"
| "hash hv (NotE e) = hash hv e * MAGIC_HASH_CONSTANT * 9"
| "hash hv (Binary k l r) = computeHash (binKind_number k) [hash hv l, hash hv r]"
| "hash_nodes hv UNull = 0"
| "hash_nodes hv (UNode i v u) = (hash hv i XOR hash hv v) XOR hash_nodes hv u"

section \<open>The comparison\<close>

text \<open>
  \<open>three_way\<close> is the code's idiom \<open>if (x != y) return x < y ? -1 : 1\<close>, and
  \<open>r andThen s\<close> is \<open>if (int res = r) return res;\<close> followed by \<open>s\<close>.
\<close>

definition three_way :: "'a::linorder \<Rightarrow> 'a \<Rightarrow> int" where
  "three_way x y = (if x = y then 0 else if x < y then - 1 else 1)"

definition andThen :: "int \<Rightarrow> int \<Rightarrow> int" where
  "andThen r s = (if r \<noteq> 0 then r else s)"

definition compare_root :: "(array \<Rightarrow> array \<Rightarrow> bool) \<Rightarrow> array \<Rightarrow> array \<Rightarrow> int" where
  "compare_root plt a b =
     andThen (three_way (arr_name a) (arr_name b))
       (if a \<noteq> b then if plt a b then - 1 else 1 else 0)"

text \<open>The head of \<open>Expr::compare\<close>: first by kind, then by hash.\<close>

definition compare_head :: "(width \<Rightarrow> int \<Rightarrow> 32 word) \<Rightarrow> expr \<Rightarrow> expr \<Rightarrow> int" where
  "compare_head hv a b =
     andThen (three_way (getKind a) (getKind b)) (three_way (hash hv a) (hash hv b))"

primrec compare ::
    "(width \<Rightarrow> int \<Rightarrow> 32 word) \<Rightarrow> (array \<Rightarrow> array \<Rightarrow> bool) \<Rightarrow> expr \<Rightarrow> expr \<Rightarrow> int"
  and compare_nodes ::
    "(width \<Rightarrow> int \<Rightarrow> 32 word) \<Rightarrow> (array \<Rightarrow> array \<Rightarrow> bool) \<Rightarrow> updates \<Rightarrow> updates \<Rightarrow> int" where
  "compare hv plt (Constant w v) b =
     andThen (compare_head hv (Constant w v) b)
       (case b of Constant w' v' \<Rightarrow> andThen (three_way w w') (three_way v v') | _ \<Rightarrow> 0)"
| "compare hv plt (NotOptimized e) b =
     andThen (compare_head hv (NotOptimized e) b)
       (case b of NotOptimized e' \<Rightarrow> compare hv plt e e' | _ \<Rightarrow> 0)"
| "compare hv plt (Read a ul i) b =
     andThen (compare_head hv (Read a ul i) b)
       (case b of Read a' ul' i' \<Rightarrow>
           andThen (compare_root plt a a')
            (andThen (three_way (getSize ul) (getSize ul'))
              (andThen (compare_nodes hv plt ul ul') (compare hv plt i i')))
        | _ \<Rightarrow> 0)"
| "compare hv plt (Select c t f) b =
     andThen (compare_head hv (Select c t f) b)
       (case b of Select c' t' f' \<Rightarrow>
           andThen (compare hv plt c c') (andThen (compare hv plt t t') (compare hv plt f f'))
        | _ \<Rightarrow> 0)"
| "compare hv plt (Concat l r) b =
     andThen (compare_head hv (Concat l r) b)
       (case b of Concat l' r' \<Rightarrow>
           andThen (three_way (getWidth (Concat l r)) (getWidth (Concat l' r')))
            (andThen (compare hv plt l l') (compare hv plt r r'))
        | _ \<Rightarrow> 0)"
| "compare hv plt (Extract e off w) b =
     andThen (compare_head hv (Extract e off w) b)
       (case b of Extract e' off' w' \<Rightarrow>
           andThen (three_way off off') (andThen (three_way w w') (compare hv plt e e'))
        | _ \<Rightarrow> 0)"
| "compare hv plt (Cast k e w) b =
     andThen (compare_head hv (Cast k e w) b)
       (case b of Cast k' e' w' \<Rightarrow> andThen (three_way w w') (compare hv plt e e') | _ \<Rightarrow> 0)"
| "compare hv plt (NotE e) b =
     andThen (compare_head hv (NotE e) b)
       (case b of NotE e' \<Rightarrow> compare hv plt e e' | _ \<Rightarrow> 0)"
| "compare hv plt (Binary k l r) b =
     andThen (compare_head hv (Binary k l r) b)
       (case b of Binary k' l' r' \<Rightarrow> andThen (compare hv plt l l') (compare hv plt r r') | _ \<Rightarrow> 0)"
| "compare_nodes hv plt UNull u = 0"
| "compare_nodes hv plt (UNode i v n) u =
     (case u of UNull \<Rightarrow> 0
      | UNode i' v' n' \<Rightarrow>
          andThen (andThen (compare hv plt i i') (compare hv plt v v'))
            (compare_nodes hv plt n n'))"

text \<open>\<open>ref<Expr>::operator<\<close>.\<close>

definition expr_lt ::
    "(width \<Rightarrow> int \<Rightarrow> 32 word) \<Rightarrow> (array \<Rightarrow> array \<Rightarrow> bool) \<Rightarrow> expr \<Rightarrow> expr \<Rightarrow> bool" where
  "expr_lt hv plt a b \<longleftrightarrow> compare hv plt a b < 0"


section \<open>It is a total order\<close>

lemma andThen_0 [simp]: "andThen r s = 0 \<longleftrightarrow> r = 0 \<and> s = 0"
  by (simp add: andThen_def)

lemma three_way_0 [simp]: "three_way x y = 0 \<longleftrightarrow> x = y"
  by (simp add: three_way_def)

lemma three_way_refl [simp]: "three_way x x = 0"
  by simp

lemma compare_root_0 [simp]: "compare_root plt a b = 0 \<longleftrightarrow> a = b"
  by (auto simp: compare_root_def)

lemma compare_head_refl [simp]: "compare_head hv a a = 0"
  by (simp add: compare_head_def)

lemma compare_refl: "compare hv plt a a = 0" "compare_nodes hv plt u u = 0"
  by (induction a and u) auto

lemma binKind_number_inj: "binKind_number k = binKind_number k' \<longleftrightarrow> k = k'"
  by (cases k; cases k'; simp)

lemma binKind_number_ge: "10 \<le> binKind_number k"
  by (cases k) simp_all

lemma getKind_binary: "getKind e = binKind_number k \<Longrightarrow> \<exists>l r. e = Binary k l r"
  using binKind_number_ge[of k] by (cases e) (auto simp: binKind_number_inj split: castKind.splits)

lemma binKind_number_small:
  "n < 10 \<Longrightarrow> binKind_number k \<noteq> n" "n < 10 \<Longrightarrow> n \<noteq> binKind_number k"
  using binKind_number_ge[of k] by linarith+

lemma getKind_cases:
  "getKind (Constant w v) = getKind b \<Longrightarrow> \<exists>w' v'. b = Constant w' v'"
  "getKind (NotOptimized e) = getKind b \<Longrightarrow> \<exists>e'. b = NotOptimized e'"
  "getKind (Read a ul i) = getKind b \<Longrightarrow> \<exists>a' ul' i'. b = Read a' ul' i'"
  "getKind (Select c t f) = getKind b \<Longrightarrow> \<exists>c' t' f'. b = Select c' t' f'"
  "getKind (Concat l r) = getKind b \<Longrightarrow> \<exists>l' r'. b = Concat l' r'"
  "getKind (Extract e off w) = getKind b \<Longrightarrow> \<exists>e' off' w'. b = Extract e' off' w'"
  "getKind (Cast ck e w) = getKind b \<Longrightarrow> \<exists>e' w'. b = Cast ck e' w'"
  "getKind (NotE e) = getKind b \<Longrightarrow> \<exists>e'. b = NotE e'"
  "getKind (Binary k l r) = getKind b \<Longrightarrow> \<exists>l' r'. b = Binary k l' r'"
  by (cases b; simp add: binKind_number_small binKind_number_inj split: castKind.splits)+

lemma compare_kind: "compare hv plt a b = 0 \<Longrightarrow> getKind a = getKind b"
  by (cases a) (auto simp: compare_head_def)

lemma compare_nodes_UNull: "getSize u = 0 \<longleftrightarrow> u = UNull"
  by (cases u) auto

lemma compare_imp_eq:
  "compare hv plt a b = 0 \<Longrightarrow> a = b"
  "compare_nodes hv plt u u' = 0 \<Longrightarrow> getSize u = getSize u' \<Longrightarrow> u = u'"
proof (induction a and u arbitrary: b and u')
  case (Constant w v)
  from compare_kind[OF this] obtain w' v' where "b = Constant w' v'" using getKind_cases(1) by blast
  with Constant show ?case by simp
next
  case (NotOptimized e)
  from compare_kind[OF NotOptimized(2)] obtain e' where "b = NotOptimized e'"
    using getKind_cases(2) by blast
  with NotOptimized show ?case by simp
next
  case (Read a ul i)
  from compare_kind[OF Read(3)] obtain a' ul' i' where "b = Read a' ul' i'"
    using getKind_cases(3) by blast
  with Read show ?case by simp
next
  case (Select c t f)
  from compare_kind[OF Select(4)] obtain c' t' f' where "b = Select c' t' f'"
    using getKind_cases(4) by blast
  with Select show ?case by simp
next
  case (Concat l r)
  from compare_kind[OF Concat(3)] obtain l' r' where "b = Concat l' r'"
    using getKind_cases(5) by blast
  with Concat show ?case by simp
next
  case (Extract e off w)
  from compare_kind[OF Extract(2)] obtain e' off' w' where "b = Extract e' off' w'"
    using getKind_cases(6) by blast
  with Extract show ?case by simp
next
  case (Cast k e w)
  from compare_kind[OF Cast(2)] obtain e' w' where "b = Cast k e' w'"
    using getKind_cases(7) by blast
  with Cast show ?case by simp
next
  case (NotE e)
  from compare_kind[OF NotE(2)] obtain e' where "b = NotE e'"
    using getKind_cases(8) by blast
  with NotE show ?case by simp
next
  case (Binary k l r)
  from compare_kind[OF Binary(3)] obtain l' r' where "b = Binary k l' r'"
    using getKind_cases(9) by blast
  with Binary show ?case by simp
next
  case UNull
  then show ?case by (cases u') auto
next
  case (UNode i v n)
  then show ?case by (cases u') auto
qed

lemma compare_eq: "compare hv plt a b = 0 \<longleftrightarrow> a = b"
  using compare_imp_eq(1) compare_refl(1) by metis

text \<open>
  The three ways of a comparison fit together: \<open>cmp_ok\<close> says of a comparison \<open>c\<close> at
  its two arguments that swapping them swaps the sign, and \<open>cmp_trans\<close> at three arguments
  that "less or equal" composes.
\<close>

definition pointer_order :: "(array \<Rightarrow> array \<Rightarrow> bool) \<Rightarrow> bool" where
  "pointer_order plt \<longleftrightarrow> (\<forall>a b. a \<noteq> b \<longrightarrow> plt a b = (\<not> plt b a))
     \<and> (\<forall>a b c. plt a b \<longrightarrow> plt b c \<longrightarrow> a \<noteq> c \<longrightarrow> plt a c)"

lemma andThen_minus: "andThen (- r) (- s) = - andThen r s"
  by (simp add: andThen_def)

lemma three_way_swap: "three_way y x = - three_way x y"
  by (auto simp: three_way_def)

lemma compare_head_swap: "compare_head hv b a = - compare_head hv a b"
  unfolding compare_head_def andThen_minus[symmetric] by (metis three_way_swap)

lemma compare_root_swap: "pointer_order plt \<Longrightarrow> compare_root plt b a = - compare_root plt a b"
proof (cases "a = b")
  case False
  assume "pointer_order plt"
  with False have p: "plt b a = (\<not> plt a b)" unfolding pointer_order_def by blast
  show ?thesis
    by (cases "arr_name a" "arr_name b" rule: linorder_cases)
      (use False in \<open>simp_all add: compare_root_def andThen_def three_way_def p less_not_sym\<close>)
qed (simp add: compare_root_def)


lemma andThen_zero [simp]: "andThen 0 s = s"
  by (simp add: andThen_def)

lemma andThen_neg: "x = - x' \<Longrightarrow> (x' = 0 \<Longrightarrow> y = - y') \<Longrightarrow> andThen x y = - andThen x' y'"
  by (simp add: andThen_def)

lemma compare_head_first: "compare_head hv a b \<noteq> 0 \<Longrightarrow> compare hv plt a b = compare_head hv a b"
  by (cases a) (simp_all add: andThen_def)

lemma compare_head_0D: "compare_head hv a b = 0 \<Longrightarrow> getKind a = getKind b"
  by (simp add: compare_head_def)

lemma compare_swapI:
  assumes "getKind a = getKind b \<Longrightarrow> compare_head hv a b = 0 \<Longrightarrow> compare_head hv b a = 0
    \<Longrightarrow> compare hv plt b a = - compare hv plt a b"
  shows "compare hv plt b a = - compare hv plt a b"
proof (cases "compare_head hv a b = 0")
  case True
  with compare_head_swap[of hv b a] assms compare_head_0D[OF True] show ?thesis by simp
next
  case False
  with compare_head_swap[of hv b a] have "compare_head hv b a \<noteq> 0" by simp
  with False compare_head_swap[of hv b a] show ?thesis by (simp add: compare_head_first)
qed

lemma compare_swap:
  assumes p: "pointer_order plt"
  shows "compare hv plt b a = - compare hv plt a b"
    "getSize u = getSize u' \<Longrightarrow> compare_nodes hv plt u' u = - compare_nodes hv plt u u'"
proof (induction a and u arbitrary: b and u')
  case (Constant w v)
  show ?case
  proof (rule compare_swapI)
    assume k: "getKind (Constant w v) = getKind b"
      and h: "compare_head hv (Constant w v) b = 0" "compare_head hv b (Constant w v) = 0"
    from getKind_cases(1)[OF k] obtain w' v' where b: "b = Constant w' v'" by blast
    show "compare hv plt b (Constant w v) = - compare hv plt (Constant w v) b"
      using h unfolding b by (auto intro!: andThen_neg three_way_swap compare_root_swap[OF p])
  qed
next
  case (NotOptimized e)
  show ?case
  proof (rule compare_swapI)
    assume k: "getKind (NotOptimized e) = getKind b"
      and h: "compare_head hv (NotOptimized e) b = 0" "compare_head hv b (NotOptimized e) = 0"
    from getKind_cases(2)[OF k] obtain e' where b: "b = NotOptimized e'" by blast
    show "compare hv plt b (NotOptimized e) = - compare hv plt (NotOptimized e) b"
      using h NotOptimized.IH unfolding b by (auto intro!: andThen_neg three_way_swap compare_root_swap[OF p])
  qed
next
  case (Read a ul i)
  show ?case
  proof (rule compare_swapI)
    assume k: "getKind (Read a ul i) = getKind b"
      and h: "compare_head hv (Read a ul i) b = 0" "compare_head hv b (Read a ul i) = 0"
    from getKind_cases(3)[OF k] obtain a' ul' i' where b: "b = Read a' ul' i'" by blast
    show "compare hv plt b (Read a ul i) = - compare hv plt (Read a ul i) b"
      using h Read.IH unfolding b by (auto intro!: andThen_neg three_way_swap compare_root_swap[OF p])
  qed
next
  case (Select c t f)
  show ?case
  proof (rule compare_swapI)
    assume k: "getKind (Select c t f) = getKind b"
      and h: "compare_head hv (Select c t f) b = 0" "compare_head hv b (Select c t f) = 0"
    from getKind_cases(4)[OF k] obtain c' t' f' where b: "b = Select c' t' f'" by blast
    show "compare hv plt b (Select c t f) = - compare hv plt (Select c t f) b"
      using h Select.IH unfolding b by (auto intro!: andThen_neg three_way_swap compare_root_swap[OF p])
  qed
next
  case (Concat l r)
  show ?case
  proof (rule compare_swapI)
    assume k: "getKind (Concat l r) = getKind b"
      and h: "compare_head hv (Concat l r) b = 0" "compare_head hv b (Concat l r) = 0"
    from getKind_cases(5)[OF k] obtain l' r' where b: "b = Concat l' r'" by blast
    show "compare hv plt b (Concat l r) = - compare hv plt (Concat l r) b"
      using h Concat.IH unfolding b by (auto intro!: andThen_neg three_way_swap compare_root_swap[OF p])
  qed
next
  case (Extract e off w)
  show ?case
  proof (rule compare_swapI)
    assume k: "getKind (Extract e off w) = getKind b"
      and h: "compare_head hv (Extract e off w) b = 0" "compare_head hv b (Extract e off w) = 0"
    from getKind_cases(6)[OF k] obtain e' off' w' where b: "b = Extract e' off' w'" by blast
    show "compare hv plt b (Extract e off w) = - compare hv plt (Extract e off w) b"
      using h Extract.IH unfolding b by (auto intro!: andThen_neg three_way_swap compare_root_swap[OF p])
  qed
next
  case (Cast k e w)
  show ?case
  proof (rule compare_swapI)
    assume k: "getKind (Cast k e w) = getKind b"
      and h: "compare_head hv (Cast k e w) b = 0" "compare_head hv b (Cast k e w) = 0"
    from getKind_cases(7)[OF k] obtain e' w' where b: "b = Cast k e' w'" by blast
    show "compare hv plt b (Cast k e w) = - compare hv plt (Cast k e w) b"
      using h Cast.IH unfolding b by (auto intro!: andThen_neg three_way_swap compare_root_swap[OF p])
  qed
next
  case (NotE e)
  show ?case
  proof (rule compare_swapI)
    assume k: "getKind (NotE e) = getKind b"
      and h: "compare_head hv (NotE e) b = 0" "compare_head hv b (NotE e) = 0"
    from getKind_cases(8)[OF k] obtain e' where b: "b = NotE e'" by blast
    show "compare hv plt b (NotE e) = - compare hv plt (NotE e) b"
      using h NotE.IH unfolding b by (auto intro!: andThen_neg three_way_swap compare_root_swap[OF p])
  qed
next
  case (Binary k l r)
  show ?case
  proof (rule compare_swapI)
    assume k: "getKind (Binary k l r) = getKind b"
      and h: "compare_head hv (Binary k l r) b = 0" "compare_head hv b (Binary k l r) = 0"
    from getKind_cases(9)[OF k] obtain l' r' where b: "b = Binary k l' r'" by blast
    show "compare hv plt b (Binary k l r) = - compare hv plt (Binary k l r) b"
      using h Binary.IH unfolding b by (auto intro!: andThen_neg three_way_swap compare_root_swap[OF p])
  qed
next
  case UNull
  then show ?case by (cases u') auto
next
  case (UNode i v n)
  then show ?case by (cases u') (auto intro!: andThen_neg)
qed

text \<open>
  \<open>tri x y z\<close>: \<open>x\<close>, \<open>y\<close>, \<open>z\<close> are what a transitive comparison says of the
  pairs (a, b), (b, c) and (a, c).
\<close>

definition tri :: "int \<Rightarrow> int \<Rightarrow> int \<Rightarrow> bool" where
  "tri x y z \<longleftrightarrow> (x = 0 \<and> y = 0 \<longrightarrow> z = 0) \<and> (x \<le> 0 \<and> y \<le> 0 \<and> (x < 0 \<or> y < 0) \<longrightarrow> z < 0)"

lemma andThen_tri:
  assumes "tri x y z" "x = 0 \<Longrightarrow> y = 0 \<Longrightarrow> tri x' y' z'"
  shows "tri (andThen x x') (andThen y y') (andThen z z')"
  using assms unfolding tri_def andThen_def by (auto split: if_splits)

lemma three_way_tri: "tri (three_way a b) (three_way b c) (three_way a c)"
  by (auto simp: tri_def three_way_def)

lemma compare_root_tri:
  assumes p: "pointer_order plt"
  shows "tri (compare_root plt a b) (compare_root plt b c) (compare_root plt a c)"
  unfolding compare_root_def
proof (rule andThen_tri[OF three_way_tri])
  have t: "plt a b \<Longrightarrow> plt b c \<Longrightarrow> a \<noteq> c \<Longrightarrow> plt a c"
    and s: "a \<noteq> b \<Longrightarrow> plt a b = (\<not> plt b a)"
    using p unfolding pointer_order_def by blast+
  show "tri (if a \<noteq> b then if plt a b then - 1 else 1 else 0)
      (if b \<noteq> c then if plt b c then - 1 else 1 else 0) (if a \<noteq> c then if plt a c then - 1 else 1 else 0)"
    using t s by (cases "a = b"; cases "b = c"; cases "a = c"; cases "plt a b"; cases "plt b c")
      (simp_all add: tri_def)
qed

lemma compare_triI:
  assumes "getKind a = getKind b \<Longrightarrow> getKind b = getKind d \<Longrightarrow> compare_head hv a b = 0
    \<Longrightarrow> compare_head hv b d = 0 \<Longrightarrow> compare_head hv a d = 0
    \<Longrightarrow> tri (compare hv plt a b) (compare hv plt b d) (compare hv plt a d)"
  shows "tri (compare hv plt a b) (compare hv plt b d) (compare hv plt a d)"
proof -
  have absorb: "compare hv plt x y = andThen (compare_head hv x y) (compare hv plt x y)" for x y
    by (cases "compare_head hv x y = 0") (simp_all add: compare_head_first andThen_def)
  have head: "tri (compare_head hv a b) (compare_head hv b d) (compare_head hv a d)"
    unfolding compare_head_def by (intro andThen_tri three_way_tri)
  have "tri (andThen (compare_head hv a b) (compare hv plt a b))
      (andThen (compare_head hv b d) (compare hv plt b d)) (andThen (compare_head hv a d) (compare hv plt a d))"
    using head assms compare_head_0D by (intro andThen_tri) (auto simp: tri_def)
  then show ?thesis using absorb by metis
qed

lemma compare_tri:
  assumes p: "pointer_order plt"
  shows "tri (compare hv plt a b) (compare hv plt b d) (compare hv plt a d)"
    "getSize u = getSize u2 \<Longrightarrow> getSize u2 = getSize u3 \<Longrightarrow>
      tri (compare_nodes hv plt u u2) (compare_nodes hv plt u2 u3) (compare_nodes hv plt u u3)"
proof (induction a and u arbitrary: b d and u2 u3)
  case (Constant w v)
  show ?case
  proof (rule compare_triI)
    assume k: "getKind (Constant w v) = getKind b" "getKind b = getKind d"
      and h: "compare_head hv (Constant w v) b = 0" "compare_head hv b d = 0" "compare_head hv (Constant w v) d = 0"
    from getKind_cases(1)[OF k(1)] obtain w' v' where b: "b = Constant w' v'" by blast
    from getKind_cases(1)[OF k(1)[unfolded k(2)]] obtain w2 v2 where d: "d = Constant w2 v2" by blast
    show "tri (compare hv plt (Constant w v) b) (compare hv plt b d) (compare hv plt (Constant w v) d)"
      using h unfolding b d by (auto intro!: andThen_tri three_way_tri compare_root_tri[OF p])
  qed
next
  case (NotOptimized e)
  show ?case
  proof (rule compare_triI)
    assume k: "getKind (NotOptimized e) = getKind b" "getKind b = getKind d"
      and h: "compare_head hv (NotOptimized e) b = 0" "compare_head hv b d = 0" "compare_head hv (NotOptimized e) d = 0"
    from getKind_cases(2)[OF k(1)] obtain e' where b: "b = NotOptimized e'" by blast
    from getKind_cases(2)[OF k(1)[unfolded k(2)]] obtain e2 where d: "d = NotOptimized e2" by blast
    show "tri (compare hv plt (NotOptimized e) b) (compare hv plt b d) (compare hv plt (NotOptimized e) d)"
      using h NotOptimized.IH unfolding b d by (auto intro!: andThen_tri three_way_tri compare_root_tri[OF p])
  qed
next
  case (Read a ul i)
  show ?case
  proof (rule compare_triI)
    assume k: "getKind (Read a ul i) = getKind b" "getKind b = getKind d"
      and h: "compare_head hv (Read a ul i) b = 0" "compare_head hv b d = 0" "compare_head hv (Read a ul i) d = 0"
    from getKind_cases(3)[OF k(1)] obtain a' ul' i' where b: "b = Read a' ul' i'" by blast
    from getKind_cases(3)[OF k(1)[unfolded k(2)]] obtain a2 ul2 i2 where d: "d = Read a2 ul2 i2" by blast
    show "tri (compare hv plt (Read a ul i) b) (compare hv plt b d) (compare hv plt (Read a ul i) d)"
      using h Read.IH unfolding b d by (auto intro!: andThen_tri three_way_tri compare_root_tri[OF p])
  qed
next
  case (Select c t f)
  show ?case
  proof (rule compare_triI)
    assume k: "getKind (Select c t f) = getKind b" "getKind b = getKind d"
      and h: "compare_head hv (Select c t f) b = 0" "compare_head hv b d = 0" "compare_head hv (Select c t f) d = 0"
    from getKind_cases(4)[OF k(1)] obtain c' t' f' where b: "b = Select c' t' f'" by blast
    from getKind_cases(4)[OF k(1)[unfolded k(2)]] obtain c2 t2 f2 where d: "d = Select c2 t2 f2" by blast
    show "tri (compare hv plt (Select c t f) b) (compare hv plt b d) (compare hv plt (Select c t f) d)"
      using h Select.IH unfolding b d by (auto intro!: andThen_tri three_way_tri compare_root_tri[OF p])
  qed
next
  case (Concat l r)
  show ?case
  proof (rule compare_triI)
    assume k: "getKind (Concat l r) = getKind b" "getKind b = getKind d"
      and h: "compare_head hv (Concat l r) b = 0" "compare_head hv b d = 0" "compare_head hv (Concat l r) d = 0"
    from getKind_cases(5)[OF k(1)] obtain l' r' where b: "b = Concat l' r'" by blast
    from getKind_cases(5)[OF k(1)[unfolded k(2)]] obtain l2 r2 where d: "d = Concat l2 r2" by blast
    show "tri (compare hv plt (Concat l r) b) (compare hv plt b d) (compare hv plt (Concat l r) d)"
      using h Concat.IH unfolding b d by (auto intro!: andThen_tri three_way_tri compare_root_tri[OF p])
  qed
next
  case (Extract e off w)
  show ?case
  proof (rule compare_triI)
    assume k: "getKind (Extract e off w) = getKind b" "getKind b = getKind d"
      and h: "compare_head hv (Extract e off w) b = 0" "compare_head hv b d = 0" "compare_head hv (Extract e off w) d = 0"
    from getKind_cases(6)[OF k(1)] obtain e' off' w' where b: "b = Extract e' off' w'" by blast
    from getKind_cases(6)[OF k(1)[unfolded k(2)]] obtain e2 off2 w2 where d: "d = Extract e2 off2 w2" by blast
    show "tri (compare hv plt (Extract e off w) b) (compare hv plt b d) (compare hv plt (Extract e off w) d)"
      using h Extract.IH unfolding b d by (auto intro!: andThen_tri three_way_tri compare_root_tri[OF p])
  qed
next
  case (Cast k e w)
  show ?case
  proof (rule compare_triI)
    assume k: "getKind (Cast k e w) = getKind b" "getKind b = getKind d"
      and h: "compare_head hv (Cast k e w) b = 0" "compare_head hv b d = 0" "compare_head hv (Cast k e w) d = 0"
    from getKind_cases(7)[OF k(1)] obtain e' w' where b: "b = Cast k e' w'" by blast
    from getKind_cases(7)[OF k(1)[unfolded k(2)]] obtain e2 w2 where d: "d = Cast k e2 w2" by blast
    show "tri (compare hv plt (Cast k e w) b) (compare hv plt b d) (compare hv plt (Cast k e w) d)"
      using h Cast.IH unfolding b d by (auto intro!: andThen_tri three_way_tri compare_root_tri[OF p])
  qed
next
  case (NotE e)
  show ?case
  proof (rule compare_triI)
    assume k: "getKind (NotE e) = getKind b" "getKind b = getKind d"
      and h: "compare_head hv (NotE e) b = 0" "compare_head hv b d = 0" "compare_head hv (NotE e) d = 0"
    from getKind_cases(8)[OF k(1)] obtain e' where b: "b = NotE e'" by blast
    from getKind_cases(8)[OF k(1)[unfolded k(2)]] obtain e2 where d: "d = NotE e2" by blast
    show "tri (compare hv plt (NotE e) b) (compare hv plt b d) (compare hv plt (NotE e) d)"
      using h NotE.IH unfolding b d by (auto intro!: andThen_tri three_way_tri compare_root_tri[OF p])
  qed
next
  case (Binary k l r)
  show ?case
  proof (rule compare_triI)
    assume k: "getKind (Binary k l r) = getKind b" "getKind b = getKind d"
      and h: "compare_head hv (Binary k l r) b = 0" "compare_head hv b d = 0" "compare_head hv (Binary k l r) d = 0"
    from getKind_cases(9)[OF k(1)] obtain l' r' where b: "b = Binary k l' r'" by blast
    from getKind_cases(9)[OF k(1)[unfolded k(2)]] obtain l2 r2 where d: "d = Binary k l2 r2" by blast
    show "tri (compare hv plt (Binary k l r) b) (compare hv plt b d) (compare hv plt (Binary k l r) d)"
      using h Binary.IH unfolding b d by (auto intro!: andThen_tri three_way_tri compare_root_tri[OF p])
  qed
next
  case UNull
  then show ?case by (cases u2; cases u3) (auto simp: tri_def)
next
  case (UNode i v n)
  then show ?case by (cases u2; cases u3) (auto intro!: andThen_tri)
qed


section \<open>Sets of expressions\<close>

text \<open>
  \<open>std::set\<close> keeps its elements sorted by \<open>operator<\<close>; inserting an element that
  is equivalent to a stored one does nothing. \<open>std::set_intersection\<close> and
  \<open>std::set_difference\<close> walk two sorted ranges.
\<close>

fun std_set_insert :: "('a \<Rightarrow> 'a \<Rightarrow> bool) \<Rightarrow> 'a \<Rightarrow> 'a list \<Rightarrow> 'a list" where
  "std_set_insert lt x [] = [x]"
| "std_set_insert lt x (y # ys) =
     (if lt x y then x # y # ys else if lt y x then y # std_set_insert lt x ys else y # ys)"

definition std_set :: "('a \<Rightarrow> 'a \<Rightarrow> bool) \<Rightarrow> 'a list \<Rightarrow> 'a list" where
  "std_set lt xs = fold (std_set_insert lt) xs []"

fun set_intersection :: "('a \<Rightarrow> 'a \<Rightarrow> bool) \<Rightarrow> 'a list \<Rightarrow> 'a list \<Rightarrow> 'a list" where
  "set_intersection lt [] ys = []"
| "set_intersection lt (x # xs) [] = []"
| "set_intersection lt (x # xs) (y # ys) =
     (if lt x y then set_intersection lt xs (y # ys)
      else if lt y x then set_intersection lt (x # xs) ys
      else x # set_intersection lt xs ys)"

fun set_difference :: "('a \<Rightarrow> 'a \<Rightarrow> bool) \<Rightarrow> 'a list \<Rightarrow> 'a list \<Rightarrow> 'a list" where
  "set_difference lt [] ys = []"
| "set_difference lt (x # xs) [] = x # xs"
| "set_difference lt (x # xs) (y # ys) =
     (if lt x y then x # set_difference lt xs (y # ys)
      else if lt y x then set_difference lt (x # xs) ys
      else set_difference lt xs ys)"

definition strict_order :: "('a \<Rightarrow> 'a \<Rightarrow> bool) \<Rightarrow> bool" where
  "strict_order lt \<longleftrightarrow> (\<forall>a. \<not> lt a a) \<and> (\<forall>a b c. lt a b \<longrightarrow> lt b c \<longrightarrow> lt a c)
     \<and> (\<forall>a b. lt a b \<or> a = b \<or> lt b a)"

lemma strict_orderD:
  assumes "strict_order lt"
  shows "\<not> lt a a" "lt a b \<Longrightarrow> lt b c \<Longrightarrow> lt a c" "\<not> lt a b \<Longrightarrow> \<not> lt b a \<Longrightarrow> a = b"
  using assms unfolding strict_order_def by blast+

lemma expr_lt_strict_order:
  assumes "pointer_order plt"
  shows "strict_order (expr_lt hv plt)"
proof -
  have "expr_lt hv plt a b \<or> a = b \<or> expr_lt hv plt b a" for a b
    using compare_swap(1)[OF assms, of hv b a] compare_eq[of hv plt a b]
    unfolding expr_lt_def by linarith
  moreover have "expr_lt hv plt a c" if "expr_lt hv plt a b" "expr_lt hv plt b c" for a b c
    using that compare_tri(1)[OF assms, of hv a b c] unfolding expr_lt_def tri_def by simp
  ultimately show ?thesis
    unfolding strict_order_def by (auto simp: expr_lt_def compare_refl(1))
qed

lemma set_std_set_insert:
  "strict_order lt \<Longrightarrow> set (std_set_insert lt x xs) = insert x (set xs)"
  by (induction xs) (auto dest: strict_orderD(3))

lemma sorted_std_set_insert:
  assumes "strict_order lt"
  shows "sorted_wrt lt xs \<Longrightarrow> sorted_wrt lt (std_set_insert lt x xs)"
proof (induction xs)
  case (Cons y ys)
  then show ?case
    using strict_orderD(2)[OF assms] by (auto simp: set_std_set_insert[OF assms])
qed simp

lemma std_set_ok:
  assumes "strict_order lt"
  shows "set (std_set lt xs) = set xs" "sorted_wrt lt (std_set lt xs)"
proof -
  have "set (fold (std_set_insert lt) xs ys) = set xs \<union> set ys" for ys
    by (induction xs arbitrary: ys) (auto simp: set_std_set_insert[OF assms])
  then show "set (std_set lt xs) = set xs" by (simp add: std_set_def)
  have "sorted_wrt lt ys \<Longrightarrow> sorted_wrt lt (fold (std_set_insert lt) xs ys)" for ys
    by (induction xs arbitrary: ys) (auto simp: sorted_std_set_insert[OF assms])
  then show "sorted_wrt lt (std_set lt xs)" by (simp add: std_set_def)
qed

lemma below_sorted: "strict_order lt \<Longrightarrow> lt x y \<Longrightarrow> sorted_wrt lt (y # ys) \<Longrightarrow> x \<notin> set (y # ys)"
  unfolding strict_order_def by auto blast+

lemma set_intersection_ok:
  assumes "strict_order lt"
  shows "sorted_wrt lt xs \<Longrightarrow> sorted_wrt lt ys \<Longrightarrow> set (set_intersection lt xs ys) = set xs \<inter> set ys"
  using assms
proof (induction lt xs ys rule: set_intersection.induct)
  case (3 lt x xs y ys)
  consider "lt x y" | "\<not> lt x y" "lt y x" | "\<not> lt x y" "\<not> lt y x" by blast
  then show ?case
  proof cases
    case 1
    then have "x \<notin> set (y # ys)" using below_sorted[OF 3(6)] 3(5) by blast
    with 1 3 show ?thesis by auto
  next
    case 2
    then have "y \<notin> set (x # xs)" using below_sorted[OF 3(6)] 3(4) by blast
    with 2 3 show ?thesis by auto
  next
    case eq: 3
    then have "x = y" using strict_orderD(3)[OF 3(6)] by blast
    moreover have "x \<notin> set xs" "y \<notin> set ys" using 3(4,5) strict_orderD(1)[OF 3(6)] by auto
    ultimately show ?thesis using eq 3 by auto
  qed
qed auto

lemma set_difference_ok:
  assumes "strict_order lt"
  shows "sorted_wrt lt xs \<Longrightarrow> sorted_wrt lt ys \<Longrightarrow> set (set_difference lt xs ys) = set xs - set ys"
  using assms
proof (induction lt xs ys rule: set_difference.induct)
  case (3 lt x xs y ys)
  consider "lt x y" | "\<not> lt x y" "lt y x" | "\<not> lt x y" "\<not> lt y x" by blast
  then show ?case
  proof cases
    case 1
    then have "x \<notin> set (y # ys)" using below_sorted[OF 3(6)] 3(5) by blast
    with 1 3 show ?thesis by auto
  next
    case 2
    then have "y \<notin> set (x # xs)" using below_sorted[OF 3(6)] 3(4) by blast
    with 2 3 show ?thesis by auto
  next
    case eq: 3
    then have "x = y" using strict_orderD(3)[OF 3(6)] by blast
    moreover have "x \<notin> set xs" "y \<notin> set ys" using 3(4,5) strict_orderD(1)[OF 3(6)] by auto
    ultimately show ?thesis using eq 3 by auto
  qed
qed auto

end
