(* ===== verification/ExecState.thy ===== *)
theory ExecState
  imports Heap ExprCompare
begin

text \<open>
  \<open>ExecutionState\<close> (\<open>klee/lib/Core/ExecutionState.cpp\<close>,
  \<open>klee/include/klee/ExecutionState.h\<close>): a symbolic execution state, its fork
  \<open>branch\<close>, and the merge of two states at one program point, which is what the project is
  about: \<open>canMerge\<close>, the check it asks before it lets a model decide, and \<open>merge\<close>,
  which joins the path conditions by a disjunction and registers and memory by selects.

  Code and functions are referred to by number. The statistics \<open>queryCost\<close>,
  \<open>pathOS\<close>, \<open>symPathOS\<close> and the debug output are left out. Memory objects are
  compared by identity, which \<open>mo_id\<close> carries; the order of their host addresses, by which
  \<open>std::set<const MemoryObject*>\<close> sorts, is the parameter \<open>mlt\<close>.
\<close>

section \<open>The state\<close>

record kfunction =
  kf_id :: nat
  numRegisters :: nat

record stack_frame =
  caller :: nat
  kf :: kfunction
  callPathNode :: nat
  allocas :: "memory_object list"
  locals :: "expr option list"
  minDistToUncoveredOnReturn :: nat
  varargs :: "memory_object option"

record exec_state =
  pc :: nat
  prevPC :: nat
  stack :: "stack_frame list"
  incomingBBIndex :: nat
  addressSpace :: address_space
  constraints :: "expr list"
  depth :: nat
  instsSinceCovNew :: nat
  coveredNew :: bool
  forkDisabled :: bool
  coveredLines :: "(string \<times> nat) list"
  ptreeNode :: nat
  symbolics :: "(memory_object \<times> array) list"
  arrayNames :: "string list"
  openMergeStack :: "nat list"
  steppedInstructions :: nat
  path :: "nat list"

text \<open>\<open>stack\<close> has its last element, \<open>stack.back()\<close>, at the end of the list.\<close>

definition new_StackFrame :: "nat \<Rightarrow> kfunction \<Rightarrow> stack_frame" where
  "new_StackFrame cl f =
     \<lparr>caller = cl, kf = f, callPathNode = 0, allocas = [], locals = replicate (numRegisters f) None,
      minDistToUncoveredOnReturn = 0, varargs = None\<rparr>"

definition copy_StackFrame :: "stack_frame \<Rightarrow> stack_frame" where
  "copy_StackFrame s =
     \<lparr>caller = caller s, kf = kf s, callPathNode = callPathNode s, allocas = allocas s,
      locals = map (\<lambda>i. locals s ! i) [0..<numRegisters (kf s)],
      minDistToUncoveredOnReturn = minDistToUncoveredOnReturn s, varargs = varargs s\<rparr>"

definition pushFrame :: "nat \<Rightarrow> kfunction \<Rightarrow> exec_state \<Rightarrow> exec_state" where
  "pushFrame cl f s = s\<lparr>stack := stack s @ [new_StackFrame cl f]\<rparr>"

definition popFrame :: "exec_state \<Rightarrow> exec_state" where
  "popFrame s = s\<lparr>addressSpace := fold unbindObject (allocas (last (stack s))) (addressSpace s),
     stack := butlast (stack s)\<rparr>"

text \<open>The constructor for a function, whose instructions start at \<open>entry\<close>.\<close>

definition new_ExecutionState :: "nat \<Rightarrow> kfunction \<Rightarrow> exec_state" where
  "new_ExecutionState entry f =
     pushFrame 0 f
       \<lparr>pc = entry, prevPC = entry, stack = [], incomingBBIndex = 0, addressSpace = new_AddressSpace,
        constraints = [], depth = 0, instsSinceCovNew = 0, coveredNew = False, forkDisabled = False,
        coveredLines = [], ptreeNode = 0, symbolics = [], arrayNames = [], openMergeStack = [],
        steppedInstructions = 0, path = []\<rparr>"

definition addSymbolic :: "memory_object \<Rightarrow> array \<Rightarrow> exec_state \<Rightarrow> exec_state" where
  "addSymbolic mo a s = s\<lparr>symbolics := symbolics s @ [(mo, a)]\<rparr>"

definition state_addConstraint :: "nat \<Rightarrow> expr \<Rightarrow> exec_state \<Rightarrow> exec_state result" where
  "state_addConstraint n e s = map_res (\<lambda>cs. s\<lparr>constraints := cs\<rparr>) (addConstraint n (constraints s) e)"

text \<open>
  The copy constructor: copying the address space moves both states to the next epoch. (That
  it registers the copy with the open merge handlers is in \<open>Merging\<close>.)
\<close>

definition copy_ExecutionState :: "exec_state \<Rightarrow> exec_state \<times> exec_state" where
  "copy_ExecutionState s =
     (case copy_AddressSpace (addressSpace s) of (as, as') \<Rightarrow>
        (s\<lparr>addressSpace := as\<rparr>, s\<lparr>addressSpace := as', stack := map copy_StackFrame (stack s)\<rparr>))"

definition branch :: "exec_state \<Rightarrow> exec_state \<times> exec_state" where
  "branch s =
     (case copy_ExecutionState (s\<lparr>depth := (depth s + 1) mod 2 ^ 32\<rparr>) of (this, falseState) \<Rightarrow>
        (this, falseState\<lparr>coveredNew := False, coveredLines := []\<rparr>))"

section \<open>Can two states merge?\<close>

fun same_frames :: "stack_frame list \<Rightarrow> stack_frame list \<Rightarrow> bool" where
  "same_frames (a # as) (b # bs) = (caller a = caller b \<and> kf a = kf b \<and> same_frames as bs)"
| "same_frames [] [] = True"
| "same_frames _ _ = False"

text \<open>
  The walk over the two maps, in the order of the addresses: \<open>None\<close> where they bind
  different objects, else the objects whose states differ.
\<close>

fun compare_objects :: "object_pair list \<Rightarrow> object_pair list \<Rightarrow> memory_object list option" where
  "compare_objects (a # as) (b # bs) =
     (if fst a \<noteq> fst b then None
      else map_option (\<lambda>ms. if snd a \<noteq> snd b then fst a # ms else ms) (compare_objects as bs))"
| "compare_objects [] [] = Some []"
| "compare_objects _ _ = None"

definition mutated_objects :: "exec_state \<Rightarrow> exec_state \<Rightarrow> memory_object list option" where
  "mutated_objects a b =
     compare_objects (inorder (objects (addressSpace a))) (inorder (objects (addressSpace b)))"

definition canMerge :: "exec_state \<Rightarrow> exec_state \<Rightarrow> bool" where
  "canMerge a b =
     (if pc a \<noteq> pc b then False
      else if symbolics a \<noteq> symbolics b then False
      else if \<not> same_frames (stack a) (stack b) then False
      else (case mutated_objects a b of None \<Rightarrow> False | Some _ \<Rightarrow> True))"

section \<open>Merging\<close>

text \<open>Registers: a register that is null on either side keeps what the first state has.\<close>

definition merge_register :: "expr \<Rightarrow> expr option \<Rightarrow> expr option \<Rightarrow> expr option" where
  "merge_register inA av bv =
     (case (av, bv) of (Some a, Some b) \<Rightarrow> Some (create_Select inA a b) | _ \<Rightarrow> av)"

definition merge_frame :: "expr \<Rightarrow> stack_frame \<Rightarrow> stack_frame \<Rightarrow> stack_frame" where
  "merge_frame inA af bf =
     fold (\<lambda>i f. f\<lparr>locals := (locals f)[i := merge_register inA (locals f ! i) (locals bf ! i)]\<rparr>)
       [0..<numRegisters (kf af)] af"

definition merge_stack :: "expr \<Rightarrow> stack_frame list \<Rightarrow> stack_frame list \<Rightarrow> stack_frame list" where
  "merge_stack inA as bs = map (\<lambda>(af, bf). merge_frame inA af bf) (zip as bs)"

text \<open>Memory: one mutated object, byte by byte.\<close>

definition merge_byte :: "bool \<Rightarrow> expr \<Rightarrow> nat \<Rightarrow> nat \<Rightarrow> nat \<Rightarrow> store \<Rightarrow> store result" where
  "merge_byte le inA wos other i st =
     bind_res (heap_read8 wos i st) (\<lambda>(av, st1).
       bind_res (heap_read8 other i st1) (\<lambda>(bv, st2).
         heap_write le wos i (create_Select inA av bv) st2))"

fun merge_bytes :: "bool \<Rightarrow> expr \<Rightarrow> nat \<Rightarrow> nat \<Rightarrow> nat list \<Rightarrow> store \<Rightarrow> store result" where
  "merge_bytes le inA wos other [] st = Inr st"
| "merge_bytes le inA wos other (i # is) st =
     bind_res (merge_byte le inA wos other i st) (merge_bytes le inA wos other is)"

definition merge_object :: "bool \<Rightarrow> expr \<Rightarrow> address_space \<Rightarrow> memory_object \<Rightarrow> address_space \<times> store
    \<Rightarrow> (address_space \<times> store) result" where
  "merge_object le inA bs mo = (\<lambda>(as, st).
     case findObject mo as of
       None \<Rightarrow> Inl AssertionFailed
     | Some os \<Rightarrow>
         (if map_option readOnly (objs st os) \<noteq> Some False then Inl AssertionFailed
          else (case findObject mo bs of
              None \<Rightarrow> Inl AssertionFailed
            | Some otherOS \<Rightarrow>
                bind_res (getWriteable mo os as st) (\<lambda>(wos, as', st').
                  map_res (\<lambda>st''. (as', st'')) (merge_bytes le inA wos otherOS [0..<mo_size mo] st')))))"

fun merge_objects :: "bool \<Rightarrow> expr \<Rightarrow> address_space \<Rightarrow> memory_object list \<Rightarrow> address_space \<times> store
    \<Rightarrow> (address_space \<times> store) result" where
  "merge_objects le inA bs [] s = Inr s"
| "merge_objects le inA bs (mo # mos) s =
     bind_res (merge_object le inA bs mo s) (merge_objects le inA bs mos)"

text \<open>Path conditions.\<close>

definition conjoin :: "expr list \<Rightarrow> expr" where
  "conjoin cs = fold (\<lambda>c acc. create_And acc c) cs (Constant 1 1)"

fun add_all :: "nat \<Rightarrow> constraints \<Rightarrow> expr list \<Rightarrow> constraints result" where
  "add_all n cs [] = Inr cs"
| "add_all n cs (e # es) = bind_res (addConstraint n cs e) (\<lambda>cs'. add_all n cs' es)"

definition merge_constraints :: "nat \<Rightarrow> expr list \<Rightarrow> expr \<Rightarrow> expr \<Rightarrow> constraints result" where
  "merge_constraints n common inA inB =
     bind_res (add_all n [] common) (\<lambda>cs. addConstraint n cs (create_Or inA inB))"

definition merge_body :: "nat \<Rightarrow> bool \<Rightarrow> (expr \<Rightarrow> expr \<Rightarrow> bool) \<Rightarrow> memory_object list
    \<Rightarrow> exec_state \<Rightarrow> exec_state \<Rightarrow> store \<Rightarrow> (exec_state \<times> store) result" where
  "merge_body n le lt mutated a b st =
     (let aConstraints = std_set lt (constraints a);
          bConstraints = std_set lt (constraints b);
          commonConstraints = std_set lt (set_intersection lt aConstraints bConstraints);
          aSuffix = std_set lt (set_difference lt aConstraints commonConstraints);
          bSuffix = std_set lt (set_difference lt bConstraints commonConstraints);
          inA = conjoin aSuffix;
          inB = conjoin bSuffix
      in bind_res (merge_objects le inA (addressSpace b) mutated (addressSpace a, st)) (\<lambda>(as, st').
           map_res (\<lambda>cs. (a\<lparr>stack := merge_stack inA (stack a) (stack b), addressSpace := as,
               constraints := cs\<rparr>, st'))
             (merge_constraints n commonConstraints inA inB)))"

definition merge :: "nat \<Rightarrow> bool \<Rightarrow> (expr \<Rightarrow> expr \<Rightarrow> bool) \<Rightarrow> (memory_object \<Rightarrow> memory_object \<Rightarrow> bool)
    \<Rightarrow> exec_state \<Rightarrow> exec_state \<Rightarrow> store \<Rightarrow> (bool \<times> exec_state \<times> store) result" where
  "merge n le lt mlt a b st =
     (if pc a \<noteq> pc b then Inr (False, a, st)
      else if symbolics a \<noteq> symbolics b then Inr (False, a, st)
      else if \<not> same_frames (stack a) (stack b) then Inr (False, a, st)
      else (case mutated_objects a b of
          None \<Rightarrow> Inr (False, a, st)
        | Some mutated \<Rightarrow>
            map_res (\<lambda>(a', st'). (True, a', st')) (merge_body n le lt (std_set mlt mutated) a b st)))"


section \<open>Registers after a merge\<close>

lemma select_ok:
  assumes "wf_expr c" "getWidth c = 1" "wf_expr x" "wf_expr y" "getWidth x = getWidth y"
  shows "wf_expr (create_Select c x y)" "getWidth (create_Select c x y) = getWidth x"
    "wf_env \<rho> \<Longrightarrow> eval \<rho> (create_Select c x y) = (if eval \<rho> c = 1 then eval \<rho> x else eval \<rho> y)"
proof -
  have wf: "wf_expr (Select c x y)" using assms by simp
  note s = sem_eqD[OF create_Select_sem_eq this]
  show "wf_expr (create_Select c x y)" "getWidth (create_Select c x y) = getWidth x"
    using s(1,2) by auto
  show "eval \<rho> (create_Select c x y) = (if eval \<rho> c = 1 then eval \<rho> x else eval \<rho> y)"
    if \<rho>: "wf_env \<rho>"
  proof -
    have "eval \<rho> c = 0 \<or> eval \<rho> c = 1" using eval_bool[OF \<rho> assms(1,2)] .
    then show ?thesis using s(3)[OF \<rho>] by auto
  qed
qed

lemma merge_frame_fields:
  "caller (merge_frame inA af bf) = caller af" "kf (merge_frame inA af bf) = kf af"
  "allocas (merge_frame inA af bf) = allocas af"
  "varargs (merge_frame inA af bf) = varargs af"
  "length (locals (merge_frame inA af bf)) = length (locals af)"
proof -
  have "caller (fold (\<lambda>i f. f\<lparr>locals := (locals f)[i := g i f]\<rparr>) is f0) = caller f0
      \<and> kf (fold (\<lambda>i f. f\<lparr>locals := (locals f)[i := g i f]\<rparr>) is f0) = kf f0
      \<and> allocas (fold (\<lambda>i f. f\<lparr>locals := (locals f)[i := g i f]\<rparr>) is f0) = allocas f0
      \<and> varargs (fold (\<lambda>i f. f\<lparr>locals := (locals f)[i := g i f]\<rparr>) is f0) = varargs f0
      \<and> length (locals (fold (\<lambda>i f. f\<lparr>locals := (locals f)[i := g i f]\<rparr>) is f0)) = length (locals f0)"
    for g "is" f0
    by (induction "is" arbitrary: f0) auto
  from this[of "\<lambda>i f. merge_register inA (locals f ! i) (locals bf ! i)"] show
    "caller (merge_frame inA af bf) = caller af" "kf (merge_frame inA af bf) = kf af"
    "allocas (merge_frame inA af bf) = allocas af"
    "varargs (merge_frame inA af bf) = varargs af"
    "length (locals (merge_frame inA af bf)) = length (locals af)"
    by (auto simp: merge_frame_def)
qed

lemma merge_frame_locals:
  assumes "length (locals af) = numRegisters (kf af)" "i < length (locals af)"
  shows "locals (merge_frame inA af bf) ! i = merge_register inA (locals af ! i) (locals bf ! i)"
proof -
  have "n \<le> length (locals f0) \<Longrightarrow> i < length (locals f0) \<Longrightarrow>
      length (locals (fold (\<lambda>i f. f\<lparr>locals := (locals f)[i := merge_register inA (locals f ! i) (locals bf ! i)]\<rparr>)
        [0..<n] f0)) = length (locals f0)
      \<and> locals (fold (\<lambda>i f. f\<lparr>locals := (locals f)[i := merge_register inA (locals f ! i) (locals bf ! i)]\<rparr>)
        [0..<n] f0) ! i = (if i < n then merge_register inA (locals f0 ! i) (locals bf ! i) else locals f0 ! i)"
    for n f0
    by (induction n) (auto simp: nth_list_update less_Suc_eq)
  from this[of "numRegisters (kf af)" af] assms show ?thesis by (simp add: merge_frame_def)
qed

text \<open>
  The frames of two states that reached the same point: a register that both have set holds
  values of one type.
\<close>

definition typed_frame :: "stack_frame \<Rightarrow> stack_frame \<Rightarrow> bool" where
  "typed_frame af bf \<longleftrightarrow> length (locals af) = numRegisters (kf af)
     \<and> length (locals bf) = numRegisters (kf bf)
     \<and> (\<forall>i < numRegisters (kf af). \<forall>x y. locals af ! i = Some x \<longrightarrow> locals bf ! i = Some y
          \<longrightarrow> wf_expr x \<and> wf_expr y \<and> getWidth x = getWidth y)"

definition typed_stacks :: "stack_frame list \<Rightarrow> stack_frame list \<Rightarrow> bool" where
  "typed_stacks as bs \<longleftrightarrow> list_all2 typed_frame as bs"

lemma same_frames_length: "same_frames as bs \<Longrightarrow> length as = length bs"
  by (induction as bs rule: same_frames.induct) auto

text \<open>The value of a register under an assignment, where it has one.\<close>

definition register :: "stack_frame list \<Rightarrow> nat \<Rightarrow> nat \<Rightarrow> expr option" where
  "register st k i = locals (st ! k) ! i"

lemma merge_stack_ok:
  assumes t: "typed_stacks as bs" and c: "wf_expr inA" "getWidth inA = 1"
    and k: "k < length as" and i: "i < numRegisters (kf (as ! k))"
  shows "length (merge_stack inA as bs) = length as"
    "register as k i = Some x \<Longrightarrow> register bs k i = Some y \<Longrightarrow>
      \<exists>e. register (merge_stack inA as bs) k i = Some e \<and> wf_expr e \<and> getWidth e = getWidth x
        \<and> (\<forall>\<rho>. wf_env \<rho> \<longrightarrow> eval \<rho> e = (if eval \<rho> inA = 1 then eval \<rho> x else eval \<rho> y))"
    "register as k i = None \<or> register bs k i = None \<Longrightarrow>
      register (merge_stack inA as bs) k i = register as k i"
proof -
  have len: "length bs = length as" using t by (simp add: typed_stacks_def list_all2_lengthD)
  have tf: "typed_frame (as ! k) (bs ! k)" using t k by (simp add: typed_stacks_def list_all2_nthD)
  have r: "register (merge_stack inA as bs) k i = merge_register inA (register as k i) (register bs k i)"
    using k len merge_frame_locals[of "as ! k" i inA "bs ! k"] tf i
    by (simp add: register_def merge_stack_def typed_frame_def)
  show "length (merge_stack inA as bs) = length as" using len by (simp add: merge_stack_def)
  show "\<exists>e. register (merge_stack inA as bs) k i = Some e \<and> wf_expr e \<and> getWidth e = getWidth x
        \<and> (\<forall>\<rho>. wf_env \<rho> \<longrightarrow> eval \<rho> e = (if eval \<rho> inA = 1 then eval \<rho> x else eval \<rho> y))"
    if "register as k i = Some x" "register bs k i = Some y"
  proof -
    have "wf_expr x" "wf_expr y" "getWidth x = getWidth y"
      using tf i that by (auto simp: typed_frame_def register_def)
    from select_ok[OF c this] r that show ?thesis by (simp add: merge_register_def)
  qed
  show "register (merge_stack inA as bs) k i = register as k i"
    if "register as k i = None \<or> register bs k i = None"
    using that r by (auto simp: merge_register_def split: option.split)
qed

section \<open>Memory after a merge\<close>

definition mix :: "env \<Rightarrow> expr \<Rightarrow> int option \<Rightarrow> int option \<Rightarrow> int option" where
  "mix \<rho> inA x y = (if eval \<rho> inA = 1 then x else y)"

text \<open>
  The byte loop runs on an object \<open>wos\<close> that only space \<open>a\<close> binds.
\<close>

lemma merge_byte_ok:
  assumes f: "family_ok st spaces" and a: "a < length spaces" and b: "b < length spaces" "b \<noteq> a"
    and wos: "(mo, wos) \<in> objects_of (spaces ! a)" and oth: "(mo, other) \<in> objects_of (spaces ! b)"
    and excl: "\<And>j. j < length spaces \<Longrightarrow> j \<noteq> a \<Longrightarrow> \<not> binds (spaces ! j) wos"
    and c: "wf_expr inA" "getWidth inA = 1" and i: "i < mo_size mo"
  shows "\<exists>st'. merge_byte le inA wos other i st = Inr st' \<and> family_ok st' spaces
    \<and> (\<forall>j < length spaces. j \<noteq> a \<longrightarrow> same_view st (spaces ! j) st' (spaces ! j))
    \<and> (\<forall>mo2 i2 \<rho>. mo2 \<in> fst ` objects_of (spaces ! a) \<longrightarrow> i2 < mo_size mo2 \<longrightarrow> wf_env \<rho> \<longrightarrow>
        contents \<rho> st' (spaces ! a) mo2 i2 = (if mo2 = mo \<and> i2 = i
          then mix \<rho> inA (contents \<rho> st (spaces ! a) mo i) (contents \<rho> st (spaces ! b) mo i)
          else contents \<rho> st (spaces ! a) mo2 i2))
    \<and> (\<forall>o2. map_option readOnly (objs st' o2) = map_option readOnly (objs st o2))"
proof -
  have am: "spaces ! a \<in> set spaces" and bm: "spaces ! b \<in> set spaces" using a b by auto
  from heap_read8_ok[OF f am wos i] obtain av st1 where r1: "heap_read8 wos i st = Inr (av, st1)"
    "family_ok st1 spaces" "\<And>as. as \<in> set spaces \<Longrightarrow> same_view st as st1 as"
    "wf_expr av" "getWidth av = 8" "\<And>\<rho>. wf_env \<rho> \<Longrightarrow> contents \<rho> st (spaces ! a) mo i = Some (eval \<rho> av)"
    "\<And>o2. map_option readOnly (objs st1 o2) = map_option readOnly (objs st o2)" by blast
  from heap_read8_ok[OF r1(2) bm oth i] obtain bv st2 where r2: "heap_read8 other i st1 = Inr (bv, st2)"
    "family_ok st2 spaces" "\<And>as. as \<in> set spaces \<Longrightarrow> same_view st1 as st2 as"
    "wf_expr bv" "getWidth bv = 8" "\<And>\<rho>. wf_env \<rho> \<Longrightarrow> contents \<rho> st1 (spaces ! b) mo i = Some (eval \<rho> bv)"
    "\<And>o2. map_option readOnly (objs st2 o2) = map_option readOnly (objs st1 o2)" by blast
  have view: "same_view st as st2 as" if "as \<in> set spaces" for as
    using same_view_trans[OF r1(3)[OF that] r2(3)[OF that]] .
  have bval: "contents \<rho> st (spaces ! b) mo i = Some (eval \<rho> bv)" if "wf_env \<rho>" for \<rho>
    using same_viewD[OF r1(3)[OF bm] oth i that] r2(6)[OF that] by simp
  from r1(5) r2(5) have weq: "getWidth av = getWidth bv" by simp
  note sel = select_ok[OF c r1(4) r2(4) weq]
  from heap_write8_ok[OF r2(2) a wos excl i sel(1) sel(2)[unfolded r1(5)], of le]
  obtain st' where w: "heap_write le wos i (create_Select inA av bv) st2 = Inr st'"
    "family_ok st' spaces"
    "\<And>j. j < length spaces \<Longrightarrow> j \<noteq> a \<Longrightarrow> same_view st2 (spaces ! j) st' (spaces ! j)"
    "\<And>mo2 i2 \<rho>. mo2 \<in> fst ` objects_of (spaces ! a) \<Longrightarrow> i2 < mo_size mo2 \<Longrightarrow> wf_env \<rho> \<Longrightarrow>
        contents \<rho> st' (spaces ! a) mo2 i2 = (if mo2 = mo \<and> i2 = i
          then Some (eval \<rho> (create_Select inA av bv)) else contents \<rho> st2 (spaces ! a) mo2 i2)"
    "\<And>o2. map_option readOnly (objs st' o2) = map_option readOnly (objs st2 o2)" by blast
  have "merge_byte le inA wos other i st = Inr st'" using r1(1) r2(1) w(1) by (simp add: merge_byte_def)
  moreover have "same_view st (spaces ! j) st' (spaces ! j)" if "j < length spaces" "j \<noteq> a" for j
    using same_view_trans[OF view w(3)[OF that]] that by simp
  moreover have "contents \<rho> st' (spaces ! a) mo2 i2 = (if mo2 = mo \<and> i2 = i
          then mix \<rho> inA (contents \<rho> st (spaces ! a) mo i) (contents \<rho> st (spaces ! b) mo i)
          else contents \<rho> st (spaces ! a) mo2 i2)"
    if h: "mo2 \<in> fst ` objects_of (spaces ! a)" "i2 < mo_size mo2" "wf_env \<rho>" for mo2 i2 \<rho>
  proof -
    from h(1) obtain o2 where "(mo2, o2) \<in> objects_of (spaces ! a)" by force
    with same_viewD[OF view[OF am] _ h(2,3)] w(4)[OF h] sel(3)[OF h(3)] r1(6)[OF h(3)] bval[OF h(3)]
    show ?thesis by (auto simp: mix_def)
  qed
  ultimately show ?thesis using w(2,5) r1(7) r2(7) by (intro exI[of _ st'] conjI) auto
qed

lemma merge_bytes_ok:
  assumes a: "a < length spaces" and b: "b < length spaces" "b \<noteq> a"
    and wos: "(mo, wos) \<in> objects_of (spaces ! a)" and oth: "(mo, other) \<in> objects_of (spaces ! b)"
    and excl: "\<And>j. j < length spaces \<Longrightarrow> j \<noteq> a \<Longrightarrow> \<not> binds (spaces ! j) wos"
    and c: "wf_expr inA" "getWidth inA = 1"
  shows "family_ok st spaces \<Longrightarrow> set is \<subseteq> {..<mo_size mo} \<Longrightarrow> distinct is \<Longrightarrow>
    \<exists>st'. merge_bytes le inA wos other is st = Inr st' \<and> family_ok st' spaces
    \<and> (\<forall>j < length spaces. j \<noteq> a \<longrightarrow> same_view st (spaces ! j) st' (spaces ! j))
    \<and> (\<forall>mo2 i2 \<rho>. mo2 \<in> fst ` objects_of (spaces ! a) \<longrightarrow> i2 < mo_size mo2 \<longrightarrow> wf_env \<rho> \<longrightarrow>
        contents \<rho> st' (spaces ! a) mo2 i2 = (if mo2 = mo \<and> i2 \<in> set is
          then mix \<rho> inA (contents \<rho> st (spaces ! a) mo i2) (contents \<rho> st (spaces ! b) mo i2)
          else contents \<rho> st (spaces ! a) mo2 i2))
    \<and> (\<forall>o2. map_option readOnly (objs st' o2) = map_option readOnly (objs st o2))"
proof (induction "is" arbitrary: st)
  case (Cons i "is")
  from Cons.prems(2) have i: "i < mo_size mo" by simp
  from merge_byte_ok[OF Cons.prems(1) a b wos oth excl c i, of le] obtain st1 where
    s1: "merge_byte le inA wos other i st = Inr st1" "family_ok st1 spaces"
    "\<And>j. j < length spaces \<Longrightarrow> j \<noteq> a \<Longrightarrow> same_view st (spaces ! j) st1 (spaces ! j)"
    "\<And>mo2 i2 \<rho>. mo2 \<in> fst ` objects_of (spaces ! a) \<Longrightarrow> i2 < mo_size mo2 \<Longrightarrow> wf_env \<rho> \<Longrightarrow>
        contents \<rho> st1 (spaces ! a) mo2 i2 = (if mo2 = mo \<and> i2 = i
          then mix \<rho> inA (contents \<rho> st (spaces ! a) mo i) (contents \<rho> st (spaces ! b) mo i)
          else contents \<rho> st (spaces ! a) mo2 i2)"
    "\<And>o2. map_option readOnly (objs st1 o2) = map_option readOnly (objs st o2)" by blast
  from Cons.IH[OF s1(2)] Cons.prems obtain st' where
    s2: "merge_bytes le inA wos other is st1 = Inr st'" "family_ok st' spaces"
    "\<And>j. j < length spaces \<Longrightarrow> j \<noteq> a \<Longrightarrow> same_view st1 (spaces ! j) st' (spaces ! j)"
    "\<And>mo2 i2 \<rho>. mo2 \<in> fst ` objects_of (spaces ! a) \<Longrightarrow> i2 < mo_size mo2 \<Longrightarrow> wf_env \<rho> \<Longrightarrow>
        contents \<rho> st' (spaces ! a) mo2 i2 = (if mo2 = mo \<and> i2 \<in> set is
          then mix \<rho> inA (contents \<rho> st1 (spaces ! a) mo i2) (contents \<rho> st1 (spaces ! b) mo i2)
          else contents \<rho> st1 (spaces ! a) mo2 i2)"
    "\<And>o2. map_option readOnly (objs st' o2) = map_option readOnly (objs st1 o2)" by auto
  have "same_view st (spaces ! j) st' (spaces ! j)" if "j < length spaces" "j \<noteq> a" for j
    using same_view_trans[OF s1(3)[OF that] s2(3)[OF that]] .
  moreover have "contents \<rho> st' (spaces ! a) mo2 i2 = (if mo2 = mo \<and> i2 \<in> set (i # is)
          then mix \<rho> inA (contents \<rho> st (spaces ! a) mo i2) (contents \<rho> st (spaces ! b) mo i2)
          else contents \<rho> st (spaces ! a) mo2 i2)"
    if h: "mo2 \<in> fst ` objects_of (spaces ! a)" "i2 < mo_size mo2" "wf_env \<rho>" for mo2 i2 \<rho>
  proof -
    have "contents \<rho> st1 (spaces ! b) mo i2 = contents \<rho> st (spaces ! b) mo i2" if "mo2 = mo"
      using same_viewD[OF s1(3)[OF b] oth _ h(3)] h(2) that by simp
    with s1(4)[OF h] s2(4)[OF h] Cons.prems(3) show ?thesis by auto
  qed
  ultimately show ?case using s1(1,5) s2(1,2,5) by (intro exI[of _ st'] conjI) auto
qed (auto intro: same_view_refl)


text \<open>
  \<open>mixed\<close>: space \<open>a\<close> of the family has become \<open>as'\<close>, whose objects in \<open>M\<close>
  hold the selects; no other space sees a difference.
\<close>

definition mixed :: "expr \<Rightarrow> address_space list \<Rightarrow> nat \<Rightarrow> address_space \<Rightarrow> memory_object set
    \<Rightarrow> store \<Rightarrow> address_space \<Rightarrow> store \<Rightarrow> bool" where
  "mixed inA spaces a bs M st as' st' \<longleftrightarrow> family_ok st' (spaces[a := as'])
     \<and> fst ` objects_of as' = fst ` objects_of (spaces ! a)
     \<and> (\<forall>q. fst q \<notin> M \<longrightarrow> (q \<in> objects_of as' \<longleftrightarrow> q \<in> objects_of (spaces ! a)))
     \<and> (\<forall>j < length spaces. j \<noteq> a \<longrightarrow> same_view st (spaces ! j) st' (spaces ! j))
     \<and> (\<forall>mo \<in> fst ` objects_of (spaces ! a). \<forall>i < mo_size mo. \<forall>\<rho>. wf_env \<rho> \<longrightarrow>
          contents \<rho> st' as' mo i = (if mo \<in> M then mix \<rho> inA (contents \<rho> st (spaces ! a) mo i) (contents \<rho> st bs mo i)
            else contents \<rho> st (spaces ! a) mo i))
     \<and> (\<forall>o2. objs st o2 \<noteq> None \<longrightarrow> map_option readOnly (objs st' o2) = map_option readOnly (objs st o2))"

lemma mixedD:
  assumes "mixed inA spaces a bs M st as' st'"
  shows "family_ok st' (spaces[a := as'])" "fst ` objects_of as' = fst ` objects_of (spaces ! a)"
    "fst q \<notin> M \<Longrightarrow> q \<in> objects_of as' \<longleftrightarrow> q \<in> objects_of (spaces ! a)"
    "j < length spaces \<Longrightarrow> j \<noteq> a \<Longrightarrow> same_view st (spaces ! j) st' (spaces ! j)"
    "mo \<in> fst ` objects_of (spaces ! a) \<Longrightarrow> i < mo_size mo \<Longrightarrow> wf_env \<rho> \<Longrightarrow>
      contents \<rho> st' as' mo i = (if mo \<in> M then mix \<rho> inA (contents \<rho> st (spaces ! a) mo i) (contents \<rho> st bs mo i)
        else contents \<rho> st (spaces ! a) mo i)"
    "objs st o2 \<noteq> None \<Longrightarrow> map_option readOnly (objs st' o2) = map_option readOnly (objs st o2)"
  using assms unfolding mixed_def by blast+

lemma merge_object_ok:
  assumes f: "family_ok st spaces" and a: "a < length spaces" and b: "b < length spaces" "b \<noteq> a"
    and os: "(mo, os) \<in> objects_of (spaces ! a)" and oth: "(mo, other) \<in> objects_of (spaces ! b)"
    and w: "map_option readOnly (objs st os) = Some False"
    and c: "wf_expr inA" "getWidth inA = 1"
  shows "\<exists>as' st'. merge_object le inA (spaces ! b) mo (spaces ! a, st) = Inr (as', st')
    \<and> mixed inA spaces a (spaces ! b) {mo} st as' st'"
proof -
  have am: "spaces ! a \<in> set spaces" and bm: "spaces ! b \<in> set spaces" using a b by auto
  have fa: "findObject mo (spaces ! a) = Some os" using family_bound[OF f am os] by metis
  have fb: "findObject mo (spaces ! b) = Some other" using family_bound[OF f bm oth] by metis
  from getWriteable_ok[OF f a os w] obtain wos as1 st1 where
    g: "getWriteable mo os (spaces ! a) st = Inr (wos, as1, st1)" "family_ok st1 (spaces[a := as1])"
    "(mo, wos) \<in> objects_of as1"
    "\<And>q. fst q \<noteq> mo \<Longrightarrow> q \<in> objects_of as1 \<longleftrightarrow> q \<in> objects_of (spaces ! a)"
    "same_view st (spaces ! a) st1 as1"
    "\<And>j. j < length spaces \<Longrightarrow> j \<noteq> a \<Longrightarrow> \<not> binds (spaces ! j) wos"
    "\<And>j. j < length spaces \<Longrightarrow> j \<noteq> a \<Longrightarrow> same_view st (spaces ! j) st1 (spaces ! j)"
    "\<And>o2. objs st o2 \<noteq> None \<Longrightarrow> objs st1 o2 = objs st o2" by blast
  let ?sp = "spaces[a := as1]"
  have sp: "length ?sp = length spaces" "?sp ! a = as1" "\<And>j. j \<noteq> a \<Longrightarrow> ?sp ! j = spaces ! j" using a by auto
  have "\<exists>st'. merge_bytes le inA wos other [0..<mo_size mo] st1 = Inr st' \<and> family_ok st' ?sp
    \<and> (\<forall>j < length ?sp. j \<noteq> a \<longrightarrow> same_view st1 (?sp ! j) st' (?sp ! j))
    \<and> (\<forall>mo2 i2 \<rho>. mo2 \<in> fst ` objects_of (?sp ! a) \<longrightarrow> i2 < mo_size mo2 \<longrightarrow> wf_env \<rho> \<longrightarrow>
        contents \<rho> st' (?sp ! a) mo2 i2 = (if mo2 = mo \<and> i2 \<in> set [0..<mo_size mo]
          then mix \<rho> inA (contents \<rho> st1 (?sp ! a) mo i2) (contents \<rho> st1 (?sp ! b) mo i2)
          else contents \<rho> st1 (?sp ! a) mo2 i2))
    \<and> (\<forall>o2. map_option readOnly (objs st' o2) = map_option readOnly (objs st1 o2))"
    by (rule merge_bytes_ok[where mo = mo])
      (use a b g(2,3,6) oth sp c in \<open>auto simp: lessThan_atLeast0\<close>)
  then obtain st' where m: "merge_bytes le inA wos other [0..<mo_size mo] st1 = Inr st'" "family_ok st' ?sp"
    "\<And>j. j < length spaces \<Longrightarrow> j \<noteq> a \<Longrightarrow> same_view st1 (spaces ! j) st' (spaces ! j)"
    "\<And>mo2 i2 \<rho>. mo2 \<in> fst ` objects_of as1 \<Longrightarrow> i2 < mo_size mo2 \<Longrightarrow> wf_env \<rho> \<Longrightarrow>
        contents \<rho> st' as1 mo2 i2 = (if mo2 = mo \<and> i2 < mo_size mo
          then mix \<rho> inA (contents \<rho> st1 as1 mo i2) (contents \<rho> st1 (spaces ! b) mo i2)
          else contents \<rho> st1 as1 mo2 i2)"
    "\<And>o2. map_option readOnly (objs st' o2) = map_option readOnly (objs st1 o2)"
    using sp b by auto
  have "merge_object le inA (spaces ! b) mo (spaces ! a, st) = Inr (as1, st')"
    using fa fb w g(1) m(1) by (simp add: merge_object_def map_res_def)
  moreover have "mixed inA spaces a (spaces ! b) {mo} st as1 st'"
    unfolding mixed_def
  proof (intro conjI allI impI ballI)
    show "family_ok st' ?sp" by (rule m(2))
    show eq: "fst ` objects_of as1 = fst ` objects_of (spaces ! a)" using g(5) by (simp add: same_view_def)
    show "q \<in> objects_of as1 \<longleftrightarrow> q \<in> objects_of (spaces ! a)" if "fst q \<notin> {mo}" for q
      using g(4) that by simp
    show "same_view st (spaces ! j) st' (spaces ! j)" if "j < length spaces" "j \<noteq> a" for j
      using same_view_trans[OF g(7)[OF that] m(3)[OF that]] .
    show "map_option readOnly (objs st' o2) = map_option readOnly (objs st o2)" if "objs st o2 \<noteq> None" for o2
      using m(5) g(8)[OF that] by simp
    fix mo2 i2 \<rho>
    assume h: "mo2 \<in> fst ` objects_of (spaces ! a)" "i2 < mo_size mo2" "wf_env \<rho>"
    have A: "contents \<rho> st1 as1 mo2 i2 = contents \<rho> st (spaces ! a) mo2 i2"
      using g(5) h unfolding same_view_def by blast
    have B: "contents \<rho> st1 (spaces ! b) mo i2 = contents \<rho> st (spaces ! b) mo i2" if "mo2 = mo"
      using same_viewD[OF g(7)[OF b] oth _ h(3)] h(2) that by simp
    show "contents \<rho> st' as1 mo2 i2 = (if mo2 \<in> {mo}
        then mix \<rho> inA (contents \<rho> st (spaces ! a) mo2 i2) (contents \<rho> st (spaces ! b) mo2 i2)
        else contents \<rho> st (spaces ! a) mo2 i2)"
      using m(4)[OF h(1)[folded eq] h(2,3)] A B h(2) by auto
  qed
  ultimately show ?thesis by blast
qed

text \<open>
  All the mutated objects: when each is bound on both sides and writeable on the first, the
  loop returns.
\<close>

lemma merge_objects_ok:
  assumes a: "a < length spaces" and b: "b < length spaces" "b \<noteq> a" and c: "wf_expr inA" "getWidth inA = 1"
  shows "family_ok st spaces \<Longrightarrow> distinct mos \<Longrightarrow>
    (\<And>mo. mo \<in> set mos \<Longrightarrow> mo \<in> fst ` objects_of (spaces ! b) \<and>
      (\<exists>os. (mo, os) \<in> objects_of (spaces ! a) \<and> map_option readOnly (objs st os) = Some False)) \<Longrightarrow>
    \<exists>as' st'. merge_objects le inA (spaces ! b) mos (spaces ! a, st) = Inr (as', st')
    \<and> mixed inA spaces a (spaces ! b) (set mos) st as' st'"
  using a b
proof (induction mos arbitrary: st spaces)
  case Nil
  then show ?case by (auto simp: mixed_def same_view_refl)
next
  case (Cons mo mos)
  note a = Cons.prems(4) and b = Cons.prems(5,6)
  from Cons.prems(3)[of mo] obtain os other where
    os: "(mo, os) \<in> objects_of (spaces ! a)" "map_option readOnly (objs st os) = Some False"
    and oth: "(mo, other) \<in> objects_of (spaces ! b)" by force
  from merge_object_ok[OF Cons.prems(1) a b os(1) oth os(2) c, of le] obtain as1 st1 where
    m1: "merge_object le inA (spaces ! b) mo (spaces ! a, st) = Inr (as1, st1)"
    "mixed inA spaces a (spaces ! b) {mo} st as1 st1" by blast
  note M1 = mixedD[OF m1(2)]
  let ?sp = "spaces[a := as1]"
  have sp: "a < length ?sp" "b < length ?sp" "?sp ! a = as1" "?sp ! b = spaces ! b" using a b by auto
  have pre: "mo2 \<in> fst ` objects_of (?sp ! b) \<and>
      (\<exists>os. (mo2, os) \<in> objects_of (?sp ! a) \<and> map_option readOnly (objs st1 os) = Some False)"
    if "mo2 \<in> set mos" for mo2
  proof -
    from Cons.prems(3)[of mo2] that obtain os2 where os2: "mo2 \<in> fst ` objects_of (spaces ! b)"
      "(mo2, os2) \<in> objects_of (spaces ! a)" "map_option readOnly (objs st os2) = Some False" by auto
    have "mo2 \<noteq> mo" using that Cons.prems(2) by auto
    with os2 M1(3)[of "(mo2, os2)"] M1(6)[of os2] sp show ?thesis by auto
  qed
  from Cons.IH[OF M1(1) _ pre sp(1,2) b(2)] Cons.prems(2) sp(3,4) obtain as' st' where
    m2: "merge_objects le inA (spaces ! b) mos (as1, st1) = Inr (as', st')"
    "mixed inA ?sp a (spaces ! b) (set mos) st1 as' st'" by auto
  note M2 = mixedD[OF m2(2), unfolded sp(3)]
  have "merge_objects le inA (spaces ! b) (mo # mos) (spaces ! a, st) = Inr (as', st')"
    using m1(1) m2(1) by simp
  moreover have "mixed inA spaces a (spaces ! b) (set (mo # mos)) st as' st'"
    unfolding mixed_def
  proof (intro conjI allI impI ballI)
    show "family_ok st' (spaces[a := as'])" using M2(1) by simp
    show "fst ` objects_of as' = fst ` objects_of (spaces ! a)" using M1(2) M2(2) by simp
    show "q \<in> objects_of as' \<longleftrightarrow> q \<in> objects_of (spaces ! a)" if "fst q \<notin> set (mo # mos)" for q
      using M1(3)[of q] M2(3)[of q] that by simp
    show "same_view st (spaces ! j) st' (spaces ! j)" if "j < length spaces" "j \<noteq> a" for j
      using same_view_trans[OF M1(4)[OF that]] M2(4)[of j] that by simp
    show "map_option readOnly (objs st' o2) = map_option readOnly (objs st o2)" if n: "objs st o2 \<noteq> None" for o2
    proof -
      have "objs st1 o2 \<noteq> None" using M1(6)[OF n] n by auto
      with M1(6)[OF n] M2(6) show ?thesis by simp
    qed
    fix mo2 i2 \<rho>
    assume h: "mo2 \<in> fst ` objects_of (spaces ! a)" "i2 < mo_size mo2" "wf_env \<rho>"
    have B: "contents \<rho> st1 (spaces ! b) mo2 i2 = contents \<rho> st (spaces ! b) mo2 i2" if "mo2 \<in> set mos"
    proof -
      from Cons.prems(3)[of mo2] that obtain o2 where "(mo2, o2) \<in> objects_of (spaces ! b)" by force
      from same_viewD[OF M1(4)[OF b] this h(2,3)] show ?thesis .
    qed
    have "mo \<notin> set mos" using Cons.prems(2) by simp
    then show "contents \<rho> st' as' mo2 i2 = (if mo2 \<in> set (mo # mos)
        then mix \<rho> inA (contents \<rho> st (spaces ! a) mo2 i2) (contents \<rho> st (spaces ! b) mo2 i2)
        else contents \<rho> st (spaces ! a) mo2 i2)"
      using M2(5)[OF h(1)[folded M1(2)] h(2,3)] M1(5)[OF h] B by auto
  qed
  ultimately show ?case by blast
qed


section \<open>Path conditions after a merge\<close>

lemma conjoin_ok:
  assumes "wf_constraints cs"
  shows "wf_expr (conjoin cs)" "getWidth (conjoin cs) = 1"
    "wf_env \<rho> \<Longrightarrow> eval \<rho> (conjoin cs) = 1 \<longleftrightarrow> sat \<rho> cs"
proof -
  have "wf_expr e \<Longrightarrow> getWidth e = 1 \<Longrightarrow> wf_constraints cs \<Longrightarrow>
      wf_expr (fold (\<lambda>c acc. create_And acc c) cs e) \<and> getWidth (fold (\<lambda>c acc. create_And acc c) cs e) = 1
      \<and> (\<forall>\<rho>. wf_env \<rho> \<longrightarrow> (eval \<rho> (fold (\<lambda>c acc. create_And acc c) cs e) = 1 \<longleftrightarrow> eval \<rho> e = 1 \<and> sat \<rho> cs))" for e
  proof (induction cs arbitrary: e)
    case (Cons c cs)
    then have wf: "wf_expr (Binary And e c)" by simp
    note s = sem_eqD[OF create_And_sem_eq wf]
    have "eval \<rho> (create_And e c) = 1 \<longleftrightarrow> eval \<rho> e = 1 \<and> eval \<rho> c = 1" if "wf_env \<rho>" for \<rho>
      using s(3)[OF that] eval_bool[OF that, of e] eval_bool[OF that, of c] Cons.prems by auto
    moreover have "getWidth (create_And e c) = 1" using s(2) Cons.prems(2) by simp
    ultimately show ?case using Cons.IH[of "create_And e c"] s(1) Cons.prems(3) by auto
  qed simp
  from this[of "Constant 1 1"] assms
  show "wf_expr (conjoin cs)" "getWidth (conjoin cs) = 1"
    "wf_env \<rho> \<Longrightarrow> eval \<rho> (conjoin cs) = 1 \<longleftrightarrow> sat \<rho> cs"
    by (auto simp: conjoin_def in_width_def)
qed

lemma add_all_ok:
  "wf_constraints cs \<Longrightarrow> wf_constraints es \<Longrightarrow>
    (\<forall>cs'. add_all n cs es = Inr cs' \<longrightarrow> wf_constraints cs'
      \<and> (\<forall>\<rho>. wf_env \<rho> \<longrightarrow> (sat \<rho> cs' \<longleftrightarrow> sat \<rho> cs \<and> sat \<rho> es)))
    \<and> (add_all n cs es = Inl InvalidConstraint \<longrightarrow> (\<forall>\<rho>. wf_env \<rho> \<longrightarrow> \<not> (sat \<rho> cs \<and> sat \<rho> es)))"
proof (induction es arbitrary: cs)
  case (Cons e es)
  from Cons.prems(2) have e: "wf_expr e" "getWidth e = 1" by auto
  note A = adder_okD[OF addConstraint_ok Cons.prems(1) e, of n]
  show ?case
  proof (cases "addConstraint n cs e")
    case (Inl err)
    with A(3) show ?thesis by auto
  next
    case (Inr cs1)
    note IH = Cons.IH[OF A(1)[OF Inr]]
    with Inr A(2)[OF Inr] Cons.prems(2) show ?thesis by simp
  qed
qed simp

lemma wf_constraints_set: "set cs \<subseteq> set cs' \<Longrightarrow> wf_constraints cs' \<Longrightarrow> wf_constraints cs"
  by (auto simp: wf_constraints_def)

text \<open>The three lists the constraints are split into.\<close>

definition common_of :: "(expr \<Rightarrow> expr \<Rightarrow> bool) \<Rightarrow> exec_state \<Rightarrow> exec_state \<Rightarrow> expr list" where
  "common_of lt a b = std_set lt (set_intersection lt (std_set lt (constraints a)) (std_set lt (constraints b)))"

definition suffix_of :: "(expr \<Rightarrow> expr \<Rightarrow> bool) \<Rightarrow> exec_state \<Rightarrow> expr list \<Rightarrow> expr list" where
  "suffix_of lt a common = std_set lt (set_difference lt (std_set lt (constraints a)) common)"

lemma split_ok:
  assumes lt: "strict_order lt"
  shows "set (common_of lt a b) = set (constraints a) \<inter> set (constraints b)"
    "set (suffix_of lt a (common_of lt a b)) = set (constraints a) - set (constraints b)"
    "set (suffix_of lt b (common_of lt a b)) = set (constraints b) - set (constraints a)"
proof -
  note s = std_set_ok[OF lt]
  show c: "set (common_of lt a b) = set (constraints a) \<inter> set (constraints b)"
    using s set_intersection_ok[OF lt s(2) s(2)] by (simp add: common_of_def)
  have "sorted_wrt lt (common_of lt a b)" unfolding common_of_def by (rule s(2))
  then show "set (suffix_of lt a (common_of lt a b)) = set (constraints a) - set (constraints b)"
    "set (suffix_of lt b (common_of lt a b)) = set (constraints b) - set (constraints a)"
    using s(1) set_difference_ok[OF lt s(2)] c by (auto simp: suffix_of_def)
qed

lemma sat_split:
  assumes lt: "strict_order lt"
  shows "sat \<rho> (constraints a) \<longleftrightarrow> sat \<rho> (common_of lt a b) \<and> sat \<rho> (suffix_of lt a (common_of lt a b))"
    "sat \<rho> (constraints b) \<longleftrightarrow> sat \<rho> (common_of lt a b) \<and> sat \<rho> (suffix_of lt b (common_of lt a b))"
  unfolding sat_def split_ok[OF lt] by blast+

lemma merge_constraints_ok:
  assumes lt: "strict_order lt" and wf: "wf_constraints (constraints a)" "wf_constraints (constraints b)"
    and inA: "inA = conjoin (suffix_of lt a (common_of lt a b))"
    and inB: "inB = conjoin (suffix_of lt b (common_of lt a b))"
  shows "wf_expr inA" "getWidth inA = 1"
    "wf_env \<rho> \<Longrightarrow> eval \<rho> inA = 1 \<longleftrightarrow> sat \<rho> (suffix_of lt a (common_of lt a b))"
    "merge_constraints n (common_of lt a b) inA inB = Inr cs \<Longrightarrow> wf_constraints cs"
    "merge_constraints n (common_of lt a b) inA inB = Inr cs \<Longrightarrow> wf_env \<rho> \<Longrightarrow>
      sat \<rho> cs \<longleftrightarrow> sat \<rho> (constraints a) \<or> sat \<rho> (constraints b)"
    "merge_constraints n (common_of lt a b) inA inB = Inl InvalidConstraint \<Longrightarrow> wf_env \<rho> \<Longrightarrow>
      \<not> sat \<rho> (constraints a) \<and> \<not> sat \<rho> (constraints b)"
proof -
  let ?c = "common_of lt a b"
  let ?A = "suffix_of lt a ?c"
  let ?B = "suffix_of lt b ?c"
  note sets = split_ok[OF lt, where a = a and b = b]
  have w: "wf_constraints ?c" "wf_constraints ?A" "wf_constraints ?B"
    by (rule wf_constraints_set[OF _ wf(1)], use sets(1) in auto)
      (rule wf_constraints_set[OF _ wf(1)], use sets(2) in auto,
       rule wf_constraints_set[OF _ wf(2)], use sets(3) in auto)
  note A = conjoin_ok[OF w(2), folded inA] and B = conjoin_ok[OF w(3), folded inB]
  show "wf_expr inA" "getWidth inA = 1" "wf_env \<rho> \<Longrightarrow> eval \<rho> inA = 1 \<longleftrightarrow> sat \<rho> ?A" by fact+
  have wfo: "wf_expr (Binary Or inA inB)" using A B by simp
  note O = sem_eqD[OF create_Or_sem_eq wfo]
  have ow: "getWidth (create_Or inA inB) = 1" using O(2) A(2) by simp
  have ov: "eval \<rho> (create_Or inA inB) = 1 \<longleftrightarrow> sat \<rho> ?A \<or> sat \<rho> ?B" if "wf_env \<rho>" for \<rho>
    using O(3)[OF that] eval_bool[OF that A(1,2)] eval_bool[OF that B(1,2)] A(3)[OF that] B(3)[OF that]
    by auto
  note all = add_all_ok[of "[]" ?c n, OF _ w(1)]
  note split = sat_split[OF lt, where a = a and b = b]
  show "wf_constraints cs" if m: "merge_constraints n ?c inA inB = Inr cs"
  proof -
    from m obtain cs1 where c1: "add_all n [] ?c = Inr cs1" "addConstraint n cs1 (create_Or inA inB) = Inr cs"
      by (auto simp: merge_constraints_def)
    with all have "wf_constraints cs1" by simp
    from adder_okD(1)[OF addConstraint_ok this O(1) ow c1(2)] show ?thesis .
  qed
  show "sat \<rho> cs \<longleftrightarrow> sat \<rho> (constraints a) \<or> sat \<rho> (constraints b)"
    if m: "merge_constraints n ?c inA inB = Inr cs" and \<rho>: "wf_env \<rho>"
  proof -
    from m obtain cs1 where c1: "add_all n [] ?c = Inr cs1" "addConstraint n cs1 (create_Or inA inB) = Inr cs"
      by (auto simp: merge_constraints_def)
    with all \<rho> have s1: "wf_constraints cs1" "sat \<rho> cs1 \<longleftrightarrow> sat \<rho> ?c" by simp_all
    from adder_okD(2)[OF addConstraint_ok s1(1) O(1) ow c1(2) \<rho>] s1(2) ov[OF \<rho>] split[of \<rho>] show ?thesis
      by blast
  qed
  show "\<not> sat \<rho> (constraints a) \<and> \<not> sat \<rho> (constraints b)"
    if m: "merge_constraints n ?c inA inB = Inl InvalidConstraint" and \<rho>: "wf_env \<rho>"
  proof (cases "add_all n [] ?c")
    case (Inl err)
    with m have "add_all n [] ?c = Inl InvalidConstraint" by (simp add: merge_constraints_def)
    with all \<rho> split[of \<rho>] show ?thesis by simp
  next
    case (Inr cs1)
    with all \<rho> have s1: "wf_constraints cs1" "sat \<rho> cs1 \<longleftrightarrow> sat \<rho> ?c" by simp_all
    from Inr m have "addConstraint n cs1 (create_Or inA inB) = Inl InvalidConstraint"
      by (simp add: merge_constraints_def)
    from adder_okD(3)[OF addConstraint_ok s1(1) O(1) ow this \<rho>] s1(2) ov[OF \<rho>] split[of \<rho>] show ?thesis
      by blast
  qed
qed

section \<open>The merged state\<close>

lemma compare_objects_ok:
  "compare_objects xs ys = Some ms \<Longrightarrow> fst ` set xs = fst ` set ys
    \<and> set ms \<subseteq> fst ` set xs
    \<and> (\<forall>x \<in> set xs. fst x \<in> set ms \<or> x \<in> set ys)"
proof (induction xs ys arbitrary: ms rule: compare_objects.induct)
  case (1 a as b bs)
  then obtain ms1 where "fst a = fst b" "compare_objects as bs = Some ms1"
    "ms = (if snd a \<noteq> snd b then fst a # ms1 else ms1)" by (auto split: if_splits)
  with 1(1)[of ms1] have IH: "fst ` set as = fst ` set bs" "set ms1 \<subseteq> fst ` set as"
    "\<forall>x \<in> set as. fst x \<in> set ms1 \<or> x \<in> set bs"
    and eq: "fst a = fst b" "ms = (if snd a \<noteq> snd b then fst a # ms1 else ms1)" by blast+
  have "fst a \<in> set ms \<or> a = b" using eq by (simp add: prod_eq_iff)
  moreover have "set ms1 \<subseteq> set ms" "set ms \<subseteq> insert (fst a) (set ms1)" using eq(2) by (auto split: if_splits)
  ultimately show ?case using IH eq(1) by (intro conjI) (force, force, auto)
qed auto

lemma canMerge_iff_merge:
  "canMerge a b \<longleftrightarrow> pc a = pc b \<and> symbolics a = symbolics b \<and> same_frames (stack a) (stack b)
    \<and> mutated_objects a b \<noteq> None"
  by (auto simp: canMerge_def split: option.split)

lemma merge_not_canMerge: "\<not> canMerge a b \<Longrightarrow> merge n le lt mlt a b st = Inr (False, a, st)"
  by (auto simp: canMerge_def merge_def split: option.splits)

lemma merge_canMerge:
  assumes "canMerge a b" "mutated_objects a b = Some ms"
  shows "merge n le lt mlt a b st
    = map_res (\<lambda>(a', st'). (True, a', st')) (merge_body n le lt (std_set mlt ms) a b st)"
  using assms by (simp add: canMerge_iff_merge merge_def)


text \<open>
  Two states of a family that may be merged: their constraints and registers are well formed,
  and the first may write to the objects in which they differ (which the code asserts).
\<close>

definition merge_ready :: "store \<Rightarrow> address_space list \<Rightarrow> nat \<Rightarrow> nat \<Rightarrow> exec_state \<Rightarrow> exec_state \<Rightarrow> bool" where
  "merge_ready st spaces a b sa sb \<longleftrightarrow> family_ok st spaces \<and> a < length spaces \<and> b < length spaces \<and> b \<noteq> a
     \<and> spaces ! a = addressSpace sa \<and> spaces ! b = addressSpace sb
     \<and> wf_constraints (constraints sa) \<and> wf_constraints (constraints sb)
     \<and> (same_frames (stack sa) (stack sb) \<longrightarrow> typed_stacks (stack sa) (stack sb))
     \<and> (\<forall>(mo, os) \<in> objects_of (addressSpace sa). (mo, os) \<notin> objects_of (addressSpace sb) \<longrightarrow>
          map_option readOnly (objs st os) = Some False)"

lemma merge_readyD:
  assumes "merge_ready st spaces a b sa sb"
  shows "family_ok st spaces" "a < length spaces" "b < length spaces" "b \<noteq> a"
    "spaces ! a = addressSpace sa" "spaces ! b = addressSpace sb"
    "wf_constraints (constraints sa)" "wf_constraints (constraints sb)"
    "same_frames (stack sa) (stack sb) \<Longrightarrow> typed_stacks (stack sa) (stack sb)"
    "(mo, os) \<in> objects_of (addressSpace sa) \<Longrightarrow> (mo, os) \<notin> objects_of (addressSpace sb) \<Longrightarrow>
      map_option readOnly (objs st os) = Some False"
  using assms unfolding merge_ready_def by blast+

lemma sorted_distinct: "strict_order lt \<Longrightarrow> sorted_wrt lt xs \<Longrightarrow> distinct xs"
  by (induction xs) (auto dest: strict_orderD(1))

lemma compare_objects_distinct:
  assumes "compare_objects xs ys = Some ms" "mo \<in> set ms" "(mo, os) \<in> set xs"
    and inj: "\<And>p q. p \<in> set ys \<Longrightarrow> q \<in> set ys \<Longrightarrow> fst p = fst q \<Longrightarrow> p = q"
      "\<And>p q. p \<in> set xs \<Longrightarrow> q \<in> set xs \<Longrightarrow> fst p = fst q \<Longrightarrow> p = q"
  shows "(mo, os) \<notin> set ys"
proof -
  have "\<exists>x y. x \<in> set xs \<and> y \<in> set ys \<and> fst x = mo \<and> fst y = mo \<and> snd x \<noteq> snd y"
    using assms(1,2)
  proof (induction xs ys arbitrary: ms rule: compare_objects.induct)
    case (1 a as b bs)
    then obtain ms1 where c: "fst a = fst b" "compare_objects as bs = Some ms1"
      "ms = (if snd a \<noteq> snd b then fst a # ms1 else ms1)" by (auto split: if_splits)
    show ?case
    proof (cases "mo \<in> set ms1")
      case True
      with 1(1)[OF _ c(2)] c(1) show ?thesis by (meson list.set_intros(2))
    next
      case False
      with 1(3) c(3) have "mo = fst a" "snd a \<noteq> snd b" by (auto split: if_splits)
      with c(1) show ?thesis by (metis list.set_intros(1))
    qed
  qed auto
  then obtain x y where xy: "x \<in> set xs" "y \<in> set ys" "fst x = mo" "fst y = mo" "snd x \<noteq> snd y" by blast
  show ?thesis
  proof
    assume "(mo, os) \<in> set ys"
    with inj(1)[OF _ xy(2), of "(mo, os)"] inj(2)[OF assms(3) xy(1)] xy show False by auto
  qed
qed

lemma merge_memory:
  assumes r: "merge_ready st spaces a b sa sb" and mlt: "strict_order mlt"
    and ms: "mutated_objects sa sb = Some ms" and c: "wf_expr inA" "getWidth inA = 1"
  shows "\<exists>as' st'. merge_objects le inA (addressSpace sb) (std_set mlt ms) (addressSpace sa, st) = Inr (as', st')
      \<and> mixed inA spaces a (addressSpace sb) (set ms) st as' st'"
    "mo \<in> fst ` objects_of (addressSpace sa) \<Longrightarrow> mo \<notin> set ms \<Longrightarrow>
      contents \<rho> st (addressSpace sb) mo i = contents \<rho> st (addressSpace sa) mo i"
    "fst ` objects_of (addressSpace sb) = fst ` objects_of (addressSpace sa)"
proof -
  note R = merge_readyD[OF r]
  note cow = family_okD(1)[OF R(1)]
  have ok: "space_ok (addressSpace sa)" "space_ok (addressSpace sb)"
    using cow_okD(2)[OF cow] R(2-6) by metis+
  have inj: "p = q" if "p \<in> objects_of as" "q \<in> objects_of as" "fst p = fst q" "space_ok as" for p q as
    using tree_lookup_set[OF that(4)] that(1-3) unfolding objects_of_def by (metis option.inject)
  note co = compare_objects_ok[OF ms[unfolded mutated_objects_def], folded objects_of_def]
  from co show eq: "fst ` objects_of (addressSpace sb) = fst ` objects_of (addressSpace sa)" by simp
  have pre: "mo \<in> fst ` objects_of (spaces ! b) \<and>
      (\<exists>os. (mo, os) \<in> objects_of (spaces ! a) \<and> map_option readOnly (objs st os) = Some False)"
    if "mo \<in> set (std_set mlt ms)" for mo
  proof -
    from that have m: "mo \<in> set ms" by (simp add: std_set_ok(1)[OF mlt])
    with co obtain os where os: "(mo, os) \<in> objects_of (addressSpace sa)" by force
    have "(mo, os) \<notin> objects_of (addressSpace sb)"
      using compare_objects_distinct[OF ms[unfolded mutated_objects_def] m os[unfolded objects_of_def]]
        inj[OF _ _ _ ok(1)] inj[OF _ _ _ ok(2)] unfolding objects_of_def by blast
    from R(10)[OF os this] os m co eq R(5,6) show ?thesis by auto
  qed
  from merge_objects_ok[OF R(2,3,4) c R(1) sorted_distinct[OF mlt std_set_ok(2)[OF mlt]] pre, of ms le]
  show "\<exists>as' st'. merge_objects le inA (addressSpace sb) (std_set mlt ms) (addressSpace sa, st) = Inr (as', st')
      \<and> mixed inA spaces a (addressSpace sb) (set ms) st as' st'"
    using R(5,6) by (simp add: std_set_ok(1)[OF mlt])
  show "contents \<rho> st (addressSpace sb) mo i = contents \<rho> st (addressSpace sa) mo i"
    if h: "mo \<in> fst ` objects_of (addressSpace sa)" "mo \<notin> set ms"
  proof -
    from h(1) obtain os where os: "(mo, os) \<in> objects_of (addressSpace sa)" by force
    with co h(2) have "(mo, os) \<in> objects_of (addressSpace sb)" by auto
    with os ok have "findObject mo (addressSpace sa) = Some os" "findObject mo (addressSpace sb) = Some os"
      by (auto simp: findObject_iff)
    then show ?thesis by (simp add: contents_def)
  qed
qed

text \<open>The parts of a successful merge.\<close>

lemma merge_parts:
  assumes r: "merge_ready st spaces a b sa sb" and lt: "strict_order lt" and mlt: "strict_order mlt"
    and m: "merge n le lt mlt sa sb st = Inr (True, sm, st')"
  obtains inA inB cs as' ms where "canMerge sa sb"
    "inA = conjoin (suffix_of lt sa (common_of lt sa sb))"
    "inB = conjoin (suffix_of lt sb (common_of lt sa sb))"
    "mutated_objects sa sb = Some ms" "mixed inA spaces a (addressSpace sb) (set ms) st as' st'"
    "merge_constraints n (common_of lt sa sb) inA inB = Inr cs"
    "sm = sa\<lparr>stack := merge_stack inA (stack sa) (stack sb), addressSpace := as', constraints := cs\<rparr>"
proof -
  note R = merge_readyD[OF r]
  have cm: "canMerge sa sb" using m merge_not_canMerge[of sa sb n le lt mlt st] by (cases "canMerge sa sb") auto
  then obtain ms where ms: "mutated_objects sa sb = Some ms" by (auto simp: canMerge_iff_merge)
  define inA where "inA = conjoin (suffix_of lt sa (common_of lt sa sb))"
  define inB where "inB = conjoin (suffix_of lt sb (common_of lt sa sb))"
  note C = merge_constraints_ok(1,2)[OF lt R(7,8) inA_def refl]
  from merge_memory(1)[OF r mlt ms C, of le] obtain as' st1 where
    mm: "merge_objects le inA (addressSpace sb) (std_set mlt ms) (addressSpace sa, st) = Inr (as', st1)"
    "mixed inA spaces a (addressSpace sb) (set ms) st as' st1" by blast
  have "merge_body n le lt (std_set mlt ms) sa sb st = Inr (sm, st')"
    using m merge_canMerge[OF cm ms, of n le lt mlt st] by auto
  with mm(1) obtain cs where "merge_constraints n (common_of lt sa sb) inA inB = Inr cs" "st' = st1"
    "sm = sa\<lparr>stack := merge_stack inA (stack sa) (stack sb), addressSpace := as', constraints := cs\<rparr>"
    by (auto simp: merge_body_def Let_def inA_def inB_def common_of_def suffix_of_def)
  with that[OF cm inA_def inB_def ms] mm(2) show thesis by simp
qed

lemma merge_choice:
  assumes lt: "strict_order lt" and wf: "wf_constraints (constraints sa)" "wf_constraints (constraints sb)"
    and inA: "inA = conjoin (suffix_of lt sa (common_of lt sa sb))" and \<rho>: "wf_env \<rho>"
  shows "sat \<rho> (constraints sa) \<Longrightarrow> eval \<rho> inA = 1"
    "sat \<rho> (constraints sb) \<Longrightarrow> \<not> sat \<rho> (constraints sa) \<Longrightarrow> eval \<rho> inA \<noteq> 1"
  using merge_constraints_ok(3)[OF lt wf inA refl \<rho>] sat_split[OF lt, where a = sa and b = sb and \<rho> = \<rho>]
  by blast+


section \<open>Forking and frames\<close>

lemma copy_AddressSpace_objects:
  "copy_AddressSpace as = (as', as'') \<Longrightarrow> objects as' = objects as \<and> objects as'' = objects as"
  by (auto simp: copy_AddressSpace_def next_epoch_def)

lemma same_objects_contents: "objects as' = objects as \<Longrightarrow> contents \<rho> st as' mo i = contents \<rho> st as mo i"
  by (simp add: contents_def findObject_def)

lemma same_objects_of: "objects as' = objects as \<Longrightarrow> objects_of as' = objects_of as"
  by (simp add: objects_of_def)

lemma fork_family_ok:
  assumes f: "family_ok st spaces" and i: "i < length spaces"
    and wrap: "cowKey (spaces ! i) + 1 < 2 ^ 32"
    and cp: "copy_AddressSpace (spaces ! i) = (as', as'')"
  shows "family_ok st (spaces[i := as'] @ [as''])"
proof -
  note o = copy_AddressSpace_objects[OF cp]
  have os: "objects_of as' = objects_of (spaces ! i)" "objects_of as'' = objects_of (spaces ! i)"
    using o same_objects_of by blast+
  have m: "spaces ! i \<in> set spaces" using i by simp
  have mem: "\<exists>as0 \<in> set spaces. objects_of as = objects_of as0" if "as \<in> set (spaces[i := as'] @ [as''])" for as
  proof -
    from that have "as = as' \<or> as = as'' \<or> as \<in> set spaces" using set_update[of as spaces i as'] by auto
    with os m show ?thesis by metis
  qed
  show ?thesis
    unfolding family_ok_def
  proof (intro conjI ballI)
    show "cow_ok st (spaces[i := as'] @ [as''])" by (rule fork_cow_ok[OF family_okD(1)[OF f] i wrap cp])
    show "\<forall>oid os. objs st oid = Some os \<longrightarrow> wf_object os" using family_okD(2)[OF f] by blast
  next
    fix as p assume as: "as \<in> set (spaces[i := as'] @ [as''])" and p: "p \<in> objects_of as"
    from mem[OF as] obtain as0 where "as0 \<in> set spaces" "objects_of as = objects_of as0" by blast
    with p family_okD(3)[OF f] show "case p of (mo, oid) \<Rightarrow> \<forall>os. objs st oid = Some os \<longrightarrow> os_size os = mo_size mo"
      by (cases p) auto
  next
    fix as p q assume as: "as \<in> set (spaces[i := as'] @ [as''])" and pq: "p \<in> objects_of as" "q \<in> objects_of as"
    from mem[OF as] obtain as0 where "as0 \<in> set spaces" "objects_of as = objects_of as0" by blast
    with pq family_okD(4)[OF f] show "snd p = snd q \<longrightarrow> p = q" by blast
  qed
qed

lemma copy_StackFrame_id: "length (locals s) = numRegisters (kf s) \<Longrightarrow> copy_StackFrame s = s"
  by (cases s) (auto simp: copy_StackFrame_def intro!: nth_equalityI)

lemma branch_fields:
  assumes "branch s = (s1, s2)"
  shows "copy_AddressSpace (addressSpace s) = (addressSpace s1, addressSpace s2)"
    "constraints s1 = constraints s" "constraints s2 = constraints s" "pc s1 = pc s" "pc s2 = pc s"
    "stack s1 = stack s" "stack s2 = map copy_StackFrame (stack s)"
    "symbolics s1 = symbolics s" "symbolics s2 = symbolics s"
    "depth s1 = (depth s + 1) mod 2 ^ 32" "depth s2 = depth s1"
    "coveredNew s1 = coveredNew s" "\<not> coveredNew s2" "coveredLines s2 = []"
    "openMergeStack s1 = openMergeStack s" "openMergeStack s2 = openMergeStack s"
  using assms by (auto simp: branch_def copy_ExecutionState_def split: prod.splits)

lemma fold_unbind:
  assumes "space_ok as"
  shows "space_ok (fold unbindObject mos as) \<and> objects_of (fold unbindObject mos as)
    = {q \<in> objects_of as. address_of q \<notin> mo_address ` set mos}"
  using assms
proof (induction mos arbitrary: as)
  case (Cons mo mos)
  have "space_ok (unbindObject mo as)" using findObject_unbind[OF Cons.prems] by simp
  with Cons.IH[OF this] objects_of_unbind[OF Cons.prems, of mo] show ?case by auto
qed simp

text \<open>Frames that reach the same code merge with the frames of a fork: they are typed alike.\<close>

lemma same_frames_refl: "same_frames s s"
  by (induction s) auto

lemma compare_objects_refl: "compare_objects xs xs = Some []"
  by (induction xs) auto

lemma popFrame_unbinds:
  assumes "space_ok (addressSpace s)"
  shows "objects_of (addressSpace (popFrame s))
      = {p \<in> objects_of (addressSpace s). address_of p \<notin> mo_address ` set (allocas (last (stack s)))}
    \<and> space_ok (addressSpace (popFrame s)) \<and> stack (popFrame s) = butlast (stack s)
    \<and> cowKey (addressSpace (popFrame (pushFrame cl f s))) = cowKey (addressSpace s)"
proof -
  have "cowKey (fold unbindObject mos as) = cowKey as" for mos as
    by (induction mos arbitrary: as) (simp_all add: unbindObject_def)
  then show ?thesis using fold_unbind[OF assms] by (simp add: popFrame_def pushFrame_def)
qed

end
