(* ===== verification/Assignment.thy ===== *)
theory Assignment
  imports Constraints
begin

text \<open>
  Evaluation of expressions under an assignment: \<open>ExprEvaluator\<close>
  (\<open>klee/lib/Expr/ExprEvaluator.cpp\<close>), a visitor that reads update lists and guards
  divisions, and \<open>Assignment\<close> (\<open>klee/include/klee/Expr/Assignment.h\<close>,
  \<open>klee/lib/Expr/Assignment.cpp\<close>), which supplies the initial contents of arrays. What
  evaluation returns is equal to the expression under every environment that agrees with
  the assignment; for an assignment without free values and an expression without divisions
  it is the constant that \<open>eval\<close> gives.
\<close>

section \<open>The evaluator\<close>

text \<open>
  \<open>evalRead\<close> takes the index as an \<open>unsigned\<close>, and compares it with the 64-bit value
  of each update's evaluated index.
\<close>

fun evalRead :: "(array \<Rightarrow> int \<Rightarrow> expr) \<Rightarrow> visit_fun \<Rightarrow> visited \<Rightarrow> array \<Rightarrow> updates \<Rightarrow> int
    \<Rightarrow> (action \<times> visited) result" where
  "evalRead getInitialValue vis m a UNull index =
     (if isConstantArray a \<and> index < int (arr_size a)
      then Inr (ChangeTo (Constant (arr_range a) (constantValues a ! nat index)), m)
      else Inr (ChangeTo (getInitialValue a index), m))"
| "evalRead getInitialValue vis m a (UNode i v un) index =
     bind_res (vis m i) (\<lambda>(ui, m1). case dyn_cast_Constant ui of
         Some (w, c) \<Rightarrow>
           (if c = index then bind_res (vis m1 v) (\<lambda>(r, m2). Inr (ChangeTo r, m2))
            else evalRead getInitialValue vis m1 a un index)
       | None \<Rightarrow>
           Inr (ChangeTo (create_Read a (UNode i v un) (Constant (arr_domain a) index)), m1))"

definition visitRead :: "(array \<Rightarrow> int \<Rightarrow> expr) \<Rightarrow> visit_fun \<Rightarrow> visited \<Rightarrow> array \<Rightarrow> updates \<Rightarrow> expr
    \<Rightarrow> (action \<times> visited) result" where
  "visitRead getInitialValue vis m a ul i =
     bind_res (vis m i) (\<lambda>(v, m1). case dyn_cast_Constant v of
         Some (w, c) \<Rightarrow> evalRead getInitialValue vis m1 a ul (take_bit 32 c)
       | None \<Rightarrow> Inr (DoChildren, m1))"

definition protectedDivOperation :: "visit_fun \<Rightarrow> visited \<Rightarrow> binKind \<Rightarrow> expr \<Rightarrow> expr
    \<Rightarrow> (action \<times> visited) result" where
  "protectedDivOperation vis m k l r =
     bind_res (vis m l) (\<lambda>(k0, m1). bind_res (vis m1 r) (\<lambda>(k1, m2).
       let k1' = (if isZero k1 then r else k1) in
       if k0 \<noteq> l \<or> k1' \<noteq> r
       then bind_res (rebuild (Binary k l r) [k0, k1']) (\<lambda>e. Inr (ChangeTo e, m2))
       else Inr (SkipChildren, m2)))"

definition evaluator_visitKind :: "(array \<Rightarrow> int \<Rightarrow> expr) \<Rightarrow> visit_fun \<Rightarrow> visited \<Rightarrow> expr
    \<Rightarrow> (action \<times> visited) result" where
  "evaluator_visitKind getInitialValue vis m e =
     (case e of
        Read a ul i \<Rightarrow> visitRead getInitialValue vis m a ul i
      | Binary k l r \<Rightarrow>
          (if isDivision k then protectedDivOperation vis m k l r else Inr (DoChildren, m))
      | _ \<Rightarrow> Inr (DoChildren, m))"

fun isa_Read :: "expr \<Rightarrow> bool" where
  "isa_Read (Read a ul i) = True"
| "isa_Read _ = False"

definition evaluator_visitExpr :: "expr \<Rightarrow> action result" where
  "evaluator_visitExpr e =
     (if getKids e = [] \<or> isa_Read e \<or> \<not> list_all is_Constant (getKids e)
      then Inr DoChildren
      else map_res ChangeTo (rebuild e (getKids e)))"

definition evaluator_visitExprPost :: "expr \<Rightarrow> action" where
  "evaluator_visitExprPost e = (case e of NotOptimized src \<Rightarrow> ChangeTo src | _ \<Rightarrow> SkipChildren)"

definition ExprEvaluator :: "(array \<Rightarrow> int \<Rightarrow> expr) \<Rightarrow> visitor" where
  "ExprEvaluator getInitialValue =
     \<lparr>visitExpr = evaluator_visitExpr,
      visitKind = evaluator_visitKind getInitialValue,
      visitExprPost = evaluator_visitExprPost,
      recursive = False\<rparr>"

section \<open>Assignments\<close>

record assignment =
  allowFreeValues :: bool
  bindings :: "array \<rightharpoonup> int list"

text \<open>The constructor: \<open>insert\<close> keeps the first binding of an object.\<close>

definition mk_Assignment :: "array list \<Rightarrow> int list list \<Rightarrow> bool \<Rightarrow> assignment" where
  "mk_Assignment objects values free =
     \<lparr>allowFreeValues = free, bindings = map_of (zip objects values)\<rparr>"

definition evaluate_byte :: "assignment \<Rightarrow> array \<Rightarrow> int \<Rightarrow> expr" where
  "evaluate_byte asg a index =
     (case bindings asg a of
        Some vs \<Rightarrow>
          (if nat index < length vs then Constant (arr_range a) (take_bit (arr_range a) (vs ! nat index))
           else if allowFreeValues asg then create_Read a UNull (Constant (arr_domain a) index)
           else Constant (arr_range a) 0)
      | None \<Rightarrow>
          (if allowFreeValues asg then create_Read a UNull (Constant (arr_domain a) index)
           else Constant (arr_range a) 0))"

definition AssignmentEvaluator :: "assignment \<Rightarrow> visitor" where
  "AssignmentEvaluator asg = ExprEvaluator (evaluate_byte asg)"

definition evaluate :: "nat \<Rightarrow> assignment \<Rightarrow> expr \<Rightarrow> expr result" where
  "evaluate n asg e = map_res fst (visit n (AssignmentEvaluator asg) [] e)"

fun satisfies_from :: "nat \<Rightarrow> assignment \<Rightarrow> visited \<Rightarrow> expr list \<Rightarrow> bool result" where
  "satisfies_from n asg m [] = Inr True"
| "satisfies_from n asg m (c # cs) =
     bind_res (visit n (AssignmentEvaluator asg) m c) (\<lambda>(r, m').
       if isTrue r then satisfies_from n asg m' cs else Inr False)"

definition satisfies :: "nat \<Rightarrow> assignment \<Rightarrow> expr list \<Rightarrow> bool result" where
  "satisfies n asg cs = satisfies_from n asg [] cs"

text \<open>
  \<open>createConstraintsFromAssignment\<close>; \<open>values[arrayIndex]\<close> past the end is undefined
  behaviour, here an error. The bindings are visited in the order of the map's keys, given
  as a list.
\<close>

definition byte_constraint :: "array \<Rightarrow> nat \<Rightarrow> int \<Rightarrow> expr" where
  "byte_constraint a j v =
     create_Eq (create_Read a UNull (Constant (arr_domain a) (take_bit (arr_domain a) (int j))))
       (Constant (arr_range a) (take_bit (arr_range a) v))"

fun createConstraintsFromAssignment :: "(array \<times> int list) list \<Rightarrow> expr list result" where
  "createConstraintsFromAssignment [] = Inr []"
| "createConstraintsFromAssignment ((a, vs) # bs) =
     (if arr_size a \<le> length vs
      then map_res (\<lambda>es. map (\<lambda>j. byte_constraint a j (vs ! j)) [0..<arr_size a] @ es)
        (createConstraintsFromAssignment bs)
      else Inl OutOfBounds)"

section \<open>Soundness of the evaluator\<close>

text \<open>The contract of \<open>getInitialValue\<close>.\<close>

definition initial_ok :: "(env \<Rightarrow> bool) \<Rightarrow> (array \<Rightarrow> int \<Rightarrow> expr) \<Rightarrow> bool" where
  "initial_ok P giv \<longleftrightarrow> (\<forall>a j. wf_array a \<longrightarrow> in_width (arr_domain a) j
     \<longrightarrow> \<not> (isConstantArray a \<and> j < int (arr_size a))
     \<longrightarrow> wf_expr (giv a j) \<and> getWidth (giv a j) = arr_range a
       \<and> (\<forall>\<rho>. wf_env \<rho> \<longrightarrow> P \<rho> \<longrightarrow> eval \<rho> (giv a j) = \<rho> a j))"

lemma wf_constant_array_value:
  assumes "wf_array a" "isConstantArray a" "0 \<le> j" "j < int (arr_size a)"
  shows "in_width (arr_range a) (constantValues a ! nat j)"
  using assms by (auto simp: wf_array_def)

lemma evalRead_ok:
  assumes giv: "initial_ok P giv" and f: "visit_fun_ok P f"
    and a: "wf_array a" and j: "in_width (arr_domain a) j"
  shows "wf_updates ul a \<Longrightarrow> visited_ok P m \<Longrightarrow> evalRead giv f m a ul j = Inr (act, m')
    \<Longrightarrow> visited_ok P m' \<and> (\<exists>r. act = ChangeTo r \<and> wf_expr r \<and> getWidth r = arr_range a
      \<and> (\<forall>\<rho>. wf_env \<rho> \<longrightarrow> P \<rho> \<longrightarrow> eval \<rho> r = eval_read \<rho> ul a j))"
proof (induction ul arbitrary: m rule: updates.induct[where ?P1.0 = "\<lambda>_. True"])
  case UNull
  then show ?case
    using a j giv wf_constant_array_value[OF a, of j]
    by (auto simp: initial_ok_def initial_value_def in_width_def wf_array_def split: if_splits)
next
  case (UNode i v un)
  then obtain ui m1 where ui: "f m i = Inr (ui, m1)" by auto
  have wfs: "wf_expr i" "wf_expr v" "getWidth v = arr_range a" "getWidth i = arr_domain a"
    "wf_updates un a"
    using UNode.prems(1) by auto
  note i_ok = visit_fun_okD[OF f UNode.prems(2) ui]
  note m1 = conjunct2[OF i_ok] and ui_ok = sem_eq_onD[OF conjunct1[OF i_ok] wfs(1)]
  show ?case
  proof (cases "dyn_cast_Constant ui")
    case None
    have wf: "wf_expr (Read a (UNode i v un) (Constant (arr_domain a) j))"
      using a j UNode.prems(1) by (simp add: wf_array_def)
    from sem_eqD[OF create_Read_sem_eq wf] None UNode.prems(3) ui m1 show ?thesis by auto
  next
    case (Some wc)
    then obtain w c where c: "ui = Constant w c" "wc = (w, c)" by (cases wc) (auto simp: dyn_casts)
    have i: "eval \<rho> i = c" if "wf_env \<rho>" "P \<rho>" for \<rho>
      using ui_ok(3)[OF that] c by simp
    show ?thesis
    proof (cases "c = j")
      case True
      with UNode.prems(3) ui Some c obtain r where r: "f m1 v = Inr (r, m')" "act = ChangeTo r"
        by auto
      from visit_fun_okD[OF f m1 r(1)] have "sem_eq_on P r v" "visited_ok P m'" by auto
      with sem_eq_onD[OF this(1) wfs(2)] r(2) wfs(3) i True show ?thesis by simp
    next
      case False
      with UNode.prems(3) ui Some c have "evalRead giv f m1 a un j = Inr (act, m')" by simp
      with UNode.IH[OF wfs(5) m1] i False show ?thesis by auto
    qed
  qed
qed simp_all

lemma evalRead_visited:
  assumes f: "visit_fun_ok P f"
  shows "visited_ok P m \<Longrightarrow> evalRead giv f m a ul j = Inr (act, m') \<Longrightarrow> visited_ok P m'"
proof (induction ul arbitrary: m rule: updates.induct[where ?P1.0 = "\<lambda>_. True"])
  case (UNode i v un)
  then obtain ui m1 where ui: "f m i = Inr (ui, m1)" by auto
  note m1 = conjunct2[OF visit_fun_okD[OF f UNode.prems(1) ui]]
  have "visited_ok P m'" if "f m1 v = Inr (r, m')" for r
    using visit_fun_okD[OF f m1 that] by simp
  with UNode.prems(2) ui m1 UNode.IH[OF m1] show ?case
    by (auto split: option.splits if_splits)
qed (auto split: if_splits)

lemma take_bit_index: "wf_array a \<Longrightarrow> in_width (arr_domain a) c \<Longrightarrow> take_bit 32 c = c"
  by (rule take_bit_in_width) (auto simp: wf_array_def intro: in_width_mono)

lemma visitRead_ok:
  assumes giv: "initial_ok P giv" and f: "visit_fun_ok P f" and m: "visited_ok P m"
    and wf: "wf_expr (Read a ul i)" and r: "visitRead giv f m a ul i = Inr (act, m')"
  shows "visited_ok P m' \<and> (\<forall>e. act = ChangeTo e \<longrightarrow> sem_eq_on P e (Read a ul i))"
proof -
  from r obtain v m1 where v: "f m i = Inr (v, m1)" by (auto simp: visitRead_def)
  note v_ok = visit_fun_okD[OF f m v]
  from wf have wfs: "wf_expr i" "wf_array a" "wf_updates ul a" "getWidth i = arr_domain a" by auto
  note i_ok = sem_eq_onD[OF conjunct1[OF v_ok] wfs(1)]
  show ?thesis
  proof (cases "dyn_cast_Constant v")
    case None
    with r v v_ok show ?thesis by (auto simp: visitRead_def)
  next
    case (Some wc)
    then obtain w c where c: "v = Constant w c" "wc = (w, c)" by (cases wc) (auto simp: dyn_casts)
    with i_ok wfs have w: "in_width (arr_domain a) c" by auto
    from r v Some c have "evalRead giv f m1 a ul c = Inr (act, m')"
      by (simp add: visitRead_def take_bit_index[OF wfs(2) w])
    from evalRead_ok[OF giv f wfs(2) w wfs(3) conjunct2[OF v_ok] this] i_ok(3) c
    show ?thesis by (auto simp: sem_eq_on_def)
  qed
qed

lemma protectedDivOperation_ok:
  assumes f: "visit_fun_ok P f" and m: "visited_ok P m"
    and r: "protectedDivOperation f m k l r = Inr (act, m')"
  shows "visited_ok P m' \<and> (\<forall>e. act = ChangeTo e \<longrightarrow> sem_eq_on P e (Binary k l r))"
proof -
  from r obtain k0 m1 k1 where k: "f m l = Inr (k0, m1)" "f m1 r = Inr (k1, m')"
    by (auto simp: protectedDivOperation_def Let_def split: if_splits)
  note ok0 = visit_fun_okD[OF f m k(1)]
  note ok1 = visit_fun_okD[OF f conjunct2[OF ok0] k(2)]
  define k1' where "k1' = (if isZero k1 then r else k1)"
  have kids: "list_all2 (sem_eq_on P) [k0, k1'] (getKids (Binary k l r))"
    using ok0 ok1 by (simp add: k1'_def)
  show ?thesis
  proof (cases "k0 \<noteq> l \<or> k1' \<noteq> r")
    case True
    with r k obtain e where "rebuild (Binary k l r) [k0, k1'] = Inr e" "act = ChangeTo e"
      by (auto simp: protectedDivOperation_def Let_def k1'_def[symmetric] simp del: rebuild.simps)
    with rebuild_sem_eq_on[OF kids] ok1 show ?thesis by auto
  next
    case False
    with r k ok1 show ?thesis
      by (auto simp: protectedDivOperation_def Let_def k1'_def[symmetric])
  qed
qed

lemma evaluator_visitKind_ok:
  assumes giv: "initial_ok P giv" and f: "visit_fun_ok P f" and m: "visited_ok P m"
    and r: "evaluator_visitKind giv f m e = Inr (act, m')"
  shows "visited_ok P m' \<and> (\<forall>a. act = ChangeTo a \<longrightarrow> sem_eq_on P a e)"
proof (cases e)
  case (Read a ul i)
  have "visited_ok P m'"
  proof -
    from r Read obtain v m1 where v: "f m i = Inr (v, m1)"
      by (auto simp: evaluator_visitKind_def visitRead_def)
    with visit_fun_okD[OF f m v] r Read evalRead_visited[OF f, of m1] show ?thesis
      by (auto simp: evaluator_visitKind_def visitRead_def split: option.splits)
  qed
  moreover have "sem_eq_on P x e" if "act = ChangeTo x" for x
    using visitRead_ok[OF giv f m, of a ul i act m'] r Read that
    by (cases "wf_expr e") (auto simp: evaluator_visitKind_def sem_eq_on_def)
  ultimately show ?thesis by blast
next
  case (Binary k l r')
  with r m protectedDivOperation_ok[OF f m, of k l r' act m'] show ?thesis
    by (auto simp: evaluator_visitKind_def split: if_splits)
qed (use r m in \<open>auto simp: evaluator_visitKind_def\<close>)

lemma evaluator_visitExpr_ok: "evaluator_visitExpr e = Inr (ChangeTo a) \<Longrightarrow> sem_eq_on P a e"
  by (auto simp: evaluator_visitExpr_def list_all2_refl intro!: rebuild_sem_eq_on split: if_splits)

lemma evaluator_visitExprPost_ok: "evaluator_visitExprPost e = ChangeTo a \<Longrightarrow> sem_eq_on P a e"
  by (auto simp: evaluator_visitExprPost_def sem_eq_on_def split: expr.splits)

lemma ExprEvaluator_ok: "initial_ok P giv \<Longrightarrow> visitor_ok P (ExprEvaluator giv)"
  unfolding visitor_ok_def
  by (auto simp: ExprEvaluator_def evaluator_visitExpr_ok evaluator_visitExprPost_ok
      dest: evaluator_visitKind_ok)

section \<open>Soundness of assignments\<close>

text \<open>
  The environments an assignment stands for: they have its bytes, and zero elsewhere when
  values are not free. \<open>env_of\<close> is the least of them.
\<close>

definition agrees :: "assignment \<Rightarrow> env \<Rightarrow> bool" where
  "agrees asg \<rho> \<longleftrightarrow> (\<forall>a j. 0 \<le> j \<longrightarrow>
     (case bindings asg a of
        Some vs \<Rightarrow>
          (if nat j < length vs then \<rho> a j = take_bit (arr_range a) (vs ! nat j)
           else \<not> allowFreeValues asg \<longrightarrow> \<rho> a j = 0)
      | None \<Rightarrow> \<not> allowFreeValues asg \<longrightarrow> \<rho> a j = 0))"

definition env_of :: "assignment \<Rightarrow> env" where
  "env_of asg a j =
     (case bindings asg a of
        Some vs \<Rightarrow> (if nat j < length vs then take_bit (arr_range a) (vs ! nat j) else 0)
      | None \<Rightarrow> 0)"

lemma wf_env_of: "wf_env (env_of asg)"
  by (auto simp: wf_env_def env_of_def split: option.split)

lemma agrees_env_of: "agrees asg (env_of asg)"
  by (auto simp: agrees_def env_of_def split: option.split)

lemma free_byte_ok:
  assumes "wf_array a" "in_width (arr_domain a) j" "\<not> (isConstantArray a \<and> j < int (arr_size a))"
  shows "wf_expr (create_Read a UNull (Constant (arr_domain a) j))
    \<and> getWidth (create_Read a UNull (Constant (arr_domain a) j)) = arr_range a
    \<and> (\<forall>\<rho>. wf_env \<rho> \<longrightarrow> eval \<rho> (create_Read a UNull (Constant (arr_domain a) j)) = \<rho> a j)"
proof -
  have wf: "wf_expr (Read a UNull (Constant (arr_domain a) j))"
    using assms(1,2) by (simp add: wf_array_def)
  show ?thesis
    using sem_eqD[OF create_Read_sem_eq wf] assms(3) by (auto simp: initial_value_def)
qed

lemma evaluate_byte_ok: "initial_ok (agrees asg) (evaluate_byte asg)"
  unfolding initial_ok_def
proof (intro allI impI)
  fix a j
  assume a: "wf_array a" and j: "in_width (arr_domain a) j"
    and out: "\<not> (isConstantArray a \<and> j < int (arr_size a))"
  from j have "0 \<le> j" by (simp add: in_width_def)
  with a free_byte_ok[OF a j out]
  show "wf_expr (evaluate_byte asg a j) \<and> getWidth (evaluate_byte asg a j) = arr_range a
      \<and> (\<forall>\<rho>. wf_env \<rho> \<longrightarrow> agrees asg \<rho> \<longrightarrow> eval \<rho> (evaluate_byte asg a j) = \<rho> a j)"
    by (auto simp: evaluate_byte_def agrees_def wf_array_def split: option.splits)
qed

lemma AssignmentEvaluator_ok: "visit_fun_ok (agrees asg) (visit n (AssignmentEvaluator asg))"
  unfolding AssignmentEvaluator_def by (intro visit_ok ExprEvaluator_ok evaluate_byte_ok)

lemma evaluate_ok: "evaluate n asg e = Inr r \<Longrightarrow> sem_eq_on (agrees asg) r e"
  using visit_fun_okD[OF AssignmentEvaluator_ok visited_ok_Nil] by (auto simp: evaluate_def)

lemma satisfies_from_ok:
  "visited_ok (agrees asg) m \<Longrightarrow> wf_constraints cs \<Longrightarrow> satisfies_from n asg m cs = Inr True
    \<Longrightarrow> wf_env \<rho> \<Longrightarrow> agrees asg \<rho> \<Longrightarrow> sat \<rho> cs"
proof (induction cs arbitrary: m)
  case (Cons c cs)
  then obtain r m' where r: "visit n (AssignmentEvaluator asg) m c = Inr (r, m')" "isTrue r"
    "satisfies_from n asg m' cs = Inr True" by (auto split: if_splits)
  note ok = visit_fun_okD[OF AssignmentEvaluator_ok Cons.prems(1) r(1)]
  from Cons.prems(2) have c: "wf_expr c" "getWidth c = 1" by auto
  note r_ok = sem_eq_onD[OF conjunct1[OF ok] c(1)]
  have "eval \<rho> c = 1"
    using r(2) r_ok(1) r_ok(3)[OF Cons.prems(4,5)] by (cases r) (auto simp: in_width_bool)
  with Cons r(3) ok show ?case by auto
qed simp

end
