(* ===== verification/Examples.thy ===== *)
theory Examples
  imports ExecState Assignment "HOL-Library.Product_Lexorder" "HOL-Library.Code_Target_Numeral"
begin

text \<open>
  Small concrete data on which the properties are shown to apply: an array \<open>x\<close> of four
  symbolic bytes, the branch condition \<open>x[0] < 10\<close>, and the two states that a fork on it
  leaves, which have gone on to set a register and the one byte of a global differently. The
  two parameters of the comparison of expressions are instantiated by a total order on the
  fields of an array and by the low bits of a constant.
\<close>

definition ex_array :: array where
  "ex_array = \<lparr>arr_name = ''x'', arr_size = 4, arr_domain = 32, arr_range = 8, constantValues = []\<rparr>"

definition ex_byte :: "int \<Rightarrow> expr" where
  "ex_byte i = Read ex_array UNull (Constant 32 i)"

definition ex_env :: env where
  "ex_env = (\<lambda>a i. take_bit (arr_range a) (if i = 0 then 3 else 20))"

definition ex_cond :: expr where
  "ex_cond = Binary Ult (ex_byte 0) (Constant 8 10)"

definition ex_object :: memory_object where
  "ex_object = \<lparr>mo_id = 1, mo_address = 100, mo_size = 1, isLocal = False, isGlobal = True,
     isFixed = False, isUserSpecified = False\<rparr>"

definition ex_function :: kfunction where
  "ex_function = \<lparr>kf_id = 1, numRegisters = 1\<rparr>"

definition ex_frame :: "int \<Rightarrow> stack_frame" where
  "ex_frame v = (new_StackFrame 0 ex_function)\<lparr>locals := [Some (Constant 32 v)]\<rparr>"

definition ex_space :: "nat \<Rightarrow> address_space" where
  "ex_space oid = \<lparr>cowKey = 2, objects = tree_insert address_of (ex_object, oid) Terminator\<rparr>"

definition ex_state :: "int \<Rightarrow> expr \<Rightarrow> nat \<Rightarrow> exec_state" where
  "ex_state v c oid = (new_ExecutionState 7 ex_function)
     \<lparr>stack := [ex_frame v], constraints := [c], addressSpace := ex_space oid\<rparr>"

definition ex_A :: exec_state where
  "ex_A = ex_state 1 ex_cond 0"

definition ex_B :: exec_state where
  "ex_B = ex_state 2 (Binary Eq (Constant 1 0) ex_cond) 1"

definition ex_contents :: "int \<Rightarrow> object_state" where
  "ex_contents v = (new_ObjectState 1)\<lparr>concreteStore := [v], copyOnWriteOwner := 2\<rparr>"

definition ex_store :: store where
  "ex_store = \<lparr>objs = [0 \<mapsto> ex_contents 5, 1 \<mapsto> ex_contents 7], next_oid = 2, const_arr_id = 0\<rparr>"

definition array_key :: "array \<Rightarrow> string \<times> nat \<times> nat \<times> nat \<times> int list" where
  "array_key a = (arr_name a, arr_size a, arr_domain a, arr_range a, constantValues a)"

definition ex_plt :: "array \<Rightarrow> array \<Rightarrow> bool" where
  "ex_plt a b \<longleftrightarrow> array_key a < array_key b"

definition mo_key :: "memory_object \<Rightarrow> nat \<times> nat \<times> nat \<times> bool \<times> bool \<times> bool \<times> bool" where
  "mo_key m = (mo_id m, mo_address m, mo_size m, isLocal m, isGlobal m, isFixed m, isUserSpecified m)"

definition ex_mlt :: "memory_object \<Rightarrow> memory_object \<Rightarrow> bool" where
  "ex_mlt a b \<longleftrightarrow> mo_key a < mo_key b"

definition ex_hv :: "width \<Rightarrow> int \<Rightarrow> 32 word" where
  "ex_hv w v = word_of_int v"

lemma ex_array_wf: "wf_array ex_array" "arr_domain ex_array = 32" "arr_range ex_array = 8"
  by (simp_all add: ex_array_def wf_array_def isConstantArray_def isSymbolicArray_def)

lemma ex_byte_wf: "0 \<le> i \<Longrightarrow> i < 4 \<Longrightarrow> wf_expr (ex_byte i)" "getWidth (ex_byte i) = 8"
  using ex_array_wf by (auto simp: ex_byte_def in_width_def)

lemma ex_cond_wf: "wf_expr ex_cond" "getWidth ex_cond = 1"
  using ex_byte_wf[of 0] by (auto simp: ex_cond_def in_width_def)

lemma array_key_eq: "array_key a = array_key b \<Longrightarrow> a = b"
  by (simp add: array_key_def)

lemma ex_plt_order: "pointer_order ex_plt"
  unfolding pointer_order_def
proof (intro conjI allI impI)
  fix a b :: array
  assume "a \<noteq> b"
  then have "array_key a \<noteq> array_key b" using array_key_eq by blast
  then show "ex_plt a b = (\<not> ex_plt b a)" unfolding ex_plt_def using linorder_neq_iff[of "array_key a" "array_key b"] less_asym by blast
next
  fix a b c :: array
  assume "ex_plt a b" "ex_plt b c"
  then show "ex_plt a c" unfolding ex_plt_def by (rule less_trans)
qed

lemma mo_key_eq: "mo_key a = mo_key b \<Longrightarrow> a = b"
  by (simp add: mo_key_def)

lemma ex_mlt_order: "strict_order ex_mlt"
  unfolding strict_order_def
proof (intro conjI allI impI)
  fix a b c :: memory_object
  show "\<not> ex_mlt a a" by (simp add: ex_mlt_def)
  show "ex_mlt a c" if "ex_mlt a b" "ex_mlt b c" using that unfolding ex_mlt_def by (rule less_trans)
  show "ex_mlt a b \<or> a = b \<or> ex_mlt b a"
    unfolding ex_mlt_def using linorder_less_linear[of "mo_key a" "mo_key b"] mo_key_eq by blast
qed

lemma ex_lt_order: "strict_order (expr_lt ex_hv ex_plt)"
  by (rule expr_lt_strict_order[OF ex_plt_order])

lemma ex_contents_wf: "in_width 8 v \<Longrightarrow> wf_object (ex_contents v)"
  unfolding ex_contents_def
  using wf_new_ObjectState(1)[of 1]
  by (auto simp: wf_object_def wf_shape_def wf_list_def wf_byte_def new_ObjectState_def mask_ok_def
      root_array_def isByteConcrete_def isByteFlushed_def knownSymbolic_def obj_val_def)

lemma ex_objects_of: "objects_of (ex_space oid) = {(ex_object, oid)}"
  by (simp add: objects_of_def ex_space_def)

lemma ex_space_ok: "space_ok (ex_space oid)"
  by (simp add: ex_space_def tree_ok_def)

lemma ex_family: "family_ok ex_store [ex_space 0, ex_space 1]"
proof -
  have w: "wf_object (ex_contents 5)" "wf_object (ex_contents 7)"
    by (auto intro!: ex_contents_wf simp: in_width_def)
  have "cow_ok ex_store [ex_space 0, ex_space 1]"
    unfolding cow_ok_def
    using ex_space_ok
    by (auto simp: ex_store_def binds_def ex_objects_of less_Suc_eq nth_Cons' ex_contents_def)
      (auto simp: ex_space_def)
  with w show ?thesis
    by (auto simp: family_ok_def ex_store_def ex_objects_of ex_contents_def new_ObjectState_def
        ex_object_def split: if_splits)
qed

lemma ex_ready: "merge_ready ex_store [ex_space 0, ex_space 1] 0 1 ex_A ex_B"
  unfolding merge_ready_def
  using ex_family ex_cond_wf
  by (auto simp: ex_A_def ex_B_def ex_state_def new_ExecutionState_def pushFrame_def ex_objects_of
      ex_store_def ex_contents_def new_ObjectState_def in_width_def typed_stacks_def typed_frame_def
      ex_frame_def new_StackFrame_def ex_function_def)

definition ex_merge :: "(bool \<times> exec_state \<times> store) result" where
  "ex_merge = merge 20 True (expr_lt ex_hv ex_plt) ex_mlt ex_A ex_B ex_store"

lemma ex_merge_returns: "\<exists>sm st'. ex_merge = Inr (True, sm, st')"
proof -
  have "case ex_merge of Inr (b, _, _) \<Rightarrow> b | Inl _ \<Rightarrow> False" by code_simp
  then obtain p where "ex_merge = Inr p" "fst p" by (auto split: sum.splits)
  then show ?thesis by (metis prod.collapse)
qed


lemma ex_env_wf: "wf_env ex_env"
  by (simp add: wf_env_def ex_env_def in_width_take_bit)

lemma ex_cond_true: "eval ex_env ex_cond = 1"
  by (simp add: ex_cond_def ex_byte_def initial_value_def ex_array_def isConstantArray_def
      isSymbolicArray_def ex_env_def)

lemma ex_A_simps: "constraints ex_A = [ex_cond]" "stack ex_A = [ex_frame 1]" "addressSpace ex_A = ex_space 0"
  by (simp_all add: ex_A_def ex_state_def)

lemma ex_B_simps: "constraints ex_B = [Binary Eq (Constant 1 0) ex_cond]" "stack ex_B = [ex_frame 2]"
    "addressSpace ex_B = ex_space 1"
  by (simp_all add: ex_B_def ex_state_def)

lemma ex_sat: "sat ex_env (constraints ex_A)" "\<not> sat ex_env (constraints ex_B)"
  using ex_cond_true by (simp_all add: ex_A_simps ex_B_simps)


lemma ex_A_contents: "contents \<rho> ex_store (addressSpace ex_A) ex_object 0 = Some 5"
proof -
  have "findObject ex_object (ex_space 0) = Some 0"
    using ex_space_ok by (auto simp: findObject_iff ex_objects_of)
  then show ?thesis
    by (simp add: contents_def ex_A_simps ex_store_def ex_contents_def new_ObjectState_def obj_val_def
        isByteConcrete_def)
qed


lemma ex_byte_values: "eval ex_env (ex_byte 0) = 3" "eval ex_env (ex_byte 1) = 20"
  by (simp_all add: ex_byte_def initial_value_def ex_array_def isConstantArray_def isSymbolicArray_def
      ex_env_def)

definition ex_writes :: updates where
  "ex_writes = UNode (Cast ZExt (ex_byte 2) 32) (Constant 8 7) (UNode (Constant 32 1) (Constant 8 9) UNull)"

definition ex_asg :: assignment where
  "ex_asg = \<lparr>allowFreeValues = False, bindings = [ex_array \<mapsto> [3, 20, 4, 5]]\<rparr>"

end
