(* ===== verification/Searcher.thy ===== *)
theory Searcher
  imports Prelude "HOL-Library.Multiset"
begin

text \<open>
  The searchers of \<open>klee/lib/Core/Searcher.cpp\<close> and \<open>Searcher.h\<close>: which state runs
  next. A state is known by its address, a number. The interface \<open>searcher\<close> says what the
  interpreter relies on: a searcher is a bag of states, \<open>selectState\<close> takes one of them and
  \<open>update\<close> adds and removes exactly what it is told. Depth-first, breadth-first and random
  search provide it; so does each searcher that wraps another one, for any base that does:
  interleaving, batching, iterative deepening, and the \<open>MergingSearcher\<close> that pauses states.

  The random generator is a parameter: \<open>getInt32\<close> gives the next number and the state after it.
\<close>

section \<open>The interface\<close>

text \<open>
  A searcher holds a bag \<open>content\<close> of states and offers the part \<open>active\<close> of it; the rest
  is parked until the searcher decides otherwise. The current state is an active one, what is
  added is new, and what is removed is active or has just been added.
\<close>

locale searcher =
  fixes sel :: "'s \<Rightarrow> 'r \<Rightarrow> (nat \<times> 's \<times> 'r) result"
    and upd :: "nat option \<Rightarrow> nat list \<Rightarrow> nat list \<Rightarrow> 's \<Rightarrow> 's result"
    and emp :: "'s \<Rightarrow> bool"
    and active :: "'s \<Rightarrow> nat multiset"
    and content :: "'s \<Rightarrow> nat multiset"
    and ok :: "'s \<Rightarrow> bool"
  assumes active_content: "ok s \<Longrightarrow> active s \<subseteq># content s"
    and empty_ok: "ok s \<Longrightarrow> emp s \<longleftrightarrow> active s = {#}"
    and select_ok: "ok s \<Longrightarrow> active s \<noteq> {#} \<Longrightarrow>
      \<exists>es s' r'. sel s r = Inr (es, s', r') \<and> es \<in># active s \<and> active s' = active s
        \<and> content s' = content s \<and> ok s'"
    and update_ok: "ok s \<Longrightarrow> (\<And>c. current = Some c \<Longrightarrow> c \<in># active s) \<Longrightarrow>
      mset removed \<subseteq># active s + mset added \<Longrightarrow> distinct added \<Longrightarrow> set added \<inter> set_mset (content s) = {} \<Longrightarrow>
      \<exists>s'. upd current added removed s = Inr s' \<and> content s' = content s + mset added - mset removed
        \<and> ok s'"
begin

lemma select_result:
  assumes "ok s" "active s \<noteq> {#}" "sel s r = Inr (es, s', r')"
  shows "es \<in># active s" "active s' = active s" "content s' = content s" "ok s'"
  using select_ok[OF assms(1,2), of r] assms(3) by auto

lemma update_result:
  assumes "ok s" "\<And>c. current = Some c \<Longrightarrow> c \<in># active s"
    "mset removed \<subseteq># active s + mset added" "distinct added" "set added \<inter> set_mset (content s) = {}"
    "upd current added removed s = Inr s'"
  shows "content s' = content s + mset added - mset removed" "ok s'"
  using update_ok[of s current removed added, OF assms(1-5)] assms(6) by auto

lemma not_stuck: "ok s \<Longrightarrow> \<not> emp s \<Longrightarrow> \<exists>es s' r'. sel s r = Inr (es, s', r') \<and> es \<in># content s"
  using select_ok[of s r] active_content[of s] by (auto simp: empty_ok dest: mset_subset_eqD)

end

text \<open>A searcher that parks nothing.\<close>

locale bag_searcher =
  fixes sel :: "'s \<Rightarrow> 'r \<Rightarrow> (nat \<times> 's \<times> 'r) result"
    and upd :: "nat option \<Rightarrow> nat list \<Rightarrow> nat list \<Rightarrow> 's \<Rightarrow> 's result"
    and emp :: "'s \<Rightarrow> bool"
    and content :: "'s \<Rightarrow> nat multiset"
    and ok :: "'s \<Rightarrow> bool"
  assumes bag_empty: "ok s \<Longrightarrow> emp s \<longleftrightarrow> content s = {#}"
    and bag_select: "ok s \<Longrightarrow> content s \<noteq> {#} \<Longrightarrow>
      \<exists>es s' r'. sel s r = Inr (es, s', r') \<and> es \<in># content s \<and> content s' = content s \<and> ok s'"
    and bag_update: "ok s \<Longrightarrow> (\<And>c. current = Some c \<Longrightarrow> c \<in># content s) \<Longrightarrow>
      mset removed \<subseteq># content s + mset added \<Longrightarrow> distinct added \<Longrightarrow> set added \<inter> set_mset (content s) = {} \<Longrightarrow>
      \<exists>s'. upd current added removed s = Inr s' \<and> content s' = content s + mset added - mset removed
        \<and> ok s'"

sublocale bag_searcher \<subseteq> searcher sel upd emp content content ok
  using bag_empty bag_select bag_update by unfold_locales auto

context bag_searcher
begin

text \<open>The utility functions \<open>addState\<close> and \<open>removeState\<close>.\<close>

lemma addState_ok:
  assumes "ok s" "es \<notin># content s"
  shows "\<exists>s'. upd None [es] [] s = Inr s' \<and> content s' = add_mset es (content s) \<and> ok s'"
  using bag_update[OF assms(1), of None "[]" "[es]"] assms(2) by simp

lemma removeState_ok:
  assumes "ok s" "es \<in># content s"
  shows "\<exists>s'. upd None [] [es] s = Inr s' \<and> content s' = content s - {#es#} \<and> ok s'"
  using bag_update[OF assms(1), of None "[es]" "[]"] assms(2) by simp

end

definition addState :: "(nat option \<Rightarrow> nat list \<Rightarrow> nat list \<Rightarrow> 's \<Rightarrow> 's result) \<Rightarrow> nat \<Rightarrow> 's \<Rightarrow> 's result" where
  "addState upd es = upd None [es] []"

definition removeState :: "(nat option \<Rightarrow> nat list \<Rightarrow> nat list \<Rightarrow> 's \<Rightarrow> 's result) \<Rightarrow> nat \<Rightarrow> 's \<Rightarrow> 's result" where
  "removeState upd es = upd None [] [es]"

text \<open>\<open>std::find\<close> and \<open>erase\<close> of one state, with the assertion that it was there.\<close>

definition erase_state :: "nat \<Rightarrow> nat list \<Rightarrow> nat list result" where
  "erase_state es states = assert_res (es \<in> set states) (Inr (remove1 es states))"

lemma erase_state_ok:
  "es \<in> set states \<Longrightarrow> erase_state es states = Inr (remove1 es states)"
  by (simp add: erase_state_def assert_res_def)

lemma mset_remove_head:
  "mset (es # rs) \<subseteq># mset states \<Longrightarrow> es \<in> set states \<and> mset rs \<subseteq># mset (remove1 es states)"
  by (auto simp: insert_subset_eq_iff)

lemma mset_last: "xs \<noteq> [] \<Longrightarrow> mset (butlast xs) = mset xs - {#last xs#}"
  by (metis add_mset_remove_trivial append_butlast_last_id mset.simps mset_append union_mset_add_mset_right add.right_neutral)

section \<open>Depth-first search\<close>

fun dfs_remove :: "nat list \<Rightarrow> nat list \<Rightarrow> nat list result" where
  "dfs_remove [] states = Inr states"
| "dfs_remove (es # removed) states =
     (if states = [] then Inl OutOfBounds
      else if es = last states then dfs_remove removed (butlast states)
      else bind_res (erase_state es states) (dfs_remove removed))"

definition dfs_select :: "nat list \<Rightarrow> 'r \<Rightarrow> (nat \<times> nat list \<times> 'r) result" where
  "dfs_select states r = (if states = [] then Inl OutOfBounds else Inr (last states, states, r))"

definition dfs_update :: "nat option \<Rightarrow> nat list \<Rightarrow> nat list \<Rightarrow> nat list \<Rightarrow> nat list result" where
  "dfs_update current added removed states = dfs_remove removed (states @ added)"

definition list_empty :: "nat list \<Rightarrow> bool" where
  "list_empty states \<longleftrightarrow> states = []"

lemma dfs_remove_ok:
  "mset removed \<subseteq># mset states \<Longrightarrow>
    \<exists>s'. dfs_remove removed states = Inr s' \<and> mset s' = mset states - mset removed"
proof (induction removed states rule: dfs_remove.induct)
  case (2 es removed states)
  have h: "es \<in> set states" "mset removed \<subseteq># mset states - {#es#}"
    using mset_remove_head[OF "2.prems"] by simp_all
  then have ne: "states \<noteq> []" by auto
  show ?case
  proof (cases "es = last states")
    case True
    with h ne "2.IH"(1) show ?thesis by (auto simp: mset_last)
  next
    case False
    with h ne "2.IH"(2)[OF ne False, of "remove1 es states"] show ?thesis
      by (auto simp: erase_state_ok)
  qed
qed simp

lemma dfs_update_ok:
  "mset removed \<subseteq># mset s + mset added \<Longrightarrow>
    \<exists>s'. dfs_update current added removed s = Inr s' \<and> mset s' = mset s + mset added - mset removed"
  using dfs_remove_ok[of removed "s @ added"] by (simp add: dfs_update_def)

interpretation dfs: bag_searcher dfs_select dfs_update list_empty mset "\<lambda>_. True"
  by unfold_locales (auto simp: dfs_select_def dfs_update_ok list_empty_def)

section \<open>Breadth-first search\<close>

text \<open>
  When the current state forked it goes to the back of the queue. The search for it counts on it
  being there.
\<close>

fun bfs_remove :: "nat list \<Rightarrow> nat list \<Rightarrow> nat list result" where
  "bfs_remove [] states = Inr states"
| "bfs_remove (es # removed) states =
     (if states = [] then Inl OutOfBounds
      else if es = hd states then bfs_remove removed (tl states)
      else bind_res (erase_state es states) (bfs_remove removed))"

definition bfs_select :: "nat list \<Rightarrow> 'r \<Rightarrow> (nat \<times> nat list \<times> 'r) result" where
  "bfs_select states r = (if states = [] then Inl OutOfBounds else Inr (hd states, states, r))"

definition bfs_requeue :: "nat option \<Rightarrow> nat list \<Rightarrow> nat list \<Rightarrow> nat list \<Rightarrow> nat list result" where
  "bfs_requeue current added removed states =
     (case current of
        Some c \<Rightarrow>
          (if added \<noteq> [] \<and> c \<notin> set removed
           then bind_res (erase_state c states) (\<lambda>sts. Inr (sts @ [c]))
           else Inr states)
      | None \<Rightarrow> Inr states)"

definition bfs_update :: "nat option \<Rightarrow> nat list \<Rightarrow> nat list \<Rightarrow> nat list \<Rightarrow> nat list result" where
  "bfs_update current added removed states =
     bind_res (bfs_requeue current added removed states) (\<lambda>sts. bfs_remove removed (sts @ added))"

lemma bfs_remove_ok:
  "mset removed \<subseteq># mset states \<Longrightarrow>
    \<exists>s'. bfs_remove removed states = Inr s' \<and> mset s' = mset states - mset removed"
proof (induction removed states rule: bfs_remove.induct)
  case (2 es removed states)
  have h: "es \<in> set states" "mset removed \<subseteq># mset states - {#es#}"
    using mset_remove_head[OF "2.prems"] by simp_all
  then have ne: "states \<noteq> []" by auto
  show ?case
  proof (cases "es = hd states")
    case True
    with h ne "2.IH"(1) show ?thesis by (cases states) auto
  next
    case False
    with h ne "2.IH"(2)[OF ne False, of "remove1 es states"] show ?thesis
      by (auto simp: erase_state_ok)
  qed
qed simp

lemma bfs_requeue_ok:
  assumes "\<And>c. current = Some c \<Longrightarrow> c \<in> set states"
  shows "\<exists>s'. bfs_requeue current added removed states = Inr s' \<and> mset s' = mset states"
  using assms by (cases current) (auto simp: bfs_requeue_def erase_state_ok)

interpretation bfs: bag_searcher bfs_select bfs_update list_empty mset "\<lambda>_. True"
proof unfold_locales
  fix s :: "nat list" and current :: "nat option" and removed added :: "nat list"
  assume c: "\<And>c. current = Some c \<Longrightarrow> c \<in># mset s"
    and m: "mset removed \<subseteq># mset s + mset added"
  obtain q where q: "bfs_requeue current added removed s = Inr q" "mset q = mset s"
    using bfs_requeue_ok[of current s added removed] c by auto
  with m bfs_remove_ok[of removed "q @ added"]
  show "\<exists>s'. bfs_update current added removed s = Inr s' \<and>
      mset s' = mset s + mset added - mset removed \<and> True"
    by (auto simp: bfs_update_def)
qed (auto simp: bfs_select_def list_empty_def)

section \<open>Random search\<close>

fun random_remove :: "nat list \<Rightarrow> nat list \<Rightarrow> nat list result" where
  "random_remove [] states = Inr states"
| "random_remove (es # removed) states = bind_res (erase_state es states) (random_remove removed)"

definition random_select :: "('r \<Rightarrow> nat \<times> 'r) \<Rightarrow> nat list \<Rightarrow> 'r \<Rightarrow> (nat \<times> nat list \<times> 'r) result" where
  "random_select getInt32 states r =
     (case getInt32 r of (n, r') \<Rightarrow>
        if states = [] then Inl DivisionByZero else Inr (states ! (n mod length states), states, r'))"

definition random_update :: "nat option \<Rightarrow> nat list \<Rightarrow> nat list \<Rightarrow> nat list \<Rightarrow> nat list result" where
  "random_update current added removed states = random_remove removed (states @ added)"

lemma random_remove_ok:
  "mset removed \<subseteq># mset states \<Longrightarrow>
    \<exists>s'. random_remove removed states = Inr s' \<and> mset s' = mset states - mset removed"
proof (induction removed states rule: random_remove.induct)
  case (2 es removed states)
  from mset_remove_head[OF "2.prems"] "2.IH"[of "remove1 es states"] show ?case
    by (auto simp: erase_state_ok)
qed simp

lemma random_update_ok:
  "mset removed \<subseteq># mset s + mset added \<Longrightarrow>
    \<exists>s'. random_update current added removed s = Inr s' \<and> mset s' = mset s + mset added - mset removed"
  using random_remove_ok[of removed "s @ added"] by (simp add: random_update_def)

interpretation random: bag_searcher "random_select getInt32" random_update list_empty mset "\<lambda>_. True"
  for getInt32 :: "'r \<Rightarrow> nat \<times> 'r"
  by unfold_locales (auto simp: random_select_def random_update_ok list_empty_def split: prod.split)

section \<open>Interleaving\<close>

text \<open>
  \<open>InterleavedSearcher\<close>: every searcher holds all states; \<open>selectState\<close> asks them in turn,
  from the last to the first. \<open>index\<close> is an \<open>unsigned\<close>.
\<close>

record 's interleaved =
  searchers :: "'s list"
  index :: nat

definition new_InterleavedSearcher :: "'s list \<Rightarrow> 's interleaved" where
  "new_InterleavedSearcher ss = \<lparr>searchers = ss, index = 1\<rparr>"

definition interleaved_select :: "('s \<Rightarrow> 'r \<Rightarrow> (nat \<times> 's \<times> 'r) result) \<Rightarrow> 's interleaved \<Rightarrow> 'r
    \<Rightarrow> (nat \<times> 's interleaved \<times> 'r) result" where
  "interleaved_select sel m r =
     (let i = (index m + (2 ^ 32 - 1)) mod 2 ^ 32 in
      if length (searchers m) \<le> i then Inl OutOfBounds
      else bind_res (sel (searchers m ! i) r) (\<lambda>(es, s', r').
        Inr (es, \<lparr>searchers = (searchers m)[i := s'],
                  index = (if i = 0 then length (searchers m) else i)\<rparr>, r')))"

fun update_all :: "('s \<Rightarrow> 's result) \<Rightarrow> 's list \<Rightarrow> 's list result" where
  "update_all f [] = Inr []"
| "update_all f (s # ss) = bind_res (f s) (\<lambda>s'. map_res ((#) s') (update_all f ss))"

definition interleaved_update :: "(nat option \<Rightarrow> nat list \<Rightarrow> nat list \<Rightarrow> 's \<Rightarrow> 's result)
    \<Rightarrow> nat option \<Rightarrow> nat list \<Rightarrow> nat list \<Rightarrow> 's interleaved \<Rightarrow> 's interleaved result" where
  "interleaved_update upd current added removed m =
     map_res (\<lambda>ss. m\<lparr>searchers := ss\<rparr>) (update_all (upd current added removed) (searchers m))"

definition interleaved_empty :: "('s \<Rightarrow> bool) \<Rightarrow> 's interleaved \<Rightarrow> bool" where
  "interleaved_empty emp m = emp (searchers m ! 0)"

definition interleaved_content :: "('s \<Rightarrow> nat multiset) \<Rightarrow> 's interleaved \<Rightarrow> nat multiset" where
  "interleaved_content content m = content (searchers m ! 0)"

definition interleaved_ok :: "('s \<Rightarrow> nat multiset) \<Rightarrow> ('s \<Rightarrow> bool) \<Rightarrow> 's interleaved \<Rightarrow> bool" where
  "interleaved_ok content ok m \<longleftrightarrow>
     0 < index m \<and> index m \<le> length (searchers m) \<and> length (searchers m) < 2 ^ 32
   \<and> (\<forall>s \<in> set (searchers m). ok s \<and> content s = interleaved_content content m)"

lemma unsigned_decrement:
  assumes "0 < n" "n < 2 ^ 32"
  shows "(n + (2 ^ 32 - 1)) mod 2 ^ 32 = n - (1::nat)"
proof -
  have "n + (2 ^ 32 - 1) = (n - 1) + 2 ^ 32" using assms by simp
  with assms show ?thesis by (simp only: mod_add_self2) simp
qed

lemma update_all_ok:
  assumes "\<And>s. s \<in> set ss \<Longrightarrow> \<exists>s'. f s = Inr s' \<and> P s'"
  shows "\<exists>ss'. update_all f ss = Inr ss' \<and> length ss' = length ss \<and> (\<forall>s \<in> set ss'. P s)"
  using assms
proof (induction ss)
  case (Cons s ss)
  then obtain s' ss' where "f s = Inr s'" "P s'" "update_all f ss = Inr ss'"
    "length ss' = length ss" "\<forall>s \<in> set ss'. P s" by (meson list.set_intros)
  then show ?case by (intro exI[of _ "s' # ss'"]) (simp add: map_res_def)
qed simp

context bag_searcher
begin

lemma interleaved_select_law:
  assumes m: "interleaved_ok content ok m" and ne: "interleaved_content content m \<noteq> {#}"
  shows "\<exists>es m' r'. interleaved_select sel m r = Inr (es, m', r')
    \<and> es \<in># interleaved_content content m
    \<and> interleaved_content content m' = interleaved_content content m \<and> interleaved_ok content ok m'"
proof -
  define i where "i = index m - 1"
  have i: "i < length (searchers m)" and e: "(index m + (2 ^ 32 - 1)) mod 2 ^ 32 = i"
    using m unsigned_decrement[of "index m"] by (auto simp: interleaved_ok_def i_def)
  let ?s = "searchers m ! i"
  have s: "ok ?s" "content ?s = interleaved_content content m"
    using m i by (auto simp: interleaved_ok_def)
  then obtain es s' r' where r: "sel ?s r = Inr (es, s', r')" "es \<in># content ?s"
      "content s' = content ?s" "ok s'"
    using bag_select[of ?s r] ne by auto
  let ?m = "\<lparr>searchers = (searchers m)[i := s'], index = (if i = 0 then length (searchers m) else i)\<rparr>"
  have c: "interleaved_content content ?m = interleaved_content content m"
    using r(3) s(2) i by (cases "i = 0") (auto simp: interleaved_content_def nth_list_update)
  moreover have "interleaved_ok content ok ?m"
    using m r(3,4) s i by (auto simp: interleaved_ok_def c dest!: set_update_subset_insert[THEN subsetD])
  moreover have "interleaved_select sel m r = Inr (es, ?m, r')"
    unfolding interleaved_select_def e using r(1) i by simp
  ultimately show ?thesis using r(2) s(2) by auto
qed

lemma interleaved_update_law:
  assumes m: "interleaved_ok content ok m"
    and c: "\<And>c. current = Some c \<Longrightarrow> c \<in># interleaved_content content m"
    and r: "mset removed \<subseteq># interleaved_content content m + mset added"
    and a: "distinct added" "set added \<inter> set_mset (interleaved_content content m) = {}"
  shows "\<exists>m'. interleaved_update upd current added removed m = Inr m'
    \<and> interleaved_content content m' = interleaved_content content m + mset added - mset removed
    \<and> interleaved_ok content ok m'"
proof -
  let ?c = "interleaved_content content m + mset added - mset removed"
  have "\<exists>s'. upd current added removed s = Inr s' \<and> content s' = ?c \<and> ok s'"
    if "s \<in> set (searchers m)" for s
    using bag_update[of s current removed added] that m c r a by (auto simp: interleaved_ok_def)
  then obtain ss where ss: "update_all (upd current added removed) (searchers m) = Inr ss"
      "length ss = length (searchers m)" "\<forall>s \<in> set ss. content s = ?c \<and> ok s"
    using update_all_ok[of "searchers m" "upd current added removed" "\<lambda>s. content s = ?c \<and> ok s"]
    by blast
  have "searchers m \<noteq> []" using m by (auto simp: interleaved_ok_def)
  then have "ss ! 0 \<in> set ss" using ss(2) by auto
  then have "interleaved_content content (m\<lparr>searchers := ss\<rparr>) = ?c"
    using ss(3) by (simp add: interleaved_content_def)
  then show ?thesis using ss m
    by (simp add: interleaved_update_def map_res_def interleaved_ok_def)
qed

lemma interleaved_bag:
  "bag_searcher (interleaved_select sel) (interleaved_update upd) (interleaved_empty emp)
     (interleaved_content content) (interleaved_ok content ok)"
proof unfold_locales
  fix m :: "'s interleaved"
  assume m: "interleaved_ok content ok m"
  then have "searchers m \<noteq> []" by (auto simp: interleaved_ok_def)
  then have "searchers m ! 0 \<in> set (searchers m)" by simp
  with m have "ok (searchers m ! 0)" by (simp add: interleaved_ok_def)
  then show "interleaved_empty emp m \<longleftrightarrow> interleaved_content content m = {#}"
    by (simp add: interleaved_empty_def interleaved_content_def bag_empty)
next
  fix m :: "'s interleaved" and r
  assume "interleaved_ok content ok m" "interleaved_content content m \<noteq> {#}"
  from interleaved_select_law[OF this]
  show "\<exists>es m' r'. interleaved_select sel m r = Inr (es, m', r') \<and>
      es \<in># interleaved_content content m \<and>
      interleaved_content content m' = interleaved_content content m \<and> interleaved_ok content ok m'"
    by simp
qed (use interleaved_update_law in auto)

end

end
