(* ===== verification/WrapSearcher.thy ===== *)
theory WrapSearcher
  imports Searcher
begin

text \<open>
  The searchers of \<open>klee/lib/Core/Searcher.cpp\<close> that change when the states of a base
  searcher run: \<open>BatchingSearcher\<close>, \<open>IterativeDeepeningTimeSearcher\<close> and
  \<open>MergingSearcher\<close>, which takes states that wait at a merge point out of the base searcher.

  The wall clock and the instruction counter are read from the environment \<open>'r\<close> that
  \<open>selectState\<close> is given; readings with no call of the base searcher in between agree. Times
  are in nanoseconds.
\<close>

section \<open>Batching\<close>

text \<open>
  \<open>lastStartInstructions\<close> is an \<open>unsigned\<close> while the counter has 64 bits. The product of
  a time span and 1.1, in floating point, is the parameter \<open>scaled\<close>.
\<close>

record 's batching =
  bt_base :: 's
  timeBudget :: int
  instructionBudget :: nat
  lastState :: "nat option"
  lastStartTime :: int
  lastStartInstructions :: nat

definition new_BatchingSearcher :: "'s \<Rightarrow> int \<Rightarrow> nat \<Rightarrow> 's batching" where
  "new_BatchingSearcher base time_budget instr_budget =
     \<lparr>bt_base = base, timeBudget = time_budget, instructionBudget = instr_budget, lastState = None,
      lastStartTime = 0, lastStartInstructions = 0\<rparr>"

definition budget_spent :: "int \<Rightarrow> nat \<Rightarrow> 's batching \<Rightarrow> bool" where
  "budget_spent now instructions m \<longleftrightarrow>
     timeBudget m > 0 \<and> now - lastStartTime m > timeBudget m
   \<or> instructionBudget m > 0
     \<and> (instructions + (2 ^ 64 - lastStartInstructions m)) mod 2 ^ 64 > instructionBudget m"

definition batching_select :: "(int \<Rightarrow> int) \<Rightarrow> ('r \<Rightarrow> int) \<Rightarrow> ('r \<Rightarrow> nat)
    \<Rightarrow> ('s \<Rightarrow> 'r \<Rightarrow> (nat \<times> 's \<times> 'r) result) \<Rightarrow> 's batching \<Rightarrow> 'r \<Rightarrow> (nat \<times> 's batching \<times> 'r) result" where
  "batching_select scaled getWallTime instructions sel m r =
     (case lastState m of
        Some es \<Rightarrow>
          (if budget_spent (getWallTime r) (instructions r) m
           then
             let delta = getWallTime r - lastStartTime m;
                 m' = (if delta > scaled (timeBudget m) then m\<lparr>timeBudget := delta\<rparr> else m)
             in bind_res (sel (bt_base m) r) (\<lambda>(es', b, r').
                  Inr (es', m'\<lparr>bt_base := b, lastState := Some es', lastStartTime := getWallTime r',
                         lastStartInstructions := instructions r' mod 2 ^ 32\<rparr>, r'))
           else Inr (es, m, r))
      | None \<Rightarrow>
          bind_res (sel (bt_base m) r) (\<lambda>(es', b, r').
            Inr (es', m\<lparr>bt_base := b, lastState := Some es', lastStartTime := getWallTime r',
                   lastStartInstructions := instructions r' mod 2 ^ 32\<rparr>, r')))"

definition batching_update :: "(nat option \<Rightarrow> nat list \<Rightarrow> nat list \<Rightarrow> 's \<Rightarrow> 's result)
    \<Rightarrow> nat option \<Rightarrow> nat list \<Rightarrow> nat list \<Rightarrow> 's batching \<Rightarrow> 's batching result" where
  "batching_update upd current added removed m =
     (let m' = (if lastState m \<in> Some ` set removed then m\<lparr>lastState := None\<rparr> else m)
      in map_res (\<lambda>b. m'\<lparr>bt_base := b\<rparr>) (upd current added removed (bt_base m)))"

definition batching_ok :: "('s \<Rightarrow> nat multiset) \<Rightarrow> ('s \<Rightarrow> bool) \<Rightarrow> 's batching \<Rightarrow> bool" where
  "batching_ok content ok m \<longleftrightarrow>
     ok (bt_base m) \<and> (\<forall>es. lastState m = Some es \<longrightarrow> es \<in># content (bt_base m))"

context bag_searcher
begin

lemma batching_select_law:
  assumes m: "batching_ok content ok m" and ne: "content (bt_base m) \<noteq> {#}"
  shows "\<exists>es m' r'. batching_select scaled getWallTime instructions sel m r = Inr (es, m', r')
    \<and> es \<in># content (bt_base m) \<and> content (bt_base m') = content (bt_base m) \<and> batching_ok content ok m'"
proof -
  obtain es b r' where "sel (bt_base m) r = Inr (es, b, r')" "es \<in># content (bt_base m)"
      "content b = content (bt_base m)" "ok b"
    using bag_select[OF _ ne, of r] m by (auto simp: batching_ok_def)
  then show ?thesis using m
    by (cases "lastState m") (auto simp: batching_select_def batching_ok_def Let_def)
qed

lemma batching_update_law:
  assumes m: "batching_ok content ok m"
    and c: "\<And>c. current = Some c \<Longrightarrow> c \<in># content (bt_base m)"
    and r: "mset removed \<subseteq># content (bt_base m) + mset added"
    and a: "distinct added" "set added \<inter> set_mset (content (bt_base m)) = {}"
  shows "\<exists>m'. batching_update upd current added removed m = Inr m'
    \<and> content (bt_base m') = content (bt_base m) + mset added - mset removed \<and> batching_ok content ok m'"
proof -
  obtain b where b: "upd current added removed (bt_base m) = Inr b"
      "content b = content (bt_base m) + mset added - mset removed" "ok b"
    using bag_update[OF _ c r a] m by (auto simp: batching_ok_def)
  have "es \<in># content b" if "lastState m = Some es" "es \<notin> set removed" for es
  proof -
    have "0 < count (content (bt_base m)) es" using m that(1) by (simp add: batching_ok_def)
    moreover have "count (mset removed) es = 0" using that(2) by (simp add: count_eq_zero_iff)
    ultimately have "0 < count (content b) es" unfolding b(2) by (simp only: count_diff count_union)
    then show ?thesis by simp
  qed
  then show ?thesis using b m
    by (auto simp: batching_update_def batching_ok_def map_res_def)
qed

lemma batching_bag:
  "bag_searcher (batching_select scaled getWallTime instructions sel) (batching_update upd)
     (\<lambda>m. emp (bt_base m)) (\<lambda>m. content (bt_base m)) (batching_ok content ok)"
proof unfold_locales
  fix m :: "'s batching" and r
  assume "batching_ok content ok m" "content (bt_base m) \<noteq> {#}"
  from batching_select_law[OF this]
  show "\<exists>es m' r'. batching_select scaled getWallTime instructions sel m r = Inr (es, m', r') \<and>
      es \<in># content (bt_base m) \<and> content (bt_base m') = content (bt_base m) \<and> batching_ok content ok m'"
    by simp
qed (use batching_update_law in \<open>auto simp: batching_ok_def bag_empty\<close>)

end

section \<open>Iterative deepening\<close>

text \<open>
  A state that ran longer than the budget is paused; when none is left the budget doubles and
  the paused states come back. \<open>pausedStates\<close> is a set, kept as a list without duplicates in
  the order of the addresses.
\<close>

record 's deepening =
  id_base :: 's
  startTime :: int
  budget :: int
  id_paused :: "nat list"

definition deepening_select :: "('r \<Rightarrow> int) \<Rightarrow> ('s \<Rightarrow> 'r \<Rightarrow> (nat \<times> 's \<times> 'r) result)
    \<Rightarrow> 's deepening \<Rightarrow> 'r \<Rightarrow> (nat \<times> 's deepening \<times> 'r) result" where
  "deepening_select getWallTime sel m r =
     bind_res (sel (id_base m) r) (\<lambda>(es, b, r').
       Inr (es, m\<lparr>id_base := b, startTime := getWallTime r'\<rparr>, r'))"

text \<open>What is paused is only forgotten, the rest is removed from the base searcher.\<close>

fun unpause :: "nat list \<Rightarrow> nat list \<times> nat list \<Rightarrow> nat list \<times> nat list" where
  "unpause [] (paused, alt) = (paused, alt)"
| "unpause (es # removed) (paused, alt) =
     (if es \<in> set paused then unpause removed (remove1 es paused, removeAll es alt)
      else unpause removed (paused, alt))"

definition deepening_pause :: "int \<Rightarrow> (nat option \<Rightarrow> nat list \<Rightarrow> nat list \<Rightarrow> 's \<Rightarrow> 's result)
    \<Rightarrow> nat option \<Rightarrow> nat list \<Rightarrow> 's deepening \<Rightarrow> 's deepening result" where
  "deepening_pause elapsed upd current removed m =
     (case current of
        Some c \<Rightarrow>
          (if c \<notin> set removed \<and> elapsed > budget m
           then map_res (\<lambda>b. m\<lparr>id_base := b, id_paused := insort c (removeAll c (id_paused m))\<rparr>)
                  (removeState upd c (id_base m))
           else Inr m)
      | None \<Rightarrow> Inr m)"

definition deepening_resume :: "(nat option \<Rightarrow> nat list \<Rightarrow> nat list \<Rightarrow> 's \<Rightarrow> 's result)
    \<Rightarrow> ('s \<Rightarrow> bool) \<Rightarrow> 's deepening \<Rightarrow> 's deepening result" where
  "deepening_resume upd emp m =
     (if emp (id_base m)
      then map_res (\<lambda>b. m\<lparr>id_base := b, budget := 2 * budget m, id_paused := []\<rparr>)
             (upd None (id_paused m) [] (id_base m))
      else Inr m)"

definition deepening_update :: "int \<Rightarrow> (nat option \<Rightarrow> nat list \<Rightarrow> nat list \<Rightarrow> 's \<Rightarrow> 's result)
    \<Rightarrow> ('s \<Rightarrow> bool) \<Rightarrow> nat option \<Rightarrow> nat list \<Rightarrow> nat list \<Rightarrow> 's deepening \<Rightarrow> 's deepening result" where
  "deepening_update now upd emp current added removed m =
     (case unpause removed (id_paused m, removed) of (paused, alt) \<Rightarrow>
        bind_res (upd current added alt (id_base m)) (\<lambda>b.
        bind_res (deepening_pause (now - startTime m) upd current removed
                    (m\<lparr>id_base := b, id_paused := paused\<rparr>)) (\<lambda>m1.
        deepening_resume upd emp m1)))"

definition deepening_empty :: "('s \<Rightarrow> bool) \<Rightarrow> 's deepening \<Rightarrow> bool" where
  "deepening_empty emp m \<longleftrightarrow> emp (id_base m) \<and> id_paused m = []"

definition deepening_content :: "('s \<Rightarrow> nat multiset) \<Rightarrow> 's deepening \<Rightarrow> nat multiset" where
  "deepening_content content m = content (id_base m) + mset (id_paused m)"

text \<open>
  No state is in it twice, paused and in the base included, and only an empty searcher has
  nothing to run.
\<close>

definition single :: "nat multiset \<Rightarrow> bool" where
  "single M \<longleftrightarrow> (\<forall>es. count M es \<le> 1)"

definition deepening_ok :: "('s \<Rightarrow> nat multiset) \<Rightarrow> ('s \<Rightarrow> bool) \<Rightarrow> 's deepening \<Rightarrow> bool" where
  "deepening_ok content ok m \<longleftrightarrow>
     ok (id_base m) \<and> single (content (id_base m) + mset (id_paused m))
   \<and> (content (id_base m) = {#} \<longrightarrow> id_paused m = [])"

lemma unpause_none: "set removed \<inter> set paused = {} \<Longrightarrow> unpause removed (paused, alt) = (paused, alt)"
  by (induction removed) auto

lemma single_disjoint:
  assumes "single (M + N)" "x \<in># M"
  shows "x \<notin># N"
proof -
  have "count M x + count N x \<le> 1" using assms(1) by (simp add: single_def)
  moreover have "1 \<le> count M x" using assms(2) by (simp only: count_greater_eq_one_iff)
  ultimately have "count N x = 0" by linarith
  then show ?thesis by (simp only: count_eq_zero_iff not_False_eq_True)
qed

lemma single_subset: "single M \<Longrightarrow> N \<subseteq># M \<Longrightarrow> single N"
  unfolding single_def subseteq_mset_def by (meson order_trans)

lemma single_distinct: "single (mset xs) \<Longrightarrow> distinct xs"
proof (induction xs)
  case (Cons x xs)
  then have "x \<notin> set xs" using single_disjoint[of "{#x#}" "mset xs" x] by simp
  moreover have "single (mset xs)" using Cons.prems by (rule single_subset) simp
  ultimately show ?case using Cons.IH by simp
qed simp

lemma single_add:
  assumes "single M" "distinct xs" "set xs \<inter> set_mset M = {}"
  shows "single (M + mset xs)"
  unfolding single_def
proof
  fix x
  have "count (mset xs) x \<le> 1" using assms(2) by (auto simp: distinct_count_atmost_1)
  moreover have "count M x \<le> 1" using assms(1) by (simp add: single_def)
  moreover have "count (mset xs) x = 0 \<or> count M x = 0"
    using assms(3) by (auto simp only: count_eq_zero_iff set_mset_mset disjoint_iff)
  ultimately have "count M x + count (mset xs) x \<le> 1" by (elim disjE) linarith+
  then show "count (M + mset xs) x \<le> 1" by (simp only: count_union)
qed

lemma diff_before_parked:
  assumes "R \<subseteq># M + (A :: 'a multiset)"
  shows "M + A - R + P = M + P + A - R"
proof (rule multiset_eqI)
  fix x
  have "count R x \<le> count M x + count A x" using assms by (metis count_union mset_subset_eq_count)
  then show "count (M + A - R + P) x = count (M + P + A - R) x" by simp
qed

text \<open>The three parts of an update that removes nothing paused.\<close>

context bag_searcher
begin

lemma deepening_pause_law:
  assumes b: "ok (id_base m)" "single (deepening_content content m)"
    and c: "\<And>c. current = Some c \<Longrightarrow> c \<notin> set removed \<Longrightarrow> c \<in># content (id_base m)"
  shows "\<exists>m'. deepening_pause elapsed upd current removed m = Inr m' \<and> ok (id_base m')
    \<and> deepening_content content m' = deepening_content content m"
proof (cases "\<exists>c. current = Some c \<and> c \<notin> set removed \<and> elapsed > budget m")
  case True
  then obtain c where cur: "current = Some c" "c \<notin> set removed" "elapsed > budget m" by blast
  with c have cin: "c \<in># content (id_base m)" by blast
  then obtain s' where s': "removeState upd c (id_base m) = Inr s'"
      "content s' = content (id_base m) - {#c#}" "ok s'"
    using removeState_ok[OF b(1)] by (auto simp: removeState_def)
  have "c \<notin> set (id_paused m)"
    using single_disjoint[OF b(2)[unfolded deepening_content_def] cin] by simp
  then have "mset (insort c (removeAll c (id_paused m))) = add_mset c (mset (id_paused m))"
    by (simp add: removeAll_id)
  with cur s' cin show ?thesis
    by (auto simp: deepening_pause_def deepening_content_def map_res_def)
next
  case False
  then have "deepening_pause elapsed upd current removed m = Inr m"
    by (auto simp: deepening_pause_def split: option.split)
  with b show ?thesis by simp
qed

lemma deepening_resume_law:
  assumes b: "ok (id_base m)" "single (deepening_content content m)"
  shows "\<exists>m'. deepening_resume upd emp m = Inr m' \<and> deepening_ok content ok m'
    \<and> deepening_content content m' = deepening_content content m"
proof (cases "emp (id_base m)")
  case True
  then have e: "content (id_base m) = {#}" using b(1) by (simp add: bag_empty)
  then obtain s' where "upd None (id_paused m) [] (id_base m) = Inr s'"
      "content s' = mset (id_paused m)" "ok s'"
    using bag_update[OF b(1), of None "[]" "id_paused m"] single_distinct[of "id_paused m"] b(2)
    by (auto simp: deepening_content_def)
  with True e b show ?thesis
    by (auto simp: deepening_resume_def deepening_content_def deepening_ok_def map_res_def)
next
  case False
  with b show ?thesis
    by (simp add: deepening_resume_def deepening_ok_def deepening_content_def bag_empty)
qed

lemma deepening_update_law:
  assumes m: "deepening_ok content ok m"
    and c: "\<And>c. current = Some c \<Longrightarrow> c \<in># content (id_base m)"
    and r: "mset removed \<subseteq># content (id_base m) + mset added"
    and a: "distinct added" "set added \<inter> set_mset (deepening_content content m) = {}"
  shows "\<exists>m'. deepening_update now upd emp current added removed m = Inr m'
    \<and> deepening_content content m' = deepening_content content m + mset added - mset removed
    \<and> deepening_ok content ok m'"
proof -
  have ok: "ok (id_base m)" and sg: "single (deepening_content content m)"
    using m by (simp_all add: deepening_ok_def deepening_content_def)
  have "set removed \<subseteq> set_mset (content (id_base m)) \<union> set added"
    using set_mset_mono[OF r] by simp
  moreover have "x \<notin> set (id_paused m)" if "x \<in># content (id_base m)" for x
    using single_disjoint[OF sg[unfolded deepening_content_def] that] by simp
  ultimately have "set removed \<inter> set (id_paused m) = {}"
    using a(2) by (auto simp: deepening_content_def)
  then have u: "unpause removed (id_paused m, removed) = (id_paused m, removed)"
    by (rule unpause_none)
  obtain b where b: "upd current added removed (id_base m) = Inr b"
      "content b = content (id_base m) + mset added - mset removed" "ok b"
    using bag_update[OF ok c r a(1)] a(2) by (auto simp: deepening_content_def)
  let ?m = "m\<lparr>id_base := b, id_paused := id_paused m\<rparr>"
  have cm: "deepening_content content ?m = deepening_content content m + mset added - mset removed"
    using diff_before_parked[OF r, of "mset (id_paused m)"] by (simp add: deepening_content_def b(2))
  have "single (deepening_content content m + mset added)" by (rule single_add[OF sg a])
  then have sg': "single (deepening_content content ?m)"
    unfolding cm by (rule single_subset) simp
  have c': "x \<in># content (id_base ?m)" if "current = Some x" "x \<notin> set removed" for x
  proof -
    have "1 \<le> count (content (id_base m)) x" using c[OF that(1)] by (simp only: count_greater_eq_one_iff)
    moreover have "count (mset removed) x = 0" using that(2) by (simp add: count_eq_zero_iff)
    ultimately have "0 < count (content b) x" unfolding b(2) by (simp only: count_diff count_union)
    then show ?thesis by simp
  qed
  have "ok (id_base ?m)" using b(3) by simp
  from deepening_pause_law[OF this sg' c', where elapsed = "now - startTime m"]
  obtain m1 where m1: "deepening_pause (now - startTime m) upd current removed ?m = Inr m1"
      "ok (id_base m1)" "deepening_content content m1 = deepening_content content ?m"
    by blast
  from deepening_resume_law[OF m1(2)] m1(3) sg'
  obtain m2 where "deepening_resume upd emp m1 = Inr m2" "deepening_ok content ok m2"
      "deepening_content content m2 = deepening_content content ?m"
    by auto
  with m1(1) b(1) u cm show ?thesis by (auto simp: deepening_update_def)
qed

lemma deepening_searcher:
  "searcher (deepening_select getWallTime sel) (deepening_update now upd emp) (deepening_empty emp)
     (\<lambda>m. content (id_base m)) (deepening_content content) (deepening_ok content ok)"
proof unfold_locales
  fix m :: "'s deepening" and r
  assume m: "deepening_ok content ok m" and "content (id_base m) \<noteq> {#}"
  then obtain es b r' where "sel (id_base m) r = Inr (es, b, r')" "es \<in># content (id_base m)"
      "content b = content (id_base m)" "ok b"
    using bag_select[of "id_base m" r] by (auto simp: deepening_ok_def)
  with m show "\<exists>es m' r'. deepening_select getWallTime sel m r = Inr (es, m', r') \<and>
      es \<in># content (id_base m) \<and> content (id_base m') = content (id_base m) \<and>
      deepening_content content m' = deepening_content content m \<and> deepening_ok content ok m'"
    by (auto simp: deepening_select_def deepening_ok_def deepening_content_def)
qed (use deepening_update_law in
    \<open>auto simp: deepening_ok_def deepening_empty_def deepening_content_def bag_empty\<close>)

end

section \<open>Pausing at merge points\<close>

text \<open>
  \<open>MergingSearcher\<close>: a state that waits to be merged is paused, out of the base searcher, until
  \<open>continueState\<close>. \<open>inCloseMerge\<close> holds the states between the two calls and
  \<open>mergeGroups\<close> the handlers of all ongoing merges. \<open>update\<close> does nothing at all when the
  current state is paused.
\<close>

record 's merging =
  mg_base :: 's
  pausedStates :: "nat list"
  inCloseMerge :: "nat set"
  mergeGroups :: "nat list"

definition new_MergingSearcher :: "'s \<Rightarrow> 's merging" where
  "new_MergingSearcher base =
     \<lparr>mg_base = base, pausedStates = [], inCloseMerge = {}, mergeGroups = []\<rparr>"

definition pauseState :: "(nat option \<Rightarrow> nat list \<Rightarrow> nat list \<Rightarrow> 's \<Rightarrow> 's result) \<Rightarrow> nat
    \<Rightarrow> 's merging \<Rightarrow> 's merging result" where
  "pauseState upd es m =
     assert_res (es \<notin> set (pausedStates m))
       (map_res (\<lambda>b. m\<lparr>mg_base := b, pausedStates := pausedStates m @ [es]\<rparr>)
         (removeState upd es (mg_base m)))"

definition revoke_pauseState :: "nat \<Rightarrow> 's merging \<Rightarrow> 's merging result" where
  "revoke_pauseState es m =
     assert_res (es \<in> set (pausedStates m)) (Inr (m\<lparr>pausedStates := remove1 es (pausedStates m)\<rparr>))"

definition continueState :: "(nat option \<Rightarrow> nat list \<Rightarrow> nat list \<Rightarrow> 's \<Rightarrow> 's result) \<Rightarrow> nat
    \<Rightarrow> 's merging \<Rightarrow> 's merging result" where
  "continueState upd es m =
     assert_res (es \<in> set (pausedStates m))
       (map_res (\<lambda>b. m\<lparr>mg_base := b, pausedStates := remove1 es (pausedStates m)\<rparr>)
         (addState upd es (mg_base m)))"

definition merging_update :: "(nat option \<Rightarrow> nat list \<Rightarrow> nat list \<Rightarrow> 's \<Rightarrow> 's result)
    \<Rightarrow> nat option \<Rightarrow> nat list \<Rightarrow> nat list \<Rightarrow> 's merging \<Rightarrow> 's merging result" where
  "merging_update upd current added removed m =
     (if current \<in> Some ` set (pausedStates m) then Inr m
      else map_res (\<lambda>b. m\<lparr>mg_base := b\<rparr>) (upd current added removed (mg_base m)))"

text \<open>\<open>selectState\<close> where incomplete merging is off; \<open>Merging\<close> has the other case.\<close>

definition merging_select :: "('s \<Rightarrow> 'r \<Rightarrow> (nat \<times> 's \<times> 'r) result) \<Rightarrow> ('s \<Rightarrow> bool)
    \<Rightarrow> 's merging \<Rightarrow> 'r \<Rightarrow> (nat \<times> 's merging \<times> 'r) result" where
  "merging_select sel emp m r =
     assert_res (\<not> emp (mg_base m))
       (bind_res (sel (mg_base m) r) (\<lambda>(es, b, r'). Inr (es, m\<lparr>mg_base := b\<rparr>, r')))"

definition merging_content :: "('s \<Rightarrow> nat multiset) \<Rightarrow> 's merging \<Rightarrow> nat multiset" where
  "merging_content content m = content (mg_base m) + mset (pausedStates m)"

definition merging_ok :: "('s \<Rightarrow> nat multiset) \<Rightarrow> ('s \<Rightarrow> bool) \<Rightarrow> 's merging \<Rightarrow> bool" where
  "merging_ok content ok m \<longleftrightarrow> ok (mg_base m) \<and> single (merging_content content m)"

lemma update_paused_current:
  "c \<in> set (pausedStates m) \<Longrightarrow> merging_update upd (Some c) added removed m = Inr m"
  by (simp add: merging_update_def)

context bag_searcher
begin

lemma pauseState_law:
  assumes m: "merging_ok content ok m" and es: "es \<in># content (mg_base m)"
  shows "\<exists>b. pauseState upd es m = Inr (m\<lparr>mg_base := b, pausedStates := pausedStates m @ [es]\<rparr>)
    \<and> content b = content (mg_base m) - {#es#}
    \<and> merging_ok content ok (m\<lparr>mg_base := b, pausedStates := pausedStates m @ [es]\<rparr>)"
proof -
  have "es \<notin> set (pausedStates m)"
    using single_disjoint[of "content (mg_base m)" "mset (pausedStates m)" es] m es
    by (simp add: merging_ok_def merging_content_def)
  moreover obtain b where "removeState upd es (mg_base m) = Inr b"
      "content b = content (mg_base m) - {#es#}" "ok b"
    using removeState_ok[OF _ es] m by (auto simp: merging_ok_def removeState_def)
  ultimately show ?thesis using m es
    by (auto simp: pauseState_def merging_ok_def merging_content_def map_res_def)
qed

lemma continueState_law:
  assumes m: "merging_ok content ok m" and es: "es \<in> set (pausedStates m)"
  shows "\<exists>b. continueState upd es m = Inr (m\<lparr>mg_base := b, pausedStates := remove1 es (pausedStates m)\<rparr>)
    \<and> content b = add_mset es (content (mg_base m))
    \<and> merging_ok content ok (m\<lparr>mg_base := b, pausedStates := remove1 es (pausedStates m)\<rparr>)"
proof -
  have fresh: "es \<notin># content (mg_base m)"
    using single_disjoint[of "content (mg_base m)" "mset (pausedStates m)" es] m es
    by (auto simp: merging_ok_def merging_content_def)
  obtain b where "addState upd es (mg_base m) = Inr b" "content b = add_mset es (content (mg_base m))" "ok b"
    using addState_ok[of "mg_base m" es] m fresh by (auto simp: merging_ok_def addState_def)
  with m es show ?thesis
    by (auto simp: continueState_def merging_ok_def merging_content_def map_res_def)
qed

lemma merging_update_law:
  assumes m: "merging_ok content ok m"
    and c: "\<And>c. current = Some c \<Longrightarrow> c \<in># content (mg_base m)"
    and r: "mset removed \<subseteq># content (mg_base m) + mset added"
    and a: "distinct added" "set added \<inter> set_mset (merging_content content m) = {}"
  shows "\<exists>b. merging_update upd current added removed m = Inr (m\<lparr>mg_base := b\<rparr>)
    \<and> content b = content (mg_base m) + mset added - mset removed
    \<and> merging_content content (m\<lparr>mg_base := b\<rparr>) = merging_content content m + mset added - mset removed
    \<and> merging_ok content ok (m\<lparr>mg_base := b\<rparr>)"
proof -
  have sg: "single (merging_content content m)" using m by (simp add: merging_ok_def)
  have cur: "current \<notin> Some ` set (pausedStates m)"
    using single_disjoint[OF sg[unfolded merging_content_def]] c by auto
  obtain b where b: "upd current added removed (mg_base m) = Inr b"
      "content b = content (mg_base m) + mset added - mset removed" "ok b"
    using bag_update[OF _ c r a(1)] a(2) m by (auto simp: merging_ok_def merging_content_def)
  have cm: "merging_content content (m\<lparr>mg_base := b\<rparr>) = merging_content content m + mset added - mset removed"
    using diff_before_parked[OF r, of "mset (pausedStates m)"] by (simp add: merging_content_def b(2))
  have "single (merging_content content (m\<lparr>mg_base := b\<rparr>))"
    unfolding cm by (rule single_subset[OF single_add[OF sg a]]) simp
  with b cm cur show ?thesis by (auto simp: merging_update_def merging_ok_def map_res_def)
qed

lemma merging_searcher:
  "searcher (merging_select sel emp) (merging_update upd) (\<lambda>m. emp (mg_base m))
     (\<lambda>m. content (mg_base m)) (merging_content content) (merging_ok content ok)"
proof unfold_locales
  fix m :: "'s merging" and r
  assume m: "merging_ok content ok m" and ne: "content (mg_base m) \<noteq> {#}"
  then obtain es b r' where "sel (mg_base m) r = Inr (es, b, r')" "es \<in># content (mg_base m)"
      "content b = content (mg_base m)" "ok b"
    using bag_select[of "mg_base m" r] by (auto simp: merging_ok_def)
  with m ne show "\<exists>es m' r'. merging_select sel emp m r = Inr (es, m', r') \<and>
      es \<in># content (mg_base m) \<and> content (mg_base m') = content (mg_base m) \<and>
      merging_content content m' = merging_content content m \<and> merging_ok content ok m'"
    by (auto simp: merging_select_def merging_ok_def merging_content_def bag_empty assert_res_def)
next
  fix m :: "'s merging" and current removed added
  assume "merging_ok content ok m" "\<And>c. current = Some c \<Longrightarrow> c \<in># content (mg_base m)"
    "mset removed \<subseteq># content (mg_base m) + mset added" "distinct added"
    "set added \<inter> set_mset (merging_content content m) = {}"
  from merging_update_law[OF this]
  show "\<exists>m'. merging_update upd current added removed m = Inr m' \<and>
      merging_content content m' = merging_content content m + mset added - mset removed \<and>
      merging_ok content ok m'"
    by blast
qed (auto simp: merging_ok_def merging_content_def bag_empty)

end

section \<open>A tower\<close>

text \<open>
  What \<open>constructUserSearcher\<close> puts under the merging searcher: batches over an interleaving.
\<close>

definition tower_content :: "('s \<Rightarrow> nat multiset) \<Rightarrow> 's interleaved batching \<Rightarrow> nat multiset" where
  "tower_content content b = interleaved_content content (bt_base b)"

definition tower_ok :: "('s \<Rightarrow> nat multiset) \<Rightarrow> ('s \<Rightarrow> bool) \<Rightarrow> 's interleaved batching \<Rightarrow> bool" where
  "tower_ok content ok = batching_ok (interleaved_content content) (interleaved_ok content ok)"

lemma tower_bag:
  assumes "bag_searcher sel upd emp content ok"
  shows "bag_searcher (batching_select scaled wall instrs (interleaved_select sel))
    (batching_update (interleaved_update upd)) (\<lambda>b. interleaved_empty emp (bt_base b))
    (tower_content content) (tower_ok content ok)"
  using bag_searcher.batching_bag[OF bag_searcher.interleaved_bag[OF assms], of scaled wall instrs]
  by (simp add: tower_ok_def tower_content_def[abs_def])

section \<open>Instances\<close>

text \<open>
  What the interpreter builds: a strategy, interleaved with others of its kind, batched, and at
  the outside the merging searcher or the deepening one.
\<close>

interpretation dfs_interleaved: bag_searcher "interleaved_select dfs_select" "interleaved_update dfs_update"
  "interleaved_empty list_empty" "interleaved_content mset" "interleaved_ok mset (\<lambda>_. True)"
  by (rule dfs.interleaved_bag)

interpretation random_interleaved: bag_searcher "interleaved_select (random_select getInt32)"
  "interleaved_update random_update" "interleaved_empty list_empty" "interleaved_content mset"
  "interleaved_ok mset (\<lambda>_. True)"
  for getInt32 :: "'r \<Rightarrow> nat \<times> 'r"
  by (rule random.interleaved_bag)

interpretation bfs_batching: bag_searcher "batching_select scaled getWallTime instructions bfs_select"
  "batching_update bfs_update" "\<lambda>m. list_empty (bt_base m)" "\<lambda>m. mset (bt_base m)"
  "batching_ok mset (\<lambda>_. True)"
  by (rule bfs.batching_bag)

interpretation bfs_merging: searcher "merging_select bfs_select list_empty" "merging_update bfs_update"
  "\<lambda>m. list_empty (mg_base m)" "\<lambda>m. mset (mg_base m)" "merging_content mset" "merging_ok mset (\<lambda>_. True)"
  by (rule bfs.merging_searcher)

interpretation dfs_deepening: searcher "deepening_select getWallTime dfs_select"
  "deepening_update now dfs_update list_empty" "deepening_empty list_empty" "\<lambda>m. mset (id_base m)"
  "deepening_content mset" "deepening_ok mset (\<lambda>_. True)"
  by (rule dfs.deepening_searcher)

end
