(* ===== verification/MergeHandler.thy ===== *)
theory MergeHandler
  imports Complex_Main ExecState WrapSearcher
begin

text \<open>
  \<open>MergeHandler\<close> (\<open>klee/lib/Core/MergeHandler.cpp\<close>,
  \<open>klee/include/klee/MergeHandler.h\<close>) and what it touches of the executor: one handler
  stands for one \<open>klee_open_merge\<close>. States that fork inside the region carry a counted reference
  to it; a state that closes the region is paused, and when the last reference goes the handler
  releases all paused states and merges those that may be merged, if the decision is to merge.

  Execution states, handlers and instructions are known by their addresses. The reference counts
  are explicit; deleting a state can end the life of a handler, which releases states, which
  terminates the merged ones, so these functions call each other: \<open>delete_state\<close> takes fuel for
  the depth of that nesting.
\<close>

section \<open>Handlers\<close>

record merge_handler =
  openInstruction :: nat
  closedMean :: rat
  closedStateCount :: nat
  openStates :: "nat list"
  reachedCloseMerge :: "(nat \<times> nat list) list"
  refCount :: nat

text \<open>\<open>reachedCloseMerge\<close> is a \<open>std::map\<close>, sorted by the address of the instruction.\<close>

fun push_closed :: "nat \<Rightarrow> nat \<Rightarrow> (nat \<times> nat list) list \<Rightarrow> (nat \<times> nat list) list" where
  "push_closed mp es [] = [(mp, [es])]"
| "push_closed mp es ((mp', ss) # gs) =
     (if mp = mp' then (mp', ss @ [es]) # gs
      else if mp < mp' then (mp, [es]) # (mp', ss) # gs
      else (mp', ss) # push_closed mp es gs)"

text \<open>The mean is a \<open>double\<close> in the code, an exact number here.\<close>

definition getMean :: "merge_handler \<Rightarrow> rat" where
  "getMean h = (if closedStateCount h = 0 then 0 else closedMean h)"

text \<open>The distance is computed in 64 bits and returned in 32.\<close>

definition getInstructionDistance :: "merge_handler \<Rightarrow> exec_state \<Rightarrow> nat" where
  "getInstructionDistance h es =
     (steppedInstructions es + (2 ^ 64 - openInstruction h)) mod 2 ^ 64 mod 2 ^ 32"

definition addOpenState :: "nat \<Rightarrow> merge_handler \<Rightarrow> merge_handler" where
  "addOpenState es h = h\<lparr>openStates := openStates h @ [es]\<rparr>"

fun find_index :: "nat \<Rightarrow> nat list \<Rightarrow> nat option" where
  "find_index x [] = None"
| "find_index x (y # ys) = (if x = y then Some 0 else map_option Suc (find_index x ys))"

text \<open>\<open>std::swap\<close> with the last element, then \<open>pop_back\<close>.\<close>

definition swap_remove :: "nat \<Rightarrow> nat list \<Rightarrow> nat list result" where
  "swap_remove x xs =
     (case find_index x xs of
        None \<Rightarrow> Inl AssertionFailed
      | Some i \<Rightarrow> Inr (butlast (xs[i := last xs])))"

definition removeOpenState :: "nat \<Rightarrow> merge_handler \<Rightarrow> merge_handler result" where
  "removeOpenState es h = map_res (\<lambda>os. h\<lparr>openStates := os\<rparr>) (swap_remove es (openStates h))"

definition hasMergedStates :: "merge_handler \<Rightarrow> bool" where
  "hasMergedStates h \<longleftrightarrow> reachedCloseMerge h \<noteq> []"

section \<open>The executor's side\<close>

text \<open>
  \<open>est\<close> maps addresses to the states allocated there and \<open>handlers\<close> to the handlers;
  \<open>states\<close>, \<open>addedStates\<close> and \<open>removedStates\<close> are the executor's, \<open>heap\<close> the object
  states of all address spaces. \<open>queries\<close> counts the calls of \<open>merge_or_not\<close>.
\<close>

record 's executor =
  est :: "nat \<Rightarrow> exec_state option"
  heap :: store
  states :: "nat set"
  addedStates :: "nat list"
  removedStates :: "nat list"
  mergingSearcher :: "'s merging"
  handlers :: "nat \<Rightarrow> merge_handler option"
  mergeDecisionCache :: "nat \<Rightarrow> bool option"
  pathsExplored :: nat
  queries :: nat

text \<open>
  What is fixed in a run: the base searcher's \<open>update\<close>, the options, the parameters of
  \<open>merge\<close>, and what the outside world answers to the \<open>i\<close>-th query: the number that
  \<open>rand\<close> gives and the text that the inference server returns.
\<close>

record 's settings =
  base_update :: "nat option \<Rightarrow> nat list \<Rightarrow> nat list \<Rightarrow> 's \<Rightarrow> 's result"
  useMerge :: bool
  mergeDecisionMode :: string
  random_answer :: "nat \<Rightarrow> nat"
  server_answer :: "nat \<Rightarrow> exec_state \<Rightarrow> string"
  merge_fuel :: nat
  littleEndian :: bool
  expr_before :: "expr \<Rightarrow> expr \<Rightarrow> bool"
  object_before :: "memory_object \<Rightarrow> memory_object \<Rightarrow> bool"
  vector_full :: "nat \<Rightarrow> bool"

definition put_state :: "nat \<Rightarrow> exec_state \<Rightarrow> 's executor \<Rightarrow> 's executor" where
  "put_state es s ex = ex\<lparr>est := (est ex)(es \<mapsto> s)\<rparr>"

definition put_handler :: "nat \<Rightarrow> merge_handler \<Rightarrow> 's executor \<Rightarrow> 's executor" where
  "put_handler h mh ex = ex\<lparr>handlers := (handlers ex)(h \<mapsto> mh)\<rparr>"

definition with_state :: "nat \<Rightarrow> 's executor \<Rightarrow> (exec_state \<Rightarrow> 'a result) \<Rightarrow> 'a result" where
  "with_state es ex f = (case est ex es of None \<Rightarrow> Inl NullDereference | Some s \<Rightarrow> f s)"

definition with_handler :: "nat \<Rightarrow> 's executor \<Rightarrow> (merge_handler \<Rightarrow> 'a result) \<Rightarrow> 'a result" where
  "with_handler h ex f = (case handlers ex h of None \<Rightarrow> Inl NullDereference | Some mh \<Rightarrow> f mh)"

text \<open>The state that incomplete merging would run first: an open one that is not late.\<close>

fun first_prioritized :: "merge_handler \<Rightarrow> nat list \<Rightarrow> 's executor \<Rightarrow> nat option result" where
  "first_prioritized h [] ex = Inr None"
| "first_prioritized h (es # ess) ex =
     with_state es ex (\<lambda>s.
       if es \<notin> inCloseMerge (mergingSearcher ex) \<and> rat_of_nat (getInstructionDistance h s) < 2 * getMean h
       then Inr (Some es) else first_prioritized h ess ex)"

definition getPrioritizeState :: "nat \<Rightarrow> 's executor \<Rightarrow> nat option result" where
  "getPrioritizeState h ex = with_handler h ex (\<lambda>mh. first_prioritized mh (openStates mh) ex)"

text \<open>The constructor, whose reference goes on the state's stack.\<close>

definition new_MergeHandler :: "nat \<Rightarrow> exec_state \<Rightarrow> merge_handler" where
  "new_MergeHandler es s =
     addOpenState es \<lparr>openInstruction = steppedInstructions s, closedMean = 0, closedStateCount = 0,
       openStates = [], reachedCloseMerge = [], refCount = 1\<rparr>"

definition handleOpenMerge :: "'s settings \<Rightarrow> nat \<Rightarrow> nat \<Rightarrow> 's executor \<Rightarrow> 's executor result" where
  "handleOpenMerge cf h es ex =
     (if \<not> useMerge cf then Inr ex
      else with_state es ex (\<lambda>s.
        Inr (put_state es (s\<lparr>openMergeStack := openMergeStack s @ [h]\<rparr>)
          (put_handler h (new_MergeHandler es s)
            (ex\<lparr>mergingSearcher := (mergingSearcher ex)
                 \<lparr>mergeGroups := mergeGroups (mergingSearcher ex) @ [h]\<rparr>\<rparr>)))))"

text \<open>
  \<open>addClosedState\<close>: both branches pause the state and return; what follows the \<open>return\<close> in
  the second is not reached.
\<close>

definition record_closed :: "nat \<Rightarrow> exec_state \<Rightarrow> nat \<Rightarrow> merge_handler \<Rightarrow> merge_handler result" where
  "record_closed es s mp h =
     (let n = (closedStateCount h + 1) mod 2 ^ 32;
          mean = closedMean h + (rat_of_nat (getInstructionDistance h s) - closedMean h) / rat_of_nat n
      in map_res (\<lambda>h'. h'\<lparr>reachedCloseMerge := push_closed mp es (reachedCloseMerge h')\<rparr>)
           (removeOpenState es (h\<lparr>closedStateCount := n, closedMean := mean\<rparr>)))"

definition addClosedState :: "'s settings \<Rightarrow> nat \<Rightarrow> nat \<Rightarrow> nat \<Rightarrow> 's executor \<Rightarrow> 's executor result" where
  "addClosedState cf h es mp ex =
     with_state es ex (\<lambda>s. with_handler h ex (\<lambda>mh.
       bind_res (record_closed es s mp mh) (\<lambda>mh'.
         map_res (\<lambda>m. put_handler h mh' (ex\<lparr>mergingSearcher := m\<rparr>))
           (pauseState (base_update cf) es (mergingSearcher ex)))))"

section \<open>The decision\<close>

text \<open>
  \<open>merge_or_not\<close>: whether the server's text contains a zero. An unknown mode falls off the end of
  the function.
\<close>

definition server_decision :: "string \<Rightarrow> bool" where
  "server_decision res \<longleftrightarrow> CHR ''0'' \<in> set res"

definition merge_or_not :: "'s settings \<Rightarrow> exec_state \<Rightarrow> nat \<Rightarrow> bool result" where
  "merge_or_not cf s i =
     (if mergeDecisionMode cf = ''random'' then Inr (random_answer cf i mod 2 = 0)
      else if mergeDecisionMode cf = ''merge'' then Inr True
      else if mergeDecisionMode cf = ''unmerge'' then Inr False
      else if mergeDecisionMode cf = ''query'' then Inr (server_decision (server_answer cf i s))
      else Inl NoReturnValue)"

definition cached_decision :: "'s settings \<Rightarrow> exec_state \<Rightarrow> 's executor \<Rightarrow> (bool \<times> 's executor) result" where
  "cached_decision cf s ex =
     (case mergeDecisionCache ex (pc s) of
        Some d \<Rightarrow> Inr (d, ex)
      | None \<Rightarrow> map_res (\<lambda>d. (d, ex\<lparr>mergeDecisionCache := (mergeDecisionCache ex)(pc s \<mapsto> d),
                                queries := queries ex + 1\<rparr>))
                 (merge_or_not cf s (queries ex)))"

section \<open>Terminating and releasing\<close>

text \<open>
  \<open>Executor::terminateState\<close>: a state that never reached the searcher is deleted at once, by
  \<open>del\<close>; any other is queued.
\<close>

definition terminateState :: "(nat \<Rightarrow> 's executor \<Rightarrow> 's executor result) \<Rightarrow> nat \<Rightarrow> 's executor
    \<Rightarrow> 's executor result" where
  "terminateState del es ex =
     with_state es ex (\<lambda>s.
       let ex1 = ex\<lparr>pathsExplored := pathsExplored ex + 1\<rparr> in
       if es \<notin> set (addedStates ex)
       then Inr (put_state es (s\<lparr>pc := prevPC s\<rparr>) (ex1\<lparr>removedStates := removedStates ex @ [es]\<rparr>))
       else del es (ex1\<lparr>addedStates := remove1 es (addedStates ex)\<rparr>))"

text \<open>\<open>mState->merge(*es)\<close> for the candidates in turn, up to the first that succeeds.\<close>

fun merge_into :: "'s settings \<Rightarrow> (nat \<Rightarrow> 's executor \<Rightarrow> 's executor result) \<Rightarrow> nat \<Rightarrow> nat list
    \<Rightarrow> 's executor \<Rightarrow> 's executor result" where
  "merge_into cf del mState [] ex = Inr ex"
| "merge_into cf del mState (es # ess) ex =
     with_state mState ex (\<lambda>a. with_state es ex (\<lambda>b.
       bind_res (merge (merge_fuel cf) (littleEndian cf) (expr_before cf) (object_before cf) a b (heap ex))
         (\<lambda>(merged, a', st).
           let ex' = put_state mState a' (ex\<lparr>heap := st\<rparr>) in
           if merged then terminateState del es ex' else merge_into cf del mState ess ex')))"

definition can_merge_with :: "nat \<Rightarrow> 's executor \<Rightarrow> nat \<Rightarrow> bool" where
  "can_merge_with mState ex es =
     (case (est ex mState, est ex es) of (Some a, Some b) \<Rightarrow> canMerge a b | _ \<Rightarrow> False)"

definition merge_candidates :: "'s settings \<Rightarrow> (nat \<Rightarrow> 's executor \<Rightarrow> 's executor result) \<Rightarrow> nat
    \<Rightarrow> nat list \<Rightarrow> 's executor \<Rightarrow> 's executor result" where
  "merge_candidates cf del mState cands ex =
     (if cands = [] then Inr ex
      else with_state mState ex (\<lambda>s.
        bind_res (cached_decision cf s ex) (\<lambda>(decision, ex1).
          if decision then merge_into cf del mState cands ex1 else Inr ex1)))"

text \<open>
  The loop over \<open>merge_grounp\<close>, a set in the order of the addresses: the first state and those it
  can be merged with leave the set. (The lists the code rebuilds from the groups are cleared
  at the end of \<open>releaseStates\<close>.)
\<close>

function merge_group :: "'s settings \<Rightarrow> (nat \<Rightarrow> 's executor \<Rightarrow> 's executor result) \<Rightarrow> nat list
    \<Rightarrow> 's executor \<Rightarrow> 's executor result" where
  "merge_group cf del [] ex = Inr ex"
| "merge_group cf del (mState # mstates) ex =
     bind_res (merge_candidates cf del mState (filter (can_merge_with mState ex) mstates) ex)
       (merge_group cf del (filter (\<lambda>es. \<not> can_merge_with mState ex es) mstates))"
  by pat_completeness auto
termination merge_group
  by (relation "measure (\<lambda>(cf, del, mstates, ex). length mstates)") (auto simp: less_Suc_eq_le)

fun merge_groups :: "'s settings \<Rightarrow> (nat \<Rightarrow> 's executor \<Rightarrow> 's executor result)
    \<Rightarrow> (nat \<times> nat list) list \<Rightarrow> 's executor \<Rightarrow> 's executor result" where
  "merge_groups cf del [] ex = Inr ex"
| "merge_groups cf del ((mp, ss) # gs) ex =
     bind_res (merge_group cf del (sorted_list_of_set (set ss)) ex) (merge_groups cf del gs)"

fun continue_all :: "'s settings \<Rightarrow> nat list \<Rightarrow> 's merging \<Rightarrow> 's merging result" where
  "continue_all cf [] m = Inr m"
| "continue_all cf (es # ess) m =
     bind_res (continueState (base_update cf) es m) (\<lambda>m'.
       continue_all cf ess (m'\<lparr>inCloseMerge := inCloseMerge m' - {es}\<rparr>))"

definition releaseStates :: "'s settings \<Rightarrow> (nat \<Rightarrow> 's executor \<Rightarrow> 's executor result) \<Rightarrow> nat
    \<Rightarrow> 's executor \<Rightarrow> 's executor result" where
  "releaseStates cf del h ex =
     with_handler h ex (\<lambda>mh.
       bind_res (continue_all cf (concat (map snd (reachedCloseMerge mh))) (mergingSearcher ex)) (\<lambda>m.
       bind_res (merge_groups cf del (reachedCloseMerge mh) (ex\<lparr>mergingSearcher := m\<rparr>)) (\<lambda>ex1.
         with_handler h ex1 (\<lambda>mh1. Inr (put_handler h (mh1\<lparr>reachedCloseMerge := []\<rparr>) ex1)))))"

text \<open>\<open>~MergeHandler\<close>, and the end of one reference.\<close>

definition delete_handler :: "'s settings \<Rightarrow> (nat \<Rightarrow> 's executor \<Rightarrow> 's executor result) \<Rightarrow> nat
    \<Rightarrow> 's executor \<Rightarrow> 's executor result" where
  "delete_handler cf del h ex =
     bind_res (swap_remove h (mergeGroups (mergingSearcher ex))) (\<lambda>gs.
       map_res (\<lambda>ex1. ex1\<lparr>handlers := (handlers ex1)(h := None)\<rparr>)
         (releaseStates cf del h (ex\<lparr>mergingSearcher := (mergingSearcher ex)\<lparr>mergeGroups := gs\<rparr>\<rparr>)))"

definition drop_reference :: "'s settings \<Rightarrow> (nat \<Rightarrow> 's executor \<Rightarrow> 's executor result) \<Rightarrow> nat
    \<Rightarrow> 's executor \<Rightarrow> 's executor result" where
  "drop_reference cf del h ex =
     with_handler h ex (\<lambda>mh.
       let ex1 = put_handler h (mh\<lparr>refCount := refCount mh - 1\<rparr>) ex in
       if refCount mh = 1 then delete_handler cf del h ex1 else Inr ex1)"

fun each :: "('a \<Rightarrow> 'b \<Rightarrow> 'b result) \<Rightarrow> 'a list \<Rightarrow> 'b \<Rightarrow> 'b result" where
  "each f [] b = Inr b"
| "each f (x # xs) b = bind_res (f x b) (each f xs)"

text \<open>
  \<open>~ExecutionState\<close>: the state leaves the open states of its handlers, then its fields are
  destroyed, the references on its stack one after the other.
\<close>

definition leave_handler :: "nat \<Rightarrow> nat \<Rightarrow> 's executor \<Rightarrow> 's executor result" where
  "leave_handler es h ex =
     with_handler h ex (\<lambda>mh. map_res (\<lambda>mh'. put_handler h mh' ex) (removeOpenState es mh))"

primrec delete_state :: "'s settings \<Rightarrow> nat \<Rightarrow> nat \<Rightarrow> 's executor \<Rightarrow> 's executor result" where
  "delete_state cf 0 es ex = Inl OutOfFuel"
| "delete_state cf (Suc n) es ex =
     with_state es ex (\<lambda>s.
       bind_res (each (leave_handler es) (openMergeStack s) ex) (\<lambda>ex1.
         each (drop_reference cf (delete_state cf n)) (openMergeStack s)
           (ex1\<lparr>est := (est ex1)(es := None)\<rparr>)))"

text \<open>\<open>SpecialFunctionHandler::handleCloseMerge\<close> at the instruction \<open>mp\<close>.\<close>

definition handleCloseMerge :: "'s settings \<Rightarrow> nat \<Rightarrow> nat \<Rightarrow> nat \<Rightarrow> 's executor \<Rightarrow> 's executor result" where
  "handleCloseMerge cf n es mp ex =
     (if \<not> useMerge cf then Inr ex
      else with_state es ex (\<lambda>s.
        if openMergeStack s = [] then Inr ex
        else assert_res (es \<notin> inCloseMerge (mergingSearcher ex))
          (let h = last (openMergeStack s);
               m = (mergingSearcher ex)\<lparr>inCloseMerge := insert es (inCloseMerge (mergingSearcher ex))\<rparr>
           in bind_res (addClosedState cf h es mp (ex\<lparr>mergingSearcher := m\<rparr>)) (\<lambda>ex1.
                drop_reference cf (delete_state cf n) h
                  (put_state es (s\<lparr>openMergeStack := butlast (openMergeStack s)\<rparr>) ex1)))))"

section \<open>Forking and the end of a step\<close>

text \<open>
  The part of \<open>Executor::fork\<close> that makes the new state, at the address \<open>es'\<close> that the
  allocator gave: its copy constructor registers it with the handlers it inherits.
\<close>

definition inherit_handler :: "nat \<Rightarrow> nat \<Rightarrow> 's executor \<Rightarrow> 's executor result" where
  "inherit_handler es' h ex =
     with_handler h ex (\<lambda>mh.
       Inr (put_handler h (addOpenState es' (mh\<lparr>refCount := refCount mh + 1\<rparr>)) ex))"

definition fork_state :: "nat \<Rightarrow> nat \<Rightarrow> 's executor \<Rightarrow> 's executor result" where
  "fork_state es es' ex =
     with_state es ex (\<lambda>s.
       case branch s of (trueState, falseState) \<Rightarrow>
         map_res (\<lambda>ex1. ex1\<lparr>addedStates := addedStates ex1 @ [es']\<rparr>)
           (each (inherit_handler es') (openMergeStack s)
             (put_state es' falseState (put_state es trueState ex))))"

text \<open>
  \<open>Executor::updateStates\<close>. Deleting a state may terminate others, which grows
  \<open>removedStates\<close> while the loop walks over it: if the vector is full its iterators are then
  invalid, and if not the loop does not see what was added and the final \<open>clear\<close> drops it.
\<close>

definition delete_removed :: "'s settings \<Rightarrow> nat \<Rightarrow> nat \<Rightarrow> 's executor \<Rightarrow> 's executor result" where
  "delete_removed cf n es ex =
     assert_res (es \<in> states ex)
       (bind_res (delete_state cf n es (ex\<lparr>states := states ex - {es}\<rparr>)) (\<lambda>ex1.
         if \<exists>k \<in> set [length (removedStates ex)..<length (removedStates ex1)]. vector_full cf k
         then Inl InvalidIterator else Inr ex1))"

definition updateStates :: "'s settings \<Rightarrow> nat \<Rightarrow> nat option \<Rightarrow> 's executor \<Rightarrow> 's executor result" where
  "updateStates cf n current ex =
     bind_res (merging_update (base_update cf) current (addedStates ex) (removedStates ex)
         (mergingSearcher ex)) (\<lambda>m.
       map_res (\<lambda>ex1. ex1\<lparr>removedStates := []\<rparr>)
         (each (delete_removed cf n) (removedStates ex)
           (ex\<lparr>mergingSearcher := m, states := states ex \<union> set (addedStates ex), addedStates := []\<rparr>)))"

text \<open>
  \<open>MergingSearcher::selectState\<close> with incomplete merging: of each handler that has merged states
  waiting, a state to run first, or else their release.
\<close>

fun select_incomplete :: "'s settings \<Rightarrow> nat \<Rightarrow> nat list \<Rightarrow> 's executor \<Rightarrow> (nat option \<times> 's executor) result" where
  "select_incomplete cf n [] ex = Inr (None, ex)"
| "select_incomplete cf n (h # hs) ex =
     with_handler h ex (\<lambda>mh.
       if \<not> hasMergedStates mh then select_incomplete cf n hs ex
       else bind_res (getPrioritizeState h ex) (\<lambda>p. case p of
           Some es \<Rightarrow> Inr (Some es, ex)
         | None \<Rightarrow> bind_res (releaseStates cf (delete_state cf n) h ex) (select_incomplete cf n hs)))"

definition selectState :: "'s settings \<Rightarrow> nat \<Rightarrow> bool \<Rightarrow> ('s \<Rightarrow> 'r \<Rightarrow> (nat \<times> 's \<times> 'r) result) \<Rightarrow> ('s \<Rightarrow> bool)
    \<Rightarrow> 's executor \<Rightarrow> 'r \<Rightarrow> (nat \<times> 's executor \<times> 'r) result" where
  "selectState cf n useIncompleteMerge sel emp ex r =
     assert_res (\<not> emp (mg_base (mergingSearcher ex)))
       (bind_res (if useIncompleteMerge then select_incomplete cf n (mergeGroups (mergingSearcher ex)) ex
                  else Inr (None, ex)) (\<lambda>(chosen, ex1). case chosen of
           Some es \<Rightarrow> Inr (es, ex1, r)
         | None \<Rightarrow> bind_res (sel (mg_base (mergingSearcher ex1)) r) (\<lambda>(es, b, r').
             Inr (es, ex1\<lparr>mergingSearcher := (mergingSearcher ex1)\<lparr>mg_base := b\<rparr>\<rparr>, r'))))"

end
