(* ===== verification/MergeProtocol.thy ===== *)
theory MergeProtocol
  imports MergeHandler "HOL-Library.Sublist"
begin

text \<open>
  The protocol between states, merge handlers and the searcher: the invariant that ties them
  together, that every operation keeps it, and what follows: as long as there are states, one of
  them can run, so waiting at merge points never blocks the exploration.
\<close>

section \<open>The invariant\<close>

definition stack_of :: "'s executor \<Rightarrow> nat \<Rightarrow> nat list" where
  "stack_of ex es = (case est ex es of None \<Rightarrow> [] | Some s \<Rightarrow> openMergeStack s)"

text \<open>
  A handler sits on the stacks of the states that forked inside its region: below it all of
  them have the same handlers, those that were open when it was.
\<close>

definition coherent :: "(nat \<Rightarrow> nat list) \<Rightarrow> bool" where
  "coherent stk \<longleftrightarrow> (\<forall>U V i j. i < length (stk U) \<longrightarrow> j < length (stk V) \<longrightarrow> stk U ! i = stk V ! j \<longrightarrow>
     take i (stk U) = take j (stk V))"

definition holders :: "(nat \<Rightarrow> nat list) \<Rightarrow> nat \<Rightarrow> nat set" where
  "holders stk h = {es. h \<in> set (stk es)}"

definition waiting :: "merge_handler \<Rightarrow> nat list" where
  "waiting mh = concat (map snd (reachedCloseMerge mh))"

text \<open>
  The handlers that live are those that a state holds or to which a reference is about to be
  dropped (\<open>pend\<close>). A state that waits in a handler has the stack below that handler.
\<close>

definition handler_ok :: "(nat \<Rightarrow> nat list) \<Rightarrow> nat multiset \<Rightarrow> nat \<Rightarrow> merge_handler \<Rightarrow> bool" where
  "handler_ok stk pend h mh \<longleftrightarrow>
     finite (holders stk h) \<and> mset (openStates mh) = mset_set (holders stk h)
   \<and> refCount mh = card (holders stk h) + count pend h \<and> 0 < refCount mh
   \<and> distinct (waiting mh)
   \<and> (\<forall>es \<in> set (waiting mh). \<forall>V i. i < length (stk V) \<longrightarrow> stk V ! i = h \<longrightarrow> stk es = take i (stk V))"

definition handlers_ok :: "(nat \<Rightarrow> nat list) \<Rightarrow> nat multiset \<Rightarrow> (nat \<Rightarrow> merge_handler option) \<Rightarrow> bool" where
  "handlers_ok stk pend hs \<longleftrightarrow>
     (\<forall>h. hs h = None \<longrightarrow> holders stk h = {} \<and> h \<notin># pend)
   \<and> (\<forall>h mh. hs h = Some mh \<longrightarrow> handler_ok stk pend h mh)"

definition waiting_ok :: "(nat \<Rightarrow> merge_handler option) \<Rightarrow> 's merging \<Rightarrow> bool" where
  "waiting_ok hs m \<longleftrightarrow>
     inCloseMerge m = set (pausedStates m)
   \<and> (\<forall>es. es \<in> set (pausedStates m) \<longleftrightarrow> (\<exists>h mh. hs h = Some mh \<and> es \<in> set (waiting mh)))
   \<and> (\<forall>h h' mh mh' es. hs h = Some mh \<longrightarrow> hs h' = Some mh' \<longrightarrow> es \<in> set (waiting mh) \<longrightarrow>
        es \<in> set (waiting mh') \<longrightarrow> h = h')
   \<and> distinct (mergeGroups m) \<and> set (mergeGroups m) = dom hs"

text \<open>
  \<open>D\<close> are the states that have left the searcher and are about to be deleted.
\<close>

definition executor_ok :: "('s \<Rightarrow> nat multiset) \<Rightarrow> ('s \<Rightarrow> bool) \<Rightarrow> nat set \<Rightarrow> nat multiset
    \<Rightarrow> 's executor \<Rightarrow> bool" where
  "executor_ok content ok D pend ex \<longleftrightarrow>
     finite (states ex) \<and> dom (est ex) = states ex \<union> set (addedStates ex)
   \<and> states ex \<inter> set (addedStates ex) = {} \<and> distinct (addedStates ex)
   \<and> coherent (stack_of ex) \<and> handlers_ok (stack_of ex) pend (handlers ex)
   \<and> waiting_ok (handlers ex) (mergingSearcher ex)
   \<and> merging_ok content ok (mergingSearcher ex) \<and> D \<subseteq> states ex
   \<and> set_mset (merging_content content (mergingSearcher ex)) = states ex - D"

lemma coherentD:
  "coherent stk \<Longrightarrow> i < length (stk U) \<Longrightarrow> j < length (stk V) \<Longrightarrow> stk U ! i = stk V ! j \<Longrightarrow>
    take i (stk U) = take j (stk V)"
  unfolding coherent_def by blast

lemma coherent_distinct:
  assumes "coherent stk"
  shows "distinct (stk U)"
  unfolding distinct_conv_nth
proof (intro allI impI)
  fix i j assume ij: "i < length (stk U)" "j < length (stk U)" "i \<noteq> j"
  show "stk U ! i \<noteq> stk U ! j"
  proof
    assume "stk U ! i = stk U ! j"
    from coherentD[OF assms ij(1,2) this] have "length (take i (stk U)) = length (take j (stk U))" by simp
    with ij show False by simp
  qed
qed

lemma executor_okD:
  assumes "executor_ok content ok D pend ex"
  shows "finite (states ex)" "dom (est ex) = states ex \<union> set (addedStates ex)"
    "states ex \<inter> set (addedStates ex) = {}" "distinct (addedStates ex)"
    "coherent (stack_of ex)" "handlers_ok (stack_of ex) pend (handlers ex)"
    "waiting_ok (handlers ex) (mergingSearcher ex)" "merging_ok content ok (mergingSearcher ex)"
    "D \<subseteq> states ex" "set_mset (merging_content content (mergingSearcher ex)) = states ex - D"
  using assms by (simp_all add: executor_ok_def)

lemma handlers_okD:
  assumes "handlers_ok stk pend hs"
  shows "hs h = None \<Longrightarrow> holders stk h = {}" "hs h = None \<Longrightarrow> h \<notin># pend"
    "hs h = Some mh \<Longrightarrow> handler_ok stk pend h mh"
  using assms by (simp_all add: handlers_ok_def)

lemma handler_okD:
  assumes "handler_ok stk pend h mh"
  shows "finite (holders stk h)" "mset (openStates mh) = mset_set (holders stk h)"
    "refCount mh = card (holders stk h) + count pend h" "0 < refCount mh" "distinct (waiting mh)"
    "es \<in> set (waiting mh) \<Longrightarrow> i < length (stk V) \<Longrightarrow> stk V ! i = h \<Longrightarrow> stk es = take i (stk V)"
  using assms unfolding handler_ok_def by blast+

lemma waiting_okD:
  assumes "waiting_ok hs m"
  shows "inCloseMerge m = set (pausedStates m)"
    "es \<in> set (pausedStates m) \<longleftrightarrow> (\<exists>h mh. hs h = Some mh \<and> es \<in> set (waiting mh))"
    "hs h = Some mh \<Longrightarrow> hs h' = Some mh' \<Longrightarrow> es \<in> set (waiting mh) \<Longrightarrow> es \<in> set (waiting mh') \<Longrightarrow> h = h'"
    "distinct (mergeGroups m)" "set (mergeGroups m) = dom hs"
  using assms unfolding waiting_ok_def by blast+

section \<open>Waiting never blocks\<close>

text \<open>
  A state that waits in a handler has a shorter stack than any state that still holds the
  handler, so of the states with the longest stack none waits.
\<close>

theorem some_state_active:
  assumes ok: "executor_ok content ok {} {#} ex" and a: "addedStates ex = []" and ne: "states ex \<noteq> {}"
  shows "content (mg_base (mergingSearcher ex)) \<noteq> {#}"
proof -
  note E = executor_okD[OF ok]
  let ?len = "\<lambda>V. length (stack_of ex V)"
  have fin: "finite (?len ` states ex)" using E(1) by simp
  with ne obtain U where "U \<in> states ex" "?len U = Max (?len ` states ex)"
    using Max_in[OF fin] by (metis (no_types, lifting) image_iff image_is_empty)
  then have U: "U \<in> states ex" "\<And>V. V \<in> states ex \<Longrightarrow> ?len V \<le> ?len U"
    using fin by auto
  have "U \<notin> set (pausedStates (mergingSearcher ex))"
  proof
    assume "U \<in> set (pausedStates (mergingSearcher ex))"
    then obtain h mh where h: "handlers ex h = Some mh" "U \<in> set (waiting mh)"
      using waiting_okD(2)[OF E(7)] by blast
    note H = handler_okD[OF handlers_okD(3)[OF E(6) h(1)]]
    have "holders (stack_of ex) h \<noteq> {}" using H(1,3,4) by auto
    then obtain V i where V: "i < length (stack_of ex V)" "stack_of ex V ! i = h"
      by (auto simp: holders_def in_set_conv_nth)
    then have "length (stack_of ex U) = i" using H(6)[OF h(2)] by simp
    moreover have "V \<in> states ex" using V(1) E(2) a by (auto simp: stack_of_def split: option.splits)
    ultimately show False using U(2)[of V] V(1) by simp
  qed
  moreover have "U \<in># merging_content content (mergingSearcher ex)" using E(10) U(1) by simp
  ultimately show ?thesis by (auto simp: merging_content_def)
qed

section \<open>The operations on handlers\<close>

lemma find_index_Some: "find_index x xs = Some i \<Longrightarrow> i < length xs \<and> xs ! i = x"
  by (induction xs arbitrary: i) (auto split: if_splits)

lemma find_index_None: "find_index x xs = None \<longleftrightarrow> x \<notin> set xs"
  by (induction xs) auto

lemma swap_remove_ok:
  assumes "swap_remove x xs = Inr ys"
  shows "x \<in> set xs" "mset ys = mset xs - {#x#}"
proof -
  obtain i where i: "find_index x xs = Some i" "ys = butlast (xs[i := last xs])"
    using assms by (auto simp: swap_remove_def split: option.splits)
  from find_index_Some[OF i(1)] have l: "i < length xs" "xs ! i = x" by auto
  then show "x \<in> set xs" by auto
  have ne: "xs[i := last xs] \<noteq> []" using l by auto
  have "mset ys = mset (xs[i := last xs]) - {#last (xs[i := last xs])#}"
    unfolding i(2) by (rule mset_last[OF ne])
  also have "last (xs[i := last xs]) = last xs"
    using l by (subst last_list_update) auto
  also have "mset (xs[i := last xs]) = add_mset (last xs) (mset xs - {#x#})"
    using l by (simp add: mset_update)
  finally show "mset ys = mset xs - {#x#}" by simp
qed

lemma swap_remove_set:
  assumes "swap_remove x xs = Inr ys" "distinct xs"
  shows "set ys = set xs - {x}" "distinct ys"
proof -
  note s = swap_remove_ok[OF assms(1)]
  have "mset ys = mset (remove1 x xs)" using s by simp
  then show "set ys = set xs - {x}" "distinct ys"
    using assms(2) by (metis set_mset_mset set_remove1_eq, metis distinct_remove1 mset_eq_imp_distinct_iff)
qed

lemma waiting_push_closed:
  "mset (concat (map snd (push_closed mp es gs))) = add_mset es (mset (concat (map snd gs)))"
  by (induction mp es gs rule: push_closed.induct) auto

lemma record_closed_ok:
  assumes "record_closed es s mp mh = Inr mh'"
  shows "es \<in> set (openStates mh)" "mset (openStates mh') = mset (openStates mh) - {#es#}"
    "refCount mh' = refCount mh" "mset (waiting mh') = add_mset es (mset (waiting mh))"
proof -
  obtain os n c where os: "swap_remove es (openStates mh) = Inr os"
      "mh' = mh\<lparr>closedStateCount := n, closedMean := c, openStates := os,
        reachedCloseMerge := push_closed mp es (reachedCloseMerge mh)\<rparr>"
    using assms unfolding record_closed_def removeOpenState_def Let_def map_res_Inr
    by (elim exE conjE) (rule that, simp_all)
  from swap_remove_ok[OF os(1)] show "es \<in> set (openStates mh)"
    "mset (openStates mh') = mset (openStates mh) - {#es#}" by (simp_all add: os(2))
  show "refCount mh' = refCount mh" by (simp add: os(2))
  show "mset (waiting mh') = add_mset es (mset (waiting mh))"
    unfolding waiting_def by (simp add: os(2) waiting_push_closed)
qed

text \<open>The running mean is the mean of the distances.\<close>

lemma record_closed_mean:
  assumes "record_closed es s mp h = Inr h'" "closedStateCount h + 1 < 2 ^ 32"
  shows "openInstruction h' = openInstruction h" "closedStateCount h' = closedStateCount h + 1"
    "closedMean h' * rat_of_nat (closedStateCount h + 1)
      = closedMean h * rat_of_nat (closedStateCount h) + rat_of_nat (getInstructionDistance h s)"
proof -
  let ?n = "(closedStateCount h + 1) mod 2 ^ 32" and ?d = "rat_of_nat (getInstructionDistance h s)"
  have n: "?n = closedStateCount h + 1" using assms(2) by simp
  have e: "openInstruction h' = openInstruction h \<and> closedStateCount h' = ?n
      \<and> closedMean h' = closedMean h + (?d - closedMean h) / rat_of_nat ?n"
    using assms(1) by (auto simp: record_closed_def removeOpenState_def Let_def)
  then show "openInstruction h' = openInstruction h" "closedStateCount h' = closedStateCount h + 1"
    by (simp_all only: n)
  have "rat_of_nat (closedStateCount h + 1) \<noteq> 0" by (simp only: of_nat_eq_0_iff)
  then show "closedMean h' * rat_of_nat (closedStateCount h + 1)
      = closedMean h * rat_of_nat (closedStateCount h) + ?d"
    using e unfolding n by (simp add: field_simps)
qed

lemma each_record_closed:
  assumes "each (\<lambda>(es, s, mp). record_closed es s mp) xs h = Inr h'" "closedStateCount h + length xs < 2 ^ 32"
  shows "closedStateCount h' = closedStateCount h + length xs
    \<and> closedMean h' * rat_of_nat (closedStateCount h + length xs)
      = closedMean h * rat_of_nat (closedStateCount h)
        + (\<Sum>(es, s, mp)\<leftarrow>xs. rat_of_nat (getInstructionDistance h s))"
  using assms
proof (induction xs arbitrary: h)
  case (Cons x xs)
  obtain es s mp where x: "x = (es, s, mp)" by (cases x)
  with Cons.prems(1) obtain h1 where h1: "record_closed es s mp h = Inr h1"
    "each (\<lambda>(es, s, mp). record_closed es s mp) xs h1 = Inr h'" by auto
  have "closedStateCount h + 1 < 2 ^ 32" using Cons.prems(2) by simp
  note m = record_closed_mean[OF h1(1) this]
  have d: "getInstructionDistance h1 = getInstructionDistance h"
    by (simp add: getInstructionDistance_def m(1) fun_eq_iff)
  have "closedStateCount h1 + length xs < 2 ^ 32" using Cons.prems(2) m(2) by simp
  from Cons.IH[OF h1(2) this] m(2,3) show ?case by (simp add: x d algebra_simps)
qed simp

lemma removeOpenState_ok:
  assumes "removeOpenState es mh = Inr mh'"
  shows "es \<in> set (openStates mh)" "mset (openStates mh') = mset (openStates mh) - {#es#}"
    "refCount mh' = refCount mh" "waiting mh' = waiting mh"
  using assms swap_remove_ok by (auto simp: removeOpenState_def waiting_def)

section \<open>What merging leaves alone\<close>

text \<open>
  Merging changes the merged states themselves, but not their stacks of handlers, and queues
  states of the group for removal, each at most once.
\<close>

definition only_merged :: "nat set \<Rightarrow> 's executor \<Rightarrow> 's executor \<Rightarrow> bool" where
  "only_merged W ex ex' \<longleftrightarrow>
     stack_of ex' = stack_of ex \<and> dom (est ex') = dom (est ex) \<and> states ex' = states ex
   \<and> addedStates ex' = addedStates ex \<and> mergingSearcher ex' = mergingSearcher ex
   \<and> handlers ex' = handlers ex
   \<and> (\<exists>new. removedStates ex' = removedStates ex @ new \<and> distinct new \<and> set new \<subseteq> W)"

lemma only_merged_refl: "only_merged W ex ex"
  by (auto simp: only_merged_def)

lemma only_merged_trans:
  assumes "only_merged V ex ex1" "only_merged W ex1 ex2" "V \<inter> W = {}"
  shows "only_merged (V \<union> W) ex ex2"
proof -
  obtain n1 n2 where "removedStates ex1 = removedStates ex @ n1" "distinct n1" "set n1 \<subseteq> V"
      "removedStates ex2 = removedStates ex1 @ n2" "distinct n2" "set n2 \<subseteq> W"
    using assms(1,2) by (auto simp: only_merged_def)
  then have "removedStates ex2 = removedStates ex @ (n1 @ n2)" "distinct (n1 @ n2)" "set (n1 @ n2) \<subseteq> V \<union> W"
    using assms(3) by auto
  with assms(1,2) show ?thesis unfolding only_merged_def by metis
qed

lemma only_merged_mono: "only_merged V ex ex' \<Longrightarrow> V \<subseteq> W \<Longrightarrow> only_merged W ex ex'"
  unfolding only_merged_def by blast

lemma only_mergedD:
  assumes "only_merged W ex ex'"
  shows "addedStates ex' = addedStates ex" "set (removedStates ex') \<subseteq> set (removedStates ex) \<union> W"
  using assms by (auto simp: only_merged_def)

lemma stack_of_put [simp]: "stack_of (put_state es s ex) = (stack_of ex)(es := openMergeStack s)"
  by (auto simp: stack_of_def put_state_def)

lemma stack_of_same: "est ex' = est ex \<Longrightarrow> stack_of ex' = stack_of ex"
  by (auto simp: stack_of_def)

lemma stack_of_upd: "est ex es = Some s \<Longrightarrow> openMergeStack s' = openMergeStack s \<Longrightarrow>
    (stack_of ex)(es := openMergeStack s') = stack_of ex"
  by (auto simp: stack_of_def)

lemma merge_openMergeStack: "merge n le lt mlt a b st = Inr (m, a', st') \<Longrightarrow> openMergeStack a' = openMergeStack a"
  by (auto simp: merge_def merge_body_def Let_def split: if_splits option.splits)

lemma put_handler_fields [simp]:
  "est (put_handler h mh ex) = est ex" "states (put_handler h mh ex) = states ex"
  "addedStates (put_handler h mh ex) = addedStates ex"
  "removedStates (put_handler h mh ex) = removedStates ex"
  "mergingSearcher (put_handler h mh ex) = mergingSearcher ex"
  "handlers (put_handler h mh ex) = (handlers ex)(h \<mapsto> mh)"
  by (simp_all add: put_handler_def)

lemma put_state_fields [simp]:
  "est (put_state es s ex) = (est ex)(es \<mapsto> s)" "states (put_state es s ex) = states ex"
  "addedStates (put_state es s ex) = addedStates ex"
  "removedStates (put_state es s ex) = removedStates ex"
  "mergingSearcher (put_state es s ex) = mergingSearcher ex"
  "handlers (put_state es s ex) = handlers ex"
  by (simp_all add: put_state_def)

lemma with_state_Inr [simp]: "with_state es ex f = Inr x \<longleftrightarrow> (\<exists>s. est ex es = Some s \<and> f s = Inr x)"
  by (auto simp: with_state_def split: option.splits)

lemma with_handler_Inr [simp]: "with_handler h ex f = Inr x \<longleftrightarrow> (\<exists>mh. handlers ex h = Some mh \<and> f mh = Inr x)"
  by (auto simp: with_handler_def split: option.splits)

lemma terminateState_queues:
  assumes "terminateState del es ex = Inr ex'" "es \<notin> set (addedStates ex)"
  shows "only_merged {es} ex ex'" "removedStates ex' = removedStates ex @ [es]"
proof -
  obtain s where s: "est ex es = Some s"
    "ex' = put_state es (s\<lparr>pc := prevPC s\<rparr>)
       (ex\<lparr>pathsExplored := pathsExplored ex + 1, removedStates := removedStates ex @ [es]\<rparr>)"
    using assms by (auto simp: terminateState_def Let_def)
  have "stack_of (ex\<lparr>pathsExplored := pathsExplored ex + 1, removedStates := removedStates ex @ [es]\<rparr>)
      = stack_of ex"
    by (rule stack_of_same) simp
  then have "stack_of ex' = stack_of ex"
    unfolding s(2) stack_of_put using stack_of_upd[OF s(1), of "s\<lparr>pc := prevPC s\<rparr>"] by simp
  then show "only_merged {es} ex ex'" "removedStates ex' = removedStates ex @ [es]"
    using s by (auto simp: only_merged_def put_state_def)
qed

lemma merge_into_ok:
  assumes "merge_into cf del mState cands ex = Inr ex'" "set cands \<inter> set (addedStates ex) = {}"
  shows "only_merged (set cands) ex ex'"
  using assms
proof (induction cands arbitrary: ex)
  case Nil
  then show ?case by (simp add: only_merged_refl)
next
  case (Cons es ess)
  obtain a b merged a' st where ab: "est ex mState = Some a" "est ex es = Some b"
    and m: "merge (merge_fuel cf) (littleEndian cf) (expr_before cf) (object_before cf) a b (heap ex)
      = Inr (merged, a', st)"
    and r: "(if merged then terminateState del es (put_state mState a' (ex\<lparr>heap := st\<rparr>))
       else merge_into cf del mState ess (put_state mState a' (ex\<lparr>heap := st\<rparr>))) = Inr ex'"
    using Cons.prems(1) by (auto simp: Let_def)
  let ?ex = "put_state mState a' (ex\<lparr>heap := st\<rparr>)"
  have "stack_of (ex\<lparr>heap := st\<rparr>) = stack_of ex" by (rule stack_of_same) simp
  then have "stack_of ?ex = stack_of ex"
    using stack_of_upd[OF ab(1) merge_openMergeStack[OF m]] by simp
  then have e: "only_merged {} ex ?ex"
    using ab(1) by (auto simp: only_merged_def put_state_def)
  have a: "addedStates ?ex = addedStates ex" by (simp add: put_state_def)
  show ?case
  proof (cases merged)
    case True
    with r have t: "terminateState del es ?ex = Inr ex'" by simp
    have "es \<notin> set (addedStates ?ex)" using Cons.prems(2) a by auto
    from only_merged_trans[OF e terminateState_queues(1)[OF t this]] show ?thesis
      by (auto elim: only_merged_mono)
  next
    case False
    with r have "merge_into cf del mState ess ?ex = Inr ex'" by simp
    from Cons.IH[OF this] Cons.prems(2) have "only_merged (set ess) ?ex ex'" by (simp add: a)
    from only_merged_trans[OF e this] show ?thesis by (auto elim: only_merged_mono)
  qed
qed

lemma cached_decision_ok: "cached_decision cf s ex = Inr (d, ex') \<Longrightarrow> only_merged {} ex ex'"
  by (auto simp: cached_decision_def only_merged_def stack_of_def split: option.splits)

lemma merge_candidates_ok:
  assumes "merge_candidates cf del mState cands ex = Inr ex'" "set cands \<inter> set (addedStates ex) = {}"
  shows "only_merged (set cands) ex ex'"
proof (cases "cands = []")
  case True
  with assms show ?thesis by (simp add: merge_candidates_def only_merged_refl)
next
  case False
  with assms obtain s d ex1 where c: "cached_decision cf s ex = Inr (d, ex1)"
    and r: "(if d then merge_into cf del mState cands ex1 else Inr ex1) = Inr ex'"
    by (auto simp: merge_candidates_def)
  note e = cached_decision_ok[OF c]
  have "only_merged (set cands) ex1 ex'"
    using r merge_into_ok[of cf del mState cands ex1 ex'] assms(2) e
    by (auto simp: only_merged_def[of "{}"] only_merged_refl split: if_splits)
  from only_merged_trans[OF e this] show ?thesis by simp
qed

lemma merge_group_ok:
  assumes "merge_group cf del mstates ex = Inr ex'" "set mstates \<inter> set (addedStates ex) = {}" "distinct mstates"
  shows "only_merged (set mstates) ex ex'"
  using assms
proof (induction cf del mstates ex rule: merge_group.induct)
  case (1 cf del ex)
  then show ?case by (simp add: only_merged_refl)
next
  case (2 cf del mState mstates ex)
  let ?c = "filter (can_merge_with mState ex) mstates"
  let ?r = "filter (\<lambda>es. \<not> can_merge_with mState ex es) mstates"
  obtain ex1 where ex1: "merge_candidates cf del mState ?c ex = Inr ex1" "merge_group cf del ?r ex1 = Inr ex'"
    using "2.prems"(1) by auto
  have e: "only_merged (set ?c) ex ex1"
    using merge_candidates_ok[OF ex1(1)] "2.prems"(2) by auto
  then have "addedStates ex1 = addedStates ex" by (simp add: only_merged_def)
  with "2.IH"[OF ex1] "2.prems"(2,3) have "only_merged (set ?r) ex1 ex'" by auto
  from only_merged_mono[OF only_merged_trans[OF e this], of "set (mState # mstates)"]
  show ?case by auto
qed

lemma merge_groups_ok:
  assumes "merge_groups cf del gs ex = Inr ex'" "set (concat (map snd gs)) \<inter> set (addedStates ex) = {}"
    "distinct (concat (map snd gs))"
  shows "only_merged (set (concat (map snd gs))) ex ex'"
  using assms
proof (induction gs arbitrary: ex)
  case Nil
  then show ?case by (simp add: only_merged_refl)
next
  case (Cons g gs)
  obtain mp ss where g: "g = (mp, ss)" by fastforce
  with Cons.prems(1) obtain ex1 where ex1:
    "merge_group cf del (sorted_list_of_set (set ss)) ex = Inr ex1" "merge_groups cf del gs ex1 = Inr ex'"
    by auto
  have e: "only_merged (set ss) ex ex1"
    using merge_group_ok[OF ex1(1)] Cons.prems(2) g by auto
  then have "addedStates ex1 = addedStates ex" by (simp add: only_merged_def)
  with Cons.IH[OF ex1(2)] Cons.prems(2,3) g have "only_merged (set (concat (map snd gs))) ex1 ex'" by auto
  from only_merged_trans[OF e this] Cons.prems(3) g show ?case by auto
qed

section \<open>Releasing states and dropping references\<close>

lemma single_mset: "single (mset xs) \<longleftrightarrow> distinct xs"
  by (simp add: single_def distinct_count_atmost_1 count_mset le_Suc_eq count_list_0_iff)

lemma handler_ok_count:
  "count pend' h = count pend h \<Longrightarrow> handler_ok stk pend' h mh \<longleftrightarrow> handler_ok stk pend h mh"
  by (simp only: handler_ok_def)

lemma handlers_ok_pend:
  assumes "handlers_ok stk (add_mset h pend) hs" "hs h = Some mh" "handler_ok stk pend h mh'"
  shows "handlers_ok stk pend (hs(h \<mapsto> mh'))"
  unfolding handlers_ok_def
proof (intro conjI allI impI)
  fix h' assume "(hs(h \<mapsto> mh')) h' = None"
  then have "hs h' = None" by (auto split: if_splits)
  from handlers_okD(1,2)[OF assms(1) this] show "holders stk h' = {}" "h' \<notin># pend" by auto
next
  fix h' m assume m: "(hs(h \<mapsto> mh')) h' = Some m"
  show "handler_ok stk pend h' m"
  proof (cases "h' = h")
    case False
    with m handlers_okD(3)[OF assms(1), of h' m] handler_ok_count[of pend h' "add_mset h pend"]
    show ?thesis by auto
  qed (use m assms(3) in auto)
qed

lemma handlers_ok_delete:
  assumes "handlers_ok stk (add_mset h pend) hs" "holders stk h = {}" "h \<notin># pend"
  shows "handlers_ok stk pend (hs(h := None))"
  unfolding handlers_ok_def
proof (intro conjI allI impI)
  fix h' assume "(hs(h := None)) h' = None"
  then have "h' = h \<or> hs h' = None" by (auto split: if_splits)
  with assms(2,3) handlers_okD(1,2)[OF assms(1), of h'] show "holders stk h' = {}" "h' \<notin># pend" by auto
next
  fix h' m assume "(hs(h := None)) h' = Some m"
  then have "h' \<noteq> h" "hs h' = Some m" by (auto split: if_splits)
  with handlers_okD(3)[OF assms(1), of h' m] handler_ok_count[of pend h' "add_mset h pend"]
  show "handler_ok stk pend h' m" by auto
qed

lemma waiting_ok_pointwise:
  assumes ok: "waiting_ok hs m" and eq: "\<And>h. map_option waiting (hs' h) = map_option waiting (hs h)"
  shows "waiting_ok hs' m"
proof -
  have w: "(\<exists>mm. hs' h = Some mm \<and> es \<in> set (waiting mm)) \<longleftrightarrow> (\<exists>mm. hs h = Some mm \<and> es \<in> set (waiting mm))" for h es
    using eq[of h] by (cases "hs h"; cases "hs' h") auto
  have n: "hs' h = None \<longleftrightarrow> hs h = None" for h using eq[of h] by (cases "hs h"; cases "hs' h") auto
  show ?thesis
    unfolding waiting_ok_def
  proof (intro conjI allI impI)
    show "inCloseMerge m = set (pausedStates m)" by (rule waiting_okD(1)[OF ok])
    show "distinct (mergeGroups m)" by (rule waiting_okD(4)[OF ok])
    show "set (mergeGroups m) = dom hs'" using waiting_okD(5)[OF ok] n by (simp add: dom_def)
    show "es \<in> set (pausedStates m) \<longleftrightarrow> (\<exists>h mh. hs' h = Some mh \<and> es \<in> set (waiting mh))" for es
      using waiting_okD(2)[OF ok, of es] w by blast
    show "h = h'" if "hs' h = Some m1" "hs' h' = Some m2" "es \<in> set (waiting m1)" "es \<in> set (waiting m2)"
      for h h' m1 m2 es
      using w[of h es] w[of h' es] that waiting_okD(3)[OF ok] by blast
  qed
qed

lemma waiting_ok_same:
  assumes "waiting_ok hs m" "hs h = Some mh" "waiting mh' = waiting mh"
  shows "waiting_ok (hs(h \<mapsto> mh')) m"
  by (rule waiting_ok_pointwise[OF assms(1)]) (use assms(2,3) in auto)

lemma waiting_ok_release:
  assumes ok: "waiting_ok hs m" and h: "hs h = Some mh"
    and m': "set (pausedStates m') = set (pausedStates m) - set (waiting mh)"
      "inCloseMerge m' = inCloseMerge m - set (waiting mh)"
      "set (mergeGroups m') = set (mergeGroups m) - {h}" "distinct (mergeGroups m')"
  shows "waiting_ok (hs(h := None)) m'"
  unfolding waiting_ok_def
proof (intro conjI allI impI)
  note W = waiting_okD[OF ok]
  show "inCloseMerge m' = set (pausedStates m')" using m' W(1) by simp
  show "distinct (mergeGroups m')" by (rule m'(4))
  show "set (mergeGroups m') = dom (hs(h := None))" using m'(3) W(5) by auto
  show "h' = h''" if "(hs(h := None)) h' = Some m1" "(hs(h := None)) h'' = Some m2"
      "es \<in> set (waiting m1)" "es \<in> set (waiting m2)" for h' h'' m1 m2 es
    using that W(3)[of h' m1 h'' m2 es] by (auto split: if_splits)
  show "es \<in> set (pausedStates m') \<longleftrightarrow> (\<exists>h' mm. (hs(h := None)) h' = Some mm \<and> es \<in> set (waiting mm))" for es
  proof -
    have "es \<in> set (pausedStates m') \<longleftrightarrow> (\<exists>h' mm. hs h' = Some mm \<and> es \<in> set (waiting mm)) \<and> es \<notin> set (waiting mh)"
      using m'(1) W(2)[of es] by blast
    also have "\<dots> \<longleftrightarrow> (\<exists>h' mm. h' \<noteq> h \<and> hs h' = Some mm \<and> es \<in> set (waiting mm))"
      using W(3)[OF h] h by (metis option.inject)
    finally show ?thesis by auto
  qed
qed

text \<open>
  What a dropped reference may do beyond its own handler: let the waiting states of the handler
  run again, and queue some of them for removal.
\<close>

definition released :: "nat \<Rightarrow> 's executor \<Rightarrow> 's executor \<Rightarrow> bool" where
  "released h ex ex' \<longleftrightarrow>
     stack_of ex' = stack_of ex \<and> dom (est ex') = dom (est ex) \<and> states ex' = states ex
   \<and> addedStates ex' = addedStates ex
   \<and> (set (pausedStates (mergingSearcher ex')) = set (pausedStates (mergingSearcher ex))
        \<and> removedStates ex' = removedStates ex
     \<or> (\<exists>mh. handlers ex h = Some mh
        \<and> set (pausedStates (mergingSearcher ex')) = set (pausedStates (mergingSearcher ex)) - set (waiting mh)
        \<and> (\<exists>new. removedStates ex' = removedStates ex @ new \<and> distinct new \<and> set new \<subseteq> set (waiting mh))))"

lemma executor_okI:
  assumes "executor_ok content ok D pend ex"
    and "stack_of ex' = stack_of ex" "dom (est ex') = dom (est ex)" "states ex' = states ex"
    "addedStates ex' = addedStates ex"
    and "handlers_ok (stack_of ex) pend' (handlers ex')"
    "waiting_ok (handlers ex') (mergingSearcher ex')" "merging_ok content ok (mergingSearcher ex')"
    "merging_content content (mergingSearcher ex') = merging_content content (mergingSearcher ex)"
  shows "executor_ok content ok D pend' ex'"
  using assms by (simp add: executor_ok_def)

lemma paused_not_added:
  assumes "executor_ok content ok D pend ex"
  shows "set (pausedStates (mergingSearcher ex)) \<inter> set (addedStates ex) = {}"
proof -
  note E = executor_okD[OF assms]
  have "set (pausedStates (mergingSearcher ex)) \<subseteq> set_mset (merging_content content (mergingSearcher ex))"
    by (simp add: merging_content_def)
  with E(3,10) show ?thesis by blast
qed

lemma waiting_paused:
  assumes "executor_ok content ok D pend ex" "handlers ex h = Some mh"
  shows "set (waiting mh) \<subseteq> set (pausedStates (mergingSearcher ex))"
  using waiting_okD(2)[OF executor_okD(7)[OF assms(1)]] assms(2) by blast

context bag_searcher
begin

lemma continue_all_ok:
  assumes "continue_all cf ess m = Inr m'" "base_update cf = upd" "merging_ok content ok m"
    "distinct ess" "set ess \<subseteq> set (pausedStates m)"
  shows "merging_ok content ok m' \<and> merging_content content m' = merging_content content m
    \<and> set (pausedStates m') = set (pausedStates m) - set ess
    \<and> inCloseMerge m' = inCloseMerge m - set ess \<and> mergeGroups m' = mergeGroups m"
  using assms
proof (induction ess arbitrary: m)
  case (Cons es ess)
  have es: "es \<in> set (pausedStates m)" using Cons.prems(5) by simp
  from continueState_law[OF Cons.prems(3) this] obtain b where
    b: "continueState upd es m = Inr (m\<lparr>mg_base := b, pausedStates := remove1 es (pausedStates m)\<rparr>)"
      "content b = add_mset es (content (mg_base m))"
      "merging_ok content ok (m\<lparr>mg_base := b, pausedStates := remove1 es (pausedStates m)\<rparr>)" by blast
  let ?m = "m\<lparr>mg_base := b, pausedStates := remove1 es (pausedStates m),
    inCloseMerge := inCloseMerge m - {es}\<rparr>"
  have d: "distinct (pausedStates m)"
    using Cons.prems(3) single_subset[of "merging_content content m" "mset (pausedStates m)"]
    by (simp add: merging_ok_def merging_content_def single_mset)
  have "continue_all cf ess ?m = Inr m'" using Cons.prems(1,2) b(1) by simp
  moreover have "merging_ok content ok ?m" using b(3) by (simp add: merging_ok_def merging_content_def)
  moreover have "set ess \<subseteq> set (pausedStates ?m)" using Cons.prems(4,5) d by auto
  ultimately have IH: "merging_ok content ok m' \<and> merging_content content m' = merging_content content ?m
    \<and> set (pausedStates m') = set (pausedStates ?m) - set ess
    \<and> inCloseMerge m' = inCloseMerge ?m - set ess \<and> mergeGroups m' = mergeGroups ?m"
    using Cons.IH[of ?m] Cons.prems(2,4) by simp
  have "merging_content content ?m = merging_content content m"
    using es by (simp add: merging_content_def b(2))
  with IH d show ?case by auto
qed simp

lemma releaseStates_ok:
  assumes "releaseStates cf del h ex = Inr ex'" "base_update cf = upd"
    and h: "handlers ex h = Some mh" and d: "distinct (waiting mh)"
    and w: "set (waiting mh) \<subseteq> set (pausedStates (mergingSearcher ex))"
      "set (waiting mh) \<inter> set (addedStates ex) = {}"
    and m: "merging_ok content ok (mergingSearcher ex)"
  shows "\<exists>ex1 m'. only_merged (set (waiting mh)) (ex\<lparr>mergingSearcher := m'\<rparr>) ex1
    \<and> ex' = put_handler h (mh\<lparr>reachedCloseMerge := []\<rparr>) ex1
    \<and> merging_ok content ok m' \<and> merging_content content m' = merging_content content (mergingSearcher ex)
    \<and> set (pausedStates m') = set (pausedStates (mergingSearcher ex)) - set (waiting mh)
    \<and> inCloseMerge m' = inCloseMerge (mergingSearcher ex) - set (waiting mh)
    \<and> mergeGroups m' = mergeGroups (mergingSearcher ex)"
proof -
  obtain m' ex1 mh1 where c: "continue_all cf (waiting mh) (mergingSearcher ex) = Inr m'"
    and g: "merge_groups cf del (reachedCloseMerge mh) (ex\<lparr>mergingSearcher := m'\<rparr>) = Inr ex1"
    and e: "handlers ex1 h = Some mh1" "ex' = put_handler h (mh1\<lparr>reachedCloseMerge := []\<rparr>) ex1"
    using assms(1) h by (auto simp: releaseStates_def waiting_def)
  have om: "only_merged (set (waiting mh)) (ex\<lparr>mergingSearcher := m'\<rparr>) ex1"
    using merge_groups_ok[OF g] w(2) d by (simp add: waiting_def)
  then have "mh1 = mh" using e(1) h by (simp add: only_merged_def)
  with om e(2) continue_all_ok[OF c assms(2) m d w(1)] show ?thesis by blast
qed

lemma delete_handler_ok:
  assumes inv: "executor_ok content ok D (add_mset h pend) ex" and h: "handlers ex h = Some mh"
    and run: "delete_handler cf del h (put_handler h mh1 ex) = Inr ex'"
    and mh1: "waiting mh1 = waiting mh" and cf: "base_update cf = upd"
    and last: "holders (stack_of ex) h = {}" "h \<notin># pend"
  shows "executor_ok content ok D pend ex' \<and> released h ex ex'"
proof -
  note E = executor_okD[OF inv]
  note W = waiting_okD[OF E(7)]
  have d: "distinct (waiting mh)" using handler_okD(5)[OF handlers_okD(3)[OF E(6) h]] .
  obtain gs ex2 where gs: "swap_remove h (mergeGroups (mergingSearcher ex)) = Inr gs"
    and r: "releaseStates cf del h ((put_handler h mh1 ex)
       \<lparr>mergingSearcher := (mergingSearcher ex)\<lparr>mergeGroups := gs\<rparr>\<rparr>) = Inr ex2"
    and e': "ex' = ex2\<lparr>handlers := (handlers ex2)(h := None)\<rparr>"
    using run by (auto simp: delete_handler_def)
  let ?ex = "(put_handler h mh1 ex)\<lparr>mergingSearcher := (mergingSearcher ex)\<lparr>mergeGroups := gs\<rparr>\<rparr>"
  have sub: "set (waiting mh) \<subseteq> set (pausedStates (mergingSearcher ex))" by (rule waiting_paused[OF inv h])
  have "set (waiting mh1) \<subseteq> set (pausedStates (mergingSearcher ?ex))"
    "set (waiting mh1) \<inter> set (addedStates ?ex) = {}" "merging_ok content ok (mergingSearcher ?ex)"
    "handlers ?ex h = Some mh1"
    using sub paused_not_added[OF inv] E(8)
    by (auto simp: put_handler_def mh1 merging_ok_def merging_content_def)
  from releaseStates_ok[OF r cf this(4) _ this(1-3)] d mh1
  obtain ex1 m' where om: "only_merged (set (waiting mh)) (?ex\<lparr>mergingSearcher := m'\<rparr>) ex1"
    and e2: "ex2 = put_handler h (mh1\<lparr>reachedCloseMerge := []\<rparr>) ex1"
    and m': "merging_ok content ok m'" "merging_content content m' = merging_content content (mergingSearcher ex)"
      "set (pausedStates m') = set (pausedStates (mergingSearcher ex)) - set (waiting mh)"
      "inCloseMerge m' = inCloseMerge (mergingSearcher ex) - set (waiting mh)" "mergeGroups m' = gs"
    by (auto simp: put_handler_def merging_content_def)
  have st: "stack_of (?ex\<lparr>mergingSearcher := m'\<rparr>) = stack_of ex"
    by (rule stack_of_same) (simp add: put_handler_def)
  have st': "stack_of ex' = stack_of ex1" by (rule stack_of_same) (simp add: e' e2 put_handler_def)
  note G = swap_remove_set[OF gs W(4)]
  have hs: "handlers ex' = (handlers ex)(h := None)"
    using om by (auto simp: e' e2 put_handler_def only_merged_def)
  have "waiting_ok ((handlers ex)(h := None)) m'"
    by (rule waiting_ok_release[OF E(7) h m'(3,4)]) (use G m'(5) in auto)
  moreover have "handlers_ok (stack_of ex) pend ((handlers ex)(h := None))"
    by (rule handlers_ok_delete[OF E(6) last])
  moreover have ms: "mergingSearcher ex' = m'" using om by (simp add: e' e2 put_handler_def only_merged_def)
  moreover have same: "stack_of ex' = stack_of ex" "dom (est ex') = dom (est ex)" "states ex' = states ex"
      "addedStates ex' = addedStates ex"
    using om st st' by (simp_all add: e' e2 put_handler_def only_merged_def)
  ultimately have "executor_ok content ok D pend ex'"
    using executor_okI[OF inv, of ex' pend] hs m'(1,2) by simp
  moreover have "released h ex ex'"
    using om same ms m'(3) h by (auto simp: released_def e' e2 put_handler_def only_merged_def)
  ultimately show ?thesis by simp
qed

lemma drop_reference_ok:
  assumes inv: "executor_ok content ok D (add_mset h pend) ex" and cf: "base_update cf = upd"
    and run: "drop_reference cf del h ex = Inr ex'"
  shows "executor_ok content ok D pend ex' \<and> released h ex ex'"
proof -
  note E = executor_okD[OF inv]
  obtain mh where h: "handlers ex h = Some mh"
    and r: "(if refCount mh = 1 then delete_handler cf del h (put_handler h (mh\<lparr>refCount := refCount mh - 1\<rparr>) ex)
      else Inr (put_handler h (mh\<lparr>refCount := refCount mh - 1\<rparr>) ex)) = Inr ex'"
    using run unfolding drop_reference_def Let_def with_handler_Inr by blast
  note H = handler_okD[OF handlers_okD(3)[OF E(6) h]]
  show ?thesis
  proof (cases "refCount mh = 1")
    case True
    with H(1,3) have "holders (stack_of ex) h = {}" "count pend h = 0" by auto
    then have "holders (stack_of ex) h = {}" "h \<notin># pend" by (simp_all only: count_eq_zero_iff simp_thms)
    with delete_handler_ok[OF inv h _ _ cf] r True show ?thesis by (simp add: waiting_def)
  next
    case False
    let ?mh = "mh\<lparr>refCount := refCount mh - 1\<rparr>"
    have w: "waiting ?mh = waiting mh" by (simp add: waiting_def)
    have e': "ex' = put_handler h ?mh ex" using r False by simp
    have "handler_ok (stack_of ex) pend h ?mh"
      unfolding handler_ok_def w
    proof (intro conjI)
      show "refCount ?mh = card (holders (stack_of ex) h) + count pend h" using H(3) by simp
      show "0 < refCount ?mh" using H(4) False by simp
      show "\<forall>es \<in> set (waiting mh). \<forall>V i. i < length (stack_of ex V) \<longrightarrow> stack_of ex V ! i = h \<longrightarrow>
          stack_of ex es = take i (stack_of ex V)" using H(6) by blast
    qed (use H in simp_all)
    then have "handlers_ok (stack_of ex) pend ((handlers ex)(h \<mapsto> ?mh))"
      by (rule handlers_ok_pend[OF E(6) h])
    moreover have "waiting_ok ((handlers ex)(h \<mapsto> ?mh)) (mergingSearcher ex)"
      by (rule waiting_ok_same[OF E(7) h w])
    moreover have "stack_of ex' = stack_of ex" by (rule stack_of_same) (simp add: e' put_handler_def)
    ultimately show ?thesis
      using executor_okI[OF inv, of ex' pend] E(8) by (auto simp: e' put_handler_def released_def)
  qed
qed

end

section \<open>Deleting states\<close>

text \<open>Waiting states may run again and may be queued for removal; nothing else moves.\<close>

definition freed :: "'s executor \<Rightarrow> 's executor \<Rightarrow> bool" where
  "freed ex ex' \<longleftrightarrow>
     dom (est ex') = dom (est ex) \<and> states ex' = states ex \<and> addedStates ex' = addedStates ex
   \<and> stack_of ex' = stack_of ex
   \<and> set (pausedStates (mergingSearcher ex')) \<subseteq> set (pausedStates (mergingSearcher ex))
   \<and> (\<exists>new. removedStates ex' = removedStates ex @ new \<and> distinct new
        \<and> set new \<subseteq> set (pausedStates (mergingSearcher ex)) - set (pausedStates (mergingSearcher ex')))"

lemma freed_refl: "freed ex ex"
  by (simp add: freed_def)

lemma freed_trans:
  assumes "freed ex ex1" "freed ex1 ex2"
  shows "freed ex ex2"
proof -
  obtain n1 n2 where n: "removedStates ex1 = removedStates ex @ n1" "distinct n1"
      "set n1 \<subseteq> set (pausedStates (mergingSearcher ex)) - set (pausedStates (mergingSearcher ex1))"
      "removedStates ex2 = removedStates ex1 @ n2" "distinct n2"
      "set n2 \<subseteq> set (pausedStates (mergingSearcher ex1)) - set (pausedStates (mergingSearcher ex2))"
    using assms unfolding freed_def by blast
  have p: "set (pausedStates (mergingSearcher ex1)) \<subseteq> set (pausedStates (mergingSearcher ex))"
    "set (pausedStates (mergingSearcher ex2)) \<subseteq> set (pausedStates (mergingSearcher ex1))"
    using assms unfolding freed_def by blast+
  have "removedStates ex2 = removedStates ex @ (n1 @ n2)" "distinct (n1 @ n2)"
    "set (n1 @ n2) \<subseteq> set (pausedStates (mergingSearcher ex)) - set (pausedStates (mergingSearcher ex2))"
    using n p by auto
  moreover have "set (pausedStates (mergingSearcher ex2)) \<subseteq> set (pausedStates (mergingSearcher ex))"
    using p by blast
  ultimately show ?thesis using assms unfolding freed_def by metis
qed

lemma freed_removed:
  assumes "freed ex ex'"
  obtains new where "removedStates ex' = removedStates ex @ new" "distinct new"
    "set new \<subseteq> set (pausedStates (mergingSearcher ex)) - set (pausedStates (mergingSearcher ex'))"
  using assms unfolding freed_def by blast

lemma released_freed:
  assumes "executor_ok content ok D pend ex" "released h ex ex'"
  shows "freed ex ex'"
proof -
  have same: "stack_of ex' = stack_of ex" "dom (est ex') = dom (est ex)" "states ex' = states ex"
    "addedStates ex' = addedStates ex" using assms(2) by (simp_all add: released_def)
  consider "set (pausedStates (mergingSearcher ex')) = set (pausedStates (mergingSearcher ex))"
      "removedStates ex' = removedStates ex"
    | mh new where "handlers ex h = Some mh"
      "set (pausedStates (mergingSearcher ex')) = set (pausedStates (mergingSearcher ex)) - set (waiting mh)"
      "removedStates ex' = removedStates ex @ new" "distinct new" "set new \<subseteq> set (waiting mh)"
    using assms(2) unfolding released_def by blast
  then show ?thesis
  proof cases
    case 1
    with same show ?thesis by (simp add: freed_def)
  next
    case 2
    have "set new \<subseteq> set (pausedStates (mergingSearcher ex)) - set (pausedStates (mergingSearcher ex'))"
      using 2 waiting_paused[OF assms(1) 2(1)] by blast
    with 2 same show ?thesis unfolding freed_def by auto
  qed
qed

lemma each_handler:
  assumes "each step hs ex = Inr ex'" "distinct hs"
    and step: "\<And>h ex ex'. step h ex = Inr ex' \<Longrightarrow>
      \<exists>mh mh'. handlers ex h = Some mh \<and> P mh mh' \<and> ex' = put_handler h mh' ex"
  shows "\<exists>f. ex' = ex\<lparr>handlers := f\<rparr> \<and> (\<forall>h. h \<notin> set hs \<longrightarrow> f h = handlers ex h)
    \<and> (\<forall>h \<in> set hs. \<exists>mh mh'. handlers ex h = Some mh \<and> f h = Some mh' \<and> P mh mh')"
  using assms(1,2)
proof (induction hs arbitrary: ex)
  case Nil
  then show ?case by (intro exI[of _ "handlers ex'"]) simp
next
  case (Cons h hs)
  then obtain ex1 where e1: "step h ex = Inr ex1" "each step hs ex1 = Inr ex'" by auto
  obtain mh mh' where h: "handlers ex h = Some mh" "P mh mh'"
    and r: "each step hs (put_handler h mh' ex) = Inr ex'"
    using step[OF e1(1)] e1(2) by blast
  have "distinct hs" using Cons.prems(2) by simp
  from Cons.IH[OF r this] obtain f where f: "ex' = (put_handler h mh' ex)\<lparr>handlers := f\<rparr>"
    "\<And>h'. h' \<notin> set hs \<Longrightarrow> f h' = handlers (put_handler h mh' ex) h'"
    "\<And>h'. h' \<in> set hs \<Longrightarrow> \<exists>m m'. handlers (put_handler h mh' ex) h' = Some m \<and> f h' = Some m' \<and>
       P m m'" by (elim exE conjE) (rule that, blast+)
  have "ex' = ex\<lparr>handlers := f\<rparr>" using f(1) by (simp add: put_handler_def)
  moreover have "f h' = handlers ex h'" if "h' \<notin> set (h # hs)" for h' using f(2)[of h'] that by simp
  moreover have "\<exists>m m'. handlers ex h' = Some m \<and> f h' = Some m' \<and> P m m'"
    if "h' \<in> set (h # hs)" for h'
  proof (cases "h' = h")
    case True
    with f(2)[of h] Cons.prems(2) h show ?thesis by simp
  next
    case False
    with f(3)[of h'] that show ?thesis by simp
  qed
  ultimately show ?case by blast
qed

lemma leave_handler_Inr: "leave_handler es h ex = Inr ex' \<Longrightarrow>
    \<exists>mh mh'. handlers ex h = Some mh \<and> removeOpenState es mh = Inr mh' \<and> ex' = put_handler h mh' ex"
  by (auto simp: leave_handler_def)

lemma each_leave:
  assumes "each (leave_handler es) hs ex = Inr ex'" "distinct hs"
  shows "\<exists>f. ex' = ex\<lparr>handlers := f\<rparr> \<and> (\<forall>h. h \<notin> set hs \<longrightarrow> f h = handlers ex h)
    \<and> (\<forall>h \<in> set hs. \<exists>mh mh'. handlers ex h = Some mh \<and> f h = Some mh' \<and> removeOpenState es mh = Inr mh')"
  by (rule each_handler[OF assms leave_handler_Inr])

lemma coherent_cut:
  assumes stk: "coherent stk" and pre: "\<And>U. prefix (stk' U) (stk U)"
  shows "coherent stk'"
  unfolding coherent_def
proof (intro allI impI)
  have t: "i < length (stk' U) \<Longrightarrow> i < length (stk U) \<and> stk' U ! i = stk U ! i \<and> take i (stk' U) = take i (stk U)" for U i
    using pre[of U] by (auto simp: prefix_def nth_append)
  fix U V i j
  assume "i < length (stk' U)" "j < length (stk' V)" "stk' U ! i = stk' V ! j"
  with t[of i U] t[of j V] coherentD[OF stk, of i U j V] show "take i (stk' U) = take j (stk' V)" by simp
qed

lemma coherent_clear: "coherent stk \<Longrightarrow> coherent (stk(es := []))"
  by (erule coherent_cut) simp

lemma coherent_butlast: "coherent stk \<Longrightarrow> coherent (stk(es := butlast (stk es)))"
  by (erule coherent_cut) (simp add: prefixeq_butlast)

lemma handlers_ok_leave:
  assumes stk: "coherent stk" and ok: "handlers_ok stk pend hs"
    and out: "\<And>h. h \<notin> set (stk es) \<Longrightarrow> f h = hs h"
    and inn: "\<And>h. h \<in> set (stk es) \<Longrightarrow> \<exists>mh mh'. hs h = Some mh \<and> f h = Some mh' \<and> removeOpenState es mh = Inr mh'"
    and nw: "\<And>h mh. hs h = Some mh \<Longrightarrow> es \<notin> set (waiting mh)"
  shows "handlers_ok (stk(es := [])) (mset (stk es) + pend) f"
proof -
  let ?stk = "stk(es := [])"
  have hold: "holders ?stk h = holders stk h - {es}" for h by (auto simp: holders_def)
  have d: "distinct (stk es)" by (rule coherent_distinct[OF stk])
  have cnt: "count (mset (stk es)) h = (if h \<in> set (stk es) then 1 else 0)" for h
    using d by (auto simp: distinct_count_atmost_1)
  show ?thesis
    unfolding handlers_ok_def
  proof (intro conjI allI impI)
    fix h assume "f h = None"
    then have n: "h \<notin> set (stk es)" "hs h = None" using inn[of h] out[of h] by (force, force)
    with handlers_okD(1,2)[OF ok n(2)] show "holders ?stk h = {}" "h \<notin># mset (stk es) + pend"
      by (auto simp: hold)
  next
    fix h mh' assume h: "f h = Some mh'"
    obtain mh where mh: "hs h = Some mh" "waiting mh' = waiting mh" "refCount mh' = refCount mh"
      "mset (openStates mh') = mset_set (holders ?stk h)"
    proof (cases "h \<in> set (stk es)")
      case True
      with inn h obtain mh where m: "hs h = Some mh" "removeOpenState es mh = Inr mh'" by fastforce
      note H = handler_okD[OF handlers_okD(3)[OF ok m(1)]]
      have "es \<in> holders stk h" using True by (simp add: holders_def)
      then have "mset (openStates mh') = mset_set (holders ?stk h)"
        using removeOpenState_ok(2)[OF m(2)] H(1,2) by (simp add: hold mset_set_Diff)
      with m removeOpenState_ok(3,4)[OF m(2)] that show thesis by blast
    next
      case False
      then have "holders ?stk h = holders stk h" by (auto simp: hold holders_def)
      with h out[OF False] handler_okD(2)[OF handlers_okD(3)[OF ok, of h mh']] that show thesis by simp
    qed
    note H = handler_okD[OF handlers_okD(3)[OF ok mh(1)]]
    show "handler_ok ?stk (mset (stk es) + pend) h mh'"
      unfolding handler_ok_def mh(2,3)
    proof (intro conjI ballI allI impI)
      show "refCount mh = card (holders ?stk h) + count (mset (stk es) + pend) h"
      proof (cases "h \<in> set (stk es)")
        case True
        then have "es \<in> holders stk h" by (simp add: holders_def)
        then have "card (holders stk h) = Suc (card (holders ?stk h))"
          unfolding hold by (rule card.remove[OF H(1)])
        moreover have "count (mset (stk es) + pend) h = Suc (count pend h)" using True cnt[of h] by simp
        ultimately show ?thesis using H(3) by linarith
      next
        case False
        then have "holders ?stk h = holders stk h" by (auto simp: hold holders_def)
        moreover have "count (mset (stk es) + pend) h = count pend h" using False cnt[of h] by simp
        ultimately show ?thesis using H(3) by simp
      qed
      fix U V i assume U: "U \<in> set (waiting mh)" and i: "i < length (?stk V)" "?stk V ! i = h"
      have "U \<noteq> es" using U nw[OF mh(1)] by blast
      moreover have "V \<noteq> es" using i(1) by (cases "V = es") simp_all
      ultimately show "?stk U = take i (?stk V)" using H(6)[OF U, of i V] i by simp
    qed (use H mh(4) in \<open>simp_all add: hold\<close>)
  qed
qed

context bag_searcher
begin

lemma drop_all_ok:
  assumes "each (drop_reference cf del) hs ex = Inr ex'" "executor_ok content ok D (mset hs + pend) ex"
    "base_update cf = upd"
  shows "executor_ok content ok D pend ex' \<and> freed ex ex'"
  using assms
proof (induction hs arbitrary: ex)
  case (Cons h hs)
  then obtain ex1 where ex1: "drop_reference cf del h ex = Inr ex1" "each (drop_reference cf del) hs ex1 = Inr ex'"
    by auto
  have inv: "executor_ok content ok D (add_mset h (mset hs + pend)) ex" using Cons.prems(2) by simp
  from drop_reference_ok[OF inv Cons.prems(3) ex1(1)]
  have "executor_ok content ok D (mset hs + pend) ex1" "freed ex ex1"
    using released_freed[OF inv] by blast+
  with Cons.IH[OF ex1(2) _ Cons.prems(3)] show ?case using freed_trans by blast
qed (simp add: freed_refl)

lemma after_leave:
  assumes inv: "executor_ok content ok D pend ex"
    and es: "es \<in> D \<or> es \<in> set (addedStates ex)" "es \<notin> set (pausedStates (mergingSearcher ex))"
    and s: "est ex es = Some s"
    and l: "each (leave_handler es) (openMergeStack s)
      (ex\<lparr>states := states ex - {es}, addedStates := remove1 es (addedStates ex)\<rparr>) = Inr ex1"
  shows "executor_ok content ok (D - {es}) (mset (openMergeStack s) + pend) (ex1\<lparr>est := (est ex1)(es := None)\<rparr>)"
    "freed (ex\<lparr>est := (est ex)(es := None), states := states ex - {es},
          addedStates := remove1 es (addedStates ex)\<rparr>) (ex1\<lparr>est := (est ex1)(es := None)\<rparr>)"
    "\<exists>f. ex1 = ex\<lparr>states := states ex - {es}, addedStates := remove1 es (addedStates ex), handlers := f\<rparr>"
proof -
  note E = executor_okD[OF inv]
  let ?ex = "ex\<lparr>states := states ex - {es}, addedStates := remove1 es (addedStates ex)\<rparr>"
  have st: "stack_of ex es = openMergeStack s" using s by (simp add: stack_of_def)
  from each_leave[OF l] coherent_distinct[OF E(5), of es] obtain f where f: "ex1 = ?ex\<lparr>handlers := f\<rparr>"
    "\<And>h. h \<notin> set (stack_of ex es) \<Longrightarrow> f h = handlers ex h"
    "\<And>h. h \<in> set (stack_of ex es) \<Longrightarrow>
       \<exists>mh mh'. handlers ex h = Some mh \<and> f h = Some mh' \<and> removeOpenState es mh = Inr mh'"
    by (auto simp: st)
  let ?ex2 = "ex1\<lparr>est := (est ex1)(es := None)\<rparr>"
  have st2: "stack_of ?ex2 = (stack_of ex)(es := [])" by (auto simp: stack_of_def f(1))
  have nw: "es \<notin> set (waiting mh)" if "handlers ex h = Some mh" for h mh
    using waiting_paused[OF inv that] es(2) by blast
  have hs: "handlers_ok (stack_of ?ex2) (mset (openMergeStack s) + pend) f"
    unfolding st2 st[symmetric] by (rule handlers_ok_leave[OF E(5,6) f(2,3) nw])
  have "map_option waiting (f h) = map_option waiting (handlers ex h)" for h
    using f(2)[of h] f(3)[of h] removeOpenState_ok(4) by (cases "h \<in> set (stack_of ex es)") force+
  then have w: "waiting_ok f (mergingSearcher ex)" by (rule waiting_ok_pointwise[OF E(7)])
  show "executor_ok content ok (D - {es}) (mset (openMergeStack s) + pend) ?ex2"
    unfolding executor_ok_def st2
  proof (intro conjI)
    show "coherent ((stack_of ex)(es := []))" by (rule coherent_clear[OF E(5)])
    show "handlers_ok ((stack_of ex)(es := [])) (mset (openMergeStack s) + pend) (handlers ?ex2)"
      using hs unfolding st2 by (simp add: f(1))
    show "dom (est ?ex2) = states ?ex2 \<union> set (addedStates ?ex2)" using E(2-4) by (auto simp: f(1))
    show "states ?ex2 \<inter> set (addedStates ?ex2) = {}" using E(3,4) by (auto simp: f(1))
    show "set_mset (merging_content content (mergingSearcher ?ex2)) = states ?ex2 - (D - {es})"
      using E(3,10) es(1) by (auto simp: f(1))
  qed (use E w in \<open>auto simp: f(1)\<close>)
  show "freed (ex\<lparr>est := (est ex)(es := None), states := states ex - {es},
      addedStates := remove1 es (addedStates ex)\<rparr>) ?ex2"
    by (auto simp: freed_def stack_of_def f(1))
  show "\<exists>f. ex1 = ex\<lparr>states := states ex - {es}, addedStates := remove1 es (addedStates ex), handlers := f\<rparr>"
    using f(1) by blast
qed

lemma delete_before_drop:
  assumes inv: "executor_ok content ok D pend ex" and cf: "base_update cf = upd"
    and es: "es \<in> D \<or> es \<in> set (addedStates ex)" "es \<notin> set (pausedStates (mergingSearcher ex))"
    and run: "delete_state cf n es
      (ex\<lparr>states := states ex - {es}, addedStates := remove1 es (addedStates ex)\<rparr>) = Inr ex'"
  shows "\<exists>ex2 s k. est ex es = Some s \<and> est ex2 = (est ex)(es := None) \<and> removedStates ex2 = removedStates ex
    \<and> mergingSearcher ex2 = mergingSearcher ex
    \<and> executor_ok content ok (D - {es}) (mset (openMergeStack s) + pend) ex2
    \<and> each (drop_reference cf (delete_state cf k)) (openMergeStack s) ex2 = Inr ex'
    \<and> freed (ex\<lparr>est := (est ex)(es := None), states := states ex - {es},
          addedStates := remove1 es (addedStates ex)\<rparr>) ex2"
proof -
  let ?ex = "ex\<lparr>states := states ex - {es}, addedStates := remove1 es (addedStates ex)\<rparr>"
  obtain k s ex1 where s: "est ex es = Some s" and l: "each (leave_handler es) (openMergeStack s) ?ex = Inr ex1"
    and d: "each (drop_reference cf (delete_state cf k)) (openMergeStack s)
      (ex1\<lparr>est := (est ex1)(es := None)\<rparr>) = Inr ex'"
    using run by (cases n) auto
  note L = after_leave[OF inv es s l]
  then obtain f where f: "ex1 = ?ex\<lparr>handlers := f\<rparr>" by auto
  show ?thesis
    using s d L(1,2) by (intro exI[of _ "ex1\<lparr>est := (est ex1)(es := None)\<rparr>"] exI[of _ s] exI[of _ k] conjI)
      (simp_all add: f)
qed

lemma delete_state_ok:
  assumes inv: "executor_ok content ok D pend ex" and cf: "base_update cf = upd"
    and es: "es \<in> D \<or> es \<in> set (addedStates ex)" "es \<notin> set (pausedStates (mergingSearcher ex))"
    and run: "delete_state cf n es
      (ex\<lparr>states := states ex - {es}, addedStates := remove1 es (addedStates ex)\<rparr>) = Inr ex'"
  shows "executor_ok content ok (D - {es}) pend ex' \<and>
    freed (ex\<lparr>est := (est ex)(es := None), states := states ex - {es},
              addedStates := remove1 es (addedStates ex)\<rparr>) ex'"
proof -
  obtain ex2 k and s :: exec_state where "each (drop_reference cf (delete_state cf k)) (openMergeStack s) ex2 = Inr ex'"
    "executor_ok content ok (D - {es}) (mset (openMergeStack s) + pend) ex2"
    and f: "freed (ex\<lparr>est := (est ex)(es := None), states := states ex - {es},
          addedStates := remove1 es (addedStates ex)\<rparr>) ex2"
    using delete_before_drop[OF assms] by blast
  from drop_all_ok[OF this(1,2) cf] freed_trans[OF f] show ?thesis by blast
qed

end

end
