(* ===== verification/MergeRun.thy ===== *)
theory MergeRun
  imports MergeProtocol
begin

text \<open>
  The steps of \<open>Executor::run\<close> as far as merging sees them: the selected state computes, forks,
  stops, opens and closes merge regions, then \<open>updateStates\<close> settles what changed. Each operation
  keeps the protocol's invariant, so every run does, and no run is ever blocked.
\<close>

lemma stack_of_fields [simp]:
  "stack_of (ex\<lparr>removedStates := r\<rparr>) = stack_of ex" "stack_of (ex\<lparr>pathsExplored := p\<rparr>) = stack_of ex"
  "stack_of (ex\<lparr>heap := st\<rparr>) = stack_of ex" "stack_of (ex\<lparr>mergingSearcher := m\<rparr>) = stack_of ex"
  by (auto simp: stack_of_def)

section \<open>Forking\<close>

lemma coherent_comp: "coherent stk \<Longrightarrow> coherent (\<lambda>U. stk (g U))"
  unfolding coherent_def by blast

lemma coherent_copy:
  assumes "coherent stk"
  shows "coherent (stk(es' := stk es))"
proof -
  have "stk(es' := stk es) = (\<lambda>U. stk (if U = es' then es else U))" by auto
  then show ?thesis using coherent_comp[OF assms, of "\<lambda>U. if U = es' then es else U"] by simp
qed

definition joined :: "nat \<Rightarrow> merge_handler \<Rightarrow> merge_handler \<Rightarrow> bool" where
  "joined es' mh mh' \<longleftrightarrow> mh' = addOpenState es' (mh\<lparr>refCount := refCount mh + 1\<rparr>)"

lemma joined_ok:
  assumes "joined es' mh mh'"
  shows "openStates mh' = openStates mh @ [es']" "refCount mh' = Suc (refCount mh)" "waiting mh' = waiting mh"
  using assms by (simp_all add: joined_def addOpenState_def waiting_def)

lemma inherit_handler_Inr: "inherit_handler es' h ex = Inr ex' \<Longrightarrow>
    \<exists>mh mh'. handlers ex h = Some mh \<and> joined es' mh mh' \<and> ex' = put_handler h mh' ex"
  by (auto simp: inherit_handler_def joined_def)

lemma each_inherit:
  assumes "each (inherit_handler es') hs ex = Inr ex'" "distinct hs"
  shows "\<exists>f. ex' = ex\<lparr>handlers := f\<rparr> \<and> (\<forall>h. h \<notin> set hs \<longrightarrow> f h = handlers ex h)
    \<and> (\<forall>h \<in> set hs. \<exists>mh mh'. handlers ex h = Some mh \<and> f h = Some mh' \<and> joined es' mh mh')"
  by (rule each_handler[OF assms inherit_handler_Inr])

lemma handlers_ok_join:
  assumes ok: "handlers_ok stk pend hs" and new: "stk es' = []"
    and out: "\<And>h. h \<notin> set (stk es) \<Longrightarrow> f h = hs h"
    and inn: "\<And>h. h \<in> set (stk es) \<Longrightarrow> \<exists>mh mh'. hs h = Some mh \<and> f h = Some mh' \<and> joined es' mh mh'"
    and nw: "\<And>h mh. hs h = Some mh \<Longrightarrow> es' \<notin> set (waiting mh)"
  shows "handlers_ok (stk(es' := stk es)) pend f"
proof -
  let ?stk = "stk(es' := stk es)"
  have hold: "holders ?stk h = (if h \<in> set (stk es) then insert es' (holders stk h) else holders stk h)"
    and fresh: "es' \<notin> holders stk h" for h
    using new by (auto simp: holders_def)
  show ?thesis
    unfolding handlers_ok_def
  proof (intro conjI allI impI)
    fix h assume "f h = None"
    then have n: "h \<notin> set (stk es)" "hs h = None" using inn[of h] out[of h] by (force, force)
    with handlers_okD(1,2)[OF ok n(2)] show "holders ?stk h = {}" "h \<notin># pend" by (simp_all add: hold)
  next
    fix h mh' assume h: "f h = Some mh'"
    obtain mh where mh: "hs h = Some mh" "waiting mh' = waiting mh"
      "mset (openStates mh') = mset_set (holders ?stk h)"
      "refCount mh' = card (holders ?stk h) + count pend h" "0 < refCount mh'" "finite (holders ?stk h)"
    proof (cases "h \<in> set (stk es)")
      case True
      with inn h obtain mh where m: "hs h = Some mh" "joined es' mh mh'" by fastforce
      note H = handler_okD[OF handlers_okD(3)[OF ok m(1)]]
      show thesis
        by (rule that[OF m(1)]) (use True H(1-4) joined_ok[OF m(2)] fresh in \<open>simp_all add: hold\<close>)
    next
      case False
      with h out[OF False] have "hs h = Some mh'" by simp
      note H = handler_okD[OF handlers_okD(3)[OF ok this]]
      show thesis by (rule that[OF \<open>hs h = Some mh'\<close>]) (use False H(1-4) in \<open>simp_all add: hold\<close>)
    qed
    note H = handler_okD[OF handlers_okD(3)[OF ok mh(1)]]
    show "handler_ok ?stk pend h mh'"
      unfolding handler_ok_def mh(2)
    proof (intro conjI ballI allI impI)
      fix U V i assume U: "U \<in> set (waiting mh)" and i: "i < length (?stk V)" "?stk V ! i = h"
      have "U \<noteq> es'" using U nw[OF mh(1)] by blast
      then show "?stk U = take i (?stk V)"
        using H(6)[OF U, of i V] H(6)[OF U, of i es] i by (cases "V = es'") simp_all
    qed (use H(5) mh(3-6) in simp_all)
  qed
qed

lemma merging_fields [simp]: "merging_content content (mergingSearcher (ex\<lparr>addedStates := a\<rparr>))
    = merging_content content (mergingSearcher ex)"
  by simp

lemma fork_state_ok:
  assumes inv: "executor_ok content ok D pend ex" and new: "est ex es' = None"
    and run: "fork_state es es' ex = Inr ex'"
  shows "executor_ok content ok D pend ex' \<and> addedStates ex' = addedStates ex @ [es']
    \<and> removedStates ex' = removedStates ex \<and> mergingSearcher ex' = mergingSearcher ex
    \<and> states ex' = states ex"
proof -
  note E = executor_okD[OF inv]
  obtain s where s1: "est ex es = Some s" using run by (auto simp: fork_state_def)
  obtain t u where s2: "branch s = (t, u)" by fastforce
  note s = s1 s2
  obtain ex1 where
    e: "each (inherit_handler es') (openMergeStack s) (put_state es' u (put_state es t ex)) = Inr ex1"
    and ex': "ex' = ex1\<lparr>addedStates := addedStates ex1 @ [es']\<rparr>"
    using run s by (auto simp: fork_state_def)
  have tu: "openMergeStack t = openMergeStack s" "openMergeStack u = openMergeStack s"
    using s(2) by (auto simp: branch_def copy_ExecutionState_def split: prod.splits)
  have st: "stack_of ex es = openMergeStack s" "stack_of ex es' = []"
    using s new by (simp_all add: stack_of_def)
  have d: "distinct (openMergeStack s)" using coherent_distinct[OF E(5), of es] st by simp
  from each_inherit[OF e d] obtain f where f: "ex1 = (put_state es' u (put_state es t ex))\<lparr>handlers := f\<rparr>"
    "\<And>h. h \<notin> set (stack_of ex es) \<Longrightarrow> f h = handlers ex h"
    "\<And>h. h \<in> set (stack_of ex es) \<Longrightarrow>
       \<exists>mh mh'. handlers ex h = Some mh \<and> f h = Some mh' \<and> joined es' mh mh'"
    by (auto simp: st put_state_def)
  have ne: "es \<noteq> es'" using s(1) new by auto
  have st': "stack_of ex' = (stack_of ex)(es' := stack_of ex es)"
    using ne s(1) by (auto simp: stack_of_def ex' f(1) put_state_def tu)
  have free: "es' \<notin> states ex" "es' \<notin> set (addedStates ex)" using E(2) new by (auto simp: domIff)
  have nw: "es' \<notin> set (waiting mh)" if "handlers ex h = Some mh" for h mh
    using waiting_paused[OF inv that] E(10) free(1) by (auto simp: merging_content_def)
  have hs: "handlers_ok (stack_of ex') pend f"
    unfolding st' by (rule handlers_ok_join[OF E(6) st(2) f(2,3) nw])
  have "map_option waiting (f h) = map_option waiting (handlers ex h)" for h
    using f(2)[of h] f(3)[of h] joined_ok(3) by (cases "h \<in> set (stack_of ex es)") force+
  then have w: "waiting_ok f (mergingSearcher ex)" by (rule waiting_ok_pointwise[OF E(7)])
  have "executor_ok content ok D pend ex'"
    unfolding executor_ok_def
  proof (intro conjI)
    show "coherent (stack_of ex')" unfolding st' by (rule coherent_copy[OF E(5)])
    show "handlers_ok (stack_of ex') pend (handlers ex')" using hs by (simp add: ex' f(1))
    have "dom (est ex) = insert es (dom (est ex))" using s(1) by auto
    then show "dom (est ex') = states ex' \<union> set (addedStates ex')"
      using E(2) by (auto simp: ex' f(1) put_state_def)
  qed (use E w free in \<open>simp_all add: ex' f(1) put_state_def\<close>)
  then show ?thesis by (simp add: ex' f(1) put_state_def)
qed

section \<open>Opening and closing a region\<close>

lemma coherent_push:
  assumes stk: "coherent stk" and new: "\<And>V. h \<notin> set (stk V)"
  shows "coherent (stk(es := stk es @ [h]))"
  unfolding coherent_def
proof (intro allI impI)
  let ?s = "stk(es := stk es @ [h])"
  have t: "i < length (?s U) \<Longrightarrow> take i (?s U) = take i (stk U) \<and>
      (i < length (stk U) \<and> ?s U ! i = stk U ! i \<or> U = es \<and> i = length (stk es) \<and> ?s U ! i = h)" for U i
    by (auto simp: nth_append less_Suc_eq)
  have n: "i < length (stk U) \<Longrightarrow> stk U ! i \<noteq> h" for U i using new[of U] by force
  fix U V i j
  assume a: "i < length (?s U)" "j < length (?s V)" "?s U ! i = ?s V ! j"
  have "take i (stk U) = take j (stk V)"
    using t[OF a(1)] t[OF a(2)] n[of i U] n[of j V] coherentD[OF stk, of i U j V] a(3) by auto
  with t[OF a(1)] t[OF a(2)] show "take i (?s U) = take j (?s V)" by simp
qed

lemma handleOpenMerge_ok:
  assumes inv: "executor_ok content ok D pend ex" and new: "handlers ex h = None"
    and es: "es \<notin> set (pausedStates (mergingSearcher ex))"
    and run: "handleOpenMerge cf h es ex = Inr ex'"
  shows "executor_ok content ok D pend ex' \<and> states ex' = states ex \<and> addedStates ex' = addedStates ex
    \<and> removedStates ex' = removedStates ex
    \<and> (\<exists>gs. mergingSearcher ex' = (mergingSearcher ex)\<lparr>mergeGroups := gs\<rparr>)"
proof (cases "useMerge cf")
  case False
  with run inv show ?thesis by (auto simp: handleOpenMerge_def intro: exI[of _ "mergeGroups (mergingSearcher ex)"])
next
  case True
  note E = executor_okD[OF inv]
  note W = waiting_okD[OF E(7)]
  let ?m = "(mergingSearcher ex)\<lparr>mergeGroups := mergeGroups (mergingSearcher ex) @ [h]\<rparr>"
  obtain s where s: "est ex es = Some s" and ex': "ex' = put_state es (s\<lparr>openMergeStack := openMergeStack s @ [h]\<rparr>)
      (put_handler h (new_MergeHandler es s) (ex\<lparr>mergingSearcher := ?m\<rparr>))"
    using run True by (auto simp: handleOpenMerge_def)
  have st: "stack_of ex es = openMergeStack s" using s by (simp add: stack_of_def)
  let ?stk = "(stack_of ex)(es := stack_of ex es @ [h])"
  have st': "stack_of ex' = ?stk"
    by (auto simp: stack_of_def ex' put_state_def put_handler_def st[unfolded stack_of_def, symmetric])
  have no: "h \<notin> set (stack_of ex V)" for V
    using handlers_okD(1)[OF E(6) new] by (auto simp: holders_def)
  have np: "count pend h = 0" using handlers_okD(2)[OF E(6) new] by (simp add: count_eq_zero_iff)
  have hold: "holders ?stk h' = (if h' = h then {es} else holders (stack_of ex) h')" for h'
    using no by (auto simp: holders_def)
  let ?h = "new_MergeHandler es s"
  have nh: "openStates ?h = [es]" "refCount ?h = 1" "waiting ?h = []"
    by (simp_all add: new_MergeHandler_def addOpenState_def waiting_def)
  have "handlers_ok ?stk pend ((handlers ex)(h \<mapsto> ?h))"
    unfolding handlers_ok_def
  proof (intro conjI allI impI)
    fix h' assume "((handlers ex)(h \<mapsto> ?h)) h' = None"
    then have n: "h' \<noteq> h" "handlers ex h' = None" by (auto split: if_splits)
    with handlers_okD(1,2)[OF E(6) n(2)] show "holders ?stk h' = {}" "h' \<notin># pend" by (simp_all add: hold)
  next
    fix h' mh assume a: "((handlers ex)(h \<mapsto> ?h)) h' = Some mh"
    show "handler_ok ?stk pend h' mh"
    proof (cases "h' = h")
      case True
      with a nh np show ?thesis by (simp add: handler_ok_def hold)
    next
      case False
      with a have b: "handlers ex h' = Some mh" by simp
      note H = handler_okD[OF handlers_okD(3)[OF E(6) b]]
      show ?thesis
        unfolding handler_ok_def
      proof (intro conjI ballI allI impI)
        fix U V i assume U: "U \<in> set (waiting mh)" and i: "i < length (?stk V)" "?stk V ! i = h'"
        have "U \<noteq> es" using U waiting_paused[OF inv b] es by blast
        moreover have "i < length (stack_of ex V)" "stack_of ex V ! i = h'"
          using i False by (cases "V = es"; auto simp: nth_append less_Suc_eq)+
        moreover have "take i (?stk V) = take i (stack_of ex V)" using calculation(2) by (cases "V = es") simp_all
        ultimately show "?stk U = take i (?stk V)" using H(6)[OF U, of i V] by simp
      qed (use H(1-5) False in \<open>simp_all add: hold\<close>)
    qed
  qed
  moreover have "waiting_ok ((handlers ex)(h \<mapsto> ?h)) ?m"
    unfolding waiting_ok_def
  proof (intro conjI allI impI)
    show "U \<in> set (pausedStates ?m) \<longleftrightarrow> (\<exists>h' mh. ((handlers ex)(h \<mapsto> ?h)) h' = Some mh \<and> U \<in> set (waiting mh))" for U
    proof -
      have "(\<exists>h' mh. ((handlers ex)(h \<mapsto> ?h)) h' = Some mh \<and> U \<in> set (waiting mh))
          \<longleftrightarrow> (\<exists>h' mh. h' \<noteq> h \<and> handlers ex h' = Some mh \<and> U \<in> set (waiting mh))"
        using nh(3) by (auto split: if_splits)
      also have "\<dots> \<longleftrightarrow> (\<exists>h' mh. handlers ex h' = Some mh \<and> U \<in> set (waiting mh))"
        using new by (metis option.discI)
      finally show ?thesis using W(2)[of U] by simp
    qed
    show "h' = h''" if "((handlers ex)(h \<mapsto> ?h)) h' = Some m1" "((handlers ex)(h \<mapsto> ?h)) h'' = Some m2"
      "U \<in> set (waiting m1)" "U \<in> set (waiting m2)" for h' h'' m1 m2 U
      using W(3)[of h' m1 h'' m2 U] that nh(3) by (auto split: if_splits)
  qed (use W(1,4,5) new in auto)
  moreover have "dom (est ex') = dom (est ex)" using s by (auto simp: ex')
  moreover have "coherent ?stk" by (rule coherent_push[OF E(5) no])
  ultimately have "executor_ok content ok D pend ex'"
    using E unfolding executor_ok_def st' by (simp add: ex' put_state_def put_handler_def merging_content_def merging_ok_def)
  then show ?thesis by (auto simp: ex' put_state_def put_handler_def)
qed

text \<open>
  A state that closes its innermost region: it waits in the handler, whose reference it still
  owns until the stack is popped.
\<close>

lemma handlers_ok_close:
  assumes stk: "coherent stk" and ok: "handlers_ok stk pend hs" and h: "hs h = Some mh"
    and es: "stk es \<noteq> []" "h = last (stk es)"
    and mh': "mset (openStates mh') = mset (openStates mh) - {#es#}" "refCount mh' = refCount mh"
      "mset (waiting mh') = add_mset es (mset (waiting mh))"
    and nw: "\<And>h mh. hs h = Some mh \<Longrightarrow> es \<notin> set (waiting mh)"
  shows "handlers_ok (stk(es := butlast (stk es))) (add_mset h pend) (hs(h \<mapsto> mh'))"
proof -
  let ?stk = "stk(es := butlast (stk es))"
  have d: "distinct (stk es)" by (rule coherent_distinct[OF stk])
  have eq: "stk es = butlast (stk es) @ [h]" using es by simp
  have out: "h \<notin> set (butlast (stk es))" using d by (subst (asm) eq) simp
  have sub: "h' \<in> set (butlast (stk es)) \<longleftrightarrow> h' \<noteq> h \<and> h' \<in> set (stk es)" for h'
    using out by (subst (2) eq) auto
  have hold: "holders ?stk h' = (if h' = h then holders stk h - {es} else holders stk h')" for h'
    using sub by (auto simp: holders_def)
  have inh: "es \<in> holders stk h" using es last_in_set by (simp add: holders_def)
  have pre: "i < length (?stk V) \<Longrightarrow> i < length (stk V) \<and> ?stk V ! i = stk V ! i \<and> take i (?stk V) = take i (stk V)" for V i
    by (auto simp: nth_butlast take_butlast)
  show ?thesis
    unfolding handlers_ok_def
  proof (intro conjI allI impI)
    fix h' assume "(hs(h \<mapsto> mh')) h' = None"
    then have n: "h' \<noteq> h" "hs h' = None" by (auto split: if_splits)
    with handlers_okD(1,2)[OF ok n(2)] show "holders ?stk h' = {}" "h' \<notin># add_mset h pend" by (simp_all add: hold)
  next
    fix h' m assume a: "(hs(h \<mapsto> mh')) h' = Some m"
    obtain m0 where m0: "hs h' = Some m0" "set (waiting m) = (if h' = h then insert es (set (waiting m0)) else set (waiting m0))"
      "distinct (waiting m)" "mset (openStates m) = mset_set (holders ?stk h')"
      "refCount m = card (holders ?stk h') + count (add_mset h pend) h'" "0 < refCount m" "finite (holders ?stk h')"
    proof (cases "h' = h")
      case True
      note H = handler_okD[OF handlers_okD(3)[OF ok h]]
      have m: "m = mh'" using a True by simp
      have "card (holders stk h) = Suc (card (holders stk h - {es}))" by (rule card.remove[OF H(1) inh])
      moreover have "set (waiting mh') = insert es (set (waiting mh))"
        using arg_cong[OF mh'(3), of set_mset] by simp
      moreover have "distinct (waiting mh')"
        using H(5) nw[OF h] mset_eq_imp_distinct_iff[of "waiting mh'" "es # waiting mh"] mh'(3) by simp
      moreover have "mset (openStates mh') = mset_set (holders stk h - {es})"
        using mh'(1) H(1,2) inh by (simp add: mset_set_Diff)
      ultimately show thesis
        using True H(1-4) h mh'(2) by (intro that[of mh]) (simp_all add: m hold)
    next
      case False
      with a have b: "hs h' = Some m" by simp
      note H = handler_okD[OF handlers_okD(3)[OF ok b]]
      show thesis by (rule that[OF b]) (use False H(1-5) in \<open>simp_all add: hold\<close>)
    qed
    note H = handler_okD[OF handlers_okD(3)[OF ok m0(1)]]
    show "handler_ok ?stk (add_mset h pend) h' m"
      unfolding handler_ok_def
    proof (intro conjI ballI allI impI)
      fix U V i assume U: "U \<in> set (waiting m)" and i: "i < length (?stk V)" "?stk V ! i = h'"
      note p = pre[OF i(1)]
      show "?stk U = take i (?stk V)"
      proof (cases "h' = h \<and> U = es")
        case True
        have "stk es ! length (butlast (stk es)) = h" by (metis eq nth_append_length)
        then have "stk es ! length (butlast (stk es)) = stk V ! i" using True i(2) p by simp
        then have "take (length (butlast (stk es))) (stk es) = take i (stk V)"
          using p es by (intro coherentD[OF stk]) simp_all
        with True p show ?thesis by (simp add: butlast_conv_take)
      next
        case False
        with m0(2) U have "U \<in> set (waiting m0)" by (auto split: if_splits)
        with H(6)[of U i V] p i nw[OF m0(1)] show ?thesis by auto
      qed
    qed (use m0(3-7) in simp_all)
  qed
qed

lemma waiting_ok_close:
  assumes ok: "waiting_ok hs m" and h: "hs h = Some mh" and es: "es \<notin> set (pausedStates m)"
    and w: "mset (waiting mh') = add_mset es (mset (waiting mh))"
  shows "waiting_ok (hs(h \<mapsto> mh')) (m\<lparr>mg_base := b, pausedStates := pausedStates m @ [es],
    inCloseMerge := insert es (inCloseMerge m)\<rparr>)"
  unfolding waiting_ok_def
proof (intro conjI allI impI)
  note W = waiting_okD[OF ok]
  have s: "set (waiting mh') = insert es (set (waiting mh))" using arg_cong[OF w, of set_mset] by simp
  let ?m = "m\<lparr>mg_base := b, pausedStates := pausedStates m @ [es], inCloseMerge := insert es (inCloseMerge m)\<rparr>"
  show "U \<in> set (pausedStates ?m) \<longleftrightarrow> (\<exists>h' mm. (hs(h \<mapsto> mh')) h' = Some mm \<and> U \<in> set (waiting mm))" for U
  proof (cases "U = es")
    case True
    with s show ?thesis by auto
  next
    case False
    have "(\<exists>h' mm. hs h' = Some mm \<and> U \<in> set (waiting mm))
        \<longleftrightarrow> (\<exists>h' mm. (hs(h \<mapsto> mh')) h' = Some mm \<and> U \<in> set (waiting mm))"
      using s h False by (auto split: if_splits) (metis option.inject)
    with W(2)[of U] False show ?thesis by simp
  qed
  show "h' = h''" if a: "(hs(h \<mapsto> mh')) h' = Some m1" "(hs(h \<mapsto> mh')) h'' = Some m2"
    "U \<in> set (waiting m1)" "U \<in> set (waiting m2)" for h' h'' m1 m2 U
  proof (cases "U = es")
    case True
    have "g = h" if "(hs(h \<mapsto> mh')) g = Some mm" "U \<in> set (waiting mm)" for g mm
      using that True W(2)[of es] es by (auto split: if_splits)
    with a show ?thesis by metis
  next
    case False
    have "\<exists>m0. hs g = Some m0 \<and> U \<in> set (waiting m0)" if "(hs(h \<mapsto> mh')) g = Some mm" "U \<in> set (waiting mm)" for g mm
      using that False s h by (auto split: if_splits)
    with a W(3) show ?thesis by metis
  qed
qed (use waiting_okD[OF ok] h in auto)

context bag_searcher
begin

lemma close_before_drop:
  assumes inv: "executor_ok content ok D pend ex" and cf: "base_update cf = upd"
    and es: "es \<in># content (mg_base (mergingSearcher ex))" and True: "useMerge cf \<and> stack_of ex es \<noteq> []"
    and run: "handleCloseMerge cf n es mp ex = Inr ex'"
  shows "\<exists>ex2 s mh mh'. est ex es = Some s \<and> handlers ex (last (stack_of ex es)) = Some mh
    \<and> est ex2 = (est ex)(es \<mapsto> s\<lparr>openMergeStack := butlast (openMergeStack s)\<rparr>)
    \<and> removedStates ex2 = removedStates ex \<and> states ex2 = states ex \<and> addedStates ex2 = addedStates ex
    \<and> handlers ex2 (last (stack_of ex es)) = Some mh' \<and> set (waiting mh') = insert es (set (waiting mh))
    \<and> set (pausedStates (mergingSearcher ex2)) = insert es (set (pausedStates (mergingSearcher ex)))
    \<and> executor_ok content ok D (add_mset (last (stack_of ex es)) pend) ex2
    \<and> drop_reference cf (delete_state cf n) (last (stack_of ex es)) ex2 = Inr ex'"
proof -
  note E = executor_okD[OF inv]
  note W = waiting_okD[OF E(7)]
  let ?m = "mergingSearcher ex" and ?h = "last (stack_of ex es)"
  have np: "es \<notin> set (pausedStates ?m)"
    using single_disjoint[of "content (mg_base ?m)" "mset (pausedStates ?m)" es] E(8) es
    by (simp add: merging_ok_def merging_content_def)
  let ?mi = "?m\<lparr>inCloseMerge := insert es (inCloseMerge ?m)\<rparr>"
  obtain s where s: "est ex es = Some s" using True by (auto simp: stack_of_def split: option.splits)
  then have st: "stack_of ex es = openMergeStack s" by (simp add: stack_of_def)
  obtain ex1 where a: "addClosedState cf ?h es mp (ex\<lparr>mergingSearcher := ?mi\<rparr>) = Inr ex1"
    and d: "drop_reference cf (delete_state cf n) ?h
      (put_state es (s\<lparr>openMergeStack := butlast (openMergeStack s)\<rparr>) ex1) = Inr ex'"
    using run True s st by (auto simp: handleCloseMerge_def Let_def)
  have mi: "merging_ok content ok ?mi" "es \<in># content (mg_base ?mi)"
    using E(8) es by (simp_all add: merging_ok_def merging_content_def)
  from pauseState_law[OF this] obtain b where b: "pauseState upd es ?mi = Inr (?mi\<lparr>mg_base := b,
      pausedStates := pausedStates ?mi @ [es]\<rparr>)" "content b = content (mg_base ?m) - {#es#}"
    "merging_ok content ok (?mi\<lparr>mg_base := b, pausedStates := pausedStates ?mi @ [es]\<rparr>)"
    by auto
  obtain mh mh' where h: "handlers ex ?h = Some mh" and rc: "record_closed es s mp mh = Inr mh'"
    and e1: "ex1 = put_handler ?h mh' (ex\<lparr>mergingSearcher :=
        ?mi\<lparr>mg_base := b, pausedStates := pausedStates ?mi @ [es]\<rparr>\<rparr>)"
    using a s b(1) cf by (auto simp: addClosedState_def)
  note R = record_closed_ok[OF rc]
  let ?ex2 = "put_state es (s\<lparr>openMergeStack := butlast (openMergeStack s)\<rparr>) ex1"
  let ?m2 = "?m\<lparr>mg_base := b, pausedStates := pausedStates ?m @ [es], inCloseMerge := insert es (inCloseMerge ?m)\<rparr>"
  have st2: "stack_of ?ex2 = (stack_of ex)(es := butlast (stack_of ex es))"
    by (simp add: st) (auto simp: stack_of_def e1 put_handler_def)
  have m2: "mergingSearcher ?ex2 = ?m2" by (simp add: e1)
  have nw: "es \<notin> set (waiting w)" if "handlers ex g = Some w" for g w
    using waiting_paused[OF inv that] np by blast
  have mc: "merging_content content ?m2 = merging_content content ?m"
    using es by (simp add: merging_content_def b(2))
  have inv2: "executor_ok content ok D (add_mset ?h pend) ?ex2"
    unfolding executor_ok_def st2 m2 mc
  proof (intro conjI)
    show "coherent ((stack_of ex)(es := butlast (stack_of ex es)))" by (rule coherent_butlast[OF E(5)])
    have "handlers ?ex2 = (handlers ex)(?h \<mapsto> mh')" by (simp add: e1)
    then show "handlers_ok ((stack_of ex)(es := butlast (stack_of ex es))) (add_mset ?h pend) (handlers ?ex2)"
      using handlers_ok_close[OF E(5,6) h _ refl R(2,3,4) nw] True by simp
    show "waiting_ok (handlers ?ex2) ?m2"
      using waiting_ok_close[OF E(7) h np R(4), of b] by (simp add: e1)
    show "merging_ok content ok ?m2" using b(3) by (simp add: merging_ok_def merging_content_def)
    show "dom (est ?ex2) = states ?ex2 \<union> set (addedStates ?ex2)" using E(2) s by (auto simp: e1)
  qed (use E in \<open>simp_all add: e1\<close>)
  have "set (waiting mh') = insert es (set (waiting mh))" using arg_cong[OF R(4), of set_mset] by simp
  then show ?thesis
    using s h inv2 d by (intro exI[of _ ?ex2] exI[of _ s] exI[of _ mh] exI[of _ mh'] conjI) (simp_all add: e1)
qed

lemma handleCloseMerge_ok:
  assumes inv: "executor_ok content ok D pend ex" and cf: "base_update cf = upd"
    and es: "es \<in># content (mg_base (mergingSearcher ex))"
    and run: "handleCloseMerge cf n es mp ex = Inr ex'"
  shows "executor_ok content ok D pend ex' \<and> states ex' = states ex \<and> addedStates ex' = addedStates ex
    \<and> (\<exists>new. removedStates ex' = removedStates ex @ new \<and> distinct new
        \<and> set new \<inter> set (pausedStates (mergingSearcher ex')) = {}
        \<and> set new \<subseteq> insert es (set (pausedStates (mergingSearcher ex)))
        \<and> (es \<in> set (pausedStates (mergingSearcher ex')) \<longrightarrow> new = []))
    \<and> set (pausedStates (mergingSearcher ex')) \<subseteq> insert es (set (pausedStates (mergingSearcher ex)))"
proof (cases "useMerge cf \<and> stack_of ex es \<noteq> []")
  case False
  with run have "ex' = ex" by (auto simp: handleCloseMerge_def stack_of_def split: if_splits option.splits)
  with inv es show ?thesis
    using single_disjoint[of "content (mg_base (mergingSearcher ex))" "mset (pausedStates (mergingSearcher ex))"]
      executor_okD(8)[OF inv] by (auto simp: merging_ok_def merging_content_def)
next
  case True
  let ?m = "mergingSearcher ex" and ?h = "last (stack_of ex es)"
  from close_before_drop[OF inv cf es True run] obtain ex2 mh mh' where h: "handlers ex ?h = Some mh"
    and rm: "removedStates ex2 = removedStates ex" and st: "states ex2 = states ex" "addedStates ex2 = addedStates ex"
    and hh: "handlers ex2 ?h = Some mh'" and w': "set (waiting mh') = insert es (set (waiting mh))"
    and p2: "set (pausedStates (mergingSearcher ex2)) = insert es (set (pausedStates ?m))"
    and inv2: "executor_ok content ok D (add_mset ?h pend) ex2"
    and d: "drop_reference cf (delete_state cf n) ?h ex2 = Inr ex'" by blast
  from drop_reference_ok[OF inv2 cf d] have inv': "executor_ok content ok D pend ex'" and rl: "released ?h ex2 ex'"
    by blast+
  have wp: "set (waiting mh) \<subseteq> set (pausedStates ?m)" by (rule waiting_paused[OF inv h])
  from rl have "\<exists>new. removedStates ex' = removedStates ex @ new \<and> distinct new
        \<and> set new \<inter> set (pausedStates (mergingSearcher ex')) = {}
        \<and> set new \<subseteq> insert es (set (pausedStates ?m))
        \<and> (es \<in> set (pausedStates (mergingSearcher ex')) \<longrightarrow> new = [])"
    unfolding released_def hh rm p2
  proof (elim conjE disjE exE)
    fix w new assume a: "Some mh' = Some w"
      "set (pausedStates (mergingSearcher ex')) = insert es (set (pausedStates ?m)) - set (waiting w)"
      "removedStates ex' = removedStates ex @ new" "distinct new" "set new \<subseteq> set (waiting w)"
    then have "w = mh'" by simp
    with a wp w' show ?thesis by (intro exI[of _ new]) auto
  qed simp
  moreover have "set (pausedStates (mergingSearcher ex')) \<subseteq> insert es (set (pausedStates ?m))"
    using rl unfolding released_def p2 by blast
  moreover have "states ex' = states ex" "addedStates ex' = addedStates ex"
    using rl by (simp_all add: released_def st)
  ultimately show ?thesis using inv' by blast
qed

end

section \<open>Stopping and settling\<close>

lemma executor_ok_frame:
  assumes "executor_ok content ok D pend ex" "stack_of ex' = stack_of ex" "dom (est ex') = dom (est ex)"
    "states ex' = states ex" "addedStates ex' = addedStates ex" "handlers ex' = handlers ex"
    "mergingSearcher ex' = mergingSearcher ex"
  shows "executor_ok content ok D pend ex'"
  using assms by (simp add: executor_ok_def)

text \<open>Between the operations of a step: what is queued for removal can run, and is queued once.\<close>

definition step_ok :: "('s \<Rightarrow> nat multiset) \<Rightarrow> ('s \<Rightarrow> bool) \<Rightarrow> 's executor \<Rightarrow> bool" where
  "step_ok content ok ex \<longleftrightarrow> executor_ok content ok {} {#} ex \<and> distinct (removedStates ex)
   \<and> set (removedStates ex) \<subseteq> set_mset (content (mg_base (mergingSearcher ex)))"

lemma active_iff:
  assumes "executor_ok content ok D pend ex"
  shows "es \<in># content (mg_base (mergingSearcher ex)) \<longleftrightarrow>
    es \<in> states ex \<and> es \<notin> D \<and> es \<notin> set (pausedStates (mergingSearcher ex))"
proof -
  let ?m = "mergingSearcher ex"
  have "set_mset (content (mg_base ?m)) \<union> set (pausedStates ?m) = states ex - D"
    using executor_okD(10)[OF assms] by (simp add: merging_content_def)
  moreover have "x \<in># content (mg_base ?m) \<Longrightarrow> x \<notin> set (pausedStates ?m)" for x
    using executor_okD(8)[OF assms] single_disjoint[of "content (mg_base ?m)" "mset (pausedStates ?m)" x]
    by (simp add: merging_ok_def merging_content_def)
  ultimately show ?thesis by blast
qed

lemma delete_removed_Inr:
  "delete_removed cf n es ex = Inr ex1 \<Longrightarrow>
    delete_state cf n es (ex\<lparr>states := states ex - {es}\<rparr>) = Inr ex1
    \<and> \<not> (\<exists>k \<in> set [length (removedStates ex)..<length (removedStates ex1)]. vector_full cf k)"
  by (auto simp: delete_removed_def split: if_splits)

lemma distinct_submset:
  assumes "distinct xs" "set xs \<subseteq> set_mset M"
  shows "mset xs \<subseteq># M"
proof (rule mset_subset_eqI)
  fix a show "count (mset xs) a \<le> count M a"
    using assms by (cases "a \<in> set xs") (auto simp: distinct_count_atmost_1 Suc_le_eq count_greater_zero_iff)
qed

lemma single_minus:
  assumes "single M" "distinct xs"
  shows "set_mset (M - mset xs) = set_mset M - set xs"
proof -
  have "a \<in># M - mset xs \<longleftrightarrow> a \<in># M \<and> a \<notin> set xs" for a
  proof -
    have "count M a \<le> 1" using assms(1) by (simp add: single_def)
    moreover have "count (mset xs) a = (if a \<in> set xs then 1 else 0)"
      using assms(2) by (simp add: distinct_count_atmost_1)
    ultimately show ?thesis
      unfolding count_greater_zero_iff[symmetric] by simp
  qed
  then show ?thesis by blast
qed

context bag_searcher
begin

lemma terminateState_ok:
  assumes inv: "step_ok content ok ex" and cf: "base_update cf = upd"
    and es: "es \<in> set (addedStates ex) \<or> es \<in># content (mg_base (mergingSearcher ex)) \<and> es \<notin> set (removedStates ex)"
    and run: "terminateState (delete_state cf n) es ex = Inr ex'"
  shows "step_ok content ok ex' \<and> (\<forall>u. u \<in># content (mg_base (mergingSearcher ex)) \<longrightarrow>
    u \<in># content (mg_base (mergingSearcher ex')))"
proof (cases "es \<in> set (addedStates ex)")
  case False
  have i: "executor_ok content ok {} {#} ex" using inv by (simp add: step_ok_def)
  note q = terminateState_queues[OF run False]
  have o: "executor_ok content ok {} {#} ex'"
    by (rule executor_ok_frame[OF i]) (use q(1) in \<open>simp_all add: only_merged_def\<close>)
  have "mergingSearcher ex' = mergingSearcher ex" using q(1) by (simp add: only_merged_def)
  with o q(2) inv es False show ?thesis by (simp add: step_ok_def)
next
  case True
  have i: "executor_ok content ok {} {#} ex" using inv by (simp add: step_ok_def)
  let ?ex = "ex\<lparr>pathsExplored := pathsExplored ex + 1\<rparr>"
  have i1: "executor_ok content ok {} {#} ?ex"
    by (rule executor_ok_frame[OF i]) simp_all
  have ns: "es \<notin> states ex" using executor_okD(3)[OF i] True by blast
  have np: "es \<notin> set (pausedStates (mergingSearcher ?ex))"
    using paused_not_added[OF i] True by auto
  have "?ex\<lparr>states := states ?ex - {es}, addedStates := remove1 es (addedStates ?ex)\<rparr>
      = ?ex\<lparr>addedStates := remove1 es (addedStates ex)\<rparr>"
    using ns by simp
  then have d: "delete_state cf n es (?ex\<lparr>states := states ?ex - {es}, addedStates := remove1 es (addedStates ?ex)\<rparr>)
      = Inr ex'"
    using run True by (auto simp: terminateState_def Let_def)
  have "es \<in> {} \<or> es \<in> set (addedStates ?ex)" using True by simp
  from delete_state_ok[OF i1 cf this np d]
  have o: "executor_ok content ok {} {#} ex'" and f: "freed (?ex\<lparr>est := (est ?ex)(es := None),
      states := states ?ex - {es}, addedStates := remove1 es (addedStates ?ex)\<rparr>) ex'" by simp_all
  from freed_removed[OF f] obtain new where new: "removedStates ex' = removedStates ex @ new" "distinct new"
    "set new \<subseteq> set (pausedStates (mergingSearcher ex)) - set (pausedStates (mergingSearcher ex'))" by auto
  have st: "states ex' = states ex"
    and pp: "set (pausedStates (mergingSearcher ex')) \<subseteq> set (pausedStates (mergingSearcher ex))"
    using f ns by (simp_all add: freed_def)
  have "distinct (removedStates ex')"
    using new inv active_iff[OF i] by (auto simp: step_ok_def)
  moreover have "u \<in># content (mg_base (mergingSearcher ex'))"
    if "u \<in># content (mg_base (mergingSearcher ex))" for u
    using that pp unfolding active_iff[OF i] active_iff[OF o] st by blast
  moreover have "u \<in># content (mg_base (mergingSearcher ex'))" if "u \<in> set new" for u
  proof -
    have "u \<in> set (pausedStates (mergingSearcher ex))" "u \<notin> set (pausedStates (mergingSearcher ex'))"
      using new(3) that by blast+
    then show ?thesis using executor_okD(10)[OF i] unfolding active_iff[OF o] st
      by (auto simp: merging_content_def)
  qed
  ultimately show ?thesis using o inv new(1) by (auto simp: step_ok_def)
qed

lemma delete_all_ok:
  assumes "each (delete_removed cf n) rs ex = Inr ex'" "executor_ok content ok (set rs) {#} ex"
    "distinct rs" "addedStates ex = []" "base_update cf = upd" "\<And>k. vector_full cf k"
  shows "executor_ok content ok {} {#} ex' \<and> addedStates ex' = []"
  using assms
proof (induction rs arbitrary: ex)
  case (Cons es rs)
  note i = Cons.prems(2)
  obtain ex1 where d: "delete_state cf n es (ex\<lparr>states := states ex - {es}\<rparr>) = Inr ex1"
    and nf: "\<not> (\<exists>k \<in> set [length (removedStates ex)..<length (removedStates ex1)]. vector_full cf k)"
    and r: "each (delete_removed cf n) rs ex1 = Inr ex'"
    using Cons.prems(1) by (auto dest!: delete_removed_Inr)
  have e: "ex\<lparr>states := states ex - {es}, addedStates := remove1 es (addedStates ex)\<rparr> = ex\<lparr>states := states ex - {es}\<rparr>"
    using Cons.prems(4) by (cases ex) simp
  have np: "es \<notin> set (pausedStates (mergingSearcher ex))"
  proof
    assume "es \<in> set (pausedStates (mergingSearcher ex))"
    then have "es \<in># merging_content content (mergingSearcher ex)" by (simp add: merging_content_def)
    then show False using executor_okD(10)[OF i] by auto
  qed
  from delete_state_ok[OF i Cons.prems(5) _ np, of n ex1] d e
  have o: "executor_ok content ok (set (es # rs) - {es}) {#} ex1" and
    f: "freed (ex\<lparr>est := (est ex)(es := None), states := states ex - {es},
      addedStates := remove1 es (addedStates ex)\<rparr>) ex1" by simp_all
  have "addedStates ex1 = []" using f Cons.prems(4) by (simp add: freed_def)
  moreover have "set (es # rs) - {es} = set rs" using Cons.prems(3) by auto
  ultimately show ?case using Cons.IH[OF r _ _ _ Cons.prems(5,6)] o Cons.prems(3) by simp
qed simp

lemma update_before_delete:
  assumes inv: "step_ok content ok ex" and cf: "base_update cf = upd"
    and cur: "\<And>c. current = Some c \<Longrightarrow> c \<in># content (mg_base (mergingSearcher ex)) \<or>
      c \<in> set (pausedStates (mergingSearcher ex)) \<and> addedStates ex = [] \<and> removedStates ex = []"
    and run: "updateStates cf n current ex = Inr ex'"
  shows "\<exists>m ex1. each (delete_removed cf n) (removedStates ex)
      (ex\<lparr>mergingSearcher := m, states := states ex \<union> set (addedStates ex), addedStates := []\<rparr>) = Inr ex1
    \<and> ex' = ex1\<lparr>removedStates := []\<rparr> \<and> pausedStates m = pausedStates (mergingSearcher ex)
    \<and> executor_ok content ok (set (removedStates ex)) {#}
      (ex\<lparr>mergingSearcher := m, states := states ex \<union> set (addedStates ex), addedStates := []\<rparr>)"
proof -
  have i: "executor_ok content ok {} {#} ex" and r: "distinct (removedStates ex)"
    "set (removedStates ex) \<subseteq> set_mset (content (mg_base (mergingSearcher ex)))"
    using inv by (simp_all add: step_ok_def)
  note E = executor_okD[OF i]
  let ?m = "mergingSearcher ex"
  obtain m ex1 where m: "merging_update upd current (addedStates ex) (removedStates ex) ?m = Inr m"
    and d: "each (delete_removed cf n) (removedStates ex)
      (ex\<lparr>mergingSearcher := m, states := states ex \<union> set (addedStates ex), addedStates := []\<rparr>) = Inr ex1"
    and ex': "ex' = ex1\<lparr>removedStates := []\<rparr>"
    using run cf by (auto simp: updateStates_def)
  let ?ex = "ex\<lparr>mergingSearcher := m, states := states ex \<union> set (addedStates ex), addedStates := []\<rparr>"
  have "merging_ok content ok m \<and> set_mset (merging_content content m)
      = states ex \<union> set (addedStates ex) - set (removedStates ex)
    \<and> pausedStates m = pausedStates ?m \<and> inCloseMerge m = inCloseMerge ?m \<and> mergeGroups m = mergeGroups ?m"
  proof (cases "current \<in> Some ` set (pausedStates ?m)")
    case True
    then obtain c where c: "current = Some c" "c \<in> set (pausedStates ?m)" by auto
    then have "c \<notin># content (mg_base ?m)" using active_iff[OF i] by blast
    with cur[OF c(1)] m update_paused_current[OF c(2)] c(1) E(8,10) show ?thesis by simp
  next
    case False
    with cur have c: "\<And>c. current = Some c \<Longrightarrow> c \<in># content (mg_base ?m)" by blast
    have sub: "mset (removedStates ex) \<subseteq># content (mg_base ?m) + mset (addedStates ex)"
      by (rule subset_mset.order_trans[OF distinct_submset[OF r]]) simp
    have dis: "set (addedStates ex) \<inter> set_mset (merging_content content ?m) = {}" using E(3,10) by auto
    from merging_update_law[OF E(8) c sub E(4) dis] obtain b where
      b: "merging_update upd current (addedStates ex) (removedStates ex) ?m = Inr (?m\<lparr>mg_base := b\<rparr>)"
        "merging_content content (?m\<lparr>mg_base := b\<rparr>)
          = merging_content content ?m + mset (addedStates ex) - mset (removedStates ex)"
        "merging_ok content ok (?m\<lparr>mg_base := b\<rparr>)" by blast
    have m': "m = ?m\<lparr>mg_base := b\<rparr>" using b(1) m by simp
    have "single (merging_content content ?m + mset (addedStates ex))"
      using E(8) by (intro single_add[OF _ E(4) dis]) (simp add: merging_ok_def)
    from single_minus[OF this r(1)] b(2,3) E(10) show ?thesis by (simp add: m')
  qed
  then have m': "merging_ok content ok m" "set_mset (merging_content content m)
      = states ex \<union> set (addedStates ex) - set (removedStates ex)"
    "pausedStates m = pausedStates ?m" "inCloseMerge m = inCloseMerge ?m" "mergeGroups m = mergeGroups ?m"
    by simp_all
  have w: "waiting_ok (handlers ex) m" using E(7) m'(3-5) by (simp add: waiting_ok_def)
  have st: "stack_of ?ex = stack_of ex" by (rule stack_of_same) simp
  have rs: "set (removedStates ex) \<subseteq> states ex" using r(2) active_iff[OF i] by blast
  have "executor_ok content ok (set (removedStates ex)) {#} ?ex"
    unfolding executor_ok_def st by (intro conjI) (use E m'(1,2) w rs in auto)
  with d ex' m'(3) show ?thesis by blast
qed

lemma updateStates_ok:
  assumes inv: "step_ok content ok ex" and cf: "base_update cf = upd" "\<And>k. vector_full cf k"
    and cur: "\<And>c. current = Some c \<Longrightarrow> c \<in># content (mg_base (mergingSearcher ex)) \<or>
      c \<in> set (pausedStates (mergingSearcher ex)) \<and> addedStates ex = [] \<and> removedStates ex = []"
    and run: "updateStates cf n current ex = Inr ex'"
  shows "executor_ok content ok {} {#} ex' \<and> addedStates ex' = [] \<and> removedStates ex' = []"
proof -
  from update_before_delete[OF inv cf(1) cur run] obtain m ex1 where
    d: "each (delete_removed cf n) (removedStates ex)
      (ex\<lparr>mergingSearcher := m, states := states ex \<union> set (addedStates ex), addedStates := []\<rparr>) = Inr ex1"
    and ex': "ex' = ex1\<lparr>removedStates := []\<rparr>"
    and i: "executor_ok content ok (set (removedStates ex)) {#}
      (ex\<lparr>mergingSearcher := m, states := states ex \<union> set (addedStates ex), addedStates := []\<rparr>)" by blast
  have r: "distinct (removedStates ex)" using inv by (simp add: step_ok_def)
  from delete_all_ok[OF d i r _ cf] have o: "executor_ok content ok {} {#} ex1" "addedStates ex1 = []"
    by simp_all
  have "executor_ok content ok {} {#} ex'"
    by (rule executor_ok_frame[OF o(1)]) (simp_all add: ex')
  with o(2) show ?thesis by (simp add: ex')
qed

end

section \<open>Runs\<close>

text \<open>
  What the execution of an instruction, or of several, may do to the executor: the selected state
  \<open>es\<close> and those just forked compute, fork and stop, and \<open>es\<close> may open a merge region. The
  addresses that the allocator gives are those of no live object.
\<close>

inductive acts :: "'s settings \<Rightarrow> nat \<Rightarrow> nat \<Rightarrow> 's executor \<Rightarrow> 's executor \<Rightarrow> bool" for cf n es ex where
  nothing: "acts cf n es ex ex"
| compute: "acts cf n es ex ex1 \<Longrightarrow> u \<in> insert es (set (addedStates ex1)) \<Longrightarrow> est ex1 u = Some s \<Longrightarrow>
    openMergeStack s' = openMergeStack s \<Longrightarrow> acts cf n es ex (put_state u s' (ex1\<lparr>heap := st\<rparr>))"
| forks: "acts cf n es ex ex1 \<Longrightarrow> u \<in> insert es (set (addedStates ex1)) \<Longrightarrow> est ex1 u' = None \<Longrightarrow>
    fork_state u u' ex1 = Inr ex2 \<Longrightarrow> acts cf n es ex ex2"
| stops: "acts cf n es ex ex1 \<Longrightarrow> u \<in> insert es (set (addedStates ex1)) \<Longrightarrow> u \<notin> set (removedStates ex1) \<Longrightarrow>
    terminateState (delete_state cf n) u ex1 = Inr ex2 \<Longrightarrow> acts cf n es ex ex2"
| opens: "acts cf n es ex ex1 \<Longrightarrow> handlers ex1 h = None \<Longrightarrow> handleOpenMerge cf h es ex1 = Inr ex2 \<Longrightarrow>
    acts cf n es ex ex2"

text \<open>
  One turn of the loop in \<open>run\<close>, without incomplete merging. The searcher forgets what happens
  in a step that leaves the current state paused, so a step that closes a region does nothing else
  that the searcher has to know.
\<close>

inductive run_step :: "'s settings \<Rightarrow> nat \<Rightarrow> ('s \<Rightarrow> 'r \<Rightarrow> (nat \<times> 's \<times> 'r) result) \<Rightarrow> ('s \<Rightarrow> bool)
    \<Rightarrow> 's executor \<times> 'r \<Rightarrow> 's executor \<times> 'r \<Rightarrow> bool" for cf n sel emp where
  execute: "selectState cf n False sel emp ex r = Inr (es, ex1, r') \<Longrightarrow> acts cf n es ex1 ex2 \<Longrightarrow>
    updateStates cf n (Some es) ex2 = Inr ex3 \<Longrightarrow> run_step cf n sel emp (ex, r) (ex3, r')"
| close: "selectState cf n False sel emp ex r = Inr (es, ex1, r') \<Longrightarrow> acts cf n es ex1 ex2 \<Longrightarrow>
    addedStates ex2 = [] \<Longrightarrow> removedStates ex2 = [] \<Longrightarrow> handleCloseMerge cf n es mp ex2 = Inr ex3 \<Longrightarrow>
    updateStates cf n (Some es) ex3 = Inr ex4 \<Longrightarrow> run_step cf n sel emp (ex, r) (ex4, r')"

inductive_cases run_stepE: "run_step cf n sel emp (ex, r) (ex', r')"

text \<open>The beginning of \<open>run\<close>: one state, given to a new searcher.\<close>

definition start_run :: "'s settings \<Rightarrow> 's \<Rightarrow> nat \<Rightarrow> exec_state \<Rightarrow> store \<Rightarrow> 's executor result" where
  "start_run cf base es s st =
     map_res (\<lambda>m. \<lparr>est = Map.empty(es \<mapsto> s), heap = st, states = {es}, addedStates = [], removedStates = [],
         mergingSearcher = m, handlers = Map.empty, mergeDecisionCache = Map.empty, pathsExplored = 0, queries = 0\<rparr>)
       (merging_update (base_update cf) None [es] [] (new_MergingSearcher base))"

definition settled :: "('s \<Rightarrow> nat multiset) \<Rightarrow> ('s \<Rightarrow> bool) \<Rightarrow> 's executor \<Rightarrow> bool" where
  "settled content ok ex \<longleftrightarrow> executor_ok content ok {} {#} ex \<and> addedStates ex = [] \<and> removedStates ex = []"

lemma settled_step_ok: "settled content ok ex \<Longrightarrow> step_ok content ok ex"
  by (simp add: settled_def step_ok_def)

lemma change_ok:
  assumes "executor_ok content ok D pend ex" "est ex u = Some s" "openMergeStack s' = openMergeStack s"
  shows "executor_ok content ok D pend (put_state u s' (ex\<lparr>heap := st\<rparr>))"
proof (rule executor_ok_frame[OF assms(1)])
  show "stack_of (put_state u s' (ex\<lparr>heap := st\<rparr>)) = stack_of ex"
    using stack_of_upd[OF assms(2,3)] by simp
  show "dom (est (put_state u s' (ex\<lparr>heap := st\<rparr>))) = dom (est ex)" using assms(2) by auto
qed simp_all

context bag_searcher
begin

lemma acts_ok:
  assumes "acts cf n es ex ex'" "step_ok content ok ex" "base_update cf = upd"
    "es \<in># content (mg_base (mergingSearcher ex))"
  shows "step_ok content ok ex' \<and> es \<in># content (mg_base (mergingSearcher ex'))"
  using assms
proof (induction rule: acts.induct)
  case (compute ex1 u s s' st)
  then have i: "step_ok content ok ex1" "es \<in># content (mg_base (mergingSearcher ex1))" by auto
  from change_ok[OF _ compute.hyps(3,4), of content ok "{}" "{#}" st] i show ?case by (simp add: step_ok_def)
next
  case (forks ex1 u u' ex2)
  then have i: "step_ok content ok ex1" "es \<in># content (mg_base (mergingSearcher ex1))" by auto
  from fork_state_ok[OF _ forks.hyps(3,4), of content ok "{}" "{#}"] i show ?case by (simp add: step_ok_def)
next
  case (stops ex1 u ex2)
  then have i: "step_ok content ok ex1" "es \<in># content (mg_base (mergingSearcher ex1))" by auto
  from terminateState_ok[OF i(1) stops.prems(2) _ stops.hyps(4)] stops.hyps(2,3) i(2) show ?case by auto
next
  case (opens ex1 h ex2)
  then have i: "step_ok content ok ex1" "es \<in># content (mg_base (mergingSearcher ex1))" by auto
  then have e: "executor_ok content ok {} {#} ex1" by (simp add: step_ok_def)
  have "es \<notin> set (pausedStates (mergingSearcher ex1))" using active_iff[OF e] i(2) by blast
  from handleOpenMerge_ok[OF e opens.hyps(2) this opens.hyps(3)] i show ?case by (auto simp: step_ok_def)
qed simp

lemma selectState_law:
  assumes s: "settled content ok ex" and ne: "states ex \<noteq> {}"
  shows "\<exists>es ex' r'. selectState cf n False sel emp ex r = Inr (es, ex', r') \<and> es \<in> states ex
    \<and> settled content ok ex' \<and> es \<in># content (mg_base (mergingSearcher ex'))"
proof -
  have i: "executor_ok content ok {} {#} ex" "addedStates ex = []" "removedStates ex = []"
    using s by (simp_all add: settled_def)
  note E = executor_okD[OF i(1)]
  let ?m = "mergingSearcher ex"
  have c: "content (mg_base ?m) \<noteq> {#}" by (rule some_state_active[OF i(1,2) ne])
  have o: "ok (mg_base ?m)" using E(8) by (simp add: merging_ok_def)
  obtain es b r' where b: "sel (mg_base ?m) r = Inr (es, b, r')" "es \<in># content (mg_base ?m)"
    "content b = content (mg_base ?m)" "ok b" using bag_select[OF o c, of r] by blast
  let ?ex = "ex\<lparr>mergingSearcher := ?m\<lparr>mg_base := b\<rparr>\<rparr>"
  have "selectState cf n False sel emp ex r = Inr (es, ?ex, r')"
    using b(1) c bag_empty[OF o] by (simp add: selectState_def assert_res_def)
  moreover have "waiting_ok (handlers ex) (?m\<lparr>mg_base := b\<rparr>)" using E(7) by (simp add: waiting_ok_def)
  then have "executor_ok content ok {} {#} ?ex"
    by (intro executor_okI[OF i(1)]) (use E(6,8) b(3,4) in \<open>simp_all add: merging_ok_def merging_content_def\<close>)
  moreover have "es \<in> states ex" using b(2) active_iff[OF i(1)] by blast
  ultimately show ?thesis using i(2,3) b(2,3) by (auto simp: settled_def)
qed

lemma selectState_result:
  assumes s: "settled content ok ex" and run: "selectState cf n False sel emp ex r = Inr (es, ex', r')"
  shows "settled content ok ex' \<and> es \<in># content (mg_base (mergingSearcher ex'))"
proof -
  have "states ex \<noteq> {}"
  proof
    assume "states ex = {}"
    then have "content (mg_base (mergingSearcher ex)) = {#}" "ok (mg_base (mergingSearcher ex))"
      using s executor_okD(8,10)[of content ok "{}" "{#}" ex]
      by (simp_all add: settled_def merging_content_def merging_ok_def)
    with run bag_empty show False by (simp add: selectState_def)
  qed
  from selectState_law[OF s this, of cf n r] run show ?thesis by auto
qed

lemma close_settles:
  assumes i: "executor_ok content ok {} {#} ex" and q: "addedStates ex = []" "removedStates ex = []"
    and cf: "base_update cf = upd" and es: "es \<in># content (mg_base (mergingSearcher ex))"
    and run: "handleCloseMerge cf n es mp ex = Inr ex'"
  shows "step_ok content ok ex'" "Some es = Some c \<Longrightarrow> c \<in># content (mg_base (mergingSearcher ex')) \<or>
    c \<in> set (pausedStates (mergingSearcher ex')) \<and> addedStates ex' = [] \<and> removedStates ex' = []"
proof -
  from handleCloseMerge_ok[OF i cf es run] obtain new where
    o: "executor_ok content ok {} {#} ex'" and st: "states ex' = states ex" "addedStates ex' = []"
    and new: "removedStates ex' = new" "distinct new"
      "set new \<inter> set (pausedStates (mergingSearcher ex')) = {}"
      "set new \<subseteq> insert es (set (pausedStates (mergingSearcher ex)))"
      "es \<in> set (pausedStates (mergingSearcher ex')) \<longrightarrow> new = []"
    using q by auto
  have all: "insert es (set (pausedStates (mergingSearcher ex))) \<subseteq> states ex'"
    using es executor_okD(10)[OF i] st(1) by (auto simp: merging_content_def)
  have "set new \<subseteq> set_mset (content (mg_base (mergingSearcher ex')))"
    using new(3,4) all active_iff[OF o] by blast
  then have st': "step_ok content ok ex'" using o new(1,2) by (simp add: step_ok_def)
  have c: "es \<in># content (mg_base (mergingSearcher ex')) \<or>
      es \<in> set (pausedStates (mergingSearcher ex')) \<and> addedStates ex' = [] \<and> removedStates ex' = []"
    using new(1,5) st(2) all active_iff[OF o, of es] by auto
  show "step_ok content ok ex'" by (rule st')
  show "Some es = Some c \<Longrightarrow> c \<in># content (mg_base (mergingSearcher ex')) \<or>
    c \<in> set (pausedStates (mergingSearcher ex')) \<and> addedStates ex' = [] \<and> removedStates ex' = []" using c by simp
qed

lemma run_step_ok:
  assumes "run_step cf n sel emp (ex, r) (ex', r')" "settled content ok ex" "base_update cf = upd"
    "\<And>k. vector_full cf k"
  shows "settled content ok ex'"
  using assms(1)
proof (cases rule: run_stepE[consumes 1, case_names execute close])
  case a: (execute es ex1 ex2)
  note s = selectState_result[OF assms(2) a(1)]
  from acts_ok[OF a(2) settled_step_ok assms(3)] s
  have "step_ok content ok ex2" "es \<in># content (mg_base (mergingSearcher ex2))" by auto
  from updateStates_ok[OF this(1) assms(3,4) _ a(3)] this(2) show ?thesis by (simp add: settled_def)
next
  case b: (close es ex1 ex2 mp ex3)
  note s = selectState_result[OF assms(2) b(1)]
  from acts_ok[OF b(2) settled_step_ok assms(3)] s
  have act: "step_ok content ok ex2" "es \<in># content (mg_base (mergingSearcher ex2))" by auto
  have i: "executor_ok content ok {} {#} ex2" using act(1) by (simp add: step_ok_def)
  note c = close_settles[OF i b(3,4) assms(3) act(2) b(5)]
  from updateStates_ok[OF c(1) assms(3,4) c(2) b(6)] show ?thesis by (simp add: settled_def)
qed

lemma start_run_ok:
  assumes "start_run cf base es s st = Inr ex" "base_update cf = upd" "ok base" "content base = {#}"
    "openMergeStack s = []"
  shows "settled content ok ex"
proof -
  obtain b where b: "upd None [es] [] base = Inr b" "content b = {#es#}" "ok b"
    using addState_ok[OF assms(3), of es] assms(4) by auto
  have e: "ex = \<lparr>est = Map.empty(es \<mapsto> s), heap = st, states = {es}, addedStates = [], removedStates = [],
      mergingSearcher = (new_MergingSearcher base)\<lparr>mg_base := b\<rparr>, handlers = Map.empty,
      mergeDecisionCache = Map.empty, pathsExplored = 0, queries = 0\<rparr>"
    using assms(1,2) b(1) by (auto simp: start_run_def merging_update_def new_MergingSearcher_def)
  have st: "stack_of ex = (\<lambda>_. [])" by (auto simp: stack_of_def e assms(5))
  have "coherent (\<lambda>_. [])" by (simp add: coherent_def)
  then show ?thesis
    unfolding settled_def executor_ok_def st
    by (simp add: e handlers_ok_def waiting_ok_def holders_def merging_ok_def merging_content_def
        new_MergingSearcher_def b single_def)
qed

lemma run_ok:
  assumes "(run_step cf n sel emp)\<^sup>*\<^sup>* (ex0, r0) (ex, r)" "settled content ok ex0" "base_update cf = upd"
    "\<And>k. vector_full cf k"
  shows "settled content ok ex"
proof -
  have "settled content ok (fst y)" if "(run_step cf n sel emp)\<^sup>*\<^sup>* x y" "settled content ok (fst x)" for x y
    using that
  proof (induction rule: rtranclp_induct)
    case (step y z)
    then show ?case
      using run_step_ok[of cf n "fst y" "snd y" "fst z" "snd z", OF _ _ assms(3,4)] by simp
  qed
  from this[OF assms(1)] assms(2) show ?thesis by simp
qed

end

end
