(* ===== verification/MergePaths.thy ===== *)
theory MergePaths
  imports MergeRun
begin

text \<open>
  What waiting and merging do to the exploration: nothing is lost. A live state stands for the
  inputs that satisfy its path condition, at its program counter; the pairs of instruction and
  input that some live state stands for are the same before and after a region is closed, with all
  the releases, merges and deletions that this sets off.
\<close>

section \<open>Paths\<close>

definition paths :: "'s executor \<Rightarrow> (nat \<times> env) set" where
  "paths ex = {(p, \<rho>). wf_env \<rho> \<and> (\<exists>u s. est ex u = Some s \<and> u \<notin> set (removedStates ex) \<and> pc s = p
     \<and> sat \<rho> (constraints s))}"

definition wf_states :: "'s executor \<Rightarrow> bool" where
  "wf_states ex \<longleftrightarrow> (\<forall>u s. est ex u = Some s \<longrightarrow> wf_constraints (constraints s))"

lemma paths_iff: "(p, \<rho>) \<in> paths ex \<longleftrightarrow> wf_env \<rho> \<and> (\<exists>u s. est ex u = Some s \<and> u \<notin> set (removedStates ex)
    \<and> pc s = p \<and> sat \<rho> (constraints s))"
  by (simp add: paths_def)

lemma wf_statesD: "wf_states ex \<Longrightarrow> est ex u = Some s \<Longrightarrow> wf_constraints (constraints s)"
  by (simp add: wf_states_def)

lemma same_paths:
  assumes "est ex' = est ex" "removedStates ex' = removedStates ex"
  shows "paths ex' = paths ex" "wf_states ex' = wf_states ex"
  using assms by (simp_all add: paths_def wf_states_def)

lemma merge_condition:
  assumes "strict_order lt" "wf_constraints (constraints a)" "wf_constraints (constraints b)"
    and m: "merge n le lt mlt a b st = Inr (True, a', st')"
  shows "wf_constraints (constraints a')" "pc a' = pc a" "pc a = pc b"
    "wf_env \<rho> \<Longrightarrow> sat \<rho> (constraints a') \<longleftrightarrow> sat \<rho> (constraints a) \<or> sat \<rho> (constraints b)"
proof -
  have c: "canMerge a b" using m merge_not_canMerge[of a b n le lt mlt st] by (cases "canMerge a b") auto
  then obtain ms where ms: "mutated_objects a b = Some ms" and pcs: "pc a = pc b"
    by (auto simp: canMerge_iff_merge)
  let ?A = "conjoin (suffix_of lt a (common_of lt a b))" and ?B = "conjoin (suffix_of lt b (common_of lt a b))"
  have "merge_body n le lt (std_set mlt ms) a b st = Inr (a', st')"
    using m merge_canMerge[OF c ms, of n le lt mlt st] by auto
  then obtain stk as cs where cs: "merge_constraints n (common_of lt a b) ?A ?B = Inr cs"
    and a': "a' = a\<lparr>stack := stk, addressSpace := as, constraints := cs\<rparr>"
    by (auto simp: merge_body_def Let_def common_of_def suffix_of_def)
  show "wf_constraints (constraints a')" "pc a' = pc a" "pc a = pc b"
    using merge_constraints_ok(4)[OF assms(1-3) refl refl cs] a' pcs by simp_all
  show "sat \<rho> (constraints a') \<longleftrightarrow> sat \<rho> (constraints a) \<or> sat \<rho> (constraints b)" if "wf_env \<rho>"
    using merge_constraints_ok(5)[OF assms(1-3) refl refl cs that] a' by simp
qed

lemma merge_unchanged: "merge n le lt mlt a b st = Inr (False, a', st') \<Longrightarrow> a' = a \<and> st' = st"
  by (auto simp: merge_def split: if_splits option.splits)

section \<open>Merging keeps the paths\<close>

lemma merged_paths:
  assumes e: "est ex m = Some a" "est ex u = Some b" "m \<noteq> u" "m \<notin> set (removedStates ex)" "u \<notin> set (removedStates ex)"
    and same: "pc a' = pc a" "pc a = pc b" "\<And>\<rho>. wf_env \<rho> \<Longrightarrow>
      sat \<rho> (constraints a') \<longleftrightarrow> sat \<rho> (constraints a) \<or> sat \<rho> (constraints b)"
    and e': "est ex' = (est ex)(m \<mapsto> a', u \<mapsto> b')" "removedStates ex' = removedStates ex @ [u]"
  shows "paths ex' = paths ex"
proof -
  have split: "(\<exists>v s. est ex v = Some s \<and> R v s) \<longleftrightarrow>
      R m a \<or> R u b \<or> (\<exists>v s. v \<noteq> m \<and> v \<noteq> u \<and> est ex v = Some s \<and> R v s)" for R
    using e(1,2) by (metis option.inject)
  have "(p, \<rho>) \<in> paths ex' \<longleftrightarrow> (p, \<rho>) \<in> paths ex" for p \<rho>
  proof (cases "wf_env \<rho>")
    case True
    let ?P = "\<lambda>v. v \<noteq> m \<and> v \<noteq> u \<and> v \<notin> set (removedStates ex) \<and> (\<exists>s. est ex v = Some s \<and> pc s = p \<and> sat \<rho> (constraints s))"
    have "(p, \<rho>) \<in> paths ex' \<longleftrightarrow> pc a' = p \<and> sat \<rho> (constraints a') \<or> (\<exists>v. ?P v)"
      using True e(3,4) by (auto simp: paths_iff e' split: if_splits)
    also have "\<dots> \<longleftrightarrow> (pc a = p \<and> sat \<rho> (constraints a) \<or> pc b = p \<and> sat \<rho> (constraints b)) \<or> (\<exists>v. ?P v)"
      using same(3)[OF True] same(1,2) by auto
    also have "\<dots> \<longleftrightarrow> (\<exists>v s. est ex v = Some s \<and> v \<notin> set (removedStates ex) \<and> pc s = p \<and> sat \<rho> (constraints s))"
      using split[of "\<lambda>v s. v \<notin> set (removedStates ex) \<and> pc s = p \<and> sat \<rho> (constraints s)"] e(4,5) by blast
    also have "\<dots> \<longleftrightarrow> (p, \<rho>) \<in> paths ex" using True by (simp add: paths_iff)
    finally show ?thesis .
  qed (simp add: paths_iff)
  then show ?thesis by auto
qed

lemma merge_into_paths:
  assumes "merge_into cf del m cands ex = Inr ex'" "strict_order (expr_before cf)" "wf_states ex"
    "m \<notin> set cands" "insert m (set cands) \<inter> (set (addedStates ex) \<union> set (removedStates ex)) = {}"
  shows "paths ex' = paths ex \<and> wf_states ex'"
  using assms
proof (induction cands arbitrary: ex)
  case (Cons es ess)
  obtain a b merged a' st where ab: "est ex m = Some a" "est ex es = Some b"
    and mg: "merge (merge_fuel cf) (littleEndian cf) (expr_before cf) (object_before cf) a b (heap ex)
      = Inr (merged, a', st)"
    and r: "(if merged then terminateState del es (put_state m a' (ex\<lparr>heap := st\<rparr>))
       else merge_into cf del m ess (put_state m a' (ex\<lparr>heap := st\<rparr>))) = Inr ex'"
    using Cons.prems(1) by (auto simp: Let_def)
  note wf = wf_statesD[OF Cons.prems(3) ab(1)] wf_statesD[OF Cons.prems(3) ab(2)]
  have ne: "m \<noteq> es" using Cons.prems(4) by auto
  show ?case
  proof (cases merged)
    case True
    have "merge (merge_fuel cf) (littleEndian cf) (expr_before cf) (object_before cf) a b (heap ex)
      = Inr (True, a', st)" using mg True by simp
    note M = merge_condition[OF Cons.prems(2) wf this]
    have na: "es \<notin> set (addedStates ex)" using Cons.prems(5) by auto
    obtain b' where "est ex' = (est ex)(m \<mapsto> a', es \<mapsto> b')" "removedStates ex' = removedStates ex @ [es]"
      "constraints b' = constraints b"
      using r True na ab(2) ne by (auto simp: terminateState_def Let_def)
    moreover have "wf_states ex'"
      using Cons.prems(3) M(1) wf(2) calculation by (auto simp: wf_states_def)
    moreover have "m \<notin> set (removedStates ex)" "es \<notin> set (removedStates ex)" using Cons.prems(5) by auto
    ultimately show ?thesis using merged_paths[OF ab ne _ _ M(2-4)] by blast
  next
    case False
    with merge_unchanged[of "merge_fuel cf" "littleEndian cf" "expr_before cf" "object_before cf" a b "heap ex" a' st]
    have "a' = a" using mg by simp
    then have e: "est (put_state m a' (ex\<lparr>heap := st\<rparr>)) = est ex" using ab(1) by auto
    have "merge_into cf del m ess (put_state m a' (ex\<lparr>heap := st\<rparr>)) = Inr ex'" using r False by simp
    from Cons.IH[OF this Cons.prems(2)] same_paths[OF e] Cons.prems(3-5) show ?thesis by auto
  qed
qed simp

lemma merge_candidates_paths:
  assumes run: "merge_candidates cf del m cands ex = Inr ex'" and lt: "strict_order (expr_before cf)"
    and wf: "wf_states ex" and m: "m \<notin> set cands"
      "insert m (set cands) \<inter> (set (addedStates ex) \<union> set (removedStates ex)) = {}"
  shows "paths ex' = paths ex \<and> wf_states ex'"
proof (cases "cands = []")
  case True
  with run wf show ?thesis by (simp add: merge_candidates_def)
next
  case False
  with run obtain s d ex1 where c: "cached_decision cf s ex = Inr (d, ex1)"
    and r: "(if d then merge_into cf del m cands ex1 else Inr ex1) = Inr ex'"
    by (auto simp: merge_candidates_def)
  have e: "est ex1 = est ex" "removedStates ex1 = removedStates ex" "addedStates ex1 = addedStates ex"
    using c by (auto simp: cached_decision_def split: option.splits)
  show ?thesis
    using r merge_into_paths[of cf del m cands ex1 ex'] lt wf m same_paths[OF e(1,2)] e
    by (cases d) auto
qed

lemma merge_group_paths:
  assumes "merge_group cf del mstates ex = Inr ex'" "strict_order (expr_before cf)" "wf_states ex"
    "distinct mstates" "set mstates \<inter> (set (addedStates ex) \<union> set (removedStates ex)) = {}"
  shows "paths ex' = paths ex \<and> wf_states ex'"
  using assms
proof (induction cf del mstates ex rule: merge_group.induct)
  case (2 cf del m mstates ex)
  let ?c = "filter (can_merge_with m ex) mstates"
  let ?r = "filter (\<lambda>es. \<not> can_merge_with m ex es) mstates"
  obtain ex1 where ex1: "merge_candidates cf del m ?c ex = Inr ex1" "merge_group cf del ?r ex1 = Inr ex'"
    using "2.prems"(1) by auto
  have p: "paths ex1 = paths ex \<and> wf_states ex1"
    by (rule merge_candidates_paths[OF ex1(1) "2.prems"(2,3)]) (use "2.prems"(4,5) in auto)
  have "only_merged (set ?c) ex ex1" by (rule merge_candidates_ok[OF ex1(1)]) (use "2.prems"(5) in auto)
  note o = only_mergedD[OF this]
  have "set ?r \<inter> (set (addedStates ex1) \<union> set (removedStates ex1)) = {}" using o "2.prems"(4,5) by auto
  with "2.IH"[OF ex1 "2.prems"(2)] p "2.prems"(4) show ?case by simp
qed simp

lemma disjoint_grown: "W \<inter> (A \<union> R) = {} \<Longrightarrow> S \<inter> W = {} \<Longrightarrow> R' \<subseteq> R \<union> S \<Longrightarrow> W \<inter> (A \<union> R') = {}"
  by blast

lemma merge_groups_paths:
  assumes "merge_groups cf del gs ex = Inr ex'" "strict_order (expr_before cf)" "wf_states ex"
    "distinct (concat (map snd gs))"
    "set (concat (map snd gs)) \<inter> (set (addedStates ex) \<union> set (removedStates ex)) = {}"
  shows "paths ex' = paths ex \<and> wf_states ex'"
  using assms
proof (induction gs arbitrary: ex)
  case (Cons g gs)
  obtain mp ss where g: "g = (mp, ss)" by fastforce
  with Cons.prems(1) obtain ex1 where ex1:
    "merge_group cf del (sorted_list_of_set (set ss)) ex = Inr ex1" "merge_groups cf del gs ex1 = Inr ex'"
    by auto
  have dj: "set ss \<inter> (set (addedStates ex) \<union> set (removedStates ex)) = {}"
    "set ss \<inter> set (concat (map snd gs)) = {}"
    "set (concat (map snd gs)) \<inter> (set (addedStates ex) \<union> set (removedStates ex)) = {}"
    using Cons.prems(4,5) g by auto
  have p: "paths ex1 = paths ex \<and> wf_states ex1"
    by (rule merge_group_paths[OF ex1(1) Cons.prems(2,3)]) (use dj(1) in simp_all)
  have "only_merged (set (sorted_list_of_set (set ss))) ex ex1"
    by (rule merge_group_ok[OF ex1(1)]) (use dj(1) in auto)
  note o = only_mergedD[OF this]
  have "set (removedStates ex1) \<subseteq> set (removedStates ex) \<union> set ss" using o(2) by simp
  from disjoint_grown[OF dj(3,2) this]
  have "set (concat (map snd gs)) \<inter> (set (addedStates ex1) \<union> set (removedStates ex1)) = {}"
    by (simp only: o(1))
  with Cons.IH[OF ex1(2) Cons.prems(2)] p Cons.prems(4) g show ?case by simp
qed simp

section \<open>Releasing, deleting and closing keep the paths\<close>

lemma releaseStates_paths:
  assumes run: "releaseStates cf del h ex = Inr ex'" and lt: "strict_order (expr_before cf)" and wf: "wf_states ex"
    and h: "handlers ex h = Some mh" and d: "distinct (waiting mh)"
      "set (waiting mh) \<inter> (set (addedStates ex) \<union> set (removedStates ex)) = {}"
  shows "paths ex' = paths ex \<and> wf_states ex'"
proof -
  obtain m' ex1 mh1 where g: "merge_groups cf del (reachedCloseMerge mh) (ex\<lparr>mergingSearcher := m'\<rparr>) = Inr ex1"
    and e: "ex' = put_handler h (mh1\<lparr>reachedCloseMerge := []\<rparr>) ex1"
    using run h by (auto simp: releaseStates_def)
  have s: "paths (ex\<lparr>mergingSearcher := m'\<rparr>) = paths ex" "wf_states (ex\<lparr>mergingSearcher := m'\<rparr>) = wf_states ex"
    by (rule same_paths; simp)+
  have "paths ex1 = paths (ex\<lparr>mergingSearcher := m'\<rparr>) \<and> wf_states ex1"
  proof (rule merge_groups_paths[OF g lt])
    show "wf_states (ex\<lparr>mergingSearcher := m'\<rparr>)" using s(2) wf by simp
    show "distinct (concat (map snd (reachedCloseMerge mh)))" using d(1) by (simp only: waiting_def)
    show "set (concat (map snd (reachedCloseMerge mh))) \<inter> (set (addedStates (ex\<lparr>mergingSearcher := m'\<rparr>)) \<union>
        set (removedStates (ex\<lparr>mergingSearcher := m'\<rparr>))) = {}" using d(2) unfolding waiting_def by simp
  qed
  moreover have "paths ex' = paths ex1" "wf_states ex' = wf_states ex1" by (rule same_paths; simp add: e)+
  ultimately show ?thesis using s(1) by simp
qed

lemma delete_handler_paths:
  assumes run: "delete_handler cf del h ex = Inr ex'" and lt: "strict_order (expr_before cf)" and wf: "wf_states ex"
    and h: "handlers ex h = Some mh" and d: "distinct (waiting mh)"
      "set (waiting mh) \<inter> (set (addedStates ex) \<union> set (removedStates ex)) = {}"
  shows "paths ex' = paths ex \<and> wf_states ex'"
proof -
  obtain gs ex2 where
    r: "releaseStates cf del h (ex\<lparr>mergingSearcher := (mergingSearcher ex)\<lparr>mergeGroups := gs\<rparr>\<rparr>) = Inr ex2"
    and e': "ex' = ex2\<lparr>handlers := (handlers ex2)(h := None)\<rparr>"
    using run by (auto simp: delete_handler_def)
  let ?ex = "ex\<lparr>mergingSearcher := (mergingSearcher ex)\<lparr>mergeGroups := gs\<rparr>\<rparr>"
  have s: "paths ?ex = paths ex" "wf_states ?ex = wf_states ex" by (rule same_paths; simp)+
  have "paths ex2 = paths ?ex \<and> wf_states ex2"
    by (rule releaseStates_paths[OF r lt _ _ d(1)]) (use wf h d(2) s in simp_all)
  moreover have "paths ex' = paths ex2" "wf_states ex' = wf_states ex2" by (rule same_paths; simp add: e')+
  ultimately show ?thesis using s(1) by simp
qed

text \<open>No state that waits is queued for removal.\<close>

definition calm :: "'s executor \<Rightarrow> bool" where
  "calm ex \<longleftrightarrow> set (pausedStates (mergingSearcher ex)) \<inter> set (removedStates ex) = {}"

lemma still_disjoint: "P \<inter> R = {} \<Longrightarrow> P' \<subseteq> P \<Longrightarrow> N \<subseteq> P - P' \<Longrightarrow> P' \<inter> (R \<union> N) = {}"
  by blast

lemma calm_freed:
  assumes c: "calm ex" and f: "freed ex ex'"
  shows "calm ex'"
proof -
  have p: "set (pausedStates (mergingSearcher ex')) \<subseteq> set (pausedStates (mergingSearcher ex))"
    using f by (simp add: freed_def)
  obtain new where new: "removedStates ex' = removedStates ex @ new"
    "set new \<subseteq> set (pausedStates (mergingSearcher ex)) - set (pausedStates (mergingSearcher ex'))"
    by (rule freed_removed[OF f])
  from still_disjoint[OF c[unfolded calm_def] p new(2)] show ?thesis by (simp add: calm_def new(1))
qed

lemma inside_disjoint: "W \<subseteq> P \<Longrightarrow> P \<inter> A = {} \<Longrightarrow> P \<inter> R = {} \<Longrightarrow> W \<inter> (A \<union> R) = {}"
  by blast

lemma drop_reference_paths:
  assumes inv: "executor_ok content ok D (add_mset h pend) ex" and run: "drop_reference cf del h ex = Inr ex'"
    and lt: "strict_order (expr_before cf)" and wf: "wf_states ex" and c: "calm ex"
  shows "paths ex' = paths ex \<and> wf_states ex'"
proof -
  obtain mh where h: "handlers ex h = Some mh"
    and r: "(if refCount mh = 1 then delete_handler cf del h (put_handler h (mh\<lparr>refCount := refCount mh - 1\<rparr>) ex)
      else Inr (put_handler h (mh\<lparr>refCount := refCount mh - 1\<rparr>) ex)) = Inr ex'"
    using run unfolding drop_reference_def Let_def with_handler_Inr by blast
  let ?mh = "mh\<lparr>refCount := refCount mh - 1\<rparr>"
  have s: "paths (put_handler h ?mh ex) = paths ex" "wf_states (put_handler h ?mh ex) = wf_states ex"
    by (rule same_paths; simp)+
  have d: "distinct (waiting mh)" using handler_okD(5)[OF handlers_okD(3)[OF executor_okD(6)[OF inv] h]] .
  have w: "set (waiting mh) \<inter> (set (addedStates ex) \<union> set (removedStates ex)) = {}"
    by (rule inside_disjoint[OF waiting_paused[OF inv h] paused_not_added[OF inv] c[unfolded calm_def]])
  show ?thesis
  proof (cases "refCount mh = 1")
    case True
    with r have dh: "delete_handler cf del h (put_handler h ?mh ex) = Inr ex'" by simp
    have "paths ex' = paths (put_handler h ?mh ex) \<and> wf_states ex'"
      by (rule delete_handler_paths[OF dh lt, of ?mh]) (use wf s d w in \<open>simp_all add: waiting_def\<close>)
    with s show ?thesis by simp
  next
    case False
    with r s wf show ?thesis by auto
  qed
qed

context bag_searcher
begin

lemma drop_all_paths:
  assumes "each (drop_reference cf del) hs ex = Inr ex'" "executor_ok content ok D (mset hs + pend) ex"
    "base_update cf = upd" "strict_order (expr_before cf)" "wf_states ex" "calm ex"
  shows "paths ex' = paths ex \<and> wf_states ex'"
  using assms
proof (induction hs arbitrary: ex)
  case (Cons h hs)
  then obtain ex1 where ex1: "drop_reference cf del h ex = Inr ex1" "each (drop_reference cf del) hs ex1 = Inr ex'"
    by auto
  have inv: "executor_ok content ok D (add_mset h (mset hs + pend)) ex" using Cons.prems(2) by simp
  have n: "executor_ok content ok D (mset hs + pend) ex1" "freed ex ex1"
    using drop_reference_ok[OF inv Cons.prems(3) ex1(1)] released_freed[OF inv] by blast+
  note p = drop_reference_paths[OF inv ex1(1) Cons.prems(4-6)]
  from Cons.IH[OF ex1(2) n(1) Cons.prems(3,4) _ calm_freed[OF Cons.prems(6) n(2)]] p show ?case by simp
qed simp

lemma handleCloseMerge_paths:
  assumes inv: "executor_ok content ok D pend ex" and cf: "base_update cf = upd" "strict_order (expr_before cf)"
    and es: "es \<in># content (mg_base (mergingSearcher ex))" and wf: "wf_states ex"
    and q: "set (removedStates ex) \<inter> insert es (set (pausedStates (mergingSearcher ex))) = {}"
    and run: "handleCloseMerge cf n es mp ex = Inr ex'"
  shows "paths ex' = paths ex \<and> wf_states ex'"
proof (cases "useMerge cf \<and> stack_of ex es \<noteq> []")
  case False
  with run have "ex' = ex" by (auto simp: handleCloseMerge_def stack_of_def split: if_splits option.splits)
  with wf show ?thesis by simp
next
  case True
  from close_before_drop[OF inv cf(1) es True run] obtain ex2 s where
    i: "executor_ok content ok D (add_mset (last (stack_of ex es)) pend) ex2"
    and d: "drop_reference cf (delete_state cf n) (last (stack_of ex es)) ex2 = Inr ex'"
    and e2: "est ex es = Some s" "est ex2 = (est ex)(es \<mapsto> s\<lparr>openMergeStack := butlast (openMergeStack s)\<rparr>)"
      "removedStates ex2 = removedStates ex"
      "set (pausedStates (mergingSearcher ex2)) = insert es (set (pausedStates (mergingSearcher ex)))"
    by blast
  have "paths ex2 = paths ex" "wf_states ex2"
    using e2(1) wf by (auto simp: paths_def wf_states_def e2(2,3) split: if_splits)
  moreover have "calm ex2" using q by (auto simp: calm_def e2(3,4))
  ultimately show ?thesis using drop_reference_paths[OF i d cf(2)] by simp
qed

lemma delete_state_paths:
  assumes inv: "executor_ok content ok D pend ex" and cf: "base_update cf = upd" "strict_order (expr_before cf)"
    and es: "es \<in> D \<or> es \<in> set (addedStates ex)" "es \<notin> set (pausedStates (mergingSearcher ex))"
    and wf: "wf_states ex" and c: "calm ex" and r: "es \<in> set (removedStates ex)"
    and run: "delete_state cf n es
      (ex\<lparr>states := states ex - {es}, addedStates := remove1 es (addedStates ex)\<rparr>) = Inr ex'"
  shows "paths ex' = paths ex \<and> wf_states ex' \<and> calm ex' \<and> dom (est ex') = dom (est ex) - {es}"
proof -
  from delete_before_drop[OF inv cf(1) es run] obtain ex2 k and s :: exec_state where
    d: "each (drop_reference cf (delete_state cf k)) (openMergeStack s) ex2 = Inr ex'"
    and i: "executor_ok content ok (D - {es}) (mset (openMergeStack s) + pend) ex2"
    and e2: "est ex2 = (est ex)(es := None)" "removedStates ex2 = removedStates ex"
      "mergingSearcher ex2 = mergingSearcher ex" by blast
  have "paths ex2 = paths ex"
    using r by (auto simp: paths_def e2 split: if_splits)
  moreover have "wf_states ex2" using wf by (auto simp: wf_states_def e2 split: if_splits)
  moreover have c2: "calm ex2" using c by (simp add: calm_def e2)
  moreover have "freed ex2 ex'" using drop_all_ok[OF d i cf(1)] by blast
  moreover from this have "dom (est ex') = dom (est ex) - {es}" by (auto simp: freed_def e2)
  ultimately show ?thesis using drop_all_paths[OF d i cf] calm_freed by metis
qed

lemma delete_all_paths:
  assumes "each (delete_removed cf n) rs ex = Inr ex'" "executor_ok content ok (set rs) {#} ex"
    "distinct rs" "addedStates ex = []" "base_update cf = upd" "\<And>k. vector_full cf k"
    "strict_order (expr_before cf)" "wf_states ex" "calm ex" "set rs \<subseteq> set (removedStates ex)"
  shows "paths ex' = paths ex \<and> wf_states ex' \<and> dom (est ex') = dom (est ex) - set rs
    \<and> removedStates ex' = removedStates ex"
  using assms
proof (induction rs arbitrary: ex)
  case (Cons es rs)
  note i = Cons.prems(2)
  obtain ex1 where d: "delete_state cf n es (ex\<lparr>states := states ex - {es}\<rparr>) = Inr ex1"
    and nf: "\<not> (\<exists>k \<in> set [length (removedStates ex)..<length (removedStates ex1)]. vector_full cf k)"
    and r: "each (delete_removed cf n) rs ex1 = Inr ex'"
    using Cons.prems(1) by (auto dest!: delete_removed_Inr)
  have "ex\<lparr>states := states ex - {es}, addedStates := remove1 es (addedStates ex)\<rparr> = ex\<lparr>states := states ex - {es}\<rparr>"
    using Cons.prems(4) by (cases ex) simp
  with d have d: "delete_state cf n es (ex\<lparr>states := states ex - {es}, addedStates := remove1 es (addedStates ex)\<rparr>)
    = Inr ex1" by simp
  have np: "es \<notin> set (pausedStates (mergingSearcher ex))"
    using Cons.prems(9,10) by (auto simp: calm_def)
  have es: "es \<in> set (es # rs) \<or> es \<in> set (addedStates ex)" "es \<in> set (removedStates ex)"
    using Cons.prems(10) by simp_all
  from delete_state_ok[OF i Cons.prems(5) es(1) np d]
  have o: "executor_ok content ok (set (es # rs) - {es}) {#} ex1" and
    f: "freed (ex\<lparr>est := (est ex)(es := None), states := states ex - {es},
      addedStates := remove1 es (addedStates ex)\<rparr>) ex1" by simp_all
  from delete_state_paths[OF i Cons.prems(5,7) es(1) np Cons.prems(8,9) es(2) d]
  have p: "paths ex1 = paths ex" "wf_states ex1" "calm ex1" "dom (est ex1) = dom (est ex) - {es}" by simp_all
  obtain new where new: "removedStates ex1 = removedStates ex @ new" using freed_removed[OF f] by auto
  have rm: "removedStates ex1 = removedStates ex"
    using nf Cons.prems(6) new by (cases "new = []") auto
  have "addedStates ex1 = []" using f Cons.prems(4) by (simp add: freed_def)
  moreover have "set (es # rs) - {es} = set rs" using Cons.prems(3) by auto
  ultimately have "paths ex' = paths ex1 \<and> wf_states ex' \<and> dom (est ex') = dom (est ex1) - set rs
      \<and> removedStates ex' = removedStates ex1"
    using Cons.IH[OF r _ _ _ Cons.prems(5,6,7) p(2,3)] o Cons.prems(3,10) rm by simp
  then show ?case using p(1,4) rm by auto
qed simp

lemma updateStates_paths:
  assumes inv: "step_ok content ok ex" and cf: "base_update cf = upd" "\<And>k. vector_full cf k" "strict_order (expr_before cf)"
    and cur: "\<And>c. current = Some c \<Longrightarrow> c \<in># content (mg_base (mergingSearcher ex)) \<or>
      c \<in> set (pausedStates (mergingSearcher ex)) \<and> addedStates ex = [] \<and> removedStates ex = []"
    and wf: "wf_states ex" and run: "updateStates cf n current ex = Inr ex'"
  shows "paths ex' = paths ex \<and> wf_states ex'"
proof -
  from update_before_delete[OF inv cf(1) cur run] obtain m ex1 where
    d: "each (delete_removed cf n) (removedStates ex)
      (ex\<lparr>mergingSearcher := m, states := states ex \<union> set (addedStates ex), addedStates := []\<rparr>) = Inr ex1"
    and ex': "ex' = ex1\<lparr>removedStates := []\<rparr>"
    and i: "executor_ok content ok (set (removedStates ex)) {#}
      (ex\<lparr>mergingSearcher := m, states := states ex \<union> set (addedStates ex), addedStates := []\<rparr>)"
    and p: "pausedStates m = pausedStates (mergingSearcher ex)" by blast
  let ?ex = "ex\<lparr>mergingSearcher := m, states := states ex \<union> set (addedStates ex), addedStates := []\<rparr>"
  have e: "executor_ok content ok {} {#} ex" and r: "distinct (removedStates ex)"
    "set (removedStates ex) \<subseteq> set_mset (content (mg_base (mergingSearcher ex)))"
    using inv by (simp_all add: step_ok_def)
  have c: "calm ?ex" using r(2) active_iff[OF e] by (auto simp: calm_def p)
  have s: "paths ?ex = paths ex" "wf_states ?ex = wf_states ex" by (rule same_paths; simp)+
  have "wf_states ?ex" using s(2) wf by simp
  from delete_all_paths[OF d i r(1) _ cf(1,2,3) this c]
  have q: "paths ex1 = paths ex" "wf_states ex1" "dom (est ex1) = dom (est ex) - set (removedStates ex)"
    "removedStates ex1 = removedStates ex" using s(1) by simp_all
  have "u \<notin> set (removedStates ex1)" if "est ex1 u = Some w" for u w
    using that q(3,4) by auto
  then have "paths ex' = paths ex1" by (auto simp: paths_def ex')
  then show ?thesis using q(1,2) by (simp add: ex' wf_states_def)
qed

end

end
