(* ===== verification/MergeDepth.thy ===== *)
theory MergeDepth
  imports MergeProtocol
begin

text \<open>
  How deep the deletion of a state goes: it can delete handlers, which release and merge states
  and terminate the merged ones; but these have reached the searcher, so they are only queued. The
  recursive call is passed on and never made, and any fuel above zero gives the same result.
\<close>

lemma with_state_cong: "(\<And>s. est ex es = Some s \<Longrightarrow> f s = g s) \<Longrightarrow> with_state es ex f = with_state es ex g"
  by (simp add: with_state_def split: option.split)

lemma with_handler_cong:
  "(\<And>mh. handlers ex h = Some mh \<Longrightarrow> f mh = g mh) \<Longrightarrow> with_handler h ex f = with_handler h ex g"
  by (simp add: with_handler_def split: option.split)

lemma terminateState_del:
  "es \<notin> set (addedStates ex) \<Longrightarrow> terminateState del es ex = terminateState del' es ex"
  unfolding terminateState_def Let_def by (rule with_state_cong) simp

lemma merge_into_del:
  "set cands \<inter> set (addedStates ex) = {} \<Longrightarrow> merge_into cf del m cands ex = merge_into cf del' m cands ex"
proof (induction cands arbitrary: ex)
  case (Cons es ess)
  have "(if merged then terminateState del es ex' else merge_into cf del m ess ex')
      = (if merged then terminateState del' es ex' else merge_into cf del' m ess ex')"
    if "addedStates ex' = addedStates ex" for merged ex'
    using Cons.IH[of ex'] Cons.prems that terminateState_del[of es ex' del del'] by auto
  then show ?case
    unfolding merge_into.simps Let_def
    by (intro with_state_cong bind_res_cong refl) (auto split: prod.splits)
qed simp

lemma merge_candidates_del:
  assumes "set cands \<inter> set (addedStates ex) = {}"
  shows "merge_candidates cf del m cands ex = merge_candidates cf del' m cands ex"
proof -
  have "(if d then merge_into cf del m cands ex1 else Inr ex1) = (if d then merge_into cf del' m cands ex1 else Inr ex1)"
    if "cached_decision cf s ex = Inr (d, ex1)" for s d ex1
    using merge_into_del[of cands ex1 cf del m del'] only_mergedD[OF cached_decision_ok[OF that]] assms by simp
  then show ?thesis
    unfolding merge_candidates_def
    by (auto intro!: with_state_cong bind_res_cong split: prod.splits)
qed

lemma merge_group_del:
  "distinct mstates \<Longrightarrow> set mstates \<inter> set (addedStates ex) = {} \<Longrightarrow>
    merge_group cf del mstates ex = merge_group cf del' mstates ex"
proof (induction cf del mstates ex rule: merge_group.induct)
  case (2 cf del m mstates ex)
  let ?c = "filter (can_merge_with m ex) mstates"
  have c: "set ?c \<inter> set (addedStates ex) = {}" using "2.prems" by auto
  show ?case
    unfolding merge_group.simps
  proof (rule bind_res_cong[OF merge_candidates_del[OF c]])
    fix ex1 assume r: "merge_candidates cf del' m ?c ex = Inr ex1"
    from only_mergedD(1)[OF merge_candidates_ok[OF r c]] "2.prems"
    have "set (filter (\<lambda>es. \<not> can_merge_with m ex es) mstates) \<inter> set (addedStates ex1) = {}" by auto
    with "2.IH"[of ex1] merge_candidates_del[OF c, of cf del m del'] r "2.prems"
    show "merge_group cf del (filter (\<lambda>es. \<not> can_merge_with m ex es) mstates) ex1
        = merge_group cf del' (filter (\<lambda>es. \<not> can_merge_with m ex es) mstates) ex1" by simp
  qed
qed simp

lemma merge_groups_del:
  "set (concat (map snd gs)) \<inter> set (addedStates ex) = {} \<Longrightarrow>
    merge_groups cf del gs ex = merge_groups cf del' gs ex"
proof (induction gs arbitrary: ex)
  case (Cons g gs)
  obtain mp ss where g: "g = (mp, ss)" by fastforce
  have c: "set (sorted_list_of_set (set ss)) \<inter> set (addedStates ex) = {}" using Cons.prems g by auto
  have d: "distinct (sorted_list_of_set (set ss))" by simp
  show ?case
    unfolding g merge_groups.simps
  proof (rule bind_res_cong[OF merge_group_del[OF d c]])
    fix ex1 assume r: "merge_group cf del' (sorted_list_of_set (set ss)) ex = Inr ex1"
    have "addedStates ex1 = addedStates ex" by (rule only_mergedD(1)[OF merge_group_ok[OF r c d]])
    with Cons.IH[of ex1] Cons.prems g show "merge_groups cf del gs ex1 = merge_groups cf del' gs ex1" by auto
  qed
qed simp

lemma releaseStates_del:
  assumes h: "handlers ex h = Some mh" and w: "set (waiting mh) \<inter> set (addedStates ex) = {}"
  shows "releaseStates cf del h ex = releaseStates cf del' h ex"
  unfolding releaseStates_def
proof (intro with_handler_cong bind_res_cong refl)
  fix mh1 m assume "handlers ex h = Some mh1"
  with h w show "merge_groups cf del (reachedCloseMerge mh1) (ex\<lparr>mergingSearcher := m\<rparr>)
      = merge_groups cf del' (reachedCloseMerge mh1) (ex\<lparr>mergingSearcher := m\<rparr>)"
    by (intro merge_groups_del) (simp add: waiting_def)
qed

lemma drop_reference_del:
  assumes inv: "executor_ok content ok D pend ex"
  shows "drop_reference cf del h ex = drop_reference cf del' h ex"
  unfolding drop_reference_def Let_def
proof (rule with_handler_cong)
  fix mh assume h: "handlers ex h = Some mh"
  let ?mh = "mh\<lparr>refCount := refCount mh - 1\<rparr>"
  let ?ex = "put_handler h ?mh ex"
  have w: "set (waiting ?mh) \<inter> set (addedStates ex) = {}"
    using waiting_paused[OF inv h] paused_not_added[OF inv] by (auto simp: waiting_def)
  have "delete_handler cf del h ?ex = delete_handler cf del' h ?ex"
    unfolding delete_handler_def
  proof (intro bind_res_cong refl)
    fix gs
    have "releaseStates cf del h (?ex\<lparr>mergingSearcher := (mergingSearcher ?ex)\<lparr>mergeGroups := gs\<rparr>\<rparr>)
        = releaseStates cf del' h (?ex\<lparr>mergingSearcher := (mergingSearcher ?ex)\<lparr>mergeGroups := gs\<rparr>\<rparr>)"
      by (rule releaseStates_del[where mh = ?mh]) (use w in simp_all)
    then show "map_res (\<lambda>ex1. ex1\<lparr>handlers := (handlers ex1)(h := None)\<rparr>)
        (releaseStates cf del h (?ex\<lparr>mergingSearcher := (mergingSearcher ?ex)\<lparr>mergeGroups := gs\<rparr>\<rparr>))
      = map_res (\<lambda>ex1. ex1\<lparr>handlers := (handlers ex1)(h := None)\<rparr>)
        (releaseStates cf del' h (?ex\<lparr>mergingSearcher := (mergingSearcher ?ex)\<lparr>mergeGroups := gs\<rparr>\<rparr>))"
      by (rule arg_cong)
  qed
  then show "(if refCount mh = 1 then delete_handler cf del h ?ex else Inr ?ex)
      = (if refCount mh = 1 then delete_handler cf del' h ?ex else Inr ?ex)"
    by (rule arg_cong[where f = "\<lambda>x. if refCount mh = 1 then x else Inr ?ex"])
qed

context bag_searcher
begin

lemma drop_all_del:
  assumes "executor_ok content ok D (mset hs + pend) ex" "base_update cf = upd"
  shows "each (drop_reference cf del) hs ex = each (drop_reference cf del') hs ex"
  using assms
proof (induction hs arbitrary: ex)
  case (Cons h hs)
  have inv: "executor_ok content ok D (add_mset h (mset hs + pend)) ex" using Cons.prems(1) by simp
  show ?case
    unfolding each.simps
  proof (rule bind_res_cong[OF drop_reference_del[OF inv]])
    fix ex1 assume "drop_reference cf del' h ex = Inr ex1"
    with drop_reference_ok[OF inv Cons.prems(2)] Cons.IH[OF _ Cons.prems(2)]
    show "each (drop_reference cf del) hs ex1 = each (drop_reference cf del') hs ex1" by blast
  qed
qed simp

lemma delete_state_depth:
  assumes inv: "executor_ok content ok D pend ex" and cf: "base_update cf = upd"
    and es: "es \<in> D \<or> es \<in> set (addedStates ex)" "es \<notin> set (pausedStates (mergingSearcher ex))"
  shows "delete_state cf (Suc n) es (ex\<lparr>states := states ex - {es}, addedStates := remove1 es (addedStates ex)\<rparr>)
    = delete_state cf (Suc m) es (ex\<lparr>states := states ex - {es}, addedStates := remove1 es (addedStates ex)\<rparr>)"
  unfolding delete_state.simps
proof (intro with_state_cong bind_res_cong refl)
  fix s ex1
  let ?ex = "ex\<lparr>states := states ex - {es}, addedStates := remove1 es (addedStates ex)\<rparr>"
  assume "est ?ex es = Some s" and l: "each (leave_handler es) (openMergeStack s) ?ex = Inr ex1"
  then have s: "est ex es = Some s" by simp
  show "each (drop_reference cf (delete_state cf n)) (openMergeStack s) (ex1\<lparr>est := (est ex1)(es := None)\<rparr>)
      = each (drop_reference cf (delete_state cf m)) (openMergeStack s) (ex1\<lparr>est := (est ex1)(es := None)\<rparr>)"
    by (rule drop_all_del[OF after_leave(1)[OF inv es s l] cf])
qed

end

end
