(* ===== verification/ExampleRun.thy ===== *)
theory ExampleRun
  imports Examples MergePaths MergeDepth
begin

text \<open>
  A small run on which the properties of the merging protocol are shown to apply: a state opens a
  merge region and forks, both sides close it, and the second to arrive sets off the merge.
\<close>

definition ex_settings :: "nat list settings" where
  "ex_settings = \<lparr>base_update = dfs_update, useMerge = True, mergeDecisionMode = ''merge'',
     random_answer = (\<lambda>_. 0), server_answer = (\<lambda>_ _. ''''), merge_fuel = 20, littleEndian = True,
     expr_before = expr_lt ex_hv ex_plt, object_before = ex_mlt, vector_full = (\<lambda>_. True)\<rparr>"

definition ex_start :: "nat list executor result" where
  "ex_start = start_run ex_settings [] 1 ex_A ex_store"

definition ex_opened :: "nat list executor result" where
  "ex_opened = bind_res ex_start (\<lambda>ex. handleOpenMerge ex_settings 9 1 ex)"

definition ex_forked :: "nat list executor result" where
  "ex_forked = bind_res ex_opened (\<lambda>ex. fork_state 1 2 ex)"

definition ex_settled :: "nat list executor result" where
  "ex_settled = bind_res ex_forked (\<lambda>ex. updateStates ex_settings 9 (Some 1)
     (put_state 2 (ex_B\<lparr>openMergeStack := [9]\<rparr>) (ex\<lparr>heap := ex_store\<rparr>)))"

definition ex_closed :: "nat \<Rightarrow> nat list executor \<Rightarrow> nat list executor result" where
  "ex_closed es ex = bind_res (handleCloseMerge ex_settings 9 es 77 ex) (updateStates ex_settings 9 (Some es))"

lemma ex_opened_facts: "case ex_opened of Inl _ \<Rightarrow> False | Inr ex \<Rightarrow> addedStates ex = []
    \<and> (case est ex 1 of None \<Rightarrow> False | Some s \<Rightarrow> openMergeStack s = [9]) \<and> est ex 2 = None"
  by code_simp

lemma ex_forked_facts: "case ex_forked of Inl _ \<Rightarrow> False | Inr ex \<Rightarrow> addedStates ex = [2]
    \<and> (case est ex 2 of None \<Rightarrow> False | Some s \<Rightarrow> openMergeStack s = [9])"
  by code_simp

lemma ex_settled_facts: "case ex_settled of Inl _ \<Rightarrow> False | Inr ex \<Rightarrow> mg_base (mergingSearcher ex) = [1, 2]
    \<and> states ex = {1, 2} \<and> (case handlers ex 9 of None \<Rightarrow> False | Some mh \<Rightarrow> refCount mh = 2)"
  by code_simp

lemma ex_closed_facts: "case bind_res ex_settled (ex_closed 2) of Inl _ \<Rightarrow> False
    | Inr ex \<Rightarrow> mg_base (mergingSearcher ex) = [1] \<and> pausedStates (mergingSearcher ex) = [2]
    \<and> states ex = {1, 2} \<and> (case est ex 1 of None \<Rightarrow> False | Some s \<Rightarrow> constraints s = [ex_cond])
    \<and> (case est ex 2 of None \<Rightarrow> False | Some s \<Rightarrow> constraints s = [Binary Eq (Constant 1 0) ex_cond])"
  by code_simp

lemma ex_merged_facts: "case bind_res (bind_res ex_settled (ex_closed 2)) (ex_closed 1) of Inl _ \<Rightarrow> False
    | Inr ex \<Rightarrow> mg_base (mergingSearcher ex) = [1] \<and> states ex = {1} \<and> handlers ex 9 = None"
  by code_simp

lemma ex_start_eq: "ex_start = Inr \<lparr>est = Map.empty(1 \<mapsto> ex_A), heap = ex_store, states = {1}, addedStates = [],
    removedStates = [], mergingSearcher = (new_MergingSearcher [])\<lparr>mg_base := [1]\<rparr>, handlers = Map.empty,
    mergeDecisionCache = Map.empty, pathsExplored = 0, queries = 0\<rparr>"
  by (simp add: ex_start_def start_run_def merging_update_def new_MergingSearcher_def ex_settings_def
      dfs_update_def dfs_remove.simps map_res_def)

lemma ex_run:
  "\<exists>ex1 ex2. ex_start = Inr ex1 \<and> ex_settled = Inr ex2
    \<and> run_step ex_settings 9 dfs_select list_empty (ex1, r) (ex2, r)"
proof -
  obtain ex1 where e1: "ex_start = Inr ex1" by (simp add: ex_start_eq)
  have sel: "selectState ex_settings 9 False dfs_select list_empty ex1 r = Inr (1, ex1, r)"
    using e1 by (auto simp: ex_start_eq selectState_def dfs_select_def list_empty_def new_MergingSearcher_def
        assert_res_def)
  obtain ex2 where e2: "ex_opened = Inr ex2" "est ex2 2 = None"
    using ex_opened_facts by (auto split: sum.splits)
  obtain ex3 s where e3: "ex_forked = Inr ex3" "addedStates ex3 = [2]" "est ex3 2 = Some s" "openMergeStack s = [9]"
    using ex_forked_facts by (auto split: sum.splits option.splits)
  obtain ex4 where e4: "ex_settled = Inr ex4" using ex_settled_facts by (auto split: sum.splits)
  have "acts ex_settings 9 1 ex1 ex1" by (rule acts.nothing)
  then have "acts ex_settings 9 1 ex1 ex2"
    by (rule acts.opens[where h = 9]) (use e1 e2 in \<open>auto simp: ex_opened_def ex_start_eq\<close>)
  moreover have "fork_state 1 2 ex2 = Inr ex3" using e3(1) unfolding ex_forked_def e2(1) by simp
  ultimately have "acts ex_settings 9 1 ex1 ex3" using e2(2) by (auto intro: acts.forks)
  then have "acts ex_settings 9 1 ex1 (put_state 2 (ex_B\<lparr>openMergeStack := [9]\<rparr>) (ex3\<lparr>heap := ex_store\<rparr>))"
    by (rule acts.compute) (use e3 in auto)
  moreover have "updateStates ex_settings 9 (Some 1)
      (put_state 2 (ex_B\<lparr>openMergeStack := [9]\<rparr>) (ex3\<lparr>heap := ex_store\<rparr>)) = Inr ex4"
    using e4 unfolding ex_settled_def e3(1) by simp
  ultimately have "run_step ex_settings 9 dfs_select list_empty (ex1, r) (ex4, r)"
    by (rule run_step.execute[OF sel])
  with e1 e4 show ?thesis by blast
qed

lemma ex_settings_fields: "base_update ex_settings = dfs_update" "vector_full ex_settings k"
    "strict_order (expr_before ex_settings)"
  by (simp_all add: ex_settings_def ex_lt_order)

lemma ex_A_stack: "openMergeStack ex_A = []"
  by (simp add: ex_A_def ex_state_def new_ExecutionState_def pushFrame_def)

lemma ex_settled_ok:
  assumes "ex_settled = Inr ex"
  shows "settled mset (\<lambda>_. True) ex"
proof -
  obtain ex1 ex2 where e: "ex_start = Inr ex1" "ex_settled = Inr ex2"
    "run_step ex_settings 9 dfs_select list_empty (ex1, 0::nat) (ex2, 0)" using ex_run[where r = "0::nat"] by (elim exE conjE) (rule that)
  have "ex2 = ex" by (rule Inr_inject[OF trans[OF e(2)[symmetric] assms]])
  note r = e(1) e(3)[unfolded this]
  have "settled mset (\<lambda>_. True) ex1"
    by (rule dfs.start_run_ok[OF r(1)[unfolded ex_start_def] ex_settings_fields(1) TrueI _ ex_A_stack]) simp
  from dfs.run_step_ok[OF r(2) this ex_settings_fields(1,2)] show ?thesis .
qed

lemma ex_closed_settled:
  assumes "bind_res ex_settled (ex_closed 2) = Inr ex"
  shows "settled mset (\<lambda>_. True) ex \<and> wf_states ex"
proof -
  obtain ex0 ex1 where e: "ex_settled = Inr ex0" "handleCloseMerge ex_settings 9 2 77 ex0 = Inr ex1"
    "updateStates ex_settings 9 (Some 2) ex1 = Inr ex"
    using assms by (auto simp: ex_closed_def)
  have i: "executor_ok mset (\<lambda>_. True) {} {#} ex0" "addedStates ex0 = []" "removedStates ex0 = []"
    using ex_settled_ok[OF e(1)] by (simp_all add: settled_def)
  have "2 \<in># mset (mg_base (mergingSearcher ex0))" using ex_settled_facts unfolding e(1) by simp
  note c = dfs.close_settles[OF i ex_settings_fields(1) this e(2)]
  from dfs.updateStates_ok[OF c(1) ex_settings_fields(1,2) c(2) e(3)]
  have s: "settled mset (\<lambda>_. True) ex" by (simp add: settled_def)
  have f: "states ex = {1, 2} \<and> (case est ex 1 of None \<Rightarrow> False | Some s \<Rightarrow> constraints s = [ex_cond])
    \<and> (case est ex 2 of None \<Rightarrow> False | Some s \<Rightarrow> constraints s = [Binary Eq (Constant 1 0) ex_cond])"
    using ex_closed_facts unfolding assms by simp
  have d: "dom (est ex) = {1, 2}" using s f by (simp add: settled_def executor_ok_def)
  have "wf_states ex"
    unfolding wf_states_def
  proof (intro allI impI)
    fix u w assume w: "est ex u = Some w"
    then have "u \<in> {1, 2}" unfolding d[symmetric] by (rule domI)
    then have "constraints w = [ex_cond] \<or> constraints w = [Binary Eq (Constant 1 0) ex_cond]"
      using f w by auto
    then show "wf_constraints (constraints w)" using ex_cond_wf by (elim disjE) (simp_all add: in_width_def)
  qed
  with s show ?thesis by simp
qed

text \<open>
  Where the vector of the removed states has room to spare, the loop of \<open>updateStates\<close> loses a
  state: the last state that holds a handler stops, its deletion releases and merges the two that
  wait, and the one that was merged into the other is never deleted: it stays in the searcher. Where
  the vector has no room the loop goes on with an invalid iterator.
\<close>

definition ex_waiting :: "nat list executor" where
  "ex_waiting =
     (let s = new_ExecutionState 7 ex_function
      in \<lparr>est = [1 \<mapsto> s, 2 \<mapsto> s, 3 \<mapsto> s\<lparr>openMergeStack := [9]\<rparr>], heap = ex_store, states = {1, 2, 3},
        addedStates = [], removedStates = [],
        mergingSearcher = \<lparr>mg_base = [3], pausedStates = [2, 1], inCloseMerge = {1, 2}, mergeGroups = [9]\<rparr>,
        handlers = [9 \<mapsto> \<lparr>openInstruction = 0, closedMean = 0, closedStateCount = 2, openStates = [3],
          reachedCloseMerge = [(77, [2, 1])], refCount = 1\<rparr>],
        mergeDecisionCache = Map.empty, pathsExplored = 0, queries = 0\<rparr>)"

lemma ex_waiting_stack: "stack_of ex_waiting = (\<lambda>_. [])(3 := [9])"
  by (auto simp: stack_of_def ex_waiting_def Let_def new_ExecutionState_def pushFrame_def)

lemma ex_waiting_fields:
  "states ex_waiting = {1, 2, 3}" "dom (est ex_waiting) = {1, 2, 3}" "addedStates ex_waiting = []"
  "removedStates ex_waiting = []"
  "mergingSearcher ex_waiting = \<lparr>mg_base = [3], pausedStates = [2, 1], inCloseMerge = {1, 2}, mergeGroups = [9]\<rparr>"
  "handlers ex_waiting = [9 \<mapsto> \<lparr>openInstruction = 0, closedMean = 0, closedStateCount = 2, openStates = [3],
     reachedCloseMerge = [(77, [2, 1])], refCount = 1\<rparr>]"
  by (auto simp: ex_waiting_def Let_def)

lemma ex_waiting_ok:
  assumes "mset b = {#3#} \<and> D = {} \<or> b = [] \<and> D = {3}"
    and e: "stack_of ex = stack_of ex_waiting" "states ex = states ex_waiting" "dom (est ex) = dom (est ex_waiting)"
      "addedStates ex = []" "handlers ex = handlers ex_waiting"
      "mergingSearcher ex = (mergingSearcher ex_waiting)\<lparr>mg_base := b\<rparr>"
  shows "executor_ok mset (\<lambda>_. True) D {#} ex"
proof -
  have "coherent (stack_of ex)" by (auto simp: coherent_def e ex_waiting_stack split: if_splits)
  moreover have h: "holders (stack_of ex) h = (if h = 9 then {3} else {})" for h
    by (auto simp: holders_def e ex_waiting_stack split: if_splits)
  have "handlers_ok (stack_of ex) {#} (handlers ex)"
    by (auto simp: handlers_ok_def handler_ok_def h e(5) ex_waiting_fields waiting_def split: if_splits)
      (auto simp: e(1) ex_waiting_stack split: if_splits)
  moreover have "waiting_ok (handlers ex) (mergingSearcher ex)"
    by (auto simp: waiting_ok_def e(5,6) ex_waiting_fields waiting_def split: if_splits)
  moreover have "merging_ok mset (\<lambda>_. True) (mergingSearcher ex)"
    using assms(1) by (auto simp: merging_ok_def merging_content_def single_def e(6) ex_waiting_fields)
  moreover have "set_mset (merging_content mset (mergingSearcher ex)) = states ex - D"
    using assms(1) arg_cong[of "mset b" _ set_mset] by (auto simp: merging_content_def e(2,6) ex_waiting_fields)
  ultimately show ?thesis
    using assms(1) by (auto simp: executor_ok_def e(2,3,4) ex_waiting_fields)
qed

lemma ex_waiting_settled: "settled mset (\<lambda>_. True) ex_waiting"
  unfolding settled_def by (intro conjI ex_waiting_ok[where b = "[3]"]) (simp_all add: ex_waiting_fields)

text \<open>The same executor, when the third state has left the searcher to be deleted.\<close>

definition ex_leaving0 :: "nat list executor" where
  "ex_leaving0 = ex_waiting\<lparr>removedStates := [3], mergingSearcher := (mergingSearcher ex_waiting)\<lparr>mg_base := []\<rparr>\<rparr>"

definition ex_leaving :: "nat list executor" where
  "ex_leaving = ex_leaving0\<lparr>states := {1, 2}\<rparr>"

lemma ex_leaving0_ok: "executor_ok mset (\<lambda>_. True) {3} {#} ex_leaving0"
  by (rule ex_waiting_ok[where b = "[]"]) (simp_all add: ex_leaving0_def ex_waiting_fields)

lemma ex_leaving_eq:
  "ex_leaving0\<lparr>states := states ex_leaving0 - {3}, addedStates := remove1 3 (addedStates ex_leaving0)\<rparr> = ex_leaving"
  "3 \<notin> set (pausedStates (mergingSearcher ex_leaving0))"
  by (auto simp: ex_leaving_def ex_leaving0_def ex_waiting_def Let_def)

definition ex_stopped :: "nat list settings \<Rightarrow> nat list executor result" where
  "ex_stopped cf = bind_res (terminateState (delete_state cf 2) 3 ex_waiting) (updateStates cf 2 (Some 3))"

lemma merged_state_survives:
  "case ex_stopped (ex_settings\<lparr>vector_full := \<lambda>_. False\<rparr>) of Inl _ \<Rightarrow> False
   | Inr ex \<Rightarrow> states ex = {1, 2} \<and> mg_base (mergingSearcher ex) = [2, 1] \<and> pathsExplored ex = 2
      \<and> removedStates ex = []"
  by code_simp

lemma removal_invalidates_iterator: "case ex_stopped ex_settings of Inl e \<Rightarrow> e = InvalidIterator | Inr _ \<Rightarrow> False"
  by code_simp

end
