(* ===== verification/Solver.thy ===== *)
theory Solver
  imports Assignment ExprArith
begin

text \<open>
  The solver interface: queries (\<open>Query\<close>), the operations of a solver implementation
  (\<open>SolverImpl\<close>) and the client side of them, the class \<open>Solver\<close>
  (\<open>klee/lib/Solver/Solver.cpp\<close>, \<open>SolverImpl.cpp\<close>, \<open>DummySolver.cpp\<close>). What an
  implementation promises is the locale \<open>solver_impl\<close>: the answers that the comments of
  \<open>klee/include/klee/Solver/SolverImpl.h\<close> specify. The constraints of a query are those of a
  live state and so are satisfiable.
\<close>

section \<open>Queries and implementations\<close>

record query =
  q_constraints :: constraints
  q_expr :: expr

definition withExpr :: "query \<Rightarrow> expr \<Rightarrow> query" where
  "withExpr q e = \<lparr>q_constraints = q_constraints q, q_expr = e\<rparr>"

definition withFalse :: "query \<Rightarrow> query" where
  "withFalse q = \<lparr>q_constraints = q_constraints q, q_expr = Constant 1 0\<rparr>"

definition negateExpr :: "query \<Rightarrow> query" where
  "negateExpr q = withExpr q (createIsZero (q_expr q))"

datatype validity = SolverTrue | SolverFalse | SolverUnknown

text \<open>
  A virtual method of \<open>SolverImpl\<close> returns \<open>false\<close> or fills in its out-parameter: \<open>None\<close>
  or \<open>Some\<close> of the answer, with the implementation's new state. The answer of
  \<open>computeInitialValues\<close> is \<open>None\<close> when it sets \<open>hasSolution\<close> to \<open>false\<close>.
\<close>

type_synonym ('s, 'a) call = "'s \<Rightarrow> ('a option \<times> 's) result"

record 's impl =
  computeTruth :: "query \<Rightarrow> ('s, bool) call"
  computeValidity :: "query \<Rightarrow> ('s, validity) call"
  computeValue :: "query \<Rightarrow> ('s, expr) call"
  computeInitialValues :: "query \<Rightarrow> array list \<Rightarrow> ('s, int list list option) call"

text \<open>\<open>if (!call) return false; ...\<close> and \<open>assert(success); ...\<close>.\<close>

definition on_success ::
    "('a option \<times> 's) result \<Rightarrow> ('a \<Rightarrow> ('s, 'b) call) \<Rightarrow> ('b option \<times> 's) result" where
  "on_success x f = bind_res x (\<lambda>(r, s). case r of None \<Rightarrow> Inr (None, s) | Some a \<Rightarrow> f a s)"

definition assert_success :: "('a option \<times> 's) result \<Rightarrow> ('a \<times> 's) result" where
  "assert_success x =
     bind_res x (\<lambda>(r, s). map_res (\<lambda>a. (a, s)) (of_option AssertionFailed r))"

definition return_call :: "'a \<Rightarrow> ('s, 'a) call" where
  "return_call a s = Inr (Some a, s)"

section \<open>The class \<open>Solver\<close>\<close>

definition solver_evaluate :: "'s impl \<Rightarrow> query \<Rightarrow> ('s, validity) call" where
  "solver_evaluate S q s =
     assert_res (getWidth (q_expr q) = 1)
       (if is_Constant (q_expr q)
        then return_call (if isTrue (q_expr q) then SolverTrue else SolverFalse) s
        else computeValidity S q s)"

definition mustBeTrue :: "'s impl \<Rightarrow> query \<Rightarrow> ('s, bool) call" where
  "mustBeTrue S q s =
     assert_res (getWidth (q_expr q) = 1)
       (if is_Constant (q_expr q) then return_call (isTrue (q_expr q)) s
        else computeTruth S q s)"

definition mustBeFalse :: "'s impl \<Rightarrow> query \<Rightarrow> ('s, bool) call" where
  "mustBeFalse S q s = mustBeTrue S (negateExpr q) s"

definition mayBeTrue :: "'s impl \<Rightarrow> query \<Rightarrow> ('s, bool) call" where
  "mayBeTrue S q s = on_success (mustBeFalse S q s) (\<lambda>res. return_call (\<not> res))"

definition mayBeFalse :: "'s impl \<Rightarrow> query \<Rightarrow> ('s, bool) call" where
  "mayBeFalse S q s = on_success (mustBeTrue S q s) (\<lambda>res. return_call (\<not> res))"

text \<open>\<open>cast<ConstantExpr>\<close> asserts that the value is a constant.\<close>

definition solver_getValue :: "'s impl \<Rightarrow> query \<Rightarrow> ('s, expr) call" where
  "solver_getValue S q s =
     (if is_Constant (q_expr q) then return_call (q_expr q) s
      else on_success (computeValue S q s)
        (\<lambda>tmp s'. assert_res (is_Constant tmp) (return_call tmp s')))"

definition getInitialValues :: "'s impl \<Rightarrow> query \<Rightarrow> array list \<Rightarrow> ('s, int list list) call" where
  "getInitialValues S q objects s =
     on_success (computeInitialValues S q objects s) (\<lambda>values s'. Inr (values, s'))"

text \<open>\<open>SolverImpl::computeValidity\<close>, the default of an implementation.\<close>

definition default_computeValidity ::
    "(query \<Rightarrow> ('s, bool) call) \<Rightarrow> query \<Rightarrow> ('s, validity) call" where
  "default_computeValidity truth q s =
     on_success (truth q s) (\<lambda>true s'.
       if true then return_call SolverTrue s'
       else on_success (truth (negateExpr q) s') (\<lambda>false.
         return_call (if false then SolverFalse else SolverUnknown)))"

definition DummySolver :: "unit impl" where
  "DummySolver = \<lparr>computeTruth = (\<lambda>q s. Inr (None, s)), computeValidity = (\<lambda>q s. Inr (None, s)),
     computeValue = (\<lambda>q s. Inr (None, s)), computeInitialValues = (\<lambda>q objects s. Inr (None, s))\<rparr>"

section \<open>Ranges\<close>

text \<open>
  \<open>ConstantExpr::create\<close>, \<open>ConstantExpr::getZExtValue\<close> and \<open>bits64::maxValueOfNBits\<close>, on
  64-bit numbers.
\<close>

definition ConstantExpr_create :: "int \<Rightarrow> width \<Rightarrow> expr result" where
  "ConstantExpr_create v w = assert_res (w \<le> 64 \<longrightarrow> v = v AND mask w) (Inr (Constant w v))"

definition getZExtValue :: "width \<Rightarrow> expr \<Rightarrow> int result" where
  "getZExtValue bits e =
     (case e of Constant w v \<Rightarrow> assert_res (w \<le> bits) (Inr v) | _ \<Rightarrow> Inl AssertionFailed)"

definition maxValueOfNBits :: "nat \<Rightarrow> int result" where
  "maxValueOfNBits n =
     assert_res (n \<le> 64) (Inr (if n = 0 then 0 else drop_bit (64 - n) (2 ^ 64 - 1)))"

text \<open>
  The three loops of \<open>Solver::getRange\<close> are one binary search: the test moves the upper end
  to the middle or the lower end past it.
\<close>

function bsearch ::
    "(int \<Rightarrow> 's \<Rightarrow> (bool \<times> 's) result) \<Rightarrow> int \<Rightarrow> int \<Rightarrow> 's \<Rightarrow> (int \<times> 's) result" where
  "bsearch test lo hi s =
     (if lo < hi
      then let mid = lo + (hi - lo) div 2 in
        bind_res (test mid s) (\<lambda>(res, s').
          if res then bsearch test lo mid s' else bsearch test (mid + 1) hi s')
      else Inr (lo, s))"
  by pat_completeness auto
termination
  by (relation "measure (\<lambda>(test, lo, hi, s). nat (hi - lo))") auto

declare bsearch.simps [simp del]

text \<open>The queries of the loops, each asserted to succeed.\<close>

definition fits_bits :: "'s impl \<Rightarrow> query \<Rightarrow> int \<Rightarrow> 's \<Rightarrow> (bool \<times> 's) result" where
  "fits_bits S q mid s =
     (let e = q_expr q; w = getWidth e in
      bind_res (ConstantExpr_create mid w) (\<lambda>c. bind_res (ConstantExpr_create 0 w) (\<lambda>z.
        assert_success (mustBeTrue S (withExpr q (create_Eq (create_LShr e c) z)) s))))"

definition may_be_zero :: "'s impl \<Rightarrow> query \<Rightarrow> 's \<Rightarrow> (bool \<times> 's) result" where
  "may_be_zero S q s =
     bind_res (ConstantExpr_create 0 (getWidth (q_expr q))) (\<lambda>z.
       assert_success (mayBeTrue S (withExpr q (create_Eq (q_expr q) z)) s))"

definition may_be_atmost :: "'s impl \<Rightarrow> query \<Rightarrow> int \<Rightarrow> 's \<Rightarrow> (bool \<times> 's) result" where
  "may_be_atmost S q mid s =
     bind_res (ConstantExpr_create mid (getWidth (q_expr q))) (\<lambda>c.
       assert_success (mayBeTrue S (withExpr q (create_Ule (q_expr q) c)) s))"

definition must_be_atmost :: "'s impl \<Rightarrow> query \<Rightarrow> int \<Rightarrow> 's \<Rightarrow> (bool \<times> 's) result" where
  "must_be_atmost S q mid s =
     bind_res (ConstantExpr_create mid (getWidth (q_expr q))) (\<lambda>c.
       assert_success (mustBeTrue S (withExpr q (create_Ule (q_expr q) c)) s))"

definition search_range :: "'s impl \<Rightarrow> query \<Rightarrow> 's \<Rightarrow> ((int \<times> int) \<times> 's) result" where
  "search_range S q s =
     bind_res (bsearch (fits_bits S q) 0 (int (getWidth (q_expr q))) s) (\<lambda>(bits, s1).
     bind_res (may_be_zero S q s1) (\<lambda>(res, s2).
     bind_res
       (if res then Inr (0, s2)
        else bind_res (maxValueOfNBits (nat bits)) (\<lambda>hi. bsearch (may_be_atmost S q) 0 hi s2))
       (\<lambda>(min, s3).
     bind_res (maxValueOfNBits (nat bits)) (\<lambda>hi.
     bind_res (bsearch (must_be_atmost S q) min hi s3) (\<lambda>(max, s4).
       Inr ((min, max), s4))))))"

definition getRange :: "'s impl \<Rightarrow> query \<Rightarrow> 's \<Rightarrow> ((expr \<times> expr) \<times> 's) result" where
  "getRange S q s =
     (let w = getWidth (q_expr q) in
      bind_res
        (if w = 1
         then map_res (\<lambda>(v, s').
             (case v of SolverTrue \<Rightarrow> (1, 1) | SolverFalse \<Rightarrow> (0, 0) | SolverUnknown \<Rightarrow> (0, 1), s'))
           (assert_success (solver_evaluate S q s))
         else if is_Constant (q_expr q)
         then map_res (\<lambda>v. ((v, v), s)) (getZExtValue 64 (q_expr q))
         else search_range S q s)
        (\<lambda>((min, max), s'). bind_res (ConstantExpr_create min w) (\<lambda>lo.
          map_res (\<lambda>hi. ((lo, hi), s')) (ConstantExpr_create max w))))"

section \<open>What the answers mean\<close>

text \<open>
  The contents the solver ranges over: any contents of the arrays. What a read outside of the
  bounds of an array gives, which the bounds checks of the interpreter exclude, is fixed to zero.
\<close>

definition wf_model :: "env \<Rightarrow> bool" where
  "wf_model \<rho> \<longleftrightarrow> wf_env \<rho>
     \<and> (\<forall>a j. \<not> (0 \<le> j \<and> j < int (arr_size a)) \<longrightarrow> \<rho> a j = 0)"

definition feasible :: "constraints \<Rightarrow> bool" where
  "feasible cs \<longleftrightarrow> (\<exists>\<rho>. wf_model \<rho> \<and> sat \<rho> cs)"

definition values_of :: "query \<Rightarrow> int set" where
  "values_of q = {eval \<rho> (q_expr q) | \<rho>. wf_model \<rho> \<and> sat \<rho> (q_constraints q)}"

definition valid :: "query \<Rightarrow> bool" where
  "valid q \<longleftrightarrow> values_of q \<subseteq> {1}"

definition refuted :: "query \<Rightarrow> bool" where
  "refuted q \<longleftrightarrow> values_of q \<subseteq> {0}"

definition validity_of :: "query \<Rightarrow> validity" where
  "validity_of q = (if valid q then SolverTrue else if refuted q then SolverFalse else SolverUnknown)"

definition wf_query :: "query \<Rightarrow> bool" where
  "wf_query q \<longleftrightarrow> wf_constraints (q_constraints q) \<and> wf_expr (q_expr q) \<and> feasible (q_constraints q)"

definition bool_query :: "query \<Rightarrow> bool" where
  "bool_query q \<longleftrightarrow> wf_query q \<and> getWidth (q_expr q) = 1"

text \<open>The constraints of a request for initial values may be unsatisfiable.\<close>

definition bool_form :: "query \<Rightarrow> bool" where
  "bool_form q \<longleftrightarrow> wf_constraints (q_constraints q) \<and> wf_expr (q_expr q) \<and> getWidth (q_expr q) = 1"

text \<open>
  The bytes of the symbolic objects extend to contents that satisfy the constraints but not the
  query. An object that is a constant array gets some bytes too; nothing reads them.
\<close>

definition has_bytes :: "env \<Rightarrow> array list \<Rightarrow> int list list \<Rightarrow> bool" where
  "has_bytes \<rho> objects values \<longleftrightarrow>
     list_all2 (\<lambda>a vs. length vs = arr_size a
       \<and> (isSymbolicArray a \<longrightarrow> (\<forall>j < arr_size a. vs ! j = \<rho> a (int j)))) objects values"

definition counterexample :: "query \<Rightarrow> array list \<Rightarrow> int list list \<Rightarrow> bool" where
  "counterexample q objects values \<longleftrightarrow>
     (\<exists>\<rho>. wf_model \<rho> \<and> sat \<rho> (q_constraints q) \<and> eval \<rho> (q_expr q) = 0
        \<and> has_bytes \<rho> objects values)"

text \<open>
  What may go wrong with a call besides a wrong answer: nothing, that it returns \<open>false\<close>, or
  also that it aborts.
\<close>

datatype mode = MustAnswer | MayFail | MayAbort

definition answers :: "mode \<Rightarrow> ('s \<Rightarrow> bool) \<Rightarrow> ('a \<Rightarrow> bool) \<Rightarrow> ('a option \<times> 's) result \<Rightarrow> bool" where
  "answers m ok P x \<longleftrightarrow>
     (case x of
        Inl err \<Rightarrow> m = MayAbort
      | Inr (None, s) \<Rightarrow> m \<noteq> MustAnswer \<and> ok s
      | Inr (Some a, s) \<Rightarrow> P a \<and> ok s)"

section \<open>Values and validity\<close>

lemma withExpr_simps [simp]:
  "q_constraints (withExpr q e) = q_constraints q" "q_expr (withExpr q e) = e"
  by (simp_all add: withExpr_def)

lemma withFalse_withExpr: "withFalse q = withExpr q (Constant 1 0)"
  by (simp add: withFalse_def withExpr_def)

lemma wf_model_env [intro]: "wf_model \<rho> \<Longrightarrow> wf_env \<rho>"
  by (simp add: wf_model_def)

lemma values_ofE:
  assumes "v \<in> values_of q"
  obtains \<rho> where "wf_model \<rho>" "sat \<rho> (q_constraints q)" "v = eval \<rho> (q_expr q)"
  using assms by (auto simp: values_of_def)

lemma values_ofI: "wf_model \<rho> \<Longrightarrow> sat \<rho> (q_constraints q) \<Longrightarrow> eval \<rho> (q_expr q) \<in> values_of q"
  by (auto simp: values_of_def)

lemma values_of_nonempty: "wf_query q \<Longrightarrow> values_of q \<noteq> {}"
  by (auto simp: wf_query_def feasible_def values_of_def)

lemma values_of_in_width: "wf_query q \<Longrightarrow> v \<in> values_of q \<Longrightarrow> in_width (getWidth (q_expr q)) v"
  by (auto simp: wf_query_def values_of_def intro: eval_in_width)

lemma values_of_bool: "bool_query q \<Longrightarrow> values_of q \<subseteq> {0, 1}"
  using values_of_in_width[of q] by (auto simp: bool_query_def in_width_bool)

lemma values_of_map:
  assumes "\<And>\<rho>. wf_model \<rho> \<Longrightarrow> eval \<rho> e = f (eval \<rho> (q_expr q))"
  shows "values_of (withExpr q e) = f ` values_of q"
proof -
  have "eval \<rho> (q_expr (withExpr q e)) = f (eval \<rho> (q_expr q))" if "wf_model \<rho>" for \<rho>
    using assms[OF that] by simp
  then show ?thesis by (force simp: values_of_def)
qed

lemma valid_iff: "valid q \<longleftrightarrow> (\<forall>v \<in> values_of q. v = 1)"
  by (auto simp: valid_def)

lemma refuted_iff: "refuted q \<longleftrightarrow> (\<forall>v \<in> values_of q. v = 0)"
  by (auto simp: refuted_def)

lemma bool_query_withExpr:
  "wf_query q \<Longrightarrow> wf_expr e \<Longrightarrow> getWidth e = 1 \<Longrightarrow> bool_query (withExpr q e)"
  by (simp add: bool_query_def wf_query_def)

lemma valid_not_refuted: "wf_query q \<Longrightarrow> valid q \<Longrightarrow> \<not> refuted q"
  using values_of_nonempty[of q] by (auto simp: valid_iff refuted_iff) (metis all_not_in_conv zero_neq_one)

lemma not_refuted_iff: "bool_query q \<Longrightarrow> \<not> refuted q \<longleftrightarrow> 1 \<in> values_of q"
  using values_of_bool[of q] by (fastforce simp: refuted_iff)

lemma not_valid_iff: "bool_query q \<Longrightarrow> \<not> valid q \<longleftrightarrow> 0 \<in> values_of q"
  using values_of_bool[of q] by (fastforce simp: valid_iff)

lemma wf_query_parts:
  assumes "wf_query q"
  shows "wf_constraints (q_constraints q)" "wf_expr (q_expr q)" "feasible (q_constraints q)"
  using assms by (simp_all add: wf_query_def)

text \<open>The negated query.\<close>

lemma createIsZero_facts:
  assumes "wf_expr e"
  shows "wf_expr (createIsZero e)" "getWidth (createIsZero e) = 1"
    "wf_env \<rho> \<Longrightarrow> eval \<rho> (createIsZero e) = of_bool (eval \<rho> e = 0)"
proof -
  have wf: "wf_expr (Binary Eq e (Constant (getWidth e) 0))"
    using assms wf_width_pos[OF assms] by simp
  show "wf_expr (createIsZero e)" "getWidth (createIsZero e) = 1"
    "wf_env \<rho> \<Longrightarrow> eval \<rho> (createIsZero e) = of_bool (eval \<rho> e = 0)"
    using sem_eqD[OF createIsZero_sem_eq wf] by simp_all
qed

lemma values_of_negateExpr:
  "wf_query q \<Longrightarrow> values_of (negateExpr q) = (\<lambda>v. of_bool (v = 0)) ` values_of q"
  unfolding negateExpr_def
  by (rule values_of_map) (simp add: createIsZero_facts(3) wf_query_parts(2) wf_model_env)

lemma bool_query_negateExpr: "wf_query q \<Longrightarrow> bool_query (negateExpr q)"
  unfolding negateExpr_def
  by (intro bool_query_withExpr) (simp_all add: createIsZero_facts wf_query_parts)

lemma valid_negateExpr: "wf_query q \<Longrightarrow> valid (negateExpr q) = refuted q"
  by (auto simp: valid_iff refuted_iff values_of_negateExpr)

lemma refuted_negateExpr: "bool_query q \<Longrightarrow> refuted (negateExpr q) = valid q"
  using values_of_bool[of q]
  by (auto simp: valid_iff refuted_iff values_of_negateExpr bool_query_def)

lemma bool_query_wf: "bool_query q \<Longrightarrow> wf_query q"
  by (simp add: bool_query_def)

lemma Constant_query:
  assumes "bool_query q" "is_Constant (q_expr q)"
  shows "valid q \<longleftrightarrow> isTrue (q_expr q)" "refuted q \<longleftrightarrow> \<not> isTrue (q_expr q)"
proof -
  obtain v where v: "q_expr q = Constant 1 v" "v = 0 \<or> v = 1"
    using assms by (cases "q_expr q") (auto simp: bool_query_def wf_query_def in_width_bool)
  then have "values_of q = {v}"
    using values_of_nonempty[OF bool_query_wf[OF assms(1)]] by (auto simp: values_of_def)
  with v show "valid q \<longleftrightarrow> isTrue (q_expr q)" "refuted q \<longleftrightarrow> \<not> isTrue (q_expr q)"
    by (auto simp: valid_iff refuted_iff)
qed

section \<open>Composing calls\<close>

lemma answers_on_success:
  assumes "answers m ok P x" "\<And>a s. P a \<Longrightarrow> ok s \<Longrightarrow> answers m ok Q (f a s)"
  shows "answers m ok Q (on_success x f)"
proof (cases x)
  case (Inr rs)
  obtain r s where rs: "rs = (r, s)" by (cases rs)
  show ?thesis
  proof (cases r)
    case (Some a)
    with assms(1) Inr rs have "P a" "ok s" by (simp_all add: answers_def)
    with assms(2)[of a s] Inr rs Some show ?thesis by (simp add: on_success_def)
  qed (use assms(1) Inr rs in \<open>simp add: on_success_def answers_def\<close>)
qed (use assms(1) in \<open>simp add: on_success_def answers_def\<close>)

lemma on_success_Some:
  "on_success x f = Inr (Some b, s) \<longleftrightarrow> (\<exists>a s1. x = Inr (Some a, s1) \<and> f a s1 = Inr (Some b, s))"
  by (auto simp: on_success_def split: option.splits)

lemma answers_return_call [simp]: "answers m ok P (return_call a s) \<longleftrightarrow> P a \<and> ok s"
  by (simp add: answers_def return_call_def)

lemma answers_MustAnswer: "answers MustAnswer ok P x \<Longrightarrow> \<exists>a s. x = Inr (Some a, s) \<and> P a \<and> ok s"
  by (auto simp: answers_def split: sum.splits option.splits)

lemma answers_mono: "answers m ok P x \<Longrightarrow> (\<And>a. P a \<Longrightarrow> Q a) \<Longrightarrow> answers m ok Q x"
  by (auto simp: answers_def split: sum.splits option.splits)

text \<open>A computation of the client, which turns a failure into a failed assertion.\<close>

definition runs :: "mode \<Rightarrow> ('s \<Rightarrow> bool) \<Rightarrow> ('a \<Rightarrow> bool) \<Rightarrow> ('a \<times> 's) result \<Rightarrow> bool" where
  "runs m ok P x \<longleftrightarrow> (case x of Inl err \<Rightarrow> m \<noteq> MustAnswer | Inr (a, s) \<Rightarrow> P a \<and> ok s)"

lemma runs_assert_success: "answers m ok P x \<Longrightarrow> runs m ok P (assert_success x)"
  by (auto simp: answers_def runs_def assert_success_def map_res_def split: sum.splits option.splits)

lemma runs_bind:
  assumes "runs m ok P x" "\<And>a s. x = Inr (a, s) \<Longrightarrow> P a \<Longrightarrow> ok s \<Longrightarrow> runs m ok Q (f a s)"
  shows "runs m ok Q (bind_res x (\<lambda>(a, s). f a s))"
  using assms by (cases x) (auto simp: runs_def)

lemma runs_Inr [simp]: "runs m ok P (Inr (a, s)) \<longleftrightarrow> P a \<and> ok s"
  by (simp add: runs_def)

lemma runs_mono: "runs m ok P x \<Longrightarrow> (\<And>a. P a \<Longrightarrow> Q a) \<Longrightarrow> runs m ok Q x"
  by (auto simp: runs_def split: sum.splits)

section \<open>The contract of an implementation\<close>

text \<open>Binary search of a monotone predicate that the test decides.\<close>

lemma runs_bsearch:
  assumes "lo \<le> hi" "ok s"
    and "\<And>mid s. lo \<le> mid \<Longrightarrow> mid < hi \<Longrightarrow> ok s \<Longrightarrow> runs m ok (\<lambda>b. b = P mid) (test mid s)"
    and "\<And>i j. P i \<Longrightarrow> i \<le> j \<Longrightarrow> P j"
  shows "runs m ok (\<lambda>r. lo \<le> r \<and> r \<le> hi \<and> (\<forall>i. lo \<le> i \<longrightarrow> i < hi \<longrightarrow> (P i \<longleftrightarrow> r \<le> i)))
    (bsearch test lo hi s)"
  using assms(1-3)
proof (induction test lo hi s rule: bsearch.induct)
  case (1 test lo hi s)
  show ?case
  proof (cases "lo < hi")
    case True
    define mid where "mid = lo + (hi - lo) div 2"
    have mid: "lo \<le> mid" "mid < hi" using True by (auto simp: mid_def)
    show ?thesis
      unfolding bsearch.simps[of test lo hi s] if_P[OF True] Let_def mid_def[symmetric]
    proof (rule runs_bind[OF "1.prems"(3)[OF mid "1.prems"(2)]])
      fix b s' assume x: "test mid s = Inr (b, s')" and b: "b = P mid" and s': "ok s'"
      show "runs m ok (\<lambda>r. lo \<le> r \<and> r \<le> hi \<and> (\<forall>i. lo \<le> i \<longrightarrow> i < hi \<longrightarrow> (P i \<longleftrightarrow> r \<le> i)))
          (if b then bsearch test lo mid s' else bsearch test (mid + 1) hi s')"
      proof (cases b)
        case True
        have "runs m ok (\<lambda>r. lo \<le> r \<and> r \<le> mid \<and> (\<forall>i. lo \<le> i \<longrightarrow> i < mid \<longrightarrow> (P i \<longleftrightarrow> r \<le> i)))
            (bsearch test lo mid s')"
          by (rule "1.IH"(1)[OF \<open>lo < hi\<close> mid_def x refl True mid(1) s'])
            (use "1.prems"(3) mid in auto)
        moreover have "P i" if "mid \<le> i" for i
          using assms(4)[OF _ that] b True by simp
        ultimately show ?thesis
          using True mid by (auto elim!: runs_mono)
      next
        case False
        have "runs m ok (\<lambda>r. mid + 1 \<le> r \<and> r \<le> hi \<and> (\<forall>i. mid + 1 \<le> i \<longrightarrow> i < hi \<longrightarrow> (P i \<longleftrightarrow> r \<le> i)))
            (bsearch test (mid + 1) hi s')"
          by (rule "1.IH"(2)[OF \<open>lo < hi\<close> mid_def x refl False _ s'])
            (use "1.prems"(3) mid in auto)
        moreover have "\<not> P i" if "i \<le> mid" for i
          using assms(4)[OF _ that] b False by auto
        ultimately show ?thesis
          using False mid by (auto elim!: runs_mono) (metis not_le zle_add1_eq_le add.commute)
      qed
    qed
  next
    case False
    with "1.prems"(1,2) show ?thesis unfolding bsearch.simps[of test lo hi s] by simp
  qed
qed

lemma ConstantExpr_create_Inr: "in_width w v \<Longrightarrow> ConstantExpr_create v w = Inr (Constant w v)"
  by (simp add: ConstantExpr_create_def assert_res_def take_bit_in_width flip: take_bit_eq_mask)

lemma maxValueOfNBits_Inr: "n \<le> 64 \<Longrightarrow> maxValueOfNBits n = Inr (2 ^ n - 1)"
proof -
  assume n: "n \<le> 64"
  have "drop_bit (64 - n) (mask 64 :: int) = mask n"
    using n drop_bit_mask_eq[of "64 - n" 64, where 'a = int] by simp
  with n show ?thesis by (auto simp: maxValueOfNBits_def assert_res_def mask_eq_exp_minus_1)
qed

lemma runs_maxValueOfNBits:
  assumes "m = MustAnswer \<Longrightarrow> n \<le> 64" "n \<le> 64 \<Longrightarrow> runs m ok Q (f (2 ^ n - 1))"
  shows "runs m ok Q (bind_res (maxValueOfNBits n) f)"
proof (cases "n \<le> 64")
  case True
  with assms(2) show ?thesis by (simp add: maxValueOfNBits_Inr)
next
  case False
  with assms(1) show ?thesis by (auto simp: maxValueOfNBits_def assert_res_def runs_def)
qed

text \<open>The tight bounds of a set of values, as the searches find them.\<close>

definition is_range :: "int set \<Rightarrow> int \<times> int \<Rightarrow> bool" where
  "is_range V r \<longleftrightarrow> fst r \<in> V \<and> snd r \<in> V \<and> V \<subseteq> {fst r..snd r}"

lemma min_found:
  fixes V :: "int set"
  assumes "V \<noteq> {}" "V \<subseteq> {0..hi}" "0 \<le> r" "r \<le> hi"
    and P: "\<forall>i. 0 \<le> i \<longrightarrow> i < hi \<longrightarrow> ((\<exists>v \<in> V. v \<le> i) \<longleftrightarrow> r \<le> i)"
  shows "r \<in> V \<and> (\<forall>v \<in> V. r \<le> v)"
proof -
  have low: "r \<le> v" if v: "v \<in> V" for v
  proof (cases "v < hi")
    case True
    have "0 \<le> v" using v assms(2) by auto
    have "(\<exists>u \<in> V. u \<le> v) \<longleftrightarrow> r \<le> v" by (rule P[rule_format, OF \<open>0 \<le> v\<close> True])
    moreover have "\<exists>u \<in> V. u \<le> v" using v by (intro bexI[of _ v]) simp_all
    ultimately show ?thesis by simp
  qed (use assms(4) in simp)
  obtain v0 where v0: "v0 \<in> V" using assms(1) by blast
  have "\<exists>v \<in> V. v \<le> r"
  proof (cases "r < hi")
    case True
    from P[rule_format, OF assms(3) True] show ?thesis by simp
  next
    case False
    with v0 assms(2) have "v0 \<le> r" by force
    with v0 show ?thesis by blast
  qed
  then obtain v where "v \<in> V" "v \<le> r" by blast
  with low[of v] have "v = r" by simp
  with \<open>v \<in> V\<close> low show ?thesis by blast
qed

lemma max_found:
  fixes V :: "int set"
  assumes "lo \<in> V" "V \<subseteq> {lo..hi}" "lo \<le> r" "r \<le> hi"
    and "\<forall>i. lo \<le> i \<longrightarrow> i < hi \<longrightarrow> ((\<forall>v \<in> V. v \<le> i) \<longleftrightarrow> r \<le> i)"
  shows "is_range V (lo, r)"
proof -
  have up: "v \<le> r" if v: "v \<in> V" for v
  proof (cases "r < hi")
    case True
    from assms(5)[rule_format, OF assms(3) True] v show ?thesis by simp
  next
    case False
    with v assms(2) show ?thesis by force
  qed
  have "r \<in> V"
  proof (cases "r = lo")
    case False
    have "lo \<le> r - 1" "r - 1 < hi" "\<not> r \<le> r - 1" using False assms(3,4) by auto
    with assms(5)[rule_format, of "r - 1"] have "\<not> (\<forall>v \<in> V. v \<le> r - 1)" by simp
    then obtain v where "v \<in> V" "r \<le> v" by force
    with up show ?thesis by force
  qed (use assms(1) in simp)
  with up assms(1,2) show ?thesis by (auto simp: is_range_def)
qed

locale solver_impl =
  fixes S :: "'s impl" and ok :: "'s \<Rightarrow> bool" and m :: mode
  assumes truth: "ok s \<Longrightarrow> bool_query q \<Longrightarrow> answers m ok (\<lambda>b. b = valid q) (computeTruth S q s)"
    and validity: "ok s \<Longrightarrow> bool_query q \<Longrightarrow> answers m ok (\<lambda>v. v = validity_of q) (computeValidity S q s)"
    and val: "ok s \<Longrightarrow> wf_query q \<Longrightarrow>
      answers m ok (\<lambda>e. \<exists>v \<in> values_of q. e = Constant (getWidth (q_expr q)) v) (computeValue S q s)"

begin

lemma mustBeTrue_ok:
  "ok s \<Longrightarrow> bool_query q \<Longrightarrow> answers m ok (\<lambda>b. b = valid q) (mustBeTrue S q s)"
  using truth[of s q] by (auto simp: mustBeTrue_def assert_res_def bool_query_def Constant_query)

lemma mustBeFalse_ok:
  "ok s \<Longrightarrow> bool_query q \<Longrightarrow> answers m ok (\<lambda>b. b = refuted q) (mustBeFalse S q s)"
  using mustBeTrue_ok[of s "negateExpr q"]
  by (simp add: mustBeFalse_def bool_query_negateExpr valid_negateExpr bool_query_wf)

lemma mayBeTrue_ok:
  "ok s \<Longrightarrow> bool_query q \<Longrightarrow> answers m ok (\<lambda>b. b = (1 \<in> values_of q)) (mayBeTrue S q s)"
  unfolding mayBeTrue_def
  by (rule answers_on_success[OF mustBeFalse_ok]) (auto simp flip: not_refuted_iff)

lemma mayBeFalse_ok:
  "ok s \<Longrightarrow> bool_query q \<Longrightarrow> answers m ok (\<lambda>b. b = (0 \<in> values_of q)) (mayBeFalse S q s)"
  unfolding mayBeFalse_def
  by (rule answers_on_success[OF mustBeTrue_ok]) (auto simp flip: not_valid_iff)

lemma solver_evaluate_ok:
  "ok s \<Longrightarrow> bool_query q \<Longrightarrow> answers m ok (\<lambda>v. v = validity_of q) (solver_evaluate S q s)"
  using validity[of s q]
  by (auto simp: solver_evaluate_def assert_res_def bool_query_def Constant_query validity_of_def)

lemma getValue_ok:
  assumes "ok s" "wf_query q"
  shows "answers m ok (\<lambda>e. \<exists>v \<in> values_of q. e = Constant (getWidth (q_expr q)) v)
    (solver_getValue S q s)"
proof (cases "is_Constant (q_expr q)")
  case True
  then obtain w v where "q_expr q = Constant w v" by (cases "q_expr q") auto
  moreover obtain \<rho> where "wf_model \<rho>" "sat \<rho> (q_constraints q)"
    using wf_query_parts(3)[OF assms(2)] by (auto simp: feasible_def)
  ultimately have "v \<in> values_of q" using values_ofI[of \<rho> q] by simp
  with True assms \<open>q_expr q = Constant w v\<close> show ?thesis by (simp add: solver_getValue_def)
next
  case False
  then show ?thesis
    unfolding solver_getValue_def if_not_P[OF False]
    by (intro answers_on_success[OF val[OF assms]]) (auto simp: assert_res_def)
qed

lemma default_computeValidity_ok:
  assumes "ok s" "bool_query q"
  shows "answers m ok (\<lambda>v. v = validity_of q) (default_computeValidity (computeTruth S) q s)"
  unfolding default_computeValidity_def
proof (rule answers_on_success[OF truth[OF assms]])
  fix true s' assume true: "true = valid q" and s': "ok s'"
  show "answers m ok (\<lambda>v. v = validity_of q)
      (if true then return_call SolverTrue s'
       else on_success (computeTruth S (negateExpr q) s') (\<lambda>false.
         return_call (if false then SolverFalse else SolverUnknown)))"
    using true s' valid_negateExpr[OF bool_query_wf[OF assms(2)]]
      answers_on_success[OF truth[OF s' bool_query_negateExpr[OF bool_query_wf[OF assms(2)]]],
        of "\<lambda>v. v = validity_of q" "\<lambda>false. return_call (if false then SolverFalse else SolverUnknown)"]
    by (simp add: validity_of_def)
qed

text \<open>The queries of \<open>getRange\<close>.\<close>

lemma runs_mustBeTrue:
  assumes "ok s" "wf_query q" "wf_expr e" "getWidth e = 1"
    and "\<And>\<rho>. wf_model \<rho> \<Longrightarrow> eval \<rho> e = of_bool (P (eval \<rho> (q_expr q)))"
  shows "runs m ok (\<lambda>b. b = (\<forall>v \<in> values_of q. P v)) (assert_success (mustBeTrue S (withExpr q e) s))"
  using mustBeTrue_ok[OF assms(1) bool_query_withExpr[OF assms(2,3,4)]] values_of_map[OF assms(5)]
  by (intro runs_assert_success) (simp add: valid_iff)

lemma runs_mayBeTrue:
  assumes "ok s" "wf_query q" "wf_expr e" "getWidth e = 1"
    and "\<And>\<rho>. wf_model \<rho> \<Longrightarrow> eval \<rho> e = of_bool (P (eval \<rho> (q_expr q)))"
  shows "runs m ok (\<lambda>b. b = (\<exists>v \<in> values_of q. P v)) (assert_success (mayBeTrue S (withExpr q e) s))"
proof -
  have "1 \<in> values_of (withExpr q e) \<longleftrightarrow> (\<exists>v \<in> values_of q. P v)"
    using values_of_map[OF assms(5)] by force
  with mayBeTrue_ok[OF assms(1) bool_query_withExpr[OF assms(2,3,4)]] show ?thesis
    by (intro runs_assert_success) simp
qed

end

context solver_impl begin

lemma fits_bits_ok:
  assumes "ok s" "wf_query q" "0 \<le> mid" "mid < int (getWidth (q_expr q))"
  shows "runs m ok (\<lambda>b. b = (\<forall>v \<in> values_of q. v < 2 ^ nat mid)) (fits_bits S q mid s)"
proof -
  define e where "e = q_expr q"
  define w where "w = getWidth e"
  note defs = e_def[symmetric] w_def[symmetric]
  have e: "wf_expr e" and w: "0 < w" "0 \<le> mid" "mid < int w"
    using assms wf_query_parts(2)[OF assms(2)] wf_width_pos[of e] by (auto simp: e_def w_def)
  have "mid < 2 ^ w" using w(3) less_exp[of w] of_nat_less_iff by (metis less_trans of_nat_power of_nat_numeral)
  then have mid: "in_width w mid" using w(2) by (simp add: in_width_def)
  have sh: "wf_expr (Binary LShr e (Constant w mid))" using e mid w(1) by (simp add: w_def)
  note lshr = sem_eqD[OF create_LShr_sem_eq sh]
  have wf: "wf_expr (Binary Eq (create_LShr e (Constant w mid)) (Constant w 0))"
    using lshr(1,2) w(1) by (simp add: w_def)
  note eq = sem_eqD[OF create_Eq_sem_eq wf]
  have "runs m ok (\<lambda>b. b = (\<forall>v \<in> values_of q. drop_bit (nat mid) v = 0))
      (assert_success (mustBeTrue S (withExpr q (create_Eq (create_LShr e (Constant w mid)) (Constant w 0))) s))"
    by (rule runs_mustBeTrue[OF assms(1,2)])
      (use eq lshr w in \<open>auto simp: wf_model_env w_def e_def\<close>)
  moreover have "drop_bit (nat mid) v = 0 \<longleftrightarrow> v < 2 ^ nat mid" if "v \<in> values_of q" for v
    using values_of_in_width[OF assms(2) that]
    by (auto simp: in_width_def drop_bit_eq_div div_eq_0_iff zdiv_eq_0_iff)
  ultimately show ?thesis
    using mid by (simp add: fits_bits_def Let_def defs ConstantExpr_create_Inr)
qed

lemma may_be_zero_ok:
  assumes "ok s" "wf_query q"
  shows "runs m ok (\<lambda>b. b = (0 \<in> values_of q)) (may_be_zero S q s)"
proof -
  have wf: "wf_expr (Binary Eq (q_expr q) (Constant (getWidth (q_expr q)) 0))"
    using wf_query_parts(2)[OF assms(2)] wf_width_pos by simp
  note eq = sem_eqD[OF create_Eq_sem_eq wf]
  have "runs m ok (\<lambda>b. b = (\<exists>v \<in> values_of q. v = 0)) (assert_success
      (mayBeTrue S (withExpr q (create_Eq (q_expr q) (Constant (getWidth (q_expr q)) 0))) s))"
    by (rule runs_mayBeTrue[OF assms]) (use eq in \<open>auto simp: wf_model_env\<close>)
  then show ?thesis by (simp add: may_be_zero_def ConstantExpr_create_Inr)
qed

lemma atmost_facts:
  assumes "wf_query q" "in_width (getWidth (q_expr q)) mid"
  defines "e \<equiv> create_Ule (q_expr q) (Constant (getWidth (q_expr q)) mid)"
  shows "wf_expr e" "getWidth e = 1"
    "wf_model \<rho> \<Longrightarrow> eval \<rho> e = of_bool (eval \<rho> (q_expr q) \<le> mid)"
proof -
  have wf: "wf_expr (Binary Ule (q_expr q) (Constant (getWidth (q_expr q)) mid))"
    using wf_query_parts(2)[OF assms(1)] wf_width_pos assms(2) by simp
  note ule = sem_eqD[OF create_Ule_sem_eq wf]
  show "wf_expr e" "getWidth e = 1" "wf_model \<rho> \<Longrightarrow> eval \<rho> e = of_bool (eval \<rho> (q_expr q) \<le> mid)"
    using ule by (simp_all add: e_def wf_model_env)
qed

lemma may_be_atmost_ok:
  assumes "ok s" "wf_query q" "in_width (getWidth (q_expr q)) mid"
  shows "runs m ok (\<lambda>b. b = (\<exists>v \<in> values_of q. v \<le> mid)) (may_be_atmost S q mid s)"
  using runs_mayBeTrue[OF assms(1,2) atmost_facts[OF assms(2,3)]] assms(3)
  by (simp add: may_be_atmost_def ConstantExpr_create_Inr)

lemma must_be_atmost_ok:
  assumes "ok s" "wf_query q" "in_width (getWidth (q_expr q)) mid"
  shows "runs m ok (\<lambda>b. b = (\<forall>v \<in> values_of q. v \<le> mid)) (must_be_atmost S q mid s)"
  using runs_mustBeTrue[OF assms(1,2) atmost_facts[OF assms(2,3)]] assms(3)
  by (simp add: must_be_atmost_def ConstantExpr_create_Inr)

text \<open>
  Once \<open>n\<close> bits are known to hold every value, the searches below \<open>2 ^ n - 1\<close> find the least
  and the greatest value.
\<close>

lemma find_bits_ok:
  assumes "ok s" "wf_query q"
  shows "runs m ok (\<lambda>r. 0 \<le> r \<and> r \<le> int (getWidth (q_expr q)) \<and> values_of q \<subseteq> {0..2 ^ nat r - 1})
    (bsearch (fits_bits S q) 0 (int (getWidth (q_expr q))) s)"
proof -
  define V where "V = values_of q"
  define w where "w = getWidth (q_expr q)"
  have V: "0 \<le> v \<and> v < 2 ^ w" if "v \<in> V" for v
    using values_of_in_width[OF assms(2)] that by (auto simp: V_def w_def in_width_def)
  have mono: "\<forall>v \<in> V. v < 2 ^ nat j" if "\<forall>v \<in> V. v < 2 ^ nat i" "i \<le> j" for i j
  proof -
    have "(2::int) ^ nat i \<le> 2 ^ nat j" using that(2) by (intro power_increasing) auto
    with that(1) show ?thesis by (meson less_le_trans)
  qed
  have search: "runs m ok (\<lambda>r. 0 \<le> r \<and> r \<le> int w \<and>
      (\<forall>i. 0 \<le> i \<longrightarrow> i < int w \<longrightarrow> ((\<forall>v \<in> V. v < 2 ^ nat i) \<longleftrightarrow> r \<le> i)))
      (bsearch (fits_bits S q) 0 (int w) s)"
    by (rule runs_bsearch[where ok = ok, OF _ assms(1)])
      (use fits_bits_ok[OF _ assms(2)] mono in \<open>auto simp: V_def w_def\<close>)
  have "V \<subseteq> {0..2 ^ nat r - 1}"
    if "0 \<le> r" "r \<le> int w" "\<forall>i. 0 \<le> i \<longrightarrow> i < int w \<longrightarrow> ((\<forall>v \<in> V. v < 2 ^ nat i) \<longleftrightarrow> r \<le> i)" for r
  proof -
    have "\<forall>v \<in> V. v < 2 ^ nat r"
      using that(3)[rule_format, OF that(1)] that(1,2) V by (cases "r = int w") auto
    with V show ?thesis by force
  qed
  with runs_mono[OF search] show ?thesis by (simp add: V_def w_def)
qed

lemma below_bits: "n \<le> w \<Longrightarrow> 0 \<le> i \<Longrightarrow> i < 2 ^ n - 1 \<Longrightarrow> in_width w i"
  using in_width_mono[of n i w] by (simp add: in_width_def)

lemma find_min_ok:
  assumes "ok s" "wf_query q" "n \<le> getWidth (q_expr q)" "values_of q \<subseteq> {0..2 ^ n - 1}"
  shows "runs m ok (\<lambda>r. r \<in> values_of q \<and> (\<forall>v \<in> values_of q. r \<le> v))
    (bsearch (may_be_atmost S q) 0 (2 ^ n - 1) s)"
proof -
  have "runs m ok (\<lambda>r. 0 \<le> r \<and> r \<le> 2 ^ n - 1 \<and>
      (\<forall>i. 0 \<le> i \<longrightarrow> i < 2 ^ n - 1 \<longrightarrow> ((\<exists>v \<in> values_of q. v \<le> i) \<longleftrightarrow> r \<le> i)))
      (bsearch (may_be_atmost S q) 0 (2 ^ n - 1) s)"
    by (intro runs_bsearch[where ok = ok, OF _ assms(1)] may_be_atmost_ok[OF _ assms(2)])
      (auto intro: below_bits[OF assms(3)] order_trans)
  then show ?thesis
    by (rule runs_mono) (use min_found[OF values_of_nonempty[OF assms(2)] assms(4)] in blast)
qed

lemma find_max_ok:
  assumes "ok s" "wf_query q" "n \<le> getWidth (q_expr q)" "values_of q \<subseteq> {0..2 ^ n - 1}"
    and lo: "lo \<in> values_of q" "\<forall>v \<in> values_of q. lo \<le> v"
  shows "runs m ok (\<lambda>r. is_range (values_of q) (lo, r)) (bsearch (must_be_atmost S q) lo (2 ^ n - 1) s)"
proof -
  have lo': "0 \<le> lo" "lo \<le> 2 ^ n - 1" "values_of q \<subseteq> {lo..2 ^ n - 1}"
    using lo assms(4) by auto
  have "runs m ok (\<lambda>r. lo \<le> r \<and> r \<le> 2 ^ n - 1 \<and>
      (\<forall>i. lo \<le> i \<longrightarrow> i < 2 ^ n - 1 \<longrightarrow> ((\<forall>v \<in> values_of q. v \<le> i) \<longleftrightarrow> r \<le> i)))
      (bsearch (must_be_atmost S q) lo (2 ^ n - 1) s)"
    by (intro runs_bsearch[where ok = ok, OF _ assms(1)] must_be_atmost_ok[OF _ assms(2)])
      (use lo' in \<open>auto intro: below_bits[OF assms(3)]\<close>)
  then show ?thesis by (rule runs_mono) (use max_found[OF lo(1) lo'(3)] in blast)
qed

lemma search_range_ok:
  assumes "ok s" "wf_query q" "m = MustAnswer \<Longrightarrow> getWidth (q_expr q) \<le> 64"
  shows "runs m ok (is_range (values_of q)) (search_range S q s)"
  unfolding search_range_def
proof (rule runs_bind[OF find_bits_ok[OF assms(1,2)]], elim conjE)
  fix bits s1
  assume s1: "ok s1" and bits: "0 \<le> bits" "bits \<le> int (getWidth (q_expr q))"
    "values_of q \<subseteq> {0..2 ^ nat bits - 1}"
  define n where "n = nat bits"
  have n: "n \<le> getWidth (q_expr q)" "m = MustAnswer \<Longrightarrow> n \<le> 64"
    using bits(1,2) assms(3) by (auto simp: n_def)
  note V = bits(3)[folded n_def]
  have least: "runs m ok (\<lambda>r. r \<in> values_of q \<and> (\<forall>v \<in> values_of q. r \<le> v))
      (if res then Inr (0, s2)
       else bind_res (maxValueOfNBits n) (\<lambda>hi. bsearch (may_be_atmost S q) 0 hi s2))"
    if "res = (0 \<in> values_of q)" "ok s2" for res s2
    using that V find_min_ok[OF that(2) assms(2) n(1) V] n(2)
    by (auto intro!: runs_maxValueOfNBits)
  show "runs m ok (is_range (values_of q))
      (bind_res (may_be_zero S q s1) (\<lambda>(res, s2).
       bind_res
         (if res then Inr (0, s2)
          else bind_res (maxValueOfNBits (nat bits)) (\<lambda>hi. bsearch (may_be_atmost S q) 0 hi s2))
         (\<lambda>(min, s3).
       bind_res (maxValueOfNBits (nat bits)) (\<lambda>hi.
       bind_res (bsearch (must_be_atmost S q) min hi s3) (\<lambda>(max, s4).
         Inr ((min, max), s4))))))"
    unfolding n_def[symmetric]
    by (rule runs_bind[OF may_be_zero_ok[OF s1 assms(2)]], rule runs_bind[OF least])
      (auto intro!: runs_maxValueOfNBits n(2)
        intro: runs_bind[OF find_max_ok[OF _ assms(2) n(1) V]])
qed

lemma getRange_ok:
  assumes "ok s" "wf_query q" "m = MustAnswer \<Longrightarrow> getWidth (q_expr q) \<le> 64"
  shows "runs m ok (\<lambda>(lo, hi). \<exists>l h. lo = Constant (getWidth (q_expr q)) l
    \<and> hi = Constant (getWidth (q_expr q)) h \<and> is_range (values_of q) (l, h)) (getRange S q s)"
proof -
  define w where "w = getWidth (q_expr q)"
  have bounds: "runs m ok (is_range (values_of q))
      (if w = 1
       then map_res (\<lambda>(v, s').
           (case v of SolverTrue \<Rightarrow> (1, 1) | SolverFalse \<Rightarrow> (0, 0) | SolverUnknown \<Rightarrow> (0, 1), s'))
         (assert_success (solver_evaluate S q s))
       else if is_Constant (q_expr q)
       then map_res (\<lambda>v. ((v, v), s)) (getZExtValue 64 (q_expr q))
       else search_range S q s)"
  proof -
    consider "w = 1" | "w \<noteq> 1" "is_Constant (q_expr q)" | "w \<noteq> 1" "\<not> is_Constant (q_expr q)" by blast
    then show ?thesis
    proof cases
      case 1
      then have q: "bool_query q" using assms(2) by (simp add: bool_query_def w_def)
      have "is_range (values_of q)
          (case validity_of q of SolverTrue \<Rightarrow> (1, 1) | SolverFalse \<Rightarrow> (0, 0) | SolverUnknown \<Rightarrow> (0, 1))"
        using values_of_nonempty[OF assms(2)] values_of_bool[OF q]
        by (auto simp: validity_of_def is_range_def valid_def refuted_def)
      with 1 runs_assert_success[OF solver_evaluate_ok[OF assms(1) q]] show ?thesis
        by (auto simp: runs_def map_res_def split: sum.splits)
    next
      case 2
      then obtain v where v: "q_expr q = Constant w v" by (cases "q_expr q") (auto simp: w_def)
      then have "values_of q = {v}"
        using values_of_nonempty[OF assms(2)] by (auto simp: values_of_def)
      with 2 v assms show ?thesis
        by (auto simp: getZExtValue_def is_range_def assert_res_def runs_def map_res_def)
    next
      case 3
      with search_range_ok[OF assms] show ?thesis by simp
    qed
  qed
  have width: "in_width w v" if "v \<in> values_of q" for v
    using values_of_in_width[OF assms(2) that] by (simp add: w_def)
  show ?thesis
    unfolding getRange_def Let_def w_def[symmetric]
    using bounds
    by (rule runs_bind)
      (auto simp: is_range_def ConstantExpr_create_Inr width map_res_def split: prod.splits)
qed

end

locale initial_impl =
  fixes S :: "'s impl" and ok :: "'s \<Rightarrow> bool" and m :: mode
  assumes initial: "ok s \<Longrightarrow> bool_form q \<Longrightarrow> \<forall>a \<in> set objects. wf_array a \<Longrightarrow>
      answers m ok (\<lambda>r. case r of None \<Rightarrow> valid q | Some values \<Rightarrow> counterexample q objects values)
        (computeInitialValues S q objects s)"
begin

text \<open>\<open>getInitialValues\<close> also fails when there is no solution.\<close>

lemma getInitialValues_ok:
  assumes "ok s" "bool_form q" "\<forall>a \<in> set objects. wf_array a"
  shows "answers (if m = MayAbort then MayAbort else MayFail) ok (counterexample q objects)
    (getInitialValues S q objects s)"
  using initial[OF assms]
  by (auto simp: getInitialValues_def answers_def on_success_def split: sum.splits option.splits prod.splits)

end

text \<open>The dummy solver meets the contract: it never answers.\<close>

interpretation dummy: solver_impl DummySolver "\<lambda>_. True" MayFail
  by unfold_locales (auto simp: DummySolver_def answers_def)

interpretation dummy: initial_impl DummySolver "\<lambda>_. True" MayFail
  by unfold_locales (auto simp: DummySolver_def answers_def)

end
