(* ===== verification/SolverCache.thy ===== *)
theory SolverCache
  imports Solver ExprCompare
begin

text \<open>
  The solvers that wrap another one and keep its contract: the staged solver
  (\<open>klee/lib/Solver/IncompleteSolver.cpp\<close>), the validating solver (\<open>ValidatingSolver.cpp\<close>) and
  the caching solver (\<open>CachingSolver.cpp\<close>), whose cache must stay true of every query it holds.
\<close>

section \<open>Incomplete solvers\<close>

datatype partial_validity = MustBeTrue | MustBeFalse | MayBeTrue | MayBeFalse | TrueOrFalse | PVNone

fun negatePartialValidity :: "partial_validity \<Rightarrow> partial_validity result" where
  "negatePartialValidity MustBeTrue = Inr MustBeFalse"
| "negatePartialValidity MustBeFalse = Inr MustBeTrue"
| "negatePartialValidity MayBeTrue = Inr MayBeFalse"
| "negatePartialValidity MayBeFalse = Inr MayBeTrue"
| "negatePartialValidity TrueOrFalse = Inr TrueOrFalse"
| "negatePartialValidity PVNone = Inl AssertionFailed"

text \<open>
  An incomplete solver answers with a partial validity and never fails; \<open>computeValue\<close> and
  \<open>computeInitialValues\<close> may give up.
\<close>

record 'p incomplete =
  inc_computeTruth :: "query \<Rightarrow> 'p \<Rightarrow> (partial_validity \<times> 'p) result"
  inc_computeValidity :: "query \<Rightarrow> 'p \<Rightarrow> (partial_validity \<times> 'p) result"
  inc_computeValue :: "query \<Rightarrow> ('p, expr) call"
  inc_computeInitialValues :: "query \<Rightarrow> array list \<Rightarrow> ('p, int list list option) call"

text \<open>\<open>IncompleteSolver::computeValidity\<close>, the default.\<close>

definition incomplete_computeValidity ::
    "(query \<Rightarrow> 'p \<Rightarrow> (partial_validity \<times> 'p) result) \<Rightarrow> query \<Rightarrow> 'p \<Rightarrow> (partial_validity \<times> 'p) result"
where
  "incomplete_computeValidity truth q s =
     bind_res (truth q s) (\<lambda>(trueResult, s1).
       if trueResult = MustBeTrue then Inr (MustBeTrue, s1)
       else map_res (\<lambda>(falseResult, s2).
         (if falseResult = MustBeTrue then MustBeFalse
          else if trueResult \<noteq> PVNone \<and> falseResult \<noteq> PVNone then TrueOrFalse
          else if trueResult \<noteq> PVNone then MayBeFalse
          else if falseResult \<noteq> PVNone then MayBeTrue
          else PVNone, s2)) (truth (negateExpr q) s1))"

text \<open>\<open>StagedSolverImpl\<close>: its state is the primary's and the secondary's.\<close>

definition lift_secondary :: "'p \<Rightarrow> ('a option \<times> 's) result \<Rightarrow> ('a option \<times> ('p \<times> 's)) result" where
  "lift_secondary p x = map_res (\<lambda>(r, s). (r, (p, s))) x"

definition staged_computeTruth ::
    "'p incomplete \<Rightarrow> 's impl \<Rightarrow> query \<Rightarrow> ('p \<times> 's, bool) call" where
  "staged_computeTruth A S q ps =
     bind_res (inc_computeTruth A q (fst ps)) (\<lambda>(trueResult, p).
       if trueResult \<noteq> PVNone then return_call (trueResult = MustBeTrue) (p, snd ps)
       else lift_secondary p (computeTruth S q (snd ps)))"

definition staged_computeValidity ::
    "'p incomplete \<Rightarrow> 's impl \<Rightarrow> query \<Rightarrow> ('p \<times> 's, validity) call" where
  "staged_computeValidity A S q ps =
     bind_res (inc_computeValidity A q (fst ps)) (\<lambda>(pv, p).
       case pv of
         MustBeTrue \<Rightarrow> return_call SolverTrue (p, snd ps)
       | MustBeFalse \<Rightarrow> return_call SolverFalse (p, snd ps)
       | TrueOrFalse \<Rightarrow> return_call SolverUnknown (p, snd ps)
       | MayBeTrue \<Rightarrow> on_success (lift_secondary p (computeTruth S q (snd ps)))
           (\<lambda>tmp. return_call (if tmp then SolverTrue else SolverUnknown))
       | MayBeFalse \<Rightarrow> on_success (lift_secondary p (computeTruth S (negateExpr q) (snd ps)))
           (\<lambda>tmp. return_call (if tmp then SolverFalse else SolverUnknown))
       | PVNone \<Rightarrow> lift_secondary p (computeValidity S q (snd ps)))"

definition staged_computeValue ::
    "'p incomplete \<Rightarrow> 's impl \<Rightarrow> query \<Rightarrow> ('p \<times> 's, expr) call" where
  "staged_computeValue A S q ps =
     bind_res (inc_computeValue A q (fst ps)) (\<lambda>(r, p).
       case r of Some e \<Rightarrow> return_call e (p, snd ps)
       | None \<Rightarrow> lift_secondary p (computeValue S q (snd ps)))"

definition staged_computeInitialValues ::
    "'p incomplete \<Rightarrow> 's impl \<Rightarrow> query \<Rightarrow> array list \<Rightarrow> ('p \<times> 's, int list list option) call" where
  "staged_computeInitialValues A S q objects ps =
     bind_res (inc_computeInitialValues A q objects (fst ps)) (\<lambda>(r, p).
       case r of Some v \<Rightarrow> return_call v (p, snd ps)
       | None \<Rightarrow> lift_secondary p (computeInitialValues S q objects (snd ps)))"

definition StagedSolverImpl :: "'p incomplete \<Rightarrow> 's impl \<Rightarrow> ('p \<times> 's) impl" where
  "StagedSolverImpl A S =
     \<lparr>computeTruth = staged_computeTruth A S, computeValidity = staged_computeValidity A S,
      computeValue = staged_computeValue A S,
      computeInitialValues = staged_computeInitialValues A S\<rparr>"

section \<open>The validating solver\<close>

text \<open>
  Both solvers are part of the state. The values of the objects are asserted as constraints in
  the order of the objects; \<open>values[i][j]\<close> past the end is an error.
\<close>

type_synonym ('s, 'o) validating = "'s \<times> 'o"

definition from_solver :: "('s, 'a) call \<Rightarrow> ('s \<times> 'o, 'a) call" where
  "from_solver f so = map_res (\<lambda>(r, s). (r, (s, snd so))) (f (fst so))"

definition from_oracle :: "('o, 'a) call \<Rightarrow> ('s \<times> 'o, 'a) call" where
  "from_oracle f so = map_res (\<lambda>(r, t). (r, (fst so, t))) (f (snd so))"

definition validating_computeTruth ::
    "'s impl \<Rightarrow> 'o impl \<Rightarrow> query \<Rightarrow> ('s \<times> 'o, bool) call" where
  "validating_computeTruth S R q so =
     on_success (from_solver (computeTruth S q) so) (\<lambda>isValid so1.
     on_success (from_oracle (computeTruth R q) so1) (\<lambda>answer so2.
       assert_res (isValid = answer) (return_call isValid so2)))"

definition validating_computeValidity ::
    "'s impl \<Rightarrow> 'o impl \<Rightarrow> query \<Rightarrow> ('s \<times> 'o, validity) call" where
  "validating_computeValidity S R q so =
     on_success (from_solver (computeValidity S q) so) (\<lambda>result so1.
     on_success (from_oracle (computeValidity R q) so1) (\<lambda>answer so2.
       assert_res (result = answer) (return_call result so2)))"

definition validating_computeValue ::
    "'s impl \<Rightarrow> 'o impl \<Rightarrow> query \<Rightarrow> ('s \<times> 'o, expr) call" where
  "validating_computeValue S R q so =
     on_success (from_solver (computeValue S q) so) (\<lambda>result so1.
     on_success (from_oracle (computeTruth R (withExpr q (create_Ne (q_expr q) result))) so1)
       (\<lambda>answer so2. assert_res (\<not> answer) (return_call result so2)))"

fun binding_constraints :: "array list \<Rightarrow> int list list \<Rightarrow> constraints result" where
  "binding_constraints (a # objects) (vs # values) =
     (if arr_size a \<le> length vs
      then map_res (\<lambda>es. map (\<lambda>j. byte_constraint a j (vs ! j)) [0..<arr_size a] @ es)
        (binding_constraints objects values)
      else Inl OutOfBounds)"
| "binding_constraints [] (vs # values) = Inl OutOfBounds"
| "binding_constraints objects [] = Inr []"

definition validating_computeInitialValues ::
    "'s impl \<Rightarrow> 'o impl \<Rightarrow> query \<Rightarrow> array list \<Rightarrow> ('s \<times> 'o, int list list option) call" where
  "validating_computeInitialValues S R q objects so =
     on_success (from_solver (computeInitialValues S q objects) so) (\<lambda>solution so1.
       case solution of
         Some values \<Rightarrow>
           bind_res (binding_constraints objects values) (\<lambda>tmp.
           on_success
             (from_oracle (computeTruth R
               \<lparr>q_constraints = tmp,
                q_expr = foldl create_And (createIsZero (q_expr q)) (q_constraints q)\<rparr>) so1)
             (\<lambda>answer so2. assert_res answer (return_call solution so2)))
       | None \<Rightarrow>
           on_success (from_oracle (computeTruth R q) so1)
             (\<lambda>answer so2. assert_res answer (return_call solution so2)))"

definition ValidatingSolver :: "'s impl \<Rightarrow> 'o impl \<Rightarrow> ('s \<times> 'o) impl" where
  "ValidatingSolver S R =
     \<lparr>computeTruth = validating_computeTruth S R, computeValidity = validating_computeValidity S R,
      computeValue = validating_computeValue S R,
      computeInitialValues = validating_computeInitialValues S R\<rparr>"

section \<open>The caching solver\<close>

text \<open>
  A key of the cache is the constraints, compared as a list, and the canonical expression. The
  hash only places an entry in the table: two equal keys have equal hashes, so \<open>find\<close> is a
  lookup. \<open>std::unordered_map::insert\<close> keeps the entry a key already has.
\<close>

type_synonym cache_map = "((constraints \<times> expr) \<times> partial_validity) list"

definition canonicalizeQuery ::
    "(width \<Rightarrow> int \<Rightarrow> 32 word) \<Rightarrow> (array \<Rightarrow> array \<Rightarrow> bool) \<Rightarrow> expr \<Rightarrow> expr \<times> bool" where
  "canonicalizeQuery hv plt originalQuery =
     (let negatedQuery = createIsZero originalQuery in
      if compare hv plt originalQuery negatedQuery < 0 then (originalQuery, False)
      else (negatedQuery, True))"

definition cacheLookup ::
    "(width \<Rightarrow> int \<Rightarrow> 32 word) \<Rightarrow> (array \<Rightarrow> array \<Rightarrow> bool) \<Rightarrow> query \<Rightarrow> cache_map
     \<Rightarrow> partial_validity option result" where
  "cacheLookup hv plt q cache =
     (case canonicalizeQuery hv plt (q_expr q) of (canonicalQuery, negationUsed) \<Rightarrow>
        case map_of cache (q_constraints q, canonicalQuery) of
          Some pv \<Rightarrow> map_res Some (if negationUsed then negatePartialValidity pv else Inr pv)
        | None \<Rightarrow> Inr None)"

definition cacheInsert ::
    "(width \<Rightarrow> int \<Rightarrow> 32 word) \<Rightarrow> (array \<Rightarrow> array \<Rightarrow> bool) \<Rightarrow> query \<Rightarrow> partial_validity
     \<Rightarrow> cache_map \<Rightarrow> cache_map result" where
  "cacheInsert hv plt q pv cache =
     (case canonicalizeQuery hv plt (q_expr q) of (canonicalQuery, negationUsed) \<Rightarrow>
        map_res (\<lambda>cachedResult.
            let ce = (q_constraints q, canonicalQuery) in
            if map_of cache ce = None then (ce, cachedResult) # cache else cache)
          (if negationUsed then negatePartialValidity pv else Inr pv))"

text \<open>The state of the caching solver is its cache and the state of the solver below it.\<close>

type_synonym 's caching = "cache_map \<times> 's"

definition insert_and_return ::
    "(width \<Rightarrow> int \<Rightarrow> 32 word) \<Rightarrow> (array \<Rightarrow> array \<Rightarrow> bool) \<Rightarrow> query \<Rightarrow> partial_validity \<Rightarrow> 'a
     \<Rightarrow> ('s caching, 'a) call" where
  "insert_and_return hv plt q pv a cs =
     bind_res (cacheInsert hv plt q pv (fst cs)) (\<lambda>cache. return_call a (cache, snd cs))"

definition caching_computeTruth ::
    "(width \<Rightarrow> int \<Rightarrow> 32 word) \<Rightarrow> (array \<Rightarrow> array \<Rightarrow> bool) \<Rightarrow> 's impl \<Rightarrow> query \<Rightarrow> ('s caching, bool) call"
where
  "caching_computeTruth hv plt S q cs =
     bind_res (cacheLookup hv plt q (fst cs)) (\<lambda>hit.
       if hit \<noteq> None \<and> hit \<noteq> Some MayBeTrue then return_call (hit = Some MustBeTrue) cs
       else on_success (lift_secondary (fst cs) (computeTruth S q (snd cs))) (\<lambda>isValid cs'.
         if isValid then insert_and_return hv plt q MustBeTrue isValid cs'
         else if hit \<noteq> None
         then assert_res (hit = Some MayBeTrue) (insert_and_return hv plt q TrueOrFalse isValid cs')
         else insert_and_return hv plt q MayBeFalse isValid cs'))"

definition validity_after_lookup ::
    "(width \<Rightarrow> int \<Rightarrow> 32 word) \<Rightarrow> (array \<Rightarrow> array \<Rightarrow> bool) \<Rightarrow> 's impl \<Rightarrow> query
     \<Rightarrow> partial_validity option \<Rightarrow> ('s caching, validity) call" where
  "validity_after_lookup hv plt S q hit cs =
      (case hit of
         Some MustBeTrue \<Rightarrow> return_call SolverTrue cs
       | Some MustBeFalse \<Rightarrow> return_call SolverFalse cs
       | Some TrueOrFalse \<Rightarrow> return_call SolverUnknown cs
       | Some MayBeTrue \<Rightarrow>
           on_success (lift_secondary (fst cs) (computeTruth S q (snd cs))) (\<lambda>tmp.
             if tmp then insert_and_return hv plt q MustBeTrue SolverTrue
             else insert_and_return hv plt q TrueOrFalse SolverUnknown)
       | Some MayBeFalse \<Rightarrow>
           on_success (lift_secondary (fst cs) (computeTruth S (negateExpr q) (snd cs))) (\<lambda>tmp.
             if tmp then insert_and_return hv plt q MustBeFalse SolverFalse
             else insert_and_return hv plt q TrueOrFalse SolverUnknown)
       | Some PVNone \<Rightarrow> Inl AssertionFailed
       | None \<Rightarrow>
           on_success (lift_secondary (fst cs) (computeValidity S q (snd cs))) (\<lambda>result.
             insert_and_return hv plt q
               (case result of SolverTrue \<Rightarrow> MustBeTrue | SolverFalse \<Rightarrow> MustBeFalse
                | SolverUnknown \<Rightarrow> TrueOrFalse) result))"

definition caching_computeValidity ::
    "(width \<Rightarrow> int \<Rightarrow> 32 word) \<Rightarrow> (array \<Rightarrow> array \<Rightarrow> bool) \<Rightarrow> 's impl \<Rightarrow> query
     \<Rightarrow> ('s caching, validity) call" where
  "caching_computeValidity hv plt S q cs =
     bind_res (cacheLookup hv plt q (fst cs)) (\<lambda>hit. validity_after_lookup hv plt S q hit cs)"

definition CachingSolver ::
    "(width \<Rightarrow> int \<Rightarrow> 32 word) \<Rightarrow> (array \<Rightarrow> array \<Rightarrow> bool) \<Rightarrow> 's impl \<Rightarrow> 's caching impl" where
  "CachingSolver hv plt S =
     \<lparr>computeTruth = caching_computeTruth hv plt S,
      computeValidity = caching_computeValidity hv plt S,
      computeValue = (\<lambda>q cs. lift_secondary (fst cs) (computeValue S q (snd cs))),
      computeInitialValues =
        (\<lambda>q objects cs. lift_secondary (fst cs) (computeInitialValues S q objects (snd cs)))\<rparr>"

section \<open>What a partial validity says\<close>

text \<open>
  The comments of \<open>klee/include/klee/Solver/IncompleteSolver.h\<close>. A primary's \<open>computeTruth\<close>
  must not answer \<open>MayBeTrue\<close>: the staged solver would take it for ``not valid''.
\<close>

fun pv_sound :: "query \<Rightarrow> partial_validity \<Rightarrow> bool" where
  "pv_sound q MustBeTrue \<longleftrightarrow> valid q"
| "pv_sound q MustBeFalse \<longleftrightarrow> refuted q"
| "pv_sound q MayBeTrue \<longleftrightarrow> \<not> refuted q"
| "pv_sound q MayBeFalse \<longleftrightarrow> \<not> valid q"
| "pv_sound q TrueOrFalse \<longleftrightarrow> \<not> valid q \<and> \<not> refuted q"
| "pv_sound q PVNone \<longleftrightarrow> True"

lemma negatePartialValidity_sound:
  assumes "bool_query q" "pv \<noteq> PVNone"
  obtains pv' where "negatePartialValidity pv = Inr pv'" "pv' \<noteq> PVNone"
    "pv_sound (negateExpr q) pv' \<longleftrightarrow> pv_sound q pv" "pv_sound (negateExpr q) pv \<longleftrightarrow> pv_sound q pv'"
  using assms that valid_negateExpr[of q] refuted_negateExpr[of q] bool_query_wf[of q]
  by (cases pv) auto

lemma not_valid_of_pv:
  "bool_query q \<Longrightarrow> pv_sound q pv \<Longrightarrow> pv \<noteq> PVNone \<Longrightarrow> pv \<noteq> MayBeTrue \<Longrightarrow> valid q \<longleftrightarrow> pv = MustBeTrue"
  using valid_not_refuted[of q] bool_query_wf[of q] by (cases pv) auto

lemma answers_lift_secondary:
  "answers m ok P x \<Longrightarrow> okp p \<Longrightarrow> answers m (\<lambda>(p, s). okp p \<and> ok s) P (lift_secondary p x)"
  by (auto simp: answers_def lift_secondary_def map_res_def split: sum.splits option.splits prod.splits)

section \<open>The cache stays true\<close>

definition cache_ok :: "cache_map \<Rightarrow> bool" where
  "cache_ok cache \<longleftrightarrow> (\<forall>((cs, e), pv) \<in> set cache. pv \<noteq> PVNone
     \<and> pv_sound \<lparr>q_constraints = cs, q_expr = e\<rparr> pv)"

definition caching_ok :: "('s \<Rightarrow> bool) \<Rightarrow> 's caching \<Rightarrow> bool" where
  "caching_ok ok = (\<lambda>(cache, s). cache_ok cache \<and> ok s)"

lemma canonicalizeQuery_cases:
  obtains "canonicalizeQuery hv plt e = (e, False)"
    | "canonicalizeQuery hv plt e = (createIsZero e, True)"
  by (cases "compare hv plt e (createIsZero e) < 0") (auto simp: canonicalizeQuery_def Let_def)

lemma cache_ok_map_of:
  assumes "cache_ok cache" "map_of cache (q_constraints q, e) = Some pv"
  shows "pv \<noteq> PVNone \<and> pv_sound (withExpr q e) pv"
  using assms(1) map_of_SomeD[OF assms(2)] by (auto simp: cache_ok_def withExpr_def)

lemma withExpr_same [simp]: "withExpr q (q_expr q) = q"
  by (cases q) (simp add: withExpr_def)

lemma cacheLookup_ok:
  assumes "cache_ok cache" "bool_query q"
  obtains hit where "cacheLookup hv plt q cache = Inr hit"
    "\<And>pv. hit = Some pv \<Longrightarrow> pv \<noteq> PVNone \<and> pv_sound q pv"
proof (cases rule: canonicalizeQuery_cases[of hv plt "q_expr q"])
  case 1
  show ?thesis
    by (rule that[of "map_of cache (q_constraints q, q_expr q)"])
      (use 1 cache_ok_map_of[OF assms(1), of q "q_expr q"] in
        \<open>auto simp: cacheLookup_def map_res_def split: option.splits\<close>)
next
  case 2
  show ?thesis
  proof (cases "map_of cache (q_constraints q, createIsZero (q_expr q))")
    case None
    with 2 that show ?thesis by (auto simp: cacheLookup_def)
  next
    case (Some pv)
    from cache_ok_map_of[OF assms(1) Some]
    have pv: "pv \<noteq> PVNone" "pv_sound (negateExpr q) pv" by (simp_all add: negateExpr_def)
    from negatePartialValidity_sound[OF assms(2) pv(1)] obtain pv' where
      "negatePartialValidity pv = Inr pv'" "pv' \<noteq> PVNone" "pv_sound q pv'" using pv(2) by metis
    with 2 Some that show ?thesis by (auto simp: cacheLookup_def map_res_def)
  qed
qed

lemma cacheInsert_ok:
  assumes "cache_ok cache" "bool_query q" "pv \<noteq> PVNone" "pv_sound q pv"
  obtains cache' where "cacheInsert hv plt q pv cache = Inr cache'" "cache_ok cache'"
proof (cases rule: canonicalizeQuery_cases[of hv plt "q_expr q"])
  case 1
  with assms that show ?thesis
    by (cases q) (auto simp: cacheInsert_def map_res_def Let_def cache_ok_def)
next
  case 2
  obtain pv' where "negatePartialValidity pv = Inr pv'" "pv' \<noteq> PVNone"
    "pv_sound (negateExpr q) pv'"
    using negatePartialValidity_sound[OF assms(2,3)] assms(4) by metis
  with 2 assms(1) that show ?thesis
    by (auto simp: cacheInsert_def map_res_def Let_def cache_ok_def negateExpr_def withExpr_def)
qed

lemma answers_insert_and_return:
  assumes "caching_ok ok cs" "bool_query q" "pv \<noteq> PVNone" "pv_sound q pv" "P a"
  shows "answers m (caching_ok ok) P (insert_and_return hv plt q pv a cs)"
proof -
  obtain cache s where cs: "cs = (cache, s)" "cache_ok cache" "ok s"
    using assms(1) by (cases cs) (auto simp: caching_ok_def)
  obtain cache' where "cacheInsert hv plt q pv cache = Inr cache'" "cache_ok cache'"
    using cacheInsert_ok[OF cs(2) assms(2-4)] .
  with cs assms(5) show ?thesis by (simp add: insert_and_return_def caching_ok_def)
qed

context solver_impl begin

lemma caching_computeTruth_ok:
  assumes cs: "caching_ok ok cs" and q: "bool_query q"
  shows "answers m (caching_ok ok) (\<lambda>b. b = valid q) (caching_computeTruth hv plt S q cs)"
proof -
  obtain cache s where eq: "cs = (cache, s)" and ok: "cache_ok cache" "ok s"
    using cs by (cases cs) (auto simp: caching_ok_def)
  obtain hit where look: "cacheLookup hv plt q cache = Inr hit"
    and hit: "\<And>pv. hit = Some pv \<Longrightarrow> pv \<noteq> PVNone \<and> pv_sound q pv"
    using cacheLookup_ok[OF ok(1) q] by metis
  note ask = answers_lift_secondary[where okp = cache_ok, OF truth[OF ok(2) q] ok(1), folded caching_ok_def]
  show ?thesis
  proof (cases "hit \<noteq> None \<and> hit \<noteq> Some MayBeTrue")
    case True
    then obtain pv where pv: "hit = Some pv" "pv \<noteq> MayBeTrue" by auto
    with hit[OF pv(1)] not_valid_of_pv[OF q, of pv] cs eq look True show ?thesis
      by (simp add: caching_computeTruth_def)
  next
    case False
    have parts: "fst cs = cache" "snd cs = s" using eq by simp_all
    have "caching_computeTruth hv plt S q cs =
        on_success (lift_secondary cache (computeTruth S q s)) (\<lambda>isValid cs'.
          if isValid then insert_and_return hv plt q MustBeTrue isValid cs'
          else if hit \<noteq> None
          then assert_res (hit = Some MayBeTrue) (insert_and_return hv plt q TrueOrFalse isValid cs')
          else insert_and_return hv plt q MayBeFalse isValid cs')"
      unfolding caching_computeTruth_def parts look bind_res.simps if_not_P[OF False] ..
    also have "answers m (caching_ok ok) (\<lambda>b. b = valid q) \<dots>"
      by (rule answers_on_success[OF ask])
        (use q False hit in \<open>auto simp: assert_res_def intro!: answers_insert_and_return\<close>)
    finally show ?thesis .
  qed
qed

lemma caching_computeValidity_ok:
  assumes cs: "caching_ok ok cs" and q: "bool_query q"
  shows "answers m (caching_ok ok) (\<lambda>v. v = validity_of q) (caching_computeValidity hv plt S q cs)"
proof -
  obtain cache s where eq: "cs = (cache, s)" and ok: "cache_ok cache" "ok s"
    using cs by (cases cs) (auto simp: caching_ok_def)
  obtain hit where look: "cacheLookup hv plt q cache = Inr hit"
    and hit: "\<And>pv. hit = Some pv \<Longrightarrow> pv \<noteq> PVNone \<and> pv_sound q pv"
    using cacheLookup_ok[OF ok(1) q] by metis
  note neg = bool_query_negateExpr[OF bool_query_wf[OF q]] valid_negateExpr[OF bool_query_wf[OF q]]
  note lift = answers_lift_secondary[where okp = cache_ok, OF _ ok(1), folded caching_ok_def]
  note not_both = valid_not_refuted[OF bool_query_wf[OF q]]
  note ins = answers_insert_and_return[OF _ q]
  have start: "caching_computeValidity hv plt S q cs = validity_after_lookup hv plt S q hit cs"
    using look eq by (simp add: caching_computeValidity_def)
  note defs = start validity_after_lookup_def
  have parts: "fst cs = cache" "snd cs = s" using eq by simp_all
  show ?thesis
  proof (cases hit)
    case None
    show ?thesis
      unfolding defs None option.case parts
      by (rule answers_on_success[OF lift[OF validity[OF ok(2) q]]], rule ins)
        (use not_both in \<open>auto simp: validity_of_def\<close>)
  next
    case (Some pv)
    note pv = hit[OF Some]
    show ?thesis
    proof (cases pv)
      case MayBeTrue
      show ?thesis
        unfolding defs Some option.case parts MayBeTrue partial_validity.case
        by (rule answers_on_success[OF lift[OF truth[OF ok(2) q]]])
          (use pv MayBeTrue in \<open>auto simp: validity_of_def intro!: ins\<close>)
    next
      case MayBeFalse
      show ?thesis
        unfolding defs Some option.case parts MayBeFalse partial_validity.case
        by (rule answers_on_success[OF lift[OF truth[OF ok(2) neg(1)]]])
          (use pv MayBeFalse neg(2) in \<open>auto simp: validity_of_def intro!: ins\<close>)
    qed (use pv cs not_both in \<open>auto simp: start validity_after_lookup_def Some validity_of_def\<close>)
  qed
qed

lemma caching_contract: "solver_impl (CachingSolver hv plt S) (caching_ok ok) m"
proof
  fix cs q
  assume cs: "caching_ok ok cs"
  show "bool_query q \<Longrightarrow> answers m (caching_ok ok) (\<lambda>b. b = valid q)
      (computeTruth (CachingSolver hv plt S) q cs)"
    using caching_computeTruth_ok[OF cs] by (simp add: CachingSolver_def)
  show "bool_query q \<Longrightarrow> answers m (caching_ok ok) (\<lambda>v. v = validity_of q)
      (computeValidity (CachingSolver hv plt S) q cs)"
    using caching_computeValidity_ok[OF cs] by (simp add: CachingSolver_def)
  show "wf_query q \<Longrightarrow> answers m (caching_ok ok)
      (\<lambda>e. \<exists>v \<in> values_of q. e = Constant (getWidth (q_expr q)) v)
      (computeValue (CachingSolver hv plt S) q cs)"
    using cs answers_lift_secondary[where okp = cache_ok, OF val]
    by (auto simp: CachingSolver_def caching_ok_def)
qed

end

context initial_impl begin

lemma caching_initial: "initial_impl (CachingSolver hv plt S) (caching_ok ok) m"
proof
  fix cs q objects
  assume "caching_ok ok cs" "bool_form q" "\<forall>a \<in> set objects. wf_array a"
  then show "answers m (caching_ok ok)
      (\<lambda>r. case r of None \<Rightarrow> valid q | Some values \<Rightarrow> counterexample q objects values)
      (computeInitialValues (CachingSolver hv plt S) q objects cs)"
    using answers_lift_secondary[where okp = cache_ok, OF initial]
    by (auto simp: CachingSolver_def caching_ok_def)
qed

end

section \<open>The staged solver keeps the contract\<close>

definition says :: "('p \<Rightarrow> bool) \<Rightarrow> ('a \<Rightarrow> bool) \<Rightarrow> ('a \<times> 'p) result \<Rightarrow> bool" where
  "says okp P x \<longleftrightarrow> runs MustAnswer okp P x"

lemma says_iff: "says okp P x \<longleftrightarrow> (\<exists>a p. x = Inr (a, p) \<and> P a \<and> okp p)"
  by (cases x) (auto simp: says_def runs_def)

definition inc_truth_ok ::
    "('p \<Rightarrow> bool) \<Rightarrow> (query \<Rightarrow> 'p \<Rightarrow> (partial_validity \<times> 'p) result) \<Rightarrow> bool" where
  "inc_truth_ok okp truth \<longleftrightarrow> (\<forall>q p. okp p \<longrightarrow> bool_query q
     \<longrightarrow> says okp (\<lambda>pv. pv_sound q pv \<and> pv \<noteq> MayBeTrue) (truth q p))"

definition incomplete_ok :: "('p \<Rightarrow> bool) \<Rightarrow> 'p incomplete \<Rightarrow> bool" where
  "incomplete_ok okp A \<longleftrightarrow> inc_truth_ok okp (inc_computeTruth A)
     \<and> (\<forall>q p. okp p \<longrightarrow> bool_query q \<longrightarrow> says okp (pv_sound q) (inc_computeValidity A q p))
     \<and> (\<forall>q p. okp p \<longrightarrow> wf_query q \<longrightarrow> answers MayFail okp
          (\<lambda>e. \<exists>v \<in> values_of q. e = Constant (getWidth (q_expr q)) v) (inc_computeValue A q p))"

lemma incomplete_computeValidity_ok:
  assumes truth: "inc_truth_ok okp truth" and "okp p" "bool_query q"
  shows "says okp (pv_sound q) (incomplete_computeValidity truth q p)"
proof -
  note wf = bool_query_wf[OF assms(3)]
  obtain t p1 where t: "truth q p = Inr (t, p1)" "pv_sound q t" "t \<noteq> MayBeTrue" "okp p1"
    using truth assms(2,3) unfolding inc_truth_ok_def says_iff by blast
  obtain f p2 where f: "truth (negateExpr q) p1 = Inr (f, p2)" "pv_sound (negateExpr q) f"
    "f \<noteq> MayBeTrue" "okp p2"
    using truth t(4) bool_query_negateExpr[OF wf] unfolding inc_truth_ok_def says_iff by blast
  have valid: "t \<noteq> PVNone \<Longrightarrow> valid q \<longleftrightarrow> t = MustBeTrue"
    using not_valid_of_pv[OF assms(3) t(2)] t(3) by blast
  have refuted: "f \<noteq> PVNone \<Longrightarrow> refuted q \<longleftrightarrow> f = MustBeTrue"
    using not_valid_of_pv[OF bool_query_negateExpr[OF wf] f(2)] f(3) valid_negateExpr[OF wf] by blast
  have "pv_sound q (if t = MustBeTrue then MustBeTrue else if f = MustBeTrue then MustBeFalse
      else if t \<noteq> PVNone \<and> f \<noteq> PVNone then TrueOrFalse else if t \<noteq> PVNone then MayBeFalse
      else if f \<noteq> PVNone then MayBeTrue else PVNone)"
    using valid refuted by auto
  then show ?thesis
    unfolding incomplete_computeValidity_def t(1) f(1) bind_res.simps prod.case map_res_def
    using t(4) f(4) by (cases "t = MustBeTrue") (simp_all add: says_iff)
qed

context solver_impl begin

lemma staged_contract:
  assumes A: "incomplete_ok okp A"
  shows "solver_impl (StagedSolverImpl A S) (\<lambda>(p, s). okp p \<and> ok s) m"
proof
  fix ps q
  assume "(\<lambda>(p, s). okp p \<and> ok s) ps"
  then obtain p s where ps: "ps = (p, s)" "okp p" "ok s" by (cases ps) auto
  note lift = answers_lift_secondary[where okp = okp and ok = ok]
  let ?ok = "\<lambda>(p, s). okp p \<and> ok s"
  show "answers m ?ok (\<lambda>b. b = valid q) (computeTruth (StagedSolverImpl A S) q ps)"
    if q: "bool_query q"
  proof -
    obtain pv p1 where pv: "inc_computeTruth A q p = Inr (pv, p1)" "pv_sound q pv"
      "pv \<noteq> MayBeTrue" "okp p1"
      using A ps(2) q unfolding incomplete_ok_def inc_truth_ok_def says_iff by blast
    with ps not_valid_of_pv[OF q pv(2)] lift[OF truth[OF ps(3) q] pv(4)] show ?thesis
      by (simp add: StagedSolverImpl_def staged_computeTruth_def)
  qed
  show "answers m ?ok (\<lambda>v. v = validity_of q) (computeValidity (StagedSolverImpl A S) q ps)"
    if q: "bool_query q"
  proof -
    obtain pv p1 where pv: "inc_computeValidity A q p = Inr (pv, p1)" "pv_sound q pv" "okp p1"
      using A ps(2) q unfolding incomplete_ok_def says_iff by blast
    note neg = truth[OF ps(3) bool_query_negateExpr[OF bool_query_wf[OF q]]]
    note asks = lift[OF truth[OF ps(3) q] pv(3)] lift[OF neg pv(3)] lift[OF validity[OF ps(3) q] pv(3)]
    have parts: "fst ps = p" "snd ps = s" using ps(1) by simp_all
    have step: "computeValidity (StagedSolverImpl A S) q ps = (case pv of
         MustBeTrue \<Rightarrow> return_call SolverTrue (p1, s)
       | MustBeFalse \<Rightarrow> return_call SolverFalse (p1, s)
       | TrueOrFalse \<Rightarrow> return_call SolverUnknown (p1, s)
       | MayBeTrue \<Rightarrow> on_success (lift_secondary p1 (computeTruth S q s))
           (\<lambda>tmp. return_call (if tmp then SolverTrue else SolverUnknown))
       | MayBeFalse \<Rightarrow> on_success (lift_secondary p1 (computeTruth S (negateExpr q) s))
           (\<lambda>tmp. return_call (if tmp then SolverFalse else SolverUnknown))
       | PVNone \<Rightarrow> lift_secondary p1 (computeValidity S q s))"
      by (simp only: StagedSolverImpl_def impl.simps staged_computeValidity_def parts pv(1)
          bind_res.simps prod.case)
    note facts = pv(2,3) ps(3) valid_not_refuted[OF bool_query_wf[OF q]]
      valid_negateExpr[OF bool_query_wf[OF q]]
    show ?thesis
    proof (cases pv)
      case MayBeTrue
      show ?thesis
        unfolding step MayBeTrue partial_validity.case
        by (rule answers_on_success[OF asks(1)]) (use facts MayBeTrue in \<open>simp add: validity_of_def\<close>)
    next
      case MayBeFalse
      show ?thesis
        unfolding step MayBeFalse partial_validity.case
        by (rule answers_on_success[OF asks(2)]) (use facts MayBeFalse in \<open>simp add: validity_of_def\<close>)
    next
      case PVNone
      show ?thesis unfolding step PVNone partial_validity.case by (rule asks(3))
    qed (use facts step in \<open>auto simp: validity_of_def\<close>)
  qed
  show "answers m ?ok (\<lambda>e. \<exists>v \<in> values_of q. e = Constant (getWidth (q_expr q)) v)
      (computeValue (StagedSolverImpl A S) q ps)" if q: "wf_query q"
  proof -
    have inc: "answers MayFail okp (\<lambda>e. \<exists>v \<in> values_of q. e = Constant (getWidth (q_expr q)) v)
        (inc_computeValue A q p)"
      using A ps(2) q unfolding incomplete_ok_def by blast
    then obtain r p1 where r: "inc_computeValue A q p = Inr (r, p1)" "okp p1"
      by (auto simp: answers_def split: sum.splits option.splits prod.splits)
    with inc ps lift[OF val[OF ps(3) q] r(2)] show ?thesis
      by (cases r) (auto simp: StagedSolverImpl_def staged_computeValue_def answers_def return_call_def)
  qed
qed

end

section \<open>The validating solver keeps the contract\<close>

text \<open>
  With two solvers that keep the contract no assertion of the validating solver fails. For the
  answers to be right, the oracle's contract is enough.
\<close>

lemma answers_from_solver:
  "answers m ok P (f (fst so)) \<Longrightarrow> okr (snd so)
    \<Longrightarrow> answers m (\<lambda>(s, t). ok s \<and> okr t) P (from_solver f so)"
  by (auto simp: answers_def from_solver_def map_res_def split: sum.splits option.splits prod.splits)

lemma answers_from_oracle:
  "answers m okr P (f (snd so)) \<Longrightarrow> ok (fst so)
    \<Longrightarrow> answers m (\<lambda>(s, t). ok s \<and> okr t) P (from_oracle f so)"
  by (auto simp: answers_def from_oracle_def map_res_def split: sum.splits option.splits prod.splits)

lemma not_always_different:
  assumes "wf_query q" "v \<in> values_of q"
  defines "e \<equiv> create_Ne (q_expr q) (Constant (getWidth (q_expr q)) v)"
  shows "bool_query (withExpr q e)" "\<not> valid (withExpr q e)"
proof -
  have wf: "wf_expr (Binary Ne (q_expr q) (Constant (getWidth (q_expr q)) v))"
    using wf_query_parts(2)[OF assms(1)] values_of_in_width[OF assms(1,2)] wf_width_pos by simp
  note ne = sem_eqD[OF create_Ne_sem_eq wf]
  show q: "bool_query (withExpr q e)"
    by (rule bool_query_withExpr[OF assms(1)]) (use ne in \<open>simp_all add: e_def\<close>)
  obtain \<rho> where "wf_model \<rho>" "sat \<rho> (q_constraints q)" "v = eval \<rho> (q_expr q)"
    using assms(2) by (rule values_ofE)
  with ne(3)[OF wf_model_env] values_ofI[of \<rho> "withExpr q e"] have "0 \<in> values_of (withExpr q e)"
    by (simp add: e_def)
  then show "\<not> valid (withExpr q e)" using not_valid_iff[OF q] by simp
qed

lemma validating_contract:
  assumes S: "solver_impl S ok m" and R: "solver_impl R okr m"
  shows "solver_impl (ValidatingSolver S R) (\<lambda>(s, t). ok s \<and> okr t) m"
proof
  fix so q
  let ?ok = "\<lambda>(s, t). ok s \<and> okr t"
  assume so: "?ok so"
  then have fst: "ok (fst so)" and snd: "okr (snd so)" by (auto split: prod.splits)
  show "answers m ?ok (\<lambda>b. b = valid q) (computeTruth (ValidatingSolver S R) q so)"
    if q: "bool_query q"
    unfolding ValidatingSolver_def impl.simps validating_computeTruth_def
  proof (rule answers_on_success[OF answers_from_solver[where f = "computeTruth S q" and ok = ok and okr = okr, OF solver_impl.truth[OF S fst q] snd]])
    fix b so1 assume "b = valid q" "?ok so1"
    then show "answers m ?ok (\<lambda>b. b = valid q) (on_success (from_oracle (computeTruth R q) so1)
        (\<lambda>answer so2. assert_res (b = answer) (return_call b so2)))"
      by (intro answers_on_success[OF answers_from_oracle[where ok = ok and okr = okr, OF solver_impl.truth[OF R _ q]]])
        (auto simp: assert_res_def split: prod.splits)
  qed
  show "answers m ?ok (\<lambda>v. v = validity_of q) (computeValidity (ValidatingSolver S R) q so)"
    if q: "bool_query q"
    unfolding ValidatingSolver_def impl.simps validating_computeValidity_def
  proof (rule answers_on_success[OF answers_from_solver[where f = "computeValidity S q" and ok = ok and okr = okr, OF solver_impl.validity[OF S fst q] snd]])
    fix v so1 assume "v = validity_of q" "?ok so1"
    then show "answers m ?ok (\<lambda>v. v = validity_of q)
        (on_success (from_oracle (computeValidity R q) so1)
          (\<lambda>answer so2. assert_res (v = answer) (return_call v so2)))"
      by (intro answers_on_success[OF answers_from_oracle[where ok = ok and okr = okr, OF solver_impl.validity[OF R _ q]]])
        (auto simp: assert_res_def split: prod.splits)
  qed
  show "answers m ?ok (\<lambda>e. \<exists>v \<in> values_of q. e = Constant (getWidth (q_expr q)) v)
      (computeValue (ValidatingSolver S R) q so)" if q: "wf_query q"
    unfolding ValidatingSolver_def impl.simps validating_computeValue_def
  proof (rule answers_on_success[OF answers_from_solver[where f = "computeValue S q" and ok = ok and okr = okr, OF solver_impl.val[OF S fst q] snd]])
    fix e so1 assume e: "\<exists>v \<in> values_of q. e = Constant (getWidth (q_expr q)) v" and so1: "?ok so1"
    then obtain v where v: "v \<in> values_of q" "e = Constant (getWidth (q_expr q)) v" by blast
    note ne = not_always_different[OF q v(1), folded v(2)]
    show "answers m ?ok (\<lambda>e. \<exists>v \<in> values_of q. e = Constant (getWidth (q_expr q)) v)
        (on_success (from_oracle (computeTruth R (withExpr q (create_Ne (q_expr q) e))) so1)
          (\<lambda>answer so2. assert_res (\<not> answer) (return_call e so2)))"
      by (intro answers_on_success[OF answers_from_oracle[where ok = ok and okr = okr, OF solver_impl.truth[OF R _ ne(1)]]])
        (use so1 ne(2) e in \<open>auto simp: assert_res_def split: prod.splits\<close>)
  qed
qed

lemma validating_truth_checked:
  assumes "solver_impl R okr m" "okr t" "bool_query q"
    "computeTruth (ValidatingSolver S R) q (s, t) = Inr (Some b, so)"
  shows "b = valid q"
  using assms(4) solver_impl.truth[OF assms(1-3)]
  by (auto simp: ValidatingSolver_def validating_computeTruth_def on_success_Some from_solver_def
      from_oracle_def return_call_def answers_def)

lemma answers_weaken: "answers m ok P x \<Longrightarrow> answers MayAbort ok P x"
  by (auto simp: answers_def split: sum.splits option.splits)

lemma answers_oracle_any: "ok (fst so) \<Longrightarrow> answers MayAbort (\<lambda>st. ok (fst st)) (\<lambda>_. True) (from_oracle f so)"
  by (auto simp: answers_def from_oracle_def map_res_def split: sum.splits option.splits prod.splits)

lemma answers_assert: "answers MayAbort ok P x \<Longrightarrow> answers MayAbort ok P (assert_res b x)"
  by (simp add: assert_res_def answers_def)

lemma validating_initial:
  fixes S :: "'s impl" and R :: "'o impl"
  assumes S: "initial_impl S ok m"
  shows "initial_impl (ValidatingSolver S R) (\<lambda>st. ok (fst st)) MayAbort"
proof
  fix so :: "'s \<times> 'o" and q objects
  assume so: "ok (fst so)" and q: "bool_form q" and objects: "\<forall>a \<in> set objects. wf_array a"
  let ?ok = "\<lambda>st :: 's \<times> 'o. ok (fst st)"
  let ?P = "\<lambda>r. case r of None \<Rightarrow> valid q | Some values \<Rightarrow> counterexample q objects values"
  have "answers MayAbort ?ok ?P (from_solver (computeInitialValues S q objects) so)"
    using answers_weaken[OF initial_impl.initial[OF S so q objects]]
    by (auto simp: answers_def from_solver_def map_res_def split: sum.splits option.splits prod.splits)
  then show "answers MayAbort ?ok ?P (computeInitialValues (ValidatingSolver S R) q objects so)"
    unfolding ValidatingSolver_def impl.simps validating_computeInitialValues_def
  proof (rule answers_on_success)
    fix r so1 assume r: "?P r" and so1: "?ok so1"
    show "answers MayAbort ?ok ?P (case r of
         Some values \<Rightarrow>
           bind_res (binding_constraints objects values) (\<lambda>tmp.
           on_success
             (from_oracle (computeTruth R
               \<lparr>q_constraints = tmp,
                q_expr = foldl create_And (createIsZero (q_expr q)) (q_constraints q)\<rparr>) so1)
             (\<lambda>answer so2. assert_res answer (return_call r so2)))
       | None \<Rightarrow>
           on_success (from_oracle (computeTruth R q) so1)
             (\<lambda>answer so2. assert_res answer (return_call r so2)))"
    proof (cases r)
      case None
      show ?thesis
        unfolding None option.case
        by (rule answers_on_success[where P = "\<lambda>_. True", OF answers_oracle_any])
          (use r so1 None in \<open>auto intro!: answers_assert\<close>)
    next
      case (Some vs)
      show ?thesis
      proof (cases "binding_constraints objects vs")
        case (Inl err)
        with Some show ?thesis by (simp add: answers_def)
      next
        case (Inr tmp)
        show ?thesis
          unfolding Some option.case Inr bind_res.simps
          by (rule answers_on_success[where P = "\<lambda>_. True", OF answers_oracle_any])
            (use r so1 Some in \<open>auto intro!: answers_assert\<close>)
      qed
    qed
  qed
qed

end
