(* ===== verification/Independence.thy ===== *)
theory Independence
  imports Solver "HOL-Library.AList"
begin

text \<open>
  The independence of constraints (\<open>klee/lib/Solver/IndependentSolver.cpp\<close>): the reads of an
  expression (\<open>findReads\<close> of \<open>klee/lib/Expr/ExprUtil.cpp\<close>), the array elements they touch
  (\<open>IndependentElementSet\<close>) and the constraints connected to a query through them. Leaving out
  the others does not change what the query can evaluate to.
\<close>

section \<open>The reads of an expression\<close>

fun node_exprs :: "updates \<Rightarrow> expr list" where
  "node_exprs UNull = []"
| "node_exprs (UNode i v u) = i # v # node_exprs u"

text \<open>
  The stack and the set of visited expressions of \<open>findReads\<close>: an expression is pushed when it
  is no constant and was not visited before.
\<close>

definition push_new :: "expr \<Rightarrow> expr list \<times> expr list \<Rightarrow> expr list \<times> expr list" where
  "push_new e vs =
     (if is_Constant e \<or> e \<in> set (fst vs) then vs else (e # fst vs, e # snd vs))"

text \<open>What is pushed for the top of the stack, when the update lists in \<open>ups\<close> are done.\<close>

definition successors :: "bool \<Rightarrow> updates list \<Rightarrow> expr \<Rightarrow> expr list" where
  "successors visitUpdates ups top_e =
     (case top_e of
        Read a ul i \<Rightarrow> i # (if visitUpdates \<and> ul \<notin> set ups then node_exprs ul else [])
      | _ \<Rightarrow> getKids top_e)"

definition done_updates :: "bool \<Rightarrow> updates list \<Rightarrow> expr \<Rightarrow> updates list" where
  "done_updates visitUpdates ups top_e =
     (case top_e of
        Read a ul i \<Rightarrow> (if visitUpdates \<and> ul \<notin> set ups then ul # ups else ups)
      | _ \<Rightarrow> ups)"

primrec subexprs :: "expr \<Rightarrow> expr set" and node_subexprs :: "updates \<Rightarrow> expr set" where
  "subexprs (Constant w v) = {Constant w v}"
| "subexprs (NotOptimized e) = insert (NotOptimized e) (subexprs e)"
| "subexprs (Read a ul i) = insert (Read a ul i) (node_subexprs ul \<union> subexprs i)"
| "subexprs (Select c t f) = insert (Select c t f) (subexprs c \<union> subexprs t \<union> subexprs f)"
| "subexprs (Concat l r) = insert (Concat l r) (subexprs l \<union> subexprs r)"
| "subexprs (Extract e off w) = insert (Extract e off w) (subexprs e)"
| "subexprs (Cast k e w) = insert (Cast k e w) (subexprs e)"
| "subexprs (NotE e) = insert (NotE e) (subexprs e)"
| "subexprs (Binary k l r) = insert (Binary k l r) (subexprs l \<union> subexprs r)"
| "node_subexprs UNull = {}"
| "node_subexprs (UNode i v u) = subexprs i \<union> subexprs v \<union> node_subexprs u"

lemma finite_subexprs [simp]: "finite (subexprs e)" "finite (node_subexprs u)"
  by (induction e and u) auto

lemma subexprs_self [simp]: "e \<in> subexprs e"
  by (cases e) auto

lemma node_exprs_subexprs: "k \<in> set (node_exprs u) \<Longrightarrow> subexprs k \<subseteq> node_subexprs u"
  by (induction u rule: node_exprs.induct) auto

lemma successors_subexprs: "k \<in> set (successors b ups e) \<Longrightarrow> subexprs k \<subseteq> subexprs e"
  using node_exprs_subexprs by (cases e) (auto simp: successors_def split: if_splits)

lemma fold_push_new:
  obtains new where "fold push_new xs (visited, stack) = (new @ visited, new @ stack)"
    "set new \<subseteq> set xs" "set new \<inter> set visited = {}"
    "\<And>x. x \<in> set xs \<Longrightarrow> is_Constant x \<or> x \<in> set (new @ visited)"
proof -
  have "\<exists>new. fold push_new xs (visited, stack) = (new @ visited, new @ stack)
    \<and> set new \<subseteq> set xs \<and> set new \<inter> set visited = {}
    \<and> (\<forall>x \<in> set xs. is_Constant x \<or> x \<in> set (new @ visited))"
  proof (induction xs arbitrary: visited stack)
    case (Cons x xs)
    show ?case
    proof (cases "is_Constant x \<or> x \<in> set visited")
      case True
      then have "push_new x (visited, stack) = (visited, stack)" by (simp add: push_new_def)
      with Cons.IH[of visited stack] True show ?thesis by fastforce
    next
      case False
      then have p: "push_new x (visited, stack) = (x # visited, x # stack)" by (simp add: push_new_def)
      obtain new where new: "fold push_new xs (x # visited, x # stack) = (new @ x # visited, new @ x # stack)"
        "set new \<subseteq> set xs" "set new \<inter> set (x # visited) = {}"
        "\<forall>y \<in> set xs. is_Constant y \<or> y \<in> set (new @ x # visited)"
        using Cons.IH[of "x # visited" "x # stack"] by blast
      show ?thesis
        by (rule exI[of _ "new @ [x]"]) (use p new False in auto)
    qed
  qed auto
  with that show ?thesis by blast
qed

function findReads_loop ::
    "bool \<Rightarrow> expr list \<Rightarrow> expr list \<Rightarrow> updates list \<Rightarrow> (array \<times> updates \<times> expr) list
     \<Rightarrow> (array \<times> updates \<times> expr) list" where
  "findReads_loop visitUpdates visited [] ups results = results"
| "findReads_loop visitUpdates visited (top_e # stack) ups results =
     (let vs = fold push_new (successors visitUpdates ups top_e) (visited, stack) in
      findReads_loop visitUpdates (fst vs) (snd vs) (done_updates visitUpdates ups top_e)
        (results @ (case dyn_cast_Read top_e of Some r \<Rightarrow> [r] | None \<Rightarrow> [])))"
  by pat_completeness auto
termination
proof (relation "inv_image (less_than <*lex*> less_than)
    (\<lambda>(b, visited, stack, ups, results). (card (\<Union>(subexprs ` set stack) - set visited), length stack))")
  fix b visited top_e stack ups and results :: "(array \<times> updates \<times> expr) list" and vs
  assume vs: "vs = fold push_new (successors b ups top_e) (visited, stack)"
  obtain new where new: "vs = (new @ visited, new @ stack)"
    "set new \<subseteq> set (successors b ups top_e)" "set new \<inter> set visited = {}"
    using fold_push_new[of "successors b ups top_e" visited stack] vs by metis
  define A where "A = \<Union>(subexprs ` set (top_e # stack)) - set visited"
  define B where "B = \<Union>(subexprs ` set (new @ stack)) - set (new @ visited)"
  have "subexprs k \<subseteq> subexprs top_e" if "k \<in> set new" for k
    using successors_subexprs new(2) that by blast
  then have sub: "B \<subseteq> A" by (auto simp: A_def B_def)
  have fin: "finite A" by (simp add: A_def)
  have "card B < card A \<or> card B \<le> card A \<and> new = []"
  proof (cases new)
    case (Cons k ks)
    have "subexprs k \<subseteq> subexprs top_e" using successors_subexprs[of k b ups top_e] new(2) Cons by auto
    then have "k \<in> A" using new(3) Cons subexprs_self[of k] by (auto simp: A_def)
    moreover have "k \<notin> B" using Cons by (simp add: B_def)
    ultimately have "B \<subset> A" using sub by blast
    then show ?thesis using psubset_card_mono[OF fin] by blast
  qed (use card_mono[OF fin sub] in simp)
  then show "((b, fst vs, snd vs, done_updates b ups top_e,
        results @ (case dyn_cast_Read top_e of Some r \<Rightarrow> [r] | None \<Rightarrow> [])),
      (b, visited, top_e # stack, ups, results)) \<in> inv_image (less_than <*lex*> less_than)
    (\<lambda>(b, visited, stack, ups, results). (card (\<Union>(subexprs ` set stack) - set visited), length stack))"
    using new(1) by (auto simp: A_def B_def)
qed (intro wf_inv_image wf_lex_prod wf_less_than)

definition findReads :: "expr \<Rightarrow> bool \<Rightarrow> (array \<times> updates \<times> expr) list" where
  "findReads e visitUpdates =
     (if is_Constant e then findReads_loop visitUpdates [] [] [] []
      else findReads_loop visitUpdates [e] [e] [] [])"

text \<open>
  \<open>V\<close> is closed: every child of an expression of \<open>V\<close>, in its update list too, is a constant
  or in \<open>V\<close>, and the reads of \<open>V\<close> are in \<open>R\<close>.
\<close>

definition all_kids :: "expr \<Rightarrow> expr list" where
  "all_kids e = successors True [] e"

definition explored :: "expr set \<Rightarrow> (array \<times> updates \<times> expr) set \<Rightarrow> expr \<Rightarrow> bool" where
  "explored V R e \<longleftrightarrow> (\<forall>k \<in> set (all_kids e). is_Constant k \<or> k \<in> V)
     \<and> (\<forall>r. dyn_cast_Read e = Some r \<longrightarrow> r \<in> R)"

lemma explored_mono: "explored V R e \<Longrightarrow> V \<subseteq> V' \<Longrightarrow> R \<subseteq> R' \<Longrightarrow> explored V' R' e"
  by (auto simp: explored_def)

lemma all_kids_cases:
  "k \<in> set (all_kids e) \<Longrightarrow> k \<in> set (successors True ups e)
    \<or> (\<exists>a ul i. e = Read a ul i \<and> ul \<in> set ups \<and> k \<in> set (node_exprs ul))"
  by (cases e) (auto simp: all_kids_def successors_def split: if_splits)

lemma findReads_loop_closed:
  assumes "set stack \<subseteq> set visited"
    and "\<forall>e \<in> set visited. e \<in> set stack \<or> explored (set visited) (set results) e"
    and "\<forall>ul \<in> set ups. \<forall>k \<in> set (node_exprs ul). is_Constant k \<or> k \<in> set visited"
  shows "\<exists>V. set visited \<subseteq> V \<and> set results \<subseteq> set (findReads_loop True visited stack ups results)
    \<and> (\<forall>e \<in> V. explored V (set (findReads_loop True visited stack ups results)) e)"
  using assms
proof (induction True visited stack ups results rule: findReads_loop.induct)
  case (1 visited ups results)
  then show ?case by (intro exI[of _ "set visited"]) auto
next
  case (2 visited top_e stack ups results)
  obtain new where new: "fold push_new (successors True ups top_e) (visited, stack) = (new @ visited, new @ stack)"
    "set new \<subseteq> set (successors True ups top_e)"
    "\<And>x. x \<in> set (successors True ups top_e) \<Longrightarrow> is_Constant x \<or> x \<in> set (new @ visited)"
    by (metis fold_push_new)
  define results' where "results' = results @ (case dyn_cast_Read top_e of Some r \<Rightarrow> [r] | None \<Rightarrow> [])"
  have kids: "is_Constant k \<or> k \<in> set (new @ visited)" if "k \<in> set (all_kids top_e)" for k
    using all_kids_cases[OF that, of ups] new(3) "2.prems"(3) by fastforce
  have top: "explored (set (new @ visited)) (set results') top_e"
    using kids by (auto simp: explored_def results'_def)
  have inv: "\<forall>e \<in> set (new @ visited). e \<in> set (new @ stack) \<or> explored (set (new @ visited)) (set results') e"
  proof
    fix e assume "e \<in> set (new @ visited)"
    then consider "e \<in> set new" | "e \<in> set stack" | "e = top_e"
      | "explored (set visited) (set results) e" using "2.prems"(2) by auto
    then show "e \<in> set (new @ stack) \<or> explored (set (new @ visited)) (set results') e"
    proof cases
      case 4
      then have "explored (set (new @ visited)) (set results') e"
        by (rule explored_mono) (auto simp: results'_def)
      then show ?thesis ..
    qed (use top in auto)
  qed
  have ups: "\<forall>ul \<in> set (done_updates True ups top_e). \<forall>k \<in> set (node_exprs ul).
      is_Constant k \<or> k \<in> set (new @ visited)"
  proof (intro ballI)
    fix ul k assume ul: "ul \<in> set (done_updates True ups top_e)" and k: "k \<in> set (node_exprs ul)"
    show "is_Constant k \<or> k \<in> set (new @ visited)"
    proof (cases "ul \<in> set ups")
      case False
      with ul obtain a i where "top_e = Read a ul i"
        by (auto simp: done_updates_def split: expr.splits if_splits)
      with k kids[of k] show ?thesis by (auto simp: all_kids_def successors_def)
    qed (use k "2.prems"(3) in auto)
  qed
  have sub: "set (new @ stack) \<subseteq> set (new @ visited)" using "2.prems"(1) by auto
  obtain V where "set (new @ visited) \<subseteq> V"
    "set results' \<subseteq> set (findReads_loop True (new @ visited) (new @ stack) (done_updates True ups top_e) results')"
    "\<forall>e \<in> V. explored V
      (set (findReads_loop True (new @ visited) (new @ stack) (done_updates True ups top_e) results')) e"
    using "2.hyps"[OF refl, unfolded new(1) fst_conv snd_conv, folded results'_def, OF sub inv ups] by blast
  then show ?case
    unfolding findReads_loop.simps Let_def new(1) fst_conv snd_conv results'_def[symmetric]
    by (intro exI[of _ V]) (auto simp: results'_def)
qed

lemma findReads_closed:
  obtains V where "is_Constant e \<or> e \<in> V" "\<forall>x \<in> V. explored V (set (findReads e True)) x"
proof (cases "is_Constant e")
  case True
  then show ?thesis using that[of "{}"] by simp
next
  case False
  then show ?thesis
    using findReads_loop_closed[of "[e]" "[e]" "[]" "[]"] that by (auto simp: findReads_def)
qed

text \<open>Every read that is found is a well-formed node of the expression.\<close>

lemma wf_successors: "wf_expr e \<Longrightarrow> k \<in> set (successors b ups e) \<Longrightarrow> wf_expr k"
proof -
  have "wf_updates u a \<Longrightarrow> k \<in> set (node_exprs u) \<Longrightarrow> wf_expr k" for u a
    by (induction u rule: node_exprs.induct) auto
  then show "wf_expr e \<Longrightarrow> k \<in> set (successors b ups e) \<Longrightarrow> wf_expr k"
    by (cases e) (auto simp: successors_def split: if_splits)
qed

definition wf_read :: "array \<times> updates \<times> expr \<Rightarrow> bool" where
  "wf_read r \<longleftrightarrow> (case r of (a, ul, i) \<Rightarrow> wf_expr (Read a ul i))"

lemma findReads_loop_wf:
  "\<forall>e \<in> set stack. wf_expr e \<Longrightarrow> \<forall>r \<in> set results. wf_read r
    \<Longrightarrow> \<forall>r \<in> set (findReads_loop b visited stack ups results). wf_read r"
proof (induction b visited stack ups results rule: findReads_loop.induct)
  case (2 b visited top_e stack ups results)
  obtain new where new: "fold push_new (successors b ups top_e) (visited, stack) = (new @ visited, new @ stack)"
    "set new \<subseteq> set (successors b ups top_e)" by (metis fold_push_new)
  have "wf_expr k" if "k \<in> set new" for k
    using wf_successors[of top_e k b ups] new(2) that "2.prems"(1) by auto
  then have stack: "\<forall>e \<in> set (new @ stack). wf_expr e" using "2.prems"(1) by auto
  have "wf_read r" if "dyn_cast_Read top_e = Some r" for r
    using that "2.prems"(1) by (cases r) (auto simp: dyn_casts wf_read_def)
  then have results: "\<forall>r \<in> set (results @ (case dyn_cast_Read top_e of Some r \<Rightarrow> [r] | None \<Rightarrow> [])). wf_read r"
    using "2.prems"(2) by (cases "dyn_cast_Read top_e") simp_all
  show ?case
    unfolding findReads_loop.simps Let_def new(1) fst_conv snd_conv
    using "2.IH"[OF refl, unfolded new(1) fst_conv snd_conv, OF stack results] .
qed simp

lemma findReads_wf: "wf_expr e \<Longrightarrow> r \<in> set (findReads e b) \<Longrightarrow> wf_read r"
  using findReads_loop_wf[of "[e]" "[]" b "[e]" "[]"] findReads_loop_wf[of "[]" "[]" b "[]" "[]"]
  by (auto simp: findReads_def split: if_splits)

section \<open>Element sets\<close>

text \<open>
  \<open>DenseSet\<close>, a \<open>std::set\<close> of indices, as a list without repetitions; \<open>elements\<close>, a
  \<open>std::map\<close> keyed by the array, as an association list. No operation below depends on their order.
\<close>

definition dense_union :: "int list \<Rightarrow> int list \<Rightarrow> bool \<times> int list" where
  "dense_union s b = fold (\<lambda>x (modified, t).
     if modified \<or> x \<notin> set t then (True, List.insert x t) else (modified, t)) b (False, s)"

definition dense_intersects :: "int list \<Rightarrow> int list \<Rightarrow> bool" where
  "dense_intersects s b \<longleftrightarrow> list_ex (\<lambda>x. x \<in> set b) s"

record element_set =
  elements :: "(array \<times> int list) list"
  wholeObjects :: "array list"
  ies_exprs :: "expr list"

definition add_read :: "array \<times> updates \<times> expr \<Rightarrow> element_set \<Rightarrow> element_set result" where
  "add_read r ies =
     (case r of (a, ul, i) \<Rightarrow>
        if isConstantArray a \<and> ul = UNull then Inr ies
        else if a \<in> set (wholeObjects ies) then Inr ies
        else if is_Constant i
        then map_res (\<lambda>v. ies\<lparr>elements := AList.update a
               (List.insert v (case map_of (elements ies) a of Some s \<Rightarrow> s | None \<Rightarrow> []))
               (elements ies)\<rparr>) (getZExtValue 32 i)
        else Inr (ies\<lparr>elements := AList.delete a (elements ies),
                      wholeObjects := List.insert a (wholeObjects ies)\<rparr>))"

fun add_reads :: "(array \<times> updates \<times> expr) list \<Rightarrow> element_set \<Rightarrow> element_set result" where
  "add_reads [] ies = Inr ies"
| "add_reads (r # rs) ies = bind_res (add_read r ies) (add_reads rs)"

definition IndependentElementSet :: "expr \<Rightarrow> element_set result" where
  "IndependentElementSet e =
     add_reads (findReads e True) \<lparr>elements = [], wholeObjects = [], ies_exprs = [e]\<rparr>"

definition ies_intersects :: "element_set \<Rightarrow> element_set \<Rightarrow> bool" where
  "ies_intersects s b \<longleftrightarrow>
     list_ex (\<lambda>a. a \<in> set (wholeObjects b) \<or> map_of (elements b) a \<noteq> None) (wholeObjects s)
     \<or> list_ex (\<lambda>(a, d). a \<in> set (wholeObjects b)
         \<or> (case map_of (elements b) a of Some d' \<Rightarrow> dense_intersects d d' | None \<Rightarrow> False)) (elements s)"

definition add_whole :: "array \<Rightarrow> bool \<times> element_set \<Rightarrow> bool \<times> element_set" where
  "add_whole a ms =
     (case ms of (modified, s) \<Rightarrow>
        if map_of (elements s) a \<noteq> None
        then (True, s\<lparr>elements := AList.delete a (elements s),
                      wholeObjects := List.insert a (wholeObjects s)\<rparr>)
        else if a \<notin> set (wholeObjects s)
        then (True, s\<lparr>wholeObjects := List.insert a (wholeObjects s)\<rparr>)
        else (modified, s))"

definition add_elements :: "array \<times> int list \<Rightarrow> bool \<times> element_set \<Rightarrow> bool \<times> element_set" where
  "add_elements ad ms =
     (case (ad, ms) of ((a, d), (modified, s)) \<Rightarrow>
        if a \<in> set (wholeObjects s) then (modified, s)
        else (case map_of (elements s) a of
            None \<Rightarrow> (True, s\<lparr>elements := AList.update a d (elements s)\<rparr>)
          | Some t \<Rightarrow> (case dense_union t d of (changed, t') \<Rightarrow>
              (modified \<or> changed, s\<lparr>elements := AList.update a t' (elements s)\<rparr>))))"

definition ies_add :: "element_set \<Rightarrow> element_set \<Rightarrow> bool \<times> element_set" where
  "ies_add s b =
     fold add_elements (elements b)
       (fold add_whole (wholeObjects b) (False, s\<lparr>ies_exprs := ies_exprs s @ ies_exprs b\<rparr>))"

section \<open>The constraints a query depends on\<close>

type_synonym worklist = "(expr \<times> element_set) list"

text \<open>One pass: the closure, the required constraints, the new worklist and \<open>done\<close>.\<close>

fun independent_pass ::
    "worklist \<Rightarrow> element_set \<Rightarrow> element_set \<times> expr list \<times> worklist \<times> bool" where
  "independent_pass [] c = (c, [], [], True)"
| "independent_pass ((e, s) # wl) c =
     (if ies_intersects s c
      then (case ies_add c s of (modified, c1) \<Rightarrow>
        case independent_pass wl c1 of (c2, result, new, finished) \<Rightarrow>
          (c2, e # result, new, \<not> modified \<and> finished))
      else (case independent_pass wl c of (c2, result, new, finished) \<Rightarrow>
          (c2, result, (e, s) # new, finished)))"

lemma independent_pass_length:
  assumes "independent_pass wl c = (c2, result, new, finished)"
  shows "length new + length result = length wl \<and> (\<not> finished \<longrightarrow> result \<noteq> [])"
  using assms
proof (induction wl arbitrary: c c2 result new finished)
  case (Cons es wl)
  obtain e s where es: "es = (e, s)" by (cases es)
  obtain modified c1 where add: "ies_add c s = (modified, c1)" by (cases "ies_add c s")
  show ?case
  proof (cases "ies_intersects s c")
    case True
    obtain c2' r n f where p: "independent_pass wl c1 = (c2', r, n, f)" by (cases "independent_pass wl c1")
    from Cons.prems True es add p Cons.IH[OF p] show ?thesis by auto
  next
    case False
    obtain c2' r n f where p: "independent_pass wl c = (c2', r, n, f)" by (cases "independent_pass wl c")
    from Cons.prems False es p Cons.IH[OF p] show ?thesis by auto
  qed
qed simp

function independent_loop :: "worklist \<Rightarrow> element_set \<Rightarrow> expr list \<Rightarrow> element_set \<times> expr list" where
  "independent_loop wl c result =
     (case independent_pass wl c of (c2, r, new, finished) \<Rightarrow>
        if finished then (c2, result @ r) else independent_loop new c2 (result @ r))"
  by pat_completeness auto
termination
proof (relation "measure (\<lambda>(wl, c, result). length wl)")
  fix wl c and result :: "expr list" and c2 r new finished y z
  assume "(c2, y) = independent_pass wl c" "(r, z) = y" "(new, finished) = z" "\<not> finished"
  then have "independent_pass wl c = (c2, r, new, finished)" "\<not> finished" by auto
  then have "length new + length r = length wl" "r \<noteq> []"
    using independent_pass_length by blast+
  then show "((new, c2, result @ r), (wl, c, result)) \<in> measure (\<lambda>(wl, c, result). length wl)"
    by (cases r) auto
qed simp

declare independent_loop.simps [simp del]

fun make_worklist :: "constraints \<Rightarrow> worklist result" where
  "make_worklist [] = Inr []"
| "make_worklist (c # cs) =
     bind_res (IndependentElementSet c) (\<lambda>s. map_res (\<lambda>wl. (c, s) # wl) (make_worklist cs))"

definition getIndependentConstraints :: "query \<Rightarrow> (element_set \<times> constraints) result" where
  "getIndependentConstraints q =
     bind_res (IndependentElementSet (q_expr q)) (\<lambda>eltsClosure.
       map_res (\<lambda>worklist. independent_loop worklist eltsClosure [])
         (make_worklist (q_constraints q)))"

section \<open>The independent solver\<close>

definition with_required ::
    "(query \<Rightarrow> ('s, 'a) call) \<Rightarrow> query \<Rightarrow> ('s, 'a) call" where
  "with_required f q s =
     bind_res (getIndependentConstraints q) (\<lambda>(eltsClosure, required).
       f \<lparr>q_constraints = required, q_expr = q_expr q\<rparr> s)"

definition IndependentSolver_truth :: "'s impl \<Rightarrow> query \<Rightarrow> ('s, bool) call" where
  "IndependentSolver_truth S = with_required (computeTruth S)"

definition IndependentSolver_validity :: "'s impl \<Rightarrow> query \<Rightarrow> ('s, validity) call" where
  "IndependentSolver_validity S = with_required (computeValidity S)"

definition IndependentSolver_value :: "'s impl \<Rightarrow> query \<Rightarrow> ('s, expr) call" where
  "IndependentSolver_value S = with_required (computeValue S)"

section \<open>What an element set covers\<close>

definition cells :: "element_set \<Rightarrow> (array \<times> int) set" where
  "cells s = {(a, j). a \<in> set (wholeObjects s) \<or> (\<exists>d. map_of (elements s) a = Some d \<and> j \<in> set d)}"

lemma dense_union_set:
  assumes "dense_union s b = (modified, t)"
  shows "set t = set s \<union> set b" "\<not> modified \<Longrightarrow> t = s"
proof -
  have "fold (\<lambda>x (modified, t).
      if modified \<or> x \<notin> set t then (True, List.insert x t) else (modified, t)) b (m, s) = (modified, t)
    \<Longrightarrow> set t = set s \<union> set b \<and> (\<not> modified \<longrightarrow> \<not> m \<and> t = s)" for m
    by (induction b arbitrary: m s) (force split: if_splits)+
  with assms show "set t = set s \<union> set b" "\<not> modified \<Longrightarrow> t = s" by (auto simp: dense_union_def)
qed

lemma not_intersects_disjoint:
  assumes "\<not> ies_intersects s b"
  shows "cells s \<inter> cells b = {}"
proof -
  have whole: "a \<notin> set (wholeObjects b) \<and> map_of (elements b) a = None"
    if "a \<in> set (wholeObjects s)" for a
    using assms that by (auto simp: ies_intersects_def list_ex_iff)
  have elems: "a \<notin> set (wholeObjects b) \<and> (\<forall>d'. map_of (elements b) a = Some d' \<longrightarrow> set d \<inter> set d' = {})"
    if "map_of (elements s) a = Some d" for a d
    using assms map_of_SomeD[OF that]
    by (fastforce simp: ies_intersects_def list_ex_iff dense_intersects_def)
  show ?thesis using whole elems by (fastforce simp: cells_def)
qed

lemma add_whole_cells:
  assumes "add_whole a (m, s) = (m', s')"
  shows "cells s \<subseteq> cells s'" "(a, j) \<in> cells s'" "\<not> m' \<Longrightarrow> \<not> m \<and> s' = s"
  using assms by (auto simp: add_whole_def cells_def delete_conv' split: if_splits)

lemma update_cells:
  assumes "a \<notin> set (wholeObjects s)"
  shows "cells (s\<lparr>elements := AList.update a t (elements s)\<rparr>)
    = {bj \<in> cells s. fst bj \<noteq> a} \<union> {a} \<times> set t"
  using assms by (auto simp: cells_def update_conv' split: if_splits)

lemma cells_at: "a \<notin> set (wholeObjects s) \<Longrightarrow> (a, j) \<in> cells s
    \<longleftrightarrow> (case map_of (elements s) a of Some d \<Rightarrow> j \<in> set d | None \<Rightarrow> False)"
  by (auto simp: cells_def split: option.split)

lemma add_elements_cells:
  assumes "add_elements (a, d) (m, s) = (m', s')"
  shows "cells s \<subseteq> cells s'" "j \<in> set d \<Longrightarrow> (a, j) \<in> cells s'" "\<not> m' \<Longrightarrow> \<not> m \<and> cells s' = cells s"
proof -
  consider "a \<in> set (wholeObjects s)" "m' = m" "s' = s"
    | "a \<notin> set (wholeObjects s)" "map_of (elements s) a = None" "m'" "s' = s\<lparr>elements := AList.update a d (elements s)\<rparr>"
    | t changed t' where "a \<notin> set (wholeObjects s)" "map_of (elements s) a = Some t" "dense_union t d = (changed, t')"
      "m' = (m \<or> changed)" "s' = s\<lparr>elements := AList.update a t' (elements s)\<rparr>"
    using assms by (auto simp: add_elements_def split: if_splits option.splits prod.splits)
  then have "cells s \<subseteq> cells s' \<and> (j \<in> set d \<longrightarrow> (a, j) \<in> cells s') \<and> (\<not> m' \<longrightarrow> \<not> m \<and> cells s' = cells s)"
  proof cases
    case 3
    note t' = dense_union_set[OF 3(3)] update_cells[OF 3(1), of t'] cells_at[OF 3(1)]
    have "(b, k) \<in> cells s \<Longrightarrow> (b, k) \<in> cells s'" for b k
      using t' 3 by (cases "b = a") auto
    moreover have "(b, k) \<in> cells s" if "\<not> m'" "(b, k) \<in> cells s'" for b k
      using t' 3 that by (cases "b = a") auto
    ultimately show ?thesis using t' 3 by auto
  qed (use update_cells[of a s d] cells_at[of a s] in \<open>auto simp: cells_def\<close>)
  then show "cells s \<subseteq> cells s'" "j \<in> set d \<Longrightarrow> (a, j) \<in> cells s'"
    "\<not> m' \<Longrightarrow> \<not> m \<and> cells s' = cells s" by auto
qed

lemma fold_add_whole_cells:
  "fold add_whole as (m, s) = (m', s') \<Longrightarrow> cells s \<subseteq> cells s' \<and> set as \<times> UNIV \<subseteq> cells s'
    \<and> (\<not> m' \<longrightarrow> \<not> m \<and> cells s' = cells s)"
proof (induction as arbitrary: m s)
  case (Cons a as)
  obtain m1 s1 where 1: "add_whole a (m, s) = (m1, s1)" by (cases "add_whole a (m, s)")
  with Cons.prems have "fold add_whole as (m1, s1) = (m', s')" by simp
  note IH = Cons.IH[OF this]
  show ?case using IH add_whole_cells[OF 1] by auto
qed simp

lemma fold_add_elements_cells:
  "fold add_elements ds (m, s) = (m', s') \<Longrightarrow> cells s \<subseteq> cells s'
    \<and> (\<forall>(a, d) \<in> set ds. {a} \<times> set d \<subseteq> cells s') \<and> (\<not> m' \<longrightarrow> \<not> m \<and> cells s' = cells s)"
proof (induction ds arbitrary: m s)
  case (Cons ad ds)
  obtain a d where ad: "ad = (a, d)" by (cases ad)
  obtain m1 s1 where 1: "add_elements (a, d) (m, s) = (m1, s1)" by (cases "add_elements (a, d) (m, s)")
  with Cons.prems ad have "fold add_elements ds (m1, s1) = (m', s')" by simp
  note IH = Cons.IH[OF this]
  show ?case using IH add_elements_cells[OF 1] ad by auto
qed simp

lemma ies_add_cells:
  assumes "ies_add s b = (modified, s')"
  shows "cells s \<union> cells b \<subseteq> cells s'" "\<not> modified \<Longrightarrow> cells s' = cells s"
proof -
  define s0 where "s0 = s\<lparr>ies_exprs := ies_exprs s @ ies_exprs b\<rparr>"
  have s0: "cells s0 = cells s" by (simp add: s0_def cells_def)
  obtain m1 s1 where 1: "fold add_whole (wholeObjects b) (False, s0) = (m1, s1)"
    by (cases "fold add_whole (wholeObjects b) (False, s0)")
  have 2: "fold add_elements (elements b) (m1, s1) = (modified, s')"
    using assms 1 by (simp add: ies_add_def s0_def)
  note whole = fold_add_whole_cells[OF 1, unfolded s0]
  note elems = fold_add_elements_cells[OF 2]
  have "(a, j) \<in> cells s'" if "(a, j) \<in> cells b" for a j
  proof -
    from that consider "a \<in> set (wholeObjects b)" | d where "(a, d) \<in> set (elements b)" "j \<in> set d"
      by (auto simp: cells_def dest: map_of_SomeD)
    then show ?thesis
    proof cases
      case 1
      then have "(a, j) \<in> cells s1" using whole by auto
      with elems show ?thesis by blast
    next
      case 2
      then have "{a} \<times> set d \<subseteq> cells s'" using elems by blast
      with 2(2) show ?thesis by blast
    qed
  qed
  then show "cells s \<union> cells b \<subseteq> cells s'" using whole elems by auto
  show "cells s' = cells s" if "\<not> modified" using whole elems that by auto
qed

text \<open>An element set inside a set of cells, or apart from it.\<close>

definition inside :: "(array \<times> int) set \<Rightarrow> element_set \<Rightarrow> bool" where
  "inside C s \<longleftrightarrow> cells s \<subseteq> C"

definition apart :: "(array \<times> int) set \<Rightarrow> element_set \<Rightarrow> bool" where
  "apart C s \<longleftrightarrow> cells s \<inter> C = {}"

lemma inside_mono: "inside C s \<Longrightarrow> C \<subseteq> C' \<Longrightarrow> inside C' s"
  by (auto simp: inside_def)

lemma independent_pass_cells:
  assumes "independent_pass wl c = (c2, result, new, finished)"
  shows "cells c \<subseteq> cells c2 \<and> set new \<subseteq> set wl
    \<and> (\<forall>(e, s) \<in> set wl. e \<in> set result \<and> inside (cells c2) s \<or> (e, s) \<in> set new)
    \<and> (\<forall>e \<in> set result. \<exists>s. (e, s) \<in> set wl \<and> inside (cells c2) s)
    \<and> (finished \<longrightarrow> cells c2 = cells c \<and> (\<forall>(e, s) \<in> set new. apart (cells c) s))"
  using assms
proof (induction wl arbitrary: c c2 result new finished)
  case (Cons es wl)
  obtain e s where es: "es = (e, s)" by (cases es)
  show ?case
  proof (cases "ies_intersects s c")
    case True
    obtain modified c1 where add: "ies_add c s = (modified, c1)" by (cases "ies_add c s")
    obtain c2' r n f where p: "independent_pass wl c1 = (c2', r, n, f)" by (cases "independent_pass wl c1")
    have eqs: "c2 = c2'" "result = e # r" "new = n" "finished \<longleftrightarrow> \<not> modified \<and> f"
      using Cons.prems True es add p by auto
    note IH = Cons.IH[OF p]
    have "cells c \<subseteq> cells c1" "inside (cells c1) s" using ies_add_cells(1)[OF add] by (auto simp: inside_def)
    then have "cells c \<subseteq> cells c2'" "inside (cells c2') s" using IH inside_mono by blast+
    moreover have "finished \<longrightarrow> cells c2' = cells c \<and> (\<forall>(e, s) \<in> set n. apart (cells c) s)"
    proof
      assume "finished"
      then have "f" "cells c1 = cells c" using ies_add_cells(2)[OF add] eqs(4) by simp_all
      with IH show "cells c2' = cells c \<and> (\<forall>(e, s) \<in> set n. apart (cells c) s)" by metis
    qed
    ultimately show ?thesis
      unfolding es eqs(1-3) using IH by auto
  next
    case False
    obtain c2' r n f where p: "independent_pass wl c = (c2', r, n, f)" by (cases "independent_pass wl c")
    have eqs: "c2 = c2'" "result = r" "new = (e, s) # n" "finished = f"
      using Cons.prems False es p by auto
    have "apart (cells c) s" using not_intersects_disjoint[OF False] by (simp add: apart_def)
    with Cons.IH[OF p] show ?thesis unfolding es eqs by auto
  qed
qed simp

text \<open>
  When the loop ends, every constraint is required and inside the cells of the closure, or
  apart from them.
\<close>

lemma independent_loop_cells:
  assumes "independent_loop wl c result = (c', result')"
  shows "cells c \<subseteq> cells c' \<and> set result \<subseteq> set result'
    \<and> (\<forall>(e, s) \<in> set wl. e \<in> set result' \<and> inside (cells c') s \<or> apart (cells c') s)
    \<and> (\<forall>e \<in> set result'. e \<in> set result \<or> (\<exists>s. (e, s) \<in> set wl \<and> inside (cells c') s))"
  using assms
proof (induction wl c result rule: independent_loop.induct)
  case (1 wl c result)
  obtain c2 r new finished where p: "independent_pass wl c = (c2, r, new, finished)"
    by (cases "independent_pass wl c")
  note pass = independent_pass_cells[OF p]
  show ?case
  proof (cases finished)
    case True
    then have eqs: "c' = c2" "result' = result @ r"
      using "1.prems" p by (simp_all add: independent_loop.simps[of wl c result])
    from True pass have fin: "cells c2 = cells c" "\<forall>(e, s) \<in> set new. apart (cells c) s" by simp_all
    with pass show ?thesis unfolding eqs by fastforce
  next
    case False
    then have "independent_loop new c2 (result @ r) = (c', result')"
      using "1.prems" p by (simp add: independent_loop.simps[of wl c result])
    note IH = "1.IH"[OF p[symmetric] refl refl False this]
    have grow: "cells c2 \<subseteq> cells c'" using IH by blast
    have wl: "e \<in> set result' \<and> inside (cells c') s \<or> apart (cells c') s" if "(e, s) \<in> set wl" for e s
    proof (cases "(e, s) \<in> set new")
      case True
      with IH show ?thesis by blast
    next
      case False
      with pass that have "e \<in> set r" "inside (cells c2) s" by blast+
      with IH inside_mono[OF _ grow] show ?thesis by auto
    qed
    have res: "e \<in> set result \<or> (\<exists>s. (e, s) \<in> set wl \<and> inside (cells c') s)" if "e \<in> set result'" for e
    proof -
      from IH that consider "e \<in> set result" | "e \<in> set r" | s where "(e, s) \<in> set new" "inside (cells c') s"
        by auto
      then show ?thesis
      proof cases
        case 2
        with pass obtain s where "(e, s) \<in> set wl" "inside (cells c2) s" by blast
        with inside_mono[OF _ grow] show ?thesis by blast
      next
        case 3
        with pass show ?thesis by blast
      qed simp
    qed
    have "cells c \<subseteq> cells c'" "set result \<subseteq> set result'" using pass grow IH by auto
    with wl res show ?thesis by blast
  qed
qed

section \<open>Agreement on the cells\<close>

text \<open>The cells that a read can touch are in the element set.\<close>

definition read_covered :: "(array \<times> int) set \<Rightarrow> array \<times> updates \<times> expr \<Rightarrow> bool" where
  "read_covered C r \<longleftrightarrow> (case r of (a, ul, i) \<Rightarrow>
     isConstantArray a \<and> ul = UNull
     \<or> (\<forall>j. (a, j) \<in> C) \<or> (\<exists>w v. i = Constant w v \<and> (a, v) \<in> C))"

lemma read_covered_mono: "read_covered C r \<Longrightarrow> C \<subseteq> C' \<Longrightarrow> read_covered C' r"
  by (cases r) (auto simp: read_covered_def)

lemma add_read_ok:
  assumes "wf_read r"
  obtains s' where "add_read r s = Inr s'" "cells s \<subseteq> cells s'" "read_covered (cells s') r"
    "ies_exprs s' = ies_exprs s"
proof -
  obtain a ul i where r: "r = (a, ul, i)" by (cases r)
  consider "isConstantArray a \<and> ul = UNull" | "\<not> (isConstantArray a \<and> ul = UNull)" "a \<in> set (wholeObjects s)"
    | v where "\<not> (isConstantArray a \<and> ul = UNull)" "a \<notin> set (wholeObjects s)" "i = Constant (arr_domain a) v"
      "arr_domain a \<le> 32"
    | "\<not> (isConstantArray a \<and> ul = UNull)" "a \<notin> set (wholeObjects s)" "\<not> is_Constant i"
    using assms by (cases i) (auto simp: r wf_read_def wf_array_def)
  then show thesis
  proof cases
    case 1
    with that[of s] show thesis by (simp add: add_read_def r read_covered_def)
  next
    case 2
    with that[of s] show thesis by (simp add: add_read_def r read_covered_def cells_def)
  next
    case 3
    define d where "d = List.insert v (case map_of (elements s) a of Some s \<Rightarrow> s | None \<Rightarrow> [])"
    define s' where "s' = s\<lparr>elements := AList.update a d (elements s)\<rparr>"
    have "add_read r s = Inr s'"
      unfolding add_read_def r prod.case if_not_P[OF 3(1)] if_not_P[OF 3(2)]
      using 3(3,4) by (simp add: getZExtValue_def assert_res_def map_res_def s'_def d_def)
    moreover have "cells s \<subseteq> cells s'"
      using update_cells[OF 3(2), of d] cells_at[OF 3(2)]
      by (auto simp: s'_def d_def split: option.splits)
    moreover have "(a, v) \<in> cells s'" using update_cells[OF 3(2), of d] by (simp add: s'_def d_def)
    then have "read_covered (cells s') r" using 3(3) by (auto simp: read_covered_def r)
    ultimately show thesis by (rule that) (simp add: s'_def)
  next
    case 4
    define s' where "s' = s\<lparr>elements := AList.delete a (elements s),
      wholeObjects := List.insert a (wholeObjects s)\<rparr>"
    have "add_read r s = Inr s'"
      unfolding add_read_def r prod.case if_not_P[OF 4(1)] if_not_P[OF 4(2)] if_not_P[OF 4(3)]
      by (simp add: s'_def)
    moreover have "cells s \<subseteq> cells s'" by (auto simp: s'_def cells_def delete_conv')
    moreover have "read_covered (cells s') r" by (simp add: s'_def read_covered_def r cells_def)
    ultimately show thesis by (rule that) (simp add: s'_def)
  qed
qed

lemma add_reads_ok:
  assumes "\<forall>r \<in> set rs. wf_read r"
  obtains s' where "add_reads rs s = Inr s'" "cells s \<subseteq> cells s'" "\<forall>r \<in> set rs. read_covered (cells s') r"
    "ies_exprs s' = ies_exprs s"
  using assms
proof (induction rs arbitrary: s thesis)
  case (Cons r rs)
  obtain s1 where s1: "add_read r s = Inr s1" "cells s \<subseteq> cells s1" "read_covered (cells s1) r"
    "ies_exprs s1 = ies_exprs s"
    using add_read_ok[of r s] Cons.prems(2) by auto
  obtain s' where s': "add_reads rs s1 = Inr s'" "cells s1 \<subseteq> cells s'"
    "\<forall>r \<in> set rs. read_covered (cells s') r" "ies_exprs s' = ies_exprs s1"
    using Cons.IH[of s1] Cons.prems(2) by auto
  show ?case
    by (rule Cons.prems(1)[of s']) (use s1 s' read_covered_mono in auto)
qed simp

lemma IndependentElementSet_ok:
  assumes "wf_expr e"
  obtains s where "IndependentElementSet e = Inr s" "ies_exprs s = [e]"
    "\<forall>r \<in> set (findReads e True). read_covered (cells s) r"
proof -
  obtain s' where "add_reads (findReads e True) \<lparr>elements = [], wholeObjects = [], ies_exprs = [e]\<rparr> = Inr s'"
    "\<forall>r \<in> set (findReads e True). read_covered (cells s') r" "ies_exprs s' = [e]"
    using add_reads_ok[of "findReads e True" "\<lparr>elements = [], wholeObjects = [], ies_exprs = [e]\<rparr>"]
      findReads_wf[OF assms, of _ True] by force
  then show ?thesis by (intro that[of s']) (simp_all add: IndependentElementSet_def)
qed

text \<open>An expression has one value under contents that agree on its cells.\<close>

definition agree_on :: "(array \<times> int) set \<Rightarrow> env \<Rightarrow> env \<Rightarrow> bool" where
  "agree_on C \<rho> \<rho>' \<longleftrightarrow> (\<forall>(a, j) \<in> C. \<rho> a j = \<rho>' a j)"

lemma agree_on_mono: "agree_on C' \<rho> \<rho>' \<Longrightarrow> C \<subseteq> C' \<Longrightarrow> agree_on C \<rho> \<rho>'"
  by (auto simp: agree_on_def)

lemma read_agrees:
  assumes "read_covered C (a, ul, i)" "agree_on C \<rho> \<rho>'" "wf_model \<rho>" "wf_model \<rho>'" "j = eval \<rho> i"
  shows "initial_value \<rho> a j = initial_value \<rho>' a j"
  using assms by (auto simp: read_covered_def agree_on_def initial_value_def wf_model_def)

lemma explored_agree:
  assumes V: "\<forall>x \<in> V. explored V R x" and R: "\<forall>r \<in> R. read_covered C r"
    and agree: "agree_on C \<rho> \<rho>'" "wf_model \<rho>" "wf_model \<rho>'"
  shows "is_Constant e \<or> e \<in> V \<Longrightarrow> eval \<rho> e = eval \<rho>' e"
    "\<forall>k \<in> set (node_exprs u). is_Constant k \<or> k \<in> V
      \<Longrightarrow> initial_value \<rho> a j = initial_value \<rho>' a j \<Longrightarrow> eval_read \<rho> u a j = eval_read \<rho>' u a j"
proof (induction e and u arbitrary: and a j)
  case (Read a ul i)
  then have "Read a ul i \<in> V" by simp
  with V have kids: "is_Constant i \<or> i \<in> V" "\<forall>k \<in> set (node_exprs ul). is_Constant k \<or> k \<in> V"
    and "(a, ul, i) \<in> R"
    by (auto simp: explored_def all_kids_def successors_def dyn_casts)
  with R have "read_covered C (a, ul, i)" by blast
  from read_agrees[OF this agree refl] Read.IH(2)[OF kids(1)] Read.IH(1)[OF kids(2)] show ?case by simp
next
  case (NotOptimized e)
  with V show ?case by (fastforce simp: explored_def all_kids_def successors_def)
next
  case (Select c t f)
  with V show ?case by (fastforce simp: explored_def all_kids_def successors_def)
next
  case (Concat l r)
  with V show ?case by (fastforce simp: explored_def all_kids_def successors_def)
next
  case (Extract e off w)
  with V show ?case by (fastforce simp: explored_def all_kids_def successors_def)
next
  case (Cast k e w)
  with V show ?case by (fastforce simp: explored_def all_kids_def successors_def)
next
  case (NotE e)
  with V show ?case by (fastforce simp: explored_def all_kids_def successors_def)
next
  case (Binary k l r)
  with V show ?case by (fastforce simp: explored_def all_kids_def successors_def)
qed simp_all

lemma eval_agree:
  assumes "\<forall>r \<in> set (findReads e True). read_covered C r"
    and "agree_on C \<rho> \<rho>'" "wf_model \<rho>" "wf_model \<rho>'"
  shows "eval \<rho> e = eval \<rho>' e"
  using findReads_closed[of e] explored_agree(1)[OF _ assms] by metis

section \<open>Independent constraints do not matter\<close>

abbreviation reads_in :: "(array \<times> int) set \<Rightarrow> expr \<Rightarrow> bool" where
  "reads_in C e \<equiv> \<forall>r \<in> set (findReads e True). read_covered C r"

lemma reads_in_mono: "reads_in C e \<Longrightarrow> C \<subseteq> C' \<Longrightarrow> reads_in C' e"
  using read_covered_mono by blast

lemma make_worklist_ok:
  "wf_constraints cs \<Longrightarrow> \<exists>wl. make_worklist cs = Inr wl \<and> map fst wl = cs
    \<and> (\<forall>(e, s) \<in> set wl. reads_in (cells s) e)"
proof (induction cs)
  case (Cons c cs)
  then obtain wl where wl: "make_worklist cs = Inr wl" "map fst wl = cs"
    "\<forall>(e, s) \<in> set wl. reads_in (cells s) e" by auto
  obtain s where "IndependentElementSet c = Inr s" "reads_in (cells s) c"
    using IndependentElementSet_ok[of c] Cons.prems by auto
  with wl show ?case by (intro exI[of _ "(c, s) # wl"]) (simp add: map_res_def)
qed simp

lemma getIndependentConstraints_ok:
  assumes "wf_constraints (q_constraints q)" "wf_expr (q_expr q)"
  obtains c required where "getIndependentConstraints q = Inr (c, required)"
    "set required \<subseteq> set (q_constraints q)"
    "reads_in (cells c) (q_expr q)" "\<forall>e \<in> set required. reads_in (cells c) e"
    "\<forall>e \<in> set (q_constraints q). e \<in> set required \<or> reads_in (- cells c) e"
proof -
  obtain c0 where c0: "IndependentElementSet (q_expr q) = Inr c0" "reads_in (cells c0) (q_expr q)"
    using IndependentElementSet_ok[OF assms(2)] by metis
  obtain wl where wl: "make_worklist (q_constraints q) = Inr wl" "map fst wl = q_constraints q"
    "\<forall>(e, s) \<in> set wl. reads_in (cells s) e" using make_worklist_ok[OF assms(1)] by auto
  obtain c required where loop: "independent_loop wl c0 [] = (c, required)"
    by (cases "independent_loop wl c0 []")
  note ends = independent_loop_cells[OF loop]
  have in_wl: "e \<in> set (q_constraints q) \<longleftrightarrow> (\<exists>s. (e, s) \<in> set wl)" for e
    unfolding wl(2)[symmetric] by force
  have req: "e \<in> set (q_constraints q) \<and> reads_in (cells c) e" if "e \<in> set required" for e
  proof -
    from ends that obtain s where s: "(e, s) \<in> set wl" "inside (cells c) s" by auto
    then have "reads_in (cells s) e" using wl(3) by blast
    with s in_wl reads_in_mono show ?thesis unfolding inside_def by blast
  qed
  have rest: "e \<in> set required \<or> reads_in (- cells c) e" if "e \<in> set (q_constraints q)" for e
  proof (cases "e \<in> set required")
    case False
    from that in_wl obtain s where s: "(e, s) \<in> set wl" by blast
    with ends False have "apart (cells c) s" by blast
    then have "cells s \<subseteq> - cells c" by (auto simp: apart_def)
    moreover have "reads_in (cells s) e" using wl(3) s by blast
    ultimately show ?thesis using reads_in_mono by blast
  qed simp
  have "getIndependentConstraints q = Inr (c, required)"
    using c0(1) wl(1) loop by (simp add: getIndependentConstraints_def map_res_def)
  moreover have "set required \<subseteq> set (q_constraints q)" using req by blast
  moreover have "cells c0 \<subseteq> cells c" using ends by blast
  then have "reads_in (cells c) (q_expr q)" by (rule reads_in_mono[OF c0(2)])
  ultimately show thesis by (rule that) (use req rest in blast)+
qed

text \<open>Contents taken from one environment on \<open>C\<close> and from another elsewhere.\<close>

definition mix_env :: "(array \<times> int) set \<Rightarrow> env \<Rightarrow> env \<Rightarrow> env" where
  "mix_env C \<rho> \<rho>' a j = (if (a, j) \<in> C then \<rho> a j else \<rho>' a j)"

lemma wf_model_mix: "wf_model \<rho> \<Longrightarrow> wf_model \<rho>' \<Longrightarrow> wf_model (mix_env C \<rho> \<rho>')"
  by (simp add: wf_model_def wf_env_def mix_env_def)

lemma eval_mix:
  assumes "wf_model \<rho>" "wf_model \<rho>'"
  shows "reads_in C e \<Longrightarrow> eval (mix_env C \<rho> \<rho>') e = eval \<rho> e"
    "reads_in (- C) e \<Longrightarrow> eval (mix_env C \<rho> \<rho>') e = eval \<rho>' e"
proof -
  show "reads_in C e \<Longrightarrow> eval (mix_env C \<rho> \<rho>') e = eval \<rho> e"
    by (rule eval_agree) (use assms wf_model_mix in \<open>auto simp: agree_on_def mix_env_def\<close>)
  show "reads_in (- C) e \<Longrightarrow> eval (mix_env C \<rho> \<rho>') e = eval \<rho>' e"
    by (rule eval_agree) (use assms wf_model_mix in \<open>auto simp: agree_on_def mix_env_def\<close>)
qed

lemma independent_values:
  assumes q: "wf_query q"
  obtains c required where "getIndependentConstraints q = Inr (c, required)"
    "wf_query \<lparr>q_constraints = required, q_expr = q_expr q\<rparr>"
    "values_of \<lparr>q_constraints = required, q_expr = q_expr q\<rparr> = values_of q"
    "set required \<subseteq> set (q_constraints q)"
proof -
  obtain c required where r: "getIndependentConstraints q = Inr (c, required)"
    "set required \<subseteq> set (q_constraints q)"
    "reads_in (cells c) (q_expr q)" "\<forall>e \<in> set required. reads_in (cells c) e"
    "\<forall>e \<in> set (q_constraints q). e \<in> set required \<or> reads_in (- cells c) e"
    by (metis getIndependentConstraints_ok wf_query_parts(1,2)[OF q])
  obtain \<rho>2 where \<rho>2: "wf_model \<rho>2" "sat \<rho>2 (q_constraints q)"
    using wf_query_parts(3)[OF q] by (auto simp: feasible_def)
  have fewer: "sat \<rho> required" if "sat \<rho> (q_constraints q)" for \<rho>
    using that r(2) by (auto simp: sat_def)
  have more: "\<exists>\<rho>. wf_model \<rho> \<and> sat \<rho> (q_constraints q) \<and> eval \<rho> (q_expr q) = eval \<rho>1 (q_expr q)"
    if \<rho>1: "wf_model \<rho>1" "sat \<rho>1 required" for \<rho>1
  proof (intro exI conjI)
    note mixed = eval_mix[where C = "cells c", OF \<rho>1(1) \<rho>2(1)]
    show "wf_model (mix_env (cells c) \<rho>1 \<rho>2)" by (rule wf_model_mix[OF \<rho>1(1) \<rho>2(1)])
    show "eval (mix_env (cells c) \<rho>1 \<rho>2) (q_expr q) = eval \<rho>1 (q_expr q)" by (rule mixed(1)[OF r(3)])
    show "sat (mix_env (cells c) \<rho>1 \<rho>2) (q_constraints q)"
      unfolding sat_def
    proof
      fix e assume e: "e \<in> set (q_constraints q)"
      show "eval (mix_env (cells c) \<rho>1 \<rho>2) e = 1"
      proof (cases "e \<in> set required")
        case True
        with r(4) mixed(1)[of e] \<rho>1(2) show ?thesis by (simp add: sat_def)
      next
        case False
        with r(5) e have "reads_in (- cells c) e" by blast
        from mixed(2)[OF this] \<rho>2(2) e show ?thesis by (simp add: sat_def)
      qed
    qed
  qed
  have "values_of \<lparr>q_constraints = required, q_expr = q_expr q\<rparr> = values_of q"
  proof (intro equalityI subsetI)
    fix v assume "v \<in> values_of \<lparr>q_constraints = required, q_expr = q_expr q\<rparr>"
    then show "v \<in> values_of q" using more by (auto simp: values_of_def) metis
  qed (use fewer in \<open>auto simp: values_of_def\<close>)
  moreover have "wf_query \<lparr>q_constraints = required, q_expr = q_expr q\<rparr>"
    using q r(2) \<rho>2 fewer by (auto simp: wf_query_def wf_constraints_def feasible_def)
  ultimately show thesis by (rule that[OF r(1) _ _ r(2), rotated])
qed

end
