(* ===== verification/Factors.thy ===== *)
theory Factors
  imports Independence "HOL-Library.Multiset"
begin

text \<open>
  Initial values by independent factors (\<open>IndependentSolver::computeInitialValues\<close> of
  \<open>klee/lib/Solver/IndependentSolver.cpp\<close>): the constraints and the negated query are split
  into factors that share no array element, each factor is solved on its own, and the bytes
  are put together and checked against the whole query.
\<close>

section \<open>The factors of a query\<close>

text \<open>
  One step: the factors that intersect the current one are added to it, the others are kept.
  The flag is the code's \<open>doneLoop\<close>.
\<close>

fun merge_current :: "element_set \<Rightarrow> element_set list \<Rightarrow> element_set \<times> element_set list \<times> bool" where
  "merge_current current [] = (current, [], True)"
| "merge_current current (cmp # factors) =
     (if ies_intersects current cmp
      then (case ies_add current cmp of (modified, c1) \<Rightarrow>
        case merge_current c1 factors of (c2, keep, doneLoop) \<Rightarrow> (c2, keep, \<not> modified \<and> doneLoop))
      else (case merge_current current factors of (c2, keep, doneLoop) \<Rightarrow>
        (c2, cmp # keep, doneLoop)))"

lemma merge_current_length:
  assumes "merge_current current factors = (c2, keep, doneLoop)"
  shows "length keep \<le> length factors \<and> (\<not> doneLoop \<longrightarrow> length keep < length factors)"
  using assms
proof (induction factors arbitrary: current c2 keep doneLoop)
  case (Cons cmp factors)
  obtain md c1 where add: "ies_add current cmp = (md, c1)" by (cases "ies_add current cmp")
  show ?case
  proof (cases "ies_intersects current cmp")
    case True
    obtain c2' k d where p: "merge_current c1 factors = (c2', k, d)" by (cases "merge_current c1 factors")
    from Cons.prems True add p Cons.IH[OF p] show ?thesis by auto
  next
    case False
    obtain c2' k d where p: "merge_current current factors = (c2', k, d)"
      by (cases "merge_current current factors")
    from Cons.prems False p Cons.IH[OF p] show ?thesis by auto
  qed
qed simp

function merge_round :: "element_set list \<Rightarrow> element_set list \<times> bool" where
  "merge_round [] = ([], True)"
| "merge_round (current # factors) =
     (case merge_current current factors of (c, keep, d) \<Rightarrow>
      case merge_round keep of (finished, d') \<Rightarrow> (c # finished, d \<and> d'))"
  by pat_completeness auto
termination
  by (relation "measure length") (auto dest!: sym[THEN merge_current_length] simp: less_Suc_eq_le)

lemma merge_round_length:
  assumes "merge_round fs = (fs', doneLoop)"
  shows "length fs' \<le> length fs \<and> (\<not> doneLoop \<longrightarrow> length fs' < length fs)"
  using assms
proof (induction fs arbitrary: fs' doneLoop rule: merge_round.induct)
  case (2 current factors)
  obtain c keep d where p: "merge_current current factors = (c, keep, d)"
    by (cases "merge_current current factors")
  obtain g d' where r: "merge_round keep = (g, d')" by (cases "merge_round keep")
  from "2.prems" p r merge_current_length[OF p] "2.IH"[OF p[symmetric] refl r] show ?case by auto
qed simp

function merge_all :: "element_set list \<Rightarrow> element_set list" where
  "merge_all factors =
     (case merge_round factors of (finished, doneLoop) \<Rightarrow>
        if doneLoop then finished else merge_all finished)"
  by pat_completeness auto
termination
  by (relation "measure length") (auto dest!: sym[THEN merge_round_length])

declare merge_all.simps [simp del]

fun make_factors :: "expr list \<Rightarrow> element_set list result" where
  "make_factors [] = Inr []"
| "make_factors (e # es) =
     bind_res (IndependentElementSet e) (\<lambda>s. map_res (\<lambda>fs. s # fs) (make_factors es))"

definition factor_exprs :: "query \<Rightarrow> expr list result" where
  "factor_exprs q =
     (if is_Constant (q_expr q)
      then assert_res (isFalse (q_expr q)) (Inr (q_constraints q))
      else Inr (createIsZero (q_expr q) # q_constraints q))"

definition getAllIndependentConstraintsSets :: "query \<Rightarrow> element_set list result" where
  "getAllIndependentConstraintsSets q =
     bind_res (factor_exprs q) (\<lambda>es. map_res merge_all (make_factors es))"

section \<open>Initial values\<close>

text \<open>
  \<open>calculateArrayReferences\<close>: a \<open>std::set\<close> of pointers is visited in the order \<open>plt\<close> of the
  addresses.
\<close>

fun set_insert :: "('a \<Rightarrow> 'a \<Rightarrow> bool) \<Rightarrow> 'a \<Rightarrow> 'a list \<Rightarrow> 'a list" where
  "set_insert plt x [] = [x]"
| "set_insert plt x (y # ys) =
     (if x = y then y # ys else if plt x y then x # y # ys else y # set_insert plt x ys)"

definition calculateArrayReferences :: "(array \<Rightarrow> array \<Rightarrow> bool) \<Rightarrow> element_set \<Rightarrow> array list" where
  "calculateArrayReferences plt ie =
     fold (set_insert plt) (map fst (elements ie) @ wholeObjects ie) []"

text \<open>The bytes of a factor at its own indices are written over those found before.\<close>

fun write_indices :: "int list \<Rightarrow> int list \<Rightarrow> int list \<Rightarrow> int list result" where
  "write_indices [] vs old = Inr old"
| "write_indices (i # is) vs old =
     (if 0 \<le> i \<and> nat i < length old \<and> nat i < length vs
      then write_indices is vs (old[nat i := vs ! nat i]) else Inl OutOfBounds)"

fun store_values ::
    "element_set \<Rightarrow> array list \<Rightarrow> int list list \<Rightarrow> (array \<rightharpoonup> int list) \<Rightarrow> (array \<rightharpoonup> int list) result" where
  "store_values it (a # arrays) (vs # values) retMap =
     bind_res
       (case retMap a of
          Some old \<Rightarrow> assert_res (length old = length vs)
            (write_indices (case map_of (elements it) a of Some d \<Rightarrow> d | None \<Rightarrow> []) vs old)
        | None \<Rightarrow> Inr vs)
       (\<lambda>new. store_values it arrays values (retMap(a \<mapsto> new)))"
| "store_values it arrays values retMap = Inr retMap"

text \<open>
  The loop over the factors: \<open>None\<close> when the solver fails, \<open>Some None\<close> when a factor has no
  solution.
\<close>

fun solve_factors ::
    "(array \<Rightarrow> array \<Rightarrow> bool) \<Rightarrow> 's impl \<Rightarrow> element_set list \<Rightarrow> (array \<rightharpoonup> int list)
     \<Rightarrow> ('s, (array \<rightharpoonup> int list) option) call" where
  "solve_factors plt S [] retMap s = return_call (Some retMap) s"
| "solve_factors plt S (it # factors) retMap s =
     (let arraysInFactor = calculateArrayReferences plt it in
      assert_res (ies_exprs it \<noteq> [])
        (if arraysInFactor = [] then solve_factors plt S factors retMap s
         else on_success
           (computeInitialValues S \<lparr>q_constraints = ies_exprs it, q_expr = Constant 1 0\<rparr> arraysInFactor s)
           (\<lambda>solution s'. case solution of
              None \<Rightarrow> return_call None s'
            | Some tempValues \<Rightarrow>
                assert_res (length tempValues = length arraysInFactor)
                  (bind_res (store_values it arraysInFactor tempValues retMap) (\<lambda>retMap'.
                    solve_factors plt S factors retMap' s')))))"

fun all_evaluate_true :: "nat \<Rightarrow> assignment \<Rightarrow> expr list \<Rightarrow> bool result" where
  "all_evaluate_true n asg [] = Inr True"
| "all_evaluate_true n asg (c # cs) =
     bind_res (evaluate n asg c) (\<lambda>ret. assert_res (is_Constant ret)
       (if isFalse ret then Inr False else all_evaluate_true n asg cs))"

definition created_assignment ::
    "array list \<Rightarrow> int list list \<Rightarrow> (array \<rightharpoonup> int list) \<Rightarrow> assignment" where
  "created_assignment objects values retMap =
     (let assign = mk_Assignment objects values True in
      assign\<lparr>bindings := retMap ++ bindings assign\<rparr>)"

definition assertCreatedPointEvaluatesToTrue ::
    "nat \<Rightarrow> query \<Rightarrow> array list \<Rightarrow> int list list \<Rightarrow> (array \<rightharpoonup> int list) \<Rightarrow> bool result" where
  "assertCreatedPointEvaluatesToTrue n q objects values retMap =
     (let assign = created_assignment objects values retMap in
      bind_res (all_evaluate_true n assign (q_constraints q)) (\<lambda>ok.
        if \<not> ok then Inr False
        else bind_res (evaluate n assign (createIsZero (q_expr q))) (\<lambda>v.
          assert_res (is_Constant v) (Inr (isTrue v)))))"

definition object_values :: "(array \<rightharpoonup> int list) \<Rightarrow> array \<Rightarrow> int list" where
  "object_values retMap a =
     (case retMap a of None \<Rightarrow> replicate (arr_size a) 0 | Some vs \<Rightarrow> vs)"

definition independent_computeInitialValues ::
    "nat \<Rightarrow> (array \<Rightarrow> array \<Rightarrow> bool) \<Rightarrow> 's impl \<Rightarrow> query \<Rightarrow> array list
     \<Rightarrow> ('s, int list list option) call" where
  "independent_computeInitialValues n plt S q objects s =
     bind_res (getAllIndependentConstraintsSets q) (\<lambda>factors.
       on_success (solve_factors plt S factors Map.empty s) (\<lambda>solution s'.
         case solution of
           None \<Rightarrow> return_call None s'
         | Some retMap \<Rightarrow>
             let values = map (object_values retMap) objects in
             bind_res (assertCreatedPointEvaluatesToTrue n q objects values retMap) (\<lambda>ok.
               assert_res ok (return_call (Some values) s'))))"

definition IndependentSolver :: "nat \<Rightarrow> (array \<Rightarrow> array \<Rightarrow> bool) \<Rightarrow> 's impl \<Rightarrow> 's impl" where
  "IndependentSolver n plt S =
     \<lparr>computeTruth = IndependentSolver_truth S, computeValidity = IndependentSolver_validity S,
      computeValue = IndependentSolver_value S,
      computeInitialValues = independent_computeInitialValues n plt S\<rparr>"

section \<open>The independent solver keeps the contract\<close>

context solver_impl begin

lemma with_required_ok:
  assumes "\<And>q. wf_query q \<Longrightarrow> P q \<Longrightarrow> answers m ok (Q q) (f q s)"
    and "wf_query q" "P q"
    and "\<And>q'. q_expr q' = q_expr q \<Longrightarrow> wf_query q' \<Longrightarrow> values_of q' = values_of q \<Longrightarrow> P q' \<and> Q q' = Q q"
  shows "answers m ok (Q q) (with_required f q s)"
proof -
  obtain c required where r: "getIndependentConstraints q = Inr (c, required)"
    "wf_query \<lparr>q_constraints = required, q_expr = q_expr q\<rparr>"
    "values_of \<lparr>q_constraints = required, q_expr = q_expr q\<rparr> = values_of q"
    using independent_values[OF assms(2)] by metis
  have "P \<lparr>q_constraints = required, q_expr = q_expr q\<rparr>"
    "Q \<lparr>q_constraints = required, q_expr = q_expr q\<rparr> = Q q"
    using assms(4)[OF _ r(2,3)] by auto
  with assms(1)[OF r(2)] r(1) show ?thesis by (simp add: with_required_def)
qed

lemma independent_contract: "solver_impl (IndependentSolver n plt S) ok m"
proof
  fix s q
  assume s: "ok s"
  show "bool_query q \<Longrightarrow> answers m ok (\<lambda>b. b = valid q) (computeTruth (IndependentSolver n plt S) q s)"
    unfolding IndependentSolver_def impl.simps IndependentSolver_truth_def
    by (rule with_required_ok[where P = bool_query and Q = "\<lambda>q b. b = valid q" and f = "computeTruth S", OF truth[OF s]])
      (auto simp: bool_query_def valid_def)
  show "bool_query q \<Longrightarrow>
      answers m ok (\<lambda>v. v = validity_of q) (computeValidity (IndependentSolver n plt S) q s)"
    unfolding IndependentSolver_def impl.simps IndependentSolver_validity_def
    by (rule with_required_ok[where P = bool_query and Q = "\<lambda>q v. v = validity_of q" and f = "computeValidity S", OF validity[OF s]])
      (auto simp: bool_query_def validity_of_def valid_def refuted_def)
  show "wf_query q \<Longrightarrow> answers m ok (\<lambda>e. \<exists>v \<in> values_of q. e = Constant (getWidth (q_expr q)) v)
      (computeValue (IndependentSolver n plt S) q s)"
    unfolding IndependentSolver_def impl.simps IndependentSolver_value_def
    by (rule with_required_ok[where P = wf_query and f = "computeValue S"
        and Q = "\<lambda>q e. \<exists>v \<in> values_of q. e = Constant (getWidth (q_expr q)) v", OF val[OF s]]) auto
qed

end

section \<open>The factors partition the constraints\<close>

definition arrays_of :: "element_set \<Rightarrow> array set" where
  "arrays_of s = fst ` set (elements s) \<union> set (wholeObjects s)"

lemma arrays_of_update:
  "arrays_of (s\<lparr>elements := AList.update a d (elements s)\<rparr>) = insert a (arrays_of s)"
  by (simp add: arrays_of_def AList.dom_update)

lemma arrays_of_delete:
  "arrays_of (s\<lparr>elements := AList.delete a (elements s), wholeObjects := List.insert a (wholeObjects s)\<rparr>)
    \<subseteq> insert a (arrays_of s)"
  by (force simp: arrays_of_def AList.delete_eq)

lemma add_whole_parts:
  "add_whole a (m, s) = (m', s') \<Longrightarrow> ies_exprs s' = ies_exprs s \<and> arrays_of s' \<subseteq> insert a (arrays_of s)"
  using arrays_of_delete[of a s]
  by (auto simp: add_whole_def split: if_splits) (auto simp: arrays_of_def)

lemma add_elements_parts:
  "add_elements (a, d) (m, s) = (m', s') \<Longrightarrow> ies_exprs s' = ies_exprs s \<and> arrays_of s' \<subseteq> insert a (arrays_of s)"
  by (auto simp: add_elements_def arrays_of_update split: if_splits option.splits prod.splits)

lemma fold_add_whole_parts:
  "fold add_whole as (m, s) = (m', s') \<Longrightarrow> ies_exprs s' = ies_exprs s \<and> arrays_of s' \<subseteq> set as \<union> arrays_of s"
proof (induction as arbitrary: m s)
  case (Cons a as)
  obtain m1 s1 where 1: "add_whole a (m, s) = (m1, s1)" by (cases "add_whole a (m, s)")
  with Cons.prems have "fold add_whole as (m1, s1) = (m', s')" by simp
  from Cons.IH[OF this] add_whole_parts[OF 1] show ?case by auto
qed simp

lemma fold_add_elements_parts:
  "fold add_elements ds (m, s) = (m', s')
    \<Longrightarrow> ies_exprs s' = ies_exprs s \<and> arrays_of s' \<subseteq> fst ` set ds \<union> arrays_of s"
proof (induction ds arbitrary: m s)
  case (Cons ad ds)
  obtain a d where ad: "ad = (a, d)" by (cases ad)
  obtain m1 s1 where 1: "add_elements (a, d) (m, s) = (m1, s1)" by (cases "add_elements (a, d) (m, s)")
  with Cons.prems ad have "fold add_elements ds (m1, s1) = (m', s')" by simp
  from Cons.IH[OF this] add_elements_parts[OF 1] ad show ?case by auto
qed simp

lemma ies_add_parts:
  assumes "ies_add s b = (modified, s')"
  shows "ies_exprs s' = ies_exprs s @ ies_exprs b" "arrays_of s' \<subseteq> arrays_of s \<union> arrays_of b"
proof -
  define s0 where "s0 = s\<lparr>ies_exprs := ies_exprs s @ ies_exprs b\<rparr>"
  obtain m1 s1 where 1: "fold add_whole (wholeObjects b) (False, s0) = (m1, s1)"
    by (cases "fold add_whole (wholeObjects b) (False, s0)")
  have 2: "fold add_elements (elements b) (m1, s1) = (modified, s')"
    using assms 1 by (simp add: ies_add_def s0_def)
  have "arrays_of s0 = arrays_of s" by (simp add: s0_def arrays_of_def)
  moreover have "set (wholeObjects b) \<union> fst ` set (elements b) = arrays_of b"
    by (auto simp: arrays_of_def)
  ultimately show "arrays_of s' \<subseteq> arrays_of s \<union> arrays_of b"
    using fold_add_whole_parts[OF 1] fold_add_elements_parts[OF 2] by blast
  show "ies_exprs s' = ies_exprs s @ ies_exprs b"
    using fold_add_whole_parts[OF 1] fold_add_elements_parts[OF 2] by (simp add: s0_def)
qed

text \<open>
  A factor's expressions read only its cells, and its arrays are well-formed. The factors are
  apart from each other.
\<close>

definition factor_ok :: "element_set \<Rightarrow> bool" where
  "factor_ok s \<longleftrightarrow> ies_exprs s \<noteq> [] \<and> (\<forall>e \<in> set (ies_exprs s). reads_in (cells s) e)
     \<and> (\<forall>a \<in> arrays_of s. wf_array a)"

definition all_exprs :: "element_set list \<Rightarrow> expr multiset" where
  "all_exprs fs = (\<Sum>s \<leftarrow> fs. mset (ies_exprs s))"

abbreviation separate :: "element_set list \<Rightarrow> bool" where
  "separate \<equiv> sorted_wrt (\<lambda>s t. cells s \<inter> cells t = {})"

lemma all_exprs_simps [simp]:
  "all_exprs [] = {#}" "all_exprs (s # fs) = mset (ies_exprs s) + all_exprs fs"
  by (simp_all add: all_exprs_def)

lemma in_all_exprs: "e \<in># all_exprs fs \<longleftrightarrow> (\<exists>s \<in> set fs. e \<in> set (ies_exprs s))"
  by (induction fs) auto

lemma factor_ok_add:
  assumes "factor_ok s" "factor_ok b" "ies_add s b = (modified, s')"
  shows "factor_ok s'"
proof -
  have "cells s \<subseteq> cells s'" "cells b \<subseteq> cells s'" using ies_add_cells(1)[OF assms(3)] by auto
  then have "reads_in (cells s') e" if "e \<in> set (ies_exprs s) \<or> e \<in> set (ies_exprs b)" for e
    using that assms(1,2) reads_in_mono unfolding factor_ok_def by blast
  with assms(1,2) ies_add_parts[OF assms(3)] show ?thesis by (auto simp: factor_ok_def)
qed

lemma merge_current_ok:
  assumes "merge_current current fs = (c, keep, d)" "factor_ok current" "\<forall>f \<in> set fs. factor_ok f"
  shows "factor_ok c \<and> set keep \<subseteq> set fs
    \<and> mset (ies_exprs c) + all_exprs keep = mset (ies_exprs current) + all_exprs fs
    \<and> (d \<longrightarrow> cells c = cells current \<and> (\<forall>f \<in> set keep. apart (cells c) f))"
  using assms
proof (induction fs arbitrary: current c keep d)
  case (Cons f fs)
  show ?case
  proof (cases "ies_intersects current f")
    case True
    obtain md c1 where add: "ies_add current f = (md, c1)" by (cases "ies_add current f")
    obtain c2 k d2 where p: "merge_current c1 fs = (c2, k, d2)" by (cases "merge_current c1 fs")
    have eqs: "c = c2" "keep = k" "d \<longleftrightarrow> \<not> md \<and> d2" using Cons.prems(1) True add p by auto
    have "factor_ok c1" using factor_ok_add[OF _ _ add] Cons.prems(2,3) by simp
    with Cons.IH[OF p] Cons.prems(3)
    have IH: "factor_ok c2" "set k \<subseteq> set fs"
      "mset (ies_exprs c2) + all_exprs k = mset (ies_exprs c1) + all_exprs fs"
      "d2 \<longrightarrow> cells c2 = cells c1 \<and> (\<forall>f \<in> set k. apart (cells c2) f)" by auto
    from IH eqs ies_add_parts(1)[OF add] ies_add_cells(2)[OF add] show ?thesis
      by (auto simp: union_assoc)
  next
    case False
    obtain c2 k d2 where p: "merge_current current fs = (c2, k, d2)" by (cases "merge_current current fs")
    have eqs: "c = c2" "keep = f # k" "d = d2" using Cons.prems(1) False p by auto
    from Cons.IH[OF p] Cons.prems(2,3)
    have IH: "factor_ok c2" "set k \<subseteq> set fs"
      "mset (ies_exprs c2) + all_exprs k = mset (ies_exprs current) + all_exprs fs"
      "d2 \<longrightarrow> cells c2 = cells current \<and> (\<forall>f \<in> set k. apart (cells c2) f)" by auto
    have "apart (cells current) f"
      using not_intersects_disjoint[OF False] by (auto simp: apart_def)
    with IH eqs show ?thesis by (auto simp: union_assoc add.left_commute)
  qed
qed auto

lemma merge_round_ok:
  assumes "merge_round fs = (gs, d)" "\<forall>f \<in> set fs. factor_ok f"
  shows "(\<forall>f \<in> set gs. factor_ok f) \<and> all_exprs gs = all_exprs fs
    \<and> (d \<longrightarrow> separate gs \<and> cells ` set gs \<subseteq> cells ` set fs)"
  using assms
proof (induction fs arbitrary: gs d rule: merge_round.induct)
  case (2 current fs)
  obtain c keep d1 where p: "merge_current current fs = (c, keep, d1)" by (cases "merge_current current fs")
  obtain g d2 where r: "merge_round keep = (g, d2)" by (cases "merge_round keep")
  have eqs: "gs = c # g" "d \<longleftrightarrow> d1 \<and> d2" using "2.prems"(1) p r by auto
  have cur: "factor_ok c" "set keep \<subseteq> set fs"
    "mset (ies_exprs c) + all_exprs keep = mset (ies_exprs current) + all_exprs fs"
    "d1 \<longrightarrow> cells c = cells current \<and> (\<forall>f \<in> set keep. apart (cells c) f)"
    using merge_current_ok[OF p] "2.prems"(2) by auto
  have "\<forall>f \<in> set keep. factor_ok f" using cur(2) "2.prems"(2) by auto
  from "2.IH"[OF p[symmetric] refl r this]
  have IH: "\<forall>f \<in> set g. factor_ok f" "all_exprs g = all_exprs keep"
    "d2 \<longrightarrow> separate g \<and> cells ` set g \<subseteq> cells ` set keep" by auto
  have "separate gs \<and> cells ` set gs \<subseteq> cells ` set (current # fs)" if d
  proof -
    from that eqs(2) have d: d1 d2 by auto
    have "cells c \<inter> cells f = {}" if "f \<in> set g" for f
    proof -
      from that d(2) IH(3) obtain f' where "f' \<in> set keep" "cells f = cells f'" by auto
      with cur(4) d(1) show ?thesis by (auto simp: apart_def)
    qed
    moreover have "separate g" "cells ` set g \<subseteq> cells ` set keep" "cells c = cells current"
      using d IH(3) cur(4) by simp_all
    moreover from this(2) have "cells ` set g \<subseteq> cells ` set fs"
      using image_mono[OF cur(2), of cells] by (rule order_trans)
    then have "cells ` set g \<subseteq> insert (cells current) (cells ` set fs)" by (rule subset_insertI2)
    ultimately show ?thesis unfolding eqs(1) by simp
  qed
  with cur(1,3) IH(1,2) eqs(1) show ?case by auto
qed simp

lemma merge_all_ok:
  "\<forall>f \<in> set fs. factor_ok f \<Longrightarrow> (\<forall>f \<in> set (merge_all fs). factor_ok f)
    \<and> all_exprs (merge_all fs) = all_exprs fs \<and> separate (merge_all fs)"
proof (induction fs rule: merge_all.induct)
  case (1 fs)
  obtain g d where r: "merge_round fs = (g, d)" by (cases "merge_round fs")
  note round = merge_round_ok[OF r "1.prems"]
  show ?case
  proof (cases d)
    case True
    then have "merge_all fs = g" using r by (simp add: merge_all.simps[of fs])
    with True round show ?thesis by simp
  next
    case False
    then have "merge_all fs = merge_all g" using r by (simp add: merge_all.simps[of fs])
    with "1.IH"[OF r[symmetric] False] round show ?thesis by simp
  qed
qed

lemma add_reads_arrays:
  "add_reads rs s = Inr s' \<Longrightarrow> \<forall>r \<in> set rs. wf_read r \<Longrightarrow> \<forall>a \<in> arrays_of s. wf_array a
    \<Longrightarrow> \<forall>a \<in> arrays_of s'. wf_array a"
proof (induction rs arbitrary: s)
  case (Cons r rs)
  obtain a ul i where r: "r = (a, ul, i)" by (cases r)
  obtain s1 where s1: "add_read r s = Inr s1" "add_reads rs s1 = Inr s'" using Cons.prems(1) by auto
  have a: "wf_array a" using Cons.prems(2) r by (auto simp: wf_read_def)
  have "arrays_of s1 \<subseteq> insert a (arrays_of s)"
    using s1(1) arrays_of_delete[of a s] by (auto simp: add_read_def r arrays_of_update split: if_splits)
  with a Cons.prems Cons.IH[OF s1(2)] show ?case by auto
qed simp

lemma IndependentElementSet_factor_ok:
  assumes "wf_expr e"
  obtains s where "IndependentElementSet e = Inr s" "ies_exprs s = [e]" "factor_ok s"
proof -
  obtain s where s: "IndependentElementSet e = Inr s" "ies_exprs s = [e]" "reads_in (cells s) e"
    using IndependentElementSet_ok[OF assms] by metis
  have "\<forall>a \<in> arrays_of s. wf_array a"
    by (rule add_reads_arrays[OF s(1)[unfolded IndependentElementSet_def]])
      (use findReads_wf[OF assms] in \<open>auto simp: arrays_of_def\<close>)
  with s that show thesis by (simp add: factor_ok_def)
qed

lemma make_factors_ok:
  "\<forall>e \<in> set es. wf_expr e \<Longrightarrow> \<exists>fs. make_factors es = Inr fs \<and> (\<forall>f \<in> set fs. factor_ok f)
    \<and> all_exprs fs = mset es"
proof (induction es)
  case (Cons e es)
  then obtain fs where fs: "make_factors es = Inr fs" "\<forall>f \<in> set fs. factor_ok f" "all_exprs fs = mset es"
    by auto
  obtain s where "IndependentElementSet e = Inr s" "ies_exprs s = [e]" "factor_ok s"
    using IndependentElementSet_factor_ok[of e] Cons.prems by auto
  with fs show ?case by (intro exI[of _ "s # fs"]) (simp add: map_res_def)
qed simp

lemma getAll_ok:
  assumes "factor_exprs q = Inr es" "\<forall>e \<in> set es. wf_expr e"
  obtains fs where "getAllIndependentConstraintsSets q = Inr fs" "\<forall>f \<in> set fs. factor_ok f"
    "all_exprs fs = mset es" "separate fs"
proof -
  obtain fs where fs: "make_factors es = Inr fs" "\<forall>f \<in> set fs. factor_ok f" "all_exprs fs = mset es"
    using make_factors_ok[OF assms(2)] by blast
  from fs(1) assms(1) have "getAllIndependentConstraintsSets q = Inr (merge_all fs)"
    by (simp add: getAllIndependentConstraintsSets_def map_res_def)
  with merge_all_ok[OF fs(2)] fs(3) that show thesis by metis
qed

text \<open>Satisfying every factor is satisfying all of them.\<close>

lemma factors_satisfiable:
  assumes "separate fs" "\<forall>f \<in> set fs. factor_ok f" "\<forall>f \<in> set fs. feasible (ies_exprs f)"
  shows "\<exists>\<rho>. wf_model \<rho> \<and> (\<forall>f \<in> set fs. sat \<rho> (ies_exprs f))"
  using assms
proof (induction fs)
  case Nil
  have "wf_model (\<lambda>a j. 0)" by (simp add: wf_model_def wf_env_def)
  then show ?case by auto
next
  case (Cons f fs)
  then obtain \<rho>2 where \<rho>2: "wf_model \<rho>2" "\<forall>g \<in> set fs. sat \<rho>2 (ies_exprs g)" by auto
  obtain \<rho>1 where \<rho>1: "wf_model \<rho>1" "sat \<rho>1 (ies_exprs f)"
    using Cons.prems(3) by (auto simp: feasible_def)
  define \<rho> where "\<rho> = mix_env (cells f) \<rho>1 \<rho>2"
  have "sat \<rho> (ies_exprs f)"
    using Cons.prems(2) \<rho>1 eval_mix(1)[OF \<rho>1(1) \<rho>2(1)] by (simp add: sat_def \<rho>_def factor_ok_def)
  moreover have "sat \<rho> (ies_exprs g)" if g: "g \<in> set fs" for g
  proof -
    have "cells g \<subseteq> - cells f" using Cons.prems(1) g by auto
    then have "reads_in (- cells f) e" if "e \<in> set (ies_exprs g)" for e
      using that Cons.prems(2) g reads_in_mono unfolding factor_ok_def by (meson list.set_intros(2))
    then have "eval \<rho> e = eval \<rho>2 e" if "e \<in> set (ies_exprs g)" for e
      unfolding \<rho>_def using that by (intro eval_mix(2)[OF \<rho>1(1) \<rho>2(1)]) blast
    with \<rho>2(2) g show ?thesis by (simp add: sat_def)
  qed
  moreover have "wf_model \<rho>" unfolding \<rho>_def by (rule wf_model_mix[OF \<rho>1(1) \<rho>2(1)])
  ultimately show ?case by auto
qed

lemma factors_feasible:
  assumes "factor_exprs q = Inr es" "\<forall>e \<in> set es. wf_expr e"
    and "getAllIndependentConstraintsSets q = Inr fs"
  shows "feasible es \<longleftrightarrow> (\<forall>f \<in> set fs. feasible (ies_exprs f))"
proof -
  have fs: "\<forall>f \<in> set fs. factor_ok f" "all_exprs fs = mset es" "separate fs"
    using getAll_ok[OF assms(1,2)] assms(3) by force+
  have es: "e \<in> set es \<longleftrightarrow> (\<exists>f \<in> set fs. e \<in> set (ies_exprs f))" for e
    using in_all_exprs[of e fs] fs(2) by simp
  have "feasible es" if "\<forall>f \<in> set fs. feasible (ies_exprs f)"
    using factors_satisfiable[OF fs(3,1) that] es by (auto simp: feasible_def sat_def)
  moreover have "feasible (ies_exprs f)" if "feasible es" "f \<in> set fs" for f
    using that es by (auto simp: feasible_def sat_def)
  ultimately show ?thesis by blast
qed

section \<open>Initial values are a counterexample\<close>

text \<open>The bytes found for an array: as many as it has elements, each of its width.\<close>

definition bytes_ok :: "(array \<rightharpoonup> int list) \<Rightarrow> bool" where
  "bytes_ok M \<longleftrightarrow> (\<forall>a vs. M a = Some vs \<longrightarrow> length vs = arr_size a
     \<and> (isSymbolicArray a \<longrightarrow> (\<forall>v \<in> set vs. in_width (arr_range a) v)))"

lemma set_insert_set: "set (set_insert plt x xs) = insert x (set xs)"
  by (induction xs) auto

lemma calculateArrayReferences_set: "set (calculateArrayReferences plt ie) = arrays_of ie"
proof -
  have "set (fold (set_insert plt) xs ys) = set xs \<union> set ys" for xs ys
    by (induction xs arbitrary: ys) (auto simp: set_insert_set)
  then show ?thesis by (simp add: calculateArrayReferences_def arrays_of_def Un_commute)
qed

lemma write_indices_ok:
  "write_indices is vs old = Inr new \<Longrightarrow> length new = length old \<and> set new \<subseteq> set old \<union> set vs"
proof (induction "is" vs old rule: write_indices.induct)
  case (2 i "is" vs old)
  then have i: "nat i < length vs" "write_indices is vs (old[nat i := vs ! nat i]) = Inr new"
    by (auto split: if_splits)
  have "set (old[nat i := vs ! nat i]) \<subseteq> set old \<union> set vs"
    using set_update_subset_insert[of old "nat i" "vs ! nat i"] nth_mem[OF i(1)] by auto
  with "2.IH"[OF _ i(2)] "2.prems" show ?case by (fastforce split: if_splits)
qed simp

lemma store_values_ok:
  assumes "store_values it arrays vss M = Inr M'" "bytes_ok M"
    and "list_all2 (\<lambda>a vs. length vs = arr_size a
      \<and> (isSymbolicArray a \<longrightarrow> (\<forall>v \<in> set vs. in_width (arr_range a) v))) arrays vss"
  shows "bytes_ok M'"
  using assms
proof (induction it arrays vss M rule: store_values.induct)
  case (1 it a arrays vs vss M)
  from "1.prems"(1) obtain new where new: "store_values it arrays vss (M(a \<mapsto> new)) = Inr M'"
    "(case M a of Some old \<Rightarrow> assert_res (length old = length vs)
        (write_indices (case map_of (elements it) a of Some d \<Rightarrow> d | None \<Rightarrow> []) vs old)
      | None \<Rightarrow> Inr vs) = Inr new" by auto
  have vs: "length vs = arr_size a" "isSymbolicArray a \<longrightarrow> (\<forall>v \<in> set vs. in_width (arr_range a) v)"
    using "1.prems"(3) by auto
  have "length new = arr_size a \<and> (isSymbolicArray a \<longrightarrow> (\<forall>v \<in> set new. in_width (arr_range a) v))"
  proof (cases "M a")
    case (Some old)
    with new(2) have "write_indices (case map_of (elements it) a of Some d \<Rightarrow> d | None \<Rightarrow> []) vs old = Inr new"
      by simp
    from write_indices_ok[OF this] Some "1.prems"(2) vs show ?thesis by (auto simp: bytes_ok_def)
  qed (use new(2) vs in simp)
  then have "bytes_ok (M(a \<mapsto> new))" using "1.prems"(2) by (simp add: bytes_ok_def)
  with "1.IH"[OF new(2) new(1)] "1.prems"(3) show ?case by (simp add: fun_upd_def)
qed simp_all

lemma not_feasible_false:
  "valid \<lparr>q_constraints = cs, q_expr = Constant w 0\<rparr> \<Longrightarrow> \<not> feasible cs"
  by (auto simp: valid_def values_of_def feasible_def)

definition factor_wf :: "element_set \<Rightarrow> bool" where
  "factor_wf f \<longleftrightarrow> wf_constraints (ies_exprs f) \<and> (\<forall>a \<in> arrays_of f. wf_array a)"

text \<open>The contents that the created assignment stands for.\<close>

definition env_from :: "assignment \<Rightarrow> env" where
  "env_from asg a j = (if 0 \<le> j then env_of asg a j else 0)"

lemma agrees_env_from: "agrees asg (env_from asg)"
  by (auto simp: agrees_def env_from_def env_of_def split: option.splits)

lemma wf_model_env_from: "bytes_ok (bindings asg) \<Longrightarrow> wf_model (env_from asg)"
  using wf_env_of[of asg]
  by (auto simp: wf_model_def wf_env_def env_from_def env_of_def bytes_ok_def split: option.splits)

lemma created_bindings:
  fixes objects
  assumes "bytes_ok M"
  defines "asg \<equiv> created_assignment objects (map (object_values M) objects) M"
  shows "bytes_ok (bindings asg)" "a \<in> set objects \<Longrightarrow> bindings asg a = Some (object_values M a)"
proof -
  have b: "bindings asg = M ++ map_of (zip objects (map (object_values M) objects))"
    by (simp add: asg_def created_assignment_def mk_Assignment_def Let_def)
  have zip: "map_of (zip objects (map f objects)) a = (if a \<in> set objects then Some (f a) else None)" for f and a :: array
    using map_of_zip_map[of objects f] by (auto simp: fun_eq_iff)
  show "a \<in> set objects \<Longrightarrow> bindings asg a = Some (object_values M a)"
    by (simp add: b map_add_def zip)
  show "bytes_ok (bindings asg)"
    using assms(1)
    by (auto simp: bytes_ok_def b map_add_def zip object_values_def split: if_splits option.splits)
qed

lemma has_bytes_of_bindings:
  assumes M: "bytes_ok M" and asg: "\<And>a. a \<in> set objects \<Longrightarrow> M a \<noteq> None \<Longrightarrow> bindings asg a = M a"
    and none: "\<And>a. a \<in> set objects \<Longrightarrow> M a = None \<Longrightarrow> \<forall>j. env_of asg a j = 0"
  shows "has_bytes (env_from asg) objects (map (object_values M) objects)"
  unfolding has_bytes_def list_all2_map2
proof (rule list.rel_refl_strong)
  fix a assume a: "a \<in> set objects"
  show "length (object_values M a) = arr_size a
      \<and> (isSymbolicArray a \<longrightarrow> (\<forall>j<arr_size a. object_values M a ! j = env_from asg a (int j)))"
  proof (cases "M a")
    case None
    with none[OF a] show ?thesis by (simp add: object_values_def env_from_def)
  next
    case (Some vs)
    with M have "length vs = arr_size a" "isSymbolicArray a \<longrightarrow> (\<forall>v \<in> set vs. in_width (arr_range a) v)"
      by (auto simp: bytes_ok_def)
    with Some asg[OF a] show ?thesis
      by (auto simp: object_values_def env_from_def env_of_def take_bit_in_width)
  qed
qed

lemma has_bytes_created:
  assumes M: "bytes_ok M"
  shows "has_bytes (env_from (created_assignment objects (map (object_values M) objects) M))
    objects (map (object_values M) objects)"
proof (rule has_bytes_of_bindings[OF M])
  fix a assume a: "a \<in> set objects"
  note b = created_bindings(2)[OF M a]
  show "M a \<noteq> None \<Longrightarrow> bindings (created_assignment objects (map (object_values M) objects) M) a = M a"
    using b by (auto simp: object_values_def)
  show "M a = None \<Longrightarrow> \<forall>j. env_of (created_assignment objects (map (object_values M) objects) M) a j = 0"
    using b by (auto simp: object_values_def env_of_def)
qed

lemma evaluated_true:
  assumes "evaluate n asg e = Inr r" "is_Constant r" "\<not> isFalse r" "wf_expr e" "getWidth e = 1"
    "wf_env \<rho>" "agrees asg \<rho>"
  shows "eval \<rho> e = 1"
proof -
  note r = sem_eq_onD[OF evaluate_ok[OF assms(1)] assms(4)]
  obtain v where "r = Constant 1 v" using assms(2,5) r(2) by (cases r) auto
  with assms(3) r(1,3) assms(6,7) show ?thesis by (auto simp: in_width_bool)
qed

lemma all_evaluate_true_ok:
  "all_evaluate_true n asg cs = Inr True \<Longrightarrow> wf_constraints cs \<Longrightarrow> wf_env \<rho> \<Longrightarrow> agrees asg \<rho> \<Longrightarrow> sat \<rho> cs"
  by (induction cs) (auto simp: evaluated_true split: if_splits)

lemma created_point_ok:
  assumes "assertCreatedPointEvaluatesToTrue n q objects (map (object_values M) objects) M = Inr True"
    and "bool_form q" "bytes_ok M"
  shows "counterexample q objects (map (object_values M) objects)"
proof -
  define asg where "asg = created_assignment objects (map (object_values M) objects) M"
  define \<rho> where "\<rho> = env_from asg"
  have \<rho>: "wf_model \<rho>" "agrees asg \<rho>" "has_bytes \<rho> objects (map (object_values M) objects)"
    using created_bindings(1)[OF assms(3)] wf_model_env_from agrees_env_from has_bytes_created[OF assms(3)]
    by (auto simp: \<rho>_def asg_def)
  have q: "wf_constraints (q_constraints q)" "wf_expr (q_expr q)" using assms(2) by (simp_all add: bool_form_def)
  from assms(1) obtain v where v: "all_evaluate_true n asg (q_constraints q) = Inr True"
    "evaluate n asg (createIsZero (q_expr q)) = Inr v" "is_Constant v" "isTrue v"
    by (auto simp: assertCreatedPointEvaluatesToTrue_def Let_def asg_def split: if_splits)
  have "sat \<rho> (q_constraints q)" by (rule all_evaluate_true_ok[OF v(1) q(1)]) (use \<rho> in auto)
  moreover have "\<not> isFalse v" using v(4) by (cases v) auto
  then have "eval \<rho> (createIsZero (q_expr q)) = 1"
    using evaluated_true[OF v(2,3)] createIsZero_facts(1,2)[OF q(2)] \<rho> by auto
  then have "eval \<rho> (q_expr q) = 0"
    using createIsZero_facts(3)[OF q(2)] \<rho>(1) by (auto simp: wf_model_env split: if_splits)
  ultimately show ?thesis using \<rho> by (auto simp: counterexample_def)
qed

lemma valid_of_unsat:
  assumes "bool_form q" "\<And>\<rho>. wf_model \<rho> \<Longrightarrow> sat \<rho> (q_constraints q) \<Longrightarrow> eval \<rho> (q_expr q) \<noteq> 0"
  shows "valid q"
  using assms eval_bool[of _ "q_expr q"]
  by (fastforce simp: valid_def values_of_def bool_form_def wf_model_env)

context initial_impl begin

lemma solve_factors_ok:
  "\<forall>f \<in> set fs. factor_wf f \<Longrightarrow> bytes_ok M \<Longrightarrow> ok s \<Longrightarrow> answers MayAbort ok
    (\<lambda>r. case r of None \<Rightarrow> \<exists>f \<in> set fs. \<not> feasible (ies_exprs f) | Some M' \<Rightarrow> bytes_ok M')
    (solve_factors plt S fs M s)"
proof (induction fs arbitrary: M s)
  case (Cons f fs)
  let ?arrays = "calculateArrayReferences plt f"
  let ?P = "\<lambda>fs r. case r of None \<Rightarrow> \<exists>f \<in> set fs. \<not> feasible (ies_exprs f) | Some M' \<Rightarrow> bytes_ok M'"
  have weaken: "answers MayAbort ok (?P fs) x \<Longrightarrow> answers MayAbort ok (?P (f # fs)) x" for x
    by (erule answers_mono) (auto split: option.splits)
  have fs: "\<forall>f \<in> set fs. factor_wf f" using Cons.prems(1) by simp
  let ?q = "\<lparr>q_constraints = ies_exprs f, q_expr = Constant 1 0\<rparr>"
  have q: "bool_form ?q" "\<forall>a \<in> set ?arrays. wf_array a"
    using Cons.prems(1) by (auto simp: bool_form_def factor_wf_def calculateArrayReferences_set)
  have step: "answers MayAbort ok (?P (f # fs)) (case r of
       None \<Rightarrow> return_call None s'
     | Some vss \<Rightarrow> assert_res (length vss = length ?arrays)
         (bind_res (store_values f ?arrays vss M) (\<lambda>M'. solve_factors plt S fs M' s')))"
    if r: "case r of None \<Rightarrow> valid ?q | Some vss \<Rightarrow> counterexample ?q ?arrays vss" and s': "ok s'" for r s'
  proof (cases r)
    case None
    with r s' show ?thesis by (simp add: not_feasible_false)
  next
    case (Some vss)
    then obtain \<rho> where \<rho>: "wf_model \<rho>" "has_bytes \<rho> ?arrays vss" using r by (auto simp: counterexample_def)
    have bytes: "list_all2 (\<lambda>a vs. length vs = arr_size a
        \<and> (isSymbolicArray a \<longrightarrow> (\<forall>v \<in> set vs. in_width (arr_range a) v))) ?arrays vss"
      using \<rho>(2) unfolding has_bytes_def
      by (rule list_all2_mono) (use \<rho>(1) in \<open>auto simp: wf_model_def wf_env_def in_set_conv_nth\<close>)
    show ?thesis
    proof (cases "store_values f ?arrays vss M")
      case (Inl err)
      with Some show ?thesis by (simp add: assert_res_def answers_def)
    next
      case (Inr M')
      with Some weaken[OF Cons.IH[OF fs store_values_ok[OF Inr Cons.prems(2) bytes] s']]
      show ?thesis by (simp add: assert_res_def answers_def)
    qed
  qed
  have call: "answers MayAbort ok (\<lambda>r. case r of None \<Rightarrow> valid ?q | Some vss \<Rightarrow> counterexample ?q ?arrays vss)
      (computeInitialValues S ?q ?arrays s)"
    using initial[OF Cons.prems(3) q] by (auto simp: answers_def split: sum.splits option.splits)
  from answers_on_success[OF call step] weaken[OF Cons.IH[OF fs Cons.prems(2,3)]]
  show ?case by (auto simp: Let_def assert_res_def answers_def)
qed simp

lemma independent_initial_ok:
  assumes s: "ok s" and q: "bool_form q"
  shows "answers MayAbort ok
    (\<lambda>r. case r of None \<Rightarrow> valid q | Some vss \<Rightarrow> counterexample q objects vss)
    (independent_computeInitialValues n plt S q objects s)"
proof (cases "factor_exprs q")
  case (Inl err)
  then show ?thesis
    by (simp add: independent_computeInitialValues_def getAllIndependentConstraintsSets_def answers_def)
next
  case (Inr es)
  have es: "set (q_constraints q) \<subseteq> set es" "set es \<subseteq> insert (createIsZero (q_expr q)) (set (q_constraints q))"
    using Inr by (auto simp: factor_exprs_def split: if_splits)
  have wf: "wf_expr (q_expr q)" "wf_constraints es"
    using q es(2) createIsZero_facts(1,2)[of "q_expr q"] by (auto simp: bool_form_def wf_constraints_def)
  obtain fs where fs: "getAllIndependentConstraintsSets q = Inr fs" "\<forall>f \<in> set fs. factor_ok f"
    "all_exprs fs = mset es" "separate fs"
    using getAll_ok[OF Inr] wf(2) by (auto simp: wf_constraints_def)
  have in_es: "e \<in> set es" if "f \<in> set fs" "e \<in> set (ies_exprs f)" for f e
    using in_all_exprs[of e fs] fs(3) that by auto
  have fwf: "\<forall>f \<in> set fs. factor_wf f"
    using fs(2) in_es wf(2) by (auto simp: factor_wf_def factor_ok_def wf_constraints_def)
  have unsat: "valid q" if f: "f \<in> set fs" "\<not> feasible (ies_exprs f)" for f
  proof (rule valid_of_unsat[OF q], rule notI)
    fix \<rho> assume \<rho>: "wf_model \<rho>" "sat \<rho> (q_constraints q)" "eval \<rho> (q_expr q) = 0"
    then have "sat \<rho> es"
      using es(2) createIsZero_facts(3)[OF wf(1)] by (auto simp: sat_def wf_model_env)
    with in_es[OF f(1)] \<rho>(1) f(2) show False by (auto simp: feasible_def sat_def)
  qed
  have solve: "answers MayAbort ok
      (\<lambda>r. case r of None \<Rightarrow> valid q | Some M \<Rightarrow> bytes_ok M) (solve_factors plt S fs Map.empty s)"
    by (rule answers_mono[OF solve_factors_ok[OF fwf _ s]])
      (auto simp: bytes_ok_def unsat split: option.splits)
  show ?thesis
    unfolding independent_computeInitialValues_def fs(1) bind_res.simps
  proof (rule answers_on_success[OF solve])
    fix r s' assume r: "case r of None \<Rightarrow> valid q | Some M \<Rightarrow> bytes_ok M" and s': "ok s'"
    show "answers MayAbort ok (\<lambda>r. case r of None \<Rightarrow> valid q | Some vss \<Rightarrow> counterexample q objects vss)
      (case r of
         None \<Rightarrow> return_call None s'
       | Some retMap \<Rightarrow>
           let values = map (object_values retMap) objects in
           bind_res (assertCreatedPointEvaluatesToTrue n q objects values retMap) (\<lambda>ok.
             assert_res ok (return_call (Some values) s')))"
    proof (cases r)
      case (Some M)
      with created_point_ok[OF _ q, of n objects M] r s' show ?thesis
        by (cases "assertCreatedPointEvaluatesToTrue n q objects (map (object_values M) objects) M")
          (auto simp: Let_def assert_res_def, auto simp: answers_def)
    qed (use r s' in simp)
  qed
qed

lemma independent_initial: "initial_impl (IndependentSolver n plt S) ok MayAbort"
  by unfold_locales (simp add: IndependentSolver_def independent_initial_ok)

end

end
