(* ===== verification/MapOfSets.thy ===== *)
theory MapOfSets
  imports ExprCompare
begin

text \<open>
  \<open>MapOfSets\<close> (\<open>klee/include/klee/Internal/ADT/MapOfSets.h\<close>), a map whose keys are sets: a
  trie along the elements of a set in ascending order. A set is the list of its elements in
  that order, the order of the keys is the parameter \<open>lt\<close>. The trie is measured against the
  plain map that \<open>lookup\<close> reads off it.
\<close>

section \<open>The trie\<close>

text \<open>\<open>Node\<close>: its value, \<open>isEndOfSet\<close> and the children, a \<open>std::map\<close> in ascending order.\<close>

datatype ('k, 'v) mnode = MNode (mvalue: 'v) (isEndOfSet: bool) (mchildren: "('k \<times> ('k, 'v) mnode) list")

definition mos_empty :: "'v \<Rightarrow> ('k, 'v) mnode" where
  "mos_empty v0 = MNode v0 False []"

text \<open>
  \<open>children.insert\<close> keeps a child that is there; the new or old child is then updated by
  the rest of the insertion.
\<close>

fun child_update ::
    "('k \<Rightarrow> 'k \<Rightarrow> bool) \<Rightarrow> 'k \<Rightarrow> ('n \<Rightarrow> 'n) \<Rightarrow> 'n \<Rightarrow> ('k \<times> 'n) list \<Rightarrow> ('k \<times> 'n) list" where
  "child_update lt k f n0 [] = [(k, f n0)]"
| "child_update lt k f n0 ((k', n) # kids) =
     (if k = k' then (k', f n) # kids
      else if lt k k' then (k, f n0) # (k', n) # kids
      else (k', n) # child_update lt k f n0 kids)"

fun mos_insert ::
    "('k \<Rightarrow> 'k \<Rightarrow> bool) \<Rightarrow> 'v \<Rightarrow> 'k list \<Rightarrow> 'v \<Rightarrow> ('k, 'v) mnode \<Rightarrow> ('k, 'v) mnode" where
  "mos_insert lt v0 [] v (MNode v' e kids) = MNode v True kids"
| "mos_insert lt v0 (k # ks) v (MNode v' e kids) =
     MNode v' e (child_update lt k (mos_insert lt v0 ks v) (mos_empty v0) kids)"

fun mos_lookup :: "('k, 'v) mnode \<Rightarrow> 'k list \<Rightarrow> 'v option" where
  "mos_lookup (MNode v e kids) [] = (if e then Some v else None)"
| "mos_lookup (MNode v e kids) (k # ks) =
     (case map_of kids k of None \<Rightarrow> None | Some n \<Rightarrow> mos_lookup n ks)"

text \<open>
  \<open>findSubset\<close> walks the elements and the children in step, both ascending; the two inner
  loops that advance them are the recursion of \<open>subset_loop\<close>. The predicate may fail.
\<close>

function findSubset ::
    "('k \<Rightarrow> 'k \<Rightarrow> bool) \<Rightarrow> ('v \<Rightarrow> bool result) \<Rightarrow> ('k, 'v) mnode \<Rightarrow> 'k list \<Rightarrow> 'v option result"
  and subset_loop ::
    "('k \<Rightarrow> 'k \<Rightarrow> bool) \<Rightarrow> ('v \<Rightarrow> bool result) \<Rightarrow> ('k \<times> ('k, 'v) mnode) list \<Rightarrow> 'k list
     \<Rightarrow> 'v option result" where
  "findSubset lt p (MNode v e kids) ks =
     bind_res (if e then p v else Inr False) (\<lambda>found.
       if found then Inr (Some v) else if ks = [] then Inr None else subset_loop lt p kids ks)"
| "subset_loop lt p [] ks = Inr None"
| "subset_loop lt p ((k, n) # kids) ks =
     (case dropWhile (\<lambda>x. lt x k) ks of
        [] \<Rightarrow> Inr None
      | x # it \<Rightarrow>
          if x = k
          then bind_res (findSubset lt p n it) (\<lambda>res.
            if res \<noteq> None \<or> it = [] then Inr res else subset_loop lt p kids it)
          else subset_loop lt p kids (x # it))"
  by pat_completeness auto
termination
  by (relation "measure (\<lambda>x. case x of
      Inl (lt, p, n, ks) \<Rightarrow> 2 * size_mnode (\<lambda>_. 0) (\<lambda>_. 0) n
    | Inr (lt, p, kids, ks) \<Rightarrow> 2 * size_list (size_prod (\<lambda>_. 0) (size_mnode (\<lambda>_. 0) (\<lambda>_. 0))) kids + 1)") auto

function findSuperset ::
    "('v \<Rightarrow> bool result) \<Rightarrow> ('k, 'v) mnode \<Rightarrow> 'k list \<Rightarrow> 'v option result"
  and superset_any ::
    "('v \<Rightarrow> bool result) \<Rightarrow> ('k \<times> ('k, 'v) mnode) list \<Rightarrow> 'k list \<Rightarrow> 'v option result"
  and superset_at ::
    "('v \<Rightarrow> bool result) \<Rightarrow> ('k \<times> ('k, 'v) mnode) list \<Rightarrow> 'k \<Rightarrow> 'k list \<Rightarrow> 'v option result" where
  "findSuperset p (MNode v e kids) ks =
     (case ks of
        [] \<Rightarrow> bind_res (if e then p v else Inr False) (\<lambda>found.
          if found then Inr (Some v) else superset_any p kids [])
      | k # it \<Rightarrow> bind_res (superset_any p kids ks) (\<lambda>res.
          if res \<noteq> None then Inr res else superset_at p kids k it))"
| "superset_any p [] ks = Inr None"
| "superset_any p ((k, n) # kids) ks =
     bind_res (findSuperset p n ks) (\<lambda>res. if res \<noteq> None then Inr res else superset_any p kids ks)"
| "superset_at p [] k it = Inr None"
| "superset_at p ((k', n) # kids) k it =
     (if k = k' then findSuperset p n it else superset_at p kids k it)"
  by pat_completeness auto
termination
  by (relation "measure (\<lambda>x. case x of
      Inl (p, n, ks) \<Rightarrow> 2 * size_mnode (\<lambda>_. 0) (\<lambda>_. 0) n
    | Inr (Inl (p, kids, ks)) \<Rightarrow> 2 * size_list (size_prod (\<lambda>_. 0) (size_mnode (\<lambda>_. 0) (\<lambda>_. 0))) kids + 1
    | Inr (Inr (p, kids, k, it)) \<Rightarrow> 2 * size_list (size_prod (\<lambda>_. 0) (size_mnode (\<lambda>_. 0) (\<lambda>_. 0))) kids + 1)") auto

section \<open>The trie as a map\<close>

text \<open>The children of every node have distinct keys, in ascending order.\<close>

inductive mos_ok :: "('k \<Rightarrow> 'k \<Rightarrow> bool) \<Rightarrow> ('k, 'v) mnode \<Rightarrow> bool" for lt where
  "sorted_wrt lt (map fst kids) \<Longrightarrow> (\<And>k n. (k, n) \<in> set kids \<Longrightarrow> mos_ok lt n)
    \<Longrightarrow> mos_ok lt (MNode v e kids)"

inductive_cases mos_okE: "mos_ok lt (MNode v e kids)"

lemma mos_ok_empty: "mos_ok lt (mos_empty v0)"
  by (auto simp: mos_empty_def intro: mos_ok.intros)

lemma mos_lookup_empty [simp]: "mos_lookup (mos_empty v0) ks = None"
  by (cases ks) (simp_all add: mos_empty_def)

lemma child_update_keys: "set (map fst (child_update lt k f n0 kids)) = insert k (set (map fst kids))"
proof (induction kids)
  case (Cons kn kids)
  then show ?case by (cases kn) (simp add: insert_commute)
qed simp

lemma child_update_set:
  "(k', n') \<in> set (child_update lt k f n0 kids)
    \<Longrightarrow> (k', n') \<in> set kids \<or> (n' = f n0 \<or> (\<exists>n. (k, n) \<in> set kids \<and> n' = f n))"
proof (induction kids)
  case (Cons kn kids)
  then show ?case by (cases kn) (auto split: if_splits)
qed simp

lemma child_update_sorted:
  assumes lt: "strict_order lt"
  shows "sorted_wrt lt (map fst kids) \<Longrightarrow> sorted_wrt lt (map fst (child_update lt k f n0 kids))"
proof (induction kids)
  case (Cons kn kids)
  obtain k1 n where kn: "kn = (k1, n)" by (cases kn)
  from Cons.prems kn have head: "\<forall>x \<in> set (map fst kids). lt k1 x" "sorted_wrt lt (map fst kids)" by auto
  note keys = child_update_keys[of lt k f n0 kids]
  consider "k = k1" | "k \<noteq> k1" "lt k k1" | "k \<noteq> k1" "\<not> lt k k1" by blast
  then show ?case
  proof cases
    case 2
    then have "\<forall>x \<in> set (map fst kids). lt k x" using head(1) strict_orderD(2)[OF lt] by blast
    with 2 head kn show ?thesis by auto
  next
    case 3
    then have "lt k1 k" using strict_orderD(3)[OF lt] by blast
    with head(1) keys have "\<forall>x \<in> set (map fst (child_update lt k f n0 kids)). lt k1 x" by auto
    with 3 Cons.IH head(2) kn show ?thesis by (auto simp del: set_map)
  qed (use head kn in auto)
qed simp

lemma child_update_map_of:
  assumes lt: "strict_order lt"
  shows "sorted_wrt lt (map fst kids) \<Longrightarrow> map_of (child_update lt k f n0 kids) k' =
    (if k' = k then Some (f (case map_of kids k of Some n \<Rightarrow> n | None \<Rightarrow> n0)) else map_of kids k')"
proof (induction kids)
  case (Cons kn kids)
  obtain k1 n where kn: "kn = (k1, n)" by (cases kn)
  have "map_of kids k = None" if "lt k k1"
  proof -
    have "k \<notin> set (map fst kids)"
    proof
      assume "k \<in> set (map fst kids)"
      then have "lt k1 k" using Cons.prems kn by auto
      with that have "lt k k" by (rule strict_orderD(2)[OF lt])
      then show False using strict_orderD(1)[OF lt] by blast
    qed
    then show ?thesis by (simp add: map_of_eq_None_iff)
  qed
  moreover have "sorted_wrt lt (map fst kids)" using Cons.prems by simp
  note Cons.IH[OF this]
  ultimately show ?case by (cases "k = k1"; cases "lt k k1"; auto simp: kn)
qed simp

lemma sorted_distinct_keys: "strict_order lt \<Longrightarrow> sorted_wrt lt xs \<Longrightarrow> distinct xs"
  by (induction xs) (auto dest: strict_orderD(1))

lemma sorted_map_of:
  "strict_order lt \<Longrightarrow> sorted_wrt lt (map fst kids) \<Longrightarrow> (k, n) \<in> set kids \<Longrightarrow> map_of kids k = Some n"
  by (rule map_of_is_SomeI[OF sorted_distinct_keys])

lemma mos_insert_ok:
  assumes lt: "strict_order lt"
  shows "mos_ok lt t \<Longrightarrow> mos_ok lt (mos_insert lt v0 ks v t)"
proof (induction ks arbitrary: t)
  case Nil
  then show ?case by (cases t) (auto elim!: mos_okE intro: mos_ok.intros)
next
  case (Cons k ks)
  obtain v' e kids where t: "t = MNode v' e kids" by (cases t)
  with Cons.prems have kids: "sorted_wrt lt (map fst kids)" "\<And>k n. (k, n) \<in> set kids \<Longrightarrow> mos_ok lt n"
    by (auto elim: mos_okE)
  have "mos_ok lt n'" if "(k', n') \<in> set (child_update lt k (mos_insert lt v0 ks v) (mos_empty v0) kids)" for k' n'
    using child_update_set[OF that] kids(2) Cons.IH mos_ok_empty[of lt v0] by auto
  with child_update_sorted[OF lt kids(1)] show ?case by (simp add: t mos_ok.intros)
qed

text \<open>Insertion changes the value of one set.\<close>

lemma mos_lookup_insert:
  assumes lt: "strict_order lt"
  shows "mos_ok lt t \<Longrightarrow> mos_lookup (mos_insert lt v0 ks v t) ks' = (if ks' = ks then Some v else mos_lookup t ks')"
proof (induction ks arbitrary: t ks')
  case Nil
  then show ?case by (cases t; cases ks') auto
next
  case (Cons k ks)
  obtain v' e kids where t: "t = MNode v' e kids" by (cases t)
  with Cons.prems have kids: "sorted_wrt lt (map fst kids)" "\<And>k n. (k, n) \<in> set kids \<Longrightarrow> mos_ok lt n"
    by (auto elim: mos_okE)
  note upd = child_update_map_of[OF lt kids(1)]
  show ?case
  proof (cases ks')
    case (Cons x xs)
    have "mos_ok lt (case map_of kids k of Some n \<Rightarrow> n | None \<Rightarrow> mos_empty v0)"
      using kids(2) by (auto simp: mos_ok_empty dest: map_of_SomeD split: option.split)
    from Cons.IH[OF this] show ?thesis by (simp add: t Cons upd split: option.splits)
  qed (simp add: t)
qed

section \<open>Searching for subsets and supersets\<close>

lemma dropWhile_lt:
  assumes lt: "strict_order lt" and "sorted_wrt lt ks"
  shows "set (dropWhile (\<lambda>x. lt x k) ks) = {x \<in> set ks. \<not> lt x k}" "sorted_wrt lt (dropWhile (\<lambda>x. lt x k) ks)"
proof -
  show "set (dropWhile (\<lambda>x. lt x k) ks) = {x \<in> set ks. \<not> lt x k}"
    using assms(2)
  proof (induction ks)
    case (Cons x ks)
    then show ?case using strict_orderD(2)[OF lt, of x _ k] by auto
  qed simp
  show "sorted_wrt lt (dropWhile (\<lambda>x. lt x k) ks)"
    using assms(2) by (metis sorted_wrt_append takeWhile_dropWhile_id)
qed

lemma findSubset_sound:
  "strict_order lt \<Longrightarrow> mos_ok lt t \<Longrightarrow> findSubset lt p t ks = Inr (Some v)
    \<Longrightarrow> \<exists>ks'. set ks' \<subseteq> set ks \<and> mos_lookup t ks' = Some v \<and> p v = Inr True"
  "strict_order lt \<Longrightarrow> mos_ok lt (MNode v0 False kids) \<Longrightarrow> subset_loop lt p kids ks = Inr (Some v)
    \<Longrightarrow> \<exists>ks'. set ks' \<subseteq> set ks \<and> mos_lookup (MNode v0 False kids) ks' = Some v \<and> p v = Inr True"
proof (induction lt p t ks and lt p kids ks rule: findSubset_subset_loop.induct)
  case (1 lt p v1 e kids ks)
  from "1.prems"(3) obtain b where b: "(if e then p v1 else Inr False) = Inr b"
    "(if b then Inr (Some v1) else if ks = [] then Inr None else subset_loop lt p kids ks) = Inr (Some v)"
    by auto
  show ?case
  proof (cases b)
    case True
    with b show ?thesis by (intro exI[of _ "[]"]) (auto split: if_splits)
  next
    case False
    with b have "ks \<noteq> []" "subset_loop lt p kids ks = Inr (Some v)" by (auto split: if_splits)
    moreover have "mos_ok lt (MNode v0 False kids)" using "1.prems"(2) by (auto elim!: mos_okE intro: mos_ok.intros)
    ultimately obtain ks' where ks': "set ks' \<subseteq> set ks" "mos_lookup (MNode v0 False kids) ks' = Some v" "p v = Inr True"
      using "1.IH"[OF b(1) False _ "1.prems"(1)] by blast
    then have "mos_lookup (MNode v1 e kids) ks' = Some v" by (cases ks') auto
    with ks' show ?thesis by blast
  qed
next
  case (3 lt p k n kids ks)
  have n: "mos_ok lt n" and rest: "mos_ok lt (MNode v0 False kids)" and k: "map_of kids k = None"
    using "3.prems"(1,2) strict_orderD(1)[OF "3.prems"(1)]
    by (fastforce elim!: mos_okE intro: mos_ok.intros simp: map_of_eq_None_iff)+
  have up: "mos_lookup (MNode v0 False ((k, n) # kids)) ks' = Some v"
    if "mos_lookup (MNode v0 False kids) ks' = Some v" for ks'
    using that k by (cases ks') (auto split: option.splits)
  have sub: "set (dropWhile (\<lambda>x. lt x k) ks) \<subseteq> set ks" by (rule set_dropWhileD[THEN subsetI])
  obtain x it where d: "dropWhile (\<lambda>x. lt x k) ks = x # it"
    using "3.prems"(3) by (auto split: list.splits)
  have step: "(if x = k then bind_res (findSubset lt p n it) (\<lambda>res.
      if res \<noteq> None \<or> it = [] then Inr res else subset_loop lt p kids it)
    else subset_loop lt p kids (x # it)) = Inr (Some v)"
    using "3.prems"(3) d by simp
  show ?case
  proof (cases "x = k")
    case False
    with step have "subset_loop lt p kids (x # it) = Inr (Some v)" by simp
    from "3.IH"(3)[OF d False "3.prems"(1) rest this] obtain ks' where
      "set ks' \<subseteq> set (x # it)" "mos_lookup (MNode v0 False kids) ks' = Some v" "p v = Inr True" by blast
    then show ?thesis using up[of ks'] sub d by (intro exI[of _ ks']) auto
  next
    case True
    with step obtain res where res: "findSubset lt p n it = Inr res"
      "(if res \<noteq> None \<or> it = [] then Inr res else subset_loop lt p kids it) = Inr (Some v)" by auto
    show ?thesis
    proof (cases "res \<noteq> None \<or> it = []")
      case found: True
      then have "findSubset lt p n it = Inr (Some v)" using res by simp
      from "3.IH"(1)[OF d True "3.prems"(1) n this] obtain ks' where
        "set ks' \<subseteq> set it" "mos_lookup n ks' = Some v" "p v = Inr True" by blast
      then show ?thesis using sub d True by (intro exI[of _ "k # ks'"]) auto
    next
      case False
      with res have "subset_loop lt p kids it = Inr (Some v)" by simp
      from "3.IH"(2)[OF d True res(1) False "3.prems"(1) rest this] obtain ks' where
        "set ks' \<subseteq> set it" "mos_lookup (MNode v0 False kids) ks' = Some v" "p v = Inr True" by blast
      then show ?thesis using up[of ks'] sub d by (intro exI[of _ ks']) auto
    qed
  qed
qed simp

text \<open>
  When \<open>findSubset\<close> finds nothing, no stored subset satisfies the predicate: sets are sorted
  lists.
\<close>

lemma findSubset_complete:
  "strict_order lt \<Longrightarrow> mos_ok lt t \<Longrightarrow> sorted_wrt lt ks \<Longrightarrow> findSubset lt p t ks = Inr None
    \<Longrightarrow> \<forall>ks' v. sorted_wrt lt ks' \<longrightarrow> set ks' \<subseteq> set ks \<longrightarrow> mos_lookup t ks' = Some v \<longrightarrow> p v = Inr False"
  "strict_order lt \<Longrightarrow> mos_ok lt (MNode v0 False kids) \<Longrightarrow> sorted_wrt lt ks \<Longrightarrow> subset_loop lt p kids ks = Inr None
    \<Longrightarrow> \<forall>ks' v. sorted_wrt lt ks' \<longrightarrow> set ks' \<subseteq> set ks \<longrightarrow> mos_lookup (MNode v0 False kids) ks' = Some v
      \<longrightarrow> p v = Inr False"
proof (induction lt p t ks and lt p kids ks rule: findSubset_subset_loop.induct)
  case (1 lt p v1 e kids ks)
  from "1.prems"(4) obtain b where b: "(if e then p v1 else Inr False) = Inr b"
    "(if b then Inr (Some v1) else if ks = [] then Inr None else subset_loop lt p kids ks) = Inr None"
    by auto
  then have no: "\<not> b" and rest: "ks \<noteq> [] \<Longrightarrow> subset_loop lt p kids ks = Inr None" by (auto split: if_splits)
  have ok: "mos_ok lt (MNode v0 False kids)" using "1.prems"(2) by (auto elim!: mos_okE intro: mos_ok.intros)
  show ?case
  proof (intro allI impI)
    fix ks' v assume a: "sorted_wrt lt ks'" "set ks' \<subseteq> set ks" "mos_lookup (MNode v1 e kids) ks' = Some v"
    show "p v = Inr False"
    proof (cases ks')
      case Nil
      with a(3) b(1) no show ?thesis by (auto split: if_splits)
    next
      case (Cons x xs)
      then have "ks \<noteq> []" "mos_lookup (MNode v0 False kids) ks' = Some v" using a(2,3) by auto
      with "1.IH"[OF b(1) no _ "1.prems"(1) ok "1.prems"(3) rest] a show ?thesis by blast
    qed
  qed
next
  case (2 lt p ks)
  show ?case
  proof (intro allI impI)
    fix ks' v assume "mos_lookup (MNode v0 False []) ks' = Some v"
    then show "p v = Inr False" by (cases ks') simp_all
  qed
next
  case (3 lt p k n kids ks)
  note lt = "3.prems"(1)
  have n: "mos_ok lt n" and rest: "mos_ok lt (MNode v0 False kids)"
    and above: "\<And>k'. k' \<in> fst ` set kids \<Longrightarrow> lt k k'"
    using "3.prems"(2) by (fastforce elim!: mos_okE intro: mos_ok.intros)+
  define d where "d = dropWhile (\<lambda>x. lt x k) ks"
  note drop = dropWhile_lt[OF lt "3.prems"(3), of k, folded d_def]
  show ?case
  proof (intro allI impI)
    fix ks' v assume a: "sorted_wrt lt ks'" "set ks' \<subseteq> set ks"
      "mos_lookup (MNode v0 False ((k, n) # kids)) ks' = Some v"
    then obtain y ys where ks': "ks' = y # ys" by (cases ks') auto
    have y: "y = k \<and> mos_lookup n ys = Some v \<or> lt k y \<and> mos_lookup (MNode v0 False kids) ks' = Some v"
      using a(3) above by (auto simp: ks' split: if_splits option.splits dest: map_of_SomeD) (force dest: map_of_SomeD)
    have "set ks' \<subseteq> set d"
    proof
      fix z assume z: "z \<in> set ks'"
      then have "\<not> lt z k" using y a(1) strict_orderD(1,2)[OF lt] ks' by (metis list.set_cases set_ConsD sorted_wrt.simps(2))
      with z a(2) drop(1) show "z \<in> set d" by auto
    qed
    then obtain x it where d: "d = x # it" using ks' by (cases d) auto
    note drop' = d[unfolded d_def]
    have x_le: "y \<in> set (x # it)" using \<open>set ks' \<subseteq> set d\<close> ks' d by auto
    have it: "sorted_wrt lt it" "sorted_wrt lt (x # it)" "\<forall>z \<in> set it. lt x z" using drop(2) d by auto
    have step: "(if x = k then bind_res (findSubset lt p n it) (\<lambda>res.
        if res \<noteq> None \<or> it = [] then Inr res else subset_loop lt p kids it)
      else subset_loop lt p kids (x # it)) = Inr None"
      using "3.prems"(4) drop' by simp
    show "p v = Inr False"
    proof (cases "x = k")
      case False
      have "y \<noteq> k"
      proof
        assume "y = k"
        with False x_le it(3) have "lt x k" by auto
        moreover have "\<not> lt x k" using drop(1) d by auto
        ultimately show False by blast
      qed
      with y have "mos_lookup (MNode v0 False kids) ks' = Some v" by blast
      moreover have "subset_loop lt p kids (x # it) = Inr None" using step False by simp
      ultimately show ?thesis
        using "3.IH"(3)[OF drop' False lt rest it(2)] a(1) \<open>set ks' \<subseteq> set d\<close> d by blast
    next
      case True
      with step obtain res where res: "findSubset lt p n it = Inr res"
        "(if res \<noteq> None \<or> it = [] then Inr res else subset_loop lt p kids it) = Inr None" by auto
      then have none: "findSubset lt p n it = Inr None" and loop: "it \<noteq> [] \<Longrightarrow> subset_loop lt p kids it = Inr None"
        by (auto split: if_splits)
      from y show ?thesis
      proof
        assume "y = k \<and> mos_lookup n ys = Some v"
        moreover from this have "set ys \<subseteq> set it"
          using \<open>set ks' \<subseteq> set d\<close> d True ks' a(1) strict_orderD(1)[OF lt] by auto
        ultimately show ?thesis
          using "3.IH"(1)[OF drop' True lt n it(1) none] a(1) ks' by auto
      next
        assume "lt k y \<and> mos_lookup (MNode v0 False kids) ks' = Some v"
        moreover from this have "set ks' \<subseteq> set it"
          using \<open>set ks' \<subseteq> set d\<close> d True ks' a(1) strict_orderD(1,2)[OF lt] by auto blast
        moreover from this have "it \<noteq> []" using ks' by auto
        ultimately show ?thesis
          using "3.IH"(2)[OF drop' True res(1) _ lt rest it(1) loop] none res(1) a(1) by auto
      qed
    qed
  qed
qed

lemma mos_okD: "mos_ok lt (MNode v e kids) \<Longrightarrow> \<forall>kn \<in> set kids. mos_ok lt (snd kn)"
  by (auto elim: mos_okE)

lemma findSuperset_sound:
  "strict_order lt \<Longrightarrow> mos_ok lt t \<Longrightarrow> findSuperset p t ks = Inr (Some v)
    \<Longrightarrow> \<exists>ks'. set ks \<subseteq> set ks' \<and> mos_lookup t ks' = Some v \<and> p v = Inr True"
  "strict_order lt \<Longrightarrow> \<forall>kn \<in> set kids. mos_ok lt (snd kn) \<Longrightarrow> superset_any p kids ks = Inr (Some v)
    \<Longrightarrow> \<exists>k n ks'. (k, n) \<in> set kids \<and> set ks \<subseteq> set ks' \<and> mos_lookup n ks' = Some v \<and> p v = Inr True"
  "strict_order lt \<Longrightarrow> \<forall>kn \<in> set kids. mos_ok lt (snd kn) \<Longrightarrow> superset_at p kids x it = Inr (Some v)
    \<Longrightarrow> \<exists>n ks'. (x, n) \<in> set kids \<and> set it \<subseteq> set ks' \<and> mos_lookup n ks' = Some v \<and> p v = Inr True"
proof (induction p t ks and p kids ks and p kids x it rule: findSuperset_superset_any_superset_at.induct)
  case (1 p v1 e kids ks)
  note kids = mos_okD[OF "1.prems"(2)]
  have find: "map_of kids k = Some n" if "(k, n) \<in> set kids" for k n
    using sorted_map_of[OF "1.prems"(1) _ that] "1.prems"(2) by (auto elim: mos_okE)
  show ?case
  proof (cases ks)
    case Nil
    with "1.prems"(3) obtain b where b: "(if e then p v1 else Inr False) = Inr b"
      "(if b then Inr (Some v1) else superset_any p kids []) = Inr (Some v)" by auto
    show ?thesis
    proof (cases b)
      case True
      with b Nil show ?thesis by (intro exI[of _ "[]"]) (auto split: if_splits)
    next
      case False
      with b have "superset_any p kids [] = Inr (Some v)" by simp
      from "1.IH"(1)[OF Nil b(1) False "1.prems"(1) kids this] obtain k n ks' where
        "(k, n) \<in> set kids" "mos_lookup n ks' = Some v" "p v = Inr True" by blast
      then show ?thesis using find Nil by (intro exI[of _ "k # ks'"]) simp
    qed
  next
    case (Cons x it)
    with "1.prems"(3) obtain res where res: "superset_any p kids ks = Inr res"
      "(if res \<noteq> None then Inr res else superset_at p kids x it) = Inr (Some v)" by auto
    show ?thesis
    proof (cases res)
      case None
      with res have "superset_at p kids x it = Inr (Some v)" by simp
      from "1.IH"(3)[OF Cons res(1) _ "1.prems"(1) kids this] None obtain n ks' where
        "(x, n) \<in> set kids" "set it \<subseteq> set ks'" "mos_lookup n ks' = Some v" "p v = Inr True" by blast
      then show ?thesis using find Cons by (intro exI[of _ "x # ks'"]) auto
    next
      case (Some w)
      with res have "superset_any p kids ks = Inr (Some v)" by simp
      from "1.IH"(2)[OF Cons "1.prems"(1) kids this] obtain k n ks' where
        "(k, n) \<in> set kids" "set ks \<subseteq> set ks'" "mos_lookup n ks' = Some v" "p v = Inr True" by blast
      then show ?thesis using find by (intro exI[of _ "k # ks'"]) auto
    qed
  qed
next
  case (3 p k n kids ks)
  from "3.prems"(3) obtain res where res: "findSuperset p n ks = Inr res"
    "(if res \<noteq> None then Inr res else superset_any p kids ks) = Inr (Some v)" by auto
  have n: "mos_ok lt n" and rest: "\<forall>kn \<in> set kids. mos_ok lt (snd kn)" using "3.prems"(2) by auto
  show ?case
  proof (cases res)
    case None
    with res have "superset_any p kids ks = Inr (Some v)" by simp
    from "3.IH"(2)[OF res(1) _ "3.prems"(1) rest this] None show ?thesis
      unfolding list.set by blast
  next
    case (Some w)
    with res have "findSuperset p n ks = Inr (Some v)" by simp
    from "3.IH"(1)[OF "3.prems"(1) n this] show ?thesis unfolding list.set by blast
  qed
next
  case (5 p k' n kids k it)
  have n: "mos_ok lt n" and rest: "\<forall>kn \<in> set kids. mos_ok lt (snd kn)" using "5.prems"(2) by auto
  show ?case
  proof (cases "k = k'")
    case True
    with "5.prems"(3) have "findSuperset p n it = Inr (Some v)" by simp
    from "5.IH"(1)[OF True "5.prems"(1) n this] True show ?thesis unfolding list.set by blast
  next
    case False
    with "5.prems"(3) have "superset_at p kids k it = Inr (Some v)" by simp
    from "5.IH"(2)[OF False "5.prems"(1) rest this] show ?thesis unfolding list.set by blast
  qed
qed simp_all

lemma findSuperset_complete:
  "strict_order lt \<Longrightarrow> mos_ok lt t \<Longrightarrow> sorted_wrt lt ks \<Longrightarrow> findSuperset p t ks = Inr None
    \<Longrightarrow> \<forall>ks' v. sorted_wrt lt ks' \<longrightarrow> set ks \<subseteq> set ks' \<longrightarrow> mos_lookup t ks' = Some v \<longrightarrow> p v = Inr False"
  "strict_order lt \<Longrightarrow> \<forall>kn \<in> set kids. mos_ok lt (snd kn) \<Longrightarrow> sorted_wrt lt ks \<Longrightarrow> superset_any p kids ks = Inr None
    \<Longrightarrow> \<forall>(k, n) \<in> set kids. \<forall>ks' v. sorted_wrt lt ks' \<longrightarrow> set ks \<subseteq> set ks' \<longrightarrow> mos_lookup n ks' = Some v
      \<longrightarrow> p v = Inr False"
  "strict_order lt \<Longrightarrow> \<forall>kn \<in> set kids. mos_ok lt (snd kn) \<Longrightarrow> sorted_wrt lt it \<Longrightarrow> superset_at p kids x it = Inr None
    \<Longrightarrow> \<forall>n. map_of kids x = Some n \<longrightarrow> (\<forall>ks' v. sorted_wrt lt ks' \<longrightarrow> set it \<subseteq> set ks'
      \<longrightarrow> mos_lookup n ks' = Some v \<longrightarrow> p v = Inr False)"
proof (induction p t ks and p kids ks and p kids x it rule: findSuperset_superset_any_superset_at.induct)
  case (1 p v1 e kids ks)
  note lt = "1.prems"(1) and kids = mos_okD[OF "1.prems"(2)]
  show ?case
  proof (intro allI impI)
    fix ks' v assume a: "sorted_wrt lt ks'" "set ks \<subseteq> set ks'" "mos_lookup (MNode v1 e kids) ks' = Some v"
    have sub: "\<exists>n. map_of kids y = Some n \<and> (y, n) \<in> set kids \<and> mos_lookup n ys = Some v" if "ks' = y # ys" for y ys
      using a(3) that by (auto dest: map_of_SomeD split: option.splits)
    show "p v = Inr False"
    proof (cases ks)
      case Nil
      with "1.prems"(4) obtain b where b: "(if e then p v1 else Inr False) = Inr b"
        "(if b then Inr (Some v1) else superset_any p kids []) = Inr None" by auto
      then have no: "\<not> b" "superset_any p kids [] = Inr None" by (auto split: if_splits)
      show ?thesis
      proof (cases ks')
        case Nil
        with a(3) b(1) no(1) show ?thesis by (auto split: if_splits)
      next
        case (Cons y ys)
        from sub[OF this] obtain n where n: "(y, n) \<in> set kids" "mos_lookup n ys = Some v" by blast
        have "sorted_wrt lt ys" using a(1) Cons by simp
        with "1.IH"(1)[OF Nil b(1) no(1) lt kids _ no(2)] n show ?thesis by auto
      qed
    next
      case (Cons x it)
      with "1.prems"(4) obtain res where res: "superset_any p kids ks = Inr res"
        "(if res \<noteq> None then Inr res else superset_at p kids x it) = Inr None" by auto
      then have none: "superset_any p kids ks = Inr None" and none': "superset_at p kids x it = Inr None" "res = None"
        by (auto split: if_splits)
      obtain y ys where ks': "ks' = y # ys" using a(2) Cons by (cases ks') auto
      from sub[OF this] obtain n where n: "map_of kids y = Some n" "(y, n) \<in> set kids" "mos_lookup n ys = Some v" by blast
      have ys: "sorted_wrt lt ys" "\<forall>z \<in> set ys. lt y z" using a(1) ks' by auto
      have it: "sorted_wrt lt it" "\<forall>z \<in> set it. lt x z" using "1.prems"(3) Cons by auto
      show ?thesis
      proof (cases "y = x")
        case True
        then have "set it \<subseteq> set ys" using a(2) Cons ks' it(2) strict_orderD(1)[OF lt] by auto
        with "1.IH"(3)[OF Cons res(1) _ lt kids it(1) none'(1)] none'(2) n True ys(1) show ?thesis by auto
      next
        case False
        then have "lt y x" using a(2) Cons ks' ys(2) by auto
        then have "y \<notin> set ks" using Cons it(2) strict_orderD(1,2)[OF lt] False by (metis set_ConsD)
        then have "set ks \<subseteq> set ys" using a(2) ks' by auto
        with "1.IH"(2)[OF Cons lt kids "1.prems"(3) none] n ys(1) show ?thesis by auto
      qed
    qed
  qed
next
  case (3 p k n kids ks)
  from "3.prems"(4) obtain res where res: "findSuperset p n ks = Inr res"
    "(if res \<noteq> None then Inr res else superset_any p kids ks) = Inr None" by auto
  then have none: "findSuperset p n ks = Inr None" "superset_any p kids ks = Inr None" "\<not> res \<noteq> None"
    by (auto split: if_splits)
  have n: "mos_ok lt n" and rest: "\<forall>kn \<in> set kids. mos_ok lt (snd kn)" using "3.prems"(2) by auto
  from "3.IH"(1)[OF "3.prems"(1) n "3.prems"(3) none(1)]
    "3.IH"(2)[OF res(1) none(3) "3.prems"(1) rest "3.prems"(3) none(2)]
  show ?case by simp
next
  case (5 p k' n kids k it)
  have n: "mos_ok lt n" and rest: "\<forall>kn \<in> set kids. mos_ok lt (snd kn)" using "5.prems"(2) by auto
  show ?case
  proof (cases "k = k'")
    case True
    with "5.prems"(4) have "findSuperset p n it = Inr None" by simp
    from "5.IH"(1)[OF True "5.prems"(1) n "5.prems"(3) this] True show ?thesis by simp
  next
    case False
    with "5.prems"(4) have "superset_at p kids k it = Inr None" by simp
    from "5.IH"(2)[OF False "5.prems"(1) rest "5.prems"(3) this] False show ?thesis by simp
  qed
qed simp_all

text \<open>With a predicate that never fails the searches decide.\<close>

definition total_predicate :: "('v \<Rightarrow> bool result) \<Rightarrow> bool" where
  "total_predicate p \<longleftrightarrow> (\<forall>v. \<exists>b. p v = Inr b)"

lemma total_predicateE:
  assumes "total_predicate p"
  obtains b where "p v = Inr b"
  using assms by (auto simp: total_predicate_def)

lemma findSubset_total:
  "total_predicate p \<Longrightarrow> \<exists>r. findSubset lt p t ks = Inr r"
  "total_predicate p \<Longrightarrow> \<exists>r. subset_loop lt p kids ks = Inr r"
proof (induction lt p t ks and lt p kids ks rule: findSubset_subset_loop.induct)
  case (1 lt p v e kids ks)
  obtain b where b: "p v = Inr b" using "1.prems" by (rule total_predicateE)
  consider "e \<and> b" | "\<not> (e \<and> b)" "ks = []" | "\<not> (e \<and> b)" "ks \<noteq> []" by blast
  then show ?case
  proof cases
    case 3
    have "(if e then p v else Inr False) = Inr (e \<and> b)" using b by simp
    from "1.IH"[OF this 3(1,2) "1.prems"] b 3 show ?thesis by (cases e) auto
  qed (use b in auto)
next
  case (3 lt p k n kids ks)
  show ?case
  proof (cases "dropWhile (\<lambda>x. lt x k) ks")
    case (Cons x it)
    show ?thesis
    proof (cases "x = k")
      case True
      obtain res where res: "findSubset lt p n it = Inr res"
        using "3.IH"(1)[OF Cons True "3.prems"] by blast
      show ?thesis
      proof (cases "res \<noteq> None \<or> it = []")
        case False
        with "3.IH"(2)[OF Cons True _ False "3.prems"] Cons True res show ?thesis by auto
      qed (use Cons True res in auto)
    next
      case False
      with "3.IH"(3)[OF Cons False "3.prems"] Cons show ?thesis by simp
    qed
  next
    case Nil
    show ?thesis unfolding subset_loop.simps Nil list.case by blast
  qed
qed simp

lemma findSuperset_total:
  "total_predicate p \<Longrightarrow> \<exists>r. findSuperset p t ks = Inr r"
  "total_predicate p \<Longrightarrow> \<exists>r. superset_any p kids ks = Inr r"
  "total_predicate p \<Longrightarrow> \<exists>r. superset_at p kids k it = Inr r"
proof (induction p t ks and p kids ks and p kids k it rule: findSuperset_superset_any_superset_at.induct)
  case (1 p v e kids ks)
  obtain b where b: "p v = Inr b" using "1.prems" by (rule total_predicateE)
  show ?case
  proof (cases ks)
    case Nil
    have "(if e then p v else Inr False) = Inr (e \<and> b)" using b by simp
    then have "\<exists>r. superset_any p kids [] = Inr r" if "\<not> (e \<and> b)"
      using "1.IH"(1)[OF Nil _ that "1.prems"] by blast
    with b Nil show ?thesis by (cases "e \<and> b") (auto split: if_splits)
  next
    case (Cons k it)
    obtain res where res: "superset_any p kids ks = Inr res"
      using "1.IH"(2)[OF Cons "1.prems"] by blast
    show ?thesis
    proof (cases "res = None")
      case True
      have "\<exists>r. superset_at p kids k it = Inr r" by (rule "1.IH"(3)[OF Cons res _ "1.prems"]) (simp add: True)
      with Cons res True show ?thesis by simp
    qed (use Cons res in auto)
  qed
next
  case (3 p k n kids ks)
  obtain res where res: "findSuperset p n ks = Inr res" using "3.IH"(1)[OF "3.prems"] by blast
  show ?case
  proof (cases "res = None")
    case True
    have "\<exists>r. superset_any p kids ks = Inr r" by (rule "3.IH"(2)[OF res _ "3.prems"]) (simp add: True)
    with res True show ?thesis by simp
  qed (use res in auto)
next
  case (5 p k' n kids k it)
  then show ?case by (cases "k = k'") simp_all
qed simp_all

lemma findSubset_spec:
  assumes lt: "strict_order lt" and t: "mos_ok lt t" and ks: "sorted_wrt lt ks" and p: "total_predicate p"
  shows "case findSubset lt p t ks of
      Inr (Some r) \<Rightarrow> \<exists>l. set l \<subseteq> set ks \<and> mos_lookup t l = Some r \<and> p r = Inr True
    | Inr None \<Rightarrow> \<forall>l r. sorted_wrt lt l \<and> set l \<subseteq> set ks \<and> mos_lookup t l = Some r \<longrightarrow> p r = Inr False
    | Inl err \<Rightarrow> False"
proof -
  obtain r where r: "findSubset lt p t ks = Inr r" using findSubset_total(1)[OF p] by blast
  show ?thesis
  proof (cases r)
    case None
    with findSubset_complete(1)[OF lt t ks, of p] r show ?thesis by simp blast
  next
    case (Some v)
    with findSubset_sound(1)[OF lt t, of p ks v] r show ?thesis by simp
  qed
qed

lemma findSuperset_spec:
  assumes lt: "strict_order lt" and t: "mos_ok lt t" and ks: "sorted_wrt lt ks" and p: "total_predicate p"
  shows "case findSuperset p t ks of
      Inr (Some r) \<Rightarrow> \<exists>l. set ks \<subseteq> set l \<and> mos_lookup t l = Some r \<and> p r = Inr True
    | Inr None \<Rightarrow> \<forall>l r. sorted_wrt lt l \<and> set ks \<subseteq> set l \<and> mos_lookup t l = Some r \<longrightarrow> p r = Inr False
    | Inl err \<Rightarrow> False"
proof -
  obtain r where r: "findSuperset p t ks = Inr r" using findSuperset_total(1)[OF p] by blast
  show ?thesis
  proof (cases r)
    case None
    with findSuperset_complete(1)[OF lt t ks, of p] r show ?thesis by simp blast
  next
    case (Some v)
    with findSuperset_sound(1)[OF lt t, of p ks v] r show ?thesis by simp
  qed
qed

end
