(* ===== verification/CexCache.thy ===== *)
theory CexCache
  imports Factors MapOfSets
begin

text \<open>
  The counterexample cache (\<open>klee/lib/Solver/CexCachingSolver.cpp\<close>): a map from sets of
  constraints to an assignment that satisfies them, or to none when they are unsatisfiable.
  A query is answered from the entry of its own set, of a superset that has an assignment, of
  a subset that has none or whose assignment happens to satisfy the whole set.
\<close>

section \<open>The symbolic objects of an expression\<close>

text \<open>
  \<open>findSymbolicObjects\<close> (\<open>klee/lib/Expr/ExprUtil.cpp\<close>): the update list of a read, then its
  array, then its index. The memo table of the visitor only skips expressions whose objects
  are already in the list.
\<close>

primrec find_objects :: "expr \<Rightarrow> array list \<Rightarrow> array list"
  and find_node_objects :: "updates \<Rightarrow> array list \<Rightarrow> array list" where
  "find_objects (Constant w v) os = os"
| "find_objects (NotOptimized e) os = find_objects e os"
| "find_objects (Read a ul i) os =
     (let os1 = find_node_objects ul os in
      find_objects i (if isSymbolicArray a \<and> a \<notin> set os1 then os1 @ [a] else os1))"
| "find_objects (Select c t f) os = find_objects f (find_objects t (find_objects c os))"
| "find_objects (Concat l r) os = find_objects r (find_objects l os)"
| "find_objects (Extract e off w) os = find_objects e os"
| "find_objects (Cast k e w) os = find_objects e os"
| "find_objects (NotE e) os = find_objects e os"
| "find_objects (Binary k l r) os = find_objects r (find_objects l os)"
| "find_node_objects UNull os = os"
| "find_node_objects (UNode i v u) os = find_node_objects u (find_objects v (find_objects i os))"

definition findSymbolicObjects :: "expr list \<Rightarrow> array list" where
  "findSymbolicObjects es = fold find_objects es []"

section \<open>The cache\<close>

text \<open>
  An \<open>Assignment\<close> made here is its bindings; free values are off. The memo table
  \<open>assignmentsTable\<close> is a \<open>std::set\<close> that compares the bindings, \<open>cex_order\<close> the order
  of the comparison. \<open>ref<Expr>\<close>s are ordered by \<open>cex_lt\<close>.
\<close>

type_synonym binding = "(array \<times> int list) list"

record cex_config =
  cex_fuel :: nat
  cex_lt :: "expr \<Rightarrow> expr \<Rightarrow> bool"
  cex_order :: "binding \<Rightarrow> binding \<Rightarrow> bool"
  DebugCexCacheCheckBinding :: bool
  CexCacheTryAll :: bool
  CexCacheSuperSet :: bool
  CexCacheExperimental :: bool

record cex_state =
  cex_cache :: "(expr, binding option) mnode"
  assignmentsTable :: "binding list"

definition cex_start :: cex_state where
  "cex_start = \<lparr>cex_cache = mos_empty None, assignmentsTable = []\<rparr>"

definition the_assignment :: "binding \<Rightarrow> assignment" where
  "the_assignment b = mk_Assignment (map fst b) (map snd b) False"

definition binding_satisfies :: "cex_config \<Rightarrow> expr list \<Rightarrow> binding \<Rightarrow> bool result" where
  "binding_satisfies cf key b = satisfies (cex_fuel cf) (the_assignment b) key"

definition NullAssignment :: "binding option \<Rightarrow> bool result" where
  "NullAssignment r = Inr (r = None)"

definition NonNullAssignment :: "binding option \<Rightarrow> bool result" where
  "NonNullAssignment r = Inr (r \<noteq> None)"

definition NullOrSatisfyingAssignment :: "cex_config \<Rightarrow> expr list \<Rightarrow> binding option \<Rightarrow> bool result" where
  "NullOrSatisfyingAssignment cf key r =
     (case r of None \<Rightarrow> Inr True | Some b \<Rightarrow> binding_satisfies cf key b)"

fun search_table :: "cex_config \<Rightarrow> expr list \<Rightarrow> binding list \<Rightarrow> binding option option result" where
  "search_table cf key [] = Inr None"
| "search_table cf key (b # bs) =
     bind_res (binding_satisfies cf key b) (\<lambda>found.
       if found then Inr (Some (Some b)) else search_table cf key bs)"

text \<open>\<open>searchForAssignment\<close>: \<open>None\<close> when nothing is found, else the cached result.\<close>

definition searchForAssignment ::
    "cex_config \<Rightarrow> cex_state \<Rightarrow> expr list \<Rightarrow> binding option option result" where
  "searchForAssignment cf st key =
     (case mos_lookup (cex_cache st) key of
        Some r \<Rightarrow> Inr (Some r)
      | None \<Rightarrow>
          bind_res
            (if CexCacheSuperSet cf then findSuperset NonNullAssignment (cex_cache st) key else Inr None)
            (\<lambda>l1. bind_res
              (if l1 \<noteq> None then Inr l1
               else findSubset (cex_lt cf)
                 (if CexCacheTryAll cf then NullAssignment else NullOrSatisfyingAssignment cf key)
                 (cex_cache st) key)
              (\<lambda>l2. if l2 \<noteq> None then Inr l2
                else if CexCacheTryAll cf then search_table cf key (assignmentsTable st)
                else Inr None)))"

text \<open>\<open>lookupAssignment\<close>: the key of the query and what was found.\<close>

definition lookupAssignment ::
    "cex_config \<Rightarrow> cex_state \<Rightarrow> query \<Rightarrow> (expr list \<times> binding option option) result" where
  "lookupAssignment cf st q =
     (let key0 = fold (set_insert (cex_lt cf)) (q_constraints q) []; neg = createIsZero (q_expr q) in
      if is_Constant neg
      then (if isFalse neg then Inr (key0, Some None)
            else map_res (\<lambda>r. (key0, r)) (searchForAssignment cf st key0))
      else (let key = set_insert (cex_lt cf) neg key0 in
        map_res (\<lambda>r. (key, r)) (searchForAssignment cf st key)))"

text \<open>The memo table gives back the assignment with the same bindings that it already holds.\<close>

definition same_bindings :: "binding \<Rightarrow> binding \<Rightarrow> bool" where
  "same_bindings x y \<longleftrightarrow> list_all (\<lambda>a. map_of x a = map_of y a) (map fst x @ map fst y)"

fun table_insert :: "(binding \<Rightarrow> binding \<Rightarrow> bool) \<Rightarrow> binding \<Rightarrow> binding list \<Rightarrow> binding \<times> binding list" where
  "table_insert alt b [] = (b, [b])"
| "table_insert alt b (x # xs) =
     (if same_bindings b x then (x, x # xs)
      else if alt b x then (b, b # x # xs)
      else (case table_insert alt b xs of (r, ys) \<Rightarrow> (r, x # ys)))"

type_synonym 's cex = "cex_state \<times> 's"

definition memoize ::
    "cex_config \<Rightarrow> expr list \<Rightarrow> array list \<Rightarrow> int list list option \<Rightarrow> cex_state
     \<Rightarrow> (binding option \<times> cex_state) result" where
  "memoize cf key objects solution st =
     (case solution of
        None \<Rightarrow> Inr (None, st)
      | Some vss \<Rightarrow>
          (case table_insert (cex_order cf) (zip objects vss) (assignmentsTable st) of (b, table) \<Rightarrow>
             bind_res (if DebugCexCacheCheckBinding cf then binding_satisfies cf key b else Inr True)
               (\<lambda>good. assert_res good (Inr (Some b, st\<lparr>assignmentsTable := table\<rparr>)))))"

definition getAssignment :: "cex_config \<Rightarrow> 's impl \<Rightarrow> query \<Rightarrow> ('s cex, binding option) call" where
  "getAssignment cf S q cs =
     bind_res (lookupAssignment cf (fst cs) q) (\<lambda>(key, found).
       case found of
         Some r \<Rightarrow> return_call r cs
       | None \<Rightarrow>
           let objects = findSymbolicObjects key in
           bind_res (computeInitialValues S q objects (snd cs)) (\<lambda>(res, s).
             case res of
               None \<Rightarrow> Inr (None, (fst cs, s))
             | Some solution \<Rightarrow>
                 bind_res (memoize cf key objects solution (fst cs)) (\<lambda>(b, st).
                   return_call b (st\<lparr>cex_cache := mos_insert (cex_lt cf) None key b (cex_cache st)\<rparr>, s))))"

section \<open>The solver\<close>

text \<open>\<open>a->evaluate(e)\<close> and the assertion that the result is a constant.\<close>

definition evaluate_constant :: "cex_config \<Rightarrow> binding \<Rightarrow> expr \<Rightarrow> expr result" where
  "evaluate_constant cf b e =
     bind_res (evaluate (cex_fuel cf) (the_assignment b) e) (\<lambda>r. assert_res (is_Constant r) (Inr r))"

definition cex_computeValidity :: "cex_config \<Rightarrow> 's impl \<Rightarrow> query \<Rightarrow> ('s cex, validity) call" where
  "cex_computeValidity cf S q cs =
     on_success (getAssignment cf S (withFalse q) cs) (\<lambda>a cs1.
       bind_res (of_option AssertionFailed a) (\<lambda>b. bind_res (evaluate_constant cf b (q_expr q)) (\<lambda>v.
         if isTrue v
         then on_success (getAssignment cf S q cs1) (\<lambda>a'.
           return_call (if a' = None then SolverTrue else SolverUnknown))
         else on_success (getAssignment cf S (negateExpr q) cs1) (\<lambda>a'.
           return_call (if a' = None then SolverFalse else SolverUnknown)))))"

definition cex_computeTruth :: "cex_config \<Rightarrow> 's impl \<Rightarrow> query \<Rightarrow> ('s cex, bool) call" where
  "cex_computeTruth cf S q cs =
     bind_res
       (if CexCacheExperimental cf
        then map_res (\<lambda>(key, found). found = Some None) (lookupAssignment cf (fst cs) (negateExpr q))
        else Inr False)
       (\<lambda>negation_unsat.
         if negation_unsat then Inr (None, cs)
         else on_success (getAssignment cf S q cs) (\<lambda>a. return_call (a = None)))"

definition cex_computeValue :: "cex_config \<Rightarrow> 's impl \<Rightarrow> query \<Rightarrow> ('s cex, expr) call" where
  "cex_computeValue cf S q cs =
     on_success (getAssignment cf S (withFalse q) cs) (\<lambda>a cs1.
       bind_res (of_option AssertionFailed a) (\<lambda>b.
         bind_res (evaluate_constant cf b (q_expr q)) (\<lambda>v. return_call v cs1)))"

definition cex_computeInitialValues ::
    "cex_config \<Rightarrow> 's impl \<Rightarrow> query \<Rightarrow> array list \<Rightarrow> ('s cex, int list list option) call" where
  "cex_computeInitialValues cf S q objects cs =
     on_success (getAssignment cf S q cs) (\<lambda>a. return_call
       (map_option (\<lambda>b. map (object_values (map_of b)) objects) a))"

definition CexCachingSolver :: "cex_config \<Rightarrow> 's impl \<Rightarrow> 's cex impl" where
  "CexCachingSolver cf S =
     \<lparr>computeTruth = cex_computeTruth cf S, computeValidity = cex_computeValidity cf S,
      computeValue = cex_computeValue cf S, computeInitialValues = cex_computeInitialValues cf S\<rparr>"

section \<open>The cache is sound\<close>

definition entry_ok :: "expr list \<Rightarrow> binding option \<Rightarrow> bool" where
  "entry_ok ks r \<longleftrightarrow> wf_constraints ks
     \<and> (case r of None \<Rightarrow> \<not> feasible ks
        | Some b \<Rightarrow> bytes_ok (map_of b) \<and> sat (env_from (the_assignment b)) ks)"

definition cex_state_ok :: "cex_config \<Rightarrow> cex_state \<Rightarrow> bool" where
  "cex_state_ok cf st \<longleftrightarrow> mos_ok (cex_lt cf) (cex_cache st)
     \<and> (\<forall>ks r. mos_lookup (cex_cache st) ks = Some r \<longrightarrow> entry_ok ks r)
     \<and> (\<forall>b \<in> set (assignmentsTable st). bytes_ok (map_of b))"

definition cex_ok :: "cex_config \<Rightarrow> ('s \<Rightarrow> bool) \<Rightarrow> 's cex \<Rightarrow> bool" where
  "cex_ok cf ok = (\<lambda>(st, s). cex_state_ok cf st \<and> ok s)"

lemma cex_start_ok: "cex_state_ok cf cex_start"
  by (simp add: cex_state_ok_def cex_start_def mos_ok_empty)

lemma bindings_the_assignment: "bindings (the_assignment b) = map_of b"
  by (simp add: the_assignment_def mk_Assignment_def zip_map_fst_snd)

lemma the_assignment_model: "bytes_ok (map_of b) \<Longrightarrow> wf_model (env_from (the_assignment b))"
  by (rule wf_model_env_from) (simp add: bindings_the_assignment)

lemma binding_satisfies_ok:
  assumes "binding_satisfies cf key b = Inr True" "wf_constraints key" "bytes_ok (map_of b)"
  shows "sat (env_from (the_assignment b)) key"
  by (rule satisfies_from_ok[OF visited_ok_Nil assms(2)])
    (use assms the_assignment_model in \<open>auto simp: binding_satisfies_def satisfies_def agrees_env_from\<close>)

lemma entry_ok_superset:
  "entry_ok ks' (Some b) \<Longrightarrow> set ks \<subseteq> set ks' \<Longrightarrow> entry_ok ks (Some b)"
  by (auto simp: entry_ok_def wf_constraints_def sat_def)

lemma entry_ok_subset_None:
  "entry_ok ks' None \<Longrightarrow> set ks' \<subseteq> set ks \<Longrightarrow> wf_constraints ks \<Longrightarrow> entry_ok ks None"
  by (auto simp: entry_ok_def feasible_def sat_def) blast

lemma search_table_ok:
  "search_table cf key bs = Inr (Some r) \<Longrightarrow> wf_constraints key \<Longrightarrow> \<forall>b \<in> set bs. bytes_ok (map_of b)
    \<Longrightarrow> entry_ok key r"
  by (induction bs) (auto simp: entry_ok_def binding_satisfies_ok split: if_splits)

lemma searchForAssignment_ok:
  assumes lt: "strict_order (cex_lt cf)" and st: "cex_state_ok cf st" and key: "wf_constraints key"
    and found: "searchForAssignment cf st key = Inr (Some r)"
  shows "entry_ok key r"
proof -
  have ok: "mos_ok (cex_lt cf) (cex_cache st)"
    and entries: "\<And>ks r. mos_lookup (cex_cache st) ks = Some r \<Longrightarrow> entry_ok ks r"
    and table: "\<forall>b \<in> set (assignmentsTable st). bytes_ok (map_of b)"
    using st by (auto simp: cex_state_ok_def)
  have super: "entry_ok key r" if r: "findSuperset NonNullAssignment (cex_cache st) key = Inr (Some r)"
  proof -
    obtain ks' where ks': "set key \<subseteq> set ks'" "mos_lookup (cex_cache st) ks' = Some r" "r \<noteq> None"
      using findSuperset_sound(1)[OF lt ok r] by (auto simp: NonNullAssignment_def)
    with entries[OF ks'(2)] entry_ok_superset show ?thesis by blast
  qed
  have sub: "entry_ok key r"
    if r: "findSubset (cex_lt cf) p (cex_cache st) key = Inr (Some r)"
      and p: "p = NullAssignment \<or> p = NullOrSatisfyingAssignment cf key" for p
  proof -
    obtain ks' where ks': "set ks' \<subseteq> set key" "mos_lookup (cex_cache st) ks' = Some r" "p r = Inr True"
      using findSubset_sound(1)[OF lt ok r] by blast
    note e = entries[OF ks'(2)]
    show ?thesis
    proof (cases r)
      case None
      with e entry_ok_subset_None[OF _ ks'(1) key] show ?thesis by simp
    next
      case (Some b)
      with p ks'(3) have "binding_satisfies cf key b = Inr True"
        by (auto simp: NullAssignment_def NullOrSatisfyingAssignment_def)
      with Some e key binding_satisfies_ok show ?thesis by (simp add: entry_ok_def)
    qed
  qed
  show ?thesis
  proof (cases "mos_lookup (cex_cache st) key")
    case None
    with found obtain l1 l2 where
      l1: "(if CexCacheSuperSet cf then findSuperset NonNullAssignment (cex_cache st) key else Inr None) = Inr l1"
      and l2: "(if l1 \<noteq> None then Inr l1
         else findSubset (cex_lt cf)
           (if CexCacheTryAll cf then NullAssignment else NullOrSatisfyingAssignment cf key)
           (cex_cache st) key) = Inr l2"
      and last: "(if l2 \<noteq> None then Inr l2
         else if CexCacheTryAll cf then search_table cf key (assignmentsTable st) else Inr None) = Inr (Some r)"
      by (auto simp: searchForAssignment_def)
    consider "l1 = Some r" | "l1 = None" "l2 = Some r" | "l1 = None" "l2 = None" "CexCacheTryAll cf"
      "search_table cf key (assignmentsTable st) = Inr (Some r)"
      using l1 l2 last by (auto split: if_splits)
    then show ?thesis
    proof cases
      case 1
      with l1 super show ?thesis by (auto split: if_splits)
    next
      case 2
      with l2 sub show ?thesis by auto
    next
      case 3
      with search_table_ok[OF _ key table] show ?thesis by blast
    qed
  qed (use found entries in \<open>auto simp: searchForAssignment_def\<close>)
qed

text \<open>The contents of the objects found decide the value of an expression.\<close>

primrec symbolic_objects :: "expr \<Rightarrow> array set" and node_symbolic_objects :: "updates \<Rightarrow> array set" where
  "symbolic_objects (Constant w v) = {}"
| "symbolic_objects (NotOptimized e) = symbolic_objects e"
| "symbolic_objects (Read a ul i) = (if isSymbolicArray a then {a} else {}) \<union> node_symbolic_objects ul \<union> symbolic_objects i"
| "symbolic_objects (Select c t f) = symbolic_objects c \<union> symbolic_objects t \<union> symbolic_objects f"
| "symbolic_objects (Concat l r) = symbolic_objects l \<union> symbolic_objects r"
| "symbolic_objects (Extract e off w) = symbolic_objects e"
| "symbolic_objects (Cast k e w) = symbolic_objects e"
| "symbolic_objects (NotE e) = symbolic_objects e"
| "symbolic_objects (Binary k l r) = symbolic_objects l \<union> symbolic_objects r"
| "node_symbolic_objects UNull = {}"
| "node_symbolic_objects (UNode i v u) = symbolic_objects i \<union> symbolic_objects v \<union> node_symbolic_objects u"

lemma find_objects_set:
  "set (find_objects e os) = set os \<union> symbolic_objects e"
  "set (find_node_objects u os) = set os \<union> node_symbolic_objects u"
  by (induction e and u arbitrary: os and os) (auto simp: Let_def)

lemma findSymbolicObjects_set: "set (findSymbolicObjects es) = \<Union>(symbolic_objects ` set es)"
proof -
  have "set (fold find_objects es os) = set os \<union> \<Union>(symbolic_objects ` set es)" for os
    by (induction es arbitrary: os) (auto simp: find_objects_set)
  then show ?thesis by (simp add: findSymbolicObjects_def)
qed

lemma wf_objects:
  "wf_expr e \<Longrightarrow> a \<in> symbolic_objects e \<Longrightarrow> wf_array a"
  "wf_updates u b \<Longrightarrow> a \<in> node_symbolic_objects u \<Longrightarrow> wf_array a"
  by (induction e and u arbitrary: and b) (auto split: if_splits)

lemma symbolic_objects_symbolic:
  "a \<in> symbolic_objects e \<Longrightarrow> isSymbolicArray a" "a \<in> node_symbolic_objects u \<Longrightarrow> isSymbolicArray a"
  by (induction e and u) (auto split: if_splits)

definition same_on_arrays :: "array set \<Rightarrow> env \<Rightarrow> env \<Rightarrow> bool" where
  "same_on_arrays A \<rho> \<rho>' \<longleftrightarrow> (\<forall>a j. a \<in> A \<or> isConstantArray a \<longrightarrow> initial_value \<rho> a j = initial_value \<rho>' a j)"

lemma eval_same_on_arrays:
  "same_on_arrays A \<rho> \<rho>' \<Longrightarrow> symbolic_objects e \<subseteq> A \<Longrightarrow> eval \<rho> e = eval \<rho>' e"
  "same_on_arrays A \<rho> \<rho>' \<Longrightarrow> node_symbolic_objects u \<subseteq> A \<Longrightarrow> a \<in> A \<or> isConstantArray a
    \<Longrightarrow> eval_read \<rho> u a j = eval_read \<rho>' u a j"
proof (induction e and u arbitrary: and a j)
  case (Read a ul i)
  then have "a \<in> A \<or> isConstantArray a" by (auto simp: isConstantArray_def split: if_splits)
  with Read show ?case by (auto simp: isConstantArray_def split: if_splits)
next
  case UNull
  then show ?case by (auto simp: same_on_arrays_def)
qed simp_all

lemma bytes_same_on_arrays:
  assumes \<rho>: "wf_model \<rho>" "has_bytes \<rho> objects vss" and b: "map_of b = map_of (zip objects vss)"
    and sym: "\<forall>a \<in> set objects. isSymbolicArray a"
  shows "bytes_ok (map_of b)" "same_on_arrays (set objects) \<rho> (env_from (the_assignment b))"
proof -
  have len: "length objects = length vss" using \<rho>(2) by (auto simp: has_bytes_def dest: list_all2_lengthD)
  have bytes: "length vs = arr_size a \<and> (\<forall>j < arr_size a. vs ! j = \<rho> a (int j))"
    if "map_of b a = Some vs" for a vs
  proof -
    have "(a, vs) \<in> set (zip objects vss)" using that unfolding b by (rule map_of_SomeD)
    moreover from this have "isSymbolicArray a" using sym set_zip_leftD by fast
    ultimately show ?thesis using \<rho>(2) by (auto simp: has_bytes_def list_all2_iff)
  qed
  show "bytes_ok (map_of b)"
    using bytes \<rho>(1) by (auto simp: bytes_ok_def in_set_conv_nth wf_model_def wf_env_def)
  have bound: "\<exists>vs. map_of b a = Some vs" if "a \<in> set objects" for a
    using that len unfolding b by (simp add: map_of_zip_is_Some)
  have out: "\<rho> a j = 0" if "\<not> (0 \<le> j \<and> j < int (arr_size a))" for a j
    using \<rho>(1) that by (simp add: wf_model_def)
  have env: "env_from (the_assignment b) a j = \<rho> a j" if a: "a \<in> set objects" for a j
  proof -
    obtain vs where vs: "map_of b a = Some vs" using bound[OF a] by blast
    have "in_width (arr_range a) (\<rho> a j)" using \<rho>(1) by (simp add: wf_model_def wf_env_def)
    with bytes[OF vs] vs out[of j a] show ?thesis
      by (auto simp: env_from_def env_of_def bindings_the_assignment take_bit_in_width)
  qed
  have "wf_model (env_from (the_assignment b))" by (rule the_assignment_model) fact
  then have out': "env_from (the_assignment b) a j = 0" if "\<not> (0 \<le> j \<and> j < int (arr_size a))" for a j
    using that by (simp add: wf_model_def)
  show "same_on_arrays (set objects) \<rho> (env_from (the_assignment b))"
    unfolding same_on_arrays_def initial_value_def using env out out' by (auto simp: not_le not_less)
qed

lemma set_insert_sorted:
  assumes lt: "strict_order lt"
  shows "sorted_wrt lt xs \<Longrightarrow> sorted_wrt lt (set_insert lt x xs)"
proof (induction xs)
  case (Cons y ys)
  consider "x = y" | "x \<noteq> y" "lt x y" | "x \<noteq> y" "\<not> lt x y" by blast
  then show ?case
  proof cases
    case 2
    with Cons.prems have "\<forall>z \<in> set ys. lt x z" using strict_orderD(2)[OF lt] by auto
    with 2 Cons.prems show ?thesis by simp
  next
    case 3
    then have "lt y x" using strict_orderD(3)[OF lt] by blast
    with 3 Cons set_insert_set[of lt x ys] show ?thesis by auto
  qed (use Cons.prems in simp)
qed simp

lemma table_insert_ok:
  "table_insert alt b xs = (r, ys) \<Longrightarrow> map_of r = map_of b \<and> set ys \<subseteq> insert b (set xs)"
proof (induction xs arbitrary: r ys)
  case (Cons x xs)
  have "map_of x = map_of b" if "same_bindings b x"
  proof
    fix a
    show "map_of x a = map_of b a"
    proof (cases "a \<in> set (map fst b @ map fst x)")
      case True
      with that show ?thesis by (auto simp: same_bindings_def list_all_iff)
    next
      case False
      then have "map_of x a = None" "map_of b a = None" by (auto simp: map_of_eq_None_iff)
      then show ?thesis by simp
    qed
  qed
  with Cons show ?case by (auto split: if_splits prod.splits)
qed simp

section \<open>The contract\<close>

text \<open>The key of a query holds its constraints and its negation.\<close>

definition key_means :: "query \<Rightarrow> expr list \<Rightarrow> bool" where
  "key_means q key \<longleftrightarrow> wf_constraints key
     \<and> (\<forall>\<rho>. wf_model \<rho> \<longrightarrow> (sat \<rho> key \<longleftrightarrow> sat \<rho> (q_constraints q) \<and> eval \<rho> (q_expr q) = 0))"

definition answer_ok :: "query \<Rightarrow> binding option \<Rightarrow> bool" where
  "answer_ok q r \<longleftrightarrow>
     (case r of
        None \<Rightarrow> valid q
      | Some b \<Rightarrow> bytes_ok (map_of b) \<and> sat (env_from (the_assignment b)) (q_constraints q)
          \<and> eval (env_from (the_assignment b)) (q_expr q) = 0)"

lemma answer_of_entry:
  assumes "bool_form q" "key_means q key" "entry_ok key r"
  shows "answer_ok q r"
proof (cases r)
  case None
  with assms(2,3) show ?thesis
    by (auto simp: answer_ok_def entry_ok_def feasible_def key_means_def intro!: valid_of_unsat[OF assms(1)])
next
  case (Some b)
  with assms(3) the_assignment_model[of b] assms(2) show ?thesis
    by (auto simp: answer_ok_def entry_ok_def key_means_def)
qed

lemma set_of_key: "set (fold (set_insert lt) xs ys) = set xs \<union> set ys"
  by (induction xs arbitrary: ys) (auto simp: set_insert_set)

lemma key_means_intro:
  assumes "bool_form q" "set key = set (q_constraints q) \<union> A"
    "A = {createIsZero (q_expr q)} \<or> A = {} \<and> createIsZero (q_expr q) = Constant 1 1"
  shows "key_means q key"
proof -
  have e: "wf_expr (q_expr q)" using assms(1) by (simp add: bool_form_def)
  note neg = createIsZero_facts[OF e]
  have key: "wf_constraints key"
    using assms neg(1,2) by (auto simp: wf_constraints_def bool_form_def)
  have "sat \<rho> key \<longleftrightarrow> sat \<rho> (q_constraints q) \<and> eval \<rho> (q_expr q) = 0" if \<rho>: "wf_model \<rho>" for \<rho>
  proof -
    have z: "eval \<rho> (createIsZero (q_expr q)) = 1 \<longleftrightarrow> eval \<rho> (q_expr q) = 0"
      using neg(3)[OF wf_model_env[OF \<rho>]] by simp
    from assms(3) show ?thesis
    proof
      assume "A = {} \<and> createIsZero (q_expr q) = Constant 1 1"
      with z assms(2) show ?thesis by (simp add: sat_def)
    qed (use z assms(2) in \<open>auto simp: sat_def\<close>)
  qed
  with key show ?thesis by (simp add: key_means_def)
qed

lemma lookupAssignment_ok:
  assumes lt: "strict_order (cex_lt cf)" and st: "cex_state_ok cf st" and q: "bool_form q"
    and l: "lookupAssignment cf st q = Inr (key, found)"
  shows "(found = None \<longrightarrow> key_means q key) \<and> (\<forall>r. found = Some r \<longrightarrow> answer_ok q r)"
proof -
  have e: "wf_expr (q_expr q)" using q by (simp add: bool_form_def)
  define neg where "neg = createIsZero (q_expr q)"
  define key0 where "key0 = fold (set_insert (cex_lt cf)) (q_constraints q) []"
  note neg_facts = createIsZero_facts[OF e, folded neg_def]
  have key0: "set key0 = set (q_constraints q)" by (simp add: key0_def set_of_key)
  have search: ?thesis if "key_means q key" "searchForAssignment cf st key = Inr found"
    using that searchForAssignment_ok[OF lt st] answer_of_entry[OF q that(1)] by (auto simp: key_means_def)
  consider "is_Constant neg" "isFalse neg" "found = Some None"
    | "is_Constant neg" "\<not> isFalse neg" "key = key0" "searchForAssignment cf st key0 = Inr found"
    | "\<not> is_Constant neg" "key = set_insert (cex_lt cf) neg key0" "searchForAssignment cf st key = Inr found"
    using l by (auto simp: lookupAssignment_def Let_def neg_def key0_def split: if_splits)
  then show ?thesis
  proof cases
    case 1
    then have "neg = Constant 1 0" by (cases neg) auto
    then have "eval \<rho> (q_expr q) \<noteq> 0" if "wf_model \<rho>" for \<rho>
      using neg_facts(3)[OF wf_model_env[OF that]] by (auto split: if_splits)
    with 1(3) valid_of_unsat[OF q] show ?thesis by (simp add: answer_ok_def)
  next
    case 2
    then obtain v where v: "neg = Constant 1 v" using neg_facts(2) by (cases neg) auto
    with 2(2) neg_facts(1) have "v = 1" by (auto simp: in_width_bool)
    with v key0 2(3) have "key_means q key"
      by (intro key_means_intro[OF q, of _ "{}"]) (simp_all add: neg_def)
    with 2(3,4) search show ?thesis by simp
  next
    case 3
    have "key_means q key"
      by (rule key_means_intro[OF q, of _ "{neg}"]) (auto simp: 3(2) set_insert_set key0 neg_def)
    with 3(3) search show ?thesis by simp
  qed
qed

lemma cex_state_ok_insert:
  assumes lt: "strict_order (cex_lt cf)" and st: "cex_state_ok cf st" and "entry_ok key r"
  shows "cex_state_ok cf (st\<lparr>cex_cache := mos_insert (cex_lt cf) None key r (cex_cache st)\<rparr>)"
proof -
  have "mos_ok (cex_lt cf) (cex_cache st)" using st by (simp add: cex_state_ok_def)
  with assms(2,3) mos_insert_ok[OF lt this] mos_lookup_insert[OF lt this] show ?thesis
    by (simp add: cex_state_ok_def)
qed

lemma memoize_ok:
  assumes st: "cex_state_ok cf st" and q: "bool_form q" and key: "key_means q key"
    and objects: "objects = findSymbolicObjects key"
    and sol: "case solution of None \<Rightarrow> valid q | Some vss \<Rightarrow> counterexample q objects vss"
    and mem: "memoize cf key objects solution st = Inr (r, st')"
  shows "entry_ok key r \<and> cex_state_ok cf st'"
proof (cases solution)
  case None
  then have "r = None" "st' = st" "valid q" using mem sol by (auto simp: memoize_def)
  moreover have "entry_ok key None"
    using key \<open>valid q\<close> by (auto simp: entry_ok_def key_means_def feasible_def valid_def values_of_def)
  ultimately show ?thesis using st by simp
next
  case (Some vss)
  then obtain \<rho> where \<rho>: "wf_model \<rho>" "sat \<rho> (q_constraints q)" "eval \<rho> (q_expr q) = 0"
    "has_bytes \<rho> objects vss" using sol by (auto simp: counterexample_def)
  obtain b table where t: "table_insert (cex_order cf) (zip objects vss) (assignmentsTable st) = (b, table)"
    by (cases "table_insert (cex_order cf) (zip objects vss) (assignmentsTable st)")
  then have r: "r = Some b" "st' = st\<lparr>assignmentsTable := table\<rparr>"
    using mem Some by (auto simp: memoize_def split: if_splits)
  note ins = table_insert_ok[OF t]
  have sym: "\<forall>a \<in> set objects. isSymbolicArray a"
    using symbolic_objects_symbolic(1) by (auto simp: objects findSymbolicObjects_set)
  note bytes = bytes_same_on_arrays[OF \<rho>(1,4) conjunct1[OF ins] sym]
  have wf: "wf_constraints key" and "sat \<rho> key" using key \<rho> by (auto simp: key_means_def)
  moreover have "eval \<rho> e = eval (env_from (the_assignment b)) e" if "e \<in> set key" for e
    by (rule eval_same_on_arrays(1)[OF bytes(2)]) (use that in \<open>auto simp: objects findSymbolicObjects_set\<close>)
  ultimately have "entry_ok key r"
    using bytes(1) by (simp add: entry_ok_def r sat_def)
  moreover have "\<forall>b \<in> set table. bytes_ok (map_of b)"
    using ins bytes(1) st by (auto simp: cex_state_ok_def)
  then have "cex_state_ok cf st'" using st by (simp add: cex_state_ok_def r)
  ultimately show ?thesis by blast
qed

lemma getAssignment_ok:
  assumes S: "initial_impl S ok m" and lt: "strict_order (cex_lt cf)"
    and cs: "cex_ok cf ok cs" and q: "bool_form q"
  shows "answers MayAbort (cex_ok cf ok) (answer_ok q) (getAssignment cf S q cs)"
proof (cases "lookupAssignment cf (fst cs) q")
  case (Inl err)
  then show ?thesis by (simp add: getAssignment_def answers_def)
next
  case (Inr kf)
  obtain key found where kf: "kf = (key, found)" by (cases kf)
  obtain st s where eq: "cs = (st, s)" and st: "cex_state_ok cf st" and s: "ok s"
    using cs by (cases cs) (auto simp: cex_ok_def)
  note look = lookupAssignment_ok[OF lt st q, of key found]
  show ?thesis
  proof (cases found)
    case (Some r)
    with look Inr kf eq cs show ?thesis by (simp add: getAssignment_def)
  next
    case None
    with look Inr kf eq have key: "key_means q key" by simp
    define objects where "objects = findSymbolicObjects key"
    have wf: "wf_constraints key" using key by (simp add: key_means_def)
    have objs: "\<forall>a \<in> set objects. wf_array a" "\<forall>a \<in> set objects. isSymbolicArray a"
      using wf wf_objects(1) symbolic_objects_symbolic(1)
      by (auto simp: objects_def findSymbolicObjects_set wf_constraints_def)
    have ask: "answers m ok (\<lambda>r. case r of None \<Rightarrow> valid q | Some vss \<Rightarrow> counterexample q objects vss)
        (computeInitialValues S q objects s)"
      by (rule initial_impl.initial[OF S s q objs(1)])
    have step: "answers MayAbort (cex_ok cf ok) (answer_ok q) (bind_res (memoize cf key objects solution st)
        (\<lambda>(b, st). return_call b (st\<lparr>cex_cache := mos_insert (cex_lt cf) None key b (cex_cache st)\<rparr>, s')))"
      if sol: "case solution of None \<Rightarrow> valid q | Some vss \<Rightarrow> counterexample q objects vss" and s': "ok s'"
      for solution s'
    proof (cases "memoize cf key objects solution st")
      case (Inr bst)
      then obtain b st1 where "bst = (b, st1)" and mem: "memoize cf key objects solution st = Inr (b, st1)"
        by (cases bst) simp
      with memoize_ok[OF st q key objects_def sol mem] cex_state_ok_insert[OF lt] answer_of_entry[OF q key] s'
      show ?thesis by (simp add: cex_ok_def)
    qed (simp add: answers_def)
    have parts: "fst cs = st" "snd cs = s" and hit: "lookupAssignment cf st q = Inr (key, None)"
      using Inr kf eq None by simp_all
    have start: "getAssignment cf S q cs = bind_res (computeInitialValues S q objects s) (\<lambda>(res, s).
        case res of
          None \<Rightarrow> Inr (None, (st, s))
        | Some solution \<Rightarrow>
            bind_res (memoize cf key objects solution st) (\<lambda>(b, st).
              return_call b (st\<lparr>cex_cache := mos_insert (cex_lt cf) None key b (cex_cache st)\<rparr>, s)))"
      unfolding getAssignment_def parts hit bind_res.simps prod.case option.case Let_def objects_def ..
    show ?thesis
    proof (cases "computeInitialValues S q objects s")
      case (Inr rs)
      obtain r s' where rs: "rs = (r, s')" by (cases rs)
      show ?thesis
      proof (cases r)
        case None
        with ask Inr rs st show ?thesis by (simp add: start answers_def cex_ok_def)
      next
        case (Some solution)
        with ask Inr rs step[of solution s'] show ?thesis by (simp add: start answers_def)
      qed
    qed (simp add: start answers_def)
  qed
qed

lemma bool_form_withFalse: "wf_query q \<Longrightarrow> bool_form (withFalse q)"
  by (simp add: bool_form_def withFalse_def wf_query_def)

lemma bool_query_form: "bool_query q \<Longrightarrow> bool_form q"
  by (simp add: bool_query_def bool_form_def wf_query_def)

lemma bool_form_negateExpr: "bool_query q \<Longrightarrow> bool_form (negateExpr q)"
  using bool_query_form[OF bool_query_negateExpr] by (simp add: bool_query_def)

lemma evaluate_constant_ok:
  assumes "evaluate_constant cf b e = Inr r" "bytes_ok (map_of b)" "wf_expr e"
  shows "r = Constant (getWidth e) (eval (env_from (the_assignment b)) e)"
proof -
  have ev: "evaluate (cex_fuel cf) (the_assignment b) e = Inr r" "is_Constant r"
    using assms(1) by (auto simp: evaluate_constant_def)
  note r = sem_eq_onD[OF evaluate_ok[OF ev(1)] assms(3)]
  have "eval (env_from (the_assignment b)) r = eval (env_from (the_assignment b)) e"
    by (rule r(3)[OF wf_model_env[OF the_assignment_model[OF assms(2)]] agrees_env_from])
  with ev(2) r(2) show ?thesis by (cases r) auto
qed

text \<open>An assignment of the constraints gives a possible value of the query.\<close>

lemma answer_withFalse:
  assumes "wf_query q" "answer_ok (withFalse q) (Some b)"
  shows "bytes_ok (map_of b)" "eval (env_from (the_assignment b)) (q_expr q) \<in> values_of q"
  using assms the_assignment_model[of b] values_ofI[of "env_from (the_assignment b)" q]
  by (auto simp: answer_ok_def withFalse_def)

lemma answer_Some:
  assumes "bool_query q" "answer_ok q (Some b)"
  shows "0 \<in> values_of q" "\<not> valid q"
proof -
  show "0 \<in> values_of q"
    using assms(2) the_assignment_model[of b] values_ofI[of "env_from (the_assignment b)" q]
    by (auto simp: answer_ok_def)
  then show "\<not> valid q" by (fastforce simp: valid_iff)
qed

lemma answers_bind_abort:
  "(\<And>a. x = Inr a \<Longrightarrow> answers MayAbort ok P (f a)) \<Longrightarrow> answers MayAbort ok P (bind_res x f)"
  by (cases x) (simp_all add: answers_def)

lemma cex_value_ok:
  assumes S: "initial_impl S ok m" and lt: "strict_order (cex_lt cf)"
    and cs: "cex_ok cf ok cs" and q: "wf_query q"
  shows "answers MayAbort (cex_ok cf ok) (\<lambda>e. \<exists>v \<in> values_of q. e = Constant (getWidth (q_expr q)) v)
    (cex_computeValue cf S q cs)"
  unfolding cex_computeValue_def
proof (rule answers_on_success[OF getAssignment_ok[OF S lt cs bool_form_withFalse[OF q]]])
  fix a cs1 assume a: "answer_ok (withFalse q) a" and cs1: "cex_ok cf ok cs1"
  show "answers MayAbort (cex_ok cf ok) (\<lambda>e. \<exists>v \<in> values_of q. e = Constant (getWidth (q_expr q)) v)
      (bind_res (of_option AssertionFailed a) (\<lambda>b.
        bind_res (evaluate_constant cf b (q_expr q)) (\<lambda>v. return_call v cs1)))"
  proof (intro answers_bind_abort)
    fix b r assume "of_option AssertionFailed a = Inr b" and r: "evaluate_constant cf b (q_expr q) = Inr r"
    then have "answer_ok (withFalse q) (Some b)" using a by simp
    note b = answer_withFalse[OF q this]
    from b(2) evaluate_constant_ok[OF r b(1) wf_query_parts(2)[OF q]] cs1
    show "answers MayAbort (cex_ok cf ok) (\<lambda>e. \<exists>v \<in> values_of q. e = Constant (getWidth (q_expr q)) v)
      (return_call r cs1)" by auto
  qed
qed

lemma cex_truth_ok:
  assumes S: "initial_impl S ok m" and lt: "strict_order (cex_lt cf)"
    and cs: "cex_ok cf ok cs" and q: "bool_query q"
  shows "answers MayAbort (cex_ok cf ok) (\<lambda>b. b = valid q) (cex_computeTruth cf S q cs)"
  unfolding cex_computeTruth_def
proof (intro answers_bind_abort)
  have main: "answers MayAbort (cex_ok cf ok) (\<lambda>b. b = valid q)
      (on_success (getAssignment cf S q cs) (\<lambda>a. return_call (a = None)))"
  proof (rule answers_on_success[OF getAssignment_ok[OF S lt cs bool_query_form[OF q]]])
    fix a cs1 assume "answer_ok q a" "cex_ok cf ok cs1"
    with answer_Some(2)[OF q] show "answers MayAbort (cex_ok cf ok) (\<lambda>b. b = valid q) (return_call (a = None) cs1)"
      by (cases a) (auto simp: answer_ok_def)
  qed
  fix negation_unsat
  show "answers MayAbort (cex_ok cf ok) (\<lambda>b. b = valid q)
      (if negation_unsat then Inr (None, cs)
       else on_success (getAssignment cf S q cs) (\<lambda>a. return_call (a = None)))"
    using main cs by (simp add: answers_def)
qed

lemma cex_validity_ok:
  assumes S: "initial_impl S ok m" and lt: "strict_order (cex_lt cf)"
    and cs: "cex_ok cf ok cs" and q: "bool_query q"
  shows "answers MayAbort (cex_ok cf ok) (\<lambda>v. v = validity_of q) (cex_computeValidity cf S q cs)"
  unfolding cex_computeValidity_def
proof (rule answers_on_success[OF getAssignment_ok[OF S lt cs bool_form_withFalse[OF bool_query_wf[OF q]]]],
    intro answers_bind_abort)
  fix a cs1 b v
  assume a: "answer_ok (withFalse q) a" and cs1: "cex_ok cf ok cs1"
    and "of_option AssertionFailed a = Inr b" and v: "evaluate_constant cf b (q_expr q) = Inr v"
  then have "answer_ok (withFalse q) (Some b)" by simp
  note b = answer_withFalse[OF bool_query_wf[OF q] this]
  define x where "x = eval (env_from (the_assignment b)) (q_expr q)"
  have x: "x \<in> values_of q" "x = 0 \<or> x = 1" using b(2) values_of_bool[OF q] by (auto simp: x_def)
  have "v = Constant 1 x"
    using evaluate_constant_ok[OF v b(1)] wf_query_parts(2)[OF bool_query_wf[OF q]] q
    by (simp add: bool_query_def x_def)
  then have true: "isTrue v \<longleftrightarrow> x = 1" using x(2) by auto
  have one: "isTrue v \<Longrightarrow> \<not> refuted q" and zero: "\<not> isTrue v \<Longrightarrow> \<not> valid q"
    using true x by (fastforce simp: refuted_iff valid_iff)+
  note ask = getAssignment_ok[OF S lt cs1]
  note neg = bool_query_negateExpr[OF bool_query_wf[OF q]] valid_negateExpr[OF bool_query_wf[OF q]]
  show "answers MayAbort (cex_ok cf ok) (\<lambda>v. v = validity_of q)
      (if isTrue v
       then on_success (getAssignment cf S q cs1) (\<lambda>a'. return_call (if a' = None then SolverTrue else SolverUnknown))
       else on_success (getAssignment cf S (negateExpr q) cs1)
         (\<lambda>a'. return_call (if a' = None then SolverFalse else SolverUnknown)))"
  proof (cases "isTrue v")
    case True
    have "answers MayAbort (cex_ok cf ok) (\<lambda>v. v = validity_of q)
        (on_success (getAssignment cf S q cs1) (\<lambda>a'. return_call (if a' = None then SolverTrue else SolverUnknown)))"
    proof (rule answers_on_success[OF ask[OF bool_query_form[OF q]]])
      fix a' s assume "answer_ok q a'" "cex_ok cf ok s"
      with answer_Some(2)[OF q] one[OF True] show "answers MayAbort (cex_ok cf ok) (\<lambda>v. v = validity_of q)
          (return_call (if a' = None then SolverTrue else SolverUnknown) s)"
        by (cases a') (auto simp: answer_ok_def validity_of_def)
    qed
    with True show ?thesis by simp
  next
    case False
    have "answers MayAbort (cex_ok cf ok) (\<lambda>v. v = validity_of q)
        (on_success (getAssignment cf S (negateExpr q) cs1) (\<lambda>a'. return_call (if a' = None then SolverFalse else SolverUnknown)))"
    proof (rule answers_on_success[OF ask[OF bool_form_negateExpr[OF q]]])
      fix a' s assume "answer_ok (negateExpr q) a'" "cex_ok cf ok s"
      with answer_Some(2)[OF neg(1)] neg(2) zero[OF False] show "answers MayAbort (cex_ok cf ok) (\<lambda>v. v = validity_of q)
          (return_call (if a' = None then SolverFalse else SolverUnknown) s)"
        by (cases a') (auto simp: answer_ok_def validity_of_def)
    qed
    with False show ?thesis by simp
  qed
qed

lemma cex_initial_ok:
  assumes S: "initial_impl S ok m" and lt: "strict_order (cex_lt cf)"
    and cs: "cex_ok cf ok cs" and q: "bool_form q"
  shows "answers MayAbort (cex_ok cf ok) (\<lambda>r. case r of None \<Rightarrow> valid q | Some vss \<Rightarrow> counterexample q objects vss)
    (cex_computeInitialValues cf S q objects cs)"
  unfolding cex_computeInitialValues_def
proof (rule answers_on_success[OF getAssignment_ok[OF S lt cs q]])
  fix a cs1 assume a: "answer_ok q a" and cs1: "cex_ok cf ok cs1"
  show "answers MayAbort (cex_ok cf ok) (\<lambda>r. case r of None \<Rightarrow> valid q | Some vss \<Rightarrow> counterexample q objects vss)
    (return_call (map_option (\<lambda>b. map (object_values (map_of b)) objects) a) cs1)"
  proof (cases a)
    case None
    with a cs1 show ?thesis by (simp add: answer_ok_def)
  next
    case (Some b)
    with a have b: "bytes_ok (map_of b)" "sat (env_from (the_assignment b)) (q_constraints q)"
      "eval (env_from (the_assignment b)) (q_expr q) = 0" by (auto simp: answer_ok_def)
    have "has_bytes (env_from (the_assignment b)) objects (map (object_values (map_of b)) objects)"
      by (rule has_bytes_of_bindings[OF b(1)]) (simp_all add: bindings_the_assignment env_of_def)
    with b the_assignment_model[OF b(1)] have "counterexample q objects (map (object_values (map_of b)) objects)"
      by (auto simp: counterexample_def)
    with Some cs1 show ?thesis by simp
  qed
qed

lemma cex_contract:
  assumes "initial_impl S ok m" "strict_order (cex_lt cf)"
  shows "solver_impl (CexCachingSolver cf S) (cex_ok cf ok) MayAbort"
    "initial_impl (CexCachingSolver cf S) (cex_ok cf ok) MayAbort"
proof -
  show "solver_impl (CexCachingSolver cf S) (cex_ok cf ok) MayAbort"
    by unfold_locales (simp_all add: CexCachingSolver_def cex_truth_ok[OF assms] cex_validity_ok[OF assms]
      cex_value_ok[OF assms])
  show "initial_impl (CexCachingSolver cf S) (cex_ok cf ok) MayAbort"
    by unfold_locales (simp add: CexCachingSolver_def cex_initial_ok[OF assms])
qed

end
