(* ===== verification/SolverChain.thy ===== *)
theory SolverChain
  imports SolverCache CexCache
begin

text \<open>
  The chain of solvers (\<open>klee/lib/Solver/ConstructSolverChain.cpp\<close>): the core solver, which is
  outside of this development, under the assignment-validating solver
  (\<open>AssignmentValidatingSolver.cpp\<close>), the counterexample cache, the query cache and the
  independence solver. The chain answers as the contract says whenever the core solver does.
\<close>

section \<open>The assignment-validating solver\<close>

text \<open>
  Every \<open>abort\<close> is a failed assertion here; the query that is printed before is left out.
  When the inner solver fails, \<open>hasSolution\<close> has no value: the call fails.
\<close>

fun check_constraints :: "nat \<Rightarrow> assignment \<Rightarrow> expr list \<Rightarrow> unit result" where
  "check_constraints n asg [] = Inr ()"
| "check_constraints n asg (c # cs) =
     bind_res (evaluate n asg c) (\<lambda>r.
       assert_res (is_Constant r) (assert_res (\<not> isFalse r) (check_constraints n asg cs)))"

definition avs_computeInitialValues ::
    "nat \<Rightarrow> 's impl \<Rightarrow> query \<Rightarrow> array list \<Rightarrow> ('s, int list list option) call" where
  "avs_computeInitialValues n S q objects s =
     on_success (computeInitialValues S q objects s) (\<lambda>solution s'.
       case solution of
         None \<Rightarrow> return_call None s'
       | Some vss \<Rightarrow>
           let asg = mk_Assignment objects vss True in
           bind_res (check_constraints n asg (q_constraints q)) (\<lambda>_.
             bind_res (evaluate n asg (q_expr q)) (\<lambda>r.
               assert_res (is_Constant r) (assert_res (\<not> isTrue r) (return_call (Some vss) s')))))"

definition AssignmentValidatingSolver :: "nat \<Rightarrow> 's impl \<Rightarrow> 's impl" where
  "AssignmentValidatingSolver n S =
     \<lparr>computeTruth = computeTruth S, computeValidity = computeValidity S,
      computeValue = computeValue S, computeInitialValues = avs_computeInitialValues n S\<rparr>"

lemma avs_contract: "solver_impl S ok m \<Longrightarrow> solver_impl (AssignmentValidatingSolver n S) ok m"
  by (simp add: solver_impl_def AssignmentValidatingSolver_def)

lemma avs_initial:
  assumes S: "initial_impl S ok m"
  shows "initial_impl (AssignmentValidatingSolver n S) ok MayAbort"
proof
  fix s q objects
  assume s: "ok s" and q: "bool_form q" and objects: "\<forall>a \<in> set objects. wf_array a"
  let ?P = "\<lambda>r. case r of None \<Rightarrow> valid q | Some vss \<Rightarrow> counterexample q objects vss"
  show "answers MayAbort ok ?P (computeInitialValues (AssignmentValidatingSolver n S) q objects s)"
    unfolding AssignmentValidatingSolver_def impl.simps avs_computeInitialValues_def Let_def
  proof (rule answers_on_success[OF answers_weaken[OF initial_impl.initial[OF S s q objects]]])
    fix r s' assume "?P r" "ok s'"
    then show "answers MayAbort ok ?P (case r of
         None \<Rightarrow> return_call None s'
       | Some vss \<Rightarrow>
           bind_res (check_constraints n (mk_Assignment objects vss True) (q_constraints q)) (\<lambda>_.
             bind_res (evaluate n (mk_Assignment objects vss True) (q_expr q)) (\<lambda>r.
               assert_res (is_Constant r) (assert_res (\<not> isTrue r) (return_call (Some vss) s')))))"
      by (cases r) (auto intro!: answers_bind_abort answers_assert)
  qed
qed

text \<open>What the validation guarantees of any inner solver.\<close>

lemma check_constraints_ok:
  "check_constraints n asg cs = Inr () \<Longrightarrow> wf_constraints cs \<Longrightarrow> wf_env \<rho> \<Longrightarrow> agrees asg \<rho> \<Longrightarrow> sat \<rho> cs"
  by (induction cs) (auto simp: evaluated_true)

lemma avs_checked:
  assumes run: "computeInitialValues (AssignmentValidatingSolver n S) q objects s = Inr (Some (Some vss), s')"
    and q: "bool_form q" and objects: "distinct objects"
    and vss: "list_all2 (\<lambda>a vs. length vs = arr_size a \<and> (\<forall>v \<in> set vs. in_width (arr_range a) v)) objects vss"
  shows "counterexample q objects vss"
proof -
  define asg where "asg = mk_Assignment objects vss True"
  define M where "M = map_of (zip objects vss)"
  have b: "bindings asg = M" by (simp add: asg_def mk_Assignment_def M_def)
  from run obtain r where checks: "check_constraints n asg (q_constraints q) = Inr ()"
    "evaluate n asg (q_expr q) = Inr r" "is_Constant r" "\<not> isTrue r"
    by (auto simp: AssignmentValidatingSolver_def avs_computeInitialValues_def on_success_Some return_call_def
        Let_def asg_def split: option.splits)
  have len: "length objects = length vss" using vss by (rule list_all2_lengthD)
  have bytes: "bytes_ok M"
    using vss by (fastforce simp: bytes_ok_def M_def list_all2_iff dest!: map_of_SomeD)
  define \<rho> where "\<rho> = env_from asg"
  have \<rho>: "wf_model \<rho>" "agrees asg \<rho>"
    using wf_model_env_from[of asg] bytes by (simp_all add: \<rho>_def b agrees_env_from)
  have wf: "wf_expr (q_expr q)" "wf_constraints (q_constraints q)" "getWidth (q_expr q) = 1"
    using q by (simp_all add: bool_form_def)
  note r = sem_eq_onD[OF evaluate_ok[OF checks(2)] wf(1)]
  obtain v where "r = Constant 1 v" using checks(3) r(2) wf(3) by (cases r) auto
  with checks(4) r(3)[OF wf_model_env[OF \<rho>(1)] \<rho>(2)] have "eval \<rho> (q_expr q) = 0" by auto
  moreover have "sat \<rho> (q_constraints q)"
    by (rule check_constraints_ok[OF checks(1) wf(2) wf_model_env[OF \<rho>(1)] \<rho>(2)])
  moreover have "map (object_values M) objects = vss"
  proof (rule nth_equalityI)
    fix i assume "i < length (map (object_values M) objects)"
    then have i: "i < length objects" by simp
    then have "M (objects ! i) = Some (vss ! i)"
      using objects len unfolding M_def by (intro map_of_zip_nth) simp_all
    with i show "map (object_values M) objects ! i = vss ! i" by (simp add: object_values_def)
  qed (simp add: len)
  moreover have "has_bytes \<rho> objects (map (object_values M) objects)"
    unfolding \<rho>_def by (rule has_bytes_of_bindings[OF bytes]) (simp_all add: b env_of_def)
  ultimately show ?thesis using \<rho>(1) by (auto simp: counterexample_def)
qed

section \<open>The chain\<close>

text \<open>
  The command line's switches. A cache that is switched off is a layer that hands every call
  down, so that the state of the chain has one type.
\<close>

record chain_config =
  UseAssignmentValidatingSolver :: bool
  UseCexCache :: bool
  UseBranchCache :: bool
  UseIndependentSolver :: bool
  chain_fuel :: nat
  chain_hash :: "width \<Rightarrow> int \<Rightarrow> 32 word"
  chain_plt :: "array \<Rightarrow> array \<Rightarrow> bool"
  chain_cex :: cex_config

definition pass_through :: "'s impl \<Rightarrow> ('x \<times> 's) impl" where
  "pass_through S =
     \<lparr>computeTruth = (\<lambda>q xs. lift_secondary (fst xs) (computeTruth S q (snd xs))),
      computeValidity = (\<lambda>q xs. lift_secondary (fst xs) (computeValidity S q (snd xs))),
      computeValue = (\<lambda>q xs. lift_secondary (fst xs) (computeValue S q (snd xs))),
      computeInitialValues = (\<lambda>q objects xs.
        lift_secondary (fst xs) (computeInitialValues S q objects (snd xs)))\<rparr>"

definition constructSolverChain :: "chain_config \<Rightarrow> 's impl \<Rightarrow> 's cex caching impl" where
  "constructSolverChain cf core =
     (let s1 = (if UseAssignmentValidatingSolver cf then AssignmentValidatingSolver (chain_fuel cf) core
                else core);
          s2 = (if UseCexCache cf then CexCachingSolver (chain_cex cf) s1 else pass_through s1);
          s3 = (if UseBranchCache cf then CachingSolver (chain_hash cf) (chain_plt cf) s2
                else pass_through s2)
      in if UseIndependentSolver cf then IndependentSolver (chain_fuel cf) (chain_plt cf) s3 else s3)"

definition chain_ok :: "chain_config \<Rightarrow> ('s \<Rightarrow> bool) \<Rightarrow> 's cex caching \<Rightarrow> bool" where
  "chain_ok cf ok = caching_ok (cex_ok (chain_cex cf) ok)"

definition chain_start :: "'s \<Rightarrow> 's cex caching" where
  "chain_start s = ([], (cex_start, s))"

definition chain_mode :: "chain_config \<Rightarrow> mode \<Rightarrow> mode" where
  "chain_mode cf m = (if UseCexCache cf then MayAbort else m)"

lemma pass_through_contract:
  assumes S: "solver_impl S ok m"
  shows "solver_impl (pass_through S) (\<lambda>(x, s). okx x \<and> ok s) m"
proof
  fix xs q
  assume "(\<lambda>(x, s). okx x \<and> ok s) xs"
  then obtain x s where xs: "xs = (x, s)" "okx x" "ok s" by (cases xs) auto
  note lift = answers_lift_secondary[where okp = okx and ok = ok, OF _ xs(2)]
  show "bool_query q \<Longrightarrow> answers m (\<lambda>(x, s). okx x \<and> ok s) (\<lambda>b. b = valid q)
      (computeTruth (pass_through S) q xs)"
    using lift[OF solver_impl.truth[OF S xs(3)]] by (simp add: pass_through_def xs(1))
  show "bool_query q \<Longrightarrow> answers m (\<lambda>(x, s). okx x \<and> ok s) (\<lambda>v. v = validity_of q)
      (computeValidity (pass_through S) q xs)"
    using lift[OF solver_impl.validity[OF S xs(3)]] by (simp add: pass_through_def xs(1))
  show "wf_query q \<Longrightarrow> answers m (\<lambda>(x, s). okx x \<and> ok s)
      (\<lambda>e. \<exists>v \<in> values_of q. e = Constant (getWidth (q_expr q)) v) (computeValue (pass_through S) q xs)"
    using lift[OF solver_impl.val[OF S xs(3)]] by (simp add: pass_through_def xs(1))
qed

lemma pass_through_initial:
  assumes S: "initial_impl S ok m"
  shows "initial_impl (pass_through S) (\<lambda>(x, s). okx x \<and> ok s) m"
proof
  fix xs q objects
  assume "(\<lambda>(x, s). okx x \<and> ok s) xs" and q: "bool_form q" "\<forall>a \<in> set objects. wf_array a"
  then obtain x s where xs: "xs = (x, s)" "okx x" "ok s" by (cases xs) auto
  show "answers m (\<lambda>(x, s). okx x \<and> ok s)
      (\<lambda>r. case r of None \<Rightarrow> valid q | Some values \<Rightarrow> counterexample q objects values)
      (computeInitialValues (pass_through S) q objects xs)"
    using answers_lift_secondary[where okp = okx, OF initial_impl.initial[OF S xs(3) q] xs(2)]
    by (simp add: pass_through_def xs(1))
qed

lemma initial_weaken: "initial_impl S ok m \<Longrightarrow> initial_impl S ok MayAbort"
  unfolding initial_impl_def using answers_weaken by blast

lemma chain_contract:
  assumes core: "solver_impl core ok m" "initial_impl core ok m"
    and lt: "strict_order (cex_lt (chain_cex cf))"
  shows "solver_impl (constructSolverChain cf core) (chain_ok cf ok) (chain_mode cf m)"
    "initial_impl (constructSolverChain cf core) (chain_ok cf ok) MayAbort"
proof -
  define s1 where "s1 = (if UseAssignmentValidatingSolver cf
    then AssignmentValidatingSolver (chain_fuel cf) core else core)"
  define s2 where "s2 = (if UseCexCache cf then CexCachingSolver (chain_cex cf) s1 else pass_through s1)"
  define s3 where "s3 = (if UseBranchCache cf then CachingSolver (chain_hash cf) (chain_plt cf) s2
    else pass_through s2)"
  have chain: "constructSolverChain cf core
      = (if UseIndependentSolver cf then IndependentSolver (chain_fuel cf) (chain_plt cf) s3 else s3)"
    by (simp add: constructSolverChain_def Let_def s1_def s2_def s3_def)
  have 1: "solver_impl s1 ok m" "initial_impl s1 ok MayAbort"
    using core avs_contract avs_initial initial_weaken by (auto simp: s1_def)
  have pass2: "(\<lambda>(x, s). cex_state_ok (chain_cex cf) x \<and> ok s) = cex_ok (chain_cex cf) ok"
    by (simp add: cex_ok_def)
  have 2: "solver_impl s2 (cex_ok (chain_cex cf) ok) (chain_mode cf m)"
    "initial_impl s2 (cex_ok (chain_cex cf) ok) MayAbort"
    using cex_contract[OF 1(2) lt] pass_through_contract[OF 1(1), of "cex_state_ok (chain_cex cf)"]
      pass_through_initial[OF 1(2), of "cex_state_ok (chain_cex cf)"]
    by (auto simp: s2_def chain_mode_def pass2)
  have pass3: "(\<lambda>(x, s). cache_ok x \<and> cex_ok (chain_cex cf) ok s) = chain_ok cf ok"
    by (simp add: chain_ok_def caching_ok_def)
  have 3: "solver_impl s3 (chain_ok cf ok) (chain_mode cf m)" "initial_impl s3 (chain_ok cf ok) MayAbort"
    using solver_impl.caching_contract[OF 2(1)] initial_impl.caching_initial[OF 2(2)]
      pass_through_contract[OF 2(1), of cache_ok] pass_through_initial[OF 2(2), of cache_ok]
    by (auto simp: s3_def pass3 chain_ok_def)
  show "solver_impl (constructSolverChain cf core) (chain_ok cf ok) (chain_mode cf m)"
    "initial_impl (constructSolverChain cf core) (chain_ok cf ok) MayAbort"
    using 3 solver_impl.independent_contract[OF 3(1)] initial_impl.independent_initial[OF 3(2)]
    by (auto simp: chain)
qed

lemma chain_start_ok: "ok s \<Longrightarrow> chain_ok cf ok (chain_start s)"
  by (simp add: chain_ok_def chain_start_def caching_ok_def cache_ok_def cex_ok_def cex_start_ok)

end
