(* ===== verification/ExampleSolver.thy ===== *)
theory ExampleSolver
  imports SolverChain Examples
begin

text \<open>
  A core solver for the witnesses, which answers every query as its meaning says, and queries
  about the array of \<open>Examples\<close>. The solvers that the code builds on (STP, Z3) are outside of the
  repository; this one shows that the contract the other theories ask of them can be met.
\<close>

section \<open>A core solver\<close>

definition ideal_initial :: "query \<Rightarrow> array list \<Rightarrow> int list list option" where
  "ideal_initial q arrays =
     (if valid q then None else Some (SOME vs. counterexample q arrays vs))"

definition ideal_impl :: "unit impl" where
  "ideal_impl =
     \<lparr>computeTruth = (\<lambda>q s. return_call (valid q) s),
      computeValidity = (\<lambda>q s. return_call (validity_of q) s),
      computeValue = (\<lambda>q s. return_call
        (Constant (getWidth (q_expr q)) (SOME v. v \<in> values_of q)) s),
      computeInitialValues = (\<lambda>q arrays s. return_call (ideal_initial q arrays) s)\<rparr>"

lemma counterexample_exists:
  assumes "bool_form q" "\<not> valid q"
  shows "\<exists>vs. counterexample q arrays vs"
proof -
  obtain \<rho> where \<rho>: "wf_model \<rho>" "sat \<rho> (q_constraints q)" "eval \<rho> (q_expr q) \<noteq> 1"
    using assms(2) by (auto simp: valid_iff values_of_def)
  have "in_width 1 (eval \<rho> (q_expr q))"
    using eval_in_width[OF wf_model_env[OF \<rho>(1)], of "q_expr q"] assms(1) by (simp add: bool_form_def)
  with \<rho>(3) have "eval \<rho> (q_expr q) = 0" by (auto simp: in_width_bool)
  moreover have "has_bytes \<rho> arrays (map (\<lambda>a. map (\<lambda>j. \<rho> a (int j)) [0..<arr_size a]) arrays)"
    by (auto simp: has_bytes_def list_all2_conv_all_nth)
  ultimately show ?thesis using \<rho>(1,2) by (auto simp: counterexample_def)
qed

interpretation ideal: solver_impl ideal_impl "\<lambda>_. True" MustAnswer
proof
  fix q and s :: unit
  show "answers MustAnswer (\<lambda>_. True) (\<lambda>b. b = valid q) (computeTruth ideal_impl q s)"
    "answers MustAnswer (\<lambda>_. True) (\<lambda>v. v = validity_of q) (computeValidity ideal_impl q s)"
    by (simp_all add: ideal_impl_def)
  assume "wf_query q"
  then have "(SOME v. v \<in> values_of q) \<in> values_of q" using values_of_nonempty by (simp add: some_in_eq)
  then show "answers MustAnswer (\<lambda>_. True)
      (\<lambda>e. \<exists>v \<in> values_of q. e = Constant (getWidth (q_expr q)) v) (computeValue ideal_impl q s)"
    by (auto simp: ideal_impl_def)
qed

interpretation ideal: initial_impl ideal_impl "\<lambda>_. True" MustAnswer
proof
  fix q arrays and s :: unit
  assume "bool_form q"
  then show "answers MustAnswer (\<lambda>_. True)
      (\<lambda>r. case r of None \<Rightarrow> valid q | Some vss \<Rightarrow> counterexample q arrays vss)
      (computeInitialValues ideal_impl q arrays s)"
    using someI_ex[OF counterexample_exists] by (auto simp: ideal_impl_def ideal_initial_def)
qed

section \<open>Queries\<close>

definition ex_chain :: chain_config where
  "ex_chain = \<lparr>UseAssignmentValidatingSolver = True, UseCexCache = False, UseBranchCache = True,
     UseIndependentSolver = True, chain_fuel = 100, chain_hash = ex_hv, chain_plt = ex_plt,
     chain_cex = \<lparr>cex_fuel = 100, cex_lt = expr_lt ex_hv ex_plt, cex_order = (\<lambda>_ _. True),
       DebugCexCacheCheckBinding = False, CexCacheTryAll = False, CexCacheSuperSet = False,
       CexCacheExperimental = False\<rparr>\<rparr>"

text \<open>Under the constraint \<open>x[0] < 10\<close>: is \<open>x[0] < n\<close>, and what is \<open>x[0]\<close>?\<close>

definition ex_query :: "int \<Rightarrow> query" where
  "ex_query n = \<lparr>q_constraints = [ex_cond], q_expr = Binary Ult (ex_byte 0) (Constant 8 n)\<rparr>"

definition ex_value_query :: query where
  "ex_value_query = \<lparr>q_constraints = [ex_cond], q_expr = ex_byte 0\<rparr>"

definition ex_model :: "int \<Rightarrow> env" where
  "ex_model v = (\<lambda>a j. if 0 \<le> j \<and> j < int (arr_size a) then take_bit (arr_range a) v else 0)"

lemma ex_model_wf: "wf_model (ex_model v)"
  by (auto simp: wf_model_def wf_env_def ex_model_def)

lemma eval_ex_byte: "eval \<rho> (ex_byte 0) = \<rho> ex_array 0"
  by (simp add: ex_byte_def initial_value_def isConstantArray_def isSymbolicArray_def ex_array_def)

lemma ex_model_value: "0 \<le> v \<Longrightarrow> v < 256 \<Longrightarrow> eval (ex_model v) (ex_byte 0) = v"
  by (simp add: eval_ex_byte ex_model_def ex_array_def take_bit_eq_mod)

lemma eval_ex_ult: "eval \<rho> (Binary Ult (ex_byte 0) (Constant 8 n)) = of_bool (eval \<rho> (ex_byte 0) < n)"
  by simp

lemma ex_values: "values_of ex_value_query = {0..<10}"
proof (intro equalityI subsetI)
  fix v assume "v \<in> values_of ex_value_query"
  then obtain \<rho> where "wf_model \<rho>" "sat \<rho> [ex_cond]" "v = eval \<rho> (ex_byte 0)"
    by (elim values_ofE) (simp add: ex_value_query_def)
  moreover have "in_width 8 (eval \<rho> (ex_byte 0))"
    using eval_in_width[OF wf_model_env[OF \<open>wf_model \<rho>\<close>] ex_byte_wf(1)[of 0]] by (simp add: ex_byte_wf)
  ultimately show "v \<in> {0..<10}" by (auto simp: ex_cond_def in_width_def)
next
  fix v :: int assume "v \<in> {0..<10}"
  then have v: "eval (ex_model v) (ex_byte 0) = v" "v < 10" using ex_model_value[of v] by auto
  then have "eval (ex_model v) (q_expr ex_value_query) \<in> values_of ex_value_query"
    by (intro values_ofI[OF ex_model_wf]) (simp_all add: ex_value_query_def ex_cond_def)
  with v show "v \<in> values_of ex_value_query" by (simp add: ex_value_query_def)
qed

lemma ex_value_query_wf: "wf_query ex_value_query" "getWidth (q_expr ex_value_query) = 8"
proof -
  have "sat (ex_model 0) [ex_cond]" using ex_model_value[of 0] by (simp add: ex_cond_def)
  then show "wf_query ex_value_query"
    using ex_cond_wf ex_byte_wf[of 0] ex_model_wf
    by (auto simp: wf_query_def ex_value_query_def wf_constraints_def feasible_def)
qed (simp add: ex_value_query_def ex_byte_wf)

lemma ex_query_wf:
  assumes "0 \<le> n" "n < 256"
  shows "bool_query (ex_query n)"
proof -
  have "ex_query n = withExpr ex_value_query (Binary Ult (ex_byte 0) (Constant 8 n))"
    by (simp add: ex_query_def ex_value_query_def withExpr_def)
  moreover have "bool_query \<dots>"
    by (rule bool_query_withExpr[OF ex_value_query_wf(1)])
      (use assms ex_byte_wf[of 0] in \<open>auto simp: in_width_def\<close>)
  ultimately show ?thesis by simp
qed

lemma ex_query_values: "values_of (ex_query n) = (\<lambda>v. of_bool (v < n)) ` {0..<10}"
proof -
  have "ex_query n = withExpr ex_value_query (Binary Ult (ex_byte 0) (Constant 8 n))"
    by (simp add: ex_query_def ex_value_query_def withExpr_def)
  moreover have "values_of \<dots> = (\<lambda>v. of_bool (v < n)) ` values_of ex_value_query"
    by (rule values_of_map) (simp add: ex_value_query_def)
  ultimately show ?thesis by (simp add: ex_values)
qed

lemma ex_query_validity: "validity_of (ex_query 20) = SolverTrue" "validity_of (ex_query 5) = SolverUnknown"
proof -
  show "validity_of (ex_query 20) = SolverTrue"
    by (auto simp: validity_of_def valid_iff ex_query_values)
  have "0 \<in> values_of (ex_query 5)" "1 \<in> values_of (ex_query 5)"
    unfolding ex_query_values by (rule image_eqI[where x = 7], simp, simp) (rule image_eqI[where x = 2], simp, simp)
  then show "validity_of (ex_query 5) = SolverUnknown"
    unfolding validity_of_def valid_iff refuted_iff by (metis zero_neq_one)
qed

end
