(* ===== verification/TimingSolver.thy ===== *)
theory TimingSolver
  imports Solver ExecState
begin

text \<open>
  The executor's view of the solver: \<open>TimingSolver\<close> (\<open>klee/lib/Core/TimingSolver.cpp\<close>),
  which asks about an expression under the path condition of a state, simplified by it before when
  \<open>simplifyExprs\<close> is set. Timers and the cost of queries are left out.
\<close>

section \<open>The operations\<close>

record 's timing =
  ts_solver :: "'s impl"
  simplifyExprs :: bool
  ts_fuel :: nat

definition on_path :: "exec_state \<Rightarrow> expr \<Rightarrow> query" where
  "on_path st e = \<lparr>q_constraints = constraints st, q_expr = e\<rparr>"

definition ts_call ::
    "(query \<Rightarrow> ('s, 'a) call) \<Rightarrow> 's timing \<Rightarrow> exec_state \<Rightarrow> expr \<Rightarrow> ('s, 'a) call" where
  "ts_call f T st e s =
     bind_res (if simplifyExprs T then simplifyExpr (ts_fuel T) (constraints st) e else Inr e)
       (\<lambda>e'. f (on_path st e') s)"

definition ts_evaluate :: "'s timing \<Rightarrow> exec_state \<Rightarrow> expr \<Rightarrow> ('s, validity) call" where
  "ts_evaluate T st e s =
     (if is_Constant e then return_call (if isTrue e then SolverTrue else SolverFalse) s
      else ts_call (solver_evaluate (ts_solver T)) T st e s)"

definition ts_mustBeTrue :: "'s timing \<Rightarrow> exec_state \<Rightarrow> expr \<Rightarrow> ('s, bool) call" where
  "ts_mustBeTrue T st e s =
     (if is_Constant e then return_call (isTrue e) s
      else ts_call (mustBeTrue (ts_solver T)) T st e s)"

definition ts_mustBeFalse :: "'s timing \<Rightarrow> exec_state \<Rightarrow> expr \<Rightarrow> ('s, bool) call" where
  "ts_mustBeFalse T st e s = ts_mustBeTrue T st (createIsZero e) s"

definition ts_mayBeTrue :: "'s timing \<Rightarrow> exec_state \<Rightarrow> expr \<Rightarrow> ('s, bool) call" where
  "ts_mayBeTrue T st e s = on_success (ts_mustBeFalse T st e s) (\<lambda>res. return_call (\<not> res))"

definition ts_mayBeFalse :: "'s timing \<Rightarrow> exec_state \<Rightarrow> expr \<Rightarrow> ('s, bool) call" where
  "ts_mayBeFalse T st e s = on_success (ts_mustBeTrue T st e s) (\<lambda>res. return_call (\<not> res))"

definition ts_getValue :: "'s timing \<Rightarrow> exec_state \<Rightarrow> expr \<Rightarrow> ('s, expr) call" where
  "ts_getValue T st e s =
     (if is_Constant e then return_call e s else ts_call (solver_getValue (ts_solver T)) T st e s)"

definition ts_getInitialValues ::
    "'s timing \<Rightarrow> exec_state \<Rightarrow> array list \<Rightarrow> ('s, int list list) call" where
  "ts_getInitialValues T st arrays s =
     (if arrays = [] then return_call [] s
      else getInitialValues (ts_solver T) (on_path st (Constant 1 0)) arrays s)"

definition ts_getRange :: "'s timing \<Rightarrow> exec_state \<Rightarrow> expr \<Rightarrow> 's \<Rightarrow> ((expr \<times> expr) \<times> 's) result" where
  "ts_getRange T st e s = getRange (ts_solver T) (on_path st e) s"

section \<open>What the answers mean for a live state\<close>

text \<open>
  The contents that drive a state, and the values an expression takes on its path. The
  simplification runs on fuel, so with it an answer may be missing.
\<close>

definition drives :: "env \<Rightarrow> exec_state \<Rightarrow> bool" where
  "drives \<rho> st \<longleftrightarrow> wf_model \<rho> \<and> sat \<rho> (constraints st)"

definition live :: "exec_state \<Rightarrow> bool" where
  "live st \<longleftrightarrow> wf_constraints (constraints st) \<and> (\<exists>\<rho>. drives \<rho> st)"

definition takes :: "exec_state \<Rightarrow> expr \<Rightarrow> int set" where
  "takes st e = {eval \<rho> e | \<rho>. drives \<rho> st}"

definition ts_mode :: "'s timing \<Rightarrow> mode \<Rightarrow> mode" where
  "ts_mode T m = (if simplifyExprs T then MayAbort else m)"

lemma on_path_simps [simp]: "q_constraints (on_path st e) = constraints st" "q_expr (on_path st e) = e"
  by (simp_all add: on_path_def)

lemma drives_env [intro]: "drives \<rho> st \<Longrightarrow> wf_env \<rho>"
  by (simp add: drives_def wf_model_env)

lemma takesI: "drives \<rho> st \<Longrightarrow> eval \<rho> e \<in> takes st e"
  by (auto simp: takes_def)

lemma takesE:
  assumes "v \<in> takes st e"
  obtains \<rho> where "drives \<rho> st" "v = eval \<rho> e"
  using assms by (auto simp: takes_def)

lemma values_of_on_path: "values_of (on_path st e) = takes st e"
  by (auto simp: values_of_def takes_def drives_def)

lemma wf_query_on_path: "live st \<Longrightarrow> wf_expr e \<Longrightarrow> wf_query (on_path st e)"
  by (auto simp: live_def wf_query_def feasible_def drives_def)

lemma takes_nonempty: "live st \<Longrightarrow> takes st e \<noteq> {}"
  by (auto simp: live_def takes_def)

lemma takes_in_width: "wf_expr e \<Longrightarrow> v \<in> takes st e \<Longrightarrow> in_width (getWidth e) v"
  by (auto simp: takes_def intro: eval_in_width)

lemma takes_cong: "(\<And>\<rho>. drives \<rho> st \<Longrightarrow> eval \<rho> e' = eval \<rho> e) \<Longrightarrow> takes st e' = takes st e"
  by (force simp: takes_def)

lemma simplified_takes:
  assumes st: "live st" and e: "wf_expr e" and r: "simplifyExpr n (constraints st) e = Inr e'"
  shows "wf_expr e'" "getWidth e' = getWidth e" "takes st e' = takes st e"
proof -
  have "sem_eq_on (\<lambda>\<rho>. sat \<rho> (constraints st)) e' e"
    using st r by (intro simplifyExpr_ok) (simp_all add: live_def)
  note eq = sem_eq_onD[OF this e]
  show "wf_expr e'" "getWidth e' = getWidth e" using eq by simp_all
  show "takes st e' = takes st e"
    by (rule takes_cong) (use eq(3) in \<open>auto simp: drives_def\<close>)
qed

lemma bool_takes: "wf_expr e \<Longrightarrow> getWidth e = 1 \<Longrightarrow> takes st e \<subseteq> {0, 1}"
  using takes_in_width[of e] by (auto simp: in_width_bool)

lemma takes_zero: "wf_expr e \<Longrightarrow> takes st (createIsZero e) = (\<lambda>v. of_bool (v = 0)) ` takes st e"
  by (force simp: takes_def createIsZero_facts drives_env)

section \<open>The contract, for the executor\<close>

locale timing_solver = solver_impl "ts_solver T" ok m
  for T :: "'s timing" and ok :: "'s \<Rightarrow> bool" and m :: mode
begin

abbreviation am :: mode where
  "am \<equiv> ts_mode T m"

lemma ts_call_ok:
  assumes st: "live st" and e: "wf_expr e"
    and f: "\<And>e'. wf_expr e' \<Longrightarrow> getWidth e' = getWidth e \<Longrightarrow> takes st e' = takes st e
      \<Longrightarrow> answers m ok Q (f (on_path st e') s)"
  shows "answers am ok Q (ts_call f T st e s)"
proof (cases "simplifyExprs T")
  case True
  show ?thesis
  proof (cases "simplifyExpr (ts_fuel T) (constraints st) e")
    case (Inr e')
    from f[OF simplified_takes[OF st e Inr]] have "answers MayAbort ok Q (f (on_path st e') s)"
      by (auto simp: answers_def split: sum.splits option.splits)
    with True Inr show ?thesis by (simp add: ts_call_def ts_mode_def)
  qed (use True in \<open>simp add: ts_call_def ts_mode_def answers_def\<close>)
next
  case False
  with f[OF e refl refl] show ?thesis by (simp add: ts_call_def ts_mode_def)
qed

lemma constant_takes:
  assumes "live st" "wf_expr e" "getWidth e = 1" "is_Constant e"
  shows "takes st e = {of_bool (isTrue e)}"
proof -
  obtain v where v: "e = Constant 1 v" "v = 0 \<or> v = 1"
    using assms by (cases e) (auto simp: in_width_bool)
  have "takes st e = {v}" using takes_nonempty[OF assms(1)] v(1) by (auto simp: takes_def)
  with v show ?thesis by auto
qed

lemma ts_mustBeTrue_ok:
  assumes s: "ok s" and st: "live st" and e: "wf_expr e" "getWidth e = 1"
  shows "answers am ok (\<lambda>b. b \<longleftrightarrow> takes st e \<subseteq> {1}) (ts_mustBeTrue T st e s)"
proof (cases "is_Constant e")
  case True
  with constant_takes[OF st e True] s show ?thesis by (simp add: ts_mustBeTrue_def)
next
  case False
  have "answers am ok (\<lambda>b. b \<longleftrightarrow> takes st e \<subseteq> {1}) (ts_call (mustBeTrue (ts_solver T)) T st e s)"
  proof (rule ts_call_ok[OF st e(1)])
    fix e' assume e': "wf_expr e'" "getWidth e' = getWidth e" "takes st e' = takes st e"
    then have "bool_query (on_path st e')"
      using wf_query_on_path[OF st e'(1)] e by (simp add: bool_query_def)
    from mustBeTrue_ok[OF s this] e'(3)
    show "answers m ok (\<lambda>b. b \<longleftrightarrow> takes st e \<subseteq> {1}) (mustBeTrue (ts_solver T) (on_path st e') s)"
      by (simp add: valid_def values_of_on_path)
  qed
  with False show ?thesis by (simp add: ts_mustBeTrue_def)
qed

lemma ts_mayBeTrue_ok:
  assumes s: "ok s" and st: "live st" and e: "wf_expr e" "getWidth e = 1"
  shows "answers am ok (\<lambda>b. b \<longleftrightarrow> 1 \<in> takes st e) (ts_mayBeTrue T st e s)"
  unfolding ts_mayBeTrue_def ts_mustBeFalse_def
proof (rule answers_on_success[OF ts_mustBeTrue_ok[OF s st createIsZero_facts(1,2)[OF e(1)]]])
  fix b s' assume b: "b \<longleftrightarrow> takes st (createIsZero e) \<subseteq> {1}" and s': "ok s'"
  have "takes st (createIsZero e) \<subseteq> {1} \<longleftrightarrow> 1 \<notin> takes st e"
    using bool_takes[OF e, of st] by (auto simp: takes_zero[OF e(1)])
  with b s' show "answers am ok (\<lambda>b. b \<longleftrightarrow> 1 \<in> takes st e) (return_call (\<not> b) s')" by simp
qed

lemma ts_evaluate_ok:
  assumes s: "ok s" and st: "live st" and e: "wf_expr e" "getWidth e = 1"
  shows "answers am ok (\<lambda>v. v = (if takes st e \<subseteq> {1} then SolverTrue
      else if takes st e \<subseteq> {0} then SolverFalse else SolverUnknown)) (ts_evaluate T st e s)"
    (is "answers _ _ ?P _")
proof (cases "is_Constant e")
  case True
  with constant_takes[OF st e True] s show ?thesis by (simp add: ts_evaluate_def)
next
  case False
  have "answers am ok ?P (ts_call (solver_evaluate (ts_solver T)) T st e s)"
  proof (rule ts_call_ok[OF st e(1)])
    fix e' assume e': "wf_expr e'" "getWidth e' = getWidth e" "takes st e' = takes st e"
    then have "bool_query (on_path st e')"
      using wf_query_on_path[OF st e'(1)] e by (simp add: bool_query_def)
    from solver_evaluate_ok[OF s this]
    show "answers m ok ?P (solver_evaluate (ts_solver T) (on_path st e') s)"
      unfolding valid_def refuted_def validity_of_def values_of_on_path e'(3) .
  qed
  with False show ?thesis by (simp add: ts_evaluate_def)
qed

lemma ts_getValue_ok:
  assumes s: "ok s" and st: "live st" and e: "wf_expr e"
  shows "answers am ok (\<lambda>c. \<exists>v \<in> takes st e. c = Constant (getWidth e) v) (ts_getValue T st e s)"
    (is "answers _ _ ?P _")
proof (cases "is_Constant e")
  case True
  then obtain w v where v: "e = Constant w v" by (cases e) auto
  then have "v \<in> takes st e" using takes_nonempty[OF st, of e] by (auto simp: takes_def)
  with v s show ?thesis by (simp add: ts_getValue_def)
next
  case False
  have "answers am ok ?P (ts_call (solver_getValue (ts_solver T)) T st e s)"
  proof (rule ts_call_ok[OF st e])
    fix e' assume e': "wf_expr e'" "getWidth e' = getWidth e" "takes st e' = takes st e"
    from getValue_ok[OF s wf_query_on_path[OF st e'(1)]] e'(2,3)
    show "answers m ok ?P (solver_getValue (ts_solver T) (on_path st e') s)"
      by (simp add: values_of_on_path)
  qed
  with False show ?thesis by (simp add: ts_getValue_def)
qed

end

text \<open>Over the dummy solver nothing is ever known.\<close>

interpretation dummy_timing:
  timing_solver "\<lparr>ts_solver = DummySolver, simplifyExprs = True, ts_fuel = n\<rparr>" "\<lambda>_. True" MayFail
  by (simp add: timing_solver_def dummy.solver_impl_axioms)

end
