(* ===== verification/Resolve.thy ===== *)
theory Resolve
  imports TimingSolver
begin

text \<open>
  Resolution of symbolic addresses (\<open>AddressSpace::resolveOne\<close> with a solver,
  \<open>AddressSpace::checkPointerInObject\<close> and \<open>AddressSpace::resolve\<close> in
  \<open>klee/lib/Core/AddressSpace.cpp\<close>): from an example value of the address the search walks
  over the objects below it and then over those above it, and stops where the path condition keeps
  the address away from the rest.
\<close>

section \<open>The searches\<close>

text \<open>
  What the iterator of \<open>upper_bound\<close> passes on its way back to \<open>begin\<close>, and on its way to
  \<open>end\<close>.
\<close>

definition objects_below :: "nat \<Rightarrow> address_space \<Rightarrow> object_pair list" where
  "objects_below example as = rev (filter (\<lambda>p. address_of p \<le> example) (inorder (objects as)))"

definition objects_above :: "nat \<Rightarrow> address_space \<Rightarrow> object_pair list" where
  "objects_above example as = filter (\<lambda>p. example < address_of p) (inorder (objects as))"

text \<open>\<open>solver->getValue\<close> of the address and \<open>getZExtValue\<close> of its answer.\<close>

definition example_address :: "'s timing \<Rightarrow> exec_state \<Rightarrow> expr \<Rightarrow> ('s, nat) call" where
  "example_address T st address s =
     on_success (ts_getValue T st address s) (\<lambda>cex s'.
       bind_res (getZExtValue 64 cex) (\<lambda>example. return_call (nat example) s'))"

fun resolve_back ::
    "'s timing \<Rightarrow> width \<Rightarrow> exec_state \<Rightarrow> expr \<Rightarrow> object_pair list \<Rightarrow> ('s, object_pair option) call" where
  "resolve_back T pw st address [] s = return_call None s"
| "resolve_back T pw st address (oi # rest) s =
     on_success (ts_mayBeTrue T st (getBoundsCheckPointer pw (fst oi) address) s) (\<lambda>mayBeTrue s1.
       if mayBeTrue then return_call (Some oi) s1
       else on_success (ts_mustBeTrue T st (create_Uge address (getBaseExpr pw (fst oi))) s1) (\<lambda>mustBeTrue s2.
         if mustBeTrue then return_call None s2 else resolve_back T pw st address rest s2))"

fun resolve_forward ::
    "'s timing \<Rightarrow> width \<Rightarrow> exec_state \<Rightarrow> expr \<Rightarrow> object_pair list \<Rightarrow> ('s, object_pair option) call" where
  "resolve_forward T pw st address [] s = return_call None s"
| "resolve_forward T pw st address (oi # rest) s =
     on_success (ts_mustBeTrue T st (create_Ult address (getBaseExpr pw (fst oi))) s) (\<lambda>mustBeTrue s1.
       if mustBeTrue then return_call None s1
       else on_success (ts_mayBeTrue T st (getBoundsCheckPointer pw (fst oi) address) s1) (\<lambda>mayBeTrue s2.
         if mayBeTrue then return_call (Some oi) s2 else resolve_forward T pw st address rest s2))"

definition search_both ::
    "'s timing \<Rightarrow> width \<Rightarrow> exec_state \<Rightarrow> address_space \<Rightarrow> expr \<Rightarrow> nat \<Rightarrow> ('s, object_pair option) call" where
  "search_both T pw st as address example s =
     on_success (resolve_back T pw st address (objects_below example as) s) (\<lambda>found s1.
       if found \<noteq> None then return_call found s1
       else resolve_forward T pw st address (objects_above example as) s1)"

text \<open>
  \<open>None\<close> when the solver fails, else what \<open>success\<close> and \<open>result\<close> say.
\<close>

definition resolveOne_solver ::
    "'s timing \<Rightarrow> width \<Rightarrow> exec_state \<Rightarrow> address_space \<Rightarrow> expr \<Rightarrow> ('s, object_pair option) call" where
  "resolveOne_solver T pw st as address s =
     (if is_Constant address
      then bind_res (getZExtValue 64 address) (\<lambda>a. return_call (resolveOne (nat a) as) s)
      else on_success (example_address T st address s) (\<lambda>example s1.
        case lookup_previous address_of example (objects as) of
          Some (mo, os) \<Rightarrow>
            if example - mo_address mo < mo_size mo then return_call (Some (mo, os)) s1
            else search_both T pw st as address example s1
        | None \<Rightarrow> search_both T pw st as address example s1))"

text \<open>
  \<open>checkPointerInObject\<close> answers 1 when the solver fails or enough objects are found, 0 when
  the first object found is the only one, 2 to go on.
\<close>

definition checkPointerInObject ::
    "'s timing \<Rightarrow> width \<Rightarrow> nat \<Rightarrow> exec_state \<Rightarrow> expr \<Rightarrow> object_pair \<Rightarrow> object_pair list
     \<Rightarrow> 's \<Rightarrow> ((nat \<times> object_pair list) \<times> 's) result" where
  "checkPointerInObject T pw maxResolutions st p op rl s =
     (let inBounds = getBoundsCheckPointer pw (fst op) p in
      bind_res (ts_mayBeTrue T st inBounds s) (\<lambda>(mayBeTrue, s1).
        case mayBeTrue of
          None \<Rightarrow> Inr ((1, rl), s1)
        | Some False \<Rightarrow> Inr ((2, rl), s1)
        | Some True \<Rightarrow>
            let rl' = rl @ [op]; size = length rl' in
            if size = 1
            then map_res (\<lambda>(mustBeTrue, s2).
              ((case mustBeTrue of None \<Rightarrow> 1 | Some True \<Rightarrow> 0 | Some False \<Rightarrow> 2, rl'), s2))
              (ts_mustBeTrue T st inBounds s1)
            else Inr ((if size = maxResolutions then 1 else 2, rl'), s1)))"

text \<open>
  The two loops of \<open>resolve\<close>. The result is \<open>Some incomplete\<close> where the code returns, \<open>None\<close>
  where the loop is left and the search goes on. \<open>late\<close> says at which objects the time is up.
\<close>

fun collect_back ::
    "'s timing \<Rightarrow> width \<Rightarrow> nat \<Rightarrow> (memory_object \<Rightarrow> bool) \<Rightarrow> exec_state \<Rightarrow> expr \<Rightarrow> object_pair list
     \<Rightarrow> object_pair list \<Rightarrow> 's \<Rightarrow> ((bool option \<times> object_pair list) \<times> 's) result" where
  "collect_back T pw mx late st p [] rl s = Inr ((None, rl), s)"
| "collect_back T pw mx late st p (oi # rest) rl s =
     (if late (fst oi) then Inr ((Some True, rl), s)
      else bind_res (checkPointerInObject T pw mx st p oi rl s) (\<lambda>((incomplete, rl1), s1).
        if incomplete \<noteq> 2 then Inr ((Some (incomplete \<noteq> 0), rl1), s1)
        else bind_res (ts_mustBeTrue T st (create_Uge p (getBaseExpr pw (fst oi))) s1) (\<lambda>(mustBeTrue, s2).
          case mustBeTrue of
            None \<Rightarrow> Inr ((Some True, rl1), s2)
          | Some True \<Rightarrow> Inr ((None, rl1), s2)
          | Some False \<Rightarrow> collect_back T pw mx late st p rest rl1 s2)))"

fun collect_forward ::
    "'s timing \<Rightarrow> width \<Rightarrow> nat \<Rightarrow> (memory_object \<Rightarrow> bool) \<Rightarrow> exec_state \<Rightarrow> expr \<Rightarrow> object_pair list
     \<Rightarrow> object_pair list \<Rightarrow> 's \<Rightarrow> ((bool \<times> object_pair list) \<times> 's) result" where
  "collect_forward T pw mx late st p [] rl s = Inr ((False, rl), s)"
| "collect_forward T pw mx late st p (oi # rest) rl s =
     (if late (fst oi) then Inr ((True, rl), s)
      else bind_res (ts_mustBeTrue T st (create_Ult p (getBaseExpr pw (fst oi))) s) (\<lambda>(mustBeTrue, s1).
        case mustBeTrue of
          None \<Rightarrow> Inr ((True, rl), s1)
        | Some True \<Rightarrow> Inr ((False, rl), s1)
        | Some False \<Rightarrow>
            bind_res (checkPointerInObject T pw mx st p oi rl s1) (\<lambda>((incomplete, rl1), s2).
              if incomplete \<noteq> 2 then Inr ((incomplete \<noteq> 0, rl1), s2)
              else collect_forward T pw mx late st p rest rl1 s2)))"

definition resolve ::
    "'s timing \<Rightarrow> width \<Rightarrow> nat \<Rightarrow> (memory_object \<Rightarrow> bool) \<Rightarrow> exec_state \<Rightarrow> address_space \<Rightarrow> expr
     \<Rightarrow> 's \<Rightarrow> ((bool \<times> object_pair list) \<times> 's) result" where
  "resolve T pw maxResolutions late st as p s =
     (if is_Constant p
      then map_res (\<lambda>a. ((False, case resolveOne (nat a) as of None \<Rightarrow> [] | Some op \<Rightarrow> [op]), s))
        (getZExtValue 64 p)
      else bind_res (example_address T st p s) (\<lambda>(cex, s1).
        case cex of
          None \<Rightarrow> Inr ((True, []), s1)
        | Some example \<Rightarrow>
            bind_res (collect_back T pw maxResolutions late st p (objects_below example as) [] s1)
              (\<lambda>((done, rl), s2).
                case done of
                  Some incomplete \<Rightarrow> Inr ((incomplete, rl), s2)
                | None \<Rightarrow> collect_forward T pw maxResolutions late st p (objects_above example as) rl s2)))"

section \<open>What resolution promises\<close>

definition touches :: "int \<Rightarrow> memory_object \<Rightarrow> bool" where
  "touches v mo \<longleftrightarrow> int (mo_address mo) \<le> v
     \<and> (v < int (mo_address mo) + int (mo_size mo) \<or> mo_size mo = 0 \<and> v = int (mo_address mo))"

definition resolvable :: "width \<Rightarrow> address_space \<Rightarrow> bool" where
  "resolvable pw as \<longleftrightarrow> pw \<le> 64 \<and> space_ok as \<and> disjoint_objects as
     \<and> (\<forall>p \<in> objects_of as. fits pw (fst p))"

definition address_ok :: "width \<Rightarrow> exec_state \<Rightarrow> expr \<Rightarrow> bool" where
  "address_ok pw st p \<longleftrightarrow> live st \<and> wf_expr p \<and> getWidth p = pw"

text \<open>The path condition allows the address to lie in the object.\<close>

definition may_hit :: "exec_state \<Rightarrow> expr \<Rightarrow> object_pair \<Rightarrow> bool" where
  "may_hit st p op \<longleftrightarrow> (\<exists>v \<in> takes st p. touches v (fst op))"

lemma may_hitI: "v \<in> takes st p \<Longrightarrow> touches v (fst op) \<Longrightarrow> may_hit st p op"
  by (auto simp: may_hit_def)

lemma objects_below_sorted:
  "space_ok as \<Longrightarrow> sorted_wrt (\<lambda>p q. address_of q < address_of p) (objects_below a as)"
  by (simp add: objects_below_def tree_ok_def sorted_wrt_rev sorted_wrt_filter)

lemma objects_above_sorted: "space_ok as \<Longrightarrow> sorted_wrt (\<lambda>p q. address_of p < address_of q) (objects_above a as)"
  by (simp add: objects_above_def tree_ok_def sorted_wrt_filter)

lemma objects_split: "set (objects_below a as) \<union> set (objects_above a as) = objects_of as"
  by (auto simp: objects_below_def objects_above_def objects_of_def)

text \<open>An address above the start of an object, but outside of it, is in no object before it.\<close>

lemma not_touches_before:
  assumes "disjoint_objects as" "p \<in> objects_of as" "q \<in> objects_of as" "address_of q < address_of p"
    "int (address_of p) \<le> v"
  shows "\<not> touches v (fst q)"
proof -
  have "address_of q + mo_size (fst q) \<le> address_of p"
    using assms(1-4) unfolding disjoint_objects_def by blast
  with assms(4,5) show ?thesis by (auto simp: touches_def)
qed

lemma not_touches_after: "v < int (address_of p) \<Longrightarrow> address_of p \<le> address_of q \<Longrightarrow> \<not> touches v (fst q)"
  by (auto simp: touches_def)

lemma touches_unique:
  assumes "disjoint_objects as" "space_ok as" "p \<in> objects_of as" "q \<in> objects_of as"
    "touches v (fst p)" "touches v (fst q)"
  shows "p = q"
proof -
  have "\<not> address_of p < address_of q"
    using not_touches_before[OF assms(1,4,3)] assms(5,6) unfolding touches_def by blast
  moreover have "\<not> address_of q < address_of p"
    using not_touches_before[OF assms(1,3,4)] assms(5,6) unfolding touches_def by blast
  ultimately have "address_of p = address_of q" by simp
  moreover have "tree_lookup address_of (address_of r) (objects as) = Some r" if "r \<in> objects_of as" for r
    using tree_lookup_set[OF assms(2)] that by (simp add: objects_of_def)
  ultimately show ?thesis using assms(3,4) by (metis option.inject)
qed

text \<open>The expressions that the searches ask about.\<close>

lemma bounds_check_takes:
  assumes "address_ok pw st p" "fits pw (fst op)"
  shows "wf_expr (getBoundsCheckPointer pw (fst op) p)" "getWidth (getBoundsCheckPointer pw (fst op) p) = 1"
    "1 \<in> takes st (getBoundsCheckPointer pw (fst op) p) \<longleftrightarrow> may_hit st p op"
    "takes st (getBoundsCheckPointer pw (fst op) p) \<subseteq> {1} \<longleftrightarrow> (\<forall>v \<in> takes st p. touches v (fst op))"
proof -
  have p: "wf_expr p" "getWidth p = pw" using assms(1) by (simp_all add: address_ok_def)
  note off = getOffsetExpr_ok[OF assms(2) p]
  have eq: "wf_expr (Binary Eq (getOffsetExpr pw (fst op) p) (Constant pw 0))"
    using off fits_int[OF assms(2)] by simp
  have lt: "wf_expr (Binary Ult (getOffsetExpr pw (fst op) p) (getSizeExpr pw (fst op)))"
    using off fits_int[OF assms(2)] by (simp add: getSizeExpr_def in_width_def)
  show "wf_expr (getBoundsCheckPointer pw (fst op) p)" "getWidth (getBoundsCheckPointer pw (fst op) p) = 1"
    using sem_eqD(1,2)[OF create_Eq_sem_eq eq] sem_eqD(1,2)[OF create_Ult_sem_eq lt]
    by (auto simp: getBoundsCheckPointer_def getBoundsCheckOffset_def)
  have v: "eval \<rho> (getBoundsCheckPointer pw (fst op) p) = 1 \<longleftrightarrow> touches (eval \<rho> p) (fst op)" if "drives \<rho> st" for \<rho>
    using getBoundsCheckPointer_ok[OF assms(2) p drives_env[OF that]] by (simp add: touches_def)
  show "1 \<in> takes st (getBoundsCheckPointer pw (fst op) p) \<longleftrightarrow> may_hit st p op"
    using v by (fastforce simp: takes_def may_hit_def)
  show "takes st (getBoundsCheckPointer pw (fst op) p) \<subseteq> {1} \<longleftrightarrow> (\<forall>v \<in> takes st p. touches v (fst op))"
    using v by (fastforce simp: takes_def)
qed

lemma order_checks_take:
  assumes "address_ok pw st p" "fits pw mo"
  shows "wf_expr (create_Uge p (getBaseExpr pw mo))" "getWidth (create_Uge p (getBaseExpr pw mo)) = 1"
    "takes st (create_Uge p (getBaseExpr pw mo)) \<subseteq> {1} \<longleftrightarrow> (\<forall>v \<in> takes st p. int (mo_address mo) \<le> v)"
    "wf_expr (create_Ult p (getBaseExpr pw mo))" "getWidth (create_Ult p (getBaseExpr pw mo)) = 1"
    "takes st (create_Ult p (getBaseExpr pw mo)) \<subseteq> {1} \<longleftrightarrow> (\<forall>v \<in> takes st p. v < int (mo_address mo))"
proof -
  have p: "wf_expr p" "getWidth p = pw" using assms(1) by (simp_all add: address_ok_def)
  have base: "wf_expr (getBaseExpr pw mo)" "getWidth (getBaseExpr pw mo) = pw"
    "eval \<rho> (getBaseExpr pw mo) = int (mo_address mo)" for \<rho>
    using fits_int[OF assms(2)] by (simp_all add: getBaseExpr_def in_width_def)
  have wf: "wf_expr (Binary Uge p (getBaseExpr pw mo))" "wf_expr (Binary Ult p (getBaseExpr pw mo))"
    using p base by simp_all
  note uge = sem_eqD[OF create_swapped_sem_eq(2) wf(1)] and ult = sem_eqD[OF create_Ult_sem_eq wf(2)]
  show "wf_expr (create_Uge p (getBaseExpr pw mo))" "getWidth (create_Uge p (getBaseExpr pw mo)) = 1"
    "wf_expr (create_Ult p (getBaseExpr pw mo))" "getWidth (create_Ult p (getBaseExpr pw mo)) = 1"
    using uge(1,2) ult(1,2) by simp_all
  have v: "eval \<rho> (create_Uge p (getBaseExpr pw mo)) = 1 \<longleftrightarrow> int (mo_address mo) \<le> eval \<rho> p"
    "eval \<rho> (create_Ult p (getBaseExpr pw mo)) = 1 \<longleftrightarrow> eval \<rho> p < int (mo_address mo)"
    if "drives \<rho> st" for \<rho>
    using uge(3)[OF drives_env[OF that]] ult(3)[OF drives_env[OF that]] base(3) by simp_all
  show "takes st (create_Uge p (getBaseExpr pw mo)) \<subseteq> {1} \<longleftrightarrow> (\<forall>v \<in> takes st p. int (mo_address mo) \<le> v)"
    "takes st (create_Ult p (getBaseExpr pw mo)) \<subseteq> {1} \<longleftrightarrow> (\<forall>v \<in> takes st p. v < int (mo_address mo))"
    using v by (fastforce simp: takes_def)+
qed

section \<open>\<open>resolveOne\<close>\<close>

definition found_one :: "exec_state \<Rightarrow> expr \<Rightarrow> object_pair set \<Rightarrow> object_pair option \<Rightarrow> bool" where
  "found_one st p ops r \<longleftrightarrow> (case r of
       Some op \<Rightarrow> op \<in> ops \<and> may_hit st p op
     | None \<Rightarrow> \<forall>op \<in> ops. \<not> may_hit st p op)"

lemma found_one_simps [simp]:
  "found_one st p ops (Some op) \<longleftrightarrow> op \<in> ops \<and> may_hit st p op"
  "found_one st p ops None \<longleftrightarrow> (\<forall>op \<in> ops. \<not> may_hit st p op)"
  by (simp_all add: found_one_def)

context timing_solver begin

lemma may_hit_check:
  "ok s \<Longrightarrow> address_ok pw st p \<Longrightarrow> fits pw (fst op)
    \<Longrightarrow> answers am ok (\<lambda>b. b \<longleftrightarrow> may_hit st p op) (ts_mayBeTrue T st (getBoundsCheckPointer pw (fst op) p) s)"
  using ts_mayBeTrue_ok[of s st "getBoundsCheckPointer pw (fst op) p"] bounds_check_takes[of pw st p op]
  by (simp add: address_ok_def)

lemma above_check:
  "ok s \<Longrightarrow> address_ok pw st p \<Longrightarrow> fits pw mo \<Longrightarrow> answers am ok (\<lambda>b. b \<longleftrightarrow> (\<forall>v \<in> takes st p. int (mo_address mo) \<le> v))
    (ts_mustBeTrue T st (create_Uge p (getBaseExpr pw mo)) s)"
  using ts_mustBeTrue_ok[of s st "create_Uge p (getBaseExpr pw mo)"] order_checks_take(1-3)[of pw st p mo]
  by (simp add: address_ok_def)

lemma below_check:
  "ok s \<Longrightarrow> address_ok pw st p \<Longrightarrow> fits pw mo \<Longrightarrow> answers am ok (\<lambda>b. b \<longleftrightarrow> (\<forall>v \<in> takes st p. v < int (mo_address mo)))
    (ts_mustBeTrue T st (create_Ult p (getBaseExpr pw mo)) s)"
  using ts_mustBeTrue_ok[of s st "create_Ult p (getBaseExpr pw mo)"] order_checks_take(4-6)[of pw st p mo]
  by (simp add: address_ok_def)

lemma resolve_back_ok:
  assumes p: "address_ok pw st p" and as: "resolvable pw as"
  shows "ok s \<Longrightarrow> sorted_wrt (\<lambda>p q. address_of q < address_of p) ops \<Longrightarrow> set ops \<subseteq> objects_of as
    \<Longrightarrow> answers am ok (found_one st p (set ops)) (resolve_back T pw st p ops s)"
proof (induction ops arbitrary: s)
  case (Cons op ops)
  have op: "op \<in> objects_of as" "fits pw (fst op)" and rest: "set ops \<subseteq> objects_of as"
    using Cons.prems(3) as by (auto simp: resolvable_def)
  show ?case
    unfolding resolve_back.simps
  proof (rule answers_on_success[OF may_hit_check[OF Cons.prems(1) p op(2)]])
    fix b s1 assume b: "b \<longleftrightarrow> may_hit st p op" and s1: "ok s1"
    show "answers am ok (found_one st p (set (op # ops)))
        (if b then return_call (Some op) s1
         else on_success (ts_mustBeTrue T st (create_Uge p (getBaseExpr pw (fst op))) s1) (\<lambda>mustBeTrue s2.
           if mustBeTrue then return_call None s2 else resolve_back T pw st p ops s2))"
    proof (cases b)
      case False
      show ?thesis
        unfolding if_not_P[OF False]
      proof (rule answers_on_success[OF above_check[OF s1 p op(2)]])
        fix c s2 assume c: "c \<longleftrightarrow> (\<forall>v \<in> takes st p. int (address_of op) \<le> v)" and s2: "ok s2"
        have "\<not> may_hit st p q" if "c" "q \<in> set ops" for q
        proof -
          have q: "q \<in> objects_of as" "address_of q < address_of op"
            using that(2) rest Cons.prems(2) by auto
          show ?thesis
            using not_touches_before[OF _ op(1) q] as c that(1) by (auto simp: may_hit_def resolvable_def)
        qed
        with b False s2 have "answers am ok (found_one st p (set (op # ops))) (return_call None s2)" if c
          using that by simp
        moreover have "answers am ok (found_one st p (set (op # ops))) (resolve_back T pw st p ops s2)"
          using Cons.prems(2) b False
          by (intro answers_mono[OF Cons.IH[OF s2 _ rest]]) (auto simp: found_one_def split: option.splits)
        ultimately show "answers am ok (found_one st p (set (op # ops)))
            (if c then return_call None s2 else resolve_back T pw st p ops s2)" by simp
      qed
    qed (use b s1 in simp)
  qed
qed simp

lemma resolve_forward_ok:
  assumes p: "address_ok pw st p" and as: "resolvable pw as"
  shows "ok s \<Longrightarrow> sorted_wrt (\<lambda>p q. address_of p < address_of q) ops \<Longrightarrow> set ops \<subseteq> objects_of as
    \<Longrightarrow> answers am ok (found_one st p (set ops)) (resolve_forward T pw st p ops s)"
proof (induction ops arbitrary: s)
  case (Cons op ops)
  have op: "op \<in> objects_of as" "fits pw (fst op)" and rest: "set ops \<subseteq> objects_of as"
    using Cons.prems(3) as by (auto simp: resolvable_def)
  show ?case
    unfolding resolve_forward.simps
  proof (rule answers_on_success[OF below_check[OF Cons.prems(1) p op(2)]])
    fix c s1 assume c: "c \<longleftrightarrow> (\<forall>v \<in> takes st p. v < int (address_of op))" and s1: "ok s1"
    have "\<not> may_hit st p q" if "c" "q \<in> set (op # ops)" for q
    proof -
      have "address_of op \<le> address_of q" using that(2) Cons.prems(2) by auto
      with c that(1) not_touches_after show ?thesis by (auto simp: may_hit_def)
    qed
    then have stop: "answers am ok (found_one st p (set (op # ops))) (return_call None s1)" if c
      using that s1 by simp
    have "answers am ok (found_one st p (set (op # ops)))
        (on_success (ts_mayBeTrue T st (getBoundsCheckPointer pw (fst op) p) s1) (\<lambda>mayBeTrue s2.
          if mayBeTrue then return_call (Some op) s2 else resolve_forward T pw st p ops s2))"
    proof (rule answers_on_success[OF may_hit_check[OF s1 p op(2)]])
      fix b s2 assume b: "b \<longleftrightarrow> may_hit st p op" and s2: "ok s2"
      have "answers am ok (found_one st p (set (op # ops))) (resolve_forward T pw st p ops s2)" if "\<not> b"
        using Cons.prems(2) b that
        by (intro answers_mono[OF Cons.IH[OF s2 _ rest]]) (auto simp: found_one_def split: option.splits)
      with b s2 show "answers am ok (found_one st p (set (op # ops)))
          (if b then return_call (Some op) s2 else resolve_forward T pw st p ops s2)" by simp
    qed
    with stop show "answers am ok (found_one st p (set (op # ops)))
        (if c then return_call None s1
         else on_success (ts_mayBeTrue T st (getBoundsCheckPointer pw (fst op) p) s1) (\<lambda>mayBeTrue s2.
           if mayBeTrue then return_call (Some op) s2 else resolve_forward T pw st p ops s2))" by simp
  qed
qed simp

lemma example_address_ok:
  assumes s: "ok s" and p: "address_ok pw st p" and pw: "pw \<le> 64"
  shows "answers am ok (\<lambda>a. int a \<in> takes st p) (example_address T st p s)"
proof -
  have e: "live st" "wf_expr p" "getWidth p = pw" using p by (simp_all add: address_ok_def)
  show ?thesis
    unfolding example_address_def
  proof (rule answers_on_success[OF ts_getValue_ok[OF s e(1,2)]])
    fix c s' assume "\<exists>v \<in> takes st p. c = Constant (getWidth p) v" and s': "ok s'"
    then obtain v where v: "v \<in> takes st p" "c = Constant pw v" using e(3) by blast
    have "0 \<le> v" using takes_in_width[OF e(2) v(1)] by (simp add: in_width_def)
    with v s' pw show "answers am ok (\<lambda>a. int a \<in> takes st p)
        (bind_res (getZExtValue 64 c) (\<lambda>example. return_call (nat example) s'))"
      by (simp add: getZExtValue_def assert_res_def)
  qed
qed

lemma search_both_ok:
  assumes s: "ok s" and p: "address_ok pw st p" and as: "resolvable pw as"
  shows "answers am ok (found_one st p (objects_of as)) (search_both T pw st as p a s)"
  unfolding search_both_def
proof (rule answers_on_success[OF resolve_back_ok[OF p as s]])
  fix r s1 assume r: "found_one st p (set (objects_below a as)) r" and s1: "ok s1"
  have "answers am ok (found_one st p (objects_of as)) (resolve_forward T pw st p (objects_above a as) s1)"
    if "r = None"
    by (rule answers_mono[OF resolve_forward_ok[OF p as s1]])
      (use as r that objects_split[of a as] objects_above_sorted in
        \<open>auto simp: resolvable_def found_one_def split: option.splits\<close>)
  with r s1 objects_split[of a as] show "answers am ok (found_one st p (objects_of as))
      (if r \<noteq> None then return_call r s1 else resolve_forward T pw st p (objects_above a as) s1)"
    by (cases r) auto
qed (use as objects_split[of a as] objects_below_sorted in \<open>auto simp: resolvable_def\<close>)

lemma constant_address:
  assumes "address_ok pw st p" "is_Constant p" "pw \<le> 64"
  obtains a where "getZExtValue 64 p = Inr (int a)" "takes st p = {int a}"
proof -
  obtain v where v: "p = Constant pw v" "0 \<le> v"
    using assms by (cases p) (auto simp: address_ok_def in_width_def)
  have "takes st p = {v}" using takes_nonempty[of st p] assms(1) v(1) by (auto simp: takes_def address_ok_def)
  with v assms(3) that[of "nat v"] show thesis by (simp add: getZExtValue_def assert_res_def)
qed

lemma resolveOne_inside:
  assumes "resolvable pw as"
  shows "resolveOne a as = Some op \<longleftrightarrow> op \<in> objects_of as \<and> touches (int a) (fst op)"
proof -
  have "resolveOne a as = Some op \<longleftrightarrow> op \<in> objects_of as \<and> in_object a (fst op)
      \<and> (mo_size (fst op) = 0 \<or> a < address_of op + mo_size (fst op))"
    using assms by (intro resolveOne_ok) (simp_all add: resolvable_def)
  then show ?thesis by (auto simp: in_object_def touches_def)
qed

lemma resolveOne_solver_ok:
  assumes s: "ok s" and p: "address_ok pw st p" and as: "resolvable pw as"
  shows "answers am ok (found_one st p (objects_of as)) (resolveOne_solver T pw st as p s)"
proof (cases "is_Constant p")
  case True
  have pw: "pw \<le> 64" using as by (simp add: resolvable_def)
  obtain a where a: "getZExtValue 64 p = Inr (int a)" "takes st p = {int a}"
    using constant_address[OF p True pw] .
  have "found_one st p (objects_of as) (resolveOne a as)"
    using resolveOne_inside[OF as, of a] a(2) by (cases "resolveOne a as") (auto simp: may_hit_def)
  with True a s show ?thesis by (simp add: resolveOne_solver_def)
next
  case False
  have ord: "ordered address_of (inorder (objects as))" using as by (simp add: resolvable_def tree_ok_def)
  show ?thesis
    unfolding resolveOne_solver_def if_not_P[OF False]
  proof (rule answers_on_success[OF example_address_ok[OF s p]])
    fix a s1 assume a: "int a \<in> takes st p" and s1: "ok s1"
    note both = search_both_ok[OF s1 p as, of a]
    show "answers am ok (found_one st p (objects_of as))
        (case lookup_previous address_of a (objects as) of
          Some (mo, os) \<Rightarrow>
            if a - mo_address mo < mo_size mo then return_call (Some (mo, os)) s1
            else search_both T pw st as p a s1
        | None \<Rightarrow> search_both T pw st as p a s1)"
    proof (cases "lookup_previous address_of a (objects as)")
      case (Some op)
      obtain mo oid where op: "op = (mo, oid)" by (cases op)
      have "last (filter (\<lambda>v. address_of v \<le> a) (inorder (objects as))) = op"
        "filter (\<lambda>v. address_of v \<le> a) (inorder (objects as)) \<noteq> []"
        using lookup_previous_ok[OF ord, of a] Some by (auto simp: Let_def split: if_splits)
      then have "op \<in> set (filter (\<lambda>v. address_of v \<le> a) (inorder (objects as)))"
        by (metis last_in_set)
      then have mem: "op \<in> objects_of as" "mo_address mo \<le> a" by (auto simp: objects_of_def op)
      have "may_hit st p op" if "a - mo_address mo < mo_size mo"
        by (rule may_hitI[OF a]) (use mem(2) that in \<open>auto simp: op touches_def\<close>)
      with mem(1) s1 both show ?thesis by (simp add: Some op)
    qed (use both in simp)
  qed (use as in \<open>simp add: resolvable_def\<close>)
qed

end

section \<open>\<open>resolve\<close>\<close>

text \<open>
  What a list of candidates stands for: objects that may be hit, and, when the search is not
  incomplete, all of them. It is incomplete only when a query fails, the time is up or enough
  objects have been found.
\<close>

definition may_give_up :: "mode \<Rightarrow> nat \<Rightarrow> (memory_object \<Rightarrow> bool) \<Rightarrow> address_space \<Rightarrow> object_pair list \<Rightarrow> bool" where
  "may_give_up m mx late as rl \<longleftrightarrow>
     m \<noteq> MustAnswer \<or> (\<exists>op \<in> objects_of as. late (fst op)) \<or> 1 < mx \<and> length rl = mx"

definition candidates :: "exec_state \<Rightarrow> expr \<Rightarrow> object_pair set \<Rightarrow> object_pair list \<Rightarrow> bool" where
  "candidates st p ops rl \<longleftrightarrow> set rl \<subseteq> ops \<and> (\<forall>op \<in> set rl. may_hit st p op)"

definition all_candidates :: "exec_state \<Rightarrow> expr \<Rightarrow> object_pair set \<Rightarrow> object_pair list \<Rightarrow> bool" where
  "all_candidates st p ops rl \<longleftrightarrow> (\<forall>op \<in> ops. may_hit st p op \<longrightarrow> op \<in> set rl)"

definition checked ::
    "mode \<Rightarrow> nat \<Rightarrow> exec_state \<Rightarrow> expr \<Rightarrow> address_space \<Rightarrow> object_pair \<Rightarrow> object_pair list \<Rightarrow> nat \<times> object_pair list \<Rightarrow> bool" where
  "checked m mx st p as op rl r \<longleftrightarrow>
     (case r of (answer, rl') \<Rightarrow> candidates st p (objects_of as) rl'
        \<and> (answer = 0 \<and> all_candidates st p (objects_of as) rl'
           \<or> answer = 1 \<and> may_give_up m mx (\<lambda>_. False) as rl'
           \<or> answer = 2 \<and> set rl \<subseteq> set rl' \<and> (may_hit st p op \<longrightarrow> op \<in> set rl')))"

definition collected ::
    "mode \<Rightarrow> nat \<Rightarrow> (memory_object \<Rightarrow> bool) \<Rightarrow> exec_state \<Rightarrow> expr \<Rightarrow> address_space \<Rightarrow> object_pair list \<Rightarrow> object_pair set
     \<Rightarrow> bool option \<times> object_pair list \<Rightarrow> bool" where
  "collected m mx late st p as rl ops r \<longleftrightarrow>
     (case r of (done, rl') \<Rightarrow> candidates st p (objects_of as) rl'
        \<and> (case done of
             None \<Rightarrow> set rl \<subseteq> set rl' \<and> all_candidates st p ops rl'
           | Some incomplete \<Rightarrow> if incomplete then may_give_up m mx late as rl'
               else all_candidates st p (objects_of as) rl'))"

lemma runs_bind_pair:
  assumes "runs m ok P x" "\<And>a b s. P (a, b) \<Longrightarrow> ok s \<Longrightarrow> runs m ok Q (f a b s)"
  shows "runs m ok Q (bind_res x (\<lambda>((a, b), s). f a b s))"
  using assms by (cases x) (auto simp: runs_def)

lemma runs_of_answers:
  "answers m ok P x \<Longrightarrow> runs m ok (\<lambda>r. case r of None \<Rightarrow> m \<noteq> MustAnswer | Some a \<Rightarrow> P a) x"
  by (auto simp: answers_def runs_def split: sum.splits option.splits)

context timing_solver begin

lemma only_candidate:
  assumes "resolvable pw as" "op \<in> objects_of as" "\<forall>v \<in> takes st p. touches v (fst op)"
  shows "all_candidates st p (objects_of as) [op]"
proof -
  have "q = op" if "q \<in> objects_of as" "v \<in> takes st p" "touches v (fst q)" for q v
    using touches_unique[of as q op v] assms that by (simp add: resolvable_def)
  then show ?thesis by (auto simp: all_candidates_def may_hit_def)
qed

lemma checkPointerInObject_ok:
  assumes p: "address_ok pw st p" and as: "resolvable pw as" and s: "ok s"
    and op: "op \<in> objects_of as" and rl: "candidates st p (objects_of as) rl"
  shows "runs am ok (checked am mx st p as op rl) (checkPointerInObject T pw mx st p op rl s)"
proof -
  have f: "fits pw (fst op)" using as op by (simp add: resolvable_def)
  note check = bounds_check_takes[OF p f]
  show ?thesis
    unfolding checkPointerInObject_def Let_def
  proof (rule runs_bind[OF runs_of_answers[OF may_hit_check[OF s p f]]])
    fix may s1
    assume may: "case may of None \<Rightarrow> am \<noteq> MustAnswer | Some b \<Rightarrow> b \<longleftrightarrow> may_hit st p op" and s1: "ok s1"
    let ?more = "if length (rl @ [op]) = 1
        then map_res (\<lambda>(mustBeTrue, s2).
          ((case mustBeTrue of None \<Rightarrow> 1 | Some True \<Rightarrow> 0 | Some False \<Rightarrow> 2, rl @ [op]), s2))
          (ts_mustBeTrue T st (getBoundsCheckPointer pw (fst op) p) s1)
        else Inr ((if length (rl @ [op]) = mx then 1 else 2, rl @ [op]), s1)"
    have more: "runs am ok (checked am mx st p as op rl) ?more" if hit: "may_hit st p op"
    proof -
      have rl': "candidates st p (objects_of as) (rl @ [op])"
        using rl op hit by (auto simp: candidates_def)
      show ?thesis
      proof (cases "length (rl @ [op]) = 1")
        case True
        then have nil: "rl = []" by simp
        have "runs am ok (\<lambda>r. case r of None \<Rightarrow> am \<noteq> MustAnswer | Some b \<Rightarrow> b \<longleftrightarrow> (\<forall>v \<in> takes st p. touches v (fst op)))
            (ts_mustBeTrue T st (getBoundsCheckPointer pw (fst op) p) s1)"
          using runs_of_answers[OF ts_mustBeTrue_ok[OF s1 _ check(1,2), of st]] p
          unfolding check(4) by (simp add: address_ok_def)
        then show ?thesis
          using True rl' hit only_candidate[OF as op] nil
          by (auto simp: runs_def checked_def may_give_up_def map_res_def split: sum.splits option.splits bool.splits)
      next
        case False
        then show ?thesis using rl' hit s1 by (cases rl) (auto simp: checked_def may_give_up_def)
      qed
    qed
    show "runs am ok (checked am mx st p as op rl)
        (case may of None \<Rightarrow> Inr ((1, rl), s1) | Some False \<Rightarrow> Inr ((2, rl), s1) | Some True \<Rightarrow> ?more)"
      using may more s1 rl by (auto simp: checked_def may_give_up_def split: option.splits bool.splits)
  qed
qed

lemma checked_cases:
  assumes "checked am mx st p as op rl (answer, rl')"
  shows "candidates st p (objects_of as) rl'"
    "answer \<noteq> 2 \<Longrightarrow> if answer \<noteq> 0 then may_give_up am mx late as rl' else all_candidates st p (objects_of as) rl'"
    "answer = 2 \<Longrightarrow> set rl \<subseteq> set rl' \<and> (may_hit st p op \<longrightarrow> op \<in> set rl')"
  using assms by (auto simp: checked_def may_give_up_def)

lemma collect_back_ok:
  assumes p: "address_ok pw st p" and as: "resolvable pw as"
  shows "ok s \<Longrightarrow> sorted_wrt (\<lambda>p q. address_of q < address_of p) ops \<Longrightarrow> set ops \<subseteq> objects_of as
    \<Longrightarrow> candidates st p (objects_of as) rl
    \<Longrightarrow> runs am ok (collected am mx late st p as rl (set ops)) (collect_back T pw mx late st p ops rl s)"
proof (induction ops arbitrary: rl s)
  case Nil
  then show ?case by (simp add: collected_def all_candidates_def)
next
  case (Cons op ops)
  have op: "op \<in> objects_of as" "fits pw (fst op)" and rest: "set ops \<subseteq> objects_of as"
    using Cons.prems(3) as by (auto simp: resolvable_def)
  let ?P = "collected am mx late st p as rl (set (op # ops))"
  have step: "runs am ok ?P (case must of
        None \<Rightarrow> Inr ((Some True, rl1), s2) | Some True \<Rightarrow> Inr ((None, rl1), s2)
      | Some False \<Rightarrow> collect_back T pw mx late st p ops rl1 s2)"
    if rl1: "candidates st p (objects_of as) rl1" "set rl \<subseteq> set rl1" "may_hit st p op \<longrightarrow> op \<in> set rl1"
      and s2: "ok s2"
      and must: "case must of None \<Rightarrow> am \<noteq> MustAnswer | Some c \<Rightarrow> c \<longleftrightarrow> (\<forall>v \<in> takes st p. int (address_of op) \<le> v)"
    for rl1 must s2
  proof -
    consider "must = None" | "must = Some True" | "must = Some False" by (cases must) auto
    then show ?thesis
    proof cases
      case 2
      have "\<not> may_hit st p q" if "q \<in> set ops" for q
      proof -
        have q: "q \<in> objects_of as" "address_of q < address_of op"
          using that rest Cons.prems(2) by auto
        show ?thesis
          using not_touches_before[OF _ op(1) q] as must 2 by (auto simp: may_hit_def resolvable_def)
      qed
      with 2 rl1 s2 show ?thesis by (auto simp: collected_def all_candidates_def)
    next
      case 3
      have "runs am ok ?P (collect_back T pw mx late st p ops rl1 s2)"
        by (rule runs_mono[OF Cons.IH[OF s2 _ rest rl1(1)]])
          (use Cons.prems(2) rl1(2,3) in \<open>auto simp: collected_def all_candidates_def split: option.splits\<close>)
      with 3 show ?thesis by simp
    qed (use rl1 s2 must in \<open>simp add: collected_def may_give_up_def\<close>)
  qed
  show ?case
  proof (cases "late (fst op)")
    case True
    with Cons.prems(1,4) op(1) show ?thesis by (auto simp: collected_def may_give_up_def)
  next
    case False
    show ?thesis
      unfolding collect_back.simps if_not_P[OF False]
    proof (rule runs_bind_pair[OF checkPointerInObject_ok[OF p as Cons.prems(1) op(1) Cons.prems(4), of mx]])
      fix answer rl1 s1 assume c: "checked am mx st p as op rl (answer, rl1)" and s1: "ok s1"
      note cases = checked_cases(1)[OF c] checked_cases(2)[OF c, of late] checked_cases(3)[OF c]
      have "runs am ok ?P (bind_res (ts_mustBeTrue T st (create_Uge p (getBaseExpr pw (fst op))) s1)
          (\<lambda>(must, s2). case must of None \<Rightarrow> Inr ((Some True, rl1), s2) | Some True \<Rightarrow> Inr ((None, rl1), s2)
            | Some False \<Rightarrow> collect_back T pw mx late st p ops rl1 s2))" if "answer = 2"
        by (rule runs_bind[OF runs_of_answers[OF above_check[OF s1 p op(2)]]])
          (rule step, use cases(1,3) that in auto)
      with cases(1,2) s1 show "runs am ok ?P (if answer \<noteq> 2 then Inr ((Some (answer \<noteq> 0), rl1), s1)
          else bind_res (ts_mustBeTrue T st (create_Uge p (getBaseExpr pw (fst op))) s1)
            (\<lambda>(must, s2). case must of None \<Rightarrow> Inr ((Some True, rl1), s2) | Some True \<Rightarrow> Inr ((None, rl1), s2)
              | Some False \<Rightarrow> collect_back T pw mx late st p ops rl1 s2))"
        by (auto simp: collected_def)
    qed
  qed
qed

lemma collect_forward_ok:
  assumes p: "address_ok pw st p" and as: "resolvable pw as"
  shows "ok s \<Longrightarrow> sorted_wrt (\<lambda>p q. address_of p < address_of q) ops \<Longrightarrow> set ops \<subseteq> objects_of as
    \<Longrightarrow> candidates st p (objects_of as) rl \<Longrightarrow> all_candidates st p (objects_of as - set ops) rl
    \<Longrightarrow> runs am ok (\<lambda>(incomplete, rl'). collected am mx late st p as rl (set ops) (Some incomplete, rl'))
      (collect_forward T pw mx late st p ops rl s)"
proof (induction ops arbitrary: rl s)
  case Nil
  then show ?case by (simp add: collected_def)
next
  case (Cons op ops)
  have op: "op \<in> objects_of as" "fits pw (fst op)" and rest: "set ops \<subseteq> objects_of as"
    using Cons.prems(3) as by (auto simp: resolvable_def)
  let ?P = "\<lambda>(incomplete, rl'). collected am mx late st p as rl (set (op # ops)) (Some incomplete, rl')"
  show ?case
  proof (cases "late (fst op)")
    case True
    with Cons.prems(1,4) op(1) show ?thesis by (auto simp: collected_def may_give_up_def)
  next
    case False
    show ?thesis
      unfolding collect_forward.simps if_not_P[OF False]
    proof (rule runs_bind[OF runs_of_answers[OF below_check[OF Cons.prems(1) p op(2)]]])
      fix must s1
      assume must: "case must of None \<Rightarrow> am \<noteq> MustAnswer | Some c \<Rightarrow> c \<longleftrightarrow> (\<forall>v \<in> takes st p. v < int (address_of op))"
        and s1: "ok s1"
      let ?next = "bind_res (checkPointerInObject T pw mx st p op rl s1) (\<lambda>((incomplete, rl1), s2).
          if incomplete \<noteq> 2 then Inr ((incomplete \<noteq> 0, rl1), s2)
          else collect_forward T pw mx late st p ops rl1 s2)"
      have next_ok: "runs am ok ?P ?next"
      proof (rule runs_bind_pair[OF checkPointerInObject_ok[OF p as s1 op(1) Cons.prems(4), of mx]])
        fix answer rl1 s2 assume c: "checked am mx st p as op rl (answer, rl1)" and s2: "ok s2"
        note cases = checked_cases(1)[OF c] checked_cases(2)[OF c, of late] checked_cases(3)[OF c]
        have "runs am ok ?P (collect_forward T pw mx late st p ops rl1 s2)" if "answer = 2"
        proof (rule runs_mono[OF Cons.IH[OF s2 _ rest cases(1)]])
          show "sorted_wrt (\<lambda>p q. address_of p < address_of q) ops" using Cons.prems(2) by simp
          show "all_candidates st p (objects_of as - set ops) rl1"
            using Cons.prems(5) cases(3)[OF that] by (auto simp: all_candidates_def)
        qed (auto simp: collected_def)
        with cases(1,2) s2 show "runs am ok ?P (if answer \<noteq> 2 then Inr ((answer \<noteq> 0, rl1), s2)
            else collect_forward T pw mx late st p ops rl1 s2)"
          by (auto simp: collected_def)
      qed
      have stop: "all_candidates st p (objects_of as) rl" if "must = Some True"
      proof -
        have "\<not> may_hit st p q" if "q \<in> set (op # ops)" for q
        proof -
          have "address_of op \<le> address_of q" using that Cons.prems(2) by auto
          with must \<open>must = Some True\<close> not_touches_after show ?thesis by (auto simp: may_hit_def)
        qed
        with Cons.prems(5) show ?thesis by (auto simp: all_candidates_def)
      qed
      show "runs am ok ?P (case must of
          None \<Rightarrow> Inr ((True, rl), s1) | Some True \<Rightarrow> Inr ((False, rl), s1) | Some False \<Rightarrow> ?next)"
      proof (cases must)
        case (Some c)
        with next_ok stop s1 Cons.prems(4) show ?thesis by (cases c) (simp_all add: collected_def)
      qed (use must s1 Cons.prems(4) in \<open>simp add: collected_def may_give_up_def\<close>)
    qed
  qed
qed

lemma resolve_ok:
  assumes s: "ok s" and p: "address_ok pw st p" and as: "resolvable pw as"
  shows "runs am ok (\<lambda>(incomplete, rl). candidates st p (objects_of as) rl
      \<and> (if incomplete then may_give_up am mx late as rl else all_candidates st p (objects_of as) rl))
    (resolve T pw mx late st as p s)" (is "runs am ok ?P _")
proof (cases "is_Constant p")
  case True
  have pw: "pw \<le> 64" using as by (simp add: resolvable_def)
  obtain a where a: "getZExtValue 64 p = Inr (int a)" "takes st p = {int a}"
    using constant_address[OF p True pw] .
  have hit: "may_hit st p op \<longleftrightarrow> touches (int a) (fst op)" for op using a(2) by (simp add: may_hit_def)
  have "?P (False, case resolveOne a as of None \<Rightarrow> [] | Some op \<Rightarrow> [op])"
  proof (cases "resolveOne a as")
    case None
    with resolveOne_inside[OF as, of a] hit show ?thesis
      by (simp add: candidates_def all_candidates_def)
  next
    case (Some q)
    then have "op \<in> objects_of as \<and> touches (int a) (fst op) \<longleftrightarrow> op = q" for op
      using resolveOne_inside[OF as, of a op] by auto
    then have "candidates st p (objects_of as) [q]" "all_candidates st p (objects_of as) [q]"
      unfolding candidates_def all_candidates_def hit list.set by blast+
    with Some show ?thesis by simp
  qed
  with True a s show ?thesis by (simp add: resolve_def map_res_def)
next
  case False
  have pw: "pw \<le> 64" using as by (simp add: resolvable_def)
  have sorted: "space_ok as" using as by (simp add: resolvable_def)
  show ?thesis
    unfolding resolve_def if_not_P[OF False]
  proof (rule runs_bind[OF runs_of_answers[OF example_address_ok[OF s p pw]]])
    fix cex s1 assume cex: "case cex of None \<Rightarrow> am \<noteq> MustAnswer | Some a \<Rightarrow> int a \<in> takes st p" and s1: "ok s1"
    have nil: "candidates st p (objects_of as) []" by (simp add: candidates_def)
    have "runs am ok ?P (bind_res (collect_back T pw mx late st p (objects_below a as) [] s1)
        (\<lambda>((done, rl), s2). case done of Some incomplete \<Rightarrow> Inr ((incomplete, rl), s2)
          | None \<Rightarrow> collect_forward T pw mx late st p (objects_above a as) rl s2))" for a
    proof (rule runs_bind_pair[OF collect_back_ok[OF p as s1 objects_below_sorted[OF sorted] _ nil]])
      fix d rl s2 assume c: "collected am mx late st p as [] (set (objects_below a as)) (d, rl)" and s2: "ok s2"
      have "runs am ok ?P (collect_forward T pw mx late st p (objects_above a as) rl s2)" if "d = None"
      proof (rule runs_mono[OF collect_forward_ok[OF p as s2 objects_above_sorted[OF sorted]]])
        show "set (objects_above a as) \<subseteq> objects_of as" using objects_split[of a as] by blast
        show "candidates st p (objects_of as) rl" using c by (simp add: collected_def)
        show "all_candidates st p (objects_of as - set (objects_above a as)) rl"
          using c that objects_split[of a as] by (auto simp: collected_def all_candidates_def)
      qed (auto simp: collected_def)
      with c s2 show "runs am ok ?P (case d of Some incomplete \<Rightarrow> Inr ((incomplete, rl), s2)
          | None \<Rightarrow> collect_forward T pw mx late st p (objects_above a as) rl s2)"
        by (cases d) (auto simp: collected_def)
    qed (use objects_split[of a as] in blast)
    then show "runs am ok ?P (case cex of None \<Rightarrow> Inr ((True, []), s1)
        | Some example \<Rightarrow> bind_res (collect_back T pw mx late st p (objects_below example as) [] s1)
            (\<lambda>((done, rl), s2). case done of Some incomplete \<Rightarrow> Inr ((incomplete, rl), s2)
              | None \<Rightarrow> collect_forward T pw mx late st p (objects_above example as) rl s2))"
      using cex s1 nil by (cases cex) (simp_all add: may_give_up_def)
  qed
qed

end

end
