(* ===== verification/Fork.thy ===== *)
theory Fork
  imports Resolve MergeRun
begin

text \<open>
  The executor between the solver and the states (\<open>klee/lib/Core/Executor.cpp\<close>): adding a
  constraint to a state, ending a state, and \<open>Executor::fork\<close>, which asks the solver about a
  branch condition and splits the state. It works on the executor of \<open>MergeHandler\<close>, whose
  \<open>fork_state\<close> makes the new state.

  Seeds, the limits on the share of forks of one instruction (off by default), the process tree
  and the path writers are left out. What goes to \<open>processTestCase\<close> is recorded in
  \<open>testCases\<close>, of an error only the message and the suffix.
\<close>

section \<open>The machine\<close>

datatype terminate_reason =
    Abort | Assert | BadVectorAccess | Exec | External | Free | Model | Overflow | Ptr | ReadOnly
  | ReportError | User | Unhandled

record ('m, 's, 'r) machine =
  exe :: "'m executor"
  solver :: 's
  rng :: 'r
  forks :: nat
  replayPosition :: nat
  atMemoryLimit :: bool
  inhibitForking :: bool
  haltExecution :: bool
  emittedErrors :: "(nat \<times> string) list"
  testCases :: "(exec_state \<times> string \<times> string) list"

text \<open>
  The options, and what the module and the allocator say: \<open>parent\<close> is the function of an
  instruction, \<open>allocate\<close> the address of a new state, \<open>resolve_late\<close> at which objects the time
  of a resolution is up. \<open>MaxForks\<close> is \<open>None\<close> for \<open>~0u\<close>.
\<close>

record ('m, 's, 'r) options =
  merge_settings :: "'m settings"
  delete_fuel :: nat
  constraint_fuel :: nat
  timing :: "'s timing"
  getInt32 :: "'r \<Rightarrow> nat \<times> 'r"
  allocate :: "(nat \<Rightarrow> exec_state option) \<Rightarrow> nat"
  pointer_width :: width
  SimplifySymIndices :: bool
  MaxSymArraySize :: nat
  resolve_late :: "memory_object \<Rightarrow> bool"
  replayPath :: "bool list option"
  replayKTest :: bool
  MaxMemoryInhibit :: bool
  MaxForks :: "nat option"
  MaxDepth :: nat
  OnlyOutputStatesCoveringNew :: bool
  EmitAllErrors :: bool
  ExitOnErrorType :: "terminate_reason list"
  internalFunctions :: "kfunction \<Rightarrow> bool"
  parent :: "nat \<Rightarrow> kfunction"

definition in_state :: "nat \<Rightarrow> ('m, 's, 'r) machine \<Rightarrow> (exec_state \<Rightarrow> 'a result) \<Rightarrow> 'a result" where
  "in_state es M f = with_state es (exe M) f"

definition set_state :: "nat \<Rightarrow> exec_state \<Rightarrow> ('m, 's, 'r) machine \<Rightarrow> ('m, 's, 'r) machine" where
  "set_state es s M = M\<lparr>exe := put_state es s (exe M)\<rparr>"

text \<open>\<open>RNG::getBool\<close>: the parity of the next number.\<close>

definition getBool :: "('r \<Rightarrow> nat \<times> 'r) \<Rightarrow> 'r \<Rightarrow> bool \<times> 'r" where
  "getBool next r =
     (case next r of (n, r') \<Rightarrow>
        let step = (\<lambda>k (bits :: 32 word). xor bits (drop_bit k bits))
        in (bit (step 1 (step 2 (step 4 (step 8 (step 16 (word_of_nat n)))))) 0, r'))"

section \<open>Constraints and the end of a state\<close>

definition exec_addConstraint :: "('m, 's, 'r) options \<Rightarrow> nat \<Rightarrow> expr \<Rightarrow> ('m, 's, 'r) machine
    \<Rightarrow> ('m, 's, 'r) machine result" where
  "exec_addConstraint cf es condition M =
     (if is_Constant condition then (if isTrue condition then Inr M else Inl InvalidConstraint)
      else in_state es M (\<lambda>s. map_res (\<lambda>s'. set_state es s' M)
        (state_addConstraint (constraint_fuel cf) condition s)))"

definition exec_terminateState :: "('m, 's, 'r) options \<Rightarrow> nat \<Rightarrow> ('m, 's, 'r) machine
    \<Rightarrow> ('m, 's, 'r) machine result" where
  "exec_terminateState cf es M =
     map_res (\<lambda>ex. M\<lparr>exe := ex\<rparr>)
       (terminateState (delete_state (merge_settings cf) (delete_fuel cf)) es (exe M))"

definition terminateStateEarly :: "('m, 's, 'r) options \<Rightarrow> nat \<Rightarrow> string \<Rightarrow> ('m, 's, 'r) machine
    \<Rightarrow> ('m, 's, 'r) machine result" where
  "terminateStateEarly cf es message M =
     in_state es M (\<lambda>s. exec_terminateState cf es
       (if \<not> OnlyOutputStatesCoveringNew cf \<or> coveredNew s
        then M\<lparr>testCases := testCases M @ [(s, message @ [CHR 0x0A], ''early'')]\<rparr> else M))"

definition terminateStateOnExit :: "('m, 's, 'r) options \<Rightarrow> nat \<Rightarrow> ('m, 's, 'r) machine
    \<Rightarrow> ('m, 's, 'r) machine result" where
  "terminateStateOnExit cf es M =
     in_state es M (\<lambda>s. exec_terminateState cf es
       (if \<not> OnlyOutputStatesCoveringNew cf \<or> coveredNew s
        then M\<lparr>testCases := testCases M @ [(s, [], [])]\<rparr> else M))"

text \<open>
  The instruction that an error is reported for, going from the innermost frame to the one below
  the outermost: the last one outside of KLEE's own functions, unless one of them called it.
\<close>

fun unwind :: "('m, 's, 'r) options \<Rightarrow> stack_frame list \<Rightarrow> nat option \<Rightarrow> nat option" where
  "unwind cf (f # fs) ii =
     (if fs = [] then ii
      else unwind cf fs (if internalFunctions cf (parent cf (caller f)) then None
        else case ii of None \<Rightarrow> Some (caller f) | Some i \<Rightarrow> Some i))"
| "unwind cf [] ii = ii"

definition getLastNonKleeInternalInstruction :: "('m, 's, 'r) options \<Rightarrow> exec_state \<Rightarrow> nat" where
  "getLastNonKleeInternalInstruction cf s =
     (case unwind cf (rev (stack s))
         (if stack s \<noteq> [] \<and> \<not> internalFunctions cf (kf (last (stack s))) then Some (prevPC s) else None) of
        None \<Rightarrow> prevPC s | Some i \<Rightarrow> i)"

definition shouldExitOn :: "('m, 's, 'r) options \<Rightarrow> terminate_reason \<Rightarrow> bool" where
  "shouldExitOn cf reason \<longleftrightarrow> reason \<in> set (ExitOnErrorType cf)"

fun reason_suffix :: "terminate_reason \<Rightarrow> string" where
  "reason_suffix Abort = ''abort.err''"
| "reason_suffix Assert = ''assert.err''"
| "reason_suffix BadVectorAccess = ''bad_vector_access.err''"
| "reason_suffix Exec = ''exec.err''"
| "reason_suffix External = ''external.err''"
| "reason_suffix Free = ''free.err''"
| "reason_suffix Model = ''model.err''"
| "reason_suffix Overflow = ''overflow.err''"
| "reason_suffix Ptr = ''ptr.err''"
| "reason_suffix ReadOnly = ''readonly.err''"
| "reason_suffix ReportError = ''reporterror.err''"
| "reason_suffix User = ''user.err''"
| "reason_suffix Unhandled = ''xxx.err''"

definition terminateStateOnError :: "('m, 's, 'r) options \<Rightarrow> nat \<Rightarrow> string \<Rightarrow> terminate_reason
    \<Rightarrow> ('m, 's, 'r) machine \<Rightarrow> ('m, 's, 'r) machine result" where
  "terminateStateOnError cf es message reason M =
     in_state es M (\<lambda>s.
       let place = (getLastNonKleeInternalInstruction cf s, message);
           M1 = (if EmitAllErrors cf
                 then M\<lparr>testCases := testCases M @ [(s, message, reason_suffix reason)]\<rparr>
                 else if place \<notin> set (emittedErrors M)
                 then M\<lparr>emittedErrors := emittedErrors M @ [place],
                        testCases := testCases M @ [(s, message, reason_suffix reason)]\<rparr>
                 else M)
       in map_res (\<lambda>M2. if shouldExitOn cf reason then M2\<lparr>haltExecution := True\<rparr> else M2)
            (exec_terminateState cf es M1))"

section \<open>Forking\<close>

text \<open>
  What the code does with the solver's verdict before it branches: a replayed path picks the
  side, and where forking is off a coin does.
\<close>

definition choose_side :: "('m, 's, 'r) options \<Rightarrow> nat \<Rightarrow> expr \<Rightarrow> bool \<Rightarrow> ('m, 's, 'r) machine
    \<Rightarrow> (validity \<times> ('m, 's, 'r) machine) result" where
  "choose_side cf es condition side M =
     map_res (\<lambda>M'. (if side then SolverTrue else SolverFalse, M'))
       (exec_addConstraint cf es (if side then condition else createIsZero condition) M)"

definition forks_inhibited :: "('m, 's, 'r) options \<Rightarrow> exec_state \<Rightarrow> ('m, 's, 'r) machine \<Rightarrow> bool" where
  "forks_inhibited cf s M \<longleftrightarrow> MaxMemoryInhibit cf \<and> atMemoryLimit M \<or> forkDisabled s \<or> inhibitForking M
     \<or> (case MaxForks cf of None \<Rightarrow> False | Some n \<Rightarrow> n \<le> forks M)"

definition settle :: "('m, 's, 'r) options \<Rightarrow> nat \<Rightarrow> exec_state \<Rightarrow> expr \<Rightarrow> bool \<Rightarrow> validity
    \<Rightarrow> ('m, 's, 'r) machine \<Rightarrow> (validity \<times> ('m, 's, 'r) machine) result" where
  "settle cf es s condition isInternal res M =
     (case (if isInternal then None else replayPath cf) of
        Some branches \<Rightarrow>
          assert_res (replayPosition M < length branches)
            (let side = branches ! replayPosition M;
                 M1 = M\<lparr>replayPosition := replayPosition M + 1\<rparr>
             in case res of
                  SolverTrue \<Rightarrow> assert_res side (Inr (res, M1))
                | SolverFalse \<Rightarrow> assert_res (\<not> side) (Inr (res, M1))
                | SolverUnknown \<Rightarrow> choose_side cf es condition side M1)
      | None \<Rightarrow>
          if res = SolverUnknown
          then assert_res (\<not> replayKTest cf)
            (if forks_inhibited cf s M
             then (case getBool (getInt32 cf) (rng M) of (side, r) \<Rightarrow>
                     choose_side cf es condition side (M\<lparr>rng := r\<rparr>))
             else Inr (res, M))
          else Inr (res, M))"

definition split_state :: "('m, 's, 'r) options \<Rightarrow> nat \<Rightarrow> expr \<Rightarrow> ('m, 's, 'r) machine
    \<Rightarrow> ((nat option \<times> nat option) \<times> ('m, 's, 'r) machine) result" where
  "split_state cf trueState condition M =
     (let falseState = allocate cf (est (exe M)) in
      bind_res (fork_state trueState falseState (exe M)) (\<lambda>ex.
      bind_res (exec_addConstraint cf trueState condition (M\<lparr>exe := ex, forks := forks M + 1\<rparr>)) (\<lambda>M1.
      bind_res (exec_addConstraint cf falseState (createIsZero condition) M1) (\<lambda>M2.
      in_state trueState M2 (\<lambda>t.
        if MaxDepth cf \<noteq> 0 \<and> MaxDepth cf \<le> depth t
        then bind_res (terminateStateEarly cf trueState ''max-depth exceeded.'' M2) (\<lambda>M3.
               map_res (\<lambda>M4. ((None, None), M4))
                 (terminateStateEarly cf falseState ''max-depth exceeded.'' M3))
        else Inr ((Some trueState, Some falseState), M2))))))"

definition fork :: "('m, 's, 'r) options \<Rightarrow> nat \<Rightarrow> expr \<Rightarrow> bool \<Rightarrow> ('m, 's, 'r) machine
    \<Rightarrow> ((nat option \<times> nat option) \<times> ('m, 's, 'r) machine) result" where
  "fork cf current condition isInternal M =
     in_state current M (\<lambda>s.
       bind_res (ts_evaluate (timing cf) s condition (solver M)) (\<lambda>(success, sol).
         case success of
           None \<Rightarrow> map_res (\<lambda>M1. ((None, None), M1))
             (terminateStateEarly cf current ''Query timed out (fork).''
               (set_state current (s\<lparr>pc := prevPC s\<rparr>) (M\<lparr>solver := sol\<rparr>)))
         | Some res \<Rightarrow>
             bind_res (settle cf current s condition isInternal res (M\<lparr>solver := sol\<rparr>)) (\<lambda>(res, M1).
               case res of
                 SolverTrue \<Rightarrow> Inr ((Some current, None), M1)
               | SolverFalse \<Rightarrow> Inr ((None, Some current), M1)
               | SolverUnknown \<Rightarrow> split_state cf current condition M1)))"

text \<open>
  \<open>Executor::branch\<close> on several conditions, for a switch: each new state is branched off a random
  earlier one, then all are constrained; when no more forks are allowed a random one is kept.
\<close>

fun branch_more :: "('m, 's, 'r) options \<Rightarrow> nat \<Rightarrow> nat list \<Rightarrow> ('m, 's, 'r) machine
    \<Rightarrow> (nat list \<times> ('m, 's, 'r) machine) result" where
  "branch_more cf 0 result M = Inr (result, M)"
| "branch_more cf (Suc k) result M =
     (case getInt32 cf (rng M) of (n, r) \<Rightarrow>
        let es = result ! (n mod length result); ns = allocate cf (est (exe M))
        in bind_res (fork_state es ns (exe M)) (\<lambda>ex.
             branch_more cf k (result @ [ns]) (M\<lparr>exe := ex, rng := r\<rparr>)))"

fun constrain_each :: "('m, 's, 'r) options \<Rightarrow> nat option list \<Rightarrow> expr list \<Rightarrow> ('m, 's, 'r) machine
    \<Rightarrow> ('m, 's, 'r) machine result" where
  "constrain_each cf (Some es # result) (c # conditions) M =
     bind_res (exec_addConstraint cf es c M) (constrain_each cf result conditions)"
| "constrain_each cf (None # result) (c # conditions) M = constrain_each cf result conditions M"
| "constrain_each cf _ _ M = Inr M"

definition executor_branch :: "('m, 's, 'r) options \<Rightarrow> nat \<Rightarrow> expr list \<Rightarrow> ('m, 's, 'r) machine
    \<Rightarrow> (nat option list \<times> ('m, 's, 'r) machine) result" where
  "executor_branch cf es conditions M =
     (let N = length conditions in
      assert_res (N \<noteq> 0)
        (bind_res
          (if (case MaxForks cf of None \<Rightarrow> False | Some n \<Rightarrow> n \<le> forks M)
           then (case getInt32 cf (rng M) of (n, r) \<Rightarrow>
                   Inr ((replicate N None)[n mod N := Some es], M\<lparr>rng := r\<rparr>))
           else map_res (\<lambda>(result, M'). (map Some result, M'))
             (branch_more cf (N - 1) [es] (M\<lparr>forks := forks M + (N - 1)\<rparr>)))
          (\<lambda>(result, M1). map_res (\<lambda>M2. (result, M2)) (constrain_each cf result conditions M1))))"

section \<open>What a state becomes\<close>

text \<open>A state at the same point of the program with a path condition that asks for \<open>P\<close> too.\<close>

definition same_program :: "exec_state \<Rightarrow> exec_state \<Rightarrow> bool" where
  "same_program s t \<longleftrightarrow> pc t = pc s \<and> prevPC t = prevPC s \<and> stack t = stack s
     \<and> symbolics t = symbolics s \<and> objects (addressSpace t) = objects (addressSpace s)
     \<and> forkDisabled t = forkDisabled s \<and> openMergeStack t = openMergeStack s"

definition narrowed :: "exec_state \<Rightarrow> (env \<Rightarrow> bool) \<Rightarrow> exec_state \<Rightarrow> bool" where
  "narrowed s P t \<longleftrightarrow> same_program s t \<and> wf_constraints (constraints t)
     \<and> (\<forall>\<rho>. drives \<rho> t \<longleftrightarrow> drives \<rho> s \<and> P \<rho>)"

definition framed :: "exec_state \<Rightarrow> bool" where
  "framed s \<longleftrightarrow> (\<forall>f \<in> set (stack s). length (locals f) = numRegisters (kf f))"

text \<open>Two heaps whose objects hold the same bytes.\<close>

definition same_heap :: "store \<Rightarrow> store \<Rightarrow> bool" where
  "same_heap st st' \<longleftrightarrow> (\<forall>oid. rel_option (\<lambda>os os'. os' = os \<or> same_contents os os') (objs st oid) (objs st' oid))"

text \<open>What an operation leaves alone that works on the state \<open>es\<close> and the new ones.\<close>

definition quiet :: "nat \<Rightarrow> ('m, 's, 'r) machine \<Rightarrow> ('m, 's, 'r) machine \<Rightarrow> bool" where
  "quiet es M M' \<longleftrightarrow>
     (\<forall>i. i \<noteq> es \<longrightarrow> est (exe M) i \<noteq> None \<longrightarrow> est (exe M') i = est (exe M) i)
   \<and> dom (est (exe M)) \<subseteq> dom (est (exe M'))
   \<and> (finite (dom (est (exe M))) \<longrightarrow> finite (dom (est (exe M'))))
   \<and> same_heap (heap (exe M)) (heap (exe M')) \<and> removedStates (exe M') = removedStates (exe M)
   \<and> testCases M' = testCases M \<and> emittedErrors M' = emittedErrors M
   \<and> atMemoryLimit M' = atMemoryLimit M \<and> inhibitForking M' = inhibitForking M
   \<and> haltExecution M' = haltExecution M"

lemma same_program_refl [simp]: "same_program s s"
  by (simp add: same_program_def)

lemma same_program_trans: "same_program s t \<Longrightarrow> same_program t u \<Longrightarrow> same_program s u"
  by (simp add: same_program_def)

lemma narrowedD:
  assumes "narrowed s P t"
  shows "same_program s t" "wf_constraints (constraints t)" "drives \<rho> t \<longleftrightarrow> drives \<rho> s \<and> P \<rho>"
  using assms by (simp_all add: narrowed_def)

lemma narrowed_trans: "narrowed s P t \<Longrightarrow> narrowed t Q u \<Longrightarrow> narrowed s (\<lambda>\<rho>. P \<rho> \<and> Q \<rho>) u"
  by (auto simp: narrowed_def intro: same_program_trans)

lemma narrowed_cong: "narrowed s P t \<Longrightarrow> (\<And>\<rho>. drives \<rho> s \<Longrightarrow> P \<rho> \<longleftrightarrow> Q \<rho>) \<Longrightarrow> narrowed s Q t"
  by (auto simp: narrowed_def)

lemma narrowed_live: "narrowed s P t \<Longrightarrow> drives \<rho> s \<Longrightarrow> P \<rho> \<Longrightarrow> live t"
  by (auto simp: narrowed_def live_def)

lemma framed_same: "same_program s t \<Longrightarrow> framed t = framed s"
  by (simp add: same_program_def framed_def)

lemma same_heap_refl [simp]: "same_heap st st"
  by (simp add: same_heap_def option.rel_refl)

lemma same_heap_trans:
  assumes "same_heap a b" "same_heap b c"
  shows "same_heap a c"
  unfolding same_heap_def
proof
  fix oid
  have "rel_option (\<lambda>os os'. os' = os \<or> same_contents os os') (objs a oid) (objs b oid)"
    "rel_option (\<lambda>os os'. os' = os \<or> same_contents os os') (objs b oid) (objs c oid)"
    using assms by (simp_all add: same_heap_def)
  then show "rel_option (\<lambda>os os'. os' = os \<or> same_contents os os') (objs a oid) (objs c oid)"
    by (auto simp: option_rel_Some1 dest: same_contents_trans elim!: option.rel_cases)
qed

lemma quiet_refl [simp]: "quiet es M M"
  by (simp add: quiet_def)

lemma quiet_trans: "quiet es M M1 \<Longrightarrow> quiet es M1 M2 \<Longrightarrow> quiet es M M2"
  by (simp add: quiet_def) (metis subset_trans same_heap_trans)

lemma in_state_Some [simp]: "est (exe M) es = Some s \<Longrightarrow> in_state es M f = f s"
  by (simp add: in_state_def with_state_def)

lemma set_state_simps [simp]:
  "est (exe (set_state es s M)) = (est (exe M))(es \<mapsto> s)" "heap (exe (set_state es s M)) = heap (exe M)"
  "removedStates (exe (set_state es s M)) = removedStates (exe M)"
  "solver (set_state es s M) = solver M" "testCases (set_state es s M) = testCases M"
  "emittedErrors (set_state es s M) = emittedErrors M" "atMemoryLimit (set_state es s M) = atMemoryLimit M"
  "inhibitForking (set_state es s M) = inhibitForking M" "haltExecution (set_state es s M) = haltExecution M"
  by (simp_all add: set_state_def put_state_def)

lemma quiet_set_state [simp]: "est (exe M) es \<noteq> None \<Longrightarrow> quiet es M (set_state es s M)"
  by (auto simp: quiet_def)

lemma set_state_self: "est (exe M) es = Some s \<Longrightarrow> set_state es s M = M"
  by (simp add: set_state_def put_state_def fun_upd_idem)

section \<open>Adding a constraint\<close>

lemma drives_iff: "drives \<rho> (s\<lparr>constraints := cs\<rparr>) \<longleftrightarrow> wf_model \<rho> \<and> sat \<rho> cs"
  by (simp add: drives_def)

lemma exec_addConstraint_ok:
  assumes s: "est (exe M) es = Some s" and cs: "wf_constraints (constraints s)"
    and c: "wf_expr c" "getWidth c = 1"
  shows "exec_addConstraint cf es c M = Inr M' \<Longrightarrow>
      \<exists>t. M' = set_state es t M \<and> narrowed s (\<lambda>\<rho>. eval \<rho> c = 1) t \<and> depth t = depth s"
    and "exec_addConstraint cf es c M = Inl InvalidConstraint \<Longrightarrow> drives \<rho> s \<Longrightarrow> eval \<rho> c \<noteq> 1"
proof -
  note A = adder_okD[OF addConstraint_ok cs c, of "constraint_fuel cf"]
  show "\<exists>t. M' = set_state es t M \<and> narrowed s (\<lambda>\<rho>. eval \<rho> c = 1) t \<and> depth t = depth s"
    if r: "exec_addConstraint cf es c M = Inr M'"
  proof (cases "is_Constant c")
    case True
    then obtain v where "c = Constant 1 v" using c(2) by (cases c) auto
    with r c(1) cs s have "M' = set_state es s M \<and> narrowed s (\<lambda>\<rho>. eval \<rho> c = 1) s"
      by (auto simp: exec_addConstraint_def narrowed_def set_state_self in_width_bool split: if_splits)
    then show ?thesis by blast
  next
    case False
    with r s obtain cs' where cs': "addConstraint (constraint_fuel cf) (constraints s) c = Inr cs'"
      "M' = set_state es (s\<lparr>constraints := cs'\<rparr>) M"
      by (auto simp: exec_addConstraint_def state_addConstraint_def)
    have "narrowed s (\<lambda>\<rho>. eval \<rho> c = 1) (s\<lparr>constraints := cs'\<rparr>)"
      unfolding narrowed_def drives_iff using A(1,2)[OF cs'(1)]
      by (auto simp: same_program_def drives_def wf_model_env)
    with cs'(2) show ?thesis by (intro exI[of _ "s\<lparr>constraints := cs'\<rparr>"]) simp
  qed
  show "eval \<rho> c \<noteq> 1" if r: "exec_addConstraint cf es c M = Inl InvalidConstraint" and d: "drives \<rho> s"
  proof (cases "is_Constant c")
    case True
    then obtain v where "c = Constant 1 v" using c(2) by (cases c) auto
    with r show ?thesis by (auto simp: exec_addConstraint_def split: if_splits)
  next
    case False
    with r s have "addConstraint (constraint_fuel cf) (constraints s) c = Inl InvalidConstraint"
      by (simp add: exec_addConstraint_def state_addConstraint_def)
    from A(3)[OF this drives_env[OF d]] d show ?thesis by (simp add: drives_def)
  qed
qed

text \<open>Both sides of a condition.\<close>

lemma side_condition:
  assumes "wf_expr c" "getWidth c = 1"
  shows "wf_expr (if b then c else createIsZero c)" "getWidth (if b then c else createIsZero c) = 1"
    "wf_env \<rho> \<Longrightarrow> eval \<rho> (if b then c else createIsZero c) = 1 \<longleftrightarrow> eval \<rho> c = of_bool b"
  using createIsZero_facts[OF assms(1)] eval_bool[OF _ assms, of \<rho>] assms by auto

lemma add_side_ok:
  assumes s: "est (exe M) es = Some s" and cs: "wf_constraints (constraints s)"
    and c: "wf_expr c" "getWidth c = 1"
  shows "exec_addConstraint cf es (if b then c else createIsZero c) M = Inr M' \<Longrightarrow>
      \<exists>t. M' = set_state es t M \<and> narrowed s (\<lambda>\<rho>. eval \<rho> c = of_bool b) t \<and> depth t = depth s"
    and "exec_addConstraint cf es (if b then c else createIsZero c) M = Inl InvalidConstraint
      \<Longrightarrow> drives \<rho> s \<Longrightarrow> eval \<rho> c \<noteq> of_bool b"
proof -
  note ok = exec_addConstraint_ok[OF s cs side_condition(1,2)[OF c, of b]]
  show "\<exists>t. M' = set_state es t M \<and> narrowed s (\<lambda>\<rho>. eval \<rho> c = of_bool b) t \<and> depth t = depth s"
    if r: "exec_addConstraint cf es (if b then c else createIsZero c) M = Inr M'"
  proof -
    obtain t where t: "M' = set_state es t M" "depth t = depth s"
      and n: "narrowed s (\<lambda>\<rho>. eval \<rho> (if b then c else createIsZero c) = 1) t"
      using ok(1)[OF r] by blast
    have "narrowed s (\<lambda>\<rho>. eval \<rho> c = of_bool b) t"
      by (rule narrowed_cong[OF n]) (rule side_condition(3)[OF c drives_env])
    with t show ?thesis by blast
  qed
  show "eval \<rho> c \<noteq> of_bool b"
    if "exec_addConstraint cf es (if b then c else createIsZero c) M = Inl InvalidConstraint" "drives \<rho> s"
    using ok(2)[OF that] side_condition(3)[OF c drives_env[OF that(2)]] by blast
qed

section \<open>What a fork promises\<close>

text \<open>
  Where a fork may give a side up, besides a solver that does not answer: in a replay, where
  forking is off, and past the depth allowed.
\<close>

definition limited_fork :: "('m, 's, 'r) options \<Rightarrow> exec_state \<Rightarrow> bool \<Rightarrow> ('m, 's, 'r) machine \<Rightarrow> bool" where
  "limited_fork cf s isInternal M \<longleftrightarrow> \<not> isInternal \<and> replayPath cf \<noteq> None \<or> forks_inhibited cf s M
     \<or> MaxDepth cf \<noteq> 0 \<and> MaxDepth cf \<le> (depth s + 1) mod 2 ^ 32"

definition side_of :: "bool \<Rightarrow> exec_state \<Rightarrow> (env \<Rightarrow> bool) \<Rightarrow> ('m, 's, 'r) machine \<Rightarrow> nat option \<Rightarrow> bool" where
  "side_of lost s P M' r \<longleftrightarrow> (case r of
       None \<Rightarrow> lost \<or> (\<forall>\<rho>. drives \<rho> s \<longrightarrow> \<not> P \<rho>)
     | Some i \<Rightarrow> \<exists>t. est (exe M') i = Some t \<and> narrowed s P t \<and> live t)"

definition forked :: "bool \<Rightarrow> exec_state \<Rightarrow> expr \<Rightarrow> nat \<Rightarrow> ('m, 's, 'r) machine
    \<Rightarrow> nat option \<times> nat option \<Rightarrow> ('m, 's, 'r) machine \<Rightarrow> bool" where
  "forked lost s c es M r M' \<longleftrightarrow>
     side_of lost s (\<lambda>\<rho>. eval \<rho> c = 1) M' (fst r) \<and> side_of lost s (\<lambda>\<rho>. eval \<rho> c = 0) M' (snd r)
   \<and> (r \<noteq> (None, None) \<longrightarrow> quiet es M M')
   \<and> (\<forall>i. fst r = Some i \<or> snd r = Some i \<longrightarrow> i = es \<or> est (exe M) i = None)
   \<and> (fst r \<noteq> None \<longrightarrow> fst r \<noteq> snd r)"

lemma side_ofI:
  "est (exe M') i = Some t \<Longrightarrow> narrowed s P t \<Longrightarrow> drives \<rho> s \<Longrightarrow> P \<rho> \<Longrightarrow> side_of lost s P M' (Some i)"
  by (auto simp: side_of_def intro: narrowed_live)

lemma side_of_None [simp]: "side_of lost s P M' None \<longleftrightarrow> lost \<or> (\<forall>\<rho>. drives \<rho> s \<longrightarrow> \<not> P \<rho>)"
  by (simp add: side_of_def)

lemma narrowed_self: "wf_constraints (constraints s) \<Longrightarrow> (\<And>\<rho>. drives \<rho> s \<Longrightarrow> P \<rho>) \<Longrightarrow> narrowed s P s"
  by (auto simp: narrowed_def)

lemma live_wf: "live s \<Longrightarrow> wf_constraints (constraints s)"
  by (simp add: live_def)

lemma verdict_takes:
  assumes s: "live s" and c: "wf_expr c" "getWidth c = 1"
    and v: "v = (if takes s c \<subseteq> {1} then SolverTrue else if takes s c \<subseteq> {0} then SolverFalse else SolverUnknown)"
  shows "v = SolverTrue \<Longrightarrow> drives \<rho> s \<Longrightarrow> eval \<rho> c = 1"
    and "v = SolverFalse \<Longrightarrow> drives \<rho> s \<Longrightarrow> eval \<rho> c = 0"
    and "v = SolverUnknown \<Longrightarrow> \<exists>\<rho>. drives \<rho> s \<and> eval \<rho> c = of_bool b"
proof -
  show "v = SolverTrue \<Longrightarrow> drives \<rho> s \<Longrightarrow> eval \<rho> c = 1" "v = SolverFalse \<Longrightarrow> drives \<rho> s \<Longrightarrow> eval \<rho> c = 0"
    using v takesI[of \<rho> s c] by (auto split: if_splits)
  assume "v = SolverUnknown"
  with v bool_takes[OF c, of s] have "of_bool b \<in> takes s c" by (cases b) (auto split: if_splits)
  then show "\<exists>\<rho>. drives \<rho> s \<and> eval \<rho> c = of_bool b" by (auto elim!: takesE)
qed

lemma settle_ok:
  assumes s: "est (exe M) es = Some s" and cs: "wf_constraints (constraints s)"
    and c: "wf_expr c" "getWidth c = 1"
    and r: "settle cf es s c isInternal v M = Inr (v', M')"
  shows "v' = v \<and> est (exe M') = est (exe M) \<and> exe M' = exe M \<and> quiet es M M' \<and> solver M' = solver M
        \<and> forks M' = forks M
      \<or> v = SolverUnknown \<and> (\<not> isInternal \<and> replayPath cf \<noteq> None \<or> forks_inhibited cf s M)
        \<and> solver M' = solver M \<and> quiet es M M'
        \<and> (\<exists>b t. v' = (if b then SolverTrue else SolverFalse) \<and> est (exe M') es = Some t
            \<and> narrowed s (\<lambda>\<rho>. eval \<rho> c = of_bool b) t)"
    (is "?same \<or> ?chosen")
proof -
  have chosen: "solver M' = solver M \<and> quiet es M M' \<and> (\<exists>b t. v' = (if b then SolverTrue else SolverFalse)
      \<and> est (exe M') es = Some t \<and> narrowed s (\<lambda>\<rho>. eval \<rho> c = of_bool b) t)"
    if ch: "choose_side cf es c b M1 = Inr (v', M')" and M1: "exe M1 = exe M" "quiet es M M1" "solver M1 = solver M"
    for b M1
  proof -
    have "est (exe M1) es = Some s" using s M1(1) by simp
    from add_side_ok(1)[OF this cs c, of cf b M'] ch obtain t where
      t: "M' = set_state es t M1" "narrowed s (\<lambda>\<rho>. eval \<rho> c = of_bool b) t"
      and v': "v' = (if b then SolverTrue else SolverFalse)"
      by (auto simp: choose_side_def)
    have "quiet es M1 M'" using t(1) s M1(1) by simp
    note q = quiet_trans[OF M1(2) this]
    have "solver M' = solver M" "est (exe M') es = Some t" using t(1) M1(3) by simp_all
    with q t(2) v' show ?thesis by blast
  qed
  have q: "quiet es M (M\<lparr>replayPosition := k\<rparr>)" "quiet es M (M\<lparr>rng := x\<rparr>)" for k x
    by (simp_all add: quiet_def)
  show ?thesis
  proof (cases "if isInternal then None else replayPath cf")
    case None
    show ?thesis
    proof (cases "v = SolverUnknown \<and> forks_inhibited cf s M")
      case True
      obtain b x where b: "getBool (getInt32 cf) (rng M) = (b, x)" by fastforce
      with True None r have "choose_side cf es c b (M\<lparr>rng := x\<rparr>) = Inr (v', M')"
        by (simp add: settle_def)
      from chosen[OF this _ q(2)] True show ?thesis by simp
    next
      case False
      with None r have "v' = v \<and> M' = M" by (auto simp: settle_def split: if_splits)
      then show ?thesis by simp
    qed
  next
    case (Some branches)
    then have rp: "\<not> isInternal \<and> replayPath cf \<noteq> None" by (auto split: if_splits)
    let ?M1 = "M\<lparr>replayPosition := replayPosition M + 1\<rparr>"
    show ?thesis
    proof (cases v)
      case SolverUnknown
      with Some r have "choose_side cf es c (branches ! replayPosition M) ?M1 = Inr (v', M')"
        by (simp add: settle_def)
      from chosen[OF this _ q(1)] SolverUnknown rp show ?thesis by simp
    qed (use Some r q(1) in \<open>auto simp: settle_def\<close>)
  qed
qed

lemma settle_error:
  assumes s: "est (exe M) es = Some s" and cs: "wf_constraints (constraints s)"
    and r: "settle cf es s c isInternal v M = Inl InvalidConstraint"
  shows "\<not> isInternal \<and> replayPath cf \<noteq> None \<or> forks_inhibited cf s M"
  using r by (auto simp: settle_def assert_res_def split: option.splits validity.splits if_splits)

lemma each_inherit_fields:
  "each (inherit_handler es') hs ex = Inr ex' \<Longrightarrow> \<exists>f. ex' = ex\<lparr>handlers := f\<rparr>"
proof (induction hs arbitrary: ex)
  case Nil
  then show ?case by (auto intro: exI[of _ "handlers ex"])
next
  case (Cons h hs)
  then obtain ex1 where ex1: "inherit_handler es' h ex = Inr ex1" "each (inherit_handler es') hs ex1 = Inr ex'"
    by auto
  from ex1(1) obtain f where "ex1 = ex\<lparr>handlers := f\<rparr>"
    by (auto simp: inherit_handler_def with_handler_def put_handler_def split: option.splits)
  with Cons.IH[OF ex1(2)] show ?case by auto
qed

lemma fork_state_fields:
  assumes s: "est ex es = Some s" "framed s" "wf_constraints (constraints s)"
    and es': "est ex es' = None" and r: "fork_state es es' ex = Inr ex'"
  shows "\<exists>t u. est ex' = (est ex)(es \<mapsto> t, es' \<mapsto> u) \<and> narrowed s (\<lambda>_. True) t \<and> narrowed s (\<lambda>_. True) u
    \<and> depth t = (depth s + 1) mod 2 ^ 32 \<and> depth u = depth t
    \<and> heap ex' = heap ex \<and> removedStates ex' = removedStates ex"
proof -
  obtain t u where b: "branch s = (t, u)" by fastforce
  from r s(1) b obtain ex1 where "each (inherit_handler es') (openMergeStack s) (put_state es' u (put_state es t ex)) = Inr ex1"
    and ex': "ex' = ex1\<lparr>addedStates := addedStates ex1 @ [es']\<rparr>"
    by (auto simp: fork_state_def with_state_def)
  from each_inherit_fields[OF this(1)] obtain f where
    f: "ex1 = (put_state es' u (put_state es t ex))\<lparr>handlers := f\<rparr>" by blast
  note B = branch_fields[OF b]
  have st: "stack u = stack s" using s(2) B(7) by (simp add: framed_def map_idI copy_StackFrame_id)
  have sp: "objects (addressSpace t) = objects (addressSpace s)" "objects (addressSpace u) = objects (addressSpace s)"
    using copy_AddressSpace_objects[OF B(1)] by simp_all
  have fd: "prevPC t = prevPC s" "prevPC u = prevPC s" "forkDisabled t = forkDisabled s" "forkDisabled u = forkDisabled s"
    using b by (auto simp: branch_def copy_ExecutionState_def split: prod.splits)
  have "narrowed s (\<lambda>_. True) t" "narrowed s (\<lambda>_. True) u"
    using s(3) B st sp fd by (simp_all add: narrowed_def same_program_def drives_def)
  moreover have "est ex' = (est ex)(es \<mapsto> t, es' \<mapsto> u)" "heap ex' = heap ex" "removedStates ex' = removedStates ex"
    by (simp_all add: ex' f put_state_def)
  ultimately show ?thesis using B(10,11) by blast
qed

lemma fork_state_error: "fork_state es es' ex \<noteq> Inl InvalidConstraint"
proof -
  have "each (inherit_handler es') hs e \<noteq> Inl InvalidConstraint" for hs and e :: "'b executor"
    by (induction hs arbitrary: e)
      (auto simp: inherit_handler_def with_handler_def bind_res_Inl split: option.splits)
  then show ?thesis by (auto simp: fork_state_def with_state_def split: option.splits prod.splits)
qed

lemma exec_terminateState_simps:
  assumes "exec_terminateState cf es M = Inr M'"
  shows "solver M' = solver M" "testCases M' = testCases M" "emittedErrors M' = emittedErrors M"
    "atMemoryLimit M' = atMemoryLimit M" "inhibitForking M' = inhibitForking M" "forks M' = forks M"
  using assms by (auto simp: exec_terminateState_def)

lemma terminateStateEarly_solver: "terminateStateEarly cf es m M = Inr M' \<Longrightarrow> solver M' = solver M"
  by (auto simp: terminateStateEarly_def in_state_def with_state_def dest!: exec_terminateState_simps(1)
      split: option.splits if_splits)

lemma split_state_ok:
  assumes s: "est (exe M) es = Some s" "framed s" "wf_constraints (constraints s)"
    and c: "wf_expr c" "getWidth c = 1"
    and fresh: "est (exe M) (allocate cf (est (exe M))) = None"
    and both: "\<And>b. \<exists>\<rho>. drives \<rho> s \<and> eval \<rho> c = of_bool b"
  defines "deep \<equiv> MaxDepth cf \<noteq> 0 \<and> MaxDepth cf \<le> (depth s + 1) mod 2 ^ 32"
  shows "split_state cf es c M = Inr (r, M') \<Longrightarrow> forked deep s c es M r M' \<and> solver M' = solver M"
    and "split_state cf es c M = Inl InvalidConstraint \<Longrightarrow> deep"
proof -
  define u where "u = allocate cf (est (exe M))"
  note fs = fork_state_fields[OF s fresh, folded u_def]
  have u: "u \<noteq> es" "est (exe M) u = None" using fresh s(1) by (auto simp: u_def)
  have sides: "deep \<or> M' = M2 \<and> r = (Some es, Some u) \<and> forked False s c es M r M' \<and> solver M' = solver M"
    "deep \<Longrightarrow> r = (None, None) \<and> solver M' = solver M"
    if ex: "fork_state es u (exe M) = Inr ex"
      and M1: "exec_addConstraint cf es c (M\<lparr>exe := ex, forks := forks M + 1\<rparr>) = Inr M1"
      and M2: "exec_addConstraint cf u (createIsZero c) M1 = Inr M2"
      and r: "in_state es M2 (\<lambda>t.
        if MaxDepth cf \<noteq> 0 \<and> MaxDepth cf \<le> depth t
        then bind_res (terminateStateEarly cf es ''max-depth exceeded.'' M2) (\<lambda>M3.
               map_res (\<lambda>M4. ((None, None), M4)) (terminateStateEarly cf u ''max-depth exceeded.'' M3))
        else Inr ((Some es, Some u), M2)) = Inr (r, M')"
    for ex M1 M2
  proof -
    obtain t f where tf: "est ex = (est (exe M))(es \<mapsto> t, u \<mapsto> f)" "narrowed s (\<lambda>_. True) t" "narrowed s (\<lambda>_. True) f"
      "depth t = (depth s + 1) mod 2 ^ 32" "heap ex = heap (exe M)" "removedStates ex = removedStates (exe M)"
      using fs[OF ex] by blast
    let ?M0 = "M\<lparr>exe := ex, forks := forks M + 1\<rparr>"
    have t: "est (exe ?M0) es = Some t" "wf_constraints (constraints t)"
      using tf(1,2) u(1) by (simp_all add: narrowedD)
    from add_side_ok(1)[OF t c, of cf True M1] M1 obtain t' where
      t': "M1 = set_state es t' ?M0" "narrowed t (\<lambda>\<rho>. eval \<rho> c = 1) t'" "depth t' = depth t" by auto
    have f: "est (exe M1) u = Some f" "wf_constraints (constraints f)"
      using tf(1,3) u(1) by (simp_all add: t'(1) narrowedD)
    from add_side_ok(1)[OF f c, of cf False M2] M2 obtain f' where
      f': "M2 = set_state u f' M1" "narrowed f (\<lambda>\<rho>. eval \<rho> c = 0) f'" by auto
    have est2: "est (exe M2) = (est (exe M))(es \<mapsto> t', u \<mapsto> f')"
      using u(1) tf(1) by (auto simp: f'(1) t'(1))
    have n: "narrowed s (\<lambda>\<rho>. eval \<rho> c = 1) t'" "narrowed s (\<lambda>\<rho>. eval \<rho> c = 0) f'"
      using narrowed_trans[OF tf(2) t'(2)] narrowed_trans[OF tf(3) f'(2)] by simp_all
    have q: "quiet es M M2"
      using tf(5,6) u est2 by (auto simp: quiet_def f'(1) t'(1))
    have sol: "solver M2 = solver M" by (simp add: f'(1) t'(1))
    have "side_of False s (\<lambda>\<rho>. eval \<rho> c = 1) M2 (Some es)" "side_of False s (\<lambda>\<rho>. eval \<rho> c = 0) M2 (Some u)"
      using side_ofI[OF _ n(1), of M2 es] side_ofI[OF _ n(2), of M2 u] both[of True] both[of False] u(1)
      by (auto simp: est2)
    then have fk: "forked False s c es M (Some es, Some u) M2"
      using q u by (simp add: forked_def)
    have t2: "est (exe M2) es = Some t'" using est2 u(1) by simp
    have d: "MaxDepth cf \<noteq> 0 \<and> MaxDepth cf \<le> depth t' \<longleftrightarrow> deep" by (simp add: t'(3) tf(4) deep_def)
    note r = r[unfolded in_state_Some[OF t2] d]
    show "deep \<or> M' = M2 \<and> r = (Some es, Some u) \<and> forked False s c es M r M' \<and> solver M' = solver M"
      using r fk sol by (cases deep) auto
    show "r = (None, None) \<and> solver M' = solver M" if deep
      using r that sol by (auto dest!: terminateStateEarly_solver)
  qed
  show "forked deep s c es M r M' \<and> solver M' = solver M" if r: "split_state cf es c M = Inr (r, M')"
  proof -
    from r obtain ex M1 M2 where "fork_state es u (exe M) = Inr ex"
      "exec_addConstraint cf es c (M\<lparr>exe := ex, forks := forks M + 1\<rparr>) = Inr M1"
      "exec_addConstraint cf u (createIsZero c) M1 = Inr M2"
      "in_state es M2 (\<lambda>t.
        if MaxDepth cf \<noteq> 0 \<and> MaxDepth cf \<le> depth t
        then bind_res (terminateStateEarly cf es ''max-depth exceeded.'' M2) (\<lambda>M3.
               map_res (\<lambda>M4. ((None, None), M4)) (terminateStateEarly cf u ''max-depth exceeded.'' M3))
        else Inr ((Some es, Some u), M2)) = Inr (r, M')"
      unfolding split_state_def Let_def u_def by auto
    from sides[OF this] show ?thesis by (cases deep) (auto simp: forked_def)
  qed
  show deep if r: "split_state cf es c M = Inl InvalidConstraint"
  proof (rule ccontr)
    assume nd: "\<not> deep"
    from r fork_state_error obtain ex where ex: "fork_state es u (exe M) = Inr ex"
      unfolding split_state_def Let_def u_def[symmetric] by (auto simp: bind_res_Inl)
    obtain t f where tf: "est ex = (est (exe M))(es \<mapsto> t, u \<mapsto> f)" "narrowed s (\<lambda>_. True) t" "narrowed s (\<lambda>_. True) f"
      "depth t = (depth s + 1) mod 2 ^ 32" using fs[OF ex] by blast
    let ?M0 = "M\<lparr>exe := ex, forks := forks M + 1\<rparr>"
    have t: "est (exe ?M0) es = Some t" "wf_constraints (constraints t)"
      using tf(1,2) u(1) by (simp_all add: narrowedD)
    have dt: "drives \<rho> t \<longleftrightarrow> drives \<rho> s" "drives \<rho> f \<longleftrightarrow> drives \<rho> s" for \<rho>
      using narrowedD(3)[OF tf(2)] narrowedD(3)[OF tf(3)] by simp_all
    have "exec_addConstraint cf es c ?M0 \<noteq> Inl InvalidConstraint"
      using add_side_ok(2)[OF t c, of cf True] both[of True] dt by auto
    with r ex obtain M1 where M1: "exec_addConstraint cf es c ?M0 = Inr M1"
      unfolding split_state_def Let_def u_def[symmetric] by (auto simp: bind_res_Inl)
    from add_side_ok(1)[OF t c, of cf True M1] M1 obtain t' where
      t': "M1 = set_state es t' ?M0" "depth t' = depth t" by auto
    have f: "est (exe M1) u = Some f" "wf_constraints (constraints f)"
      using tf(1,3) u(1) by (simp_all add: t'(1) narrowedD)
    have "exec_addConstraint cf u (createIsZero c) M1 \<noteq> Inl InvalidConstraint"
      using add_side_ok(2)[OF f c, of cf False] both[of False] dt by auto
    with r ex M1 obtain M2 where M2: "exec_addConstraint cf u (createIsZero c) M1 = Inr M2"
      unfolding split_state_def Let_def u_def[symmetric] by (auto simp: bind_res_Inl)
    from add_side_ok(1)[OF f c, of cf False M2] M2 obtain f' where f': "M2 = set_state u f' M1" by auto
    have "est (exe M2) es = Some t'" using u(1) by (simp add: f' t'(1))
    with r ex M1 M2 nd show False
      unfolding split_state_def Let_def u_def[symmetric] by (auto simp: t'(2) tf(4) deep_def split: if_splits)
  qed
qed

lemma forked_from:
  assumes "forked l s c es M1 r M'" "exe M1 = exe M" "quiet es M M1" "l \<Longrightarrow> lost"
  shows "forked lost s c es M r M'"
proof -
  have "side_of l s P M' x \<Longrightarrow> side_of lost s P M' x" for P x
    using assms(4) by (auto simp: side_of_def split: option.splits)
  then show ?thesis
    using assms(1-3) quiet_trans[OF assms(3), of M'] by (auto simp: forked_def)
qed

context timing_solver begin

lemma fork_ok:
  fixes isInternal :: bool
  assumes T: "timing cf = T" and sol: "ok (solver M)"
    and s: "est (exe M) es = Some s" "live s" "framed s" and c: "wf_expr c" "getWidth c = 1"
    and fresh: "est (exe M) (allocate cf (est (exe M))) = None"
  defines "lost \<equiv> limited_fork cf s isInternal M \<or> am \<noteq> MustAnswer"
  shows "fork cf es c isInternal M = Inr (r, M') \<Longrightarrow> forked lost s c es M r M' \<and> ok (solver M')"
    and "fork cf es c isInternal M = Inl InvalidConstraint \<Longrightarrow> lost"
proof -
  let ?verdict = "if takes s c \<subseteq> {1} then SolverTrue else if takes s c \<subseteq> {0} then SolverFalse else SolverUnknown"
  have ans: "answers am ok (\<lambda>v. v = ?verdict) (ts_evaluate T s c (solver M))"
    by (rule ts_evaluate_ok[OF sol s(2) c])
  note cs = live_wf[OF s(2)]
  note fork = fork_def[of cf es c isInternal M, unfolded in_state_Some[OF s(1)] T]
  have after: "forked lost s c es M r M' \<and> ok (solver M')"
    if v: "v = ?verdict" and sol': "ok sol'"
      and st: "settle cf es s c isInternal v (M\<lparr>solver := sol'\<rparr>) = Inr (v', M1)"
      and r: "(case v' of SolverTrue \<Rightarrow> Inr ((Some es, None), M1) | SolverFalse \<Rightarrow> Inr ((None, Some es), M1)
        | SolverUnknown \<Rightarrow> split_state cf es c M1) = Inr (r, M')"
    for v sol' v' M1
  proof -
    let ?M0 = "M\<lparr>solver := sol'\<rparr>"
    have s0: "est (exe ?M0) es = Some s" using s(1) by simp
    have q0: "quiet es M ?M0" by (simp add: quiet_def)
    have inh: "forks_inhibited cf s ?M0 = forks_inhibited cf s M" by (simp add: forks_inhibited_def cong: option.case_cong)
    note vt = verdict_takes[OF s(2) c v]
    obtain \<rho> where \<rho>: "drives \<rho> s" using s(2) by (auto simp: live_def)
    consider (same) "v' = v" "exe M1 = exe ?M0" "quiet es ?M0 M1" "solver M1 = solver ?M0"
      | (chosen) b t where "\<not> isInternal \<and> replayPath cf \<noteq> None \<or> forks_inhibited cf s ?M0" "v = SolverUnknown"
          "solver M1 = solver ?M0" "quiet es ?M0 M1" "v' = (if b then SolverTrue else SolverFalse)"
          "est (exe M1) es = Some t" "narrowed s (\<lambda>\<rho>. eval \<rho> c = of_bool b) t"
      using settle_ok[OF s0 cs c st] by blast
    then show ?thesis
    proof cases
      case chosen
      note a = chosen(1,2) and sol1 = chosen(3) and q = chosen(4) and b = chosen(5) and t = chosen(6,7)
      have lost using a(1) inh by (auto simp: lost_def limited_fork_def)
      moreover obtain \<rho>' where "drives \<rho>' s" "eval \<rho>' c = of_bool b" using vt(3)[OF a(2)] by blast
      then have "side_of lost s (\<lambda>\<rho>. eval \<rho> c = of_bool b) M1 (Some es)" using side_ofI[OF t] by blast
      ultimately show ?thesis
        using r b sol1 sol' quiet_trans[OF q0 q] by (cases b) (auto simp: forked_def)
    next
      case same
      have e1: "exe M1 = exe M" "est (exe M1) es = Some s" using same(2) s(1) by simp_all
      have q: "quiet es M M1" by (rule quiet_trans[OF q0 same(3)])
      show ?thesis
      proof (cases v)
        case SolverTrue
        note t = vt(1)[OF SolverTrue]
        have "side_of lost s (\<lambda>\<rho>. eval \<rho> c = 1) M1 (Some es)"
          by (rule side_ofI[OF e1(2) narrowed_self[OF cs] \<rho>]) (use t \<rho> in auto)
        with r same SolverTrue sol' q t show ?thesis by (auto simp: forked_def)
      next
        case SolverFalse
        note t = vt(2)[OF SolverFalse]
        have "side_of lost s (\<lambda>\<rho>. eval \<rho> c = 0) M1 (Some es)"
          by (rule side_ofI[OF e1(2) narrowed_self[OF cs] \<rho>]) (use t \<rho> in auto)
        with r same SolverFalse sol' q t show ?thesis by (auto simp: forked_def)
      next
        case SolverUnknown
        have fr: "est (exe M1) (allocate cf (est (exe M1))) = None" using fresh e1(1) by simp
        have sp: "split_state cf es c M1 = Inr (r, M')" using r same(1) SolverUnknown by simp
        note ok = split_state_ok(1)[OF e1(2) s(3) cs c fr vt(3)[OF SolverUnknown] sp]
        have "forked lost s c es M r M'"
          by (rule forked_from[OF conjunct1[OF ok] e1(1) q]) (simp add: lost_def limited_fork_def)
        with ok sol' same(4) show ?thesis by simp
      qed
    qed
  qed
  show "forked lost s c es M r M' \<and> ok (solver M')" if r: "fork cf es c isInternal M = Inr (r, M')"
  proof -
    from r[unfolded fork] obtain v sol' where e: "ts_evaluate T s c (solver M) = Inr (v, sol')"
      by (auto split: prod.splits)
    show ?thesis
    proof (cases v)
      case None
      from ans e None have am: "am \<noteq> MustAnswer" "ok sol'" by (simp_all add: answers_def)
      from r e None have "r = (None, None)" "solver M' = sol'"
        unfolding fork by (auto dest!: terminateStateEarly_solver)
      with am show ?thesis by (simp add: forked_def lost_def)
    next
      case (Some w)
      from ans e Some have w: "w = ?verdict" "ok sol'" by (simp_all add: answers_def)
      from r e Some obtain v' M1 where "settle cf es s c isInternal w (M\<lparr>solver := sol'\<rparr>) = Inr (v', M1)"
        "(case v' of SolverTrue \<Rightarrow> Inr ((Some es, None), M1) | SolverFalse \<Rightarrow> Inr ((None, Some es), M1)
          | SolverUnknown \<Rightarrow> split_state cf es c M1) = Inr (r, M')"
        unfolding fork by auto
      from after[OF w this] show ?thesis .
    qed
  qed
  show lost if r: "fork cf es c isInternal M = Inl InvalidConstraint"
  proof (rule ccontr)
    assume nl: "\<not> lost"
    then have "am = MustAnswer" by (simp add: lost_def)
    with ans obtain v sol' where e: "ts_evaluate T s c (solver M) = Inr (Some v, sol')"
      and v: "v = ?verdict" using answers_MustAnswer[of ok _ "ts_evaluate T s c (solver M)"] by force
    let ?M0 = "M\<lparr>solver := sol'\<rparr>"
    have s0: "est (exe ?M0) es = Some s" using s(1) by simp
    have inh: "forks_inhibited cf s ?M0 = forks_inhibited cf s M" by (simp add: forks_inhibited_def cong: option.case_cong)
    have "settle cf es s c isInternal v ?M0 \<noteq> Inl InvalidConstraint"
      using settle_error[OF s0 cs, of cf c isInternal v] nl inh by (auto simp: lost_def limited_fork_def)
    with r e obtain v' M1 where st: "settle cf es s c isInternal v ?M0 = Inr (v', M1)"
      and sp: "(case v' of SolverTrue \<Rightarrow> Inr ((Some es, None), M1) | SolverFalse \<Rightarrow> Inr ((None, Some es), M1)
          | SolverUnknown \<Rightarrow> split_state cf es c M1) = Inl InvalidConstraint"
      unfolding fork by (auto simp: bind_res_Inl)
    from settle_ok[OF s0 cs c st] inh nl have same: "v' = v" "exe M1 = exe M"
      by (auto simp: lost_def limited_fork_def)
    from sp same(1) have "v = SolverUnknown" "split_state cf es c M1 = Inl InvalidConstraint"
      by (auto split: validity.splits)
    moreover have "est (exe M1) es = Some s" "est (exe M1) (allocate cf (est (exe M1))) = None"
      using s(1) fresh same(2) by simp_all
    ultimately show False
      using split_state_ok(2)[of M1 es s c cf] s(3) cs c verdict_takes(3)[OF s(2) c v] nl
      by (auto simp: lost_def limited_fork_def)
  qed
qed

end

section \<open>Branching on many conditions\<close>

definition allocates :: "('m, 's, 'r) options \<Rightarrow> bool" where
  "allocates cf \<longleftrightarrow> (\<forall>f. finite (dom f) \<longrightarrow> f (allocate cf f) = None)"

definition at_state :: "('m, 's, 'r) machine \<Rightarrow> nat \<Rightarrow> (exec_state \<Rightarrow> bool) \<Rightarrow> bool" where
  "at_state M i P \<longleftrightarrow> (\<exists>t. est (exe M) i = Some t \<and> P t)"

lemma branch_more_ok:
  assumes "branch_more cf k result M = Inr (result', M')" "allocates cf" "finite (dom (est (exe M)))"
    and "framed s" "result \<noteq> []" "distinct result" "\<forall>i \<in> set result. at_state M i (narrowed s (\<lambda>_. True))"
  shows "length result' = length result + k \<and> distinct result' \<and> prefix result result'
    \<and> (\<forall>i \<in> set result'. at_state M' i (narrowed s (\<lambda>_. True)))"
  using assms
proof (induction k arbitrary: result M)
  case (Suc k)
  obtain n r where nr: "getInt32 cf (rng M) = (n, r)" by fastforce
  define es where "es = result ! (n mod length result)"
  define ns where "ns = allocate cf (est (exe M))"
  have es: "es \<in> set result" using Suc.prems(5) by (simp add: es_def)
  have ns: "est (exe M) ns = None" using Suc.prems(2,3) by (simp add: allocates_def ns_def)
  obtain ex where ex: "fork_state es ns (exe M) = Inr ex"
    and rest: "branch_more cf k (result @ [ns]) (M\<lparr>exe := ex, rng := r\<rparr>) = Inr (result', M')"
    using Suc.prems(1) by (auto simp: nr es_def ns_def Let_def)
  obtain t where t: "est (exe M) es = Some t" "narrowed s (\<lambda>_. True) t"
    using Suc.prems(7) es by (auto simp: at_state_def)
  have fr: "framed t" "wf_constraints (constraints t)"
    using narrowedD(1,2)[OF t(2)] framed_same Suc.prems(4) by auto
  from fork_state_fields[OF t(1) fr ns ex] obtain a b where
    ab: "est ex = (est (exe M))(es \<mapsto> a, ns \<mapsto> b)" "narrowed t (\<lambda>_. True) a" "narrowed t (\<lambda>_. True) b" by blast
  have n: "narrowed s (\<lambda>_. True) a" "narrowed s (\<lambda>_. True) b"
    using narrowed_trans[OF t(2) ab(2)] narrowed_trans[OF t(2) ab(3)] by simp_all
  have fin: "finite (dom (est ex))" unfolding ab(1) using Suc.prems(3) by simp
  have nin: "ns \<notin> set result" using Suc.prems(7) ns by (auto simp: at_state_def)
  have st: "\<forall>i \<in> set (result @ [ns]). at_state (M\<lparr>exe := ex, rng := r\<rparr>) i (narrowed s (\<lambda>_. True))"
    using Suc.prems(7) n by (auto simp: at_state_def ab(1))
  have "length result' = length (result @ [ns]) + k \<and> distinct result' \<and> prefix (result @ [ns]) result'
      \<and> (\<forall>i \<in> set result'. at_state M' i (narrowed s (\<lambda>_. True)))"
    by (rule Suc.IH[OF rest Suc.prems(2) _ Suc.prems(4)])
      (use Suc.prems(6) fin nin st in simp_all)
  then show ?case by (auto dest: append_prefixD)
qed simp

lemma constrain_each_ok:
  assumes "constrain_each cf result conditions M = Inr M'" "length result = length conditions"
    and "distinct (filter (\<lambda>r. r \<noteq> None) result)" "\<forall>c \<in> set conditions. wf_expr c \<and> getWidth c = 1"
    and "\<forall>i. Some i \<in> set result \<longrightarrow> at_state M i (narrowed s (\<lambda>_. True))"
  shows "(\<forall>i. Some i \<notin> set result \<longrightarrow> est (exe M') i = est (exe M) i)
    \<and> (\<forall>k < length result. \<forall>i. result ! k = Some i \<longrightarrow> at_state M' i (narrowed s (\<lambda>\<rho>. eval \<rho> (conditions ! k) = 1)))"
  using assms
proof (induction cf result conditions M rule: constrain_each.induct)
  case (1 cf es result c conditions M)
  obtain M1 where M1: "exec_addConstraint cf es c M = Inr M1" "constrain_each cf result conditions M1 = Inr M'"
    using "1.prems"(1) by auto
  obtain t where t: "est (exe M) es = Some t" "narrowed s (\<lambda>_. True) t"
    using "1.prems"(5) by (auto simp: at_state_def)
  from exec_addConstraint_ok(1)[OF t(1) narrowedD(2)[OF t(2)] _ _ M1(1)] "1.prems"(4) obtain u where
    u: "M1 = set_state es u M" "narrowed t (\<lambda>\<rho>. eval \<rho> c = 1) u" by auto
  have n: "narrowed s (\<lambda>\<rho>. eval \<rho> c = 1) u" using narrowed_trans[OF t(2) u(2)] by simp
  have nin: "Some es \<notin> set result" using "1.prems"(3) by auto
  have "\<forall>i. Some i \<in> set result \<longrightarrow> at_state M1 i (narrowed s (\<lambda>_. True))"
    using "1.prems"(5) nin by (auto simp: at_state_def u(1))
  with "1.IH"[OF M1(1,2)] "1.prems"(2-4) have
    IH: "\<And>i. Some i \<notin> set result \<Longrightarrow> est (exe M') i = est (exe M1) i"
      "\<And>k i. k < length result \<Longrightarrow> result ! k = Some i \<Longrightarrow>
        at_state M' i (narrowed s (\<lambda>\<rho>. eval \<rho> (conditions ! k) = 1))" by auto
  have "at_state M' es (narrowed s (\<lambda>\<rho>. eval \<rho> c = 1))"
    using IH(1)[OF nin] n by (simp add: at_state_def u(1))
  with IH show ?case by (auto simp: u(1) nth_Cons split: nat.split)
next
  case (2 cf result c conditions M)
  then show ?case by (auto simp: nth_Cons split: nat.split)
qed auto

lemma executor_branch_ok:
  assumes r: "executor_branch cf es conditions M = Inr (result, M')"
    and s: "est (exe M) es = Some s" "wf_constraints (constraints s)" "framed s"
    and a: "allocates cf" "finite (dom (est (exe M)))"
    and c: "\<forall>c \<in> set conditions. wf_expr c \<and> getWidth c = 1"
  shows "length result = length conditions
    \<and> (\<forall>k < length result. \<forall>i. result ! k = Some i \<longrightarrow> at_state M' i (narrowed s (\<lambda>\<rho>. eval \<rho> (conditions ! k) = 1)))
    \<and> distinct (filter (\<lambda>r. r \<noteq> None) result)
    \<and> (if \<exists>n. MaxForks cf = Some n \<and> n \<le> forks M then \<exists>k < length result. result ! k = Some es
       else result ! 0 = Some es \<and> None \<notin> set result)"
proof -
  define N where "N = length conditions"
  have N: "N \<noteq> 0" using r by (auto simp: executor_branch_def Let_def N_def)
  have self: "narrowed s (\<lambda>_. True) s" using s(2) by (simp add: narrowed_self)
  let ?full = "\<exists>n. MaxForks cf = Some n \<and> n \<le> forks M"
  have full: "(case MaxForks cf of None \<Rightarrow> False | Some n \<Rightarrow> n \<le> forks M) \<longleftrightarrow> ?full"
    by (simp split: option.split)
  obtain M1 where st: "constrain_each cf result conditions M1 = Inr M'" "length result = N"
      "distinct (filter (\<lambda>r. r \<noteq> None) result)"
      "\<forall>i. Some i \<in> set result \<longrightarrow> at_state M1 i (narrowed s (\<lambda>_. True))"
    and which: "if ?full then \<exists>k < length result. result ! k = Some es else result ! 0 = Some es \<and> None \<notin> set result"
  proof (cases ?full)
    case True
    obtain n x where n: "getInt32 cf (rng M) = (n, x)" by fastforce
    from r True have res: "result = (replicate N None)[n mod N := Some es]"
      "constrain_each cf result conditions (M\<lparr>rng := x\<rparr>) = Inr M'"
      by (auto simp: executor_branch_def Let_def full n N_def)
    have "filter (\<lambda>r. r \<noteq> None) ((replicate N None)[k := Some es]) = (if k < N then [Some es] else [])" for k
      by (induction N arbitrary: k) (auto split: nat.split)
    then have d: "distinct (filter (\<lambda>r. r \<noteq> None) result)" by (simp add: res(1))
    have "i = es" if "Some i \<in> set result" for i
      using that set_update_subset_insert[of "replicate N None" "n mod N" "Some es"] by (auto simp: res(1))
    then have st: "\<forall>i. Some i \<in> set result \<longrightarrow> at_state (M\<lparr>rng := x\<rparr>) i (narrowed s (\<lambda>_. True))"
      using s(1) self by (auto simp: at_state_def)
    have "result ! (n mod N) = Some es" "n mod N < length result" using N by (simp_all add: res(1))
    then have "\<exists>k < length result. result ! k = Some es" by blast
    moreover have "length result = N" by (simp add: res(1))
    ultimately show ?thesis using that[OF res(2) _ d st] True by simp
  next
    case False
    with r obtain ids M1 where
      b: "branch_more cf (N - 1) [es] (M\<lparr>forks := forks M + (N - 1)\<rparr>) = Inr (ids, M1)"
        "result = map Some ids" "constrain_each cf result conditions M1 = Inr M'"
      by (auto simp: executor_branch_def Let_def full N_def)
    have "length ids = length [es] + (N - 1) \<and> distinct ids \<and> prefix [es] ids
        \<and> (\<forall>i \<in> set ids. at_state M1 i (narrowed s (\<lambda>_. True)))"
      by (rule branch_more_ok[OF b(1) a(1) _ s(3)]) (use a(2) s(1) self in \<open>simp_all add: at_state_def\<close>)
    moreover from this have "ids ! 0 = es" "ids \<noteq> []" by (auto simp: prefix_def)
    ultimately show ?thesis
      using that[of M1] b(2,3) False N by (auto simp: distinct_map)
  qed
  from constrain_each_ok[OF st(1) _ st(3) c st(4)] st(2,3) which show ?thesis by (simp add: N_def)
qed

end
