(* ===== verification/ExecMemory.thy ===== *)
theory ExecMemory
  imports Fork
begin

text \<open>
  What the executor does with symbolic values and addresses (\<open>klee/lib/Core/Executor.cpp\<close>):
  concretization, exact resolution and \<open>free\<close>, and the memory operation behind every load and
  store, which forks the state over the objects an address may lie in and reports the inputs
  that miss them all. Seeds, \<open>MakeConcreteSymbolic\<close> and the array optimizer (the identity unless
  it is switched on) are left out.
\<close>

section \<open>Registers and values\<close>

definition bindLocal :: "nat \<Rightarrow> expr \<Rightarrow> exec_state \<Rightarrow> exec_state result" where
  "bindLocal dest value s =
     (if stack s = [] then Inl NullDereference
      else let f = last (stack s) in
        assert_res (dest < length (locals f))
          (Inr (s\<lparr>stack := butlast (stack s) @ [f\<lparr>locals := (locals f)[dest := Some value]\<rparr>]\<rparr>)))"

definition bind_target :: "nat \<Rightarrow> nat \<Rightarrow> expr \<Rightarrow> ('m, 's, 'r) machine \<Rightarrow> ('m, 's, 'r) machine result" where
  "bind_target dest es value M =
     in_state es M (\<lambda>s. map_res (\<lambda>s'. set_state es s' M) (bindLocal dest value s))"

definition toUnique :: "('m, 's, 'r) options \<Rightarrow> exec_state \<Rightarrow> expr \<Rightarrow> 's \<Rightarrow> (expr \<times> 's) result" where
  "toUnique cf s e sol =
     (if is_Constant e then Inr (e, sol)
      else bind_res (ts_getValue (timing cf) s e sol) (\<lambda>(value, s1).
        case value of
          None \<Rightarrow> Inr (e, s1)
        | Some v \<Rightarrow> map_res (\<lambda>(isTrue, s2). (if isTrue = Some True then v else e, s2))
            (ts_mustBeTrue (timing cf) s (create_Eq e v) s1)))"

definition toConstant :: "('m, 's, 'r) options \<Rightarrow> nat \<Rightarrow> expr \<Rightarrow> ('m, 's, 'r) machine
    \<Rightarrow> (expr \<times> ('m, 's, 'r) machine) result" where
  "toConstant cf es e M =
     in_state es M (\<lambda>s.
       bind_res (simplifyExpr (constraint_fuel cf) (constraints s) e) (\<lambda>e.
         if is_Constant e then Inr (e, M)
         else bind_res (assert_success (ts_getValue (timing cf) s e (solver M))) (\<lambda>(value, sol).
           map_res (\<lambda>M'. (value, M'))
             (exec_addConstraint cf es (create_Eq e value) (M\<lparr>solver := sol\<rparr>)))))"

definition executeGetValue :: "('m, 's, 'r) options \<Rightarrow> nat \<Rightarrow> expr \<Rightarrow> nat \<Rightarrow> ('m, 's, 'r) machine
    \<Rightarrow> ('m, 's, 'r) machine result" where
  "executeGetValue cf es e target M =
     in_state es M (\<lambda>s.
       bind_res (simplifyExpr (constraint_fuel cf) (constraints s) e) (\<lambda>e.
       bind_res (assert_success (ts_getValue (timing cf) s e (solver M))) (\<lambda>(value, sol).
         bind_target target es value (M\<lparr>solver := sol\<rparr>))))"

text \<open>
  What an error report says of an address. The code truncates the example to 32 bits before it
  looks for the neighbouring objects.
\<close>

record address_info =
  info_example :: int
  info_range :: "(expr \<times> expr) option"
  info_next :: "memory_object option"
  info_prev :: "memory_object option"

definition first_object :: "object_pair list \<Rightarrow> memory_object option" where
  "first_object ops = (case ops of [] \<Rightarrow> None | op # _ \<Rightarrow> Some (fst op))"

definition getAddressInfo :: "('m, 's, 'r) options \<Rightarrow> nat \<Rightarrow> expr \<Rightarrow> ('m, 's, 'r) machine
    \<Rightarrow> (address_info \<times> ('m, 's, 'r) machine) result" where
  "getAddressInfo cf es address M =
     in_state es M (\<lambda>s.
       bind_res
         (if is_Constant address then map_res (\<lambda>v. ((v, None), solver M)) (getZExtValue 64 address)
          else bind_res (assert_success (ts_getValue (timing cf) s address (solver M))) (\<lambda>(value, s1).
            bind_res (getZExtValue 64 value) (\<lambda>v.
              map_res (\<lambda>(range, s2). ((v, Some range), s2)) (ts_getRange (timing cf) s address s1))))
         (\<lambda>((example, range), sol).
           let hack = nat example mod 2 ^ 32 in
           Inr (\<lparr>info_example = example, info_range = range,
             info_next = first_object (objects_above hack (addressSpace s)),
             info_prev = first_object (objects_below hack (addressSpace s))\<rparr>, M\<lparr>solver := sol\<rparr>)))"

section \<open>Exact resolution and free\<close>

definition at_base :: "width \<Rightarrow> expr \<Rightarrow> object_pair \<Rightarrow> expr" where
  "at_base pw p op = create_Eq p (getBaseExpr pw (fst op))"

fun fork_bases :: "('m, 's, 'r) options \<Rightarrow> expr \<Rightarrow> object_pair list \<Rightarrow> nat \<Rightarrow> ('m, 's, 'r) machine
    \<Rightarrow> (((object_pair \<times> nat) list \<times> nat option) \<times> ('m, 's, 'r) machine) result" where
  "fork_bases cf p [] unbound M = Inr (([], Some unbound), M)"
| "fork_bases cf p (op # rl) unbound M =
     bind_res (fork cf unbound (at_base (pointer_width cf) p op) True M) (\<lambda>((bound, rest), M1).
       let found = (case bound of None \<Rightarrow> [] | Some es \<Rightarrow> [(op, es)]) in
       case rest of
         None \<Rightarrow> Inr ((found, None), M1)
       | Some u \<Rightarrow> map_res (\<lambda>((results, un), M2). ((found @ results, un), M2)) (fork_bases cf p rl u M1))"

definition resolve_bases :: "('m, 's, 'r) options \<Rightarrow> nat \<Rightarrow> expr \<Rightarrow> ('m, 's, 'r) machine
    \<Rightarrow> (((object_pair \<times> nat) list \<times> nat option) \<times> ('m, 's, 'r) machine) result" where
  "resolve_bases cf es p M =
     in_state es M (\<lambda>s.
       bind_res (resolve (timing cf) (pointer_width cf) 0 (\<lambda>_. False) s (addressSpace s) p (solver M))
         (\<lambda>((incomplete, rl), sol). fork_bases cf p rl es (M\<lparr>solver := sol\<rparr>)))"

definition resolveExact :: "('m, 's, 'r) options \<Rightarrow> nat \<Rightarrow> expr \<Rightarrow> string \<Rightarrow> ('m, 's, 'r) machine
    \<Rightarrow> ((object_pair \<times> nat) list \<times> ('m, 's, 'r) machine) result" where
  "resolveExact cf es p name M =
     bind_res (resolve_bases cf es p M) (\<lambda>((results, unbound), M1).
       case unbound of
         None \<Rightarrow> Inr (results, M1)
       | Some u \<Rightarrow> bind_res (getAddressInfo cf u p M1) (\<lambda>(info, M2).
           map_res (\<lambda>M3. (results, M3))
             (terminateStateOnError cf u (''memory error: invalid pointer: '' @ name) Ptr M2)))"

fun free_each :: "('m, 's, 'r) options \<Rightarrow> expr \<Rightarrow> nat option \<Rightarrow> (object_pair \<times> nat) list
    \<Rightarrow> ('m, 's, 'r) machine \<Rightarrow> ('m, 's, 'r) machine result" where
  "free_each cf address target [] M = Inr M"
| "free_each cf address target ((op, es) # rl) M =
     bind_res
       (if isLocal (fst op)
        then bind_res (getAddressInfo cf es address M) (\<lambda>(info, M1).
          terminateStateOnError cf es ''free of alloca'' Free M1)
        else if isGlobal (fst op)
        then bind_res (getAddressInfo cf es address M) (\<lambda>(info, M1).
          terminateStateOnError cf es ''free of global'' Free M1)
        else in_state es M (\<lambda>s.
          let M1 = set_state es (s\<lparr>addressSpace := unbindObject (fst op) (addressSpace s)\<rparr>) M in
          case target of None \<Rightarrow> Inr M1
          | Some dest \<Rightarrow> bind_target dest es (Constant (pointer_width cf) 0) M1))
       (free_each cf address target rl)"

definition executeFree :: "('m, 's, 'r) options \<Rightarrow> nat \<Rightarrow> expr \<Rightarrow> nat option \<Rightarrow> ('m, 's, 'r) machine
    \<Rightarrow> ('m, 's, 'r) machine result" where
  "executeFree cf es address target M =
     bind_res (fork cf es (createIsZero address) True M) (\<lambda>((zero, other), M1).
     bind_res (case (zero, target) of
         (Some z, Some dest) \<Rightarrow> bind_target dest z (Constant (pointer_width cf) 0) M1
       | _ \<Rightarrow> Inr M1) (\<lambda>M2.
       case other of
         None \<Rightarrow> Inr M2
       | Some u \<Rightarrow> bind_res (resolveExact cf u address ''free'' M2) (\<lambda>(rl, M3).
           free_each cf address target rl M3)))"

section \<open>Memory operations\<close>

text \<open>A load of a type into a register, or a store of a value.\<close>

datatype access = Load width nat | Store expr

definition access_width :: "access \<Rightarrow> width" where
  "access_width a = (case a of Load w dest \<Rightarrow> w | Store value \<Rightarrow> getWidth value)"

definition heap_read :: "bool \<Rightarrow> nat \<Rightarrow> expr \<Rightarrow> width \<Rightarrow> store \<Rightarrow> (expr \<times> store) result" where
  "heap_read le oid offset w st =
     (case objs st oid of
        None \<Rightarrow> Inl NullDereference
      | Some os \<Rightarrow> map_res (\<lambda>(e, os'). (e, put_object oid os os' st))
          (read_sym (const_arr_name st) le offset w os))"

definition heap_write_sym :: "bool \<Rightarrow> nat \<Rightarrow> expr \<Rightarrow> expr \<Rightarrow> store \<Rightarrow> store result" where
  "heap_write_sym le oid offset value st =
     (case objs st oid of
        None \<Rightarrow> Inl NullDereference
      | Some os \<Rightarrow> map_res (\<lambda>os'. put_object oid os os' st) (write_sym le offset value os))"

definition set_heap :: "store \<Rightarrow> ('m, 's, 'r) machine \<Rightarrow> ('m, 's, 'r) machine" where
  "set_heap st M = M\<lparr>exe := (exe M)\<lparr>heap := st\<rparr>\<rparr>"

definition do_access :: "('m, 's, 'r) options \<Rightarrow> nat \<Rightarrow> object_pair \<Rightarrow> expr \<Rightarrow> access
    \<Rightarrow> ('m, 's, 'r) machine \<Rightarrow> ('m, 's, 'r) machine result" where
  "do_access cf es op offset a M =
     (let le = littleEndian (merge_settings cf) in
      case a of
        Load w dest \<Rightarrow>
          bind_res (heap_read le (snd op) offset w (heap (exe M))) (\<lambda>(e, st).
            bind_target dest es e (set_heap st M))
      | Store value \<Rightarrow>
          (case objs (heap (exe M)) (snd op) of
             None \<Rightarrow> Inl NullDereference
           | Some os \<Rightarrow>
               if readOnly os then terminateStateOnError cf es ''memory error: object read only'' ReadOnly M
               else in_state es M (\<lambda>s.
                 bind_res (getWriteable (fst op) (snd op) (addressSpace s) (heap (exe M))) (\<lambda>(wos, as, st).
                   map_res (\<lambda>st'. set_heap st' (set_state es (s\<lparr>addressSpace := as\<rparr>) M))
                     (heap_write_sym le wos offset value st)))))"

text \<open>The fast path resolves the address to one object, with a concrete address if need be.\<close>

definition simplify_access :: "('m, 's, 'r) options \<Rightarrow> exec_state \<Rightarrow> expr \<Rightarrow> access \<Rightarrow> (expr \<times> access) result" where
  "simplify_access cf s address a =
     (if SimplifySymIndices cf
      then bind_res (simplifyExpr (constraint_fuel cf) (constraints s) address) (\<lambda>address'.
        case a of
          Load w dest \<Rightarrow> Inr (address', a)
        | Store value \<Rightarrow> map_res (\<lambda>value'. (address', Store value'))
            (simplifyExpr (constraint_fuel cf) (constraints s) value))
      else Inr (address, a))"

definition locate :: "('m, 's, 'r) options \<Rightarrow> nat \<Rightarrow> expr \<Rightarrow> ('m, 's, 'r) machine
    \<Rightarrow> ((expr \<times> object_pair option) \<times> ('m, 's, 'r) machine) result" where
  "locate cf es address M =
     in_state es M (\<lambda>s.
       bind_res (resolveOne_solver (timing cf) (pointer_width cf) s (addressSpace s) address (solver M))
         (\<lambda>(r, sol). case r of
            Some op \<Rightarrow> Inr ((address, op), M\<lparr>solver := sol\<rparr>)
          | None \<Rightarrow> bind_res (toConstant cf es address (M\<lparr>solver := sol\<rparr>)) (\<lambda>(value, M1).
              map_res (\<lambda>v. ((value, resolveOne (nat v) (addressSpace s)), M1)) (getZExtValue 64 value))))"

text \<open>
  The answer is \<open>Inr\<close> of the address to go on with where the fast path does not apply, and \<open>Inl ()\<close>
  where the operation is over.
\<close>

definition fast_path :: "('m, 's, 'r) options \<Rightarrow> nat \<Rightarrow> expr \<Rightarrow> access \<Rightarrow> nat \<Rightarrow> object_pair
    \<Rightarrow> ('m, 's, 'r) machine \<Rightarrow> ((unit + expr) \<times> ('m, 's, 'r) machine) result" where
  "fast_path cf es address a bytes op M =
     bind_res (if MaxSymArraySize cf \<noteq> 0 \<and> MaxSymArraySize cf \<le> mo_size (fst op)
         then toConstant cf es address M else Inr (address, M)) (\<lambda>(address, M1).
       let offset = getOffsetExpr (pointer_width cf) (fst op) address;
           check = getBoundsCheckOffset_bytes (pointer_width cf) (fst op) offset bytes
       in in_state es M1 (\<lambda>s.
         bind_res (ts_mustBeTrue (timing cf) s check (solver M1)) (\<lambda>(inBounds, sol).
           let M2 = M1\<lparr>solver := sol\<rparr> in
           case inBounds of
             None \<Rightarrow> map_res (\<lambda>M3. (Inl (), M3))
               (terminateStateEarly cf es ''Query timed out (bounds check).''
                 (set_state es (s\<lparr>pc := prevPC s\<rparr>) M2))
           | Some True \<Rightarrow> map_res (\<lambda>M3. (Inl (), M3)) (do_access cf es op offset a M2)
           | Some False \<Rightarrow> Inr (Inr address, M2))))"

fun access_each :: "('m, 's, 'r) options \<Rightarrow> expr \<Rightarrow> access \<Rightarrow> nat \<Rightarrow> object_pair list \<Rightarrow> nat
    \<Rightarrow> ('m, 's, 'r) machine \<Rightarrow> (nat option \<times> ('m, 's, 'r) machine) result" where
  "access_each cf address a bytes [] unbound M = Inr (Some unbound, M)"
| "access_each cf address a bytes (op # rl) unbound M =
     bind_res (fork cf unbound (getBoundsCheckPointer_bytes (pointer_width cf) (fst op) address bytes) True M)
       (\<lambda>((bound, rest), M1).
         bind_res (case bound of
             None \<Rightarrow> Inr M1
           | Some b \<Rightarrow> do_access cf b op (getOffsetExpr (pointer_width cf) (fst op) address) a M1) (\<lambda>M2.
           case rest of
             None \<Rightarrow> Inr (None, M2)
           | Some u \<Rightarrow> access_each cf address a bytes rl u M2))"

definition slow_path :: "('m, 's, 'r) options \<Rightarrow> nat \<Rightarrow> expr \<Rightarrow> access \<Rightarrow> nat \<Rightarrow> ('m, 's, 'r) machine
    \<Rightarrow> ('m, 's, 'r) machine result" where
  "slow_path cf es address a bytes M =
     in_state es M (\<lambda>s.
       bind_res (resolve (timing cf) (pointer_width cf) 0 (resolve_late cf) s (addressSpace s) address (solver M))
         (\<lambda>((incomplete, rl), sol).
           bind_res (access_each cf address a bytes rl es (M\<lparr>solver := sol\<rparr>)) (\<lambda>(unbound, M1).
             case unbound of
               None \<Rightarrow> Inr M1
             | Some u \<Rightarrow>
                 if incomplete then terminateStateEarly cf u ''Query timed out (resolve).'' M1
                 else bind_res (getAddressInfo cf u address M1) (\<lambda>(info, M2).
                   terminateStateOnError cf u ''memory error: out of bound pointer'' Ptr M2))))"

definition executeMemoryOperation :: "('m, 's, 'r) options \<Rightarrow> nat \<Rightarrow> expr \<Rightarrow> access
    \<Rightarrow> ('m, 's, 'r) machine \<Rightarrow> ('m, 's, 'r) machine result" where
  "executeMemoryOperation cf es address a M =
     (let bytes = getMinBytesForWidth (access_width a) in
      in_state es M (\<lambda>s.
        bind_res (simplify_access cf s address a) (\<lambda>(address, a).
        bind_res (locate cf es address M) (\<lambda>((address, found), M1).
        bind_res (case found of
            Some op \<Rightarrow> fast_path cf es address a bytes op M1
          | None \<Rightarrow> Inr (Inr address, M1)) (\<lambda>(done, M2).
          case done of Inl _ \<Rightarrow> Inr M2 | Inr address \<Rightarrow> slow_path cf es address a bytes M2)))))"

section \<open>Forking without limits\<close>

text \<open>
  A machine that may fork as often as it needs to, with a solver in a good state; and a state that
  runs.
\<close>

definition running :: "('s \<Rightarrow> bool) \<Rightarrow> ('m, 's, 'r) options \<Rightarrow> ('m, 's, 'r) machine \<Rightarrow> bool" where
  "running ok cf M \<longleftrightarrow> ok (solver M) \<and> finite (dom (est (exe M))) \<and> allocates cf
     \<and> MaxForks cf = None \<and> MaxDepth cf = 0 \<and> \<not> (MaxMemoryInhibit cf \<and> atMemoryLimit M) \<and> \<not> inhibitForking M"

definition active :: "exec_state \<Rightarrow> bool" where
  "active s \<longleftrightarrow> live s \<and> framed s \<and> \<not> forkDisabled s"

lemma active_narrowed: "active s \<Longrightarrow> narrowed s P t \<Longrightarrow> live t \<Longrightarrow> active t"
  by (auto simp: active_def narrowed_def same_program_def framed_def)

lemma running_quiet: "running ok cf M \<Longrightarrow> quiet es M M' \<Longrightarrow> ok (solver M') \<Longrightarrow> running ok cf M'"
  by (simp add: running_def quiet_def)

lemma quiet_chain:
  assumes "quiet es M M1" "quiet u M1 M2" "u = es \<or> est (exe M) u = None"
  shows "quiet es M M2"
proof -
  have "est (exe M2) i = est (exe M) i" if "i \<noteq> es" "est (exe M) i \<noteq> None" for i
  proof -
    have "est (exe M1) i = est (exe M) i" "i \<noteq> u" using that assms(1,3) by (auto simp: quiet_def)
    with assms(2) that(2) show ?thesis by (simp add: quiet_def)
  qed
  moreover have "dom (est (exe M)) \<subseteq> dom (est (exe M1))" "dom (est (exe M1)) \<subseteq> dom (est (exe M2))"
    using assms(1,2) by (simp_all add: quiet_def)
  then have "dom (est (exe M)) \<subseteq> dom (est (exe M2))" by (rule subset_trans)
  moreover have "same_heap (heap (exe M)) (heap (exe M2))"
    using assms(1,2) by (auto simp: quiet_def intro: same_heap_trans)
  ultimately show ?thesis using assms(1,2) by (simp add: quiet_def)
qed

lemma quiet_solver: "quiet es M (M\<lparr>solver := sol\<rparr>)"
  by (simp add: quiet_def)

lemma quiet_at: "quiet es M M' \<Longrightarrow> i \<noteq> es \<Longrightarrow> at_state M i P \<Longrightarrow> at_state M' i P"
  by (auto simp: at_state_def quiet_def)

context timing_solver begin

lemma fork_exact:
  assumes r: "fork cf es c True M = Inr ((t, f), M')" and T: "timing cf = T" "am = MustAnswer"
    and run: "running ok cf M" and s: "est (exe M) es = Some s" "active s"
    and c: "wf_expr c" "getWidth c = 1"
  shows "forked False s c es M (t, f) M'" "quiet es M M'" "running ok cf M'"
proof -
  have fresh: "est (exe M) (allocate cf (est (exe M))) = None"
    using run by (simp add: running_def allocates_def)
  have nl: "\<not> limited_fork cf s True M"
    using run s(2) by (simp add: limited_fork_def forks_inhibited_def running_def active_def)
  have *: "forked False s c es M (t, f) M' \<and> ok (solver M')"
    using fork_ok(1)[OF T(1) _ s(1) _ _ c fresh r] run s(2) nl T(2) by (simp add: running_def active_def)
  then show fk: "forked False s c es M (t, f) M'" by simp
  obtain \<rho> where \<rho>: "drives \<rho> s" using s(2) by (auto simp: active_def live_def)
  from eval_bool[OF drives_env[OF \<rho>] c] \<rho> have "(t, f) \<noteq> (None, None)"
    using fk by (auto simp: forked_def)
  with fk show q: "quiet es M M'" by (auto simp: forked_def)
  show "running ok cf M'" using running_quiet[OF run q] * by simp
qed

end

lemma forkedD:
  assumes "forked False s c es M (t, f) M'"
  shows "t = Some i \<Longrightarrow> at_state M' i (\<lambda>x. live x \<and> narrowed s (\<lambda>\<rho>. eval \<rho> c = 1) x)"
    "f = Some i \<Longrightarrow> at_state M' i (\<lambda>x. live x \<and> narrowed s (\<lambda>\<rho>. eval \<rho> c = 0) x)"
    "t = None \<Longrightarrow> drives \<rho> s \<Longrightarrow> eval \<rho> c \<noteq> 1" "f = None \<Longrightarrow> drives \<rho> s \<Longrightarrow> eval \<rho> c \<noteq> 0"
    "t = Some i \<or> f = Some i \<Longrightarrow> i = es \<or> est (exe M) i = None" "t = Some i \<Longrightarrow> f \<noteq> Some i"
  using assms by (auto simp: forked_def side_of_def at_state_def)

section \<open>Exact resolution\<close>

text \<open>The object, if any, at whose start the address lies.\<close>

definition base_hit :: "env \<Rightarrow> expr \<Rightarrow> object_pair list \<Rightarrow> object_pair option" where
  "base_hit \<rho> p ops = find (\<lambda>op. eval \<rho> p = int (address_of op)) ops"

lemma at_base_ok:
  assumes "wf_expr p" "getWidth p = pw" "fits pw (fst op)"
  shows "wf_expr (at_base pw p op)" "getWidth (at_base pw p op) = 1"
    "wf_env \<rho> \<Longrightarrow> eval \<rho> (at_base pw p op) = of_bool (eval \<rho> p = int (address_of op))"
proof -
  have "wf_expr (Binary Eq p (getBaseExpr pw (fst op)))"
    using assms fits_int[OF assms(3)] by (simp add: getBaseExpr_def in_width_def)
  note e = sem_eqD[OF create_Eq_sem_eq this]
  show "wf_expr (at_base pw p op)" "getWidth (at_base pw p op) = 1"
    "wf_env \<rho> \<Longrightarrow> eval \<rho> (at_base pw p op) = of_bool (eval \<rho> p = int (address_of op))"
    using e fits_int[OF assms(3)] by (simp_all add: at_base_def getBaseExpr_def take_bit_in_width in_width_def)
qed

definition bases_resolved :: "exec_state \<Rightarrow> expr \<Rightarrow> object_pair list \<Rightarrow> nat \<Rightarrow> ('m, 's, 'r) machine
    \<Rightarrow> (object_pair \<times> nat) list \<Rightarrow> nat option \<Rightarrow> ('m, 's, 'r) machine \<Rightarrow> bool" where
  "bases_resolved s p rl es M results un M' \<longleftrightarrow>
     (\<forall>(op, i) \<in> set results. op \<in> set rl
        \<and> at_state M' i (\<lambda>t. live t \<and> narrowed s (\<lambda>\<rho>. base_hit \<rho> p rl = Some op) t))
   \<and> (\<forall>\<rho> op. drives \<rho> s \<longrightarrow> base_hit \<rho> p rl = Some op \<longrightarrow> op \<in> fst ` set results)
   \<and> (case un of
        None \<Rightarrow> \<forall>\<rho>. drives \<rho> s \<longrightarrow> base_hit \<rho> p rl \<noteq> None
      | Some u \<Rightarrow> at_state M' u (\<lambda>t. live t \<and> narrowed s (\<lambda>\<rho>. base_hit \<rho> p rl = None) t))
   \<and> (\<forall>i \<in> snd ` set results \<union> set_option un. i = es \<or> est (exe M) i = None)
   \<and> distinct (map snd results @ (case un of None \<Rightarrow> [] | Some u \<Rightarrow> [u]))"

context timing_solver begin

lemma fork_bases_ok:
  assumes T: "timing cf = T" "am = MustAnswer" and p: "wf_expr p" "getWidth p = pointer_width cf"
  shows "fork_bases cf p rl es M = Inr ((results, un), M') \<Longrightarrow> running ok cf M
    \<Longrightarrow> est (exe M) es = Some s \<Longrightarrow> active s \<Longrightarrow> \<forall>op \<in> set rl. fits (pointer_width cf) (fst op)
    \<Longrightarrow> running ok cf M' \<and> quiet es M M' \<and> bases_resolved s p rl es M results un M'"
proof (induction rl arbitrary: es M s results)
  case Nil
  then have "narrowed s (\<lambda>_. True) s" "live s"
    by (simp_all add: narrowed_self live_wf active_def)
  with Nil show ?case by (auto simp: bases_resolved_def base_hit_def at_state_def)
next
  case (Cons op rl)
  let ?c = "at_base (pointer_width cf) p op"
  have f: "fits (pointer_width cf) (fst op)" using Cons.prems(5) by simp
  note c = at_base_ok[OF p f]
  obtain bound rest M1 where fk: "fork cf es ?c True M = Inr ((bound, rest), M1)"
    using Cons.prems(1) by auto
  note F = fork_exact[OF fk T Cons.prems(2-4) c(1,2)]
  note D = forkedD[OF F(1)]
  define found where "found = (case bound of None \<Rightarrow> [] | Some i \<Rightarrow> [(op, i)])"
  have cv: "eval \<rho> ?c = of_bool (eval \<rho> p = int (address_of op))" if "drives \<rho> s" for \<rho>
    using c(3) drives_env[OF that] by blast
  have hit: "base_hit \<rho> p (op # rl) = (if eval \<rho> ?c = 1 then Some op else base_hit \<rho> p rl)" if "drives \<rho> s" for \<rho>
    using cv[OF that] by (simp add: base_hit_def)
  have here: "at_state M1 i (\<lambda>t. live t \<and> narrowed s (\<lambda>\<rho>. base_hit \<rho> p (op # rl) = Some op) t)"
    if i: "bound = Some i" for i
  proof -
    from D(1)[OF i] obtain t where t: "est (exe M1) i = Some t" "live t" "narrowed s (\<lambda>\<rho>. eval \<rho> ?c = 1) t"
      unfolding at_state_def by blast
    have "eval \<rho> ?c = 1 \<longleftrightarrow> base_hit \<rho> p (op # rl) = Some op" if d: "drives \<rho> s" for \<rho>
      using cv[OF d] hit[OF d] by (auto simp: base_hit_def find_Some_iff)
    with t show ?thesis by (auto simp: at_state_def intro: narrowed_cong)
  qed
  show ?case
  proof (cases rest)
    case None
    with Cons.prems(1) fk have r: "results = found" "un = None" "M' = M1" by (auto simp: found_def)
    have e1: "eval \<rho> ?c = 1" if "drives \<rho> s" for \<rho>
      using D(4)[OF None that] eval_bool[OF drives_env[OF that] c(1,2)] by simp
    have hit1: "base_hit \<rho> p (op # rl) = Some op" if "drives \<rho> s" for \<rho> using hit[OF that] e1[OF that] by simp
    obtain \<rho>0 where "drives \<rho>0 s" using Cons.prems(4) by (auto simp: active_def live_def)
    then obtain i where i: "bound = Some i" using D(3)[of \<rho>0] e1 by (cases bound) auto
    have "bases_resolved s p (op # rl) es M results un M'"
      unfolding bases_resolved_def using here[OF i] hit1 D(5)[of i] i by (simp add: r found_def)
    with F r show ?thesis by simp
  next
    case (Some u)
    with Cons.prems(1) fk obtain results' where
      rec: "fork_bases cf p rl u M1 = Inr ((results', un), M')" and res: "results = found @ results'"
      unfolding found_def by auto
    from D(2)[OF Some] obtain x where x: "est (exe M1) u = Some x" "live x" "narrowed s (\<lambda>\<rho>. eval \<rho> ?c = 0) x"
      unfolding at_state_def by blast
    have ax: "active x" by (rule active_narrowed[OF Cons.prems(4) x(3,2)])
    have uu: "u = es \<or> est (exe M) u = None" by (rule D(5)[OF disjI2[OF Some]])
    have "\<forall>op \<in> set rl. fits (pointer_width cf) (fst op)" using Cons.prems(5) by simp
    note IH = Cons.IH[OF rec F(3) x(1) ax this]
    note B = conjunct2[OF conjunct2[OF IH], unfolded bases_resolved_def]
    note Bd = conjunct2[OF conjunct2[OF conjunct2[OF conjunct2[OF B]]]]
    note Bu = conjunct1[OF conjunct2[OF conjunct2[OF B]]]
    note Bids = bspec[OF conjunct1[OF conjunct2[OF conjunct2[OF conjunct2[OF B]]]]]
    have q: "quiet es M M'" using quiet_chain[OF F(2) _ uu] IH by blast
    have dx: "drives \<rho> x \<longleftrightarrow> drives \<rho> s \<and> eval \<rho> ?c = 0" for \<rho> by (rule narrowedD(3)[OF x(3)])
    have hx: "base_hit \<rho> p (op # rl) = base_hit \<rho> p rl" if "drives \<rho> x" for \<rho>
      using hit dx that by simp
    have lift: "narrowed s (\<lambda>\<rho>. base_hit \<rho> p (op # rl) = y) t"
      if t: "narrowed x (\<lambda>\<rho>. base_hit \<rho> p rl = y) t" and y: "y \<noteq> Some op" for t y
    proof (rule narrowed_cong[OF narrowed_trans[OF x(3) t]])
      fix \<rho> assume d: "drives \<rho> s"
      have "eval \<rho> ?c = 0 \<or> eval \<rho> ?c = 1" using eval_bool[OF drives_env[OF d] c(1,2)] .
      then show "eval \<rho> ?c = 0 \<and> base_hit \<rho> p rl = y \<longleftrightarrow> base_hit \<rho> p (op # rl) = y"
        using hit[OF d] y by auto
    qed
    have new: "op' \<in> set rl \<and> at_state M' i (\<lambda>t. live t \<and> narrowed s (\<lambda>\<rho>. base_hit \<rho> p (op # rl) = Some op') t)"
      if m: "(op', i) \<in> set results'" for op' i
    proof -
      from B m obtain t where t: "op' \<in> set rl" "est (exe M') i = Some t" "live t"
        "narrowed x (\<lambda>\<rho>. base_hit \<rho> p rl = Some op') t" by (auto simp: at_state_def)
      have "op' \<noteq> op"
      proof
        assume eq: "op' = op"
        obtain \<rho> where \<rho>: "drives \<rho> t" using t(3) by (auto simp: live_def)
        then have "drives \<rho> x" "base_hit \<rho> p rl = Some op" using narrowedD(3)[OF t(4)] eq by auto
        then have "eval \<rho> p = int (address_of op)" by (auto simp: base_hit_def find_Some_iff)
        with cv dx \<open>drives \<rho> x\<close> show False by auto
      qed
      with t lift[OF t(4)] show ?thesis by (auto simp: at_state_def)
    qed
    have keep: "at_state M' i P" if "bound = Some i" "at_state M1 i P" for i P
    proof -
      have "i \<noteq> u" using D(6)[OF that(1)] Some by auto
      with quiet_at[of u M1 M' i P] that(2) IH show ?thesis by blast
    qed
    have other: "i \<noteq> b" if "bound = Some b" "i \<in> snd ` set results' \<union> set_option un" for i b
    proof -
      have "i = u \<or> est (exe M1) i = None" by (rule Bids[OF that(2)])
      moreover have "b \<noteq> u" "est (exe M1) b \<noteq> None" using D(6)[OF that(1)] D(1)[OF that(1)] Some by (auto simp: at_state_def)
      ultimately show ?thesis by blast
    qed
    have ids: "i = es \<or> est (exe M) i = None" if "i \<in> snd ` set results \<union> set_option un" for i
    proof (cases "i \<in> snd ` set found")
      case True
      then have "bound = Some i" by (auto simp: found_def split: option.splits)
      then show ?thesis by (rule D(5)[OF disjI1])
    next
      case False
      with that have "i \<in> snd ` set results' \<union> set_option un" by (auto simp: res)
      from Bids[OF this] have "i = u \<or> est (exe M1) i = None" .
      with uu F(2) show ?thesis by (auto simp: quiet_def)
    qed
    have "bases_resolved s p (op # rl) es M results un M'"
      unfolding bases_resolved_def
    proof (intro conjI)
      show "\<forall>(op', i) \<in> set results. op' \<in> set (op # rl)
          \<and> at_state M' i (\<lambda>t. live t \<and> narrowed s (\<lambda>\<rho>. base_hit \<rho> p (op # rl) = Some op') t)"
        using new keep[OF _ here] by (auto simp: res found_def split: option.splits)
      show "\<forall>\<rho> op'. drives \<rho> s \<longrightarrow> base_hit \<rho> p (op # rl) = Some op' \<longrightarrow> op' \<in> fst ` set results"
      proof (intro allI impI)
        fix \<rho> op' assume d: "drives \<rho> s" and h: "base_hit \<rho> p (op # rl) = Some op'"
        show "op' \<in> fst ` set results"
        proof (cases "eval \<rho> ?c = 1")
          case True
          with D(3) d obtain i where "bound = Some i" by (cases bound) auto
          with True h hit[OF d] show ?thesis by (simp add: res found_def)
        next
          case False
          then have "drives \<rho> x" using dx d eval_bool[OF drives_env[OF d] c(1,2)] by simp
          then have "op' \<in> fst ` set results'" using B h hx by metis
          then show ?thesis by (auto simp: res)
        qed
      qed
      show "case un of None \<Rightarrow> \<forall>\<rho>. drives \<rho> s \<longrightarrow> base_hit \<rho> p (op # rl) \<noteq> None
          | Some v \<Rightarrow> at_state M' v (\<lambda>t. live t \<and> narrowed s (\<lambda>\<rho>. base_hit \<rho> p (op # rl) = None) t)"
      proof (cases un)
        case None
        have "base_hit \<rho> p (op # rl) \<noteq> None" if d: "drives \<rho> s" for \<rho>
        proof (cases "eval \<rho> ?c = 1")
          case False
          then have "drives \<rho> x" using dx d eval_bool[OF drives_env[OF d] c(1,2)] by simp
          with B None hx show ?thesis by simp
        qed (simp add: hit[OF d])
        with None show ?thesis by simp
      next
        case (Some v)
        have "at_state M' v (\<lambda>t. live t \<and> narrowed x (\<lambda>\<rho>. base_hit \<rho> p rl = None) t)"
          using Bu Some by simp
        then show ?thesis unfolding at_state_def Some option.case using lift by blast
      qed
      show "\<forall>i \<in> snd ` set results \<union> set_option un. i = es \<or> est (exe M) i = None"
        by (rule ballI) (rule ids)
      show "distinct (map snd results @ (case un of None \<Rightarrow> [] | Some u \<Rightarrow> [u]))"
      proof (cases bound)
        case (Some b)
        let ?ids = "map snd results' @ (case un of None \<Rightarrow> [] | Some u \<Rightarrow> [u])"
        have "set ?ids = snd ` set results' \<union> set_option un" by (cases un) auto
        then have "b \<notin> set ?ids" using other[OF Some] by auto
        with Bd show ?thesis by (simp add: res found_def Some)
      qed (use Bd in \<open>simp add: res found_def\<close>)
    qed
    with IH q show ?thesis by blast
  qed
qed

end

text \<open>The error report of a state, whatever becomes of the state afterwards.\<close>

lemma terminateStateOnError_reports:
  assumes "terminateStateOnError cf es m reason M = Inr M'" "est (exe M) es = Some s"
  shows "testCases M' = testCases M @
      (if EmitAllErrors cf \<or> (getLastNonKleeInternalInstruction cf s, m) \<notin> set (emittedErrors M)
       then [(s, m, reason_suffix reason)] else [])"
    "solver M' = solver M"
proof -
  define place where "place = (getLastNonKleeInternalInstruction cf s, m)"
  from assms obtain M1 M2 where M1: "M1 = (if EmitAllErrors cf
         then M\<lparr>testCases := testCases M @ [(s, m, reason_suffix reason)]\<rparr>
         else if place \<notin> set (emittedErrors M)
         then M\<lparr>emittedErrors := emittedErrors M @ [place], testCases := testCases M @ [(s, m, reason_suffix reason)]\<rparr>
         else M)" and M2: "exec_terminateState cf es M1 = Inr M2"
    and M': "M' = (if shouldExitOn cf reason then M2\<lparr>haltExecution := True\<rparr> else M2)"
    unfolding terminateStateOnError_def Let_def place_def in_state_Some[OF assms(2)] map_res_Inr by blast
  note k = exec_terminateState_simps(1,2)[OF M2]
  show "testCases M' = testCases M @
      (if EmitAllErrors cf \<or> (getLastNonKleeInternalInstruction cf s, m) \<notin> set (emittedErrors M)
       then [(s, m, reason_suffix reason)] else [])"
    "solver M' = solver M"
    using k by (simp_all add: M' M1 place_def)
qed

lemma getAddressInfo_keeps:
  "getAddressInfo cf es p M = Inr (info, M') \<Longrightarrow> exe M' = exe M \<and> testCases M' = testCases M
    \<and> emittedErrors M' = emittedErrors M"
  by (auto simp: getAddressInfo_def in_state_def with_state_def Let_def split: option.splits)

definition report :: "bool \<Rightarrow> exec_state \<Rightarrow> (env \<Rightarrow> bool) \<Rightarrow> string \<Rightarrow> terminate_reason
    \<Rightarrow> ('m, 's, 'r) machine \<Rightarrow> ('m, 's, 'r) machine \<Rightarrow> bool" where
  "report all s P m reason M M' \<longleftrightarrow>
     (if \<exists>\<rho>. drives \<rho> s \<and> P \<rho>
      then \<exists>t. narrowed s P t \<and> (testCases M' = testCases M @ [(t, m, reason_suffix reason)]
        \<or> \<not> all \<and> testCases M' = testCases M)
      else testCases M' = testCases M)"

text \<open>The last lines of an operation that may leave inputs unbound.\<close>

lemma report_unbound:
  assumes un: "case un of None \<Rightarrow> \<forall>\<rho>. drives \<rho> s \<longrightarrow> \<not> P \<rho>
      | Some u \<Rightarrow> at_state M1 u (\<lambda>t. live t \<and> narrowed s P t)"
    and t1: "testCases M1 = testCases M"
    and none: "un = None \<Longrightarrow> M' = M1"
    and some: "\<And>u. un = Some u \<Longrightarrow> \<exists>info M2. getAddressInfo cf u p M1 = Inr (info, M2)
      \<and> terminateStateOnError cf u m reason M2 = Inr M'"
  shows "report (EmitAllErrors cf) s P m reason M M'"
proof (cases un)
  case None
  with un none t1 show ?thesis by (auto simp: report_def)
next
  case (Some u)
  with un obtain t where t: "est (exe M1) u = Some t" "live t" "narrowed s P t" by (auto simp: at_state_def)
  from some[OF Some] obtain info M2 where
    M2: "getAddressInfo cf u p M1 = Inr (info, M2)" "terminateStateOnError cf u m reason M2 = Inr M'" by blast
  note k = getAddressInfo_keeps[OF M2(1)]
  have "est (exe M2) u = Some t" using k t(1) by simp
  note r = terminateStateOnError_reports(1)[OF M2(2) this]
  obtain \<rho> where "drives \<rho> t" using t(2) by (auto simp: live_def)
  then have "\<exists>\<rho>. drives \<rho> s \<and> P \<rho>" using narrowedD(3)[OF t(3)] by blast
  moreover have "testCases M' = testCases M @ [(t, m, reason_suffix reason)]
      \<or> \<not> EmitAllErrors cf \<and> testCases M' = testCases M"
    using r k t1 by simp
  ultimately show ?thesis using t(3) by (simp add: report_def) blast
qed

text \<open>The states that an exact resolution leaves, each at an object, and one at none.\<close>

definition exactly_resolved :: "exec_state \<Rightarrow> expr \<Rightarrow> ('m, 's, 'r) machine
    \<Rightarrow> (object_pair \<times> nat) list \<Rightarrow> nat option \<Rightarrow> ('m, 's, 'r) machine \<Rightarrow> bool" where
  "exactly_resolved s p M results un M' \<longleftrightarrow>
     (\<forall>(op, i) \<in> set results. op \<in> objects_of (addressSpace s)
        \<and> at_state M' i (\<lambda>t. live t \<and> narrowed s (\<lambda>\<rho>. eval \<rho> p = int (address_of op)) t))
   \<and> (\<forall>\<rho>. \<forall>op \<in> objects_of (addressSpace s). drives \<rho> s \<longrightarrow> eval \<rho> p = int (address_of op)
        \<longrightarrow> op \<in> fst ` set results)
   \<and> (case un of
        None \<Rightarrow> \<forall>\<rho>. drives \<rho> s \<longrightarrow> (\<exists>op \<in> objects_of (addressSpace s). eval \<rho> p = int (address_of op))
      | Some u \<Rightarrow> at_state M' u (\<lambda>t. live t
          \<and> narrowed s (\<lambda>\<rho>. \<forall>op \<in> objects_of (addressSpace s). eval \<rho> p \<noteq> int (address_of op)) t))
   \<and> distinct (map snd results)"

lemma same_base:
  assumes "space_ok as" "p \<in> objects_of as" "q \<in> objects_of as" "address_of p = address_of q"
  shows "p = q"
proof -
  have "tree_lookup address_of (address_of r) (objects as) = Some r" if "r \<in> objects_of as" for r
    using tree_lookup_set[OF assms(1)] that by (simp add: objects_of_def)
  then have "Some p = Some q" using assms(2-4) by metis
  then show ?thesis by simp
qed

context timing_solver begin

lemma resolve_bases_ok:
  assumes r: "resolve_bases cf es p M = Inr ((results, un), M')" and T: "timing cf = T" "am = MustAnswer"
    and run: "running ok cf M" and s: "est (exe M) es = Some s" "active s"
    and p: "wf_expr p" "getWidth p = pointer_width cf" and as: "resolvable (pointer_width cf) (addressSpace s)"
  shows "running ok cf M' \<and> quiet es M M' \<and> exactly_resolved s p M results un M'"
proof -
  let ?ops = "objects_of (addressSpace s)"
  obtain inc rl sol where
    rs: "resolve T (pointer_width cf) 0 (\<lambda>_. False) s (addressSpace s) p (solver M) = Inr ((inc, rl), sol)"
    and fb: "fork_bases cf p rl es (M\<lparr>solver := sol\<rparr>) = Inr ((results, un), M')"
    using r s(1) T(1) by (auto simp: resolve_bases_def)
  have ad: "address_ok (pointer_width cf) s p" using s(2) p by (simp add: address_ok_def active_def)
  have sol: "ok (solver M)" using run by (simp add: running_def)
  have rl: "set rl \<subseteq> ?ops" "all_candidates s p ?ops rl" "ok sol"
    using resolve_ok[OF sol ad as, of 0 "\<lambda>_. False"] rs T(2)
    by (auto simp: runs_def candidates_def may_give_up_def split: if_splits)
  let ?M = "M\<lparr>solver := sol\<rparr>"
  have q0: "quiet es M ?M" by (rule quiet_solver)
  have run0: "running ok cf ?M" using running_quiet[OF run q0] rl(3) by simp
  have fits: "\<forall>op \<in> set rl. fits (pointer_width cf) (fst op)" using rl(1) as by (auto simp: resolvable_def)
  have s0: "est (exe ?M) es = Some s" using s(1) by simp
  note F = fork_bases_ok[OF T p fb run0 s0 s(2) fits]
  note B = conjunct2[OF conjunct2[OF F], unfolded bases_resolved_def]
  have sp: "space_ok (addressSpace s)" using as by (simp add: resolvable_def)
  have some: "base_hit \<rho> p rl = Some op \<longleftrightarrow> op \<in> ?ops \<and> eval \<rho> p = int (address_of op)" if d: "drives \<rho> s" for \<rho> op
  proof
    assume "base_hit \<rho> p rl = Some op"
    then have "op \<in> set rl" "eval \<rho> p = int (address_of op)" by (auto simp: base_hit_def find_Some_iff)
    with rl(1) show "op \<in> ?ops \<and> eval \<rho> p = int (address_of op)" by blast
  next
    assume h: "op \<in> ?ops \<and> eval \<rho> p = int (address_of op)"
    have "touches (eval \<rho> p) (fst op)" using h by (auto simp: touches_def)
    then have "may_hit s p op" by (rule may_hitI[OF takesI[OF d]])
    with rl(2) h have "op \<in> set rl" by (simp add: all_candidates_def)
    then have "base_hit \<rho> p rl \<noteq> None" using h unfolding base_hit_def find_None_iff by blast
    then obtain q where q: "base_hit \<rho> p rl = Some q" by blast
    then have "q \<in> set rl" "eval \<rho> p = int (address_of q)" by (auto simp: base_hit_def find_Some_iff)
    with same_base[OF sp, of q op] h rl(1) have "q = op" by auto
    with q show "base_hit \<rho> p rl = Some op" by simp
  qed
  have none: "base_hit \<rho> p rl = None \<longleftrightarrow> (\<forall>op \<in> ?ops. eval \<rho> p \<noteq> int (address_of op))" if "drives \<rho> s" for \<rho>
    using some[OF that] by (metis option.exhaust option.distinct(1))
  have "exactly_resolved s p M results un M'"
    unfolding exactly_resolved_def
  proof (intro conjI)
    show "\<forall>(op, i) \<in> set results. op \<in> ?ops
        \<and> at_state M' i (\<lambda>t. live t \<and> narrowed s (\<lambda>\<rho>. eval \<rho> p = int (address_of op)) t)"
    proof clarify
      fix mo oid i assume m: "((mo, oid), i) \<in> set results"
      then have "(mo, oid) \<in> set rl" and a: "at_state M' i (\<lambda>t. live t \<and> narrowed s (\<lambda>\<rho>. base_hit \<rho> p rl = Some (mo, oid)) t)"
        using B by auto
      then have op: "(mo, oid) \<in> ?ops" using rl(1) by blast
      from a obtain t where t: "est (exe M') i = Some t" "live t" "narrowed s (\<lambda>\<rho>. base_hit \<rho> p rl = Some (mo, oid)) t"
        unfolding at_state_def by blast
      have "narrowed s (\<lambda>\<rho>. eval \<rho> p = int (address_of (mo, oid))) t"
        by (rule narrowed_cong[OF t(3)]) (use some op in simp)
      with t op show "(mo, oid) \<in> ?ops \<and> at_state M' i (\<lambda>t. live t
          \<and> narrowed s (\<lambda>\<rho>. eval \<rho> p = int (address_of (mo, oid))) t)"
        unfolding at_state_def by blast
    qed
    show "\<forall>\<rho>. \<forall>op \<in> ?ops. drives \<rho> s \<longrightarrow> eval \<rho> p = int (address_of op) \<longrightarrow> op \<in> fst ` set results"
    proof (intro allI ballI impI)
      fix \<rho> op assume "op \<in> ?ops" "drives \<rho> s" "eval \<rho> p = int (address_of op)"
      then have "drives \<rho> s" "base_hit \<rho> p rl = Some op" using some by blast+
      with B show "op \<in> fst ` set results" by blast
    qed
    show "case un of None \<Rightarrow> \<forall>\<rho>. drives \<rho> s \<longrightarrow> (\<exists>op \<in> ?ops. eval \<rho> p = int (address_of op))
      | Some u \<Rightarrow> at_state M' u (\<lambda>t. live t \<and> narrowed s (\<lambda>\<rho>. \<forall>op \<in> ?ops. eval \<rho> p \<noteq> int (address_of op)) t)"
    proof (cases un)
      case None
      with B none show ?thesis by auto
    next
      case (Some u)
      with B have "at_state M' u (\<lambda>t. live t \<and> narrowed s (\<lambda>\<rho>. base_hit \<rho> p rl = None) t)" by simp
      then obtain t where t: "est (exe M') u = Some t" "live t" "narrowed s (\<lambda>\<rho>. base_hit \<rho> p rl = None) t"
        unfolding at_state_def by blast
      have "narrowed s (\<lambda>\<rho>. \<forall>op \<in> ?ops. eval \<rho> p \<noteq> int (address_of op)) t"
        by (rule narrowed_cong[OF t(3) none])
      with t Some show ?thesis unfolding at_state_def by auto
    qed
    show "distinct (map snd results)" using B by simp
  qed
  with F quiet_chain[OF q0 _ disjI1[OF refl], of M'] show ?thesis by blast
qed

lemma resolveExact_ok:
  assumes r: "resolveExact cf es p name M = Inr (results, M')" and T: "timing cf = T" "am = MustAnswer"
    and run: "running ok cf M" and s: "est (exe M) es = Some s" "active s"
    and p: "wf_expr p" "getWidth p = pointer_width cf" and as: "resolvable (pointer_width cf) (addressSpace s)"
  shows "\<exists>un M1. exactly_resolved s p M results un M1 \<and> (un = None \<longrightarrow> M' = M1)
    \<and> report (EmitAllErrors cf) s (\<lambda>\<rho>. \<forall>op \<in> objects_of (addressSpace s). eval \<rho> p \<noteq> int (address_of op))
        (''memory error: invalid pointer: '' @ name) Ptr M M'"
proof -
  define msg where "msg = ''memory error: invalid pointer: '' @ name"
  obtain results' un M1 where b': "resolve_bases cf es p M = Inr ((results', un), M1)"
    using r by (cases "resolve_bases cf es p M") (auto simp: resolveExact_def)
  have k: "(case un of None \<Rightarrow> Inr (results', M1) | Some u \<Rightarrow> bind_res (getAddressInfo cf u p M1) (\<lambda>(info, M2).
      map_res (\<lambda>M3. (results', M3)) (terminateStateOnError cf u msg Ptr M2))) = Inr (results, M')"
    using r unfolding resolveExact_def b' msg_def by simp
  have m: "results' = results \<and> (case un of None \<Rightarrow> M' = M1 | Some u \<Rightarrow> \<exists>info M2.
      getAddressInfo cf u p M1 = Inr (info, M2) \<and> terminateStateOnError cf u msg Ptr M2 = Inr M')"
  proof (cases un)
    case (Some u)
    then obtain info M2 where "getAddressInfo cf u p M1 = Inr (info, M2)"
      "map_res (\<lambda>M3. (results', M3)) (terminateStateOnError cf u msg Ptr M2) = Inr (results, M')"
      using k by (cases "getAddressInfo cf u p M1") auto
    with Some show ?thesis unfolding map_res_Inr by auto
  qed (use k in simp)
  note b = b'[unfolded conjunct1[OF m]]
  note R = resolve_bases_ok[OF b T run s p as]
  have un: "case un of None \<Rightarrow> \<forall>\<rho>. drives \<rho> s \<longrightarrow> \<not> (\<forall>op \<in> objects_of (addressSpace s). eval \<rho> p \<noteq> int (address_of op))
      | Some u \<Rightarrow> at_state M1 u (\<lambda>t. live t
          \<and> narrowed s (\<lambda>\<rho>. \<forall>op \<in> objects_of (addressSpace s). eval \<rho> p \<noteq> int (address_of op)) t)"
    using R by (cases un) (simp_all add: exactly_resolved_def)
  have "report (EmitAllErrors cf) s (\<lambda>\<rho>. \<forall>op \<in> objects_of (addressSpace s). eval \<rho> p \<noteq> int (address_of op))
      msg Ptr M M'"
    by (rule report_unbound[where p = p, OF un]) (use R m in \<open>simp_all add: quiet_def\<close>)
  then have "report (EmitAllErrors cf) s (\<lambda>\<rho>. \<forall>op \<in> objects_of (addressSpace s). eval \<rho> p \<noteq> int (address_of op))
      (''memory error: invalid pointer: '' @ name) Ptr M M'" by (simp only: msg_def)
  moreover have "un = None \<longrightarrow> M' = M1" using m by auto
  ultimately show ?thesis using R by blast
qed

lemma toConstant_ok:
  assumes r: "toConstant cf es e M = Inr (v, M')" and T: "timing cf = T" and sol: "ok (solver M)"
    and s: "est (exe M) es = Some s" "live s" and e: "wf_expr e"
  shows "\<exists>n t. v = Constant (getWidth e) n \<and> n \<in> takes s e \<and> est (exe M') es = Some t \<and> live t
    \<and> narrowed s (\<lambda>\<rho>. eval \<rho> e = n) t \<and> quiet es M M'"
proof -
  obtain e' where e': "simplifyExpr (constraint_fuel cf) (constraints s) e = Inr e'"
    using r s(1) by (auto simp: toConstant_def)
  note E = simplified_takes[OF s(2) e e']
  have ev: "eval \<rho> e' = eval \<rho> e" if "drives \<rho> s" for \<rho>
    using sem_eq_onD(3)[OF simplifyExpr_ok[OF live_wf[OF s(2)] e'] e drives_env[OF that]] that by (simp add: drives_def)
  show ?thesis
  proof (cases "is_Constant e'")
    case True
    then obtain n where n: "e' = Constant (getWidth e) n" using E(2) by (cases e') auto
    have "v = e'" "M' = M" using r s(1) e' True by (auto simp: toConstant_def)
    moreover have "narrowed s (\<lambda>\<rho>. eval \<rho> e = n) s"
      by (rule narrowed_self[OF live_wf[OF s(2)]]) (use ev n in auto)
    moreover obtain \<rho> where "drives \<rho> s" using s(2) by (auto simp: live_def)
    then have "n \<in> takes s e" using takesI[of \<rho> s e] ev[of \<rho>] n by simp
    ultimately show ?thesis using n s by auto
  next
    case False
    then obtain val sol' where g: "ts_getValue T s e' (solver M) = Inr (Some val, sol')"
      and a: "exec_addConstraint cf es (create_Eq e' val) (M\<lparr>solver := sol'\<rparr>) = Inr M'" and v: "v = val"
      using r s(1) e' T by (auto simp: toConstant_def assert_success_def split: option.splits)
    from ts_getValue_ok[OF sol s(2) E(1)] g obtain n where n: "n \<in> takes s e'" "val = Constant (getWidth e') n"
      by (auto simp: answers_def)
    have "in_width (getWidth e') n" by (rule takes_in_width[OF E(1) n(1)])
    then have "wf_expr (Binary Eq e' val)" using E(1) n(2) wf_width_pos[OF E(1)] by simp
    note q = sem_eqD[OF create_Eq_sem_eq this]
    have s0: "est (exe (M\<lparr>solver := sol'\<rparr>)) es = Some s" using s(1) by simp
    have c: "wf_expr (create_Eq e' val)" "getWidth (create_Eq e' val) = 1" using q(1,2) by simp_all
    from exec_addConstraint_ok(1)[OF s0 live_wf[OF s(2)] c a] obtain t where
      t: "M' = set_state es t (M\<lparr>solver := sol'\<rparr>)" "narrowed s (\<lambda>\<rho>. eval \<rho> (create_Eq e' val) = 1) t" by blast
    have "narrowed s (\<lambda>\<rho>. eval \<rho> e = n) t"
      by (rule narrowed_cong[OF t(2)]) (use q(3)[OF drives_env] ev n(2) in auto)
    moreover obtain \<rho> where "drives \<rho> s" "n = eval \<rho> e'" using n(1) by (auto elim!: takesE)
    moreover have "quiet es M M'"
      using quiet_trans[OF quiet_solver[of es M sol'], of M'] quiet_set_state[of "M\<lparr>solver := sol'\<rparr>" es t] s(1) t(1) by simp
    ultimately show ?thesis
      using v n E(2,3) t(1) ev narrowed_live[of s "\<lambda>\<rho>. eval \<rho> e = n" t] by auto
  qed
qed

lemma toUnique_ok:
  assumes T: "timing cf = T" and sol: "ok sol" and s: "live s" and e: "wf_expr e"
  shows "runs am ok (\<lambda>r. (\<forall>\<rho>. drives \<rho> s \<longrightarrow> eval \<rho> r = eval \<rho> e)
      \<and> (am = MustAnswer \<longrightarrow> (is_Constant r \<longleftrightarrow> is_Constant e \<or> (\<exists>v. takes s e = {v})))) (toUnique cf s e sol)"
proof (cases "is_Constant e")
  case True
  then show ?thesis using sol by (simp add: toUnique_def)
next
  case False
  show ?thesis
    unfolding toUnique_def if_not_P[OF False] T
  proof (rule runs_bind[OF runs_of_answers[OF ts_getValue_ok[OF sol s e]]])
    fix r s1 assume r: "case r of None \<Rightarrow> am \<noteq> MustAnswer | Some c \<Rightarrow> \<exists>v \<in> takes s e. c = Constant (getWidth e) v"
      and s1: "ok s1"
    show "runs am ok (\<lambda>r. (\<forall>\<rho>. drives \<rho> s \<longrightarrow> eval \<rho> r = eval \<rho> e)
        \<and> (am = MustAnswer \<longrightarrow> (is_Constant r \<longleftrightarrow> is_Constant e \<or> (\<exists>v. takes s e = {v}))))
        (case r of None \<Rightarrow> Inr (e, s1) | Some v \<Rightarrow> map_res (\<lambda>(isTrue, s2). (if isTrue = Some True then v else e, s2))
            (ts_mustBeTrue T s (create_Eq e v) s1))"
    proof (cases r)
      case (Some c)
      with r obtain v where v: "v \<in> takes s e" "c = Constant (getWidth e) v" by auto
      have "in_width (getWidth e) v" by (rule takes_in_width[OF e v(1)])
      then have "wf_expr (Binary Eq e c)" using e v(2) wf_width_pos[OF e] by simp
      note q = sem_eqD[OF create_Eq_sem_eq this]
      have c: "wf_expr (create_Eq e c)" "getWidth (create_Eq e c) = 1" using q(1,2) by simp_all
      have "eval \<rho> (create_Eq e c) = of_bool (eval \<rho> e = v)" if "drives \<rho> s" for \<rho>
        using q(3)[OF drives_env[OF that]] v(2) by simp
      then have tk: "takes s (create_Eq e c) \<subseteq> {1} \<longleftrightarrow> (\<forall>\<rho>. drives \<rho> s \<longrightarrow> eval \<rho> e = v)"
        by (auto simp: takes_def)
      have one: "(\<forall>\<rho>. drives \<rho> s \<longrightarrow> eval \<rho> e = v) \<longleftrightarrow> (\<exists>v. takes s e = {v})"
      proof
        assume "\<forall>\<rho>. drives \<rho> s \<longrightarrow> eval \<rho> e = v"
        with v(1) have "takes s e = {v}" by (auto simp: takes_def)
        then show "\<exists>v. takes s e = {v}" ..
      next
        assume "\<exists>w. takes s e = {w}"
        with v(1) have "takes s e = {v}" by auto
        then show "\<forall>\<rho>. drives \<rho> s \<longrightarrow> eval \<rho> e = v" using takesI[of _ s e] by auto
      qed
      have must: "runs am ok (\<lambda>r. case r of None \<Rightarrow> am \<noteq> MustAnswer | Some b \<Rightarrow> b \<longleftrightarrow> (\<exists>v. takes s e = {v}))
          (ts_mustBeTrue T s (create_Eq e c) s1)"
        using runs_of_answers[OF ts_mustBeTrue_ok[OF s1 s c]] unfolding tk one .
      have result: "(\<forall>\<rho>. drives \<rho> s \<longrightarrow> eval \<rho> r' = eval \<rho> e)
          \<and> (am = MustAnswer \<longrightarrow> (is_Constant r' \<longleftrightarrow> is_Constant e \<or> (\<exists>v. takes s e = {v})))"
        if b: "case isTrue of None \<Rightarrow> am \<noteq> MustAnswer | Some b \<Rightarrow> b \<longleftrightarrow> (\<exists>v. takes s e = {v})"
          and r': "r' = (if isTrue = Some True then c else e)" for isTrue r'
      proof (cases "isTrue = Some True")
        case True
        with b one have "\<forall>\<rho>. drives \<rho> s \<longrightarrow> eval \<rho> e = v" "\<exists>v. takes s e = {v}" by simp_all
        with True r' v(2) show ?thesis by simp
      next
        case False
        with b r' \<open>\<not> is_Constant e\<close> show ?thesis by (cases isTrue) auto
      qed
      show ?thesis
      proof (cases "ts_mustBeTrue T s (create_Eq e c) s1")
        case (Inr x)
        obtain isTrue s2 where x: "x = (isTrue, s2)" by fastforce
        with must Inr have "case isTrue of None \<Rightarrow> am \<noteq> MustAnswer | Some b \<Rightarrow> b \<longleftrightarrow> (\<exists>v. takes s e = {v})" "ok s2"
          by (simp_all add: runs_def)
        from result[OF this(1) refl] this(2) show ?thesis by (simp add: Some Inr x map_res_def)
      qed (use must in \<open>simp add: Some runs_def map_res_def\<close>)
    qed (use r s1 in simp)
  qed
qed

end

section \<open>Loads\<close>

definition bytes_in_object :: "int \<Rightarrow> nat \<Rightarrow> memory_object \<Rightarrow> bool" where
  "bytes_in_object v n mo \<longleftrightarrow> int (mo_address mo) \<le> v \<and> v + int n \<le> int (mo_address mo) + int (mo_size mo)"

text \<open>The number in the \<open>n\<close> bytes at an address, and what a register holds.\<close>

definition load_value :: "bool \<Rightarrow> env \<Rightarrow> store \<Rightarrow> address_space \<Rightarrow> memory_object \<Rightarrow> int \<Rightarrow> nat \<Rightarrow> int" where
  "load_value le \<rho> st as mo v n =
     bytes_val (map (\<lambda>i. the (contents \<rho> st as mo (nat (v - int (mo_address mo)) + byte_index le n i))) [0..<n])"

definition holds :: "nat \<Rightarrow> exec_state \<Rightarrow> expr \<Rightarrow> bool" where
  "holds dest t e \<longleftrightarrow> stack t \<noteq> [] \<and> dest < length (locals (last (stack t)))
     \<and> locals (last (stack t)) ! dest = Some e"

definition loaded :: "nat \<Rightarrow> env \<Rightarrow> int \<Rightarrow> exec_state \<Rightarrow> bool" where
  "loaded dest \<rho> v t \<longleftrightarrow> drives \<rho> t \<and> (\<exists>e. holds dest t e \<and> eval \<rho> e = v)"

lemma bindLocal_ok:
  assumes "bindLocal dest e t = Inr t'"
  shows "constraints t' = constraints t" "holds dest t' e"
  using assms by (auto simp: bindLocal_def holds_def Let_def split: if_splits)

lemma set_heap_simps [simp]:
  "est (exe (set_heap st M)) = est (exe M)" "heap (exe (set_heap st M)) = st"
  "solver (set_heap st M) = solver M" "removedStates (exe (set_heap st M)) = removedStates (exe M)"
  "testCases (set_heap st M) = testCases M" "emittedErrors (set_heap st M) = emittedErrors M"
  "atMemoryLimit (set_heap st M) = atMemoryLimit M" "inhibitForking (set_heap st M) = inhibitForking M"
  "haltExecution (set_heap st M) = haltExecution M"
  by (simp_all add: set_heap_def)

lemma heap_read_ok:
  assumes r: "heap_read le oid off (8 * n) st = Inr (e, st')" and st: "same_heap st0 st"
    and os: "objs st0 oid = Some os" "wf_object os" and off: "wf_expr off" and n: "0 < n" "n < 2 ^ 32"
  shows "same_heap st st'"
    "wf_env \<rho> \<Longrightarrow> offset32 off \<rho> + int n \<le> int (os_size os)
      \<Longrightarrow> eval \<rho> e = bytes_val (obj_bytes \<rho> le os (nat (offset32 off \<rho>)) n)"
proof -
  obtain os1 where os1: "objs st oid = Some os1" "os1 = os \<or> same_contents os os1"
    using st os(1) by (auto simp: same_heap_def option_rel_Some1 dest!: spec[of _ oid])
  then have wf1: "wf_object os1" and sc: "same_contents os os1"
    using os(2) same_contents_refl[OF os(2)] by (auto dest: same_contentsD(1))
  obtain os2 where os2: "read_sym (const_arr_name st) le off (8 * n) os1 = Inr (e, os2)"
    and st': "st' = put_object oid os1 os2 st"
    using r os1(1) by (auto simp: heap_read_def)
  note R = read_sym_ok[OF wf1 off n os2]
  show "same_heap st st'"
    using R os1(1) by (auto simp: same_heap_def st' put_object_def option.rel_refl)
  assume \<rho>: "wf_env \<rho>" and in': "offset32 off \<rho> + int n \<le> int (os_size os)"
  have sz: "os_size os1 = os_size os" using same_contentsD(2)[OF sc] .
  have "eval \<rho> e = bytes_val (obj_bytes \<rho> le os1 (nat (offset32 off \<rho>)) n)"
    using R \<rho> in' sz by simp
  also have "obj_bytes \<rho> le os1 (nat (offset32 off \<rho>)) n = obj_bytes \<rho> le os (nat (offset32 off \<rho>)) n"
    unfolding obj_bytes_def
  proof (rule map_cong[OF refl])
    fix i assume "i \<in> set [0..<n]"
    then have "byte_index le n i < n" by (auto simp: byte_index_def)
    moreover have "nat (offset32 off \<rho>) + n \<le> os_size os"
    proof -
      have "0 \<le> offset32 off \<rho>" by simp
      then have "int (nat (offset32 off \<rho>)) = offset32 off \<rho>" by (rule nat_0_le)
      with in' have "int (nat (offset32 off \<rho>) + n) \<le> int (os_size os)" by simp
      then show ?thesis by (simp only: of_nat_le_iff)
    qed
    ultimately have "nat (offset32 off \<rho>) + byte_index le n i < os_size os" by linarith
    then show "obj_val \<rho> os1 (nat (offset32 off \<rho>) + byte_index le n i)
        = obj_val \<rho> os (nat (offset32 off \<rho>) + byte_index le n i)"
      using same_contentsD(3)[OF sc _ \<rho>] by blast
  qed
  finally show "eval \<rho> e = bytes_val (obj_bytes \<rho> le os (nat (offset32 off \<rho>)) n)" .
qed

lemma bytes_check_ok:
  assumes f: "fits pw mo" and p: "wf_expr p" "getWidth p = pw" and n: "0 < n"
  shows "wf_expr (getBoundsCheckPointer_bytes pw mo p n)" "getWidth (getBoundsCheckPointer_bytes pw mo p n) = 1"
    "wf_env \<rho> \<Longrightarrow> eval \<rho> (getBoundsCheckPointer_bytes pw mo p n) = 1 \<longleftrightarrow> bytes_in_object (eval \<rho> p) n mo"
proof -
  note off = getOffsetExpr_ok[OF f p]
  have wf: "wf_expr (Binary Ult (getOffsetExpr pw mo p) (Constant pw (int (mo_size mo - n + 1))))
      \<and> take_bit pw (int (mo_size mo - n + 1)) = int (mo_size mo - n + 1)" if "n \<le> mo_size mo"
  proof -
    have "int (mo_size mo - n + 1) = int (mo_size mo) - int n + 1" using that by simp
    then have "in_width pw (int (mo_size mo - n + 1))" using fits_int[OF f] n by (simp add: in_width_def)
    with off fits_int[OF f] show ?thesis by (simp add: take_bit_in_width del: of_nat_add of_nat_diff)
  qed
  from sem_eqD(1,2)[OF create_Ult_sem_eq conjunct1[OF wf]] wf
  show "wf_expr (getBoundsCheckPointer_bytes pw mo p n)" "getWidth (getBoundsCheckPointer_bytes pw mo p n) = 1"
    by (auto simp: getBoundsCheckPointer_bytes_def getBoundsCheckOffset_bytes_def in_width_def)
  show "wf_env \<rho> \<Longrightarrow> eval \<rho> (getBoundsCheckPointer_bytes pw mo p n) = 1 \<longleftrightarrow> bytes_in_object (eval \<rho> p) n mo"
    using getBoundsCheckPointer_bytes_ok[OF f p _ n] by (simp add: bytes_in_object_def)
qed

lemma offset_bytes_in_object:
  assumes f: "fits pw mo" and p: "wf_expr p" "getWidth p = pw" and \<rho>: "wf_env \<rho>"
    and i: "bytes_in_object (eval \<rho> p) n mo" "mo_size mo < 2 ^ 32"
  shows "offset32 (getOffsetExpr pw mo p) \<rho> = eval \<rho> p - int (mo_address mo)"
proof -
  let ?o = "eval \<rho> p - int (mo_address mo)"
  have sz: "int (mo_size mo) < 2 ^ 32" using i(2) by (simp add: of_nat_less_iff[symmetric] del: of_nat_less_iff)
  have "in_width pw (eval \<rho> p)" using eval_in_width[OF \<rho> p(1)] p(2) by simp
  then have "in_width pw ?o" using i(1) by (simp add: bytes_in_object_def in_width_def)
  then have "eval \<rho> (getOffsetExpr pw mo p) = ?o"
    using getOffsetExpr_ok(3)[OF f p \<rho>] by (simp add: take_bit_in_width)
  moreover have "in_width 32 ?o" using i(1) sz by (simp add: bytes_in_object_def in_width_def)
  ultimately show ?thesis by (simp add: take_bit_in_width)
qed

lemma do_load_ok:
  assumes r: "do_access cf b (mo, oid) (getOffsetExpr (pointer_width cf) mo p) (Load (8 * n) dest) M = Inr M'"
    and t: "est (exe M) b = Some t" and st: "same_heap st0 (heap (exe M))"
    and fam: "family_ok st0 spaces" "as \<in> set spaces" "(mo, oid) \<in> objects_of as"
    and f: "fits (pointer_width cf) mo" "mo_size mo < 2 ^ 32" and p: "wf_expr p" "getWidth p = pointer_width cf"
    and n: "0 < n" "n < 2 ^ 32"
  shows "quiet b M M' \<and> solver M' = solver M \<and> (\<exists>t'. est (exe M') = (est (exe M))(b \<mapsto> t')
    \<and> (\<forall>\<rho>. drives \<rho> t \<longrightarrow> bytes_in_object (eval \<rho> p) n mo \<longrightarrow>
         loaded dest \<rho> (load_value (littleEndian (merge_settings cf)) \<rho> st0 as mo (eval \<rho> p) n) t'))"
proof -
  let ?le = "littleEndian (merge_settings cf)" and ?off = "getOffsetExpr (pointer_width cf) mo p"
  obtain os where os: "objs st0 oid = Some os" "wf_object os" "os_size os = mo_size mo"
    "\<And>\<rho> i. contents \<rho> st0 as mo i = Some (obj_val \<rho> os i)"
    using family_bound[OF fam] by metis
  obtain e st where e: "heap_read ?le oid ?off (8 * n) (heap (exe M)) = Inr (e, st)"
    and b: "bind_target dest b e (set_heap st M) = Inr M'"
    using r by (auto simp: do_access_def Let_def)
  have off: "wf_expr ?off" by (rule getOffsetExpr_ok(1)[OF f(1) p])
  note H = heap_read_ok[OF e st os(1,2) off n]
  have t1: "est (exe (set_heap st M)) b = Some t" using t by simp
  from b obtain t' where t': "bindLocal dest e t = Inr t'" "M' = set_state b t' (set_heap st M)"
    unfolding bind_target_def in_state_Some[OF t1] by auto
  have "loaded dest \<rho> (load_value ?le \<rho> st0 as mo (eval \<rho> p) n) t'"
    if d: "drives \<rho> t" and i: "bytes_in_object (eval \<rho> p) n mo" for \<rho>
  proof -
    note o = offset_bytes_in_object[OF f(1) p drives_env[OF d] i f(2)]
    have "eval \<rho> e = bytes_val (obj_bytes \<rho> ?le os (nat (eval \<rho> p - int (mo_address mo))) n)"
      using H(2)[OF drives_env[OF d]] i os(3) by (simp add: o bytes_in_object_def)
    then have "eval \<rho> e = load_value ?le \<rho> st0 as mo (eval \<rho> p) n"
      by (simp add: load_value_def obj_bytes_def os(4))
    then show ?thesis using bindLocal_ok[OF t'(1)] d by (auto simp: loaded_def drives_def)
  qed
  moreover have "quiet b M M'" using H(1) t by (auto simp: quiet_def t'(2))
  ultimately show ?thesis by (auto simp: t'(2))
qed

definition hits :: "object_pair list \<Rightarrow> int \<Rightarrow> nat \<Rightarrow> bool" where
  "hits rl v n \<longleftrightarrow> (\<exists>op \<in> set rl. bytes_in_object v n (fst op))"

text \<open>Each input that hits an object ends in a state that has loaded its bytes.\<close>

definition all_loaded :: "bool \<Rightarrow> nat \<Rightarrow> nat \<Rightarrow> store \<Rightarrow> address_space \<Rightarrow> exec_state \<Rightarrow> expr \<Rightarrow> object_pair list
    \<Rightarrow> nat \<Rightarrow> ('m, 's, 'r) machine \<Rightarrow> nat option \<Rightarrow> ('m, 's, 'r) machine \<Rightarrow> bool" where
  "all_loaded le dest n st as s p rl es M un M' \<longleftrightarrow> (\<forall>\<rho>. drives \<rho> s \<longrightarrow> hits rl (eval \<rho> p) n \<longrightarrow>
     (\<exists>op \<in> set rl. bytes_in_object (eval \<rho> p) n (fst op) \<and> (\<exists>i. (i = es \<or> est (exe M) i = None) \<and> un \<noteq> Some i
        \<and> at_state M' i (loaded dest \<rho> (load_value le \<rho> st as (fst op) (eval \<rho> p) n)))))"

definition rest_unbound :: "exec_state \<Rightarrow> (env \<Rightarrow> bool) \<Rightarrow> nat \<Rightarrow> ('m, 's, 'r) machine \<Rightarrow> nat option
    \<Rightarrow> ('m, 's, 'r) machine \<Rightarrow> bool" where
  "rest_unbound s P es M un M' \<longleftrightarrow> (case un of
       None \<Rightarrow> \<forall>\<rho>. drives \<rho> s \<longrightarrow> \<not> P \<rho>
     | Some u \<Rightarrow> at_state M' u (\<lambda>t. live t \<and> narrowed s P t) \<and> (u = es \<or> est (exe M) u = None))"

context timing_solver begin

lemma access_each_load:
  assumes T: "timing cf = T" "am = MustAnswer" and p: "wf_expr p" "getWidth p = pointer_width cf"
    and n: "0 < n" "n < 2 ^ 32" and fam: "family_ok st0 spaces" "as \<in> set spaces"
  shows "access_each cf p (Load (8 * n) dest) n rl es M = Inr (un, M') \<Longrightarrow> running ok cf M
    \<Longrightarrow> est (exe M) es = Some s \<Longrightarrow> active s \<Longrightarrow> same_heap st0 (heap (exe M))
    \<Longrightarrow> \<forall>op \<in> set rl. op \<in> objects_of as \<and> fits (pointer_width cf) (fst op) \<and> mo_size (fst op) < 2 ^ 32
    \<Longrightarrow> running ok cf M' \<and> quiet es M M' \<and> rest_unbound s (\<lambda>\<rho>. \<not> hits rl (eval \<rho> p) n) es M un M'
      \<and> all_loaded (littleEndian (merge_settings cf)) dest n st0 as s p rl es M un M'"
proof (induction rl arbitrary: es M s)
  case Nil
  then have "narrowed s (\<lambda>_. True) s" "live s"
    by (simp_all add: narrowed_self live_wf active_def)
  with Nil show ?case by (auto simp: rest_unbound_def all_loaded_def hits_def at_state_def)
next
  case (Cons op rl)
  let ?le = "littleEndian (merge_settings cf)"
  let ?c = "getBoundsCheckPointer_bytes (pointer_width cf) (fst op) p n"
  let ?go = "\<lambda>b M1. do_access cf b op (getOffsetExpr (pointer_width cf) (fst op) p) (Load (8 * n) dest) M1"
  have f: "fits (pointer_width cf) (fst op)" "mo_size (fst op) < 2 ^ 32" "(fst op, snd op) \<in> objects_of as"
    using Cons.prems(6) by simp_all
  note c = bytes_check_ok[OF f(1) p n(1)]
  obtain bound rest M1 where fk: "fork cf es ?c True M = Inr ((bound, rest), M1)"
    using Cons.prems(1) by auto
  note F = fork_exact[OF fk T Cons.prems(2-4) c(1,2)]
  note D = forkedD[OF F(1)]
  have bool: "eval \<rho> ?c = 0 \<or> eval \<rho> ?c = 1" if "drives \<rho> s" for \<rho>
    by (rule eval_bool[OF drives_env[OF that] c(1,2)])
  have cv: "eval \<rho> ?c = 1 \<longleftrightarrow> bytes_in_object (eval \<rho> p) n (fst op)" if "drives \<rho> s" for \<rho>
    by (rule c(3)[OF drives_env[OF that]])
  have hit: "hits (op # rl) v n \<longleftrightarrow> bytes_in_object v n (fst op) \<or> hits rl v n" for v by (simp add: hits_def)
  obtain M2 where ac: "(case bound of None \<Rightarrow> Inr M1 | Some b \<Rightarrow> ?go b M1) = Inr M2"
    and more: "(case rest of None \<Rightarrow> Inr (None, M2) | Some u \<Rightarrow> access_each cf p (Load (8 * n) dest) n rl u M2) = Inr (un, M')"
    using Cons.prems(1) by (simp only: access_each.simps fk bind_res.simps bind_res_Inr prod.case) blast
  have h1: "same_heap st0 (heap (exe M1))"
    using Cons.prems(5) F(2) by (auto simp: quiet_def intro: same_heap_trans)
  define mid where "mid b \<longleftrightarrow> quiet b M1 M2 \<and> solver M2 = solver M1 \<and> (\<exists>t'. est (exe M2) = (est (exe M1))(b \<mapsto> t')
    \<and> (\<forall>\<rho>. drives \<rho> s \<longrightarrow> bytes_in_object (eval \<rho> p) n (fst op) \<longrightarrow>
         loaded dest \<rho> (load_value ?le \<rho> st0 as (fst op) (eval \<rho> p) n) t'))" for b
  have mid: "mid b" if b: "bound = Some b" for b
  proof -
    from D(1)[OF b] obtain t where t: "est (exe M1) b = Some t" "narrowed s (\<lambda>\<rho>. eval \<rho> ?c = 1) t"
      unfolding at_state_def by blast
    have "?go b M1 = Inr M2" using ac b by simp
    then have "do_access cf b (fst op, snd op) (getOffsetExpr (pointer_width cf) (fst op) p) (Load (8 * n) dest) M1 = Inr M2"
      by simp
    note L = do_load_ok[OF this t(1) h1 fam f(3,1,2) p n]
    have "drives \<rho> t" if "drives \<rho> s" "bytes_in_object (eval \<rho> p) n (fst op)" for \<rho>
      using narrowedD(3)[OF t(2)] cv[OF that(1)] that by simp
    with L show ?thesis unfolding mid_def by blast
  qed
  have q2: "quiet es M M2"
  proof (cases bound)
    case (Some b)
    have "b = es \<or> est (exe M) b = None" by (rule D(5)[OF disjI1[OF Some]])
    from quiet_chain[OF F(2) _ this] mid[OF Some] show ?thesis by (simp add: mid_def)
  qed (use ac F(2) in simp)
  have "solver M2 = solver M1" using ac mid by (cases bound) (auto simp: mid_def)
  then have run2: "running ok cf M2"
    using running_quiet[OF Cons.prems(2) q2] F(3) by (simp add: running_def)
  have load_b: "\<exists>b. bound = Some b \<and> (b = es \<or> est (exe M) b = None)
      \<and> at_state M2 b (loaded dest \<rho> (load_value ?le \<rho> st0 as (fst op) (eval \<rho> p) n))"
    if d: "drives \<rho> s" and i: "bytes_in_object (eval \<rho> p) n (fst op)" for \<rho>
  proof -
    from D(3)[of \<rho>] d cv i obtain b where b: "bound = Some b" by (cases bound) auto
    from mid[OF b] d i have "at_state M2 b (loaded dest \<rho> (load_value ?le \<rho> st0 as (fst op) (eval \<rho> p) n))"
      by (auto simp: mid_def at_state_def)
    with b D(5)[OF disjI1[OF b]] show ?thesis by blast
  qed
  show ?case
  proof (cases rest)
    case None
    with more have r: "un = None" "M' = M2" by auto
    have e1: "bytes_in_object (eval \<rho> p) n (fst op)" if "drives \<rho> s" for \<rho>
      using D(4)[OF None that] bool[OF that] cv[OF that] by blast
    have "all_loaded ?le dest n st0 as s p (op # rl) es M un M'"
      unfolding all_loaded_def
    proof (intro allI impI)
      fix \<rho> assume d: "drives \<rho> s"
      from load_b[OF d e1[OF d]] e1[OF d] show "\<exists>op' \<in> set (op # rl). bytes_in_object (eval \<rho> p) n (fst op')
          \<and> (\<exists>i. (i = es \<or> est (exe M) i = None) \<and> un \<noteq> Some i
            \<and> at_state M' i (loaded dest \<rho> (load_value ?le \<rho> st0 as (fst op') (eval \<rho> p) n)))"
        unfolding r by (intro bexI[of _ op]) auto
    qed
    moreover have "rest_unbound s (\<lambda>\<rho>. \<not> hits (op # rl) (eval \<rho> p) n) es M un M'"
      using e1 hit by (simp add: rest_unbound_def r)
    ultimately show ?thesis using q2 run2 r by simp
  next
    case (Some u)
    with more have rec: "access_each cf p (Load (8 * n) dest) n rl u M2 = Inr (un, M')" by simp
    from D(2)[OF Some] obtain x where x: "est (exe M1) u = Some x" "live x" "narrowed s (\<lambda>\<rho>. eval \<rho> ?c = 0) x"
      unfolding at_state_def by blast
    have nb: "bound \<noteq> Some u" using D(6) Some by auto
    have x2: "est (exe M2) u = Some x"
    proof (cases bound)
      case (Some b)
      with nb mid[OF Some] x(1) show ?thesis by (auto simp: mid_def)
    qed (use ac x(1) in simp)
    have ax: "active x" by (rule active_narrowed[OF Cons.prems(4) x(3,2)])
    have uu: "u = es \<or> est (exe M) u = None" by (rule D(5)[OF disjI2[OF Some]])
    have h2: "same_heap st0 (heap (exe M2))"
      using Cons.prems(5) q2 by (auto simp: quiet_def intro: same_heap_trans)
    have rl: "\<forall>op \<in> set rl. op \<in> objects_of as \<and> fits (pointer_width cf) (fst op) \<and> mo_size (fst op) < 2 ^ 32"
      using Cons.prems(6) by simp
    note IH = Cons.IH[OF rec run2 x2 ax h2 rl]
    note qu = conjunct1[OF conjunct2[OF IH]] and un = conjunct1[OF conjunct2[OF conjunct2[OF IH]]]
    note al = conjunct2[OF conjunct2[OF conjunct2[OF IH]]]
    have q: "quiet es M M'" by (rule quiet_chain[OF q2 qu uu])
    have old: "i = es \<or> est (exe M) i = None" if "i = u \<or> est (exe M2) i = None" for i
      using that uu q2 by (auto simp: quiet_def)
    have dx: "drives \<rho> x \<longleftrightarrow> drives \<rho> s \<and> \<not> bytes_in_object (eval \<rho> p) n (fst op)" for \<rho>
      using narrowedD(3)[OF x(3)] cv bool by (metis zero_neq_one)
    have un': "rest_unbound s (\<lambda>\<rho>. \<not> hits (op # rl) (eval \<rho> p) n) es M un M'"
    proof (cases un)
      case None
      with un dx hit show ?thesis by (auto simp: rest_unbound_def)
    next
      case (Some w)
      with un obtain t where t: "est (exe M') w = Some t" "live t" "narrowed x (\<lambda>\<rho>. \<not> hits rl (eval \<rho> p) n) t"
        and w: "w = u \<or> est (exe M2) w = None" by (auto simp: rest_unbound_def at_state_def)
      have "narrowed s (\<lambda>\<rho>. \<not> hits (op # rl) (eval \<rho> p) n) t"
      proof (rule narrowed_cong[OF narrowed_trans[OF x(3) t(3)]])
        fix \<rho> assume d: "drives \<rho> s"
        from bool[OF d] cv[OF d] show "eval \<rho> ?c = 0 \<and> \<not> hits rl (eval \<rho> p) n \<longleftrightarrow> \<not> hits (op # rl) (eval \<rho> p) n"
          unfolding hit by auto
      qed
      with t(1,2) old[OF w] Some show ?thesis by (simp add: rest_unbound_def at_state_def)
    qed
    have "all_loaded ?le dest n st0 as s p (op # rl) es M un M'"
      unfolding all_loaded_def
    proof (intro allI impI)
      fix \<rho> assume d: "drives \<rho> s" and h: "hits (op # rl) (eval \<rho> p) n"
      show "\<exists>op' \<in> set (op # rl). bytes_in_object (eval \<rho> p) n (fst op')
          \<and> (\<exists>i. (i = es \<or> est (exe M) i = None) \<and> un \<noteq> Some i
            \<and> at_state M' i (loaded dest \<rho> (load_value ?le \<rho> st0 as (fst op') (eval \<rho> p) n)))"
      proof (cases "bytes_in_object (eval \<rho> p) n (fst op)")
        case True
        from load_b[OF d True] obtain b where b: "bound = Some b" "b = es \<or> est (exe M) b = None"
          "at_state M2 b (loaded dest \<rho> (load_value ?le \<rho> st0 as (fst op) (eval \<rho> p) n))" by blast
        have bu: "b \<noteq> u" "est (exe M2) b \<noteq> None" using b(1,3) nb by (auto simp: at_state_def)
        have "at_state M' b (loaded dest \<rho> (load_value ?le \<rho> st0 as (fst op) (eval \<rho> p) n))"
          by (rule quiet_at[OF qu bu(1) b(3)])
        moreover have "un \<noteq> Some b" using un bu by (auto simp: rest_unbound_def)
        ultimately show ?thesis using True b(2) by (intro bexI[of _ op]) auto
      next
        case False
        with h hit have "hits rl (eval \<rho> p) n" by blast
        then obtain op' i where o: "op' \<in> set rl" "bytes_in_object (eval \<rho> p) n (fst op')"
          "i = u \<or> est (exe M2) i = None" "un \<noteq> Some i"
          "at_state M' i (loaded dest \<rho> (load_value ?le \<rho> st0 as (fst op') (eval \<rho> p) n))"
          using al dx d False unfolding all_loaded_def by blast
        from o old[OF o(3)] show ?thesis by (intro bexI[of _ op']) auto
      qed
    qed
    with un' q IH show ?thesis by blast
  qed
qed

end

text \<open>
  A load with the default options, under a solver that answers: an error is reported exactly for
  the inputs that miss all objects, and when there are none each input ends in a state that has
  loaded the bytes at its address.
\<close>

definition load_ok :: "('m, 's, 'r) options \<Rightarrow> nat \<Rightarrow> nat \<Rightarrow> exec_state \<Rightarrow> expr \<Rightarrow> ('m, 's, 'r) machine
    \<Rightarrow> ('m, 's, 'r) machine \<Rightarrow> bool" where
  "load_ok cf dest n s p M M' \<longleftrightarrow>
     (let ops = objects_of (addressSpace s); safe = (\<lambda>\<rho>. \<exists>op \<in> ops. bytes_in_object (eval \<rho> p) n (fst op)) in
      report (EmitAllErrors cf) s (\<lambda>\<rho>. \<not> safe \<rho>) ''memory error: out of bound pointer'' Ptr M M'
      \<and> ((\<forall>\<rho>. drives \<rho> s \<longrightarrow> safe \<rho>) \<longrightarrow> (\<forall>\<rho>. drives \<rho> s \<longrightarrow>
          (\<exists>op \<in> ops. bytes_in_object (eval \<rho> p) n (fst op) \<and> (\<exists>i. at_state M' i (loaded dest \<rho>
            (load_value (littleEndian (merge_settings cf)) \<rho> (heap (exe M)) (addressSpace s) (fst op) (eval \<rho> p) n)))))))"

lemma report_from: "testCases M1 = testCases M \<Longrightarrow> report a s P m r M1 M' \<Longrightarrow> report a s P m r M M'"
  by (auto simp: report_def split: if_splits)

lemma report_cong:
  assumes "report a s P m r M M'" "\<And>\<rho>. drives \<rho> s \<Longrightarrow> P \<rho> \<longleftrightarrow> Q \<rho>"
  shows "report a s Q m r M M'"
proof -
  have "narrowed s P = narrowed s Q" using assms(2) narrowed_cong by blast
  moreover have "(\<exists>\<rho>. drives \<rho> s \<and> P \<rho>) \<longleftrightarrow> (\<exists>\<rho>. drives \<rho> s \<and> Q \<rho>)" using assms(2) by blast
  ultimately show ?thesis using assms(1) unfolding report_def by metis
qed

context timing_solver begin

lemma slow_path_load:
  assumes r: "slow_path cf es p (Load (8 * n) dest) n M = Inr M'" and T: "timing cf = T" "am = MustAnswer"
    and late: "resolve_late cf = (\<lambda>_. False)" and run: "running ok cf M"
    and s: "est (exe M) es = Some s" "active s"
    and p: "wf_expr p" "getWidth p = pointer_width cf" and as: "resolvable (pointer_width cf) (addressSpace s)"
    and n: "0 < n" "n < 2 ^ 32" and fam: "family_ok (heap (exe M)) spaces" "addressSpace s \<in> set spaces"
    and size: "\<forall>op \<in> objects_of (addressSpace s). mo_size (fst op) < 2 ^ 32"
  shows "load_ok cf dest n s p M M'"
proof -
  let ?ops = "objects_of (addressSpace s)"
  define msg where "msg = ''memory error: out of bound pointer''"
  obtain x where x: "resolve T (pointer_width cf) 0 (\<lambda>_. False) s (addressSpace s) p (solver M) = Inr x"
    using r T(1) s(1) by (cases "resolve T (pointer_width cf) 0 (\<lambda>_. False) s (addressSpace s) p (solver M)")
      (auto simp: slow_path_def late)
  obtain inc rl sol where rs: "x = ((inc, rl), sol)" by (metis surj_pair)
  have ad: "address_ok (pointer_width cf) s p" using s(2) p by (simp add: address_ok_def active_def)
  have sol: "ok (solver M)" using run by (simp add: running_def)
  have rl: "set rl \<subseteq> ?ops" "all_candidates s p ?ops rl" "ok sol" "\<not> inc"
    using resolve_ok[OF sol ad as, of 0 "\<lambda>_. False"] x rs T(2)
    by (auto simp: runs_def candidates_def may_give_up_def split: if_splits)
  let ?M = "M\<lparr>solver := sol\<rparr>"
  note r' = r[unfolded slow_path_def in_state_Some[OF s(1)] T(1) late x rs]
  obtain un M1 where ac: "access_each cf p (Load (8 * n) dest) n rl es ?M = Inr (un, M1)"
    using r' by (cases "access_each cf p (Load (8 * n) dest) n rl es ?M") auto
  have k: "(case un of None \<Rightarrow> Inr M1 | Some u \<Rightarrow> bind_res (getAddressInfo cf u p M1) (\<lambda>(info, M2).
      terminateStateOnError cf u msg Ptr M2)) = Inr M'"
    using r' rl(4) unfolding msg_def by (cases un) (simp_all add: ac)
  have q0: "quiet es M ?M" by (rule quiet_solver)
  have run0: "running ok cf ?M" using running_quiet[OF run q0] rl(3) by simp
  have s0: "est (exe ?M) es = Some s" and h0: "same_heap (heap (exe M)) (heap (exe ?M))" using s(1) by simp_all
  have ops: "\<forall>op \<in> set rl. op \<in> ?ops \<and> fits (pointer_width cf) (fst op) \<and> mo_size (fst op) < 2 ^ 32"
    using rl(1) as size by (auto simp: resolvable_def)
  note A = access_each_load[OF T p n fam ac run0 s0 s(2) h0 ops]
  have hit: "hits rl (eval \<rho> p) n \<longleftrightarrow> (\<exists>op \<in> ?ops. bytes_in_object (eval \<rho> p) n (fst op))" if d: "drives \<rho> s" for \<rho>
  proof
    assume "\<exists>op \<in> ?ops. bytes_in_object (eval \<rho> p) n (fst op)"
    then obtain op where op: "op \<in> ?ops" "bytes_in_object (eval \<rho> p) n (fst op)" by blast
    then have "touches (eval \<rho> p) (fst op)" using n(1) by (auto simp: touches_def bytes_in_object_def)
    then have "may_hit s p op" by (rule may_hitI[OF takesI[OF d]])
    with rl(2) op show "hits rl (eval \<rho> p) n" by (auto simp: all_candidates_def hits_def)
  qed (use rl(1) in \<open>auto simp: hits_def\<close>)
  have un: "case un of None \<Rightarrow> \<forall>\<rho>. drives \<rho> s \<longrightarrow> \<not> (\<not> hits rl (eval \<rho> p) n)
      | Some u \<Rightarrow> at_state M1 u (\<lambda>t. live t \<and> narrowed s (\<lambda>\<rho>. \<not> hits rl (eval \<rho> p) n) t)"
    using A by (cases un) (simp_all add: rest_unbound_def)
  have tc: "testCases M1 = testCases M" using A by (simp add: quiet_def)
  have some: "\<exists>info M2. getAddressInfo cf u p M1 = Inr (info, M2) \<and> terminateStateOnError cf u msg Ptr M2 = Inr M'"
    if "un = Some u" for u
    using k that by (cases "getAddressInfo cf u p M1") auto
  have "report (EmitAllErrors cf) s (\<lambda>\<rho>. \<not> hits rl (eval \<rho> p) n) msg Ptr M M'"
    by (rule report_unbound[where p = p, OF un tc _ some]) (use k in simp_all)
  then have rep: "report (EmitAllErrors cf) s (\<lambda>\<rho>. \<not> (\<exists>op \<in> ?ops. bytes_in_object (eval \<rho> p) n (fst op))) msg Ptr M M'"
    by (rule report_cong) (simp add: hit)
  have "\<exists>op \<in> ?ops. bytes_in_object (eval \<rho> p) n (fst op) \<and> (\<exists>i. at_state M' i (loaded dest \<rho>
      (load_value (littleEndian (merge_settings cf)) \<rho> (heap (exe M)) (addressSpace s) (fst op) (eval \<rho> p) n)))"
    if safe: "\<forall>\<rho>. drives \<rho> s \<longrightarrow> (\<exists>op \<in> ?ops. bytes_in_object (eval \<rho> p) n (fst op))" and d: "drives \<rho> s" for \<rho>
  proof -
    have "un = None"
    proof (rule ccontr)
      assume "un \<noteq> None"
      with un obtain t where "live t" "narrowed s (\<lambda>\<rho>. \<not> hits rl (eval \<rho> p) n) t" by (auto simp: at_state_def)
      then obtain \<rho>' where "drives \<rho>' s" "\<not> hits rl (eval \<rho>' p) n"
        unfolding live_def using narrowedD(3) by blast
      with hit safe show False by blast
    qed
    with k have "M' = M1" by simp
    moreover have "hits rl (eval \<rho> p) n" using hit[OF d] safe d by blast
    moreover note al = conjunct2[OF conjunct2[OF conjunct2[OF A]], unfolded all_loaded_def, rule_format, OF d]
    ultimately show ?thesis using rl(1) by blast
  qed
  with rep show ?thesis unfolding load_ok_def Let_def msg_def by blast
qed

lemma executeMemoryOperation_load:
  assumes r: "executeMemoryOperation cf es p (Load (8 * n) dest) M = Inr M'" and T: "timing cf = T" "am = MustAnswer"
    and cf: "\<not> SimplifySymIndices cf" "MaxSymArraySize cf = 0" "resolve_late cf = (\<lambda>_. False)"
    and run: "running ok cf M" and s: "est (exe M) es = Some s" "active s"
    and p: "wf_expr p" "getWidth p = pointer_width cf" and as: "resolvable (pointer_width cf) (addressSpace s)"
    and n: "0 < n" "n < 2 ^ 32" and fam: "family_ok (heap (exe M)) spaces" "addressSpace s \<in> set spaces"
    and size: "\<forall>op \<in> objects_of (addressSpace s). mo_size (fst op) < 2 ^ 32"
  shows "load_ok cf dest n s p M M'"
proof -
  let ?ops = "objects_of (addressSpace s)" and ?a = "Load (8 * n) dest"
  have ad: "address_ok (pointer_width cf) s p" using s(2) p by (simp add: address_ok_def active_def)
  have sol: "ok (solver M)" using run by (simp add: running_def)
  obtain found sol1 where f: "resolveOne_solver T (pointer_width cf) s (addressSpace s) p (solver M) = Inr (Some found, sol1)"
    "found_one s p ?ops found" "ok sol1"
    using answers_MustAnswer[OF resolveOne_solver_ok[OF sol ad as, unfolded T(2)]] by blast
  have bytes: "getMinBytesForWidth (access_width ?a) = n" by (simp add: getMinBytesForWidth_def access_width_def)
  let ?M1 = "M\<lparr>solver := sol1\<rparr>"
  have loc: "locate cf es p M = Inr ((p, found), ?M1)"
    unfolding locate_def in_state_Some[OF s(1)] T(1) f(1) by simp
  from r have r1: "bind_res (case found of Some op \<Rightarrow> fast_path cf es p ?a n op ?M1 | None \<Rightarrow> Inr (Inr p, ?M1))
      (\<lambda>(done, M2). case done of Inl _ \<Rightarrow> Inr M2 | Inr address \<Rightarrow> slow_path cf es address ?a n M2) = Inr M'"
    unfolding executeMemoryOperation_def Let_def in_state_Some[OF s(1)] bytes
    using cf(1) by (simp add: simplify_access_def loc)
  have slow: "load_ok cf dest n s p M M'" if sp: "slow_path cf es p ?a n (M\<lparr>solver := sol'\<rparr>) = Inr M'" and sol': "ok sol'" for sol'
  proof -
    let ?M = "M\<lparr>solver := sol'\<rparr>"
    have "running ok cf ?M" using running_quiet[OF run quiet_solver[of es M sol']] sol' by simp
    moreover have "est (exe ?M) es = Some s" "family_ok (heap (exe ?M)) spaces" using s(1) fam(1) by simp_all
    ultimately have "load_ok cf dest n s p ?M M'"
      using slow_path_load[OF sp T cf(3) _ _ s(2) p as n _ fam(2) size] by blast
    moreover have "heap (exe ?M) = heap (exe M)" "testCases ?M = testCases M" by simp_all
    ultimately show ?thesis unfolding load_ok_def Let_def report_def by (simp only:)
  qed
  show ?thesis
  proof (cases found)
    case None
    with r1 slow[of sol1] f(3) show ?thesis by simp
  next
    case (Some op)
    have op: "op \<in> ?ops" using f(2) Some by simp
    have fit: "fits (pointer_width cf) (fst op)" using op as by (simp add: resolvable_def)
    let ?c = "getBoundsCheckPointer_bytes (pointer_width cf) (fst op) p n"
    note c = bytes_check_ok[OF fit p n(1)]
    have sl: "live s" using s(2) by (simp add: active_def)
    from answers_MustAnswer[OF ts_mustBeTrue_ok[OF f(3) sl c(1,2), unfolded T(2)]] obtain b sol2 where
      b: "ts_mustBeTrue T s ?c sol1 = Inr (Some b, sol2)" "b \<longleftrightarrow> takes s ?c \<subseteq> {1}" "ok sol2" by blast
    have tk: "takes s ?c \<subseteq> {1} \<longleftrightarrow> (\<forall>\<rho>. drives \<rho> s \<longrightarrow> bytes_in_object (eval \<rho> p) n (fst op))"
      using c(3)[OF drives_env] by (auto simp: takes_def)
    let ?M2 = "M\<lparr>solver := sol2\<rparr>"
    have s1: "est (exe ?M1) es = Some s" using s(1) by simp
    have fp: "fast_path cf es p ?a n op ?M1 = (if b then map_res (\<lambda>M3. (Inl (), M3))
        (do_access cf es op (getOffsetExpr (pointer_width cf) (fst op) p) ?a ?M2) else Inr (Inr p, ?M2))"
      unfolding fast_path_def Let_def using cf(2) b(1) s1 T(1)
      by (simp add: getBoundsCheckPointer_bytes_def)
    show ?thesis
    proof (cases b)
      case False
      with r1 Some fp slow[of sol2] b(3) show ?thesis by simp
    next
      case True
      then have da: "do_access cf es (fst op, snd op) (getOffsetExpr (pointer_width cf) (fst op) p) ?a ?M2 = Inr M'"
        using r1 Some fp by auto
      have all: "\<forall>\<rho>. drives \<rho> s \<longrightarrow> bytes_in_object (eval \<rho> p) n (fst op)" using True b(2) tk by blast
      have s2: "est (exe ?M2) es = Some s" and h2: "same_heap (heap (exe M)) (heap (exe ?M2))" using s(1) by simp_all
      have op': "(fst op, snd op) \<in> ?ops" "mo_size (fst op) < 2 ^ 32" using op size by simp_all
      note L = do_load_ok[OF da s2 h2 fam op'(1) fit op'(2) p n]
      then have "testCases M' = testCases M" by (simp add: quiet_def)
      moreover have "\<not> (\<exists>\<rho>. drives \<rho> s \<and> \<not> (\<exists>op \<in> ?ops. bytes_in_object (eval \<rho> p) n (fst op)))" using all op by blast
      ultimately have rep: "report (EmitAllErrors cf) s (\<lambda>\<rho>. \<not> (\<exists>op \<in> ?ops. bytes_in_object (eval \<rho> p) n (fst op)))
          ''memory error: out of bound pointer'' Ptr M M'"
        unfolding report_def by (simp only: if_False)
      have "\<exists>op \<in> ?ops. bytes_in_object (eval \<rho> p) n (fst op) \<and> (\<exists>i. at_state M' i (loaded dest \<rho>
          (load_value (littleEndian (merge_settings cf)) \<rho> (heap (exe M)) (addressSpace s) (fst op) (eval \<rho> p) n)))"
        if d: "drives \<rho> s" for \<rho>
      proof -
        from L obtain t' where "est (exe M') es = Some t'"
          "loaded dest \<rho> (load_value (littleEndian (merge_settings cf)) \<rho> (heap (exe M)) (addressSpace s) (fst op) (eval \<rho> p) n) t'"
          using d all by (metis fun_upd_same)
        with op all d show ?thesis by (auto simp: at_state_def)
      qed
      with rep show ?thesis unfolding load_ok_def Let_def by blast
    qed
  qed
qed

end

end
