(* ===== verification/ExampleFork.thy ===== *)
theory ExampleFork
  imports ExampleRun ExampleSolver ExecMemory
begin

text \<open>
  A machine with the first state of \<open>Examples\<close>, over the core solver of \<open>ExampleSolver\<close>, for the
  properties of forks and memory operations.
\<close>

definition ex_timing :: "unit timing" where
  "ex_timing = \<lparr>ts_solver = ideal_impl, simplifyExprs = False, ts_fuel = 20\<rparr>"

text \<open>An allocator: the next free address.\<close>

partial_function (option) first_free :: "(nat \<Rightarrow> exec_state option) \<Rightarrow> nat \<Rightarrow> nat option" where
  "first_free f n = (if Option.is_none (f n) then Some n else first_free f (n + 1))"

declare first_free.simps [code]

definition fresh_address :: "(nat \<Rightarrow> exec_state option) \<Rightarrow> nat" where
  "fresh_address f = (case first_free f 2 of None \<Rightarrow> 0 | Some n \<Rightarrow> n)"

lemma first_free_finds: "finite (dom f) \<Longrightarrow> \<exists>k. first_free f n = Some k \<and> f k = None"
proof (induction "card (dom f \<inter> {n..})" arbitrary: n rule: less_induct)
  case less
  show ?case
  proof (cases "f n = None")
    case True
    then show ?thesis by (simp add: first_free.simps)
  next
    case False
    have "n \<in> dom f \<inter> {n..}" "n \<notin> dom f \<inter> {n + 1..}" using False by auto
    then have "dom f \<inter> {n + 1..} \<subset> dom f \<inter> {n..}" by fastforce
    then have "card (dom f \<inter> {n + 1..}) < card (dom f \<inter> {n..})"
      using less.prems by (intro psubset_card_mono) auto
    from less.hyps[OF this less.prems] False show ?thesis
      by (simp add: first_free.simps[of f n] Option.is_none_def)
  qed
qed

definition ex_options :: "unit timing \<Rightarrow> (nat list, unit, nat) options" where
  "ex_options T = \<lparr>merge_settings = ex_settings, delete_fuel = 9, constraint_fuel = 20, timing = T,
     getInt32 = (\<lambda>r. (r, r + 1)), allocate = fresh_address, pointer_width = 8,
     SimplifySymIndices = False, MaxSymArraySize = 0, resolve_late = (\<lambda>_. False),
     replayPath = None, replayKTest = False, MaxMemoryInhibit = True, MaxForks = None, MaxDepth = 0,
     OnlyOutputStatesCoveringNew = False, EmitAllErrors = True, ExitOnErrorType = [],
     internalFunctions = (\<lambda>_. False), parent = (\<lambda>_. ex_function)\<rparr>"

definition ex_executor :: "nat list executor" where
  "ex_executor = \<lparr>est = Map.empty(1 \<mapsto> ex_A), heap = ex_store, states = {1}, addedStates = [],
    removedStates = [], mergingSearcher = (new_MergingSearcher [])\<lparr>mg_base := [1]\<rparr>, handlers = Map.empty,
    mergeDecisionCache = Map.empty, pathsExplored = 0, queries = 0\<rparr>"

definition ex_machine :: "(nat list, unit, nat) machine" where
  "ex_machine = \<lparr>exe = ex_executor, solver = (), rng = 0, forks = 0, replayPosition = 0,
     atMemoryLimit = False, inhibitForking = False, haltExecution = False, emittedErrors = [], testCases = []\<rparr>"

lemma ex_load_out: "case executeMemoryOperation (ex_options T) 1 (Constant 8 101) (Load 8 0) ex_machine of
    Inr M \<Rightarrow> length (testCases M) = 1 | Inl _ \<Rightarrow> False"
  by code_simp

lemma ex_load_in: "case executeMemoryOperation (ex_options T) 1 (Constant 8 100) (Load 8 0) ex_machine of
    Inr M \<Rightarrow> length (testCases M) = 0 | Inl _ \<Rightarrow> False"
  by code_simp

lemma ex_split: "case split_state (ex_options T) 1 (Binary Ult (ex_byte 0) (Constant 8 5)) ex_machine of
    Inr ((Some t, Some f), M) \<Rightarrow> t = 1 \<and> f = 2 | _ \<Rightarrow> False"
  by code_simp

lemma ex_allocates: "allocates (ex_options T)"
  unfolding allocates_def
proof (intro allI impI)
  fix f :: "nat \<Rightarrow> exec_state option" assume "finite (dom f)"
  from first_free_finds[OF this, of 2] show "f (allocate (ex_options T) f) = None"
    by (auto simp: ex_options_def fresh_address_def)
qed

lemma ex_timing_solver: "timing_solver ex_timing (\<lambda>_. True) MustAnswer"
  by (simp add: timing_solver_def ex_timing_def ideal.solver_impl_axioms)

interpretation ex: timing_solver ex_timing "\<lambda>_. True" MustAnswer
  by (rule ex_timing_solver)

lemma ex_mode: "ts_mode ex_timing MustAnswer = MustAnswer"
  by (simp add: ts_mode_def ex_timing_def)

lemma ex_machine_simps [simp]:
  "est (exe ex_machine) 1 = Some ex_A" "est (exe ex_machine) (Suc 0) = Some ex_A" "heap (exe ex_machine) = ex_store" "solver ex_machine = ()"
  "testCases ex_machine = []" "finite (dom (est (exe ex_machine)))"
  by (simp_all add: ex_machine_def ex_executor_def)

lemma ex_options_simps [simp]:
  "timing (ex_options T) = T" "pointer_width (ex_options T) = 8" "\<not> SimplifySymIndices (ex_options T)"
  "MaxSymArraySize (ex_options T) = 0" "resolve_late (ex_options T) = (\<lambda>_. False)" "EmitAllErrors (ex_options T)"
  "MaxForks (ex_options T) = None" "MaxDepth (ex_options T) = 0"
  by (simp_all add: ex_options_def)

lemma ex_running: "running (\<lambda>_. True) (ex_options T) ex_machine"
  by (simp add: running_def ex_allocates) (simp add: ex_machine_def)

lemma ex_A_drives: "drives \<rho> ex_A \<longleftrightarrow> wf_model \<rho> \<and> eval \<rho> (ex_byte 0) < 10"
  by (simp add: drives_def ex_A_simps ex_cond_def)

lemma ex_A_active: "live ex_A" "framed ex_A" "active ex_A"
proof -
  have "drives (ex_model 0) ex_A" using ex_model_wf ex_model_value[of 0] by (simp add: ex_A_drives)
  then show "live ex_A" using ex_cond_wf by (auto simp: live_def wf_constraints_def ex_A_simps)
  moreover show "framed ex_A"
    by (simp add: framed_def ex_A_simps ex_frame_def new_StackFrame_def ex_function_def)
  moreover have "\<not> forkDisabled ex_A"
    by (simp add: ex_A_def ex_state_def new_ExecutionState_def pushFrame_def)
  ultimately show "active ex_A" by (simp add: active_def)
qed

lemma ex_resolvable: "resolvable 8 (addressSpace ex_A)"
  using ex_space_ok[of 0]
  by (simp add: resolvable_def ex_A_simps ex_objects_of disjoint_objects_def fits_def ex_object_def)

lemma ex_objects_A: "objects_of (addressSpace ex_A) = {(ex_object, 0)}"
  by (simp add: ex_A_simps ex_objects_of)

text \<open>The branch \<open>x[0] < 5\<close>, and the address \<open>x[0]\<close>, which no object covers.\<close>

definition ex_branch :: expr where
  "ex_branch = Binary Ult (ex_byte 0) (Constant 8 5)"

lemma ex_branch_wf: "wf_expr ex_branch" "getWidth ex_branch = 1" "eval \<rho> ex_branch = of_bool (eval \<rho> (ex_byte 0) < 5)"
  using ex_byte_wf[of 0] by (auto simp: ex_branch_def in_width_def)

lemma ex_fork: "\<exists>M. fork (ex_options ex_timing) 1 ex_branch True ex_machine = Inr ((Some 1, Some 2), M)"
proof -
  have q: "on_path ex_A ex_branch = ex_query 5"
    by (simp add: on_path_def ex_query_def ex_A_simps ex_branch_def)
  have nc: "\<not> is_Constant ex_branch" by (simp add: ex_branch_def)
  have "ts_evaluate ex_timing ex_A ex_branch () = Inr (Some SolverUnknown, ())"
    using nc ex_branch_wf(2) ex_query_validity(2)
    by (simp add: ts_evaluate_def ts_call_def ex_timing_def q solver_evaluate_def ex_query_def[THEN arg_cong[where f = q_expr]]
        flip: ex_branch_def)
      (simp add: ideal_impl_def return_call_def assert_res_def)
  then have "fork (ex_options ex_timing) 1 ex_branch True ex_machine = split_state (ex_options ex_timing) 1 ex_branch ex_machine"
    by (simp add: fork_def settle_def forks_inhibited_def ex_options_def assert_res_def)
      (simp add: ex_machine_def ex_A_def ex_state_def new_ExecutionState_def pushFrame_def)
  moreover from ex_split[of ex_timing] have
    "\<exists>M. split_state (ex_options ex_timing) 1 ex_branch ex_machine = Inr ((Some 1, Some 2), M)"
    by (auto simp: ex_branch_def split: sum.splits prod.splits option.splits)
  ultimately show ?thesis by simp
qed

lemma ex_takes: "takes ex_A (ex_byte 0) = {0..<10}"
proof -
  have "takes ex_A (ex_byte 0) = values_of (on_path ex_A (ex_byte 0))" by (rule values_of_on_path[symmetric])
  also have "on_path ex_A (ex_byte 0) = ex_value_query"
    by (simp add: on_path_def ex_value_query_def ex_A_simps)
  finally show ?thesis by (simp add: ex_values)
qed

lemma ex_free_in: "case resolveExact (ex_options T) 1 (Constant 8 100) ''free'' ex_machine of
    Inr (results, M) \<Rightarrow> length results = 1 | Inl _ \<Rightarrow> False"
  by code_simp

lemma ex_free_out: "case resolveExact (ex_options T) 1 (Constant 8 99) ''free'' ex_machine of
    Inr _ \<Rightarrow> True | Inl _ \<Rightarrow> False"
  by code_simp

lemma ex_switch: "case executor_branch (ex_options T) 1 [ex_branch, createIsZero ex_branch] ex_machine of
    Inr _ \<Rightarrow> True | Inl _ \<Rightarrow> False"
  by code_simp

end
