(* ===== verification/DiscretePDF.thy ===== *)
theory DiscretePDF
  imports Searcher
begin

text \<open>
  The weighted tree behind the non-uniform searchers, \<open>DiscretePDF\<close> of
  \<open>klee/include/klee/Internal/ADT/DiscretePDF.inc\<close>: a search tree with marks in the manner of a
  red-black tree, whose nodes also record the sum of the weights below them.

  The code holds a pointer to a node and walks through \<open>parent\<close>, \<open>left\<close> and
  \<open>right\<close>. A pointer to a node (or to the empty slot under one) is a location here: the subtree
  at it, and the frames from its parent up to the root. A rotation relinks the same nodes and moves
  to the one that came up.

  The type of the weights has the operations of a \<open>double\<close> and no laws until \<open>choose\<close> is
  given a meaning: what the tree contains, and that no operation runs into a null pointer, does not
  depend on how sums are rounded.
\<close>

section \<open>Nodes and locations\<close>

datatype ('k, 'w) pdf =
    NoNode
  | PdfNode bool "('k, 'w) pdf" 'k 'w 'w "('k, 'w) pdf"

text \<open>A node is mark (red or not), left subtree, key, weight, sum of weights, right subtree.\<close>

datatype ('k, 'w) frame =
    OnLeft bool 'k 'w 'w "('k, 'w) pdf"
  | OnRight bool "('k, 'w) pdf" 'k 'w 'w

type_synonym ('k, 'w) location = "('k, 'w) pdf \<times> ('k, 'w) frame list"

fun isBlack :: "('k, 'w) pdf \<Rightarrow> bool" where
  "isBlack NoNode = True"
| "isBlack (PdfNode m l k w s r) = (\<not> m)"

fun with_mark :: "bool \<Rightarrow> ('k, 'w) pdf \<Rightarrow> ('k, 'w) pdf" where
  "with_mark c NoNode = NoNode"
| "with_mark c (PdfNode m l k w s r) = PdfNode c l k w s r"

fun frame_isBlack :: "('k, 'w) frame \<Rightarrow> bool" where
  "frame_isBlack (OnLeft m k w s r) = (\<not> m)"
| "frame_isBlack (OnRight m l k w s) = (\<not> m)"

fun frame_with_mark :: "bool \<Rightarrow> ('k, 'w) frame \<Rightarrow> ('k, 'w) frame" where
  "frame_with_mark c (OnLeft m k w s r) = OnLeft c k w s r"
| "frame_with_mark c (OnRight m l k w s) = OnRight c l k w s"

fun is_left :: "('k, 'w) frame \<Rightarrow> bool" where
  "is_left (OnLeft m k w s r) = True"
| "is_left (OnRight m l k w s) = False"

fun add_sum :: "'w \<Rightarrow> ('k, 'w) pdf \<Rightarrow> 'w::plus" where
  "add_sum acc NoNode = acc"
| "add_sum acc (PdfNode m l k w s r) = acc + s"

fun setSum :: "('k, 'w::plus) pdf \<Rightarrow> ('k, 'w) pdf" where
  "setSum NoNode = NoNode"
| "setSum (PdfNode m l k w s r) = PdfNode m l k w (add_sum (add_sum w l) r) r"

text \<open>Moving between a node, its parent, its children and its sibling.\<close>

fun plug :: "('k, 'w) frame \<Rightarrow> ('k, 'w) pdf \<Rightarrow> ('k, 'w) pdf" where
  "plug (OnLeft m k w s r) t = PdfNode m t k w s r"
| "plug (OnRight m l k w s) t = PdfNode m l k w s t"

fun go_down :: "bool \<Rightarrow> ('k, 'w) location \<Rightarrow> ('k, 'w) location" where
  "go_down left (NoNode, c) = (NoNode, c)"
| "go_down left (PdfNode m l k w s r, c) =
     (if left then (l, OnLeft m k w s r # c) else (r, OnRight m l k w s # c))"

fun sibling :: "('k, 'w) frame \<Rightarrow> ('k, 'w) pdf" where
  "sibling (OnLeft m k w s r) = r"
| "sibling (OnRight m l k w s) = l"

fun with_sibling_mark :: "bool \<Rightarrow> ('k, 'w) frame \<Rightarrow> ('k, 'w) frame" where
  "with_sibling_mark b (OnLeft m k w s r) = OnLeft m k w s (with_mark b r)"
| "with_sibling_mark b (OnRight m l k w s) = OnRight m (with_mark b l) k w s"

fun to_sibling :: "('k, 'w) location \<Rightarrow> ('k, 'w) location" where
  "to_sibling (t, []) = (t, [])"
| "to_sibling (t, OnLeft m k w s r # c) = (r, OnRight m t k w s # c)"
| "to_sibling (t, OnRight m l k w s # c) = (l, OnLeft m k w s t # c)"

fun propogateSumsUp :: "('k, 'w::plus) location \<Rightarrow> ('k, 'w) pdf" where
  "propogateSumsUp (t, []) = setSum t"
| "propogateSumsUp (t, f # c) = propogateSumsUp (plug f (setSum t), c)"

text \<open>The same from the parent of a location, where there is one.\<close>

fun propogate_parent :: "('k, 'w::plus) location \<Rightarrow> ('k, 'w) pdf" where
  "propogate_parent (t, []) = t"
| "propogate_parent (t, f # c) = propogateSumsUp (plug f t, c)"

section \<open>Rotation, split and lengthen\<close>

text \<open>
  \<open>rotate\<close> lifts a node above its parent. It sums the lifted node first, from the sum that its
  parent had before the rotation.
\<close>

fun pdf_rotate :: "('k, 'w::plus) location \<Rightarrow> ('k, 'w) location result" where
  "pdf_rotate (PdfNode m l k w s r, OnLeft mp kp wp sp rp # c) =
     Inr (PdfNode m l k w (add_sum (add_sum w l) (PdfNode mp r kp wp sp rp))
            (setSum (PdfNode mp r kp wp sp rp)), c)"
| "pdf_rotate (PdfNode m l k w s r, OnRight mp lp kp wp sp # c) =
     Inr (PdfNode m (setSum (PdfNode mp lp kp wp sp l)) k w
            (add_sum (add_sum w (PdfNode mp lp kp wp sp l)) r) r, c)"
| "pdf_rotate (t, c) = Inl NullDereference"

fun blacken_children :: "('k, 'w) pdf \<Rightarrow> ('k, 'w) pdf" where
  "blacken_children NoNode = NoNode"
| "blacken_children (PdfNode m l k w s r) = PdfNode m (with_mark False l) k w s (with_mark False r)"

definition blacken_at :: "('k, 'w) location \<Rightarrow> ('k, 'w) location" where
  "blacken_at loc = (with_mark False (fst loc), snd loc)"

text \<open>
  \<open>split\<close>; afterwards the location is again that of the node it was called on, which is at the
  top after two rotations and under its parent after one.
\<close>

fun pdf_split :: "('k, 'w::plus) location \<Rightarrow> ('k, 'w) location result" where
  "pdf_split (NoNode, c) = Inl NullDereference"
| "pdf_split (n, []) = Inr (blacken_children n, [])"
| "pdf_split (n, p # c) =
     (let n' = with_mark True (blacken_children n) in
      if frame_isBlack p then Inr (n', p # c)
      else case c of
        [] \<Rightarrow> Inl NullDereference
      | pp # c' \<Rightarrow>
          (let pp' = frame_with_mark True pp in
           if is_left p = is_left pp
           then map_res (\<lambda>loc. go_down (is_left p) (blacken_at loc)) (pdf_rotate (plug p n', pp' # c'))
           else map_res blacken_at (bind_res (pdf_rotate (n', p # pp' # c')) pdf_rotate)))"

text \<open>Lifting the sibling of a node above their parent, seen from the node.\<close>

definition raise_sibling :: "(('k, 'w::plus) pdf \<Rightarrow> ('k, 'w) pdf result) \<Rightarrow> bool \<Rightarrow> ('k, 'w) location
    \<Rightarrow> ('k, 'w) location result" where
  "raise_sibling recolour left loc =
     bind_res (pdf_rotate (to_sibling loc)) (\<lambda>(up, c). bind_res (recolour up) (\<lambda>up'.
       Inr (go_down left (go_down left (up', c)))))"

text \<open>
  The first case of \<open>lengthen\<close>: a red sibling. The parent is marked red, the sibling black, and
  the sibling goes above the parent.
\<close>

definition lengthen_red_sibling :: "('k, 'w::plus) location \<Rightarrow> ('k, 'w) location result" where
  "lengthen_red_sibling loc =
     (case loc of
        (n, f # c) \<Rightarrow>
          if isBlack (sibling f) then Inr loc
          else raise_sibling (\<lambda>up. Inr (with_mark False up)) (is_left f)
                 (n, frame_with_mark True f # c)
      | _ \<Rightarrow> Inl NullDereference)"

text \<open>
  The last case: if the far nephew is black the near one, which is red, is lifted above the sibling
  and takes its place; then the sibling is lifted above the parent. The lifted node is marked red if
  the parent was, and its two children are marked black.
\<close>

fun child :: "bool \<Rightarrow> ('k, 'w) pdf \<Rightarrow> ('k, 'w) pdf" where
  "child left NoNode = NoNode"
| "child left (PdfNode m l k w s r) = (if left then l else r)"

fun with_child_mark :: "bool \<Rightarrow> bool \<Rightarrow> ('k, 'w) pdf \<Rightarrow> ('k, 'w) pdf" where
  "with_child_mark left c NoNode = NoNode"
| "with_child_mark left c (PdfNode m l k w s r) =
     (if left then PdfNode m (with_mark c l) k w s r else PdfNode m l k w s (with_mark c r))"

definition raise_near_nephew :: "bool \<Rightarrow> ('k, 'w::plus) location \<Rightarrow> ('k, 'w) location result" where
  "raise_near_nephew left loc =
     (if isBlack (child (\<not> left) (fst (to_sibling loc)))
      then bind_res (pdf_rotate (go_down left (to_sibling loc))) (\<lambda>(up, c).
             Inr (to_sibling (with_mark False (with_child_mark (\<not> left) True up), c)))
      else Inr loc)"

definition recolour_raised :: "bool \<Rightarrow> ('k, 'w) pdf \<Rightarrow> ('k, 'w) pdf result" where
  "recolour_raised left up =
     (if child left up = NoNode \<or> child (\<not> left) up = NoNode then Inl NullDereference
      else let up' = (if isBlack (child left up) then up else with_mark True up)
           in Inr (with_child_mark (\<not> left) False (with_child_mark left False up')))"

definition lengthen_red_nephew :: "('k, 'w::plus) location \<Rightarrow> ('k, 'w) location result" where
  "lengthen_red_nephew loc =
     (case loc of
        (n, f # c) \<Rightarrow>
          bind_res (raise_near_nephew (is_left f) loc) (\<lambda>loc'.
            raise_sibling (recolour_raised (is_left f)) (is_left f) loc')
      | _ \<Rightarrow> Inl NullDereference)"

text \<open>What \<open>lengthen_red_sibling\<close> leaves behind, for the measure of \<open>lengthen\<close>.\<close>

lemma pdf_rotate_Inr:
  "pdf_rotate loc = Inr x \<longleftrightarrow>
     (\<exists>m l k w s r mp kp wp sp rp c. loc = (PdfNode m l k w s r, OnLeft mp kp wp sp rp # c)
        \<and> x = (PdfNode m l k w (add_sum (add_sum w l) (PdfNode mp r kp wp sp rp))
            (setSum (PdfNode mp r kp wp sp rp)), c))
   \<or> (\<exists>m l k w s r mp lp kp wp sp c. loc = (PdfNode m l k w s r, OnRight mp lp kp wp sp # c)
        \<and> x = (PdfNode m (setSum (PdfNode mp lp kp wp sp l)) k w
            (add_sum (add_sum w (PdfNode mp lp kp wp sp l)) r) r, c))"
  by (induction loc rule: pdf_rotate.induct) auto

lemma lengthen_red_sibling_shape:
  assumes "lengthen_red_sibling (n, f # c) = Inr loc"
  shows "loc = (n, f # c) \<or> (\<exists>f' g. loc = (n, f' # g # c) \<and> \<not> frame_isBlack f')"
proof (cases f)
  case (OnLeft m k w s r)
  with assms show ?thesis
    by (cases r) (auto simp: lengthen_red_sibling_def raise_sibling_def split: if_splits)
next
  case (OnRight m l k w s)
  with assms show ?thesis
    by (cases l) (auto simp: lengthen_red_sibling_def raise_sibling_def split: if_splits)
qed

lemma plug_isBlack [simp]: "isBlack (plug f t) \<longleftrightarrow> frame_isBlack f"
  by (cases f) simp_all

lemma frame_mark_simps [simp]:
  "is_left (frame_with_mark b f) = is_left f" "is_left (with_sibling_mark b f) = is_left f"
  "frame_isBlack (frame_with_mark b f) \<longleftrightarrow> \<not> b" "frame_isBlack (with_sibling_mark b f) = frame_isBlack f"
  by (cases f; simp)+

function pdf_lengthen :: "('k, 'w::plus) location \<Rightarrow> ('k, 'w) location result" where
  "pdf_lengthen (n, c) =
     (if n = NoNode then Inl NullDereference
      else if \<not> isBlack n then Inr (with_mark False n, c)
      else if c = [] then Inr (n, c)
      else bind_res (lengthen_red_sibling (n, c)) (\<lambda>loc.
        case loc of
          (n', f # c') \<Rightarrow>
            if sibling f = NoNode
            then map_res (go_down (is_left f)) (pdf_lengthen (plug f n', c'))
            else if isBlack (child True (sibling f)) \<and> isBlack (child False (sibling f)) then
              (if frame_isBlack f
               then map_res (go_down (is_left f)) (pdf_lengthen (plug (with_sibling_mark True f) n', c'))
               else Inr (n', frame_with_mark False (with_sibling_mark True f) # c'))
            else lengthen_red_nephew loc
        | _ \<Rightarrow> Inl NullDereference))"
  by pat_completeness auto

termination
  apply (relation "measure (\<lambda>(n, c). 2 * length c + (if isBlack n then 1 else 0))")
    apply simp
  subgoal for n c by (cases c) (auto dest!: lengthen_red_sibling_shape)
  subgoal for n c by (cases c) (auto dest!: lengthen_red_sibling_shape)
  done


declare pdf_lengthen.simps [simp del]

section \<open>The operations\<close>

fun reds :: "('k, 'w) pdf \<Rightarrow> nat" where
  "reds NoNode = 0"
| "reds (PdfNode m l k w s r) = of_bool m + reds l + reds r"

fun frame_reds :: "('k, 'w) frame \<Rightarrow> nat" where
  "frame_reds (OnLeft m k w s r) = of_bool m + reds r"
| "frame_reds (OnRight m l k w s) = of_bool m + reds l"

definition loc_reds :: "('k, 'w) location \<Rightarrow> nat" where
  "loc_reds loc = reds (fst loc) + sum_list (map frame_reds (snd loc))"

lemma reds_with_mark [simp]: "reds (with_mark b t) = (if t = NoNode then 0 else of_bool b + reds t - of_bool (\<not> isBlack t))"
  by (cases t) auto

lemma reds_red: "\<not> isBlack t \<Longrightarrow> 0 < reds t"
  by (cases t) auto

text \<open>
  \<open>insert\<close>: on the way down every node with two red children is split. The loop ends because a
  split leaves fewer red nodes, and without a split the subtree shrinks.
\<close>

definition both_red :: "('k, 'w) pdf \<Rightarrow> bool" where
  "both_red t \<longleftrightarrow> \<not> isBlack (child True t) \<and> \<not> isBlack (child False t)"

lemma pdf_split_reds:
  assumes "pdf_split (n, c) = Inr loc" "both_red n"
  shows "loc_reds loc < loc_reds (n, c)"
proof (cases n)
  case (PdfNode m l k w s r)
  with assms have lr: "\<not> isBlack l" "\<not> isBlack r" "l \<noteq> NoNode" "r \<noteq> NoNode" by (auto simp: both_red_def)
  note reds_red[OF lr(1)] reds_red[OF lr(2)]
  then show ?thesis
  proof (cases c)
    case Nil
    with PdfNode assms lr show ?thesis using reds_red[OF lr(1)] by (auto simp: loc_reds_def)
  next
    case (Cons p c')
    show ?thesis
    proof (cases "frame_isBlack p")
      case True
      with PdfNode Cons assms lr show ?thesis using reds_red[OF lr(1)] reds_red[OF lr(2)] by (auto simp: loc_reds_def)
    next
      case False
      with PdfNode Cons assms lr show ?thesis using reds_red[OF lr(1)] reds_red[OF lr(2)]
        apply (cases c')
         apply simp
        subgoal for pp c''
          by (cases p; cases pp) (auto simp: loc_reds_def blacken_at_def Let_def map_res_def)
        done
    qed
  qed
qed (use assms in simp)

lemma loc_reds_go_down [simp]: "loc_reds (go_down b loc) = loc_reds loc"
  by (cases "(b, loc)" rule: go_down.cases) (auto simp: loc_reds_def)

function pdf_insert_loop :: "'k::linorder \<Rightarrow> 'w::{plus,zero} \<Rightarrow> ('k, 'w) location \<Rightarrow> ('k, 'w) pdf result" where
  "pdf_insert_loop item weight (NoNode, c) =
     (let n = PdfNode False NoNode item weight 0 NoNode in
      if c = [] then Inr (propogateSumsUp (n, c))
      else map_res propogateSumsUp (pdf_split (n, c)))"
| "pdf_insert_loop item weight (PdfNode m l k w s r, c) =
     bind_res (if both_red (PdfNode m l k w s r) then pdf_split (PdfNode m l k w s r, c)
               else Inr (PdfNode m l k w s r, c))
       (\<lambda>loc. case loc of
          (PdfNode m' l' k' w' s' r', c') \<Rightarrow>
            if k' = item then Inl AssertionFailed
            else pdf_insert_loop item weight (go_down (item < k') loc)
        | _ \<Rightarrow> Inl NullDereference)"
  by pat_completeness auto


termination
proof (relation "measures [\<lambda>(_, _, loc). loc_reds loc, \<lambda>(_, _, loc). size (fst loc)]", goal_cases)
  case (2 item weight m l k w s r c loc n' c' m' n1 k' w' s' r')
  then show ?case
    by (auto split: if_splits dest!: pdf_split_reds)
qed simp

declare pdf_insert_loop.simps [simp del]

definition pdf_insert :: "'k::linorder \<Rightarrow> 'w::{plus,zero} \<Rightarrow> ('k, 'w) pdf \<Rightarrow> ('k, 'w) pdf result" where
  "pdf_insert item weight root = pdf_insert_loop item weight (root, [])"

fun pdf_lookup :: "'k::linorder \<Rightarrow> ('k, 'w) pdf \<Rightarrow> ('k, 'w) frame list \<Rightarrow> ('k, 'w) location" where
  "pdf_lookup item NoNode c = (NoNode, c)"
| "pdf_lookup item (PdfNode m l k w s r) c =
     (if k = item then (PdfNode m l k w s r, c)
      else if item < k then pdf_lookup item l (OnLeft m k w s r # c)
      else pdf_lookup item r (OnRight m l k w s # c))"

text \<open>
  \<open>remove\<close>: a node with a left child takes the entry of the greatest node on its left, and it is
  that node which is unlinked.
\<close>

fun rightmost :: "('k, 'w) pdf \<Rightarrow> ('k, 'w) frame list \<Rightarrow> ('k, 'w) location" where
  "rightmost NoNode c = (NoNode, c)"
| "rightmost (PdfNode m l k w s r) c =
     (if r = NoNode then (PdfNode m l k w s r, c) else rightmost r (OnRight m l k w s # c))"

definition unlink_victim :: "('k, 'w) pdf \<Rightarrow> ('k, 'w) frame list \<Rightarrow> ('k, 'w) location" where
  "unlink_victim n c =
     (case n of
        PdfNode m l k w s r \<Rightarrow>
          (case rightmost l [] of
             (PdfNode _ _ k' w' _ _, _) \<Rightarrow> rightmost l (OnLeft m k' w' s r # c)
           | (NoNode, _) \<Rightarrow> (n, c))
      | NoNode \<Rightarrow> (n, c))"

definition unlink :: "('k, 'w::plus) location \<Rightarrow> ('k, 'w) pdf result" where
  "unlink loc =
     (case loc of (n, c) \<Rightarrow>
        (let d = (if child True n \<noteq> NoNode then child True n else child False n) in
         if d \<noteq> NoNode \<and> isBlack n then map_res propogate_parent (pdf_lengthen (d, c))
         else Inr (propogate_parent (d, c))))"

definition pdf_remove :: "'k::linorder \<Rightarrow> ('k, 'w::plus) pdf \<Rightarrow> ('k, 'w) pdf result" where
  "pdf_remove item root =
     (case pdf_lookup item root [] of (n, c) \<Rightarrow>
        if n = NoNode then Inl AssertionFailed else unlink (unlink_victim n c))"

definition pdf_update :: "'k::linorder \<Rightarrow> 'w::plus \<Rightarrow> ('k, 'w) pdf \<Rightarrow> ('k, 'w) pdf result" where
  "pdf_update item weight root =
     (case pdf_lookup item root [] of
        (NoNode, _) \<Rightarrow> Inl AssertionFailed
      | (PdfNode m l k w s r, c) \<Rightarrow> Inr (propogateSumsUp (PdfNode m l k weight s r, c)))"

definition inTree :: "'k::linorder \<Rightarrow> ('k, 'w) pdf \<Rightarrow> bool" where
  "inTree item root \<longleftrightarrow> fst (pdf_lookup item root []) \<noteq> NoNode"

definition pdf_getWeight :: "'k::linorder \<Rightarrow> ('k, 'w) pdf \<Rightarrow> 'w result" where
  "pdf_getWeight item root =
     (case pdf_lookup item root [] of
        (NoNode, _) \<Rightarrow> Inl AssertionFailed
      | (PdfNode m l k w s r, c) \<Rightarrow> Inr w)"

fun choose_from :: "'w::{minus,ord} \<Rightarrow> ('k, 'w) pdf \<Rightarrow> 'k result" where
  "choose_from v NoNode = Inl NullDereference"
| "choose_from v (PdfNode m l k w s r) =
     (let below = (case l of NoNode \<Rightarrow> False | PdfNode _ _ _ _ sl _ \<Rightarrow> v < sl);
          v' = (case l of NoNode \<Rightarrow> v | PdfNode _ _ _ _ sl _ \<Rightarrow> v - sl)
      in if below then choose_from v l
         else if v' < w \<or> r = NoNode then Inr k
         else choose_from (v' - w) r)"

definition pdf_choose :: "'w::{minus,ord,times,zero,one} \<Rightarrow> ('k, 'w) pdf \<Rightarrow> 'k result" where
  "pdf_choose p root =
     (if p < 0 \<or> 1 \<le> p then Inl AssertionFailed
      else case root of
        NoNode \<Rightarrow> Inl AssertionFailed
      | PdfNode m l k w s r \<Rightarrow> choose_from (s * p) root)"

definition pdf_empty :: "('k, 'w) pdf \<Rightarrow> bool" where
  "pdf_empty root \<longleftrightarrow> root = NoNode"


section \<open>Entries, sums and the colour of the root\<close>

text \<open>
  What a tree holds, in order, and what lies before and after a location. The sums of a tree are
  exact; at a location only the nodes on the way to the root may carry a sum that is out of date.
\<close>

fun entries :: "('k, 'w) pdf \<Rightarrow> ('k \<times> 'w) list" where
  "entries NoNode = []"
| "entries (PdfNode m l k w s r) = entries l @ (k, w) # entries r"

fun frame_before :: "('k, 'w) frame \<Rightarrow> ('k \<times> 'w) list" where
  "frame_before (OnLeft m k w s r) = []"
| "frame_before (OnRight m l k w s) = entries l @ [(k, w)]"

fun frame_after :: "('k, 'w) frame \<Rightarrow> ('k \<times> 'w) list" where
  "frame_after (OnLeft m k w s r) = (k, w) # entries r"
| "frame_after (OnRight m l k w s) = []"

fun before :: "('k, 'w) frame list \<Rightarrow> ('k \<times> 'w) list" where
  "before [] = []"
| "before (f # c) = before c @ frame_before f"

fun after :: "('k, 'w) frame list \<Rightarrow> ('k \<times> 'w) list" where
  "after [] = []"
| "after (f # c) = frame_after f @ after c"

fun sums_ok :: "('k, 'w::plus) pdf \<Rightarrow> bool" where
  "sums_ok NoNode = True"
| "sums_ok (PdfNode m l k w s r) \<longleftrightarrow> s = add_sum (add_sum w l) r \<and> sums_ok l \<and> sums_ok r"

definition kids_ok :: "('k, 'w::plus) pdf \<Rightarrow> bool" where
  "kids_ok t \<longleftrightarrow> sums_ok (child True t) \<and> sums_ok (child False t)"

definition path_ok :: "('k, 'w::plus) frame list \<Rightarrow> bool" where
  "path_ok c \<longleftrightarrow> (\<forall>f \<in> set c. sums_ok (sibling f))"

definition root_black :: "('k, 'w) location \<Rightarrow> bool" where
  "root_black loc \<longleftrightarrow> (if snd loc = [] then isBlack (fst loc) else frame_isBlack (last (snd loc)))"

lemma kids_ok_simps [simp]:
  "kids_ok NoNode" "kids_ok (PdfNode m l k w s r) \<longleftrightarrow> sums_ok l \<and> sums_ok r"
  by (simp_all add: kids_ok_def)

lemma path_ok_simps [simp]: "path_ok []" "path_ok (f # c) \<longleftrightarrow> sums_ok (sibling f) \<and> path_ok c"
  by (simp_all add: path_ok_def)

lemma with_mark_simps [simp]:
  "entries (with_mark b t) = entries t" "add_sum a (with_mark b t) = add_sum a t"
  "sums_ok (with_mark b t) = sums_ok t" "kids_ok (with_mark b t) = kids_ok t"
  "with_mark b t = NoNode \<longleftrightarrow> t = NoNode" "isBlack (with_mark b t) \<longleftrightarrow> t = NoNode \<or> \<not> b"
  by (cases t; simp)+

lemma with_mark_same: "isBlack t \<Longrightarrow> with_mark False t = t"
  by (cases t) simp_all

lemma frame_with_mark_simps [simp]:
  "frame_before (frame_with_mark b f) = frame_before f" "frame_after (frame_with_mark b f) = frame_after f"
  "sibling (frame_with_mark b f) = sibling f"
  "frame_before (with_sibling_mark b f) = frame_before f" "frame_after (with_sibling_mark b f) = frame_after f"
  "sums_ok (sibling (with_sibling_mark b f)) = sums_ok (sibling f)"
  by (cases f; simp)+

lemma blacken_children_simps [simp]:
  "entries (blacken_children t) = entries t" "kids_ok (blacken_children t) = kids_ok t"
  "isBlack (blacken_children t) = isBlack t" "blacken_children t = NoNode \<longleftrightarrow> t = NoNode"
  by (cases t; simp)+

lemma setSum_simps [simp]:
  "entries (setSum t) = entries t" "sums_ok (setSum t) = kids_ok t" "isBlack (setSum t) = isBlack t"
  "setSum t = NoNode \<longleftrightarrow> t = NoNode"
  by (cases t; simp)+

lemma plug_simps [simp]:
  "entries (plug f t) = frame_before f @ entries t @ frame_after f"
  "kids_ok (plug f t) \<longleftrightarrow> sums_ok t \<and> sums_ok (sibling f)" "plug f t \<noteq> NoNode"
  by (cases f; auto)+

lemma go_down_plug [simp]: "go_down (is_left f) (plug f t, c) = (t, f # c)"
  by (cases f) simp_all

lemma go_down_black_plug [simp]: "go_down (is_left f) (with_mark False (plug f t), c) = (t, frame_with_mark False f # c)"
  by (cases f) simp_all

lemma propogateSumsUp_entries [simp]:
  "entries (propogateSumsUp (t, c)) = before c @ entries t @ after c"
  by (induction c arbitrary: t) auto

lemma propogateSumsUp_sums: "kids_ok t \<Longrightarrow> path_ok c \<Longrightarrow> sums_ok (propogateSumsUp (t, c))"
  by (induction c arbitrary: t) auto

lemma propogateSumsUp_black [simp]: "isBlack (propogateSumsUp (t, c)) \<longleftrightarrow> root_black (t, c)"
  by (induction c arbitrary: t) (auto simp: root_black_def)

lemma propogate_parent_ok:
  "entries (propogate_parent (t, c)) = before c @ entries t @ after c"
  "sums_ok t \<Longrightarrow> path_ok c \<Longrightarrow> sums_ok (propogate_parent (t, c))"
  "isBlack (propogate_parent (t, c)) \<longleftrightarrow> root_black (t, c)"
  by (cases c; auto simp: propogateSumsUp_sums root_black_def)+

section \<open>Lengthen\<close>

text \<open>Two paths around one subtree: the same entries lie before and after it.\<close>

definition same_around :: "('k, 'w::plus) frame list \<Rightarrow> ('k, 'w) frame list \<Rightarrow> bool" where
  "same_around c c' \<longleftrightarrow> before c' = before c \<and> after c' = after c \<and> (path_ok c \<longrightarrow> path_ok c')
     \<and> (c' = [] \<longleftrightarrow> c = []) \<and> (c \<noteq> [] \<longrightarrow> frame_isBlack (last c) \<longrightarrow> frame_isBlack (last c'))"

lemma same_around_refl [simp]: "same_around c c"
  by (simp add: same_around_def)

lemma same_around_trans: "same_around c c' \<Longrightarrow> same_around c' c'' \<Longrightarrow> same_around c c''"
  by (auto simp: same_around_def)

lemma same_around_blacken: "same_around (f # c) (frame_with_mark False f # c)"
  by (auto simp: same_around_def)

lemma same_around_up:
  assumes "same_around c c'" "frame_before f' = frame_before f" "frame_after f' = frame_after f"
    "sums_ok (sibling f') = sums_ok (sibling f)" "frame_isBlack f \<longrightarrow> frame_isBlack f'"
  shows "same_around (f # c) (f' # c')"
  using assms by (auto simp: same_around_def)

lemma lengthen_red_sibling_ok:
  "\<exists>f' c'. lengthen_red_sibling (n, f # c) = Inr (n, f' # c') \<and> same_around (f # c) (f' # c')
     \<and> (isBlack (sibling f') \<or> \<not> frame_isBlack f')"
proof (cases f)
  case (OnLeft m k w s r)
  then show ?thesis
    by (cases r) (auto simp: lengthen_red_sibling_def raise_sibling_def same_around_def)
next
  case (OnRight m l k w s)
  then show ?thesis
    by (cases l) (auto simp: lengthen_red_sibling_def raise_sibling_def same_around_def)
qed

lemma isBlack_child: "\<not> isBlack t \<Longrightarrow> \<exists>m l k w s r. t = PdfNode m l k w s r"
  by (cases t) auto

lemma lengthen_red_nephew_ok:
  assumes "\<not> (isBlack (child True (sibling f)) \<and> isBlack (child False (sibling f)))"
    and "isBlack (sibling f) \<or> \<not> frame_isBlack f"
  shows "\<exists>c'. lengthen_red_nephew (n, f # c) = Inr (n, c') \<and> same_around (f # c) c'"
proof (cases f)
  case (OnLeft m k w s r)
  with assms(1) obtain mr lr kr wr sr rr where r: "r = PdfNode mr lr kr wr sr rr" by (cases r) auto
  show ?thesis
  proof (cases "isBlack rr")
    case True
    with assms(1) OnLeft r obtain a b c d e g where "lr = PdfNode a b c d e g" by (cases lr) auto
    with OnLeft r True assms(2) show ?thesis
      by (auto simp: lengthen_red_nephew_def raise_sibling_def raise_near_nephew_def recolour_raised_def
          same_around_def Let_def)
  next
    case False
    with isBlack_child[OF False] OnLeft r assms(2) show ?thesis
      by (auto simp: lengthen_red_nephew_def raise_sibling_def raise_near_nephew_def recolour_raised_def
          same_around_def Let_def)
  qed
next
  case (OnRight m l k w s)
  with assms(1) obtain ml ll kl wl sl rl where l: "l = PdfNode ml ll kl wl sl rl" by (cases l) auto
  show ?thesis
  proof (cases "isBlack ll")
    case True
    with assms(1) OnRight l obtain a b c d e g where "rl = PdfNode a b c d e g" by (cases rl) auto
    with OnRight l True assms(2) show ?thesis
      by (auto simp: lengthen_red_nephew_def raise_sibling_def raise_near_nephew_def recolour_raised_def
          same_around_def Let_def)
  next
    case False
    with isBlack_child[OF False] OnRight l assms(2) show ?thesis
      by (auto simp: lengthen_red_nephew_def raise_sibling_def raise_near_nephew_def recolour_raised_def
          same_around_def Let_def)
  qed
qed


lemma pdf_lengthen_ok:
  assumes "n \<noteq> NoNode"
  shows "\<exists>n' c'. pdf_lengthen (n, c) = Inr (n', c') \<and> same_around c c'
    \<and> (n' = n \<or> n' = with_mark False n) \<and> (c = [] \<longrightarrow> isBlack n')"
  using assms
proof (induction "(n, c)" arbitrary: n c rule: pdf_lengthen.induct)
  case (1 n c)
  show ?case
  proof (cases "isBlack n \<and> c \<noteq> []")
    case False
    with "1.prems" show ?thesis by (auto simp: pdf_lengthen.simps[of n c])
  next
    case True
    then obtain f0 c0 where c: "c = f0 # c0" by (cases c) auto
    obtain f c1 where red: "lengthen_red_sibling (n, c) = Inr (n, f # c1)"
      and around: "same_around c (f # c1)" and col: "isBlack (sibling f) \<or> \<not> frame_isBlack f"
      using lengthen_red_sibling_ok[of n f0 c0] c by blast
    note step = pdf_lengthen.simps[of n c]
    show ?thesis
    proof (cases "sibling f = NoNode \<or> isBlack (child True (sibling f)) \<and> isBlack (child False (sibling f)) \<and> frame_isBlack f")
      case True': True
      define g where "g = (if sibling f = NoNode then f else with_sibling_mark True f)"
      have IH: "\<exists>n' c'. pdf_lengthen (plug g n, c1) = Inr (n', c') \<and> same_around c1 c'
          \<and> (n' = plug g n \<or> n' = with_mark False (plug g n))"
        using "1.hyps"(1)[OF "1.prems" _ _ red refl refl] "1.hyps"(2)[OF "1.prems" _ _ red refl refl] True True' by (auto simp: g_def)
      then obtain n' c' where n': "pdf_lengthen (plug g n, c1) = Inr (n', c')" "same_around c1 c'"
        "n' = plug g n \<or> n' = with_mark False (plug g n)" by blast
      then obtain f' where f': "go_down (is_left g) (n', c') = (n, f' # c')" "f' = g \<or> f' = frame_with_mark False g"
        by auto
      have "same_around (f # c1) (f' # c')"
        by (rule same_around_up[OF n'(2)]) (use f'(2) in \<open>auto simp: g_def split: if_splits\<close>)
      moreover have "pdf_lengthen (n, c) = Inr (n, f' # c')"
        using True True' "1.prems" red n'(1) f'(1) by (auto simp: step g_def map_res_def split: if_splits)
      ultimately show ?thesis using same_around_trans[OF around] c by auto
    next
      case False': False
      show ?thesis
      proof (cases "isBlack (child True (sibling f)) \<and> isBlack (child False (sibling f))")
        case kids: True
        have "same_around (f # c1) (frame_with_mark False (with_sibling_mark True f) # c1)"
          by (rule same_around_up) auto
        with same_around_trans[OF around this] kids False' True "1.prems" red show ?thesis by (auto simp: step)
      next
        case kids: False
        from lengthen_red_nephew_ok[OF this col, of n c1] obtain c' where
          "lengthen_red_nephew (n, f # c1) = Inr (n, c')" "same_around (f # c1) c'" by blast
        with same_around_trans[OF around this(2)] kids False' True "1.prems" red show ?thesis by (auto simp: step)
      qed
    qed
  qed
qed


section \<open>Insertion\<close>

lemma pdf_split_ok:
  assumes "n \<noteq> NoNode" "root_black (n, c)"
  shows "\<exists>n' c'. pdf_split (n, c) = Inr (n', c') \<and> n' \<noteq> NoNode \<and> root_black (n', c')
    \<and> before c' @ entries n' @ after c' = before c @ entries n @ after c
    \<and> set (before c') \<subseteq> set (before c) \<and> set (after c') \<subseteq> set (after c)
    \<and> (kids_ok n \<longrightarrow> path_ok c \<longrightarrow> kids_ok n' \<and> path_ok c')"
proof -
  obtain m l k w s r where n: "n = PdfNode m l k w s r" using assms(1) by (cases n) auto
  show ?thesis
  proof (cases c)
    case Nil
    with n assms(2) show ?thesis by (simp add: root_black_def)
  next
    case (Cons p c1)
    show ?thesis
    proof (cases "frame_isBlack p")
      case True
      with n Cons assms(2) show ?thesis by (auto simp: root_black_def)
    next
      case red: False
      then obtain pp c2 where c1: "c1 = pp # c2" using Cons assms(2) by (cases c1) (auto simp: root_black_def)
      show ?thesis
        using n Cons c1 red assms(2)
        by (cases p; cases pp; cases "c2 = []")
          (simp_all add: root_black_def blacken_at_def map_res_def subset_insertI2)
    qed
  qed
qed

lemma go_down_ok:
  assumes "n \<noteq> NoNode"
  obtains t f where "go_down d (n, c) = (t, f # c)" "plug f t = n"
proof (cases n)
  case (PdfNode m l k w s r)
  with that show ?thesis by (cases d) simp_all
qed (use assms in simp)

lemma plug_around:
  fixes t :: "('k, 'w::plus) pdf"
  shows
  "before (f # c) @ entries t @ after (f # c) = before c @ entries (plug f t) @ after c"
  "root_black (plug f t, c) = root_black (t, f # c)"
  by (auto simp: root_black_def)


text \<open>An item goes to where the order of the keys puts it, and is refused if it is there.\<close>

lemma sorted_entries_split:
  assumes "sorted_wrt (\<lambda>x y. fst x < fst y) (xs @ (k, w) # ys)" "item < (k :: 'k::linorder)"
  shows "\<forall>x \<in> set ys. item < fst x"
  using assms by (force simp: sorted_wrt_append)

lemma pdf_insert_loop_ok:
  fixes item :: "'k::linorder" and weight :: "'w::{plus,zero}"
  assumes "root_black (t, c)" "kids_ok t" "path_ok c"
    "sorted_wrt (\<lambda>x y. fst x < fst y) (before c @ entries t @ after c)"
    "\<forall>x \<in> set (before c). fst x < item" "\<forall>x \<in> set (after c). item < fst x"
  shows "if item \<in> fst ` set (entries t) then pdf_insert_loop item weight (t, c) = Inl AssertionFailed
    else \<exists>t' l r. pdf_insert_loop item weight (t, c) = Inr t' \<and> before c @ entries t @ after c = l @ r
      \<and> entries t' = l @ (item, weight) # r \<and> (\<forall>x \<in> set l. fst x < item) \<and> (\<forall>x \<in> set r. item < fst x)
      \<and> sums_ok t' \<and> isBlack t'"
  using assms
proof (induction item weight "(t, c)" arbitrary: t c rule: pdf_insert_loop.induct)
  case (1 item weight c)
  let ?n = "PdfNode False NoNode item weight 0 NoNode"
  show ?case
  proof (cases "c = []")
    case True
    then show ?thesis by (simp add: pdf_insert_loop.simps)
  next
    case False
    have rb: "root_black (?n, c)" using "1.prems"(1) False by (simp add: root_black_def)
    obtain n' c' where sp: "pdf_split (?n, c) = Inr (n', c')" "root_black (n', c')"
      "before c' @ entries n' @ after c' = before c @ (item, weight) # after c" "kids_ok n'" "path_ok c'"
      using pdf_split_ok[of ?n c, OF _ rb] "1.prems"(3) by auto
    then have "pdf_insert_loop item weight (NoNode, c) = Inr (propogateSumsUp (n', c'))"
      using False by (simp add: pdf_insert_loop.simps map_res_def)
    moreover have "entries (propogateSumsUp (n', c')) = before c @ (item, weight) # after c" using sp(3) by simp
    ultimately show ?thesis
      using "1.prems"(5,6) sp(2) propogateSumsUp_sums[OF sp(4,5)] by auto
  qed
next
  case (2 item weight m l k w s r c)
  let ?n = "PdfNode m l k w s r"
  obtain n c' where n: "(if both_red ?n then pdf_split (?n, c) else Inr (?n, c)) = Inr (n, c')"
    "n \<noteq> NoNode" "root_black (n, c')" "before c' @ entries n @ after c' = before c @ entries ?n @ after c"
    "set (before c') \<subseteq> set (before c)" "set (after c') \<subseteq> set (after c)" "kids_ok n" "path_ok c'"
    using pdf_split_ok[of ?n c, OF _ "2.prems"(1)] "2.prems"(1-3)
    by (cases "both_red ?n") auto
  have same: "item \<in> fst ` set (entries n) \<longleftrightarrow> item \<in> fst ` set (entries ?n)"
  proof -
    have "fst ` set (before c' @ entries n @ after c') = fst ` set (before c @ entries ?n @ after c)" using n(4) by simp
    moreover have "item \<notin> fst ` set (before c)" "item \<notin> fst ` set (after c)" using "2.prems"(5,6) by auto
    moreover have "item \<notin> fst ` set (before c')" "item \<notin> fst ` set (after c')"
      using n(5,6) "2.prems"(5,6) by auto
    ultimately show ?thesis by (auto simp: image_Un)
  qed
  obtain m' l' k' w' s' r' where n': "n = PdfNode m' l' k' w' s' r'" using n(2) by (cases n) auto
  note step = pdf_insert_loop.simps(2)[of item weight m l k w s r c, unfolded n(1)]
  show ?case
  proof (cases "k' = item")
    case True
    then have "item \<in> fst ` set (entries n)" using n' by simp
    with same True n' show ?thesis by (simp add: step)
  next
    case False
    obtain t f where t: "go_down (item < k') (n, c') = (t, f # c')" "plug f t = n" using go_down_ok[OF n(2)] by blast
    have sorted: "sorted_wrt (\<lambda>x y. fst x < fst y) (before (f # c') @ entries t @ after (f # c'))"
      using "2.prems"(4) n(4) t(2) plug_around(1)[of f c' t] by simp
    have k: "if item < k' then t = l' \<and> f = OnLeft m' k' w' s' r' else t = r' \<and> f = OnRight m' l' k' w' s'"
      using t(1) n' by (auto split: if_splits)
    have lo: "\<forall>x \<in> set (before (f # c')). fst x < item" and hi: "\<forall>x \<in> set (after (f # c')). item < fst x"
      using k sorted "2.prems"(5,6) n(5,6) False by (force simp: sorted_wrt_append split: if_splits)+
    have kids: "kids_ok t" "path_ok (f # c')" using n(7,8) t(2)[symmetric] kids_ok_def
      by (cases t; auto)+
    have mem: "item \<in> fst ` set (entries t) \<longleftrightarrow> item \<in> fst ` set (entries n)"
      using lo hi t(2) by (auto simp flip: t(2))
    have go: "pdf_insert_loop item weight (?n, c) = pdf_insert_loop item weight (t, f # c')"
      using t(1) False n' by (simp add: step)
    have rb: "root_black (t, f # c')" using n(3) t(2) plug_around(2)[of f t c'] by simp
    note IH = "2.hyps"[OF n(1) refl n' False t(1) rb kids sorted lo hi]
    have around: "before (f # c') @ entries t @ after (f # c') = before c @ entries ?n @ after c"
      using plug_around(1)[of f c' t] t(2) n(4) by simp
    show ?thesis using IH unfolding mem same go around .
  qed
qed


section \<open>Lookup and removal\<close>

lemma root_black_cong: "isBlack t = isBlack t' \<Longrightarrow> root_black (t, c) = root_black (t', c)"
  by (simp add: root_black_def)

lemma pdf_lookup_ok:
  fixes t :: "('k::linorder, 'w::plus) pdf"
  assumes "sorted_wrt (\<lambda>x y. fst x < fst y) (entries t)" "kids_ok t" "path_ok c" "pdf_lookup item t c = (n, c')"
  shows "before c' @ entries n @ after c' = before c @ entries t @ after c" "kids_ok n" "path_ok c'"
    "n = NoNode \<longleftrightarrow> item \<notin> fst ` set (entries t)"
    "n \<noteq> NoNode \<Longrightarrow> \<exists>m l w s r. n = PdfNode m l item w s r"
    "n \<noteq> NoNode \<Longrightarrow> root_black (t, c) \<Longrightarrow> root_black (n, c')"
proof -
  have "before c' @ entries n @ after c' = before c @ entries t @ after c \<and> kids_ok n \<and> path_ok c'
    \<and> (n = NoNode \<longleftrightarrow> item \<notin> fst ` set (entries t)) \<and> (n \<noteq> NoNode \<longrightarrow> (\<exists>m l w s r. n = PdfNode m l item w s r))
    \<and> (n \<noteq> NoNode \<longrightarrow> root_black (t, c) \<longrightarrow> root_black (n, c'))"
    using assms
  proof (induction item t c rule: pdf_lookup.induct)
    case (2 item m l k w s r c)
    consider "k = item" | "item < k" | "k < item" by fastforce
    then show ?case
    proof cases
      case 2
      have up: "\<forall>x \<in> set (entries r). item < fst x" using "2.prems"(1) 2 by (force simp: sorted_wrt_append)
      have l: "kids_ok l" using "2.prems"(2) by (cases l) auto
      have "before c' @ entries n @ after c' = before (OnLeft m k w s r # c) @ entries l @ after (OnLeft m k w s r # c)
        \<and> kids_ok n \<and> path_ok c' \<and> (n = NoNode \<longleftrightarrow> item \<notin> fst ` set (entries l))
        \<and> (n \<noteq> NoNode \<longrightarrow> (\<exists>m l w s r. n = PdfNode m l item w s r))
        \<and> (n \<noteq> NoNode \<longrightarrow> root_black (l, OnLeft m k w s r # c) \<longrightarrow> root_black (n, c'))"
      proof (rule "2.IH"(1)[OF _ 2 _ l])
        show "k \<noteq> item" using 2 by auto
        then show "pdf_lookup item l (OnLeft m k w s r # c) = (n, c')" using "2.prems"(4) 2 by simp
      qed (use "2.prems" in \<open>simp_all add: sorted_wrt_append\<close>)
      moreover have "root_black (l, OnLeft m k w s r # c) = root_black (PdfNode m l k w s r, c)" by (simp add: root_black_def)
      ultimately show ?thesis using up 2 by auto
    next
      case 3
      have up: "\<forall>x \<in> set (entries l). fst x < item" using "2.prems"(1) 3 by (force simp: sorted_wrt_append)
      have r: "kids_ok r" using "2.prems"(2) by (cases r) auto
      have "before c' @ entries n @ after c' = before (OnRight m l k w s # c) @ entries r @ after (OnRight m l k w s # c)
        \<and> kids_ok n \<and> path_ok c' \<and> (n = NoNode \<longleftrightarrow> item \<notin> fst ` set (entries r))
        \<and> (n \<noteq> NoNode \<longrightarrow> (\<exists>m l w s r. n = PdfNode m l item w s r))
        \<and> (n \<noteq> NoNode \<longrightarrow> root_black (r, OnRight m l k w s # c) \<longrightarrow> root_black (n, c'))"
      proof (rule "2.IH"(2)[OF _ _ _ r])
        show "k \<noteq> item" "\<not> item < k" using 3 by auto
        then show "pdf_lookup item r (OnRight m l k w s # c) = (n, c')" using "2.prems"(4) by simp
      qed (use "2.prems" in \<open>simp_all add: sorted_wrt_append\<close>)
      moreover have "root_black (r, OnRight m l k w s # c) = root_black (PdfNode m l k w s r, c)" by (simp add: root_black_def)
      ultimately show ?thesis using up 3 by auto
    qed (use "2.prems" in auto)
  qed auto
  then show "before c' @ entries n @ after c' = before c @ entries t @ after c" "kids_ok n" "path_ok c'"
    "n = NoNode \<longleftrightarrow> item \<notin> fst ` set (entries t)"
    "n \<noteq> NoNode \<Longrightarrow> \<exists>m l w s r. n = PdfNode m l item w s r"
    "n \<noteq> NoNode \<Longrightarrow> root_black (t, c) \<Longrightarrow> root_black (n, c')" by blast+
qed

lemma rightmost_app: "rightmost t c = (fst (rightmost t []), snd (rightmost t []) @ c)"
proof (induction t arbitrary: c)
  case (PdfNode m l k w s r)
  show ?case
  proof (cases "r = NoNode")
    case False
    then show ?thesis using PdfNode.IH(2)[of "[OnRight m l k w s]"] PdfNode.IH(2)[of "OnRight m l k w s # c"] by simp
  qed simp
qed simp

lemma rightmost_ok:
  fixes t :: "('k, 'w::plus) pdf"
  assumes "t \<noteq> NoNode" "kids_ok t" "path_ok c"
  shows "\<exists>m l k w s c'. rightmost t c = (PdfNode m l k w s NoNode, c') \<and> sums_ok l \<and> path_ok c'
    \<and> before c' @ entries l @ [(k, w)] = before c @ entries t \<and> after c' = after c
    \<and> root_black (PdfNode m l k w s NoNode, c') = root_black (t, c)"
  using assms
proof (induction t arbitrary: c)
  case (PdfNode m l k w s r)
  show ?case
  proof (cases "r = NoNode")
    case False
    have "kids_ok r" "path_ok (OnRight m l k w s # c)" using PdfNode.prems by (cases r; simp)+
    moreover have "root_black (r, OnRight m l k w s # c) = root_black (PdfNode m l k w s r, c)"
      by (simp add: root_black_def)
    ultimately show ?thesis using PdfNode.IH(2)[OF False, of "OnRight m l k w s # c"] False by simp
  qed (use PdfNode.prems in auto)
qed simp

text \<open>The node that is unlinked has at most one child, which takes its place.\<close>

lemma unlink_victim_ok:
  fixes r :: "('k, 'w::plus) pdf"
  assumes "n = PdfNode m l k w s r" "kids_ok n" "path_ok c" "root_black (n, c)"
  obtains v c' where "unlink_victim n c = (v, c')" "v \<noteq> NoNode" "kids_ok v" "path_ok c'" "root_black (v, c')"
    "before c' @ entries (child True v) @ entries (child False v) @ after c' = before c @ entries l @ entries r @ after c"
    "child True v = NoNode \<or> child False v = NoNode"
proof (cases "l = NoNode")
  case True
  with assms that[of n c] show ?thesis by (simp add: unlink_victim_def)
next
  case False
  have kl: "kids_ok l" using assms(1,2) by (cases l) auto
  obtain m1 l1 k1 w1 s1 c1 where v: "rightmost l [] = (PdfNode m1 l1 k1 w1 s1 NoNode, c1)"
    "before c1 @ entries l1 @ [(k1, w1)] = entries l"
    using rightmost_ok[OF False kl, of "[]"] by auto
  let ?f = "OnLeft m k1 w1 s r"
  have "path_ok (?f # c)" using assms by simp
  from rightmost_ok[OF False kl this] rightmost_app[of l "?f # c"] v
  obtain c' where c': "rightmost l (?f # c) = (PdfNode m1 l1 k1 w1 s1 NoNode, c')" "sums_ok l1" "path_ok c'"
    "before c' @ entries l1 @ [(k1, w1)] = before (?f # c) @ entries l" "after c' = after (?f # c)"
    "root_black (PdfNode m1 l1 k1 w1 s1 NoNode, c') = root_black (l, ?f # c)" by auto
  have "before c' @ entries l1 = before c @ before c1 @ entries l1"
    using c'(4) v(2) by (metis append_assoc append_same_eq before.simps(2) frame_before.simps(1) append_Nil2)
  moreover have "root_black (PdfNode m1 l1 k1 w1 s1 NoNode, c')"
    using c'(6) assms(1,4) by (simp add: root_black_def split: if_splits)
  ultimately show ?thesis using that[of "PdfNode m1 l1 k1 w1 s1 NoNode" c'] assms(1) c' v
    by (simp add: unlink_victim_def)
qed


section \<open>The tree as a sorted table of weights\<close>

abbreviation sorted_keys :: "('k::linorder \<times> 'w) list \<Rightarrow> bool" where
  "sorted_keys \<equiv> sorted_wrt (\<lambda>x y. fst x < fst y)"

definition pdf_ok :: "('k::linorder, 'w::plus) pdf \<Rightarrow> bool" where
  "pdf_ok root \<longleftrightarrow> sums_ok root \<and> isBlack root \<and> sorted_keys (entries root)"

definition pdf_keys :: "('k, 'w) pdf \<Rightarrow> 'k set" where
  "pdf_keys root = fst ` set (entries root)"

lemma pdf_ok_parts:
  assumes "pdf_ok root"
  shows "sums_ok root" "kids_ok root" "root_black (root, [])" "sorted_keys (entries root)"
  using assms by (cases root; simp add: pdf_ok_def root_black_def)+

lemma pdf_insert_ok:
  assumes "pdf_ok root"
  shows "if item \<in> pdf_keys root then pdf_insert item weight root = Inl AssertionFailed
    else \<exists>root' l r. pdf_insert item weight root = Inr root' \<and> pdf_ok root' \<and> entries root = l @ r
      \<and> entries root' = l @ (item, weight) # r"
proof (cases "item \<in> pdf_keys root")
  case False
  with pdf_insert_loop_ok[of root "[]" item weight] pdf_ok_parts[OF assms] obtain root' l r where
    r: "pdf_insert item weight root = Inr root'" "entries root = l @ r" "entries root' = l @ (item, weight) # r"
      "\<forall>x \<in> set l. fst x < item" "\<forall>x \<in> set r. item < fst x" "sums_ok root'" "isBlack root'"
    by (auto simp: pdf_insert_def pdf_keys_def)
  then have "pdf_ok root'" using pdf_ok_parts(4)[OF assms] by (auto simp: pdf_ok_def sorted_wrt_append)
  with False r show ?thesis by auto
qed (use pdf_insert_loop_ok[of root "[]" item weight] pdf_ok_parts[OF assms] in \<open>simp add: pdf_insert_def pdf_keys_def\<close>)

lemma pdf_remove_ok:
  assumes "pdf_ok root"
  shows "if item \<in> pdf_keys root
    then \<exists>root' l w r. pdf_remove item root = Inr root' \<and> pdf_ok root' \<and> entries root = l @ (item, w) # r
      \<and> entries root' = l @ r
    else pdf_remove item root = Inl AssertionFailed"
proof -
  obtain n c where n: "pdf_lookup item root [] = (n, c)" by fastforce
  note look = pdf_lookup_ok[OF pdf_ok_parts(4,2)[OF assms] _ n, simplified]
  show ?thesis
  proof (cases "item \<in> pdf_keys root")
    case True
    then have "n \<noteq> NoNode" using look(4) by (simp add: pdf_keys_def)
    with look(5) obtain m l w s r where nn: "n = PdfNode m l item w s r" by blast
    obtain v c' where v: "unlink_victim n c = (v, c')" "v \<noteq> NoNode" "kids_ok v" "path_ok c'" "root_black (v, c')"
      "before c' @ entries (child True v) @ entries (child False v) @ after c' = before c @ entries l @ entries r @ after c"
      "child True v = NoNode \<or> child False v = NoNode"
      using unlink_victim_ok[OF nn look(2,3)] look(6) pdf_ok_parts(3)[OF assms] \<open>n \<noteq> NoNode\<close> by blast
    define d where "d = (if child True v \<noteq> NoNode then child True v else child False v)"
    have d: "entries (child True v) @ entries (child False v) = entries d" "sums_ok d"
      using v(3,7) by (auto simp: d_def kids_ok_def)
    have "\<exists>root'. unlink (v, c') = Inr root' \<and> sums_ok root' \<and> isBlack root' \<and> entries root' = before c' @ entries d @ after c'"
    proof (cases "d \<noteq> NoNode \<and> isBlack v")
      case True
      obtain d' c'' where len: "pdf_lengthen (d, c') = Inr (d', c'')" "same_around c' c''"
        "d' = d \<or> d' = with_mark False d" "c' = [] \<longrightarrow> isBlack d'"
        using pdf_lengthen_ok[of d c'] True by blast
      have "root_black (d', c'')" using len v(5) by (auto simp: same_around_def root_black_def split: if_splits)
      with True len v(1,4) d(2) show ?thesis
        using propogate_parent_ok[of d' c''] by (auto simp: unlink_def d_def same_around_def map_res_def)
    next
      case False
      have "root_black (d, c')" using v(5) False by (cases "c' = []") (auto simp: root_black_def)
      with False v(4) d(2) show ?thesis
        using propogate_parent_ok[of d c'] by (auto simp: unlink_def d_def Let_def)
    qed
    moreover have "before c' @ entries d @ after c' = (before c @ entries l) @ entries r @ after c"
      using v(6) by (simp flip: d(1))
    moreover have e: "entries root = (before c @ entries l) @ (item, w) # entries r @ after c" using look(1) nn by simp
    ultimately obtain root' where "unlink (v, c') = Inr root'" "sums_ok root'" "isBlack root'"
      "entries root' = (before c @ entries l) @ entries r @ after c" by auto
    moreover have "pdf_remove item root = unlink (v, c')" using n nn v(1) by (simp add: pdf_remove_def)
    moreover have "sorted_keys ((before c @ entries l) @ entries r @ after c)"
      using pdf_ok_parts(4)[OF assms] unfolding e by (auto simp: sorted_wrt_append)
    ultimately have "pdf_remove item root = Inr root' \<and> pdf_ok root' \<and> entries root = (before c @ entries l) @ (item, w) # entries r @ after c
        \<and> entries root' = (before c @ entries l) @ entries r @ after c"
      using e by (simp add: pdf_ok_def)
    then show ?thesis using True by (metis (no_types))
  qed (use look n in \<open>simp add: pdf_remove_def pdf_keys_def\<close>)
qed

lemma pdf_update_ok:
  assumes "pdf_ok root"
  shows "if item \<in> pdf_keys root
    then \<exists>root' l w r. pdf_update item weight root = Inr root' \<and> pdf_ok root' \<and> entries root = l @ (item, w) # r
      \<and> entries root' = l @ (item, weight) # r
    else pdf_update item weight root = Inl AssertionFailed"
proof -
  obtain n c where n: "pdf_lookup item root [] = (n, c)" by fastforce
  note look = pdf_lookup_ok[OF pdf_ok_parts(4,2)[OF assms] _ n, simplified]
  show ?thesis
  proof (cases "item \<in> pdf_keys root")
    case True
    then have "n \<noteq> NoNode" using look(4) by (simp add: pdf_keys_def)
    with look(5) obtain m l w s r where nn: "n = PdfNode m l item w s r" by blast
    let ?n = "PdfNode m l item weight s r"
    have "kids_ok ?n" "root_black (?n, c)" "pdf_update item weight root = Inr (propogateSumsUp (?n, c))"
      using look(2,6) nn pdf_ok_parts(3)[OF assms] n by (auto simp: root_black_def pdf_update_def)
    moreover have e: "entries root = (before c @ entries l) @ (item, w) # entries r @ after c"
      and e': "entries (propogateSumsUp (?n, c)) = (before c @ entries l) @ (item, weight) # entries r @ after c"
      using look(1) nn by simp_all
    moreover have "sorted_keys ((before c @ entries l) @ (item, weight) # entries r @ after c)"
      using pdf_ok_parts(4)[OF assms] unfolding e by (auto simp: sorted_wrt_append)
    ultimately have "pdf_update item weight root = Inr (propogateSumsUp (?n, c))
        \<and> pdf_ok (propogateSumsUp (?n, c)) \<and> entries root = (before c @ entries l) @ (item, w) # entries r @ after c
        \<and> entries (propogateSumsUp (?n, c)) = (before c @ entries l) @ (item, weight) # entries r @ after c"
      using propogateSumsUp_sums[OF _ look(3), of ?n] by (simp add: pdf_ok_def)
    then show ?thesis using True by (metis (no_types))
  qed (use look n in \<open>simp add: pdf_update_def pdf_keys_def\<close>)
qed


text \<open>
  The table that the tree holds: its operations are those of a map. \<open>pdf_map\<close> is what
  \<open>getWeight\<close> reads and \<open>inTree\<close> asks for.
\<close>

definition pdf_map :: "('k, 'w) pdf \<Rightarrow> 'k \<Rightarrow> 'w option" where
  "pdf_map root = map_of (entries root)"

lemma dom_pdf_map: "dom (pdf_map root) = pdf_keys root"
  by (simp add: pdf_map_def pdf_keys_def dom_map_of_conv_image_fst)

lemma map_of_middle:
  assumes "sorted_keys (l @ (k, w) # r)"
  shows "map_of (l @ (k, w) # r) = (map_of (l @ r))(k \<mapsto> w)" "map_of (l @ r) k = None"
proof -
  have "k \<notin> fst ` set (l @ r)" using assms by (auto simp: sorted_wrt_append)
  then show "map_of (l @ r) k = None" by (metis map_of_eq_None_iff)
  have "k \<notin> fst ` set l" using assms by (auto simp: sorted_wrt_append)
  then show "map_of (l @ (k, w) # r) = (map_of (l @ r))(k \<mapsto> w)"
    by (simp add: map_add_upd_left dom_map_of_conv_image_fst)
qed

lemma pdf_insert_map:
  assumes "pdf_ok root" "pdf_insert item weight root = Inr root'"
  shows "pdf_ok root'" "pdf_map root item = None" "pdf_map root' = (pdf_map root)(item \<mapsto> weight)"
  using pdf_insert_ok[OF assms(1), of item weight] assms(2)
    map_of_middle[of _ item weight] by (auto simp: pdf_map_def pdf_ok_def split: if_splits)

lemma pdf_remove_map:
  assumes "pdf_ok root" "pdf_remove item root = Inr root'"
  shows "pdf_ok root'" "pdf_map root item \<noteq> None" "pdf_map root' = (pdf_map root)(item := None)"
proof -
  obtain l w r where r: "pdf_ok root'" "entries root = l @ (item, w) # r" "entries root' = l @ r"
    using pdf_remove_ok[OF assms(1), of item] assms(2) by (auto split: if_splits)
  have "sorted_keys (l @ (item, w) # r)" using pdf_ok_parts(4)[OF assms(1)] r(2) by simp
  from map_of_middle[OF this] r show "pdf_ok root'" "pdf_map root item \<noteq> None" "pdf_map root' = (pdf_map root)(item := None)"
    by (auto simp: pdf_map_def fun_eq_iff)
qed

lemma pdf_update_map:
  assumes "pdf_ok root" "pdf_update item weight root = Inr root'"
  shows "pdf_ok root'" "pdf_map root item \<noteq> None" "pdf_map root' = (pdf_map root)(item \<mapsto> weight)"
proof -
  obtain l w r where r: "pdf_ok root'" "entries root = l @ (item, w) # r" "entries root' = l @ (item, weight) # r"
    using pdf_update_ok[OF assms(1), of item weight] assms(2) by (auto split: if_splits)
  have "sorted_keys (l @ (item, w) # r)" "sorted_keys (l @ (item, weight) # r)"
    using pdf_ok_parts(4)[OF assms(1)] pdf_ok_parts(4)[OF r(1)] r(2,3) by simp_all
  from map_of_middle[OF this(1)] map_of_middle[OF this(2)] r
  show "pdf_ok root'" "pdf_map root item \<noteq> None" "pdf_map root' = (pdf_map root)(item \<mapsto> weight)"
    by (auto simp: pdf_map_def fun_eq_iff)
qed

lemma pdf_lookup_map:
  assumes "pdf_ok root"
  shows "inTree item root \<longleftrightarrow> item \<in> pdf_keys root"
    "pdf_getWeight item root = of_option AssertionFailed (pdf_map root item)"
proof -
  obtain n c where n: "pdf_lookup item root [] = (n, c)" by fastforce
  note look = pdf_lookup_ok[OF pdf_ok_parts(4,2)[OF assms] _ n, simplified]
  show "inTree item root \<longleftrightarrow> item \<in> pdf_keys root" using look(4) n by (simp add: inTree_def pdf_keys_def)
  show "pdf_getWeight item root = of_option AssertionFailed (pdf_map root item)"
  proof (cases n)
    case NoNode
    then have "pdf_map root item = None" using look(4) by (metis pdf_map_def map_of_eq_None_iff)
    with NoNode n show ?thesis by (simp add: pdf_getWeight_def)
  next
    case (PdfNode m l k w s r)
    with look(5) have k: "k = item" by blast
    have e: "entries root = (before c @ entries l) @ (item, w) # entries r @ after c" using look(1) PdfNode k by simp
    with pdf_ok_parts(4)[OF assms] have "pdf_map root item = Some w"
      using map_of_middle(1)[of "before c @ entries l" item w "entries r @ after c"] by (simp add: pdf_map_def)
    with PdfNode n show ?thesis by (simp add: pdf_getWeight_def)
  qed
qed

text \<open>An operation that returns, with a proper tree that holds the given table.\<close>

definition yields_table :: "('k::linorder, 'w::plus) pdf result \<Rightarrow> ('k \<Rightarrow> 'w option) \<Rightarrow> bool" where
  "yields_table r M \<longleftrightarrow> (\<exists>root'. r = Inr root' \<and> pdf_ok root' \<and> pdf_map root' = M)"

lemma pdf_insert_table:
  assumes "pdf_ok root"
  shows "item \<notin> dom (pdf_map root) \<Longrightarrow> yields_table (pdf_insert item w root) ((pdf_map root)(item \<mapsto> w))"
    "item \<in> dom (pdf_map root) \<Longrightarrow> pdf_insert item w root = Inl AssertionFailed"
proof -
  note ok = pdf_insert_ok[OF assms, of item w, folded dom_pdf_map]
  show "item \<in> dom (pdf_map root) \<Longrightarrow> pdf_insert item w root = Inl AssertionFailed" using ok by simp
  assume "item \<notin> dom (pdf_map root)"
  with ok obtain root' where r: "pdf_insert item w root = Inr root'" by (auto simp del: domIff)
  from pdf_insert_map[OF assms r] r show "yields_table (pdf_insert item w root) ((pdf_map root)(item \<mapsto> w))" by (simp add: yields_table_def)
qed

lemma pdf_remove_table:
  assumes "pdf_ok root"
  shows "item \<in> dom (pdf_map root) \<Longrightarrow> yields_table (pdf_remove item root) ((pdf_map root)(item := None))"
    "item \<notin> dom (pdf_map root) \<Longrightarrow> pdf_remove item root = Inl AssertionFailed"
proof -
  note ok = pdf_remove_ok[OF assms, of item, folded dom_pdf_map]
  show "item \<notin> dom (pdf_map root) \<Longrightarrow> pdf_remove item root = Inl AssertionFailed" using ok by simp
  assume "item \<in> dom (pdf_map root)"
  with ok obtain root' where r: "pdf_remove item root = Inr root'" by (auto simp del: domIff)
  from pdf_remove_map[OF assms r] r show "yields_table (pdf_remove item root) ((pdf_map root)(item := None))" by (simp add: yields_table_def)
qed

lemma pdf_update_table:
  assumes "pdf_ok root"
  shows "item \<in> dom (pdf_map root) \<Longrightarrow> yields_table (pdf_update item w root) ((pdf_map root)(item \<mapsto> w))"
    "item \<notin> dom (pdf_map root) \<Longrightarrow> pdf_update item w root = Inl AssertionFailed"
proof -
  note ok = pdf_update_ok[OF assms, of item w, folded dom_pdf_map]
  show "item \<notin> dom (pdf_map root) \<Longrightarrow> pdf_update item w root = Inl AssertionFailed" using ok by simp
  assume "item \<in> dom (pdf_map root)"
  with ok obtain root' where r: "pdf_update item w root = Inr root'" by (auto simp del: domIff)
  from pdf_update_map[OF assms r] r show "yields_table (pdf_update item w root) ((pdf_map root)(item \<mapsto> w))" by (simp add: yields_table_def)
qed

lemma pdf_ok_NoNode [simp]: "pdf_ok NoNode" "pdf_map NoNode = Map.empty"
  by (simp_all add: pdf_ok_def pdf_map_def)

section \<open>Choosing\<close>

text \<open>Whatever the weights and their arithmetic are, \<open>choose\<close> returns something that is stored.\<close>

lemma choose_from_stored: "t \<noteq> NoNode \<Longrightarrow> \<exists>k \<in> pdf_keys t. choose_from v t = Inr k"
proof (induction t arbitrary: v)
  case (PdfNode m l k w s r)
  have keys: "pdf_keys (PdfNode m l k w s r) = pdf_keys l \<union> {k} \<union> pdf_keys r" by (auto simp: pdf_keys_def)
  consider "choose_from v (PdfNode m l k w s r) = Inr k"
    | "choose_from v (PdfNode m l k w s r) = choose_from v l" "l \<noteq> NoNode"
    | u where "choose_from v (PdfNode m l k w s r) = choose_from u r" "r \<noteq> NoNode"
  proof -
    have "choose_from v (PdfNode m l k w s r) = Inr k \<or> (choose_from v (PdfNode m l k w s r) = choose_from v l \<and> l \<noteq> NoNode)
        \<or> (\<exists>u. choose_from v (PdfNode m l k w s r) = choose_from u r \<and> r \<noteq> NoNode)"
      unfolding choose_from.simps(2)[of v m l k w s r] Let_def
      by (auto simp del: choose_from.simps split: pdf.split)
    then show ?thesis using that by blast
  qed
  then show ?case
  proof cases
    case 2
    with PdfNode.IH(1)[of v] keys show ?thesis by auto
  next
    case (3 u)
    with PdfNode.IH(2)[of u] keys show ?thesis by auto
  qed (simp add: keys)
qed simp

lemma pdf_choose_stored:
  assumes "0 \<le> p" "\<not> 1 \<le> p" "\<not> p < 0" "root \<noteq> NoNode"
  shows "\<exists>k \<in> pdf_keys root. pdf_choose p root = Inr k"
  using choose_from_stored[OF assms(4)] assms by (cases root) (auto simp: pdf_choose_def)

definition total :: "('k \<times> 'w::comm_monoid_add) list \<Rightarrow> 'w" where
  "total es = sum_list (map snd es)"

lemma total_simps [simp]: "total [] = 0" "total ((k, w) # es) = w + total es" "total (es @ es') = total es + total es'"
  by (simp_all add: total_def)

lemma add_sum_total: "sums_ok t \<Longrightarrow> add_sum (a :: 'w::comm_monoid_add) t = a + total (entries t)"
  by (induction t arbitrary: a) (simp_all add: ac_simps)

lemma choose_from_exact:
  fixes v :: "'w::linordered_idom"
  assumes "t \<noteq> NoNode" "sums_ok t" "0 \<le> v" "v < total (entries t)"
  shows "\<exists>l k w r. choose_from v t = Inr k \<and> entries t = l @ (k, w) # r \<and> total l \<le> v \<and> v < total l + w"
  using assms
proof (induction v t rule: choose_from.induct)
  case (2 v m l k w s r)
  have sl: "case l of NoNode \<Rightarrow> entries l = [] | PdfNode _ _ _ _ sl _ \<Rightarrow> sl = total (entries l)"
    using "2.prems"(2) by (cases l) (auto simp: add_sum_total ac_simps)
  consider "v < total (entries l)" | "total (entries l) \<le> v" "v - total (entries l) < w"
    | "total (entries l) \<le> v" "w \<le> v - total (entries l)" by fastforce
  then show ?case
  proof cases
    case 1
    with "2.prems" sl have l: "l \<noteq> NoNode" by auto
    obtain l1 k1 w1 r1 where "choose_from v l = Inr k1" "entries l = l1 @ (k1, w1) # r1" "total l1 \<le> v" "v < total l1 + w1"
      using "2.IH"(1)[OF refl refl] 1 l sl "2.prems" by (cases l) auto
    then show ?thesis
      using 1 l sl by (intro exI[of _ l1] exI[of _ k1] exI[of _ w1] exI[of _ "r1 @ (k, w) # entries r"]) (cases l; auto)
  next
    case 2
    then show ?thesis
      using sl by (intro exI[of _ "entries l"] exI[of _ k] exI[of _ w] exI[of _ "entries r"]) (cases l; auto simp: algebra_simps)
  next
    case 3
    let ?v = "v - total (entries l) - w"
    have r: "r \<noteq> NoNode" using 3 "2.prems"(4) by (auto simp: algebra_simps)
    have go: "choose_from v (PdfNode m l k w s r) = choose_from ?v r" using 3 sl r by (cases l) auto
    have "0 \<le> ?v" "?v < total (entries r)" using 3 "2.prems"(4) by (simp_all add: algebra_simps)
    then obtain l1 k1 w1 r1 where "choose_from ?v r = Inr k1" "entries r = l1 @ (k1, w1) # r1" "total l1 \<le> ?v" "?v < total l1 + w1"
      using "2.IH"(2)[OF refl refl, simplified] 3 r sl "2.prems" by (cases l) auto
    then show ?thesis unfolding go
      by (intro exI[of _ "entries l @ (k, w) # l1"] exI[of _ k1] exI[of _ w1] exI[of _ r1]) (auto simp: algebra_simps)
  qed
qed simp

lemma pdf_choose_exact:
  fixes p :: "'w::linordered_idom"
  assumes "pdf_ok root" "0 \<le> p" "p < 1" "0 < total (entries root)"
  shows "\<exists>l k w r. pdf_choose p root = Inr k \<and> entries root = l @ (k, w) # r
    \<and> total l \<le> p * total (entries root) \<and> p * total (entries root) < total l + w"
proof -
  have ne: "root \<noteq> NoNode" using assms(4) by auto
  then obtain m l k w s r where root: "root = PdfNode m l k w s r" by (cases root) auto
  have s: "s = total (entries root)"
    using pdf_ok_parts(1)[OF assms(1)] by (simp add: root add_sum_total add.left_commute)
  have "0 \<le> p * total (entries root)" "p * total (entries root) < total (entries root)" using assms(2-4) by simp_all
  note exact = choose_from_exact[OF ne pdf_ok_parts(1)[OF assms(1)] this]
  have "pdf_choose p root = choose_from (p * total (entries root)) root"
    using assms(2,3) s by (simp add: pdf_choose_def root mult.commute del: choose_from.simps entries.simps)
  with exact show ?thesis by simp
qed


section \<open>The shape after a removal\<close>

text \<open>
  The numbers of black nodes above the empty slots of a tree, which are all the same in a red-black
  tree. \<open>remove\<close> rebalances only where the unlinked node leaves a child behind; unlinking a
  black leaf leaves the side it was on too short.
\<close>

fun black_depths :: "('k, 'w) pdf \<Rightarrow> nat list" where
  "black_depths NoNode = [0]"
| "black_depths (PdfNode m l k w s r) = map (\<lambda>d. if m then d else Suc d) (black_depths l @ black_depths r)"

lemma remove_unbalances:
  "\<exists>t t'. bind_res (pdf_insert 1 1 NoNode) (\<lambda>t. bind_res (pdf_insert 2 1 t) (\<lambda>t.
      bind_res (pdf_insert 3 1 t) (pdf_insert (4 :: nat) (1 :: nat)))) = Inr t
    \<and> set (black_depths t) = {2} \<and> pdf_remove 1 t = Inr t' \<and> set (black_depths t') = {1, 2}"
proof -
  let ?t = "PdfNode False (PdfNode False NoNode 1 1 1 NoNode) (2 :: nat) (1 :: nat) 4
      (PdfNode False NoNode 3 1 2 (PdfNode True NoNode 4 1 1 NoNode))"
  let ?t' = "PdfNode False NoNode 2 1 3 (PdfNode False NoNode 3 1 2 (PdfNode True NoNode 4 1 1 NoNode))"
  have "bind_res (pdf_insert 1 1 NoNode) (\<lambda>t. bind_res (pdf_insert 2 1 t) (\<lambda>t.
      bind_res (pdf_insert 3 1 t) (pdf_insert 4 1))) = Inr ?t" by code_simp
  moreover have "set (black_depths ?t) = {2}" "pdf_remove 1 ?t = Inr ?t'" "set (black_depths ?t') = {1, 2}"
    by code_simp+
  ultimately show ?thesis by blast
qed

end
