(* ===== verification/WeightedSearcher.thy ===== *)
theory WeightedSearcher
  imports DiscretePDF WrapSearcher "HOL-Library.Word"
begin

text \<open>
  \<open>WeightedRandomSearcher\<close> of \<open>klee/lib/Core/Searcher.cpp\<close>, the non-uniform random search
  that is the default when states are merged: every state has a weight in a \<open>DiscretePDF\<close>, and the
  next state is drawn from it. What \<open>getWeight\<close> reads of a state and of the statistics is the
  record \<open>metrics\<close>; \<open>computeMinDistToUncovered\<close> and the statistics themselves are
  outside of the model. Weights are taken from an ordered field, where the code has \<open>double\<close>.
\<close>

section \<open>Weights\<close>

datatype weight_type = Depth | RP | InstCount | CPInstCount | QueryCost | MinDistToUncovered | CoveringNew

record 'w metrics =
  state_depth :: nat
  pc_instructions :: nat
  path_instructions :: nat
  query_seconds :: 'w
  minDistToUncovered :: nat
  since_covnew :: "32 word"

text \<open>\<open>invCovNew\<close> casts a 32-bit unsigned counter to \<open>int\<close>.\<close>

definition inv_covnew :: "'w metrics \<Rightarrow> 'w::linordered_field" where
  "inv_covnew es =
     (if since_covnew es = 0 then 0
      else 1 / of_int (max 1 (sint (since_covnew es) - 1000)))"

definition inv_md2u :: "'w metrics \<Rightarrow> 'w::linordered_field" where
  "inv_md2u es = 1 / of_nat (if minDistToUncovered es = 0 then 10000 else minDistToUncovered es)"

fun getWeight :: "weight_type \<Rightarrow> 'w metrics \<Rightarrow> 'w::linordered_field" where
  "getWeight Depth es = of_nat (state_depth es)"
| "getWeight RP es = (1 / 2) ^ state_depth es"
| "getWeight InstCount es = (1 / of_nat (max 1 (pc_instructions es))) * (1 / of_nat (max 1 (pc_instructions es)))"
| "getWeight CPInstCount es = 1 / of_nat (max 1 (path_instructions es))"
| "getWeight QueryCost es = (if query_seconds es < 1 / 10 then 1 else 1 / query_seconds es)"
| "getWeight CoveringNew es = inv_covnew es * inv_covnew es + inv_md2u es * inv_md2u es"
| "getWeight MinDistToUncovered es = inv_md2u es * inv_md2u es"

lemma getWeight_pos: "t \<noteq> Depth \<Longrightarrow> 0 < getWeight t es"
proof (induction t es rule: getWeight.induct)
  case (6 es)
  have "0 < inv_md2u es * inv_md2u es" by (simp add: inv_md2u_def)
  then show ?case by (simp add: add_nonneg_pos)
qed (auto simp: inv_md2u_def not_less intro: less_le_trans[of 0 "1 / 10"])

section \<open>The searcher\<close>

record 'w weighted =
  w_states :: "(nat, 'w) pdf"
  w_type :: weight_type
  updateWeights :: bool

definition new_WeightedRandomSearcher :: "weight_type \<Rightarrow> 'w weighted" where
  "new_WeightedRandomSearcher t =
     \<lparr>w_states = NoNode, w_type = t,
      updateWeights = (case t of Depth \<Rightarrow> False | RP \<Rightarrow> False | _ \<Rightarrow> True)\<rparr>"

definition getDoubleL :: "('r \<Rightarrow> 32 word \<times> 'r) \<Rightarrow> 'r \<Rightarrow> 'w::linordered_field \<times> 'r" where
  "getDoubleL getInt32 r = (case getInt32 r of (n, r') \<Rightarrow> (of_nat (unat n) * (1 / 4294967296), r'))"

definition weighted_select :: "('r \<Rightarrow> 32 word \<times> 'r) \<Rightarrow> 'w::linordered_field weighted \<Rightarrow> 'r
    \<Rightarrow> (nat \<times> 'w weighted \<times> 'r) result" where
  "weighted_select getInt32 m r =
     (case getDoubleL getInt32 r of (p, r') \<Rightarrow> map_res (\<lambda>es. (es, m, r')) (pdf_choose p (w_states m)))"

fun insert_all :: "(nat \<Rightarrow> 'w) \<Rightarrow> nat list \<Rightarrow> (nat, 'w::linordered_field) pdf \<Rightarrow> (nat, 'w) pdf result" where
  "insert_all weight [] states = Inr states"
| "insert_all weight (es # added) states = bind_res (pdf_insert es (weight es) states) (insert_all weight added)"

fun remove_all :: "nat list \<Rightarrow> (nat, 'w::linordered_field) pdf \<Rightarrow> (nat, 'w) pdf result" where
  "remove_all [] states = Inr states"
| "remove_all (es # removed) states = bind_res (pdf_remove es states) (remove_all removed)"

definition weighted_update :: "(nat \<Rightarrow> 'w::linordered_field metrics) \<Rightarrow> nat option \<Rightarrow> nat list \<Rightarrow> nat list
    \<Rightarrow> 'w weighted \<Rightarrow> 'w weighted result" where
  "weighted_update metrics current added removed m =
     (let weight = (\<lambda>es. getWeight (w_type m) (metrics es)) in
      bind_res (case current of
          Some c \<Rightarrow> if updateWeights m \<and> c \<notin> set removed then pdf_update c (weight c) (w_states m)
                    else Inr (w_states m)
        | None \<Rightarrow> Inr (w_states m)) (\<lambda>states.
      bind_res (insert_all weight added states) (\<lambda>states.
      map_res (\<lambda>states. m\<lparr>w_states := states\<rparr>) (remove_all removed states))))"

definition weighted_empty :: "'w weighted \<Rightarrow> bool" where
  "weighted_empty m = pdf_empty (w_states m)"

definition weighted_content :: "'w weighted \<Rightarrow> nat multiset" where
  "weighted_content m = mset (map fst (entries (w_states m)))"

definition weighted_ok :: "'w::linordered_field weighted \<Rightarrow> bool" where
  "weighted_ok m \<longleftrightarrow> pdf_ok (w_states m)"

abbreviation pdf_bag :: "('k, 'w) pdf \<Rightarrow> 'k multiset" where
  "pdf_bag t \<equiv> mset (map fst (entries t))"

lemma pdf_bag_set: "set_mset (pdf_bag t) = pdf_keys t"
  by (simp add: pdf_keys_def)

lemma sorted_keys_distinct: "sorted_keys es \<Longrightarrow> distinct (map fst es)"
  by (induction es) auto

lemma insert_all_ok:
  assumes "pdf_ok t" "distinct added" "set added \<inter> pdf_keys t = {}"
  shows "\<exists>t'. insert_all weight added t = Inr t' \<and> pdf_ok t' \<and> pdf_bag t' = pdf_bag t + mset added"
  using assms
proof (induction added arbitrary: t)
  case (Cons es added)
  have "es \<notin> pdf_keys t" using Cons.prems(3) by simp
  then obtain t1 l r where t1: "pdf_insert es (weight es) t = Inr t1" "pdf_ok t1" "entries t = l @ r"
    "entries t1 = l @ (es, weight es) # r"
    using pdf_insert_ok[OF Cons.prems(1), of es "weight es"] by auto
  then have b: "pdf_bag t1 = add_mset es (pdf_bag t)" by simp
  then have "set added \<inter> pdf_keys t1 = {}"
    using Cons.prems(2,3) by (auto simp flip: pdf_bag_set)
  with Cons.IH[OF t1(2)] Cons.prems(2) t1(1) b show ?case by auto
qed simp

lemma remove_all_ok:
  assumes "pdf_ok t" "mset removed \<subseteq># pdf_bag t"
  shows "\<exists>t'. remove_all removed t = Inr t' \<and> pdf_ok t' \<and> pdf_bag t' = pdf_bag t - mset removed"
  using assms
proof (induction removed arbitrary: t)
  case (Cons es removed)
  have "es \<in># pdf_bag t" using Cons.prems(2) by (meson mset_subset_eqD set_mset_mset list.set_intros(1) in_multiset_in_set)
  then have "es \<in> pdf_keys t" by (simp only: pdf_bag_set)
  then obtain t1 l w r where t1: "pdf_remove es t = Inr t1" "pdf_ok t1" "entries t = l @ (es, w) # r" "entries t1 = l @ r"
    using pdf_remove_ok[OF Cons.prems(1), of es] by auto
  then have b: "pdf_bag t = add_mset es (pdf_bag t1)" by simp
  with Cons.prems(2) have "mset removed \<subseteq># pdf_bag t1" by simp
  with Cons.IH[OF t1(2)] t1(1) b show ?case by auto
qed simp

lemma pdf_update_bag:
  assumes "pdf_ok t" "es \<in> pdf_keys t"
  shows "\<exists>t'. pdf_update es w t = Inr t' \<and> pdf_ok t' \<and> pdf_bag t' = pdf_bag t"
  using pdf_update_ok[OF assms(1), of es w] assms(2) by auto

lemma getDoubleL_range:
  assumes "getDoubleL getInt32 r = (p :: 'w::linordered_field, r')"
  shows "0 \<le> p" "p < 1"
proof -
  define n where "n = fst (getInt32 r)"
  have n: "p = of_nat (unat n) * (1 / 4294967296)"
    using assms by (simp add: getDoubleL_def n_def split: prod.splits)
  have "unat n < 4294967296" using unsigned_less[of n, where 'a = nat] by simp
  then have "(of_nat (unat n) :: 'w) < of_nat 4294967296" by (simp only: of_nat_less_iff)
  moreover have "0 \<le> (of_nat (unat n) :: 'w)" by (rule of_nat_0_le_iff)
  ultimately show "0 \<le> p" "p < 1" by (simp_all add: n)
qed

interpretation weighted: bag_searcher "weighted_select getInt32" "weighted_update metrics" weighted_empty
  weighted_content weighted_ok
  for getInt32 :: "'r \<Rightarrow> 32 word \<times> 'r" and metrics :: "nat \<Rightarrow> 'w::linordered_field metrics"
proof unfold_locales
  fix m :: "'w weighted"
  show "weighted_empty m \<longleftrightarrow> weighted_content m = {#}"
    by (cases "w_states m") (simp_all add: weighted_empty_def weighted_content_def pdf_empty_def)
next
  fix m :: "'w weighted" and r :: 'r
  assume ok: "weighted_ok m" and ne: "weighted_content m \<noteq> {#}"
  obtain p r' where d: "getDoubleL getInt32 r = (p :: 'w, r')" by fastforce
  have "w_states m \<noteq> NoNode" using ne by (auto simp: weighted_content_def)
  with getDoubleL_range[OF d] obtain es where "es \<in> pdf_keys (w_states m)" "pdf_choose p (w_states m) = Inr es"
    using pdf_choose_stored[of p "w_states m"] by fastforce
  with ok d show "\<exists>es m' r'. weighted_select getInt32 m r = Inr (es, m', r') \<and> es \<in># weighted_content m
      \<and> weighted_content m' = weighted_content m \<and> weighted_ok m'"
    by (simp add: weighted_select_def weighted_content_def map_res_def pdf_keys_def)
next
  fix m :: "'w weighted" and current and removed added :: "nat list"
  assume ok: "weighted_ok m" and c: "\<And>c. current = Some c \<Longrightarrow> c \<in># weighted_content m"
    and r: "mset removed \<subseteq># weighted_content m + mset added"
    and a: "distinct added" "set added \<inter> set_mset (weighted_content m) = {}"
  let ?w = "\<lambda>es. getWeight (w_type m) (metrics es)"
  let ?up = "case current of
          Some c \<Rightarrow> if updateWeights m \<and> c \<notin> set removed then pdf_update c (?w c) (w_states m)
                    else Inr (w_states m)
        | None \<Rightarrow> Inr (w_states m)"
  have t: "pdf_ok (w_states m)" using ok by (simp add: weighted_ok_def)
  have "c \<in> pdf_keys (w_states m)" if "current = Some c" for c
    using c[OF that] by (simp only: weighted_content_def pdf_bag_set)
  then have "\<exists>t1. ?up = Inr t1 \<and> pdf_ok t1 \<and> pdf_bag t1 = pdf_bag (w_states m)"
    using t pdf_update_bag[OF t] by (cases current) auto
  then obtain t1 where t1: "?up = Inr t1" "pdf_ok t1" "pdf_bag t1 = pdf_bag (w_states m)" by blast
  have "set added \<inter> pdf_keys t1 = {}"
    using a(2) t1(3) by (simp add: weighted_content_def flip: pdf_bag_set)
  from insert_all_ok[OF t1(2) a(1) this, of ?w] obtain t2 where t2: "insert_all ?w added t1 = Inr t2" "pdf_ok t2"
    "pdf_bag t2 = pdf_bag t1 + mset added" by blast
  have "mset removed \<subseteq># pdf_bag t2" using r t1(3) t2(3) by (simp add: weighted_content_def)
  from remove_all_ok[OF t2(2) this] obtain t3 where t3: "remove_all removed t2 = Inr t3" "pdf_ok t3"
    "pdf_bag t3 = pdf_bag t2 - mset removed" by blast
  have "weighted_update metrics current added removed m = Inr (m\<lparr>w_states := t3\<rparr>)"
    unfolding weighted_update_def Let_def t1(1) by (simp add: t2(1) t3(1) map_res_def)
  with t1(3) t2(3) t3(2,3)
  show "\<exists>m'. weighted_update metrics current added removed m = Inr m'
      \<and> weighted_content m' = weighted_content m + mset added - mset removed \<and> weighted_ok m'"
    by (auto simp: weighted_content_def weighted_ok_def)
qed

text \<open>Over it, the merging searcher; this is the search that runs by default when states are merged.\<close>

interpretation weighted_merging: searcher "merging_select (weighted_select getInt32) weighted_empty"
  "merging_update (weighted_update metrics)" "\<lambda>m. weighted_empty (mg_base m)" "\<lambda>m. weighted_content (mg_base m)"
  "merging_content weighted_content" "merging_ok weighted_content weighted_ok"
  for getInt32 :: "'r \<Rightarrow> 32 word \<times> 'r" and metrics :: "nat \<Rightarrow> 'w::linordered_field metrics"
  by (rule weighted.merging_searcher)

section \<open>The chance of a state\<close>

text \<open>
  The weight of the states below a given address, in the order of the tree. The random number picks
  a point of the whole weight, and the state is the one on whose part the point falls.
\<close>

definition weight_below :: "('k::linorder, 'w::comm_monoid_add) pdf \<Rightarrow> 'k \<Rightarrow> 'w" where
  "weight_below t es = total (filter (\<lambda>x. fst x < es) (entries t))"

definition total_weight :: "('k, 'w::comm_monoid_add) pdf \<Rightarrow> 'w" where
  "total_weight t = total (entries t)"

lemma weight_below_middle:
  assumes "sorted_keys (l @ (k, w) # r)" "entries t = l @ (k, w) # r"
  shows "weight_below t k = total l" "pdf_map t k = Some w"
proof -
  have "filter (\<lambda>x. fst x < k) l = l" using assms(1) by (auto simp: sorted_wrt_append)
  moreover have "filter (\<lambda>x. fst x < k) r = []" using assms(1) by (fastforce simp: sorted_wrt_append filter_empty_conv)
  ultimately show "weight_below t k = total l" by (simp add: weight_below_def assms(2))
  show "pdf_map t k = Some w" using map_of_middle(1)[OF assms(1)] by (simp add: pdf_map_def assms(2))
qed

lemma total_nonneg: "\<forall>x \<in> set es. 0 \<le> (snd x :: 'w::linordered_field) \<Longrightarrow> 0 \<le> total es"
  by (induction es) auto

lemma choose_iff:
  fixes p :: "'w::linordered_field"
  assumes ok: "pdf_ok t" and p: "0 \<le> p" "p < 1" and pos: "\<And>k w. pdf_map t k = Some w \<Longrightarrow> 0 < w" and ne: "t \<noteq> NoNode"
  shows "pdf_choose p t = Inr es \<longleftrightarrow> (\<exists>w. pdf_map t es = Some w \<and> weight_below t es \<le> p * total_weight t
    \<and> p * total_weight t < weight_below t es + w)"
proof -
  note sorted = pdf_ok_parts(4)[OF ok]
  have pos': "0 < w" if mem: "(k, w) \<in> set (entries t)" for k w
  proof -
    obtain l r where "entries t = l @ (k, w) # r" using split_list[OF mem] by blast
    with weight_below_middle(2)[of l k w r t] sorted pos show ?thesis by simp
  qed
  have nonneg: "0 \<le> snd x" if "x \<in> set (entries t)" for x
    using pos'[of "fst x" "snd x"] that by (simp add: less_imp_le)
  have "0 < total (entries t)"
  proof (cases "entries t")
    case Nil
    with ne show ?thesis by (cases t) simp_all
  next
    case (Cons a es)
    then have "\<forall>x \<in> set es. 0 \<le> snd x" using nonneg by simp
    moreover have "0 < snd a" using pos'[of "fst a" "snd a"] Cons by simp
    ultimately show ?thesis using total_nonneg[of es] Cons by (cases a) (simp add: add_pos_nonneg)
  qed
  from pdf_choose_exact[OF ok p this] obtain l k w r where k: "pdf_choose p t = Inr k" "entries t = l @ (k, w) # r"
    "total l \<le> p * total (entries t)" "p * total (entries t) < total l + w" by blast
  note mk = weight_below_middle[of l k w r t, OF _ k(2)]
  have unique: "es = k" if e: "pdf_map t es = Some w'" "weight_below t es \<le> p * total_weight t"
    "p * total_weight t < weight_below t es + w'" for w'
  proof (rule ccontr)
    assume neq: "es \<noteq> k"
    have "(es, w') \<in> set (entries t)" using e(1) by (auto simp: pdf_map_def dest: map_of_SomeD)
    then obtain l' r' where e': "entries t = l' @ (es, w') # r'" using split_list by fastforce
    have se: "weight_below t es = total l'" using weight_below_middle(1)[OF _ e'] sorted e' by simp
    have nn: "0 \<le> total xs" if "set xs \<subseteq> set (entries t)" for xs using that nonneg by (intro total_nonneg) blast
    from e' k(2) have "(\<exists>us. l' = l @ (k, w) # us) \<or> (\<exists>us. l = l' @ (es, w') # us) \<or> (l = l' \<and> (k, w) = (es, w'))"
    proof -
      from e' k(2) have "l' @ (es, w') # r' = l @ (k, w) # r" by simp
      then obtain us where "l' = l @ us \<and> us @ (es, w') # r' = (k, w) # r \<or> l' @ us = l \<and> (es, w') # r' = us @ (k, w) # r"
        by (auto simp: append_eq_append_conv2)
      then show ?thesis by (cases us) auto
    qed
    then show False
    proof (elim disjE exE)
      fix us assume u: "l' = l @ (k, w) # us"
      then have "0 \<le> total us" using e' by (intro nn) auto
      with u se e(2) k(4) show False by (simp add: total_weight_def algebra_simps)
    next
      fix us assume u: "l = l' @ (es, w') # us"
      then have "0 \<le> total us" using k(2) by (intro nn) auto
      with u se e(3) k(3) show False by (simp add: total_weight_def algebra_simps)
    qed (use neq in auto)
  qed
  show ?thesis using k mk sorted unique by (auto simp: total_weight_def)
qed


text \<open>Every weight but the depth is positive, and stays so.\<close>

definition positive_weights :: "('k, 'w::{zero,ord}) pdf \<Rightarrow> bool" where
  "positive_weights t \<longleftrightarrow> (\<forall>w \<in> ran (pdf_map t). 0 < w)"

lemma positive_weightsD: "positive_weights t \<Longrightarrow> pdf_map t es = Some w \<Longrightarrow> 0 < w"
  by (auto simp: positive_weights_def intro: ranI)

lemma positive_upd: "positive_weights t \<Longrightarrow> 0 < w \<Longrightarrow> pdf_map t' = (pdf_map t)(es \<mapsto> w) \<Longrightarrow> positive_weights t'"
  by (auto simp: positive_weights_def ran_def split: if_splits)

lemma insert_all_positive:
  assumes "pdf_ok t" "positive_weights t" "\<And>es. 0 < weight es" "insert_all weight added t = Inr t'"
  shows "pdf_ok t' \<and> positive_weights t'"
  using assms
proof (induction added arbitrary: t)
  case (Cons es added)
  then obtain t1 where t1: "pdf_insert es (weight es) t = Inr t1" "insert_all weight added t1 = Inr t'" by auto
  note m = pdf_insert_map[OF Cons.prems(1) t1(1)]
  show ?case using Cons.IH[OF m(1) positive_upd[OF Cons.prems(2,3) m(3)] Cons.prems(3) t1(2)] .
qed simp

lemma remove_all_positive:
  assumes "pdf_ok t" "positive_weights t" "remove_all removed t = Inr t'"
  shows "positive_weights t'"
  using assms
proof (induction removed arbitrary: t)
  case (Cons es removed)
  then obtain t1 where t1: "pdf_remove es t = Inr t1" "remove_all removed t1 = Inr t'" by auto
  note m = pdf_remove_map[OF Cons.prems(1) t1(1)]
  have "positive_weights t1" using Cons.prems(2) by (auto simp: positive_weights_def m(3) ran_def split: if_splits)
  from Cons.IH[OF m(1) this t1(2)] show ?case .
qed simp

lemma weighted_update_positive:
  assumes "weighted_ok m" "positive_weights (w_states m)" "w_type m \<noteq> Depth"
    "weighted_update metrics current added removed m = Inr m'"
  shows "positive_weights (w_states m')"
proof -
  let ?w = "\<lambda>es. getWeight (w_type m) (metrics es)"
  have pos: "0 < ?w es" for es using getWeight_pos[OF assms(3)] .
  have ok: "pdf_ok (w_states m)" using assms(1) by (simp add: weighted_ok_def)
  obtain t1 t2 t3 where t: "(case current of
          Some c \<Rightarrow> if updateWeights m \<and> c \<notin> set removed then pdf_update c (?w c) (w_states m) else Inr (w_states m)
        | None \<Rightarrow> Inr (w_states m)) = Inr t1" "insert_all ?w added t1 = Inr t2" "remove_all removed t2 = Inr t3"
    "m' = m\<lparr>w_states := t3\<rparr>"
    using assms(4) by (auto simp: weighted_update_def Let_def)
  have "pdf_ok t1 \<and> positive_weights t1"
  proof (cases current)
    case (Some c)
    show ?thesis
    proof (cases "updateWeights m \<and> c \<notin> set removed")
      case True
      with t(1) Some have u: "pdf_update c (?w c) (w_states m) = Inr t1" by simp
      show ?thesis using pdf_update_map[OF ok u] positive_upd[OF assms(2) pos] by blast
    next
      case False
      with t(1) Some ok assms(2) show ?thesis by auto
    qed
  qed (use t(1) ok assms(2) in auto)
  with insert_all_positive[OF _ _ pos t(2)] remove_all_positive[OF _ _ t(3)] t(4) show ?thesis by auto
qed

lemma weighted_select_iff:
  assumes "weighted_ok m" "\<not> weighted_empty m" "positive_weights (w_states m)" "getInt32 r = (n, r')"
  shows "weighted_select getInt32 m r = Inr (es, m, r') \<longleftrightarrow> (\<exists>w. pdf_map (w_states m) es = Some w
    \<and> weight_below (w_states m) es \<le> of_nat (unat n) / 2 ^ 32 * total_weight (w_states m)
    \<and> of_nat (unat n) / 2 ^ 32 * total_weight (w_states m) < weight_below (w_states m) es + w)"
proof -
  let ?p = "of_nat (unat n) / 2 ^ 32 :: 'a"
  have d: "getDoubleL getInt32 r = (?p, r')" by (simp add: getDoubleL_def assms(4))
  have "w_states m \<noteq> NoNode" using assms(2) by (simp add: weighted_empty_def pdf_empty_def)
  from choose_iff[OF _ getDoubleL_range[OF d] positive_weightsD[OF assms(3)] this, where es = es] assms(1)
  have "pdf_choose ?p (w_states m) = Inr es \<longleftrightarrow> (\<exists>w. pdf_map (w_states m) es = Some w
    \<and> weight_below (w_states m) es \<le> ?p * total_weight (w_states m)
    \<and> ?p * total_weight (w_states m) < weight_below (w_states m) es + w)"
    by (simp add: weighted_ok_def)
  then show ?thesis by (auto simp: weighted_select_def d)
qed

end
