(* ===== verification/PTree.thy ===== *)
theory PTree
  imports Prelude "HOL-Library.AList" "HOL-Library.Multiset" "HOL-Library.Word"
begin

text \<open>
  The process tree of \<open>klee/lib/Core/PTree.cpp\<close> and the searcher that walks it,
  \<open>RandomPathSearcher\<close> of \<open>klee/lib/Core/Searcher.cpp\<close>. Nodes are known by their
  addresses; the heap of nodes is an association list, and \<open>leaf_of\<close> stands
  for the field \<open>ptreeNode\<close> of a state. An address that is not in the heap is one that was freed.
\<close>

section \<open>Nodes and operations\<close>

record ptree_node =
  pt_parent :: "nat option"
  pt_left :: "nat option"
  pt_right :: "nat option"
  pt_state :: "nat option"

record ptree =
  pt_root :: nat
  pt_nodes :: "(nat \<times> ptree_node) list"
  leaf_of :: "nat \<Rightarrow> nat option"

abbreviation node_at :: "ptree \<Rightarrow> nat \<Rightarrow> ptree_node option" where
  "node_at T \<equiv> map_of (pt_nodes T)"

text \<open>The constructor of \<open>PTreeNode\<close>, at the address the allocator gives.\<close>

definition make_node :: "nat \<Rightarrow> nat option \<Rightarrow> nat \<Rightarrow> ptree \<Rightarrow> ptree" where
  "make_node a parent es T =
     T\<lparr>pt_nodes := AList.update a \<lparr>pt_parent = parent, pt_left = None, pt_right = None, pt_state = Some es\<rparr> (pt_nodes T),
       leaf_of := (leaf_of T)(es \<mapsto> a)\<rparr>"

definition new_PTree :: "nat \<Rightarrow> nat \<Rightarrow> ptree" where
  "new_PTree a initialState =
     make_node a None initialState \<lparr>pt_root = a, pt_nodes = [], leaf_of = Map.empty\<rparr>"

definition set_node :: "nat \<Rightarrow> ptree_node \<Rightarrow> ptree \<Rightarrow> ptree" where
  "set_node a n T = T\<lparr>pt_nodes := AList.update a n (pt_nodes T)\<rparr>"

text \<open>\<open>attach\<close>; \<open>al\<close> and \<open>ar\<close> are the addresses of the two new nodes.\<close>

definition attach :: "nat \<Rightarrow> nat \<Rightarrow> nat \<Rightarrow> nat \<Rightarrow> nat \<Rightarrow> ptree \<Rightarrow> ptree result" where
  "attach node leftState rightState al ar T =
     (case node_at T node of
        None \<Rightarrow> Inl NullDereference
      | Some n \<Rightarrow>
          assert_res (pt_left n = None \<and> pt_right n = None)
            (Inr (make_node ar (Some node) rightState (make_node al (Some node) leftState
              (set_node node (n\<lparr>pt_state := None, pt_left := Some al, pt_right := Some ar\<rparr>) T)))))"

text \<open>
  The loop of \<open>remove\<close>: the node is freed by its parent, which goes too if it has no other child.
  Every turn but the last frees a node, so the loop ends.
\<close>

definition free_child :: "nat \<Rightarrow> nat \<Rightarrow> ptree_node \<Rightarrow> ptree \<Rightarrow> ptree" where
  "free_child n p pd T = T\<lparr>pt_nodes := AList.delete n (AList.update p pd (pt_nodes T))\<rparr>"

lemma free_child_shorter:
  assumes "node_at T n = Some nd" "node_at T p = Some pd0"
  shows "length (pt_nodes (free_child n p pd T)) < length (pt_nodes T)"
proof -
  let ?u = "AList.update p pd (pt_nodes T)"
  have upd: "length (AList.update k v xs) = length xs" if "k \<in> fst ` set xs" for k :: nat and v :: ptree_node and xs
    using that by (induction xs) auto
  have "length ?u = length (pt_nodes T)"
    using assms(2) by (intro upd) (metis weak_map_of_SomeI map_of_eq_None_iff option.distinct(1))
  moreover have "n \<in> fst ` set ?u"
    using assms(1) by (metis map_of_eq_None_iff option.distinct(1) AList.update_conv' fun_upd_apply)
  then have "length (AList.delete n ?u) < length ?u"
    unfolding AList.delete_eq by (auto intro: length_filter_less)
  ultimately show ?thesis by (simp add: free_child_def)
qed

function remove_loop :: "nat \<Rightarrow> ptree \<Rightarrow> ptree result" where
  "remove_loop n T =
     (case node_at T n of
        None \<Rightarrow> Inl NullDereference
      | Some nd \<Rightarrow>
          (case pt_parent nd of
             None \<Rightarrow> Inr T
           | Some p \<Rightarrow>
               (case node_at T p of
                  None \<Rightarrow> Inl NullDereference
                | Some pd \<Rightarrow>
                    if pt_left pd = Some n then
                      (let T' = free_child n p (pd\<lparr>pt_left := None\<rparr>) T in
                       if pt_right pd = None then remove_loop p T' else Inr T')
                    else if pt_right pd = Some n then
                      (let T' = free_child n p (pd\<lparr>pt_right := None\<rparr>) T in
                       if pt_left pd = None then remove_loop p T' else Inr T')
                    else Inl AssertionFailed)))"
  by pat_completeness auto
termination
  by (relation "measure (\<lambda>(n, T). length (pt_nodes T))") (auto dest: free_child_shorter)

declare remove_loop.simps [simp del]

definition ptree_remove :: "nat \<Rightarrow> ptree \<Rightarrow> ptree result" where
  "ptree_remove n T =
     (case node_at T n of
        None \<Rightarrow> Inl NullDereference
      | Some nd \<Rightarrow> assert_res (pt_left nd = None \<and> pt_right nd = None) (remove_loop n T))"

section \<open>A random path\<close>

text \<open>
  \<open>RandomPathSearcher::selectState\<close> goes down from the root and flips a coin where a node has two
  children; 32 coins come from one number. The loop returns nothing if it does not end.
\<close>

definition flip :: "('r \<Rightarrow> 32 word \<times> 'r) \<Rightarrow> 32 word \<Rightarrow> nat \<Rightarrow> 'r \<Rightarrow> bool \<times> 32 word \<times> nat \<times> 'r" where
  "flip getInt32 flips bits r =
     (let (flips, bits, r) = (if bits = 0 then (case getInt32 r of (f, r') \<Rightarrow> (f, 32, r')) else (flips, bits, r))
      in (bit flips (bits - 1), flips, bits - 1, r))"

partial_function (option) path_loop :: "('r \<Rightarrow> 32 word \<times> 'r) \<Rightarrow> ptree \<Rightarrow> nat \<Rightarrow> 32 word \<Rightarrow> nat \<Rightarrow> 'r
    \<Rightarrow> (nat \<times> 'r) result option" where
  "path_loop getInt32 T n flips bits r =
     (case node_at T n of
        None \<Rightarrow> Some (Inl NullDereference)
      | Some nd \<Rightarrow>
          (case pt_state nd of
             Some es \<Rightarrow> Some (Inr (es, r))
           | None \<Rightarrow>
               (case (pt_left nd, pt_right nd) of
                  (None, None) \<Rightarrow> Some (Inl NullDereference)
                | (None, Some b) \<Rightarrow> path_loop getInt32 T b flips bits r
                | (Some a, None) \<Rightarrow> path_loop getInt32 T a flips bits r
                | (Some a, Some b) \<Rightarrow>
                    (case flip getInt32 flips bits r of (heads, flips', bits', r') \<Rightarrow>
                       path_loop getInt32 T (if heads then a else b) flips' bits' r'))))"

definition random_path_select :: "('r \<Rightarrow> 32 word \<times> 'r) \<Rightarrow> ptree \<Rightarrow> 'r \<Rightarrow> (nat \<times> 'r) result option" where
  "random_path_select getInt32 T r = path_loop getInt32 T (pt_root T) 0 0 r"


section \<open>The tree that the heap holds\<close>

text \<open>A node that is not a leaf has at least one child; \<open>Gone\<close> is a child that is not there.\<close>

datatype shape = Gone | Leaf nat nat | Inner nat shape shape

fun addr :: "shape \<Rightarrow> nat option" where
  "addr Gone = None"
| "addr (Leaf a es) = Some a"
| "addr (Inner a l r) = Some a"

fun addrs :: "shape \<Rightarrow> nat list" where
  "addrs Gone = []"
| "addrs (Leaf a es) = [a]"
| "addrs (Inner a l r) = a # addrs l @ addrs r"

fun leaves :: "shape \<Rightarrow> (nat \<times> nat) list" where
  "leaves Gone = []"
| "leaves (Leaf a es) = [(es, a)]"
| "leaves (Inner a l r) = leaves l @ leaves r"

fun rep :: "(nat \<Rightarrow> ptree_node option) \<Rightarrow> nat option \<Rightarrow> shape \<Rightarrow> bool" where
  "rep h p Gone \<longleftrightarrow> True"
| "rep h p (Leaf a es) \<longleftrightarrow> h a = Some \<lparr>pt_parent = p, pt_left = None, pt_right = None, pt_state = Some es\<rparr>"
| "rep h p (Inner a l r) \<longleftrightarrow>
     h a = Some \<lparr>pt_parent = p, pt_left = addr l, pt_right = addr r, pt_state = None\<rparr>
   \<and> \<not> (l = Gone \<and> r = Gone) \<and> rep h (Some a) l \<and> rep h (Some a) r"

lemma addr_None [simp]: "addr t = None \<longleftrightarrow> t = Gone"
  by (cases t) auto

lemma addr_in: "addr t = Some a \<Longrightarrow> a \<in> set (addrs t)"
  by (cases t) auto

lemma rep_dom: "rep h p t \<Longrightarrow> a \<in> set (addrs t) \<Longrightarrow> a \<in> dom h"
  by (induction h p t rule: rep.induct) auto

lemma rep_cong: "(\<And>a. a \<in> set (addrs t) \<Longrightarrow> h' a = h a) \<Longrightarrow> rep h p t \<Longrightarrow> rep h' p t"
  by (induction t arbitrary: p) auto

text \<open>A path to a node: each step has the parent's address, the side, and the other child.\<close>

type_synonym path_step = "nat \<times> bool \<times> shape"

fun fill :: "shape \<Rightarrow> path_step list \<Rightarrow> shape" where
  "fill t [] = t"
| "fill t ((a, left, s) # c) =
     fill (if t = Gone \<and> s = Gone then Gone else if left then Inner a t s else Inner a s t) c"

fun path_parent :: "path_step list \<Rightarrow> nat option" where
  "path_parent [] = None"
| "path_parent ((a, left, s) # c) = Some a"

fun path_addrs :: "path_step list \<Rightarrow> nat list" where
  "path_addrs [] = []"
| "path_addrs ((a, left, s) # c) = a # addrs s @ path_addrs c"

fun path_leaves :: "path_step list \<Rightarrow> (nat \<times> nat) list" where
  "path_leaves [] = []"
| "path_leaves ((a, left, s) # c) = leaves s @ path_leaves c"

fun rep_path :: "(nat \<Rightarrow> ptree_node option) \<Rightarrow> nat option \<Rightarrow> path_step list \<Rightarrow> bool" where
  "rep_path h x [] \<longleftrightarrow> True"
| "rep_path h x ((a, left, s) # c) \<longleftrightarrow>
     h a = Some \<lparr>pt_parent = path_parent c, pt_left = (if left then x else addr s),
                 pt_right = (if left then addr s else x), pt_state = None\<rparr>
   \<and> rep h (Some a) s \<and> rep_path h (Some a) c"

lemma fill_not_Gone [simp]: "t \<noteq> Gone \<Longrightarrow> fill t c \<noteq> Gone"
  by (induction t c rule: fill.induct) auto

lemma fill_append: "fill t (c @ d) = fill (fill t c) d"
  by (induction t c rule: fill.induct) auto

lemma rep_fill: "t \<noteq> Gone \<Longrightarrow> rep h None (fill t c) \<longleftrightarrow> rep h (path_parent c) t \<and> rep_path h (addr t) c"
proof (induction t c rule: fill.induct)
  case (2 t a left s c)
  then show ?case by (cases left) auto
qed simp

lemma rep_path_cong: "(\<And>a. a \<in> set (path_addrs c) \<Longrightarrow> h' a = h a) \<Longrightarrow> rep_path h x c \<Longrightarrow> rep_path h' x c"
  by (induction h x c rule: rep_path.induct) (auto intro: rep_cong)

lemma fill_leaves: "mset (leaves (fill t c)) = mset (leaves t) + mset (path_leaves c)"
  by (induction t c rule: fill.induct) auto

lemma fill_addrs: "t \<noteq> Gone \<Longrightarrow> mset (addrs (fill t c)) = mset (addrs t) + mset (path_addrs c)"
  by (induction t c rule: fill.induct) auto

lemma fill_Gone_addrs: "mset (addrs (fill Gone c)) \<subseteq># mset (path_addrs c)"
proof (induction c)
  case (Cons f c)
  obtain a left s where f: "f = (a, left, s)" by (cases f)
  show ?case
  proof (cases "s = Gone")
    case True
    then show ?thesis using Cons f subset_mset.order_trans by fastforce
  next
    case False
    then show ?thesis by (cases left) (simp_all add: f fill_addrs)
  qed
qed simp

lemma addr_fill: "fill t c \<noteq> Gone \<Longrightarrow> addr (fill t c) = (if c = [] then addr t else Some (fst (last c)))"
  by (induction t c rule: fill.induct) auto

lemma leaf_path: "(es, a) \<in> set (leaves t) \<Longrightarrow> \<exists>c. t = fill (Leaf a es) c"
proof (induction t)
  case (Inner b l r)
  then consider c where "l = fill (Leaf a es) c" | c where "r = fill (Leaf a es) c" by auto
  then show ?case
  proof cases
    case (1 c)
    then have "Inner b l r = fill (Leaf a es) (c @ [(b, True, r)])" by (simp add: fill_append)
    then show ?thesis by blast
  next
    case (2 c)
    then have "Inner b l r = fill (Leaf a es) (c @ [(b, False, l)])" by (simp add: fill_append)
    then show ?thesis by blast
  qed
qed (auto intro: exI[of _ "[]"])

section \<open>What attach and remove do to it\<close>

lemma node_at_free [simp]:
  "n \<noteq> p \<Longrightarrow> node_at (free_child n p pd T) = (node_at T)(p \<mapsto> pd, n := None)"
  by (auto simp: free_child_def AList.update_conv' AList.delete_conv' fun_eq_iff)

lemma free_child_fields [simp]:
  "pt_root (free_child n p pd T) = pt_root T" "leaf_of (free_child n p pd T) = leaf_of T"
  by (simp_all add: free_child_def)

lemma remove_loop_ok:
  assumes "node_at T n = Some nd" "pt_parent nd = path_parent c" "rep_path (node_at T) (Some n) c"
    "distinct (n # path_addrs c)"
  shows "\<exists>T'. remove_loop n T = Inr T' \<and> pt_root T' = pt_root T \<and> leaf_of T' = leaf_of T
    \<and> rep (node_at T') None (fill Gone c)"
  using assms
proof (induction c arbitrary: n nd T)
  case Nil
  then show ?case by (simp add: remove_loop.simps[of n])
next
  case (Cons f c)
  obtain b left s where f: "f = (b, left, s)" by (cases f)
  let ?pd = "\<lparr>pt_parent = path_parent c, pt_left = (if left then Some n else addr s),
                 pt_right = (if left then addr s else Some n), pt_state = None\<rparr>"
  let ?pd' = "\<lparr>pt_parent = path_parent c, pt_left = (if left then None else addr s),
                 pt_right = (if left then addr s else None), pt_state = None\<rparr>"
  let ?T = "free_child n b ?pd' T"
  have b: "node_at T b = Some ?pd" and s: "rep (node_at T) (Some b) s" and c: "rep_path (node_at T) (Some b) c"
    using Cons.prems(3) f by auto
  have dist: "n \<noteq> b" "n \<notin> set (addrs s)" "n \<notin> set (path_addrs c)" "b \<notin> set (addrs s)" "b \<notin> set (path_addrs c)"
    "distinct (b # path_addrs c)"
    using Cons.prems(4) f by auto
  have other: "addr s \<noteq> Some n" using addr_in dist(2) by blast
  have step: "remove_loop n T = (if s = Gone then remove_loop b ?T else Inr ?T)"
    using Cons.prems(1,2) b other f by (auto simp: remove_loop.simps[of n T])
  have h: "node_at ?T = (node_at T)(b \<mapsto> ?pd', n := None)" using dist(1) by simp
  have c': "rep_path (node_at ?T) (Some b) c" by (rule rep_path_cong[OF _ c]) (use dist in \<open>auto simp: h\<close>)
  have s': "rep (node_at ?T) (Some b) s" by (rule rep_cong[OF _ s]) (use dist in \<open>auto simp: h\<close>)
  show ?case
  proof (cases "s = Gone")
    case True
    have "node_at ?T b = Some ?pd'" using dist(1) by (simp add: h)
    from Cons.IH[OF this _ c' dist(6)] True step f show ?thesis by auto
  next
    case False
    then have "rep (node_at ?T) None (fill (if left then Inner b Gone s else Inner b s Gone) c)"
      using c' s' dist(1) by (subst rep_fill) (auto simp: h)
    with False step f show ?thesis by auto
  qed
qed

definition ptree_ok :: "ptree \<Rightarrow> shape \<Rightarrow> bool" where
  "ptree_ok T t \<longleftrightarrow> rep (node_at T) None t \<and> distinct (addrs t) \<and> addr t = Some (pt_root T)
     \<and> distinct (map fst (leaves t)) \<and> (\<forall>(es, a) \<in> set (leaves t). leaf_of T es = Some a)"

abbreviation leaf_states :: "shape \<Rightarrow> nat set" where
  "leaf_states t \<equiv> fst ` set (leaves t)"

lemma new_PTree_ok: "ptree_ok (new_PTree a es) (Leaf a es)"
  by (simp add: ptree_ok_def new_PTree_def make_node_def)

text \<open>The leaf of a state, and the path to it.\<close>

lemma ptree_leaf:
  assumes "ptree_ok T t" "es \<in> leaf_states t"
  obtains a c where "leaf_of T es = Some a" "t = fill (Leaf a es) c"
    "node_at T a = Some \<lparr>pt_parent = path_parent c, pt_left = None, pt_right = None, pt_state = Some es\<rparr>"
    "rep_path (node_at T) (Some a) c" "distinct (a # path_addrs c)"
proof -
  obtain a where a: "(es, a) \<in> set (leaves t)" using assms(2) by auto
  then obtain c where c: "t = fill (Leaf a es) c" using leaf_path by blast
  have "mset (addrs t) = add_mset a (mset (path_addrs c))" by (simp add: c fill_addrs)
  then have "distinct (a # path_addrs c)" using assms(1) unfolding ptree_ok_def
    by (metis mset.simps(2) mset_eq_imp_distinct_iff)
  with a c that[of a c] assms(1) rep_fill[of "Leaf a es" "node_at T" c] show ?thesis
    by (auto simp: ptree_ok_def)
qed


lemma sub_bag_distinct:
  assumes "mset xs \<subseteq># mset ys" "distinct ys"
  shows "distinct xs"
  unfolding distinct_count_atmost_1
proof
  fix a
  have "count (mset xs) a \<le> 1" using mset_subset_eq_count[OF assms(1), of a] assms(2)
    unfolding distinct_count_atmost_1 by (metis le_trans le_refl zero_le_one)
  then show "count (mset xs) a = (if a \<in> set xs then 1 else 0)"
    by (auto simp: count_eq_zero_iff le_Suc_eq)
qed

lemma ptree_remove_ok:
  assumes "ptree_ok T t" "es \<in> leaf_states t" "leaf_states t \<noteq> {es}"
  shows "\<exists>a T' t'. leaf_of T es = Some a \<and> ptree_remove a T = Inr T' \<and> ptree_ok T' t'
    \<and> leaf_states t' = leaf_states t - {es} \<and> leaf_of T' = leaf_of T"
proof -
  obtain a c where a: "leaf_of T es = Some a" "t = fill (Leaf a es) c"
    "node_at T a = Some \<lparr>pt_parent = path_parent c, pt_left = None, pt_right = None, pt_state = Some es\<rparr>"
    "rep_path (node_at T) (Some a) c" "distinct (a # path_addrs c)"
    using ptree_leaf[OF assms(1,2)] by blast
  let ?t = "fill Gone c"
  have ml: "mset (leaves t) = add_mset (es, a) (mset (leaves ?t))" by (simp add: a(2) fill_leaves)
  have dl: "distinct (map fst ((es, a) # leaves ?t))"
  proof -
    have "mset (map fst (leaves t)) = mset (map fst ((es, a) # leaves ?t))" using ml by simp
    then show ?thesis using assms(1) unfolding ptree_ok_def by (metis mset_eq_imp_distinct_iff)
  qed
  have sl: "set (leaves t) = insert (es, a) (set (leaves ?t))" using arg_cong[OF ml, of set_mset] by simp
  have lv: "leaf_states ?t = leaf_states t - {es}" using dl by (auto simp: sl)
  have ne: "?t \<noteq> Gone" using lv assms(2,3) by auto
  obtain T' where T': "remove_loop a T = Inr T'" "pt_root T' = pt_root T" "leaf_of T' = leaf_of T"
    "rep (node_at T') None ?t"
    using remove_loop_ok[OF a(3) _ a(4,5)] by auto
  have "distinct (addrs ?t)"
    by (rule sub_bag_distinct[OF fill_Gone_addrs]) (use a(5) in simp)
  moreover have "addr ?t = Some (pt_root T')"
    using addr_fill[OF ne] addr_fill[of "Leaf a es" c] assms(1) ne T'(2) a(2)
    by (cases "c = []") (auto simp: ptree_ok_def)
  ultimately have "ptree_ok T' ?t" using T'(3,4) dl assms(1) sl by (auto simp: ptree_ok_def)
  moreover have "ptree_remove a T = Inr T'" using a(3) T'(1) by (simp add: ptree_remove_def)
  ultimately show ?thesis using a(1) T'(3) lv by blast
qed

lemma attach_ok:
  assumes "ptree_ok T t" "es \<in> leaf_states t" and new: "ns \<notin> leaf_states t" "ls = es \<and> rs = ns \<or> ls = ns \<and> rs = es"
    and fresh: "node_at T al = None" "node_at T ar = None" "al \<noteq> ar"
  shows "\<exists>a T' t'. leaf_of T es = Some a \<and> attach a ls rs al ar T = Inr T' \<and> ptree_ok T' t'
    \<and> leaf_states t' = insert ns (leaf_states t)"
proof -
  obtain a c where a: "leaf_of T es = Some a" "t = fill (Leaf a es) c"
    "node_at T a = Some \<lparr>pt_parent = path_parent c, pt_left = None, pt_right = None, pt_state = Some es\<rparr>"
    "rep_path (node_at T) (Some a) c" "distinct (a # path_addrs c)"
    using ptree_leaf[OF assms(1,2)] by blast
  define t' where "t' = fill (Inner a (Leaf al ls) (Leaf ar rs)) c"
  have dom: "al \<notin> set (addrs t)" "ar \<notin> set (addrs t)"
    using rep_dom[of "node_at T" None t] fresh assms(1) by (auto simp: ptree_ok_def)
  have "set_mset (mset (addrs t)) = insert a (set (path_addrs c))" by (simp add: a(2) fill_addrs)
  then have at: "set (addrs t) = insert a (set (path_addrs c))" by simp
  have ne: "al \<noteq> a" "ar \<noteq> a" "al \<notin> set (path_addrs c)" "ar \<notin> set (path_addrs c)" using dom at by auto
  let ?n = "\<lparr>pt_parent = path_parent c, pt_left = Some al, pt_right = Some ar, pt_state = None\<rparr>"
  let ?T = "make_node ar (Some a) rs (make_node al (Some a) ls (set_node a ?n T))"
  have h: "node_at ?T = (node_at T)(a \<mapsto> ?n,
      al \<mapsto> \<lparr>pt_parent = Some a, pt_left = None, pt_right = None, pt_state = Some ls\<rparr>,
      ar \<mapsto> \<lparr>pt_parent = Some a, pt_left = None, pt_right = None, pt_state = Some rs\<rparr>)"
    by (simp add: make_node_def set_node_def AList.update_conv' fun_eq_iff)
  have "rep_path (node_at ?T) (Some a) c" by (rule rep_path_cong[OF _ a(4)]) (use ne a(5) in \<open>auto simp: h\<close>)
  then have rep: "rep (node_at ?T) None t'"
    using ne fresh(3) unfolding t'_def by (subst rep_fill) (auto simp: h)
  have ma: "mset (addrs t') = mset (a # al # ar # path_addrs c)" by (simp add: t'_def fill_addrs)
  have "distinct (a # al # ar # path_addrs c)" using ne fresh(3) a(5) by auto
  with ma have da: "distinct (addrs t')" by (metis mset_eq_imp_distinct_iff)
  have ml: "mset (leaves t) = mset ((es, a) # path_leaves c)" by (simp add: a(2) fill_leaves)
  have ml': "mset (leaves t') = mset ((ls, al) # (rs, ar) # path_leaves c)" by (simp add: t'_def fill_leaves)
  have sl: "set (leaves t) = insert (es, a) (set (path_leaves c))" using arg_cong[OF ml, of set_mset] by simp
  have sl': "set (leaves t') = {(ls, al), (rs, ar)} \<union> set (path_leaves c)" using arg_cong[OF ml', of set_mset] by auto
  have "mset (map fst (leaves t)) = mset (map fst ((es, a) # path_leaves c))" using ml by simp
  then have dl: "distinct (map fst ((es, a) # path_leaves c))"
    using assms(1) unfolding ptree_ok_def by (metis mset_eq_imp_distinct_iff)
  have others: "es \<notin> fst ` set (path_leaves c)" "ns \<notin> fst ` set (path_leaves c)" "ns \<noteq> es"
    using dl new(1) sl by auto
  have "mset (map fst (leaves t')) = mset (map fst ((ls, al) # (rs, ar) # path_leaves c))" using ml' by simp
  moreover have "distinct (map fst ((ls, al) # (rs, ar) # path_leaves c))" using dl new(2) others by auto
  ultimately have dl': "distinct (map fst (leaves t'))" by (metis mset_eq_imp_distinct_iff)
  have nodes: "leaf_of ?T = (leaf_of T)(ls \<mapsto> al, rs \<mapsto> ar)" by (simp add: make_node_def set_node_def)
  have "\<forall>(s, x) \<in> set (leaves t'). leaf_of ?T s = Some x"
  proof -
    have "leaf_of T s = Some x" "s \<noteq> ls" "s \<noteq> rs" if "(s, x) \<in> set (path_leaves c)" for s x
      using that assms(1) sl others new(2) by (auto simp: ptree_ok_def image_iff)
    moreover have "ls \<noteq> rs" using new(2) others(3) by auto
    ultimately show ?thesis by (auto simp: sl' nodes)
  qed
  moreover have "addr t' = Some (pt_root ?T)"
    using addr_fill[of "Leaf a es" c] addr_fill[of "Inner a (Leaf al ls) (Leaf ar rs)" c] assms(1) a(2)
    by (cases "c = []") (auto simp: ptree_ok_def t'_def make_node_def set_node_def)
  ultimately have "ptree_ok ?T t'" using rep da dl' by (simp add: ptree_ok_def)
  moreover have "attach a ls rs al ar T = Inr ?T" using a(3) by (simp add: attach_def)
  moreover have "leaf_states t' = insert ns (leaf_states t)" using sl sl' new(2) by auto
  ultimately show ?thesis using a(1) by blast
qed

section \<open>What a random path finds\<close>

lemma path_loop_ok:
  assumes "rep (node_at T) p t" "addr t = Some a"
  shows "\<exists>es r'. path_loop getInt32 T a flips bits r = Some (Inr (es, r')) \<and> es \<in> leaf_states t"
  using assms
proof (induction t arbitrary: p a flips bits r)
  case (Leaf b es)
  then show ?case by (simp add: path_loop.simps[of _ _ a])
next
  case (Inner b x y)
  have n: "node_at T a = Some \<lparr>pt_parent = p, pt_left = addr x, pt_right = addr y, pt_state = None\<rparr>" "a = b"
    using Inner.prems by auto
  obtain heads flips' bits' r' where fl: "flip getInt32 flips bits r = (heads, flips', bits', r')" by (metis prod_cases4)
  have sub: "rep (node_at T) (Some a) x" "rep (node_at T) (Some a) y" using Inner.prems n(2) by auto
  show ?case
  proof (cases "addr x")
    case None
    then obtain d where "addr y = Some d" using Inner.prems(1) by (cases "addr y") auto
    with None Inner.IH(2)[OF sub(2) this] n(1) show ?thesis by (auto simp: path_loop.simps[of _ _ a])
  next
    case x: (Some d)
    show ?thesis
    proof (cases "addr y")
      case None
      with x Inner.IH(1)[OF sub(1) x] n(1) show ?thesis by (auto simp: path_loop.simps[of _ _ a])
    next
      case (Some e)
      with x Inner.IH(1)[OF sub(1) x] Inner.IH(2)[OF sub(2) Some] n(1) fl show ?thesis
        by (fastforce simp: path_loop.simps[of _ _ a])
    qed
  qed
qed simp


text \<open>
  With a stream \<open>f\<close> of numbers, the \<open>i\<close>-th coin is a bit of the number \<open>i div 32\<close>, from the
  highest on. Every sequence of coins comes from some stream, so every leaf is reached by one.
\<close>

definition coin :: "(nat \<Rightarrow> 32 word) \<Rightarrow> nat \<Rightarrow> bool" where
  "coin f i = bit (f (i div 32)) (31 - i mod 32)"

definition at_coin :: "(nat \<Rightarrow> 32 word) \<Rightarrow> nat \<Rightarrow> 32 word \<Rightarrow> nat \<Rightarrow> nat \<Rightarrow> bool" where
  "at_coin f i flips bits r \<longleftrightarrow> i + bits = 32 * r \<and> bits < 32 \<and> (0 < bits \<longrightarrow> flips = f (r - 1))"

abbreviation stream_RNG :: "(nat \<Rightarrow> 32 word) \<Rightarrow> nat \<Rightarrow> 32 word \<times> nat" where
  "stream_RNG f \<equiv> \<lambda>n. (f n, Suc n)"

lemma flip_coin:
  assumes "at_coin f i flips bits r"
  shows "\<exists>flips' bits' r'. flip (stream_RNG f) flips bits r = (coin f i, flips', bits', r')
    \<and> at_coin f (Suc i) flips' bits' r'"
proof (cases "bits = 0")
  case True
  with assms show ?thesis by (simp add: flip_def at_coin_def coin_def)
next
  case False
  define m where "m = 32 - bits"
  have "i = 32 * (r - 1) + m" "m < 32" "bits = 32 - m"
    using False assms by (auto simp: at_coin_def m_def)
  then have "i div 32 = r - 1" "31 - i mod 32 = bits - 1" by simp_all
  with False assms show ?thesis by (simp add: flip_def at_coin_def coin_def)
qed

lemma coins_exist: "\<exists>f. \<forall>i. coin f i = b i"
proof
  let ?f = "\<lambda>j. horner_sum of_bool 2 (map (\<lambda>k. b (32 * j + (31 - k))) [0..<32]) :: 32 word"
  show "\<forall>i. coin ?f i = b i"
  proof
    fix i :: nat
    have "31 - (31 - i mod 32) = i mod 32" "31 - i mod 32 < 32" by simp_all
    moreover have "[0..<32] ! (31 - i mod 32) = 31 - i mod 32" by (subst nth_upt) auto
    ultimately show "coin ?f i = b i" by (simp add: coin_def bit_horner_sum_bit_iff)
  qed
qed

lemma path_to_leaf:
  assumes "rep (node_at T) p t" "addr t = Some a" "es \<in> leaf_states t"
  shows "\<exists>bs. \<forall>f i flips bits r. at_coin f i flips bits r \<longrightarrow> (\<forall>k < length bs. coin f (i + k) = bs ! k) \<longrightarrow>
    (\<exists>r'. path_loop (stream_RNG f) T a flips bits r = Some (Inr (es, r')))"
  using assms
proof (induction t arbitrary: p a)
  case (Leaf b es')
  then show ?case by (simp add: path_loop.simps[of _ _ a])
next
  case (Inner b x y)
  have n: "node_at T a = Some \<lparr>pt_parent = p, pt_left = addr x, pt_right = addr y, pt_state = None\<rparr>" "a = b"
    using Inner.prems by auto
  have sub: "rep (node_at T) (Some a) x" "rep (node_at T) (Some a) y" using Inner.prems n(2) by auto
  note step = path_loop.simps[of "stream_RNG _" T a]
  consider e where "addr x = None" "addr y = Some e" | d where "addr x = Some d" "addr y = None"
    | d e where "addr x = Some d" "addr y = Some e"
    using Inner.prems(1) by (cases "addr x"; cases "addr y") auto
  then show ?case
  proof cases
    case (1 e)
    then have "es \<in> leaf_states y" using Inner.prems(3) by simp
    from Inner.IH(2)[OF sub(2) 1(2) this] show ?thesis using n(1) 1 by (simp add: step)
  next
    case (2 d)
    then have "es \<in> leaf_states x" using Inner.prems(3) by simp
    from Inner.IH(1)[OF sub(1) 2(1) this] show ?thesis using n(1) 2 by (simp add: step)
  next
    case (3 d e)
    have "\<exists>heads bs. \<forall>f i flips bits r. at_coin f i flips bits r \<longrightarrow>
        (\<forall>k < length bs. coin f (i + k) = bs ! k) \<longrightarrow>
        (\<exists>r'. path_loop (stream_RNG f) T (if heads then d else e) flips bits r = Some (Inr (es, r')))"
    proof (cases "es \<in> leaf_states x")
      case True
      from Inner.IH(1)[OF sub(1) 3(1) this] show ?thesis by (intro exI[of _ True]) simp
    next
      case False
      then have "es \<in> leaf_states y" using Inner.prems(3) by auto
      from Inner.IH(2)[OF sub(2) 3(2) this] show ?thesis by (intro exI[of _ False]) simp
    qed
    then obtain heads bs where go: "\<forall>f i flips bits r. at_coin f i flips bits r \<longrightarrow>
        (\<forall>k < length bs. coin f (i + k) = bs ! k) \<longrightarrow>
        (\<exists>r'. path_loop (stream_RNG f) T (if heads then d else e) flips bits r = Some (Inr (es, r')))" by blast
    have "\<exists>r'. path_loop (stream_RNG f) T a flips bits r = Some (Inr (es, r'))"
      if ac: "at_coin f i flips bits r" and bs: "\<forall>k < length (heads # bs). coin f (i + k) = (heads # bs) ! k" for f i flips bits r
    proof -
      obtain flips' bits' r' where fl: "flip (stream_RNG f) flips bits r = (coin f i, flips', bits', r')"
        "at_coin f (Suc i) flips' bits' r'" using flip_coin[OF ac] by blast
      have "coin f i = heads" using bs by force
      moreover have "\<forall>k < length bs. coin f (Suc i + k) = bs ! k" using bs by force
      ultimately show ?thesis using go[rule_format, OF fl(2)] fl(1) n(1) 3 by (simp add: step)
    qed
    then show ?thesis by blast
  qed
qed simp

text \<open>
  The process trees of a run: \<open>Executor::fork\<close> and \<open>branch\<close> attach a new state beside the one it
  was copied from, and a state that ends is removed. The second argument is the set of live states.
\<close>

inductive ptree_run :: "ptree \<Rightarrow> nat set \<Rightarrow> bool" where
  start: "ptree_run (new_PTree a es) {es}"
| forked: "ptree_run T live \<Longrightarrow> es \<in> live \<Longrightarrow> ns \<notin> live \<Longrightarrow> ls = es \<and> rs = ns \<or> ls = ns \<and> rs = es \<Longrightarrow>
    node_at T al = None \<Longrightarrow> node_at T ar = None \<Longrightarrow> al \<noteq> ar \<Longrightarrow> leaf_of T es = Some a \<Longrightarrow>
    attach a ls rs al ar T = Inr T' \<Longrightarrow> ptree_run T' (insert ns live)"
| ended: "ptree_run T live \<Longrightarrow> es \<in> live \<Longrightarrow> live \<noteq> {es} \<Longrightarrow> leaf_of T es = Some a \<Longrightarrow>
    ptree_remove a T = Inr T' \<Longrightarrow> ptree_run T' (live - {es})"

lemma ptree_run_ok: "ptree_run T live \<Longrightarrow> \<exists>t. ptree_ok T t \<and> leaf_states t = live"
proof (induction rule: ptree_run.induct)
  case (start a es)
  show ?case using new_PTree_ok by fastforce
next
  case (forked T live es ns ls rs al ar a T')
  then obtain t where "ptree_ok T t" "leaf_states t = live" by blast
  with attach_ok[of T t es ns ls rs al ar] forked show ?case by auto
next
  case (ended T live es a T')
  then obtain t where "ptree_ok T t" "leaf_states t = live" by blast
  with ptree_remove_ok[of T t es] ended show ?case by auto
qed

lemma random_path_ok:
  assumes "ptree_run T live"
  shows "\<exists>es r'. random_path_select getInt32 T r = Some (Inr (es, r')) \<and> es \<in> live"
    "es \<in> live \<Longrightarrow> \<exists>f r'. random_path_select (stream_RNG f) T 0 = Some (Inr (es, r'))"
proof -
  obtain t where t: "ptree_ok T t" "leaf_states t = live" using ptree_run_ok[OF assms] by blast
  then have r: "rep (node_at T) None t" "addr t = Some (pt_root T)" by (auto simp: ptree_ok_def)
  from path_loop_ok[OF r] t(2) show "\<exists>es r'. random_path_select getInt32 T r = Some (Inr (es, r')) \<and> es \<in> live"
    by (simp add: random_path_select_def)
  assume "es \<in> live"
  with t(2) path_to_leaf[OF r] obtain bs where bs: "\<forall>f i flips bits r. at_coin f i flips bits r \<longrightarrow>
      (\<forall>k < length bs. coin f (i + k) = bs ! k) \<longrightarrow>
      (\<exists>r'. path_loop (stream_RNG f) T (pt_root T) flips bits r = Some (Inr (es, r')))" by blast
  obtain f where "\<forall>i. coin f i = bs ! i" using coins_exist by blast
  then show "\<exists>f r'. random_path_select (stream_RNG f) T 0 = Some (Inr (es, r'))"
    using bs[rule_format, of f 0 0 0 0] by (auto simp: at_coin_def random_path_select_def)
qed


lemma ptree_run_remove:
  assumes "ptree_run T live" "es \<in> live" "live \<noteq> {es}"
  shows "\<exists>a T'. leaf_of T es = Some a \<and> ptree_remove a T = Inr T' \<and> ptree_run T' (live - {es})"
proof -
  obtain t where "ptree_ok T t" "leaf_states t = live" using ptree_run_ok[OF assms(1)] by blast
  with ptree_remove_ok[of T t es] assms(2,3) obtain a T' where "leaf_of T es = Some a" "ptree_remove a T = Inr T'" by auto
  with ptree_run.ended[OF assms this] show ?thesis by blast
qed

lemma ptree_run_attach:
  assumes "ptree_run T live" "es \<in> live" "ns \<notin> live" "node_at T al = None" "node_at T ar = None" "al \<noteq> ar"
  shows "\<exists>a T'. leaf_of T es = Some a \<and> attach a ns es al ar T = Inr T' \<and> ptree_run T' (insert ns live)"
proof -
  obtain t where "ptree_ok T t" "leaf_states t = live" using ptree_run_ok[OF assms(1)] by blast
  with attach_ok[of T t es ns ns es al ar] assms(2-6) obtain a T' where
    a: "leaf_of T es = Some a" "attach a ns es al ar T = Inr T'" by auto
  with ptree_run.forked[OF assms(1-3) _ assms(4-6) a] show ?thesis by blast
qed

end
