(* ===== verification/ExampleSearch.thy ===== *)
theory ExampleSearch
  imports WeightedSearcher PTree Complex_Main
begin

text \<open>A weighted tree of two states and a process tree after one fork, for the examples.\<close>

definition ex_weighted :: "rat weighted" where
  "ex_weighted = \<lparr>w_states = PdfNode False NoNode 4 1 3 (PdfNode True NoNode 9 2 2 NoNode),
     w_type = CoveringNew, updateWeights = True\<rparr>"

lemma ex_weighted_map: "pdf_map (w_states ex_weighted) = [9 \<mapsto> 2, 4 \<mapsto> 1]"
  by (simp add: ex_weighted_def pdf_map_def fun_eq_iff)

lemma ex_weighted_ok: "weighted_ok ex_weighted" "\<not> weighted_empty ex_weighted" "positive_weights (w_states ex_weighted)"
  unfolding positive_weights_def ex_weighted_map
  by (auto simp: ex_weighted_def weighted_ok_def pdf_ok_def weighted_empty_def pdf_empty_def ran_def split: if_splits)

lemma ex_weighted_parts: "weight_below (w_states ex_weighted) 9 = 1" "total_weight (w_states ex_weighted) = 3"
  by (simp_all add: ex_weighted_def weight_below_def total_weight_def)

lemma ex_ptree: "\<exists>T. ptree_run T {1, 0}"
  using ptree_run_attach[OF ptree_run.start[of 10 0], of 0 1 11 12] by (auto simp: new_PTree_def make_node_def)

end
