(* ===== verification/Spec2Isabelle.thy ===== *)
theory Spec2Isabelle
  imports ExampleRun ExampleSolver ExampleFork ExampleSearch
begin

text \<open>
  NeuroMerge is a symbolic execution engine, a fork of KLEE, that merges execution states. Where
  the states that a branch split apart meet again, it asks a learned model whether merging them
  pays off and, if so, joins two states into one. Its core is the C++ library under
  \<open>klee/\<close>; this development models that core and proves what makes merging trustworthy:
  a merged state stands for exactly the executions of the two states it replaces.

  \<^bold>\<open>The parts and how they interact.\<close> The interpreter keeps a set of
  \<open>ExecutionState\<close>s. A state has a path condition (\<open>ConstraintManager\<close>), a stack of
  frames whose registers hold expressions, and an \<open>AddressSpace\<close>, a persistent balanced tree
  (\<open>ImmutableTree\<close>) from memory objects to \<open>ObjectState\<close>s that states share and copy
  on write. A branch on a symbolic condition forks a state (\<open>ExecutionState::branch\<close>); at a
  merge point \<open>ExecutionState::merge\<close> joins two states. Both work on the expressions of
  \<open>Expr.cpp\<close>, whose creators fold and rewrite as they build.

  \<^bold>\<open>The theories\<close>, in the order of the layers:

  \<^item> \<open>Prelude\<close>: bit-vector ranges, results with errors, the hints the other theories
    share, and the interface \<open>persistent_map\<close> of a finite map.
  \<^item> \<open>Expr\<close>, \<open>ExprCreate\<close>, \<open>ExprArith\<close>, \<open>ExprStruct\<close>: expressions, their
    values, and the creators of \<open>lib/Expr/Expr.cpp\<close> with their soundness.
  \<^item> \<open>ExprCompare\<close>: hashes, \<open>Expr::compare\<close> and the sets built on that order.
  \<^item> \<open>ExprVisitor\<close>, \<open>Constraints\<close>, \<open>Assignment\<close>: the memoising traversal and
    the three visitors built on it: constraint rewriting, simplification, evaluation.
  \<^item> \<open>Memory\<close>: \<open>ObjectState\<close>, the contents of one memory object, with its concrete
    bytes, its cached symbolic bytes and its lazily flushed list of updates.
  \<^item> \<open>ImmutableTree\<close>: the balanced tree and its iterators; it provides
    \<open>persistent_map\<close>.
  \<^item> \<open>AddressSpace\<close>: memory objects, bounds checks, and copy on write by epochs.
  \<^item> \<open>Heap\<close>: the object states of a whole family of address spaces, and what an
    operation of one state may change for the others.
  \<^item> \<open>ExecState\<close>: execution states, fork, \<open>canMerge\<close> and \<open>merge\<close>.
  \<^item> \<open>Searcher\<close>, \<open>WrapSearcher\<close>: the searchers of \<open>lib/Core/Searcher.cpp\<close>: the contracts
    \<open>searcher\<close> and \<open>bag_searcher\<close>, the three basic strategies that provide them, and the
    searchers that wrap another one, the \<open>MergingSearcher\<close> that pauses states among them.
  \<^item> \<open>DiscretePDF\<close>, \<open>WeightedSearcher\<close>: the weighted tree of
    \<open>include/klee/Internal/ADT/DiscretePDF.inc\<close> and the searcher over it, the default when states
    are merged; it provides \<open>bag_searcher\<close>, so all that holds for a base searcher holds for it.
  \<^item> \<open>PTree\<close>: the process tree (\<open>lib/Core/PTree.cpp\<close>) and the random walk down it.
  \<^item> \<open>MergeHandler\<close>: the handlers of merge regions (\<open>lib/Core/MergeHandler.cpp\<close>), and of the
    executor what they touch: \<open>handleOpenMerge\<close>, \<open>handleCloseMerge\<close>, \<open>terminateState\<close>,
    \<open>updateStates\<close>, the making of a forked state, reference counts, \<open>selectState\<close>.
  \<^item> \<open>MergeProtocol\<close>, \<open>MergeRun\<close>, \<open>MergePaths\<close>, \<open>MergeDepth\<close>: the invariant of that
    protocol, its steps and runs, the paths that its operations keep, the depth of deletions.
  \<^item> \<open>Solver\<close>: queries, the class \<open>Solver\<close>, and the contracts \<open>solver_impl\<close> and
    \<open>initial_impl\<close> of an implementation.
  \<^item> \<open>SolverCache\<close>, \<open>Independence\<close>, \<open>Factors\<close>, \<open>MapOfSets\<close>, \<open>CexCache\<close>,
    \<open>SolverChain\<close>: the solvers of \<open>lib/Solver\<close> that wrap another one, each shown to keep the
    contracts, and the chain that \<open>ConstructSolverChain.cpp\<close> builds of them.
  \<^item> \<open>TimingSolver\<close>, \<open>Resolve\<close>: the solver as the executor asks it about a state
    (\<open>lib/Core/TimingSolver.cpp\<close>), and the resolution of symbolic addresses with it.
  \<^item> \<open>Fork\<close>, \<open>ExecMemory\<close>: of \<open>lib/Core/Executor.cpp\<close> the operations between solver and
    states: \<open>addConstraint\<close>, \<open>fork\<close>, \<open>branch\<close>, the ways a state ends, concretization, exact
    resolution, \<open>executeFree\<close> and \<open>executeMemoryOperation\<close>.
  \<^item> \<open>Examples\<close>, \<open>ExampleRun\<close>, \<open>ExampleSolver\<close>, \<open>ExampleFork\<close>, \<open>ExampleSearch\<close>: two
    small states that can be merged, a run that merges them, a core solver and a machine over it, a
    weighted and a process tree, on which the witnesses run.

  \<^bold>\<open>How state and operations correspond.\<close> A class is a record with the fields of the
  class, or a datatype where the class hierarchy is a sum; a method is a function of the same
  name that takes the object and returns it updated. Pointers to \<open>ObjectState\<close>s are keys of
  the \<open>store\<close>, since address spaces share them and mutate them in place. An assertion, a
  null dereference, a division trap or an access out of bounds is a value \<open>Inl e\<close>; functions
  that cannot fail return plain values. Integers are kept in the ranges of their C types where the
  code lets them wrap: 32-bit offsets and epochs, bit vectors of any width.

  \<^bold>\<open>The merging protocol.\<close> \<open>klee_open_merge\<close> puts a new \<open>MergeHandler\<close> on the
  state's stack; forked states share it by reference. At \<open>klee_close_merge\<close> the state is taken
  from the base searcher and waits in the handler. When the last reference to the handler goes,
  by closing or by the deletion of a state, the handler releases the states that wait and merges
  those that the decision allows, terminating the merged ones. \<open>executor_ok\<close> ties handlers,
  stacks, reference counts, paused states and the searcher's bag together; every operation keeps
  it. \<open>run_step\<close> is one turn of \<open>Executor::run\<close>: what the instructions compute is arbitrary,
  what they do to the set of states is not. The searcher's \<open>update\<close> ignores its arguments when
  the current state has just been paused, so a step that closes a region does nothing else that
  the searcher has to know. \<open>vector_full\<close> says whether the vector of removed states has to
  move when it grows during \<open>updateStates\<close>; the theorems on runs take the strict view that such
  growth is an error, and \<open>updateStates_loses_state\<close> shows what happens otherwise.

  \<^bold>\<open>Pointer structures.\<close> In \<open>DiscretePDF\<close> a pointer to a node is a location, a subtree with
  the frames up to the root, which is what rotations relink; the weights have the operations of a
  \<open>double\<close> and no laws, except where the chance of a state is computed. The nodes of the process
  tree live in a heap, since the executor keeps pointers to leaves in its states; \<open>ptree_ok\<close> says
  which tree the heap holds, and \<open>ptree_run\<close> which trees forks and ends of states lead to. Its
  calls in \<open>fork\<close>, \<open>branch\<close> and \<open>updateStates\<close> are not part of the models of these functions.

  \<^bold>\<open>The solvers.\<close> A solver is a record of its four virtual methods over a state of its own; a
  method returns \<open>None\<close> where the code returns \<open>false\<close>. The contracts say what the comments of
  \<open>SolverImpl.h\<close> specify, with one of three modes: the solver always answers, may fail, or may
  also abort. \<open>wf_model\<close> fixes what is read outside of an array to zero, since the solvers of the
  chain take such reads to be independent of everything; the bounds checks of the interpreter keep
  them out of its queries. The constraints of a validity query are assumed to be satisfiable, as
  the constraints of a live state are.

  \<^bold>\<open>Forks and memory operations.\<close> The \<open>machine\<close> of \<open>Fork\<close> is the executor of
  \<open>MergeHandler\<close> with the solver's state, the random generator and the counters; states are
  addresses into \<open>est\<close> as there. \<open>drives \<rho> s\<close> says that an input takes the path of a state,
  \<open>narrowed s P t\<close> that \<open>t\<close> is \<open>s\<close> with the inputs that satisfy \<open>P\<close> left, and \<open>quiet\<close> what an
  operation leaves alone. What is handed to \<open>processTestCase\<close> is recorded in \<open>testCases\<close>. The
  theorems on errors are exact for a solver that answers and options that allow every fork
  (\<open>running\<close>); \<open>fork_partitions\<close> says what remains true without. Adding a constraint runs on
  fuel, so a fork may also end with \<open>OutOfFuel\<close>, and the theorems on whole operations speak of
  those that return.

  \<^bold>\<open>What the lemmas show.\<close> Creators, visitors, constraint sets and memory operations are
  measured against one yardstick, \<open>eval\<close>, the value of an expression under an assignment of
  the symbolic arrays. The tree is a map in every state its operations reach. On top of these stand
  fork, copy on write and address resolution, and the merge of two states: its path condition is
  the disjunction of theirs, and its registers and its memory select, under every assignment, what
  the state on that path holds. The protocol around it never blocks, counts its references right
  and loses no path. The chain of solvers answers as its core does. On top of both, a fork splits the
  inputs of a state in two and loses none, and a load or a \<open>free\<close> at a symbolic address
  reports an error exactly for the inputs that run into it.

  \<^bold>\<open>Fuel and parameters.\<close> The traversal of \<open>ExprVisitor\<close> can revisit what it has
  rebuilt and \<open>addConstraintInternal\<close> recurses through it, so both take fuel; \<open>visit_terminates\<close>
  gives a bound that suffices for a visitor that only descends. Deleting a state can delete a
  handler, which can delete states: \<open>delete_state\<close> takes fuel for the depth of that nesting;
  since released states have reached the searcher they are queued rather than deleted, and one
  level suffices (\<open>delete_state_depth\<close>). The parameters of the
  model stand for what the code takes from outside: the answers of \<open>rand\<close> and of the inference
  server and the addresses that the allocator gives to states and handlers, the clock and the
  random generator, the order of heap pointers (\<open>plt\<close>,
  \<open>mlt\<close>, any strict order), cached hashes (\<open>hv\<close>, any function), the byte order of the target
  (\<open>le\<close>) and its pointer width (\<open>pw\<close>).

  \<^bold>\<open>Not modelled.\<close> LLVM and what walks its instructions (their semantics, module
  passes, external calls), allocation and seeding, the statistics behind the weights of states,
  the SMT solvers, the query loggers and the fast solver, the network that makes the
  merge decision and the RPC code that reaches it, parsing and printing of expressions, statistics,
  the POSIX runtime and the tools.
\<close>

section \<open>Merging states\<close>

text \<open>
  C1. The path condition of a merged state is the disjunction of the path conditions of the two
  states that \<open>ExecutionState::merge\<close> joins: no input is lost and none is gained.
\<close>

theorem merge_path_condition:
  assumes r: "merge_ready st spaces a b sa sb" and p: "pointer_order plt" and o: "strict_order mlt"
    and m: "merge n le (expr_lt hv plt) mlt sa sb st = Inr (True, sm, st')" and \<rho>: "wf_env \<rho>"
  shows "sat \<rho> (constraints sm) \<longleftrightarrow> sat \<rho> (constraints sa) \<or> sat \<rho> (constraints sb)"
  using merge_parts[OF r expr_lt_strict_order[OF p] o m]
proof cases
  case (1 inA inB cs as' ms)
  from merge_constraints_ok(5)[OF expr_lt_strict_order[OF p] merge_readyD(7,8)[OF r] 1(2,3,6) \<rho>] 1(7)
  show ?thesis by simp
qed

theorem merge_path_condition_witness:
  "\<exists>sm st'. ex_merge = Inr (True, sm, st') \<and>
    (sat ex_env (constraints sm) \<longleftrightarrow> sat ex_env (constraints ex_A) \<or> sat ex_env (constraints ex_B))"
proof -
  from ex_merge_returns obtain sm st' where m: "ex_merge = Inr (True, sm, st')" by blast
  from merge_path_condition[OF ex_ready ex_plt_order ex_mlt_order m[unfolded ex_merge_def] ex_env_wf] m
  show ?thesis by blast
qed

text \<open>
  C2. Memory after a merge: under an assignment that drives the first state, every byte of every
  object reads as in the first state; under one that drives only the second, as in the second.
\<close>

theorem merge_memory_contents:
  assumes r: "merge_ready st spaces a b sa sb" and p: "pointer_order plt" and o: "strict_order mlt"
    and m: "merge n le (expr_lt hv plt) mlt sa sb st = Inr (True, sm, st')" and \<rho>: "wf_env \<rho>"
    and mo: "(mo, oid) \<in> objects_of (addressSpace sa)" "i < mo_size mo"
  shows "(sat \<rho> (constraints sa) \<longrightarrow>
      contents \<rho> st' (addressSpace sm) mo i = contents \<rho> st (addressSpace sa) mo i)
    \<and> (sat \<rho> (constraints sb) \<and> \<not> sat \<rho> (constraints sa) \<longrightarrow>
      contents \<rho> st' (addressSpace sm) mo i = contents \<rho> st (addressSpace sb) mo i)"
  using merge_parts[OF r expr_lt_strict_order[OF p] o m]
proof cases
  case (1 inA inB cs as' ms)
  note lt = expr_lt_strict_order[OF p, of hv]
  note R = merge_readyD[OF r]
  note C = merge_constraints_ok(1,2)[OF lt R(7,8) 1(2) refl]
  note choice = merge_choice[OF lt R(7,8) 1(2) \<rho>]
  from mo have mem: "mo \<in> fst ` objects_of (spaces ! a)" using R(5) by force
  note val = mixedD(5)[OF 1(5) mem mo(2) \<rho>, unfolded R(5)]
  note same = merge_memory(2)[OF r o 1(4) C mem[unfolded R(5)]]
  show ?thesis
    using val choice same 1(7) by (cases "mo \<in> set ms") (auto simp: mix_def)
qed

theorem merge_memory_contents_witness:
  "\<exists>sm st'. ex_merge = Inr (True, sm, st') \<and>
    contents ex_env st' (addressSpace sm) ex_object 0 = Some 5"
proof -
  from ex_merge_returns obtain sm st' where m: "ex_merge = Inr (True, sm, st')" by blast
  have "(ex_object, 0) \<in> objects_of (addressSpace ex_A)" "0 < mo_size ex_object"
    by (simp_all add: ex_A_simps ex_objects_of ex_object_def)
  from merge_memory_contents[OF ex_ready ex_plt_order ex_mlt_order m[unfolded ex_merge_def] ex_env_wf this]
    ex_sat(1) ex_A_contents m
  show ?thesis by auto
qed


text \<open>
  C3. Registers after a merge: a register that both states have set is a select that has the
  first state's value under the first path condition and the second state's under the second
  alone; one that is null on either side keeps what the first state has.
\<close>

theorem merge_registers:
  assumes r: "merge_ready st spaces a b sa sb" and p: "pointer_order plt" and o: "strict_order mlt"
    and m: "merge n le (expr_lt hv plt) mlt sa sb st = Inr (True, sm, st')" and \<rho>: "wf_env \<rho>"
    and k: "k < length (stack sa)" "i < numRegisters (kf (stack sa ! k))"
  shows "(case (register (stack sa) k i, register (stack sb) k i) of
      (Some x, Some y) \<Rightarrow> (\<exists>e. register (stack sm) k i = Some e
        \<and> (sat \<rho> (constraints sa) \<longrightarrow> eval \<rho> e = eval \<rho> x)
        \<and> (sat \<rho> (constraints sb) \<and> \<not> sat \<rho> (constraints sa) \<longrightarrow> eval \<rho> e = eval \<rho> y))
    | _ \<Rightarrow> register (stack sm) k i = register (stack sa) k i)"
  using merge_parts[OF r expr_lt_strict_order[OF p] o m]
proof cases
  case (1 inA inB cs as' ms)
  note lt = expr_lt_strict_order[OF p, of hv]
  note R = merge_readyD[OF r]
  note C = merge_constraints_ok(1,2)[OF lt R(7,8) 1(2) refl]
  note choice = merge_choice[OF lt R(7,8) 1(2) \<rho>]
  have t: "typed_stacks (stack sa) (stack sb)" using R(9) 1(1) by (simp add: canMerge_iff_merge)
  have st: "stack sm = merge_stack inA (stack sa) (stack sb)" using 1(7) by simp
  note M = merge_stack_ok[OF t C k]
  show ?thesis
  proof (cases "register (stack sa) k i = None \<or> register (stack sb) k i = None")
    case True
    with M(3) st show ?thesis by (auto split: option.splits)
  next
    case False
    then obtain x y where xy: "register (stack sa) k i = Some x" "register (stack sb) k i = Some y" by auto
    from M(2)[OF this] obtain e where "register (stack sm) k i = Some e"
      "eval \<rho> e = (if eval \<rho> inA = 1 then eval \<rho> x else eval \<rho> y)" using st \<rho> by auto
    with xy choice show ?thesis by auto
  qed
qed

theorem merge_registers_witness:
  "\<exists>sm st'. ex_merge = Inr (True, sm, st') \<and>
    (\<exists>e. register (stack sm) 0 0 = Some e \<and> eval ex_env e = 1)"
proof -
  from ex_merge_returns obtain sm st' where m: "ex_merge = Inr (True, sm, st')" by blast
  have k: "0 < length (stack ex_A)" "0 < numRegisters (kf (stack ex_A ! 0))"
    by (simp_all add: ex_A_simps ex_frame_def new_StackFrame_def ex_function_def)
  have x: "register (stack ex_A) 0 0 = Some (Constant 32 1)" "register (stack ex_B) 0 0 = Some (Constant 32 2)"
    by (simp_all add: ex_A_simps ex_B_simps ex_frame_def register_def)
  from merge_registers[OF ex_ready ex_plt_order ex_mlt_order m[unfolded ex_merge_def] ex_env_wf k]
    ex_sat(1) x m
  show ?thesis by auto
qed

text \<open>
  C4. A merge disturbs no other state: the family of address spaces keeps its copy-on-write
  invariant and its well-formed objects, and every other space, the second state's included,
  reads the bytes it read before.
\<close>

theorem merge_isolated:
  assumes r: "merge_ready st spaces a b sa sb" and p: "pointer_order plt" and o: "strict_order mlt"
    and m: "merge n le (expr_lt hv plt) mlt sa sb st = Inr (True, sm, st')"
  shows "family_ok st' (spaces[a := addressSpace sm])
    \<and> wf_constraints (constraints sm) \<and> pc sm = pc sa \<and> symbolics sm = symbolics sa
    \<and> fst ` objects_of (addressSpace sm) = fst ` objects_of (addressSpace sa)
    \<and> (\<forall>j < length spaces. j \<noteq> a \<longrightarrow> same_view st (spaces ! j) st' (spaces ! j))"
  using merge_parts[OF r expr_lt_strict_order[OF p] o m]
proof cases
  case (1 inA inB cs as' ms)
  note R = merge_readyD[OF r]
  note M = mixedD[OF 1(5)]
  have "wf_constraints cs"
    by (rule merge_constraints_ok(4)[OF expr_lt_strict_order[OF p] R(7,8) 1(2,3,6)])
  with M(1,2,4) 1(7) R(5) show ?thesis by simp
qed

theorem merge_isolated_witness:
  "\<exists>sm st'. ex_merge = Inr (True, sm, st') \<and> family_ok st' [addressSpace sm, ex_space 1]
    \<and> same_view ex_store (ex_space 1) st' (ex_space 1)"
proof -
  from ex_merge_returns obtain sm st' where m: "ex_merge = Inr (True, sm, st')" by blast
  from merge_isolated[OF ex_ready ex_plt_order ex_mlt_order m[unfolded ex_merge_def]] m
  show ?thesis by (auto dest!: spec[of _ "Suc 0"])
qed

text \<open>
  C5. A merge that \<open>canMerge\<close> admits fails in no assertion about registers and memory: it
  returns true, or fails as rebuilding the path condition does, and it meets an invalid
  constraint only when neither path was feasible.
\<close>

theorem merge_returns:
  assumes r: "merge_ready st spaces a b sa sb" and p: "pointer_order plt" and o: "strict_order mlt"
    and c: "canMerge sa sb"
  shows "case merge n le (expr_lt hv plt) mlt sa sb st of
      Inr (ok, sm, st') \<Rightarrow> ok
    | Inl err \<Rightarrow>
        (let common = common_of (expr_lt hv plt) sa sb
         in merge_constraints n common (conjoin (suffix_of (expr_lt hv plt) sa common))
              (conjoin (suffix_of (expr_lt hv plt) sb common)) = Inl err)
        \<and> (err = InvalidConstraint \<longrightarrow>
            (\<forall>\<rho>. wf_env \<rho> \<longrightarrow> \<not> sat \<rho> (constraints sa) \<and> \<not> sat \<rho> (constraints sb)))"
proof -
  let ?lt = "expr_lt hv plt"
  note lt = expr_lt_strict_order[OF p, of hv]
  note R = merge_readyD[OF r]
  define inA where "inA = conjoin (suffix_of ?lt sa (common_of ?lt sa sb))"
  define inB where "inB = conjoin (suffix_of ?lt sb (common_of ?lt sa sb))"
  note C = merge_constraints_ok[OF lt R(7,8) inA_def inB_def]
  from c obtain ms where ms: "mutated_objects sa sb = Some ms" by (auto simp: canMerge_iff_merge)
  from merge_memory(1)[OF r o ms C(1,2), of le] obtain as' st' where
    "merge_objects le inA (addressSpace sb) (std_set mlt ms) (addressSpace sa, st) = Inr (as', st')" by blast
  then have body: "merge_body n le ?lt (std_set mlt ms) sa sb st
      = map_res (\<lambda>cs. (sa\<lparr>stack := merge_stack inA (stack sa) (stack sb), addressSpace := as',
          constraints := cs\<rparr>, st')) (merge_constraints n (common_of ?lt sa sb) inA inB)"
    by (simp add: merge_body_def Let_def inA_def inB_def common_of_def suffix_of_def)
  show ?thesis
    using C(6) unfolding merge_canMerge[OF c ms] body Let_def inA_def[symmetric] inB_def[symmetric]
    by (cases "merge_constraints n (common_of ?lt sa sb) inA inB") (auto simp: map_res_def)
qed

theorem merge_returns_witness:
  "case ex_merge of Inr (ok, sm, st') \<Rightarrow> ok | Inl err \<Rightarrow> False"
proof -
  have "canMerge ex_A ex_B" by code_simp
  from merge_returns[OF ex_ready ex_plt_order ex_mlt_order this, where n = 20 and le = True and hv = ex_hv] ex_merge_returns
  show ?thesis by (auto simp: ex_merge_def)
qed

section \<open>The merging protocol\<close>





text \<open>
  C8. Closing a region loses no path and invents none: when the selected state closes its
  innermost region and \<open>updateStates\<close> has settled what that set off, be it waiting, releases,
  merges or the deletion of merged states, the pairs of a program counter and an input for which
  some live state has that counter and admits that input are the same as before.
\<close>

theorem close_keeps_paths:
  assumes s: "bag_searcher sel upd emp content ok" and cf: "base_update cf = upd" "\<And>k. vector_full cf k"
      "strict_order (expr_before cf)"
    and i: "settled content ok ex" "wf_states ex" and es: "es \<in># content (mg_base (mergingSearcher ex))"
    and close: "handleCloseMerge cf n es mp ex = Inr ex1" and settle: "updateStates cf n (Some es) ex1 = Inr ex2"
  shows "paths ex2 = paths ex \<and> wf_states ex2 \<and> settled content ok ex2"
proof -
  have e: "executor_ok content ok {} {#} ex" "addedStates ex = []" "removedStates ex = []"
    using i(1) by (simp_all add: settled_def)
  have q: "set (removedStates ex) \<inter> insert es (set (pausedStates (mergingSearcher ex))) = {}" by (simp add: e(3))
  note p = bag_searcher.handleCloseMerge_paths[OF s e(1) cf(1,3) es i(2) q close]
  note m = bag_searcher.close_settles[OF s e cf(1) es close]
  from bag_searcher.updateStates_paths[OF s m(1) cf m(2) _ settle] p
    bag_searcher.updateStates_ok[OF s m(1) cf(1,2) m(2) settle]
  show ?thesis by (simp add: settled_def)
qed

theorem close_keeps_paths_witness:
  "\<exists>ex ex1 ex2. bind_res ex_settled (ex_closed 2) = Inr ex \<and> ex_closed 1 ex = Inr ex2
    \<and> states ex = {1, 2} \<and> states ex2 = {1} \<and> paths ex2 = paths ex"
proof -
  obtain ex where ex: "bind_res ex_settled (ex_closed 2) = Inr ex" "mg_base (mergingSearcher ex) = [1]" "states ex = {1, 2}"
    using ex_closed_facts by (auto split: sum.splits)
  obtain ex2 where "bind_res (bind_res ex_settled (ex_closed 2)) (ex_closed 1) = Inr ex2" "states ex2 = {1}"
    using ex_merged_facts by (auto split: sum.splits)
  then have ex2: "ex_closed 1 ex = Inr ex2" "states ex2 = {1}" using ex(1) by simp_all
  then obtain ex1 where c: "handleCloseMerge ex_settings 9 1 77 ex = Inr ex1" "updateStates ex_settings 9 (Some 1) ex1 = Inr ex2"
    by (auto simp: ex_closed_def)
  have i: "settled mset (\<lambda>_. True) ex" "wf_states ex" using ex_closed_settled[OF ex(1)] by simp_all
  have "1 \<in># mset (mg_base (mergingSearcher ex))" by (simp add: ex(2))
  from close_keeps_paths[OF dfs.bag_searcher_axioms ex_settings_fields i this c] ex ex2 show ?thesis by blast
qed




section \<open>Choosing the next state\<close>

text \<open>
  C11. \<open>DiscretePDF\<close> is a table: from a proper tree, whatever the arithmetic of its weights is,
  \<open>insert\<close> adds a new item and \<open>update\<close> and \<open>remove\<close> change an item that is there, with
  a proper tree as the result; the other calls run into their assertions, and none into a null
  pointer. \<open>inTree\<close> and \<open>getWeight\<close> read the table.
\<close>

theorem weighted_table:
  fixes root :: "('k::linorder, 'w::{plus, zero}) pdf"
  assumes "pdf_ok root"
  shows "(if item \<in> dom (pdf_map root)
    then pdf_insert item w root = Inl AssertionFailed
      \<and> yields_table (pdf_update item w root) ((pdf_map root)(item \<mapsto> w))
      \<and> yields_table (pdf_remove item root) ((pdf_map root)(item := None))
    else yields_table (pdf_insert item w root) ((pdf_map root)(item \<mapsto> w))
      \<and> pdf_update item w root = Inl AssertionFailed \<and> pdf_remove item root = Inl AssertionFailed)
    \<and> (inTree item root \<longleftrightarrow> item \<in> dom (pdf_map root))
    \<and> pdf_getWeight item root = of_option AssertionFailed (pdf_map root item)"
  using assms by (simp add: pdf_insert_table pdf_update_table pdf_remove_table pdf_lookup_map dom_pdf_map)

theorem weighted_table_witness:
  "\<exists>t. pdf_insert 7 2 NoNode = Inr t \<and> yields_table (pdf_insert (3 :: nat) (5 :: nat) t) [7 \<mapsto> 2, 3 \<mapsto> 5]"
proof -
  obtain t where t: "pdf_insert 7 2 NoNode = Inr t" "pdf_ok t" "pdf_map t = [7 :: nat \<mapsto> 2 :: nat]"
    using weighted_table[of NoNode 7 2] by (auto simp: yields_table_def)
  with weighted_table[OF t(2), of 3 5] show ?thesis by simp
qed





text \<open>
  C13. \<open>RandomPathSearcher\<close> never loses its way: in every process tree that forks and ends of
  states lead to, the walk from the root ends at a live state, whatever numbers the generator gives,
  and every live state is found for some numbers.
\<close>

theorem random_path_reaches:
  assumes "ptree_run T alive"
  shows "(\<forall>draw r. \<exists>es r'. random_path_select draw T r = Some (Inr (es, r')) \<and> es \<in> alive)
    \<and> (\<forall>es \<in> alive. (\<exists>f r'. random_path_select (stream_RNG f) T 0 = Some (Inr (es, r')))
        \<and> (alive \<noteq> {es} \<longrightarrow> (\<exists>a T'. leaf_of T es = Some a \<and> ptree_remove a T = Inr T')))"
proof (intro conjI allI ballI impI)
  show "\<exists>es r'. random_path_select draw T r = Some (Inr (es, r')) \<and> es \<in> alive" for draw :: "'a \<Rightarrow> 32 word \<times> 'a" and r
    by (rule random_path_ok(1)[OF assms])
  show "\<exists>f r'. random_path_select (stream_RNG f) T 0 = Some (Inr (es, r'))" if "es \<in> alive" for es
    by (rule random_path_ok(2)[OF assms that])
  show "\<exists>a T'. leaf_of T es = Some a \<and> ptree_remove a T = Inr T'" if "es \<in> alive" "alive \<noteq> {es}" for es
    using ptree_run_remove[OF assms that] by (elim exE conjE) (intro exI conjI)
qed

theorem random_path_reaches_witness:
  "\<exists>T f r'. ptree_run T {1, 0} \<and> random_path_select (stream_RNG f) T 0 = Some (Inr (1, r'))"
proof -
  obtain T where T: "ptree_run T {1, 0}" using ex_ptree by blast
  from random_path_reaches[OF T, THEN conjunct2, rule_format, of 1] T show ?thesis by blast
qed


section \<open>States and their memory\<close>

text \<open>
  C14. A fork: \<open>ExecutionState::branch\<close> gives two states with the path condition, the
  registers and the memory of the one they came from, in a family that keeps its invariant, as
  long as the 32-bit epoch of the address space has not run out.
\<close>

theorem branch_preserves:
  assumes f: "family_ok st spaces" and i: "i < length spaces" "spaces ! i = addressSpace s"
    and epoch: "cowKey (addressSpace s) + 1 < 2 ^ 32"
    and regs: "\<forall>f \<in> set (stack s). length (locals f) = numRegisters (kf f)"
    and b: "branch s = (this, falseState)"
  shows "family_ok st (spaces[i := addressSpace this] @ [addressSpace falseState])
    \<and> constraints this = constraints s \<and> constraints falseState = constraints s
    \<and> stack this = stack s \<and> stack falseState = stack s
    \<and> (\<forall>\<rho> mo j. contents \<rho> st (addressSpace this) mo j = contents \<rho> st (addressSpace s) mo j
        \<and> contents \<rho> st (addressSpace falseState) mo j = contents \<rho> st (addressSpace s) mo j)"
proof -
  note B = branch_fields[OF b]
  have "map copy_StackFrame (stack s) = stack s" using regs by (simp add: map_idI copy_StackFrame_id)
  moreover have "family_ok st (spaces[i := addressSpace this] @ [addressSpace falseState])"
    using fork_family_ok[OF f i(1)] i(2) epoch B(1) by metis
  ultimately show ?thesis
    using B same_objects_contents copy_AddressSpace_objects[OF B(1)] by metis
qed

theorem branch_preserves_witness:
  "\<exists>this falseState. branch ex_A = (this, falseState)
    \<and> family_ok ex_store [addressSpace this, ex_space 1, addressSpace falseState]
    \<and> constraints falseState = [ex_cond]"
proof -
  obtain t f where b: "branch ex_A = (t, f)" by (cases "branch ex_A")
  have "\<forall>f \<in> set (stack ex_A). length (locals f) = numRegisters (kf f)"
    "cowKey (addressSpace ex_A) + 1 < 2 ^ 32"
    by (simp_all add: ex_A_simps ex_frame_def new_StackFrame_def ex_function_def ex_space_def)
  from branch_preserves[OF ex_family _ _ this(2,1) b, of 0] ex_A_simps b show ?thesis by auto
qed

text \<open>
  C15. Copy-on-write: \<open>AddressSpace::getWriteable\<close> on a bound object that is not read-only
  always returns; the space then binds an object that no other space binds, and nothing any space
  reads has changed.
\<close>

theorem getWriteable_safe:
  assumes "family_ok st spaces" "a < length spaces" "(mo, oid) \<in> objects_of (spaces ! a)"
    "map_option readOnly (objs st oid) = Some False"
  shows "\<exists>oid' as' st'. getWriteable mo oid (spaces ! a) st = Inr (oid', as', st')
    \<and> family_ok st' (spaces[a := as']) \<and> (mo, oid') \<in> objects_of as'
    \<and> same_view st (spaces ! a) st' as'
    \<and> (\<forall>j < length spaces. j \<noteq> a \<longrightarrow>
        \<not> binds (spaces ! j) oid' \<and> same_view st (spaces ! j) st' (spaces ! j))"
  using getWriteable_ok[OF assms] by blast

theorem getWriteable_safe_witness:
  "\<exists>oid' as' st'. getWriteable ex_object 0 (ex_space 0) ex_store = Inr (oid', as', st')
    \<and> family_ok st' [as', ex_space 1] \<and> \<not> binds (ex_space 1) oid'"
proof -
  have "(ex_object, 0) \<in> objects_of ([ex_space 0, ex_space 1] ! 0)"
    "map_option readOnly (objs ex_store 0) = Some False"
    by (simp_all add: ex_objects_of ex_store_def ex_contents_def new_ObjectState_def)
  from getWriteable_safe[OF ex_family _ this] show ?thesis by (fastforce dest!: spec[of _ "Suc 0"])
qed


text \<open>
  C16. \<open>AddressSpace::resolveOne\<close> of a constant address: among objects that do not overlap it
  finds the binding whose object contains the address (the start of an empty object counts), and
  nothing else.
\<close>

theorem resolveOne_correct:
  assumes "space_ok as" "disjoint_objects as"
  shows "resolveOne address as = Some p \<longleftrightarrow> p \<in> objects_of as
    \<and> (address_of p \<le> address \<and> address < address_of p + mo_size (fst p)
       \<or> mo_size (fst p) = 0 \<and> address = address_of p)"
  using resolveOne_ok[OF assms, of address p] by (auto simp: in_object_def)

theorem resolveOne_correct_witness:
  "resolveOne 100 (ex_space 0) = Some (ex_object, 0) \<and> resolveOne 101 (ex_space 0) = None"
proof -
  have d: "disjoint_objects (ex_space 0)" by (simp add: disjoint_objects_def ex_objects_of)
  have "resolveOne 101 (ex_space 0) \<noteq> Some p" for p
    using resolveOne_correct[OF ex_space_ok d, of 101 p] by (auto simp: ex_objects_of ex_object_def)
  moreover have "resolveOne 100 (ex_space 0) = Some (ex_object, 0)"
    using resolveOne_correct[OF ex_space_ok d, of 100 "(ex_object, 0)"]
    by (simp add: ex_objects_of ex_object_def)
  ultimately show ?thesis by (metis not_None_eq)
qed

section \<open>Forking and memory operations\<close>

text \<open>
  C17. \<open>Executor::fork\<close> loses no input: whatever the solver behind it, the states it returns
  have exactly the inputs of the given state on which the condition holds, and on which it does
  not, at the same point of the program; a side is missing only if it has no inputs, or if the
  solver gives up, a limit forbids the fork or a path is replayed; and an invalid constraint is
  added in these cases at most.
\<close>

theorem fork_partitions:
  fixes isInternal :: bool
  assumes T: "timing_solver T ok m" "timing cf = T" "ok (solver M)"
    and s: "est (exe M) es = Some s" "live s" "framed s" and c: "wf_expr c" "getWidth c = 1"
    and a: "est (exe M) (allocate cf (est (exe M))) = None"
  defines "lost \<equiv> limited_fork cf s isInternal M \<or> ts_mode T m \<noteq> MustAnswer"
  shows "case fork cf es c isInternal M of
      Inl err \<Rightarrow> err = InvalidConstraint \<longrightarrow> lost
    | Inr ((t, f), M') \<Rightarrow>
        side_of lost s (\<lambda>\<rho>. eval \<rho> c = 1) M' t \<and> side_of lost s (\<lambda>\<rho>. eval \<rho> c = 0) M' f
      \<and> ((t, f) \<noteq> (None, None) \<longrightarrow> quiet es M M') \<and> (t \<noteq> None \<longrightarrow> t \<noteq> f) \<and> ok (solver M')"
  using timing_solver.fork_ok[OF T(1,2,3) s c a, of isInternal]
  unfolding lost_def forked_def by (auto split: sum.split)

theorem fork_partitions_witness:
  "\<exists>M' a b. fork (ex_options ex_timing) 1 ex_branch True ex_machine = Inr ((Some 1, Some 2), M')
    \<and> est (exe M') 1 = Some a \<and> est (exe M') 2 = Some b
    \<and> (\<forall>\<rho>. drives \<rho> a \<longleftrightarrow> drives \<rho> ex_A \<and> eval \<rho> (ex_byte 0) < 5)
    \<and> (\<forall>\<rho>. drives \<rho> b \<longleftrightarrow> drives \<rho> ex_A \<and> \<not> eval \<rho> (ex_byte 0) < 5)"
proof -
  obtain M' where M': "fork (ex_options ex_timing) 1 ex_branch True ex_machine = Inr ((Some 1, Some 2), M')"
    using ex_fork by blast
  have fresh: "est (exe ex_machine) (allocate (ex_options ex_timing) (est (exe ex_machine))) = None"
    using ex_allocates[of ex_timing] by (simp add: allocates_def)
  from fork_partitions[OF ex_timing_solver ex_options_simps(1) TrueI ex_machine_simps(1) ex_A_active(1,2)
      ex_branch_wf(1,2) fresh, of True] M'
  show ?thesis by (auto simp: side_of_def narrowed_def ex_branch_wf(3) of_bool_def split: if_splits)
qed





text \<open>
  C20. \<open>AddressSpace::resolve\<close> with a solver: what it collects are objects the address may lie
  in; unless it says that it is incomplete they are all of them, and it says so only if the solver
  did not answer, the time was up or the number of objects was limited.
\<close>

theorem resolve_complete:
  assumes "timing_solver T ok m" "ok sol" "address_ok pw s p" "resolvable pw as"
  shows "runs (ts_mode T m) ok (\<lambda>(incomplete, rl). candidates s p (objects_of as) rl
      \<and> (if incomplete then may_give_up (ts_mode T m) mx late as rl else all_candidates s p (objects_of as) rl))
    (resolve T pw mx late s as p sol)"
  by (rule timing_solver.resolve_ok[OF assms])

theorem resolve_complete_witness:
  "\<exists>sol. resolve ex_timing 8 0 (\<lambda>_. False) ex_A (addressSpace ex_A) (ex_byte 0) () = Inr ((False, []), sol)"
proof -
  have p: "address_ok 8 ex_A (ex_byte 0)"
    using ex_A_active(1) ex_byte_wf[of 0] by (simp add: address_ok_def)
  have "\<not> may_hit ex_A (ex_byte 0) (ex_object, 0)"
    by (auto simp: may_hit_def ex_takes touches_def ex_object_def)
  then have none: "set rl \<subseteq> {(ex_object, 0)} \<Longrightarrow> \<forall>op \<in> set rl. may_hit ex_A (ex_byte 0) op \<Longrightarrow> rl = []" for rl
    by (cases rl) auto
  obtain inc rl where "resolve ex_timing 8 0 (\<lambda>_. False) ex_A (addressSpace ex_A) (ex_byte 0) () = Inr ((inc, rl), ())"
    and "\<not> inc" "set rl \<subseteq> {(ex_object, 0)}" "\<forall>op \<in> set rl. may_hit ex_A (ex_byte 0) op"
    using resolve_complete[OF ex_timing_solver TrueI p ex_resolvable, of 0 "\<lambda>_. False" "()"]
    by (auto simp: runs_def ex_mode candidates_def may_give_up_def ex_objects_A split: sum.splits if_splits)
  with none show ?thesis by auto
qed

text \<open>
  C21. \<open>Executor::branch\<close> on the conditions of a switch: whenever it returns, the k-th state has
  the inputs of the given one on which the k-th condition holds, at the same point of the program;
  no two of them are one; and no state is missing unless no more forks are allowed.
\<close>

theorem switch_branches:
  assumes r: "executor_branch cf es conditions M = Inr (result, M')"
    and s: "est (exe M) es = Some s" "wf_constraints (constraints s)" "framed s"
    and a: "allocates cf" "finite (dom (est (exe M)))"
    and c: "\<forall>c \<in> set conditions. wf_expr c \<and> getWidth c = 1"
  shows "length result = length conditions
    \<and> (\<forall>k < length result. \<forall>i. result ! k = Some i \<longrightarrow> at_state M' i (narrowed s (\<lambda>\<rho>. eval \<rho> (conditions ! k) = 1)))
    \<and> distinct (filter (\<lambda>r. r \<noteq> None) result)
    \<and> (if \<exists>n. MaxForks cf = Some n \<and> n \<le> forks M then \<exists>k < length result. result ! k = Some es
       else result ! 0 = Some es \<and> None \<notin> set result)"
  by (rule executor_branch_ok[OF assms])

theorem switch_branches_witness:
  "\<exists>i M'. executor_branch (ex_options ex_timing) 1 [ex_branch, createIsZero ex_branch] ex_machine = Inr ([Some 1, Some i], M')
    \<and> i \<noteq> 1 \<and> at_state M' 1 (narrowed ex_A (\<lambda>\<rho>. eval \<rho> ex_branch = 1))
    \<and> at_state M' i (narrowed ex_A (\<lambda>\<rho>. eval \<rho> (createIsZero ex_branch) = 1))"
proof -
  obtain result M' where r: "executor_branch (ex_options ex_timing) 1 [ex_branch, createIsZero ex_branch] ex_machine = Inr (result, M')"
    using ex_switch[of ex_timing] by (auto split: sum.splits)
  have cs: "\<forall>c \<in> set [ex_branch, createIsZero ex_branch]. wf_expr c \<and> getWidth c = 1"
    using ex_branch_wf(1,2) createIsZero_facts(1,2)[OF ex_branch_wf(1)] by simp
  have wf: "wf_constraints (constraints ex_A)" using ex_A_active(1) by (simp add: live_def)
  note B = switch_branches[OF r ex_machine_simps(1) wf ex_A_active(2) ex_allocates ex_machine_simps(6) cs]
  then obtain x y where res: "result = [x, y]" by (auto simp: length_Suc_conv)
  have x: "x = Some 1" and "None \<in> set result \<Longrightarrow> False" using B by (auto simp: res)
  then obtain i where "y = Some i" by (cases y) (auto simp: res)
  note xy = x this
  note each = conjunct1[OF conjunct2[OF B], rule_format]
  have "at_state M' 1 (narrowed ex_A (\<lambda>\<rho>. eval \<rho> ex_branch = 1))"
    "at_state M' i (narrowed ex_A (\<lambda>\<rho>. eval \<rho> (createIsZero ex_branch) = 1))"
    using each[of 0 1] each[of 1 i] xy by (simp_all add: res)
  moreover have "i \<noteq> 1" using B xy by (simp add: res)
  ultimately show ?thesis using r xy by (auto simp: res)
qed

section \<open>Expressions\<close>

text \<open>
  C22. Every binary creator of \<open>Expr.cpp\<close>, whatever it folds, reassociates or simplifies,
  returns an expression of the same width and value as the operation it was asked for.
\<close>

theorem create_Binary_sound:
  assumes "create_Binary k l r = Some e" "wf_expr l" "wf_expr r" "getWidth l = getWidth r" "wf_env \<rho>"
  shows "wf_expr e \<and> getWidth e = (if isCmp k then 1 else getWidth l)
    \<and> eval \<rho> e = ap_op k (getWidth l) (eval \<rho> l) (eval \<rho> r)"
proof -
  have "wf_expr (Binary k l r)" using assms by simp
  from sem_eqD[OF create_Binary_sem_eq[OF assms(1)] this] assms show ?thesis by simp
qed

theorem create_Binary_sound_witness:
  "\<exists>e. create_Binary Sub (ex_byte 0) (ex_byte 1) = Some e \<and> eval ex_env e = 239"
proof -
  obtain e where e: "create_Binary Sub (ex_byte 0) (ex_byte 1) = Some e" by simp
  with create_Binary_sound[OF e _ _ _ ex_env_wf] ex_byte_wf[of 0] ex_byte_wf[of 1] ex_byte_values show ?thesis
    by (simp add: take_bit_eq_mod)
qed

text \<open>
  C23. The creators of the structural kinds: \<open>ExtractExpr::create\<close> and
  \<open>ConcatExpr::create\<close> slice and join bit vectors whatever nested extracts and
  concatenations they rewrite; a select, folded or turned into boolean operations, chooses by its
  condition; \<open>NotExpr\<close> complements; \<open>ZExt\<close> and \<open>SExt\<close> extend the unsigned
  and the signed value, or truncate to fewer bits.
\<close>

theorem create_structural_sound:
  assumes "wf_expr l" "wf_expr r" "0 < w" "off + w \<le> getWidth l + getWidth r" "wf_env \<rho>"
    and "wf_expr c" "getWidth c = 1" "wf_expr t" "wf_expr f" "getWidth t = getWidth f"
  shows "eval \<rho> (create_Concat l r) = eval \<rho> l * 2 ^ getWidth r + eval \<rho> r
    \<and> eval \<rho> (create_Extract (create_Concat l r) off w)
        = take_bit w (drop_bit off (eval \<rho> l * 2 ^ getWidth r + eval \<rho> r))
    \<and> eval \<rho> (create_Select c t f) = (if eval \<rho> c = 1 then eval \<rho> t else eval \<rho> f)
    \<and> eval \<rho> (create_Not t) = take_bit (getWidth t) (NOT (eval \<rho> t))
    \<and> eval \<rho> (create_ZExt t w) = take_bit w (eval \<rho> t)
    \<and> eval \<rho> (create_SExt t w) = take_bit w (sval (getWidth t) (eval \<rho> t))"
  using create_ConcatExtract_ok[OF assms(1-5)] create_casts_ok[OF assms(8,3,5)] select_ok[OF assms(6-10)] assms(5)
  by simp

theorem create_structural_sound_witness:
  "eval ex_env (create_Extract (create_Concat (ex_byte 0) (ex_byte 1)) 4 8) = 49
    \<and> eval ex_env (create_Select ex_cond (ex_byte 0) (ex_byte 1)) = 3
    \<and> eval ex_env (create_SExt (ex_byte 0) 8) = 3"
  using create_structural_sound[of "ex_byte 0" "ex_byte 1" 8 4 ex_env ex_cond "ex_byte 0" "ex_byte 1"]
    ex_cond_wf ex_byte_wf[of 0] ex_byte_wf[of 1] ex_env_wf ex_byte_values ex_cond_true
  by (simp add: sval_def take_bit_eq_mod drop_bit_eq_div)



text \<open>
  C25. \<open>Expr::compare\<close> is zero exactly on structurally equal expressions, and orders all
  others strictly, whatever the hashes are.
\<close>

theorem compare_total_order:
  assumes "pointer_order plt"
  shows "(compare hv plt a b = 0 \<longleftrightarrow> a = b) \<and> compare hv plt b a = - compare hv plt a b
    \<and> (compare hv plt a b < 0 \<and> compare hv plt b c < 0 \<longrightarrow> compare hv plt a c < 0)"
  using compare_eq[of hv plt a b] compare_swap(1)[OF assms, of hv b a] compare_tri(1)[OF assms, of hv a b c]
  by (simp add: tri_def)

theorem compare_total_order_witness:
  "compare ex_hv ex_plt (ex_byte 1) (ex_byte 0) = - compare ex_hv ex_plt (ex_byte 0) (ex_byte 1)"
  using compare_total_order[OF ex_plt_order] by blast

section \<open>Rewriting and path conditions\<close>

text \<open>
  C26. A traversal by an \<open>ExprVisitor\<close> whose methods replace expressions by equal ones (on
  the assignments of a set \<open>P\<close>) gives an equal expression, memo table included.
\<close>

theorem visit_sound:
  assumes "visitor_ok P V" "visit n V [] e = Inr (e', m)" "wf_expr e"
  shows "wf_expr e' \<and> getWidth e' = getWidth e \<and> (\<forall>\<rho>. wf_env \<rho> \<longrightarrow> P \<rho> \<longrightarrow> eval \<rho> e' = eval \<rho> e)"
  using visit_fun_okD[OF visit_ok[OF assms(1)] visited_ok_Nil assms(2)] sem_eq_onD[OF _ assms(3)] by blast

theorem visit_sound_witness:
  "\<exists>e' m. visit 9 (ExprReplaceVisitor (ex_byte 0) (Constant 8 3)) [] ex_cond = Inr (e', m)
    \<and> eval ex_env e' = 1"
proof -
  have "(case visit 9 (ExprReplaceVisitor (ex_byte 0) (Constant 8 3)) [] ex_cond of
      Inr _ \<Rightarrow> True | Inl _ \<Rightarrow> False)" by code_simp
  then obtain e' m where r: "visit 9 (ExprReplaceVisitor (ex_byte 0) (Constant 8 3)) [] ex_cond = Inr (e', m)"
    by (auto split: sum.splits)
  have "visitor_ok (\<lambda>\<rho>. eval \<rho> (ex_byte 0) = eval \<rho> (Constant 8 3)) (ExprReplaceVisitor (ex_byte 0) (Constant 8 3))"
    by (rule ExprReplaceVisitor_ok) (simp_all add: ex_byte_wf in_width_def)
  from visit_sound[OF this r ex_cond_wf(1)] ex_env_wf ex_byte_values ex_cond_true r show ?thesis by auto
qed

text \<open>
  C27. The traversal ends: with fuel above the size of the expression, a visitor that is not
  recursive and descends only into kids never runs out.
\<close>

theorem visit_terminates:
  assumes "descends V" "size e < n"
  shows "visit n V m e \<noteq> Inl OutOfFuel"
  by (rule visit_fuel[OF assms])

theorem visit_terminates_witness:
  "visit (Suc (size ex_cond)) (ExprReplaceVisitor (ex_byte 0) (ex_byte 1)) [] ex_cond \<noteq> Inl OutOfFuel"
  by (rule visit_terminates[OF ExprReplaceVisitor_descends]) simp

text \<open>
  C28. \<open>ConstraintManager::addConstraint\<close>: the new list denotes the conjunction of the old
  one and the new constraint, through every split and rewriting; "invalid constraint" is raised
  only when the conjunction has no solution.
\<close>

theorem addConstraint_conjunction:
  assumes "wf_constraints cs" "wf_expr e" "getWidth e = 1"
  shows "case addConstraint n cs e of
      Inr cs' \<Rightarrow> wf_constraints cs' \<and> (\<forall>\<rho>. wf_env \<rho> \<longrightarrow> (sat \<rho> cs' \<longleftrightarrow> sat \<rho> cs \<and> eval \<rho> e = 1))
    | Inl err \<Rightarrow> err = InvalidConstraint \<longrightarrow> (\<forall>\<rho>. wf_env \<rho> \<longrightarrow> \<not> (sat \<rho> cs \<and> eval \<rho> e = 1))"
  using adder_okD[OF addConstraint_ok assms, of n] by (auto split: sum.split)

theorem addConstraint_conjunction_witness:
  "case addConstraint 9 [ex_cond] (Binary Eq (Constant 8 3) (ex_byte 0)) of
      Inr cs' \<Rightarrow> sat ex_env cs' \<and> length cs' = 1 | Inl err \<Rightarrow> False"
proof -
  let ?e = "Binary Eq (Constant 8 3) (ex_byte 0)"
  have "case addConstraint 9 [ex_cond] ?e of Inr cs' \<Rightarrow> length cs' = 1 | Inl err \<Rightarrow> False" by code_simp
  moreover have "wf_constraints [ex_cond]" "wf_expr ?e" "getWidth ?e = 1"
    using ex_cond_wf ex_byte_wf[of 0] by (auto simp: in_width_def)
  moreover have "sat ex_env [ex_cond]" "eval ex_env ?e = 1" using ex_cond_true ex_byte_values by auto
  ultimately show ?thesis
    using addConstraint_conjunction[of "[ex_cond]" ?e 9] ex_env_wf by (auto split: sum.splits)
qed



section \<open>The contents of memory objects\<close>

text \<open>
  C30. Round trip: what \<open>write\<close> stores at a constant offset inside the object,
  \<open>read\<close> of the same bytes returns, for either byte order and any number of bytes.
\<close>

theorem write_read_roundtrip:
  assumes "wf_object os" "0 < n" "off + n \<le> os_size os" "wf_expr ve" "getWidth ve = 8 * n"
  shows "\<exists>os' e os''. write_const le off ve os = Inr os' \<and> wf_object os'
    \<and> read_const name le off (8 * n) os' = Inr (e, os'')
    \<and> (\<forall>\<rho>. wf_env \<rho> \<longrightarrow> eval \<rho> e = eval \<rho> ve)"
proof -
  from write_const_ok[OF assms, of le] obtain os' where w: "write_const le off ve os = Inr os'"
    "word_written os le n (\<lambda>\<rho>. int off) (\<lambda>\<rho>. eval \<rho> ve) os'" by blast
  note W = word_writtenD[OF w(2)]
  from read_const_ok[OF W(1) assms(2), of off name le] assms(3) W(2) obtain e os'' where
    r: "read_const name le off (8 * n) os' = Inr (e, os'')"
    "\<And>\<rho>. wf_env \<rho> \<Longrightarrow> eval \<rho> e = bytes_val (obj_bytes \<rho> le os' off n)" by auto
  have "eval \<rho> e = eval \<rho> ve" if "wf_env \<rho>" for \<rho>
    using r(2)[OF that] obj_bytes_written[OF w(2) assms(3) that] eval_take_bit[OF that assms(4)] assms(5) by simp
  with w(1) W(1) r(1) show ?thesis by blast
qed

theorem write_read_roundtrip_witness:
  "\<exists>os' e os''. write_const False 1 (Concat (ex_byte 0) (ex_byte 1)) (new_ObjectState 8) = Inr os'
    \<and> read_const [] False 1 16 os' = Inr (e, os'') \<and> eval ex_env e = 788"
proof -
  have v: "wf_expr (Concat (ex_byte 0) (ex_byte 1))" "getWidth (Concat (ex_byte 0) (ex_byte 1)) = 8 * 2"
    using ex_byte_wf by simp_all
  have o: "wf_object (new_ObjectState 8)" "1 + 2 \<le> os_size (new_ObjectState 8)"
    using wf_new_ObjectState(1)[of 8] by (simp_all add: new_ObjectState_def)
  from write_read_roundtrip[OF o(1) _ o(2) v, of False "[]"] ex_env_wf show ?thesis
    by (auto simp: ex_byte_values ex_byte_wf(2))
qed

text \<open>
  C31. A write at a symbolic offset: whenever it returns, under every assignment that puts the
  written bytes inside the object, exactly these bytes change.
\<close>

theorem write_sym_updates:
  assumes "wf_object os" "wf_expr off" "0 < n" "n < 2 ^ 32" "wf_expr ve" "getWidth ve = 8 * n"
    "write_sym le off ve os = Inr os'" "wf_env \<rho>" "offset32 off \<rho> + int n \<le> int (os_size os)"
    "p < os_size os"
  shows "wf_object os' \<and> os_size os' = os_size os
    \<and> obj_val \<rho> os' p = (if offset32 off \<rho> \<le> int p \<and> int p < offset32 off \<rho> + int n
        then byte_of (byte_index le n (p - nat (offset32 off \<rho>))) (eval \<rho> ve) else obj_val \<rho> os p)"
  using word_writtenD[OF write_sym_ok[OF assms(1-7)]] assms(8-10) by blast

theorem write_sym_updates_witness:
  "\<exists>os'. write_sym True (ex_byte 0) (Constant 8 77) (new_ObjectState 8) = Inr os'
    \<and> obj_val ex_env os' 3 = 77 \<and> obj_val ex_env os' 4 = 0"
proof -
  have "case write_sym True (ex_byte 0) (Constant 8 77) (new_ObjectState 8) of Inr _ \<Rightarrow> True | Inl _ \<Rightarrow> False"
    by code_simp
  then obtain os' where w: "write_sym True (ex_byte 0) (Constant 8 77) (new_ObjectState 8) = Inr os'"
    by (auto split: sum.splits)
  have o: "wf_object (new_ObjectState 8)" "os_size (new_ObjectState 8) = 8"
    using wf_new_ObjectState(1)[of 8] by (simp_all add: new_ObjectState_def)
  have v: "wf_expr (Constant 8 77)" "wf_expr (ex_byte 0)" using ex_byte_wf[of 0] by (auto simp: in_width_def)
  have "offset32 (ex_byte 0) ex_env = 3" by (simp add: ex_byte_values take_bit_eq_mod)
  with write_sym_updates[OF o(1) v(2) _ _ v(1) _ w ex_env_wf, of 1 3]
    write_sym_updates[OF o(1) v(2) _ _ v(1) _ w ex_env_wf, of 1 4] w o(2)
    wf_new_ObjectState(2)[of 8 4 ex_env]
  show ?thesis by (simp add: byte_index_def byte_of_def take_bit_eq_mod)
qed

text \<open>
  C32. A read at a symbolic offset: whenever it returns, its value under every assignment that
  puts the bytes inside the object is the value of these bytes.
\<close>

theorem read_sym_value:
  assumes "wf_object os" "wf_expr off" "0 < n" "n < 2 ^ 32"
    "read_sym name le off (8 * n) os = Inr (e, os')" "wf_env \<rho>" "offset32 off \<rho> + int n \<le> int (os_size os)"
  shows "same_contents os os' \<and> getWidth e = 8 * n
    \<and> eval \<rho> e = bytes_val (obj_bytes \<rho> le os (nat (offset32 off \<rho>)) n)"
  using read_sym_ok[OF assms(1-5)] assms(6,7) by blast

theorem read_sym_value_witness:
  "\<exists>e os'. read_sym ''c'' True (ex_byte 0) 8 (new_ObjectState 8) = Inr (e, os') \<and> eval ex_env e = 0"
proof -
  have "case read_sym ''c'' True (ex_byte 0) 8 (new_ObjectState 8) of Inr _ \<Rightarrow> True | Inl _ \<Rightarrow> False"
    by code_simp
  then obtain e os' where r: "read_sym ''c'' True (ex_byte 0) (8 * 1) (new_ObjectState 8) = Inr (e, os')"
    by (auto split: sum.splits)
  have o: "wf_object (new_ObjectState 8)" "os_size (new_ObjectState 8) = 8"
    using wf_new_ObjectState(1)[of 8] by (simp_all add: new_ObjectState_def)
  have "offset32 (ex_byte 0) ex_env = 3" by (simp add: ex_byte_values take_bit_eq_mod)
  with read_sym_value[OF o(1) ex_byte_wf(1) _ _ r ex_env_wf] o(2) r wf_new_ObjectState(2)[of 8 3 ex_env]
  show ?thesis by (auto simp: obj_bytes_def byte_index_def)
qed

section \<open>The persistent tree\<close>



text \<open>
  C34. The tree is a map: looking a key up after an operation gives what the operation says,
  where \<open>insert\<close> keeps an existing entry and \<open>replace\<close> overwrites it.
\<close>

theorem tree_map_laws:
  assumes "ordered kov (inorder t)"
  shows "tree_lookup kov k (tree_replace kov v t) = (if k = kov v then Some v else tree_lookup kov k t)
    \<and> tree_lookup kov k (tree_insert kov v t)
        = (if k = kov v \<and> tree_lookup kov k t = None then Some v else tree_lookup kov k t)
    \<and> tree_lookup kov k (tree_remove kov k' t) = (if k = k' then None else tree_lookup kov k t)"
  using lookup_replace[OF assms] lookup_insert[OF assms] lookup_remove[OF assms] by blast

theorem tree_map_laws_witness:
  "tree_lookup fst (1::nat) (tree_replace fst (1, ''b'') (tree_insert fst (1, ''a'') Terminator)) = Some (1, ''b'')"
  using tree_map_laws[of fst "tree_insert fst (1::nat, ''a'') Terminator" 1 "(1, ''b'')"] by simp

section \<open>Solvers\<close>



text \<open>
  C36. \<open>Solver::getRange\<close>: the two constants it returns are the least and the greatest value
  that the expression takes under the constraints, for any solver that keeps the contract.
\<close>

theorem getRange_exact:
  assumes "solver_impl S ok m" "ok s" "wf_query q" "m = MustAnswer \<Longrightarrow> getWidth (q_expr q) \<le> 64"
  shows "runs m ok (\<lambda>(lo, hi). \<exists>l h. lo = Constant (getWidth (q_expr q)) l \<and> hi = Constant (getWidth (q_expr q)) h
      \<and> l \<in> values_of q \<and> h \<in> values_of q \<and> values_of q \<subseteq> {l..h}) (getRange S q s)"
  using solver_impl.getRange_ok[OF assms] by (simp add: is_range_def)

theorem getRange_exact_witness:
  "getRange ideal_impl ex_value_query () = Inr ((Constant 8 0, Constant 8 9), ())"
proof -
  have "(l, h) = (0, 9)" if "l \<in> {0..<10}" "h \<in> {0..<10}" "{0..<10} \<subseteq> {l..h}" for l h :: int
    using that subsetD[OF that(3), of 0] subsetD[OF that(3), of 9] by auto
  with getRange_exact[OF ideal.solver_impl_axioms TrueI ex_value_query_wf(1), of "()"] ex_value_query_wf(2)
  show ?thesis by (auto simp: runs_def ex_values split: sum.splits prod.splits)
qed

text \<open>
  C37. The query cache is never wrong: over a solver that keeps the contract, with any hash and
  any order of heap pointers, both kinds of answer are those of the solver below, and whatever is
  stored on the way stays true, also for the negated query that shares its entry.
\<close>

theorem query_cache_transparent:
  assumes "solver_impl S ok m" "caching_ok ok cs" "bool_query q"
  shows "answers m (caching_ok ok) (\<lambda>b. b = valid q) (computeTruth (CachingSolver hv plt S) q cs)
    \<and> answers m (caching_ok ok) (\<lambda>v. v = validity_of q) (computeValidity (CachingSolver hv plt S) q cs)"
  using solver_impl.caching_contract[OF assms(1), THEN solver_impl.truth, OF assms(2,3), of hv plt]
    solver_impl.caching_contract[OF assms(1), THEN solver_impl.validity, OF assms(2,3), of hv plt]
  by blast

theorem query_cache_transparent_witness:
  "\<exists>cs1 cs2. computeTruth (CachingSolver ex_hv ex_plt ideal_impl) (ex_query 5) ([], ()) = Inr (Some False, cs1)
    \<and> computeValidity (CachingSolver ex_hv ex_plt ideal_impl) (ex_query 5) cs1 = Inr (Some SolverUnknown, cs2)"
proof -
  have q: "bool_query (ex_query 5)" by (simp add: ex_query_wf)
  have s: "caching_ok (\<lambda>_. True) ([], ())" by (simp add: caching_ok_def cache_ok_def)
  have v: "\<not> valid (ex_query 5)"
    using ex_query_validity(2) by (auto simp: validity_of_def split: if_splits)
  note cache = query_cache_transparent[OF ideal.solver_impl_axioms _ q, of _ ex_hv ex_plt]
  obtain cs1 where cs1: "caching_ok (\<lambda>_. True) cs1"
    "computeTruth (CachingSolver ex_hv ex_plt ideal_impl) (ex_query 5) ([], ()) = Inr (Some False, cs1)"
    using cache[OF s] v answers_MustAnswer by fastforce
  moreover obtain cs2 where
    "computeValidity (CachingSolver ex_hv ex_plt ideal_impl) (ex_query 5) cs1 = Inr (Some SolverUnknown, cs2)"
    using cache[OF cs1(1)] answers_MustAnswer by (fastforce simp: ex_query_validity)
  ultimately show ?thesis by blast
qed

text \<open>
  C38. The independence solver loses nothing: the constraints that \<open>getIndependentConstraints\<close>
  keeps for a query are some of the path's, and under them alone the query takes exactly the values
  that it takes under the whole path.
\<close>

theorem independent_constraints_suffice:
  assumes "wf_query q"
  shows "\<exists>c required. getIndependentConstraints q = Inr (c, required)
    \<and> set required \<subseteq> set (q_constraints q)
    \<and> values_of \<lparr>q_constraints = required, q_expr = q_expr q\<rparr> = values_of q"
  using independent_values[OF assms] by metis

theorem independent_constraints_suffice_witness:
  "\<exists>c required. getIndependentConstraints (ex_query 5) = Inr (c, required)
    \<and> values_of \<lparr>q_constraints = required, q_expr = q_expr (ex_query 5)\<rparr> = values_of (ex_query 5)"
proof -
  have "wf_query (ex_query 5)" by (rule bool_query_wf[OF ex_query_wf]) simp_all
  from independent_constraints_suffice[OF this] show ?thesis by blast
qed

text \<open>
  C39. The factors of a query can be solved apart: \<open>getAllIndependentConstraintsSets\<close> splits the
  constraints and the negated query, none lost and none doubled, and all of them together can be
  satisfied iff each factor can.
\<close>

theorem factors_solved_apart:
  assumes "factor_exprs q = Inr es" "\<forall>e \<in> set es. wf_expr e"
  shows "\<exists>fs. getAllIndependentConstraintsSets q = Inr fs \<and> all_exprs fs = mset es
    \<and> (feasible es \<longleftrightarrow> (\<forall>f \<in> set fs. feasible (ies_exprs f)))"
  using getAll_ok[OF assms] factors_feasible[OF assms] by metis

theorem factors_solved_apart_witness:
  "\<exists>fs. getAllIndependentConstraintsSets (ex_query 5) = Inr fs
    \<and> all_exprs fs = mset [createIsZero (q_expr (ex_query 5)), ex_cond]"
proof -
  have q: "bool_query (ex_query 5)" by (simp add: ex_query_wf)
  have "factor_exprs (ex_query 5) = Inr [createIsZero (q_expr (ex_query 5)), ex_cond]" by code_simp
  moreover have "\<forall>e \<in> set [createIsZero (q_expr (ex_query 5)), ex_cond]. wf_expr e"
    using ex_cond_wf createIsZero_facts(1)[OF wf_query_parts(2)[OF bool_query_wf[OF q]]] by simp
  ultimately show ?thesis using factors_solved_apart by blast
qed

text \<open>
  C40. The searches of the counterexample cache: in a \<open>MapOfSets\<close>, whose keys are sets in
  ascending order, \<open>lookup\<close> finds what \<open>insert\<close> put there, and \<open>findSubset\<close> and
  \<open>findSuperset\<close> find an entry under a subset, or a superset, of the key whose value the
  predicate accepts, whenever there is one.
\<close>

theorem map_of_sets_searches:
  assumes lt: "strict_order lt" and t: "mos_ok lt t" and ks: "sorted_wrt lt ks" and p: "total_predicate p"
  shows "mos_ok lt (mos_insert lt v0 ks' v t)
    \<and> mos_lookup (mos_insert lt v0 ks' v t) ks = (if ks = ks' then Some v else mos_lookup t ks)
    \<and> (case findSubset lt p t ks of
         Inr (Some r) \<Rightarrow> \<exists>l. set l \<subseteq> set ks \<and> mos_lookup t l = Some r \<and> p r = Inr True
       | Inr None \<Rightarrow> \<forall>l r. sorted_wrt lt l \<and> set l \<subseteq> set ks \<and> mos_lookup t l = Some r \<longrightarrow> p r = Inr False
       | Inl err \<Rightarrow> False)
    \<and> (case findSuperset p t ks of
         Inr (Some r) \<Rightarrow> \<exists>l. set ks \<subseteq> set l \<and> mos_lookup t l = Some r \<and> p r = Inr True
       | Inr None \<Rightarrow> \<forall>l r. sorted_wrt lt l \<and> set ks \<subseteq> set l \<and> mos_lookup t l = Some r \<longrightarrow> p r = Inr False
       | Inl err \<Rightarrow> False)"
  using mos_insert_ok[OF lt t] mos_lookup_insert[OF lt t, of v0 ks' v ks]
    findSubset_spec[OF lt t ks p] findSuperset_spec[OF lt t ks p]
  by blast

theorem map_of_sets_searches_witness:
  "\<exists>l. set l \<subseteq> {1, 2, 3 :: nat} \<and> mos_lookup (mos_insert (<) ''?'' [1, 3] ''a'' (mos_empty ''?'')) l = Some ''a''"
proof -
  let ?t = "mos_insert (<) ''?'' [1 :: nat, 3] ''a'' (mos_empty ''?'')"
  have lt: "strict_order ((<) :: nat \<Rightarrow> nat \<Rightarrow> bool)" by (auto simp: strict_order_def)
  let ?p = "\<lambda>v. Inr (v = ''a'')"
  have t: "mos_ok (<) ?t" by (rule mos_insert_ok[OF lt mos_ok_empty])
  have ks: "sorted_wrt (<) [1, 2, 3 :: nat]" and p: "total_predicate ?p" by (simp_all add: total_predicate_def)
  have "findSubset (<) ?p ?t [1, 2, 3] = Inr (Some ''a'')" by code_simp
  with map_of_sets_searches[OF lt t ks p] have "\<exists>l. set l \<subseteq> set [1, 2, 3] \<and> mos_lookup ?t l = Some ''a''"
    by fastforce
  then show ?thesis by simp
qed

end
